(* ===== verification/Prelude.thy ===== *)
theory Prelude
  imports Main "HOL-Library.Word" "HOL-Library.Sublist"
begin

unbundle bit_operations_syntax

text \<open>
  The vocabulary the component theories share.

  \<^item> Go's machine integers: \<open>wrap64\<close> is the two's-complement value an \<open>int\<close> or \<open>int64\<close>
    expression has after overflow, and \<open>go_sign\<close> the sign of a difference.
  \<^item> Go's strings are byte sequences, modelled as \<^typ>\<open>string\<close> (a list of bytes). The functions
    of package strings and strconv the sources call are here: prefixes, splitting, trimming,
    replacing, decimal printing and \<open>Atoi\<close>.
  \<^item> \<open>fmt.Sprintf\<close> is kept symbolic: a message is its format string and its arguments, so that a
    verdict's message is compared without modelling the rendering.
  \<^item> \<open>first_some\<close> is the shape of a chain of guards with early returns.
  \<^item> The \<open>named_theorems\<close> collections carry the component proofs: \<open>go_simps\<close> for the string
    and integer helpers, \<open>inv_intros\<close> for preservation of invariants.
\<close>

named_theorems go_simps
named_theorems inv_intros

section \<open>Integers\<close>

type_synonym u32 = "32 word"
type_synonym u64 = "64 word"

definition int64_min :: int where
  "int64_min = - (2 ^ 63)"

definition int64_max :: int where
  "int64_max = 2 ^ 63 - 1"

text \<open>The value a 64-bit signed expression takes once its exact value is \<open>n\<close>.\<close>

definition wrap64 :: "int \<Rightarrow> int" where
  "wrap64 n = (n + 2 ^ 63) mod 2 ^ 64 - 2 ^ 63"

definition go_sign :: "int \<Rightarrow> int" where
  "go_sign n = (if n < 0 then - 1 else if n > 0 then 1 else 0)"

lemma wrap64_id [go_simps]:
  assumes "int64_min \<le> n" "n \<le> int64_max"
  shows "wrap64 n = n"
  using assms by (simp add: wrap64_def int64_min_def int64_max_def)

lemma wrap64_range: "int64_min \<le> wrap64 n \<and> wrap64 n \<le> int64_max"
  by (simp add: wrap64_def int64_min_def int64_max_def)

lemma go_sign_simps [go_simps]:
  "go_sign n = 0 \<longleftrightarrow> n = 0"
  "go_sign n = - 1 \<longleftrightarrow> n < 0"
  "go_sign n = 1 \<longleftrightarrow> n > 0"
  "0 < go_sign n \<longleftrightarrow> 0 < n"
  "go_sign n < 0 \<longleftrightarrow> n < 0"
  by (auto simp: go_sign_def)

lemma go_sign_minus [go_simps]: "go_sign (- n) = - go_sign n"
  by (simp add: go_sign_def)

text \<open>Go's division truncates toward zero and \<open>%\<close> takes the sign of the dividend.\<close>

definition go_quot :: "int \<Rightarrow> int \<Rightarrow> int" where
  "go_quot a b = (if 0 \<le> a then a div b else - ((- a) div b))"

definition go_rem :: "int \<Rightarrow> int \<Rightarrow> int" where
  "go_rem a b = a - b * go_quot a b"

section \<open>Messages\<close>

text \<open>\<open>FAddr\<close> is an address passed to a verb: its width in bits, its value and its zone.\<close>

datatype fmt_arg = FStr string | FInt int | FAddr nat int string

datatype message = Sprintf string "fmt_arg list"

section \<open>Chains of guards\<close>

text \<open>
  \<open>first_some\<close> is the first guard that fires, in source order: \<open>if c1 { return r1 }; if c2
  { return r2 }; ...\<close>.
\<close>

fun first_some :: "'a option list \<Rightarrow> 'a option" where
  "first_some [] = None"
| "first_some (None # xs) = first_some xs"
| "first_some (Some x # xs) = Some x"

lemma first_some_None_iff [simp]: "first_some xs = None \<longleftrightarrow> (\<forall>x \<in> set xs. x = None)"
  by (induction xs rule: first_some.induct) auto

lemma first_some_mem: "first_some xs = Some x \<Longrightarrow> Some x \<in> set xs"
  by (induction xs rule: first_some.induct) auto

lemma first_some_pred:
  "\<forall>x \<in> set xs. pred_option P x \<Longrightarrow> first_some xs = Some v \<Longrightarrow> P v"
  by (drule first_some_mem) fastforce

section \<open>The first element of a list with a property\<close>

lemma find_SomeD: "find P xs = Some x \<Longrightarrow> x \<in> set xs \<and> P x"
  by (induction xs) (auto split: if_splits)

lemma find_filter: "find P xs = Some x \<Longrightarrow> \<exists>ys. filter P xs = x # ys"
  by (induction xs) (auto split: if_splits)

section \<open>Strings\<close>

abbreviation byte :: "char \<Rightarrow> nat" where
  "byte c \<equiv> of_char c"

definition has_prefix :: "string \<Rightarrow> string \<Rightarrow> bool" where
  "has_prefix s p \<longleftrightarrow> take (length p) s = p"

lemma has_prefix_iff: "has_prefix s p \<longleftrightarrow> prefix p s"
  by (auto simp: has_prefix_def prefix_def) (metis append_take_drop_id)

text \<open>\<open>strings.Split(s, sep)\<close> for a one-byte separator: always at least one field.\<close>

fun split_on :: "char \<Rightarrow> string \<Rightarrow> string list" where
  "split_on sep [] = [[]]"
| "split_on sep (c # cs) =
     (if c = sep then [] # split_on sep cs
      else (case split_on sep cs of [] \<Rightarrow> [[c]] | f # fs \<Rightarrow> (c # f) # fs))"

text \<open>\<open>strings.Join(fs, sep)\<close>.\<close>

fun join_with :: "char \<Rightarrow> string list \<Rightarrow> string" where
  "join_with sep [] = []"
| "join_with sep [f] = f"
| "join_with sep (f # g # fs) = f @ sep # join_with sep (g # fs)"

lemma split_on_not_Nil [simp]: "split_on sep s \<noteq> []"
  by (cases s) (auto split: list.splits)

lemma join_split [simp]: "join_with sep (split_on sep s) = s"
proof (induction s)
  case (Cons c s)
  obtain f fs where s: "split_on sep s = f # fs"
    by (meson list.exhaust split_on_not_Nil)
  with Cons show ?case
    by (cases fs) auto
qed simp

lemma split_on_no_sep: "sep \<notin> set s \<Longrightarrow> split_on sep s = [s]"
  by (induction s) auto

lemma split_on_append:
  "sep \<notin> set f \<Longrightarrow> split_on sep (f @ sep # s) = f # split_on sep s"
  by (induction f) auto

lemma split_join:
  assumes "fs \<noteq> []" "\<forall>f \<in> set fs. sep \<notin> set f"
  shows "split_on sep (join_with sep fs) = fs"
  using assms
  by (induction sep fs rule: join_with.induct) (auto simp: split_on_no_sep split_on_append)

lemma split_on_field_no_sep: "f \<in> set (split_on sep s) \<Longrightarrow> sep \<notin> set f"
  by (induction s arbitrary: f) (auto split: if_splits list.splits)

text \<open>
  \<open>strings.TrimSpace\<close>. The white space of package unicode, as UTF-8 byte sequences: no one of
  them is a proper suffix or prefix of another, so cutting them off one at a time from either
  end is what decoding rune by rune does.
\<close>

definition space_encodings :: "string list" where
  "space_encodings =
     [[CHR 0x09], [CHR 0x0A], [CHR 0x0B], [CHR 0x0C], [CHR 0x0D], [CHR 0x20],
      [CHR 0xC2, CHR 0x85], [CHR 0xC2, CHR 0xA0], [CHR 0xE1, CHR 0x9A, CHR 0x80]]
     @ map (\<lambda>b. [CHR 0xE2, CHR 0x80, char_of b])
         ([0x80, 0x81, 0x82, 0x83, 0x84, 0x85, 0x86, 0x87, 0x88, 0x89, 0x8A, 0xA8, 0xA9, 0xAF] :: nat list)
     @ [[CHR 0xE2, CHR 0x81, CHR 0x9F], [CHR 0xE3, CHR 0x80, CHR 0x80]]"

lemma space_encodings_not_Nil: "e \<in> set space_encodings \<Longrightarrow> e \<noteq> []"
  by (auto simp: space_encodings_def)

definition space_prefix :: "string \<Rightarrow> nat" where
  "space_prefix s = (case find (\<lambda>e. has_prefix s e) space_encodings of
     None \<Rightarrow> 0 | Some e \<Rightarrow> length e)"

lemma drop_shrinks: "n \<le> length s \<Longrightarrow> 0 < n \<Longrightarrow> length s - n < length s"
  by simp

lemma space_prefix_le: "space_prefix s \<le> length s"
  by (auto simp: space_prefix_def has_prefix_def find_Some_iff split: option.splits)
     (metis length_take min.cobounded1)

function trim_left :: "string \<Rightarrow> string" where
  "trim_left s = (if space_prefix s = 0 then s else trim_left (drop (space_prefix s) s))"
  by pat_completeness auto
termination
  by (relation "measure length") (auto intro: drop_shrinks space_prefix_le)

declare trim_left.simps [simp del]

definition space_suffix :: "string \<Rightarrow> nat" where
  "space_suffix s = (case find (\<lambda>e. has_prefix (rev s) (rev e)) space_encodings of
     None \<Rightarrow> 0 | Some e \<Rightarrow> length e)"

lemma space_suffix_le: "space_suffix s \<le> length s"
  by (auto simp: space_suffix_def has_prefix_def find_Some_iff split: option.splits)
     (metis length_rev length_take min.cobounded1)

function trim_right :: "string \<Rightarrow> string" where
  "trim_right s = (if space_suffix s = 0 then s
     else trim_right (take (length s - space_suffix s) s))"
  by pat_completeness auto
termination
  by (relation "measure length") (auto intro: drop_shrinks space_suffix_le)

declare trim_right.simps [simp del]

definition trim_space :: "string \<Rightarrow> string" where
  "trim_space s = trim_right (trim_left s)"


section \<open>Decimal numbers\<close>

definition is_digit :: "char \<Rightarrow> bool" where
  "is_digit c \<longleftrightarrow> 48 \<le> byte c \<and> byte c \<le> 57"

definition digit_char :: "nat \<Rightarrow> char" where
  "digit_char d = char_of (48 + d)"

definition digit_val :: "char \<Rightarrow> nat" where
  "digit_val c = byte c - 48"

text \<open>\<open>fmt.Sprintf("%d", n)\<close> and \<open>strconv.Itoa\<close> on a natural number.\<close>

fun dec :: "nat \<Rightarrow> string" where
  "dec n = (if n < 10 then [] else dec (n div 10)) @ [digit_char (n mod 10)]"

declare dec.simps [simp del]

definition undec :: "string \<Rightarrow> int" where
  "undec = foldl (\<lambda>a c. 10 * a + int (digit_val c)) 0"

lemma digit_char_simps [simp]:
  "d < 10 \<Longrightarrow> is_digit (digit_char d)"
  "d < 10 \<Longrightarrow> digit_val (digit_char d) = d"
  by (simp_all add: is_digit_def digit_char_def digit_val_def)

lemma undec_snoc [simp]: "undec (s @ [c]) = 10 * undec s + int (digit_val c)"
  by (simp add: undec_def)

lemma undec_Nil [simp]: "undec [] = 0"
  by (simp add: undec_def)

lemma undec_nonneg: "0 \<le> undec s"
  by (induction s rule: rev_induct) auto

lemma undec_dec [simp]: "undec (dec n) = int n"
proof (induction n rule: dec.induct)
  case (1 n)
  show ?case
  proof (cases "n < 10")
    case True
    then show ?thesis by (subst dec.simps) (simp add: undec_def)
  next
    case False
    then have "undec (dec (n div 10)) = int (n div 10)"
      using 1 by blast
    then show ?thesis
      using False by (subst dec.simps) (simp add: zdiv_int zmod_int)
  qed
qed

lemma dec_not_Nil [simp]: "dec n \<noteq> []"
  by (subst dec.simps) simp

lemma dec_digits: "\<forall>c \<in> set (dec n). is_digit c"
proof (induction n rule: dec.induct)
  case (1 n)
  then show ?case by (subst dec.simps) auto
qed

lemma digit_char_zero_iff: "d < 10 \<Longrightarrow> digit_char d = CHR ''0'' \<longleftrightarrow> d = 0"
proof -
  assume "d < 10"
  have "digit_char d = CHR ''0'' \<longleftrightarrow> byte (digit_char d) = byte CHR ''0''"
    by (simp only: of_char_eq_iff)
  also have "\<dots> \<longleftrightarrow> d = 0" using \<open>d < 10\<close> by (simp add: digit_char_def)
  finally show ?thesis .
qed

text \<open>No leading zero: the first digit of a positive number is not \<open>0\<close>.\<close>

lemma hd_dec: "0 < n \<Longrightarrow> hd (dec n) \<noteq> CHR ''0''"
proof (induction n rule: dec.induct)
  case (1 n)
  show ?case
  proof (cases "n < 10")
    case True
    with 1 show ?thesis by (subst dec.simps) (simp add: digit_char_zero_iff)
  next
    case False
    with 1 have "hd (dec (n div 10)) \<noteq> CHR ''0''" by simp
    with False show ?thesis by (subst dec.simps) simp
  qed
qed

lemma dec_zero: "dec 0 = ''0''"
  by (subst dec.simps) (simp add: digit_char_zero_iff)

text \<open>
  \<open>strconv.Atoi\<close>: an optional sign and decimal digits within an \<open>int64\<close>. \<open>atoi_value\<close> is the
  value it returns beside the error: 0 for a syntax error, the nearest bound when out of range.
\<close>

datatype atoi_result = AtoiOK int | AtoiSyntax | AtoiRange int

definition atoi_full :: "string \<Rightarrow> atoi_result" where
  "atoi_full s =
     (let neg = (s \<noteq> [] \<and> hd s = CHR ''-'');
          ds = (if s \<noteq> [] \<and> (hd s = CHR ''-'' \<or> hd s = CHR ''+'') then tl s else s);
          n = undec ds
      in if ds = [] \<or> \<not> list_all is_digit ds then AtoiSyntax
         else if neg then (if n > 2 ^ 63 then AtoiRange int64_min else AtoiOK (- n))
         else (if n > int64_max then AtoiRange int64_max else AtoiOK n))"

definition atoi :: "string \<Rightarrow> int option" where
  "atoi s = (case atoi_full s of AtoiOK n \<Rightarrow> Some n | _ \<Rightarrow> None)"

definition atoi_value :: "string \<Rightarrow> int" where
  "atoi_value s = (case atoi_full s of AtoiOK n \<Rightarrow> n | AtoiSyntax \<Rightarrow> 0 | AtoiRange n \<Rightarrow> n)"

lemma atoi_range: "atoi s = Some n \<Longrightarrow> int64_min \<le> n \<and> n \<le> int64_max"
  using undec_nonneg [of s] undec_nonneg [of "tl s"]
  by (auto simp: atoi_def atoi_full_def Let_def int64_min_def int64_max_def
      split: atoi_result.splits if_splits)

lemma digit_not_sign: "is_digit c \<Longrightarrow> c \<noteq> CHR ''-'' \<and> c \<noteq> CHR ''+'' \<and> c \<noteq> CHR ''.'' \<and> c \<noteq> CHR ''/''"
  by (auto simp: is_digit_def)

lemma atoi_full_dec:
  assumes "int n \<le> int64_max"
  shows "atoi_full (dec n) = AtoiOK (int n)"
proof -
  have "is_digit (hd (dec n))" using dec_digits [of n] by simp
  then have "hd (dec n) \<noteq> CHR ''-''" "hd (dec n) \<noteq> CHR ''+''"
    by (simp_all add: digit_not_sign)
  moreover have "list_all is_digit (dec n)" using dec_digits by (simp add: list_all_iff)
  ultimately show ?thesis using assms by (simp add: atoi_full_def Let_def)
qed

lemma atoi_dec [simp]: "int n \<le> int64_max \<Longrightarrow> atoi (dec n) = Some (int n)"
  by (simp add: atoi_def atoi_full_dec)

lemma atoi_value_dec [simp]: "int n \<le> int64_max \<Longrightarrow> atoi_value (dec n) = int n"
  by (simp add: atoi_value_def atoi_full_dec)

text \<open>Signed printing, \<open>%d\<close> on an \<open>int\<close>.\<close>

definition dec_int :: "int \<Rightarrow> string" where
  "dec_int n = (if n < 0 then CHR ''-'' # dec (nat (- n)) else dec (nat n))"

section \<open>Finding and replacing\<close>

text \<open>
  \<open>strings.ReplaceAll(s, old, new)\<close> for a non-empty \<open>old\<close>: the non-overlapping occurrences from
  the left.
\<close>

function replace_all :: "string \<Rightarrow> string \<Rightarrow> string \<Rightarrow> string" where
  "replace_all old new s =
     (if old = [] then s
      else if has_prefix s old then new @ replace_all old new (drop (length old) s)
      else case s of [] \<Rightarrow> [] | c # cs \<Rightarrow> c # replace_all old new cs)"
  by pat_completeness auto
termination
  by (relation "measure (\<lambda>(old, new, s). length s)")
     (auto simp: has_prefix_def intro!: drop_shrinks, metis length_take min.cobounded1)

declare replace_all.simps [simp del]

text \<open>\<open>strings.Contains(s, w)\<close>.\<close>

definition contains_str :: "string \<Rightarrow> string \<Rightarrow> bool" where
  "contains_str s w \<longleftrightarrow> sublist w s"

section \<open>Sorting by a key\<close>

text \<open>
  \<open>sort.Slice\<close> with a strict order on a key, and \<open>slices.SortStableFunc\<close>: the stable insertion
  sort of the library. (\<open>sort.Slice\<close> is itself an insertion sort up to twelve elements; beyond
  that it agrees wherever the keys differ.)
\<close>

lemma sort_key_filter_hd:
  assumes "filter P (sort_key f xs) = y # ys" "x \<in> set xs" "P x"
  shows "f y \<le> f x"
proof -
  have s: "sorted (map f (filter P (sort_key f xs)))"
    by (simp add: sorted_filter)
  have "x \<in> set (filter P (sort_key f xs))" using assms(2,3) by simp
  then have "x \<in> set (y # ys)" unfolding assms(1) .
  with s assms(1) show ?thesis by auto
qed

section \<open>Leading bits of words\<close>

lemma drop_bit_xor_0_iff: "drop_bit k (x XOR y) = 0 \<longleftrightarrow> drop_bit k x = drop_bit k y" for x y :: "'a::len word"
  by (auto simp: bit_eq_iff bit_simps)

lemma and_not_mask_eq_iff: "x AND NOT (mask k) = y AND NOT (mask k) \<longleftrightarrow> drop_bit k x = drop_bit k y"
  for x y :: "'a::len word"
proof
  assume a: "x AND NOT (mask k) = y AND NOT (mask k)"
  show "drop_bit k x = drop_bit k y"
  proof (rule bit_eqI)
    fix n
    have "bit (x AND NOT (mask k)) (k + n) = bit (y AND NOT (mask k)) (k + n)" by (simp only: a)
    then show "bit (drop_bit k x) n = bit (drop_bit k y) n"
      by (auto simp: bit_simps dest: bit_imp_le_length)
  qed
next
  assume a: "drop_bit k x = drop_bit k y"
  show "x AND NOT (mask k) = y AND NOT (mask k)"
  proof (rule bit_eqI)
    fix n
    have "bit (drop_bit k x) (n - k) = bit (drop_bit k y) (n - k)" by (simp only: a)
    then show "bit (x AND NOT (mask k)) n = bit (y AND NOT (mask k)) n"
      by (auto simp: bit_simps)
  qed
qed

lemma xor_and_not_mask_0_iff: "(x XOR y) AND NOT (mask k) = 0 \<longleftrightarrow> drop_bit k x = drop_bit k y"
  for x y :: "'a::len word"
proof -
  have "(x XOR y) AND NOT (mask k) = 0 \<longleftrightarrow> drop_bit k (x XOR y) = 0"
    using and_not_mask_eq_iff [of "x XOR y" k 0] by (simp del: drop_bit_xor)
  then show ?thesis by (simp only: drop_bit_xor_0_iff)
qed

lemma drop_bit_mono: "k \<le> l \<Longrightarrow> drop_bit k x = drop_bit k y \<Longrightarrow> drop_bit l x = drop_bit l y" for x y :: "'a::len word"
proof -
  assume "k \<le> l" and eq: "drop_bit k x = drop_bit k y"
  then have "drop_bit l z = drop_bit (l - k) (drop_bit k z)" for z :: "'a word"
    by (simp add: drop_bit_drop_bit)
  then show ?thesis by (simp only: eq)
qed

text \<open>The row with a key, where keys are unique.\<close>

lemma find_by_key: "distinct (map f xs) \<Longrightarrow> x \<in> set xs \<Longrightarrow> find (\<lambda>y. f y = f x) xs = Some x"
  by (induction xs) (auto simp: rev_image_eqI)

text \<open>\<open>strings.EqualFold\<close> against a word of ASCII letters that no other letter folds to.\<close>

definition lower_char :: "char \<Rightarrow> char" where
  "lower_char c = (if 65 \<le> byte c \<and> byte c \<le> 90 then char_of (byte c + 32) else c)"

end
