(* ===== verification/Netip.thy ===== *)
theory Netip
  imports Prelude
begin

text \<open>
  The part of Go's standard library that reads and compares IP addresses, as the sources use it:
  \<open>netip.ParseAddr\<close>, \<open>netip.ParsePrefix\<close>, \<open>Prefix.Contains\<close>, \<open>Prefix.Overlaps\<close>, \<open>Prefix.Masked\<close>,
  \<open>Addr.Unmap\<close> and their kin, and \<open>net.ParseIP\<close>, \<open>net.ParseCIDR\<close>, \<open>IPNet.Contains\<close>. Addresses are
  machine words, \<^typ>\<open>32 word\<close> and \<^typ>\<open>128 word\<close>. The lemmas give the meaning the components rely
  on: parsing inverts printing, membership is agreement of the leading bits, and two prefixes
  overlap exactly when they have an address in common.
\<close>

unbundle bit_operations_syntax

section \<open>Addresses\<close>

datatype addr = V4 "32 word" | V6 "128 word" string

definition is4 :: "addr \<Rightarrow> bool" where
  "is4 a = (case a of V4 _ \<Rightarrow> True | V6 _ _ \<Rightarrow> False)"

definition zone :: "addr \<Rightarrow> string" where
  "zone a = (case a of V4 _ \<Rightarrow> [] | V6 _ z \<Rightarrow> z)"

definition bit_len :: "addr \<Rightarrow> nat" where
  "bit_len a = (case a of V4 _ \<Rightarrow> 32 | V6 _ _ \<Rightarrow> 128)"

text \<open>\<open>octet w k\<close> is byte \<open>k\<close> of an IPv4 address, 0 the lowest.\<close>

definition octet :: "32 word \<Rightarrow> nat \<Rightarrow> nat" where
  "octet w k = unat (drop_bit (8 * k) w AND 0xFF)"

definition of_octets :: "nat \<Rightarrow> nat \<Rightarrow> nat \<Rightarrow> nat \<Rightarrow> 32 word" where
  "of_octets a b c d = ((of_nat a * 256 + of_nat b) * 256 + of_nat c) * 256 + of_nat d"

definition is4in6 :: "addr \<Rightarrow> bool" where
  "is4in6 a = (case a of V4 _ \<Rightarrow> False | V6 w _ \<Rightarrow> drop_bit 32 w = 0xFFFF)"

definition unmap :: "addr \<Rightarrow> addr" where
  "unmap a = (case a of V6 w z \<Rightarrow> if drop_bit 32 w = 0xFFFF then V4 (ucast w) else a | V4 _ \<Rightarrow> a)"

text \<open>\<open>Addr.String\<close> on an IPv4 address.\<close>

definition show_ipv4 :: "32 word \<Rightarrow> string" where
  "show_ipv4 w = join_with CHR ''.'' (map (\<lambda>k. dec (octet w k)) [3, 2, 1, 0])"

section \<open>Parsing addresses\<close>

definition parse_octet :: "string \<Rightarrow> nat option" where
  "parse_octet s = (if s \<noteq> [] \<and> list_all is_digit s \<and> (tl s = [] \<or> hd s \<noteq> CHR ''0'') \<and> undec s \<le> 255
     then Some (nat (undec s)) else None)"

definition parse_ipv4 :: "string \<Rightarrow> 32 word option" where
  "parse_ipv4 s = (case map parse_octet (split_on CHR ''.'' s) of
      [Some a, Some b, Some c, Some d] \<Rightarrow> Some (of_octets a b c d)
    | _ \<Rightarrow> None)"

definition hex_val :: "char \<Rightarrow> nat option" where
  "hex_val c = (if is_digit c then Some (byte c - 48)
     else if 97 \<le> byte c \<and> byte c \<le> 102 then Some (byte c - 97 + 10)
     else if 65 \<le> byte c \<and> byte c \<le> 70 then Some (byte c - 65 + 10)
     else None)"

definition is_hex :: "char \<Rightarrow> bool" where
  "is_hex c \<longleftrightarrow> hex_val c \<noteq> None"

definition hex_num :: "string \<Rightarrow> 16 word" where
  "hex_num = foldl (\<lambda>a c. push_bit 4 a + (case hex_val c of Some d \<Rightarrow> of_nat d | None \<Rightarrow> 0)) 0"

text \<open>
  The loop of \<open>parseIPv6\<close>: the groups read so far (two bytes each) and where the ellipsis stood.
  The result is the unread rest, the groups and the ellipsis, or an error.
\<close>

function parse_v6_loop ::
  "string \<Rightarrow> 16 word list \<Rightarrow> nat option \<Rightarrow> (string \<times> 16 word list \<times> nat option) option" where
  "parse_v6_loop s gs el =
     (if length gs \<ge> 8 then Some (s, gs, el)
      else let h = takeWhile is_hex s; rest = dropWhile is_hex s; gs' = gs @ [hex_num h] in
        if h = [] \<or> length h > 4 then None
        else if rest \<noteq> [] \<and> hd rest = CHR ''.'' then
          (if (el = None \<and> length gs \<noteq> 6) \<or> length gs > 6 then None
           else case parse_ipv4 s of None \<Rightarrow> None
             | Some w \<Rightarrow> Some ([], gs @ [ucast (drop_bit 16 w), ucast w], el))
        else if rest = [] then Some ([], gs', el)
        else if hd rest \<noteq> CHR '':'' \<or> tl rest = [] then None
        else if hd (tl rest) = CHR '':'' then
          (if el \<noteq> None then None
           else if tl (tl rest) = [] then Some ([], gs', Some (length gs'))
           else parse_v6_loop (tl (tl rest)) gs' (Some (length gs')))
        else parse_v6_loop (tl rest) gs' el)"
  by pat_completeness auto
termination
  by (relation "measure (\<lambda>(s, gs, el). 8 - length gs)") auto

declare parse_v6_loop.simps [simp del]

definition groups_word :: "16 word list \<Rightarrow> 128 word" where
  "groups_word = foldl (\<lambda>a g. push_bit 16 a + ucast g) 0"

definition expand_groups :: "string \<times> 16 word list \<times> nat option \<Rightarrow> 16 word list option" where
  "expand_groups r = (case r of (s, gs, el) \<Rightarrow>
     if s \<noteq> [] then None
     else if length gs < 8 then
       (case el of None \<Rightarrow> None | Some e \<Rightarrow> Some (take e gs @ replicate (8 - length gs) 0 @ drop e gs))
     else if el \<noteq> None then None else Some gs)"

definition parse_ipv6 :: "string \<Rightarrow> addr option" where
  "parse_ipv6 inp =
     (let s = takeWhile (\<lambda>c. c \<noteq> CHR ''%'') inp; z = tl (dropWhile (\<lambda>c. c \<noteq> CHR ''%'') inp) in
      if CHR ''%'' \<in> set inp \<and> z = [] then None
      else let zn = (if CHR ''%'' \<in> set inp then z else []) in
        if has_prefix s ''::'' then
          (if drop 2 s = [] then Some (V6 0 zn)
           else map_option (\<lambda>gs. V6 (groups_word gs) zn)
                  (Option.bind (parse_v6_loop (drop 2 s) [] (Some 0)) expand_groups))
        else map_option (\<lambda>gs. V6 (groups_word gs) zn)
               (Option.bind (parse_v6_loop s [] None) expand_groups))"

definition parse_addr :: "string \<Rightarrow> addr option" where
  "parse_addr s =
     (case find (\<lambda>c. c = CHR ''.'' \<or> c = CHR '':'' \<or> c = CHR ''%'') s of
        None \<Rightarrow> None
      | Some c \<Rightarrow> if c = CHR ''.'' then map_option V4 (parse_ipv4 s)
                  else if c = CHR '':'' then parse_ipv6 s
                  else None)"

section \<open>Prefixes\<close>

datatype netprefix = Pfx (pfx_addr: addr) (pfx_bits: nat)

definition cut_last :: "char \<Rightarrow> string \<Rightarrow> (string \<times> string) option" where
  "cut_last c s = (if c \<in> set s
     then Some (rev (tl (dropWhile (\<lambda>x. x \<noteq> c) (rev s))), rev (takeWhile (\<lambda>x. x \<noteq> c) (rev s)))
     else None)"

definition parse_prefix :: "string \<Rightarrow> netprefix option" where
  "parse_prefix s =
     (case cut_last CHR ''/'' s of
        None \<Rightarrow> None
      | Some (as, bs) \<Rightarrow>
          (case parse_addr as of
             None \<Rightarrow> None
           | Some a \<Rightarrow>
               if zone a \<noteq> [] then None
               else if length bs > 1 \<and> (hd bs = CHR ''0'' \<or> \<not> is_digit (hd bs)) then None
               else (case atoi bs of
                       None \<Rightarrow> None
                     | Some n \<Rightarrow> if n < 0 \<or> n > int (bit_len a) then None else Some (Pfx a (nat n)))))"

definition valid_prefix :: "netprefix \<Rightarrow> bool" where
  "valid_prefix p \<longleftrightarrow> zone (pfx_addr p) = [] \<and> pfx_bits p \<le> bit_len (pfx_addr p)"

text \<open>\<open>Prefix.Contains\<close>: same family, no zone, and no difference in the leading bits.\<close>

definition prefix_contains :: "netprefix \<Rightarrow> addr \<Rightarrow> bool" where
  "prefix_contains p a =
     (case (pfx_addr p, a) of
        (V4 n, V4 x) \<Rightarrow> drop_bit (32 - pfx_bits p) (x XOR n) = 0
      | (V6 n z, V6 x z') \<Rightarrow> z' = [] \<and> (x XOR n) AND NOT (mask (128 - pfx_bits p)) = 0
      | _ \<Rightarrow> False)"

definition mask_addr :: "addr \<Rightarrow> nat \<Rightarrow> addr" where
  "mask_addr a b = (case a of V4 n \<Rightarrow> V4 (n AND NOT (mask (32 - b)))
     | V6 n z \<Rightarrow> V6 (n AND NOT (mask (128 - b))) [])"

definition masked :: "netprefix \<Rightarrow> netprefix" where
  "masked p = Pfx (mask_addr (pfx_addr p) (pfx_bits p)) (pfx_bits p)"

definition prefix_overlaps :: "netprefix \<Rightarrow> netprefix \<Rightarrow> bool" where
  "prefix_overlaps p q =
     (if p = q then True
      else if is4 (pfx_addr p) \<noteq> is4 (pfx_addr q) then False
      else let b = min (pfx_bits p) (pfx_bits q) in
        if b = 0 then True
        else mask_addr (pfx_addr p) b = mask_addr (pfx_addr q) b)"


section \<open>Package net\<close>

text \<open>
  \<open>net.ParseIP\<close> gives every address its 16-byte form; \<open>To4\<close> recognises the mapped ones.
\<close>

definition as16 :: "addr \<Rightarrow> 128 word" where
  "as16 a = (case a of V4 w \<Rightarrow> push_bit 32 0xFFFF OR ucast w | V6 w _ \<Rightarrow> w)"

definition net_parse_ip :: "string \<Rightarrow> 128 word option" where
  "net_parse_ip s = (case parse_addr s of None \<Rightarrow> None
     | Some a \<Rightarrow> if zone a \<noteq> [] then None else Some (as16 a))"

definition to4 :: "128 word \<Rightarrow> 32 word option" where
  "to4 x = (if drop_bit 32 x = 0xFFFF then Some (ucast x) else None)"

definition ip_is_loopback :: "128 word \<Rightarrow> bool" where
  "ip_is_loopback x = (case to4 x of Some w \<Rightarrow> octet w 3 = 127 | None \<Rightarrow> x = 1)"

definition cut_first :: "char \<Rightarrow> string \<Rightarrow> (string \<times> string) option" where
  "cut_first c s = (if c \<in> set s
     then Some (takeWhile (\<lambda>x. x \<noteq> c) s, tl (dropWhile (\<lambda>x. x \<noteq> c) s)) else None)"

text \<open>
  \<open>net.ParseCIDR\<close>, as the network it denotes: a mapped prefix of 96 bits or more is an IPv4
  network (\<open>networkNumberAndMask\<close> shortens it), a shorter one stays an IPv6 network.
\<close>

definition net_parse_cidr :: "string \<Rightarrow> netprefix option" where
  "net_parse_cidr s =
     (case cut_first CHR ''/'' s of
        None \<Rightarrow> None
      | Some (as, ms) \<Rightarrow>
          (case parse_addr as of
             None \<Rightarrow> None
           | Some a \<Rightarrow>
               if zone a \<noteq> [] \<or> ms = [] \<or> \<not> list_all is_digit ms \<or> undec ms > int (bit_len a)
               then None
               else let b = nat (undec ms) in
                 if is4in6 a \<and> 96 \<le> b then Some (Pfx (unmap a) (b - 96)) else Some (Pfx a b)))"

definition ipnet_contains :: "netprefix \<Rightarrow> 128 word \<Rightarrow> bool" where
  "ipnet_contains n x = prefix_contains n (case to4 x of Some w \<Rightarrow> V4 w | None \<Rightarrow> V6 x [])"

section \<open>Printing and parsing IPv4\<close>

lemma octet_nat: "octet w k = unat w div 2 ^ (8 * k) mod 256"
proof -
  have m: "w AND 0xFF = take_bit 8 w" for w :: "32 word"
    by (simp add: take_bit_eq_mask mask_numeral)
  have "octet w k = take_bit 8 (drop_bit (8 * k) (unat w))"
    by (simp only: octet_def m unsigned_take_bit_eq unat_drop_bit_eq)
  then show ?thesis
    by (simp add: take_bit_eq_mod drop_bit_eq_div)
qed

lemma octet_less [simp]: "octet w k < 256"
  by (simp add: octet_nat)

lemma nat_bytes:
  fixes n :: nat
  assumes "n < 2 ^ 32"
  shows "((n div 2 ^ 24 mod 256 * 256 + n div 2 ^ 16 mod 256) * 256 + n div 2 ^ 8 mod 256) * 256
    + n mod 256 = n"
proof -
  have "n div 2 ^ 24 mod 256 = n div 2 ^ 24" using assms by simp
  moreover have "n div 2 ^ 24 * 256 + n div 2 ^ 16 mod 256 = n div 2 ^ 16"
    using div_mult_mod_eq [of "n div 2 ^ 16" 256] by (simp add: div_mult2_eq [symmetric])
  moreover have "n div 2 ^ 16 * 256 + n div 2 ^ 8 mod 256 = n div 2 ^ 8"
    using div_mult_mod_eq [of "n div 2 ^ 8" 256] by (simp add: div_mult2_eq [symmetric])
  moreover have "n div 2 ^ 8 * 256 + n mod 256 = n"
    using div_mult_mod_eq [of n 256] by simp
  ultimately show ?thesis by simp
qed

lemma of_octets_octet: "of_octets (octet w 3) (octet w 2) (octet w (Suc 0)) (octet w 0) = w"
proof -
  have "of_octets (octet w 3) (octet w 2) (octet w (Suc 0)) (octet w 0)
      = of_nat (((octet w 3 * 256 + octet w 2) * 256 + octet w (Suc 0)) * 256 + octet w 0)"
    by (simp add: of_octets_def)
  also have "((octet w 3 * 256 + octet w 2) * 256 + octet w (Suc 0)) * 256 + octet w 0 = unat w"
    using nat_bytes [of "unat w"] unsigned_less [of w, where 'a = nat] by (simp add: octet_nat)
  finally show ?thesis by simp
qed

lemma parse_octet_dec: "n < 256 \<Longrightarrow> parse_octet (dec n) = Some n"
proof -
  assume n: "n < 256"
  have "tl (dec n) = [] \<or> hd (dec n) \<noteq> CHR ''0''"
    by (cases "n = 0") (auto simp: dec_zero hd_dec)
  with n dec_digits [of n] show ?thesis
    by (auto simp: parse_octet_def list_all_iff)
qed

lemma dec_no_dot: "CHR ''.'' \<notin> set (dec n)" "CHR '':'' \<notin> set (dec n)" "CHR ''%'' \<notin> set (dec n)"
  "CHR ''/'' \<notin> set (dec n)"
  using dec_digits [of n] by (auto simp: is_digit_def)

lemma parse_ipv4_show: "parse_ipv4 (show_ipv4 w) = Some w"
proof -
  have "split_on CHR ''.'' (show_ipv4 w) = map (\<lambda>k. dec (octet w k)) [3, 2, 1, 0]"
    unfolding show_ipv4_def by (rule split_join) (auto simp: dec_no_dot)
  then show ?thesis
    by (simp add: parse_ipv4_def parse_octet_dec of_octets_octet)
qed

lemma find_none: "\<forall>x \<in> set s. \<not> P x \<Longrightarrow> find P (s @ y # t) = (if P y then Some y else find P t)"
  by (induction s) auto

lemma parse_addr_show: "parse_addr (show_ipv4 w) = Some (V4 w)"
proof -
  have "find (\<lambda>c. c = CHR ''.'' \<or> c = CHR '':'' \<or> c = CHR ''%'') (show_ipv4 w) = Some CHR ''.''"
    unfolding show_ipv4_def
    by (simp, subst find_none) (use dec_no_dot in auto)
  then show ?thesis by (simp add: parse_addr_def parse_ipv4_show)
qed


section \<open>The meaning of prefixes\<close>

lemma prefix_contains_V4 [simp]:
  "prefix_contains (Pfx (V4 n) b) (V4 x) \<longleftrightarrow> drop_bit (32 - b) x = drop_bit (32 - b) n"
  by (simp add: prefix_contains_def drop_bit_xor_0_iff del: drop_bit_xor)

lemma prefix_contains_V6 [simp]:
  "prefix_contains (Pfx (V6 n z) b) (V6 x z')
     \<longleftrightarrow> z' = [] \<and> drop_bit (128 - b) x = drop_bit (128 - b) n"
  by (simp add: prefix_contains_def xor_and_not_mask_0_iff)

lemma prefix_contains_mixed [simp]:
  "\<not> prefix_contains (Pfx (V4 n) b) (V6 x z)"
  "\<not> prefix_contains (Pfx (V6 m z) b) (V4 w)"
  by (simp_all add: prefix_contains_def)

lemma common_leading_bits:
  fixes x y :: "'a::len word"
  assumes "l \<le> k"
  shows "(\<exists>a. drop_bit k a = drop_bit k x \<and> drop_bit l a = drop_bit l y) \<longleftrightarrow> drop_bit k x = drop_bit k y"
  using drop_bit_mono [OF assms] by metis

lemma meet_leading_bits:
  fixes x y :: "'a::len word"
  shows "(\<exists>a. drop_bit k a = drop_bit k x \<and> drop_bit l a = drop_bit l y)
    \<longleftrightarrow> drop_bit (max k l) x = drop_bit (max k l) y"
proof (cases "l \<le> k")
  case True
  then show ?thesis using common_leading_bits [of l k x y] by (simp add: max_def)
next
  case False
  then have "k \<le> l" by simp
  then show ?thesis using common_leading_bits [of k l y x] by (auto simp: max_def conj_commute eq_commute)
qed

lemma drop_all_bits: "LENGTH('a) \<le> k \<Longrightarrow> drop_bit k (x :: 'a::len word) = 0"
  by (rule bit_eqI) (auto simp: bit_simps dest: bit_imp_le_length)

lemma overlaps_V4_bits:
  assumes "b \<le> 32" "c \<le> 32"
  shows "prefix_overlaps (Pfx (V4 x) b) (Pfx (V4 y) c)
    \<longleftrightarrow> drop_bit (32 - min b c) x = drop_bit (32 - min b c) y"
  by (auto simp: prefix_overlaps_def is4_def Let_def mask_addr_def and_not_mask_eq_iff drop_all_bits)

lemma overlaps_V6_bits:
  assumes "b \<le> 128" "c \<le> 128"
  shows "prefix_overlaps (Pfx (V6 x z) b) (Pfx (V6 y z') c)
    \<longleftrightarrow> drop_bit (128 - min b c) x = drop_bit (128 - min b c) y"
  by (auto simp: prefix_overlaps_def is4_def Let_def mask_addr_def and_not_mask_eq_iff drop_all_bits)

lemma diff_min_max: "(n::nat) - min b c = max (n - b) (n - c)"
  by linarith

text \<open>
  \<open>Prefix.Overlaps\<close> is the intersection test it promises to be: the two prefixes overlap exactly
  when some address lies in both.
\<close>

lemma overlaps_iff_common_addr:
  assumes "valid_prefix p" "valid_prefix q"
  shows "prefix_overlaps p q \<longleftrightarrow> (\<exists>a. prefix_contains p a \<and> prefix_contains q a)"
proof -
  obtain a b where p: "p = Pfx a b" by (cases p)
  obtain a' c where q: "q = Pfx a' c" by (cases q)
  show ?thesis
  proof (cases a; cases a')
    fix x y assume a: "a = V4 x" "a' = V4 y"
    have "(\<exists>d. prefix_contains p d \<and> prefix_contains q d)
       \<longleftrightarrow> (\<exists>w. drop_bit (32 - b) w = drop_bit (32 - b) x \<and> drop_bit (32 - c) w = drop_bit (32 - c) y)"
      unfolding p q a by (metis addr.exhaust prefix_contains_V4 prefix_contains_mixed(1))
    then show ?thesis
      using assms unfolding p q a meet_leading_bits
      by (simp add: overlaps_V4_bits valid_prefix_def bit_len_def diff_min_max)
  next
    fix x y z z' assume a: "a = V6 x z" "a' = V6 y z'"
    have "(\<exists>d. prefix_contains p d \<and> prefix_contains q d)
       \<longleftrightarrow> (\<exists>w. drop_bit (128 - b) w = drop_bit (128 - b) x \<and> drop_bit (128 - c) w = drop_bit (128 - c) y)"
      unfolding p q a by (metis addr.exhaust prefix_contains_V6 prefix_contains_mixed(2))
    then show ?thesis
      using assms unfolding p q a meet_leading_bits
      by (simp add: overlaps_V6_bits valid_prefix_def bit_len_def diff_min_max)
  next
    fix x y z assume a: "a = V4 x" "a' = V6 y z"
    have "\<not> (prefix_contains p d \<and> prefix_contains q d)" for d
      unfolding p q a by (cases d) simp_all
    then show ?thesis unfolding p q a by (simp add: prefix_overlaps_def is4_def)
  next
    fix x y z assume a: "a = V6 x z" "a' = V4 y"
    have "\<not> (prefix_contains p d \<and> prefix_contains q d)" for d
      unfolding p q a by (cases d) simp_all
    then show ?thesis unfolding p q a by (simp add: prefix_overlaps_def is4_def)
  qed
qed

lemma parse_prefix_valid: "parse_prefix s = Some p \<Longrightarrow> valid_prefix p"
  by (auto simp: parse_prefix_def valid_prefix_def split: option.splits if_splits)

lemma while_neq_append:
  assumes "c \<notin> set t"
  shows "dropWhile (\<lambda>x. x \<noteq> c) (t @ c # s) = c # s" "takeWhile (\<lambda>x. x \<noteq> c) (t @ c # s) = t"
  using assms by (induction t) auto

lemma cut_last_append: "c \<notin> set t \<Longrightarrow> cut_last c (s @ c # t) = Some (s, t)"
  by (simp add: cut_last_def while_neq_append)

lemma hd_dec_ok: "length (dec n) > 1 \<Longrightarrow> hd (dec n) \<noteq> CHR ''0'' \<and> is_digit (hd (dec n))"
proof -
  assume l: "length (dec n) > 1"
  then have "n \<noteq> 0" by (cases "n = 0") (simp_all add: dec_zero)
  then show ?thesis using hd_dec [of n] dec_digits [of n] by auto
qed

lemma parse_prefix_show:
  assumes "b \<le> 32"
  shows "parse_prefix (show_ipv4 w @ CHR ''/'' # dec b) = Some (Pfx (V4 w) b)"
proof -
  have "int b \<le> int64_max" using assms by (simp add: int64_max_def)
  then show ?thesis
    using assms hd_dec_ok [of b]
    by (auto simp: parse_prefix_def cut_last_append dec_no_dot parse_addr_show zone_def bit_len_def)
qed

lemma parse_addr_zone_V4: "parse_addr s = Some (V4 w) \<Longrightarrow> parse_ipv4 s = Some w"
  by (auto simp: parse_addr_def parse_ipv6_def Let_def split: option.splits if_splits)

end
