(* ===== verification/Net_Domain.thy ===== *)
theory Net_Domain
  imports Netip
begin

text \<open>
  The network data model: \<open>internal/network/domain/interface.go\<close> (roles, slots, methods, interface
  rows), \<open>lan.go\<close> and \<open>wan.go\<close> (the WAN editor's configuration, its validation and how it is
  written back into a row). The string types of the source are datatypes whose last constructor
  stands for every other string. The row timestamps are left out.
\<close>

unbundle bit_operations_syntax

section \<open>Roles, slots and methods\<close>

datatype InterfaceRole =
  RoleUnassigned | RoleWAN | RoleLAN | RoleLANMember | RoleMgmt | RoleOther string

definition AllRoles :: "InterfaceRole list" where
  "AllRoles = [RoleUnassigned, RoleWAN, RoleLAN, RoleLANMember, RoleMgmt]"

fun role_valid :: "InterfaceRole \<Rightarrow> bool" where
  "role_valid RoleUnassigned = True"
| "role_valid RoleWAN = True"
| "role_valid RoleLAN = True"
| "role_valid RoleLANMember = True"
| "role_valid RoleMgmt = True"
| "role_valid (RoleOther _) = False"

definition role_is_singleton :: "InterfaceRole \<Rightarrow> bool" where
  "role_is_singleton r \<longleftrightarrow> r = RoleLAN \<or> r = RoleMgmt"

datatype UplinkSlot =
  SlotNone | SlotDomestic | SlotDomestic2 | SlotDomestic3 | SlotDomestic4
  | SlotSecondary | SlotSecondary2 | SlotSecondary3 | SlotSecondary4 | SlotOther string

definition slot_is_domestic :: "UplinkSlot \<Rightarrow> bool" where
  "slot_is_domestic s = (case s of SlotDomestic \<Rightarrow> True | SlotDomestic2 \<Rightarrow> True
     | SlotDomestic3 \<Rightarrow> True | SlotDomestic4 \<Rightarrow> True | _ \<Rightarrow> False)"

definition DomesticSlots :: "UplinkSlot list" where
  "DomesticSlots = [SlotDomestic, SlotDomestic2, SlotDomestic3, SlotDomestic4]"

definition slot_is_secondary :: "UplinkSlot \<Rightarrow> bool" where
  "slot_is_secondary s = (case s of SlotSecondary \<Rightarrow> True | SlotSecondary2 \<Rightarrow> True
     | SlotSecondary3 \<Rightarrow> True | SlotSecondary4 \<Rightarrow> True | _ \<Rightarrow> False)"

definition SecondarySlots :: "UplinkSlot list" where
  "SecondarySlots = [SlotSecondary, SlotSecondary2, SlotSecondary3, SlotSecondary4]"

datatype AddressMethod = MethodEmpty | MethodDHCP4 | MethodStatic | MethodRawIP | MethodOther string

record NetworkInterface =
  ifID :: nat
  ifNodeID :: nat
  ifKey :: string
  ifKeyKind :: string
  IfName :: string
  PermMAC :: string
  IDPath :: string
  ifLabel :: string
  Source :: string
  SourceOverride :: string
  SourceConfidence :: int
  PhyName :: string
  USBSpeedMbit :: int
  Role :: InterfaceRole
  Slot :: UplinkSlot
  MasterID :: "nat option"
  Method :: AddressMethod
  StaticAddress :: string
  StaticGateway :: string
  GatewayOnLink :: bool
  DNSServer2 :: string
  DNSServer :: string
  DNSDomains :: string
  RouteTable :: int
  Ephemeral :: bool
  LearnedGateway :: string
  Healthy :: bool
  ForceState :: string
  Present :: bool

definition Phy :: "NetworkInterface \<Rightarrow> string" where
  "Phy n = PhyName n"

section \<open>Verdicts\<close>

datatype VLevel = LevelReject | LevelConfirm | LevelWarn

record Verdict =
  Rule :: string
  vLevel :: VLevel
  vMessage :: message

abbreviation reject :: "string \<Rightarrow> string \<Rightarrow> fmt_arg list \<Rightarrow> Verdict" where
  "reject r f as \<equiv> \<lparr>Rule = r, vLevel = LevelReject, vMessage = Sprintf f as\<rparr>"

abbreviation confirm :: "string \<Rightarrow> string \<Rightarrow> fmt_arg list \<Rightarrow> Verdict" where
  "confirm r f as \<equiv> \<lparr>Rule = r, vLevel = LevelConfirm, vMessage = Sprintf f as\<rparr>"

abbreviation warn :: "string \<Rightarrow> string \<Rightarrow> fmt_arg list \<Rightarrow> Verdict" where
  "warn r f as \<equiv> \<lparr>Rule = r, vLevel = LevelWarn, vMessage = Sprintf f as\<rparr>"

fun Rejected :: "Verdict list \<Rightarrow> bool" where
  "Rejected [] = False"
| "Rejected (v # vs) = (if vLevel v = LevelReject then True else Rejected vs)"

lemma Rejected_iff: "Rejected vs \<longleftrightarrow> (\<exists>v \<in> set vs. vLevel v = LevelReject)"
  by (induction vs) auto

lemma Rejected_append [simp]: "Rejected (vs @ ws) \<longleftrightarrow> Rejected vs \<or> Rejected ws"
  by (auto simp: Rejected_iff)

section \<open>WAN configuration\<close>

record WANConfig =
  wcMethod :: AddressMethod
  wcStaticAddress :: string
  wcStaticGateway :: string
  wcGatewayOnLink :: bool
  wcDNSMode :: string
  wcDNSServers :: "string list"

definition iface_WANConfig :: "NetworkInterface \<Rightarrow> WANConfig" where
  "iface_WANConfig n =
     (let c = \<lparr>wcMethod = Method n, wcStaticAddress = StaticAddress n, wcStaticGateway = StaticGateway n,
               wcGatewayOnLink = GatewayOnLink n, wcDNSMode = ''default'', wcDNSServers = []\<rparr>;
          c = (if wcMethod c = MethodEmpty then c\<lparr>wcMethod := MethodDHCP4\<rparr> else c)
      in if slot_is_secondary (Slot n) then c\<lparr>wcDNSMode := ''vpn''\<rparr>
         else if DNSServer n \<noteq> [] then
           c\<lparr>wcDNSMode := ''custom'',
             wcDNSServers := wcDNSServers c @ [DNSServer n] @ (if DNSServer2 n \<noteq> [] then [DNSServer2 n] else [])\<rparr>
         else c)"

definition SetWAN :: "NetworkInterface \<Rightarrow> WANConfig \<Rightarrow> NetworkInterface" where
  "SetWAN n c =
     (let n = n\<lparr>Method := wcMethod c, StaticAddress := [], StaticGateway := [],
                GatewayOnLink := False, LearnedGateway := []\<rparr>;
          n = (if wcMethod c = MethodStatic
               then n\<lparr>StaticAddress := wcStaticAddress c, StaticGateway := wcStaticGateway c,
                      GatewayOnLink := wcGatewayOnLink c\<rparr> else n);
          n = n\<lparr>DNSServer := [], DNSServer2 := [], DNSDomains := []\<rparr>;
          n = (if wcDNSMode c = ''custom''
               then n\<lparr>DNSServer := (case wcDNSServers c of [] \<Rightarrow> DNSServer n | d # _ \<Rightarrow> d),
                      DNSServer2 := (case wcDNSServers c of _ # d # _ \<Rightarrow> d | _ \<Rightarrow> DNSServer2 n)\<rparr> else n)
      in if slot_is_domestic (Slot n) then n\<lparr>DNSDomains := ''~ir''\<rparr> else n)"

text \<open>The IPv4 tests of package netip that \<open>ValidWANIPv4\<close> uses.\<close>

definition v4_is_loopback :: "32 word \<Rightarrow> bool" where
  "v4_is_loopback w \<longleftrightarrow> octet w 3 = 127"

definition v4_is_global_unicast :: "32 word \<Rightarrow> bool" where
  "v4_is_global_unicast w \<longleftrightarrow> w \<noteq> 0 \<and> w \<noteq> - 1 \<and> \<not> v4_is_loopback w
     \<and> \<not> (224 \<le> octet w 3 \<and> octet w 3 < 240) \<and> \<not> (octet w 3 = 169 \<and> octet w 2 = 254)"

definition wan_ipv4_ok :: "32 word \<Rightarrow> bool" where
  "wan_ipv4_ok w \<longleftrightarrow> v4_is_global_unicast w \<and> \<not> v4_is_loopback w \<and> octet w 3 \<noteq> 0 \<and> octet w 3 < 224"

definition ValidWANIPv4 :: "string \<Rightarrow> bool" where
  "ValidWANIPv4 s = (case parse_addr s of Some (V4 w) \<Rightarrow> wan_ipv4_ok w | _ \<Rightarrow> False)"

text \<open>\<open>subnetEndpoint\<close>: the network or the broadcast address of a prefix below /31.\<close>

definition subnetEndpoint :: "32 word \<Rightarrow> nat \<Rightarrow> 32 word \<Rightarrow> bool" where
  "subnetEndpoint p bits a =
     (if bits \<ge> 31 then False
      else let b = p AND NOT (mask (32 - bits)) in
        a = b \<or> a = (b OR (push_bit (32 - bits) 1 - 1)))"

abbreviation wan_reject :: "string \<Rightarrow> string \<Rightarrow> Verdict" where
  "wan_reject field msg \<equiv> reject (''WAN_'' @ field) msg []"

definition wan_prefix :: "WANConfig \<Rightarrow> (32 word \<times> nat) option" where
  "wan_prefix c = (case parse_prefix (wcStaticAddress c) of
      Some (Pfx (V4 w) bits) \<Rightarrow> if bits \<ge> 1 \<and> ValidWANIPv4 (show_ipv4 w) then Some (w, bits) else None
    | _ \<Rightarrow> None)"

definition wan_address_verdicts :: "WANConfig \<Rightarrow> Verdict list" where
  "wan_address_verdicts c = (case wan_prefix c of
      None \<Rightarrow> [wan_reject ''address'' ''Enter an IPv4 address with a prefix length from 1 to 32.'']
    | Some (w, bits) \<Rightarrow>
        if subnetEndpoint w bits w
        then [wan_reject ''address'' ''Use a host address, not this subnet's network or broadcast address.'']
        else [])"

definition wan_gateway_verdicts :: "WANConfig \<Rightarrow> Verdict list" where
  "wan_gateway_verdicts c =
     (if \<not> ValidWANIPv4 (wcStaticGateway c)
      then [wan_reject ''gateway'' ''Enter a unicast IPv4 gateway.'']
      else case (wan_prefix c, parse_addr (wcStaticGateway c)) of
        (Some (w, bits), Some (V4 gw)) \<Rightarrow>
          let inside = prefix_contains (Pfx (V4 w) bits) (V4 gw) in
          if gw = w then [wan_reject ''gateway'' ''The gateway must differ from the WAN address.'']
          else if inside \<and> subnetEndpoint w bits gw
          then [wan_reject ''gateway'' ''The gateway cannot be this subnet's network or broadcast address.'']
          else if \<not> inside \<and> \<not> wcGatewayOnLink c
          then [wan_reject ''gateway_on_link'' ''Enable Gateway outside this subnet only if your ISP's gateway is directly reachable on this link.'']
          else []
      | _ \<Rightarrow> [])"

text \<open>The loop over the custom DNS servers: position, addresses seen, servers left.\<close>

fun wan_dns_loop :: "nat \<Rightarrow> string list \<Rightarrow> string list \<Rightarrow> Verdict list" where
  "wan_dns_loop i seen [] = []"
| "wan_dns_loop i seen (ip # ips) =
     (if \<not> ValidWANIPv4 ip
      then [reject ''WAN_dns'' ''DNS server %d must be a unicast IPv4 address.'' [FInt (int i + 1)]] else [])
     @ (if ip \<in> set seen then [wan_reject ''dns'' ''DNS servers must be different.''] else [])
     @ wan_dns_loop (Suc i) (ip # seen) ips"

definition wan_dns_verdicts :: "WANConfig \<Rightarrow> UplinkSlot \<Rightarrow> Verdict list" where
  "wan_dns_verdicts c slot =
     (if slot_is_secondary slot then
        (if wcDNSMode c \<noteq> ''vpn'' \<or> length (wcDNSServers c) \<noteq> 0
         then [wan_reject ''dns'' ''Secondary WAN DNS is managed through the VPN.''] else [])
      else if wcDNSMode c = ''default'' then
        (if length (wcDNSServers c) \<noteq> 0
         then [wan_reject ''dns'' ''Router defaults cannot include custom DNS servers.''] else [])
      else if wcDNSMode c = ''custom'' then
        (if length (wcDNSServers c) < 1 \<or> length (wcDNSServers c) > 2
         then [wan_reject ''dns'' ''Enter one or two DNS servers.''] else [])
        @ wan_dns_loop 0 [] (wcDNSServers c)
      else [wan_reject ''dns'' ''Choose router defaults or custom DNS servers.''])"

definition ValidateWAN :: "WANConfig \<Rightarrow> UplinkSlot \<Rightarrow> string \<Rightarrow> Verdict list" where
  "ValidateWAN c slot source =
     (if has_prefix source ''wwan_''
      then [wan_reject ''method'' ''Cellular configuration is managed separately from this WAN editor.''] else [])
     @ (if wcMethod c \<noteq> MethodDHCP4 \<and> wcMethod c \<noteq> MethodStatic
        then [wan_reject ''method'' ''Choose automatic DHCP or static IPv4.''] else [])
     @ (if wcMethod c = MethodStatic then wan_address_verdicts c @ wan_gateway_verdicts c else [])
     @ wan_dns_verdicts c slot"

section \<open>LAN and Wi-Fi configuration\<close>

definition ManagedBridgeName :: string where
  "ManagedBridgeName = ''lan0''"

record LANConfig =
  lanID :: nat
  lanNodeID :: nat
  BridgeName :: string
  CIDR :: string
  DHCPRangeLow :: string
  DHCPRangeHigh :: string
  LeaseHours :: int
  lanEnabled :: bool
  InputFirewall :: bool

record WifiConfig =
  wifiID :: nat
  wifiInterfaceID :: nat
  Mode :: string
  SSID :: string
  PSK :: string
  wifiCountryCode :: string
  Band :: string
  Channel :: int
  Hidden :: bool
  wifiEnabled :: bool

record PortForward =
  pfID :: nat
  pfNodeID :: nat
  UplinkKey :: string
  Proto :: string
  DPort :: int
  ToAddr :: string
  ToPort :: int
  pfComment :: string
  pfEnabled :: bool


section \<open>Properties of the WAN editor\<close>

lemma ValidWANIPv4_show [simp]: "ValidWANIPv4 (show_ipv4 w) \<longleftrightarrow> wan_ipv4_ok w"
  by (simp add: ValidWANIPv4_def parse_addr_show)

lemma ValidWANIPv4_obtain: "ValidWANIPv4 s \<longleftrightarrow> (\<exists>w. parse_addr s = Some (V4 w) \<and> wan_ipv4_ok w)"
  by (auto simp: ValidWANIPv4_def split: option.splits addr.splits)

lemma ValidWANIPv4_Nil [simp]: "\<not> ValidWANIPv4 []"
  by (simp add: ValidWANIPv4_def parse_addr_def)

lemma ValidWANIPv4_not_Nil: "ValidWANIPv4 d \<Longrightarrow> d \<noteq> []"
  by auto

lemma wan_prefix_Some_iff:
  "wan_prefix c = Some (w, b)
    \<longleftrightarrow> parse_prefix (wcStaticAddress c) = Some (Pfx (V4 w) b) \<and> 1 \<le> b \<and> wan_ipv4_ok w"
  by (auto simp: wan_prefix_def split: option.splits netprefix.splits addr.splits if_splits)

lemma wan_dns_loop_Nil_iff:
  "wan_dns_loop i seen ips = []
    \<longleftrightarrow> (\<forall>ip \<in> set ips. ValidWANIPv4 ip) \<and> distinct ips \<and> set ips \<inter> set seen = {}"
  by (induction ips arbitrary: i seen) auto

lemma wan_dns_loop_rejects: "v \<in> set (wan_dns_loop i seen ips) \<Longrightarrow> vLevel v = LevelReject"
  by (induction ips arbitrary: i seen) (auto split: if_splits)

lemma ValidateWAN_rejects: "v \<in> set (ValidateWAN c slot src) \<Longrightarrow> vLevel v = LevelReject"
  by (auto simp: ValidateWAN_def wan_address_verdicts_def wan_gateway_verdicts_def wan_dns_verdicts_def Let_def
      split: if_splits option.splits addr.splits prod.splits dest: wan_dns_loop_rejects)

lemma ValidateWAN_Rejected_iff: "Rejected (ValidateWAN c slot src) \<longleftrightarrow> ValidateWAN c slot src \<noteq> []"
  using ValidateWAN_rejects [of "hd (ValidateWAN c slot src)" c slot src]
  by (cases "ValidateWAN c slot src") auto

text \<open>What an accepted static configuration looks like, as a predicate on the parsed fields.\<close>

definition static_wan_ok :: "WANConfig \<Rightarrow> bool" where
  "static_wan_ok c \<longleftrightarrow> (\<exists>w b gw.
     parse_prefix (wcStaticAddress c) = Some (Pfx (V4 w) b) \<and> 1 \<le> b \<and> b \<le> 32
     \<and> wan_ipv4_ok w \<and> \<not> subnetEndpoint w b w
     \<and> parse_addr (wcStaticGateway c) = Some (V4 gw) \<and> wan_ipv4_ok gw \<and> gw \<noteq> w
     \<and> (if prefix_contains (Pfx (V4 w) b) (V4 gw) then \<not> subnetEndpoint w b gw else wcGatewayOnLink c))"

definition dns_ok :: "WANConfig \<Rightarrow> UplinkSlot \<Rightarrow> bool" where
  "dns_ok c slot \<longleftrightarrow>
     (if slot_is_secondary slot then wcDNSMode c = ''vpn'' \<and> wcDNSServers c = []
      else wcDNSMode c = ''default'' \<and> wcDNSServers c = []
         \<or> wcDNSMode c = ''custom'' \<and> 1 \<le> length (wcDNSServers c) \<and> length (wcDNSServers c) \<le> 2
           \<and> distinct (wcDNSServers c) \<and> (\<forall>d \<in> set (wcDNSServers c). ValidWANIPv4 d))"

lemma wan_address_Nil_iff:
  "wan_address_verdicts c = [] \<longleftrightarrow> (\<exists>w b. wan_prefix c = Some (w, b) \<and> \<not> subnetEndpoint w b w)"
  by (auto simp: wan_address_verdicts_def split: option.splits if_splits)

lemma wan_static_Nil_iff:
  "wan_address_verdicts c = [] \<and> wan_gateway_verdicts c = [] \<longleftrightarrow> static_wan_ok c"
proof
  assume a: "wan_address_verdicts c = [] \<and> wan_gateway_verdicts c = []"
  then obtain w b where p: "wan_prefix c = Some (w, b)" and e: "\<not> subnetEndpoint w b w"
    by (auto simp: wan_address_Nil_iff)
  from a have "ValidWANIPv4 (wcStaticGateway c)"
    by (auto simp: wan_gateway_verdicts_def split: if_splits)
  then obtain gw where g: "parse_addr (wcStaticGateway c) = Some (V4 gw)" "wan_ipv4_ok gw"
    by (auto simp: ValidWANIPv4_obtain)
  have "b \<le> 32"
    using p parse_prefix_valid [of "wcStaticAddress c" "Pfx (V4 w) b"]
    by (auto simp: wan_prefix_Some_iff valid_prefix_def bit_len_def)
  with a p e g show "static_wan_ok c"
    unfolding static_wan_ok_def
    by (intro exI [of _ w] exI [of _ b] exI [of _ gw])
       (auto simp: wan_prefix_Some_iff wan_gateway_verdicts_def ValidWANIPv4_obtain Let_def split: if_splits)
next
  assume "static_wan_ok c"
  then obtain w b gw where
    "parse_prefix (wcStaticAddress c) = Some (Pfx (V4 w) b)" "1 \<le> b" "wan_ipv4_ok w"
    "\<not> subnetEndpoint w b w" "parse_addr (wcStaticGateway c) = Some (V4 gw)" "wan_ipv4_ok gw" "gw \<noteq> w"
    "if prefix_contains (Pfx (V4 w) b) (V4 gw) then \<not> subnetEndpoint w b gw else wcGatewayOnLink c"
    by (auto simp: static_wan_ok_def)
  moreover from this have "wan_prefix c = Some (w, b)" by (simp add: wan_prefix_Some_iff)
  ultimately show "wan_address_verdicts c = [] \<and> wan_gateway_verdicts c = []"
    by (auto simp: wan_address_verdicts_def wan_gateway_verdicts_def ValidWANIPv4_obtain Let_def split: if_splits)
qed

lemma wan_dns_Nil_iff: "wan_dns_verdicts c slot = [] \<longleftrightarrow> dns_ok c slot"
  by (auto simp: wan_dns_verdicts_def dns_ok_def wan_dns_loop_Nil_iff Suc_le_eq)

lemma ValidateWAN_Nil_iff:
  "ValidateWAN c slot src = []
    \<longleftrightarrow> \<not> has_prefix src ''wwan_''
      \<and> (wcMethod c = MethodDHCP4 \<or> wcMethod c = MethodStatic \<and> static_wan_ok c)
      \<and> dns_ok c slot"
  by (auto simp: ValidateWAN_def wan_dns_Nil_iff wan_static_Nil_iff [symmetric])

text \<open>
  The WAN editor accepts exactly the configurations it means to: a non-cellular source, a
  method that is DHCP or static, for a static method a unicast host address with a usable gateway
  (different from the address, not an endpoint of the subnet, and inside the subnet unless the
  operator declared it on-link), and DNS settings that fit the slot.
\<close>

theorem ValidateWAN_accepts_iff:
  "\<not> Rejected (ValidateWAN c slot src)
    \<longleftrightarrow> \<not> has_prefix src ''wwan_''
      \<and> (wcMethod c = MethodDHCP4 \<or> wcMethod c = MethodStatic \<and> static_wan_ok c)
      \<and> dns_ok c slot"
  by (simp add: ValidateWAN_Rejected_iff ValidateWAN_Nil_iff)

text \<open>
  Writing an accepted configuration into an interface row and reading it back gives the
  configuration again; the static fields of a DHCP configuration are dropped, and the lease
  remembered from before is forgotten.
\<close>

theorem SetWAN_roundtrip:
  assumes "\<not> Rejected (ValidateWAN c (Slot n) src)"
  shows "iface_WANConfig (SetWAN n c) = (if wcMethod c = MethodStatic then c
      else c\<lparr>wcStaticAddress := [], wcStaticGateway := [], wcGatewayOnLink := False\<rparr>)
    \<and> LearnedGateway (SetWAN n c) = [] \<and> Slot (SetWAN n c) = Slot n \<and> Role (SetWAN n c) = Role n"
proof -
  from assms have m: "wcMethod c = MethodDHCP4 \<or> wcMethod c = MethodStatic"
    and dns: "dns_ok c (Slot n)"
    by (auto simp: ValidateWAN_Rejected_iff ValidateWAN_Nil_iff)
  have slot: "Slot (SetWAN n c) = Slot n" "Role (SetWAN n c) = Role n" "LearnedGateway (SetWAN n c) = []"
    by (simp_all add: SetWAN_def Let_def)
  consider "slot_is_secondary (Slot n)" | "\<not> slot_is_secondary (Slot n)" "wcDNSMode c = ''default''"
    | d1 where "\<not> slot_is_secondary (Slot n)" "wcDNSMode c = ''custom''" "wcDNSServers c = [d1]" "d1 \<noteq> []"
    | d1 d2 where "\<not> slot_is_secondary (Slot n)" "wcDNSMode c = ''custom''" "wcDNSServers c = [d1, d2]"
        "d1 \<noteq> []" "d2 \<noteq> []"
  proof (cases "wcDNSServers c")
    case Nil
    then show ?thesis using dns that by (auto simp: dns_ok_def split: if_splits)
  next
    case (Cons e es)
    then show ?thesis using dns that
      by (cases es) (auto simp: dns_ok_def dest: ValidWANIPv4_not_Nil split: if_splits)
  qed
  then have "iface_WANConfig (SetWAN n c) = (if wcMethod c = MethodStatic then c
      else c\<lparr>wcStaticAddress := [], wcStaticGateway := [], wcGatewayOnLink := False\<rparr>)"
    using m dns slot
    by cases (auto simp: iface_WANConfig_def SetWAN_def dns_ok_def Let_def split: if_splits)
  with slot show ?thesis by simp
qed


definition example_wan :: WANConfig where
  "example_wan = \<lparr>wcMethod = MethodStatic, wcStaticAddress = ''192.168.1.34/24'',
     wcStaticGateway = ''192.168.1.1'', wcGatewayOnLink = False, wcDNSMode = ''custom'',
     wcDNSServers = [''9.9.9.9'', ''1.1.1.1'']\<rparr>"

definition example_iface :: NetworkInterface where
  "example_iface = \<lparr>ifID = 1, ifNodeID = 1, ifKey = ''k'', ifKeyKind = ''permaddr'', IfName = ''eth0'',
     PermMAC = [], IDPath = [], ifLabel = [], Source = ''eth_pci'', SourceOverride = [],
     SourceConfidence = 90, PhyName = [], USBSpeedMbit = 0, Role = RoleWAN, Slot = SlotDomestic,
     MasterID = None, Method = MethodDHCP4, StaticAddress = [], StaticGateway = [],
     GatewayOnLink = False, DNSServer2 = [], DNSServer = [], DNSDomains = [], RouteTable = 0,
     Ephemeral = False, LearnedGateway = ''10.0.0.1'', Healthy = True, ForceState = [], Present = True\<rparr>"

lemma example_wan_accepted: "ValidateWAN example_wan SlotDomestic ''eth_pci'' = []"
  by code_simp

theorem SetWAN_roundtrip_witness:
  "\<not> Rejected (ValidateWAN example_wan (Slot example_iface) ''eth_pci'')
   \<and> iface_WANConfig (SetWAN example_iface example_wan) = example_wan"
proof -
  have s: "Slot example_iface = SlotDomestic" by (simp add: example_iface_def)
  have a: "\<not> Rejected (ValidateWAN example_wan (Slot example_iface) ''eth_pci'')"
    by (simp add: s example_wan_accepted)
  have "wcMethod example_wan = MethodStatic" by (simp add: example_wan_def)
  then show ?thesis using SetWAN_roundtrip [OF a] a by simp
qed

end
