(* ===== verification/Net_Validate.thy ===== *)
theory Net_Validate
  imports Net_Domain
begin

text \<open>
  \<open>internal/network/domain/validate.go\<close>: the form-time rules V1 to V42, rule by rule, and the
  transaction of \<open>networkUsecase.buildPlan\<close> that writes an accepted change. Each rule is a
  definition of its own, in the order of the source, returning the verdict it rejects with;
  \<open>Validate\<close> chains them the way the code returns early. Go's \<open>range\<close> over the two-entry map of
  DHCP bounds visits it in no fixed order, so the order is an argument.
\<close>

unbundle bit_operations_syntax

section \<open>Inputs\<close>

record ChangeRequest =
  RequestID :: string
  WAN :: "WANConfig option"
  InterfaceID :: nat
  rRole :: InterfaceRole
  rSlot :: UplinkSlot
  EvictID :: "nat option"
  Confirmed :: bool
  rMasterID :: "nat option"
  rMethod :: AddressMethod
  rStaticAddress :: string
  rStaticGateway :: string
  NewIfName :: string
  MACPolicy :: string

record ValidationInput =
  LiveAddresses :: "string \<Rightarrow> string list"
  Rows :: "NetworkInterface list"
  Req :: ChangeRequest
  LAN :: "LANConfig option"
  MgmtCIDR :: string
  PeerIfName :: string
  HostapdInstalled :: bool
  IWDInstalled :: bool
  RadioSupportsAP :: "string \<Rightarrow> bool"
  RadioSupportsSTA :: "string \<Rightarrow> bool"
  CountryCode :: string

fun role_str :: "InterfaceRole \<Rightarrow> string" where
  "role_str RoleUnassigned = ''unassigned''"
| "role_str RoleWAN = ''wan''"
| "role_str RoleLAN = ''lan''"
| "role_str RoleLANMember = ''lan_member''"
| "role_str RoleMgmt = ''mgmt''"
| "role_str (RoleOther s) = s"

fun slot_str :: "UplinkSlot \<Rightarrow> string" where
  "slot_str SlotNone = []"
| "slot_str SlotDomestic = ''domestic''"
| "slot_str SlotDomestic2 = ''domestic2''"
| "slot_str SlotDomestic3 = ''domestic3''"
| "slot_str SlotDomestic4 = ''domestic4''"
| "slot_str SlotSecondary = ''secondary''"
| "slot_str SlotSecondary2 = ''secondary2''"
| "slot_str SlotSecondary3 = ''secondary3''"
| "slot_str SlotSecondary4 = ''secondary4''"
| "slot_str (SlotOther s) = s"

text \<open>\<open>WANChange\<close>: the WAN configuration a request carries, from the editor or the older fields.\<close>

definition WANChange :: "ChangeRequest \<Rightarrow> NetworkInterface \<Rightarrow> WANConfig option" where
  "WANChange r n =
     (case WAN r of
        Some c \<Rightarrow> Some c
      | None \<Rightarrow>
          if rMethod r = MethodEmpty then None
          else let c = iface_WANConfig n;
                   c = c\<lparr>wcMethod := rMethod r, wcStaticAddress := rStaticAddress r,
                         wcStaticGateway := rStaticGateway r\<rparr>;
                   c = c\<lparr>wcGatewayOnLink := False\<rparr>
               in Some (if slot_is_secondary (rSlot r)
                        then c\<lparr>wcDNSMode := ''vpn'', wcDNSServers := []\<rparr> else c))"

section \<open>Overlapping subnets\<close>

definition unmap4in6 :: "netprefix \<Rightarrow> netprefix" where
  "unmap4in6 p = (if \<not> is4in6 (pfx_addr p) \<or> pfx_bits p < 96 then p
     else Pfx (unmap (pfx_addr p)) (pfx_bits p - 96))"

definition overlaps :: "string \<Rightarrow> string \<Rightarrow> bool" where
  "overlaps a b =
     (case (parse_prefix a, parse_prefix b) of
        (Some pa, Some pb) \<Rightarrow> prefix_overlaps (unmap4in6 pa) (unmap4in6 pb)
      | _ \<Rightarrow> False)"

definition reservedLANOverlaps :: "string list" where
  "reservedLANOverlaps =
     [''100.64.0.0/10'', ''192.168.100.0/24'', ''127.0.0.0/8'', ''169.254.0.0/16'', ''224.0.0.0/4'']"

text \<open>\<open>ValidateLANConfig\<close>: the ranges a LAN may not overlap, then the DHCP pool.\<close>

definition lan_forbidden :: "NetworkInterface list \<Rightarrow> string \<Rightarrow> string list" where
  "lan_forbidden rows mgmtCIDR =
     reservedLANOverlaps
     @ (if mgmtCIDR \<noteq> [] then [mgmtCIDR] else [])
     @ map StaticAddress (filter (\<lambda>r. Role r = RoleWAN \<and> StaticAddress r \<noteq> []) rows)"

fun dhcp_bounds :: "LANConfig \<Rightarrow> netprefix \<Rightarrow> (string \<times> string) list \<Rightarrow> Verdict option" where
  "dhcp_bounds lan p [] = None"
| "dhcp_bounds lan p ((label, ad) # rest) =
     (if ad = [] then dhcp_bounds lan p rest
      else case parse_addr ad of
        None \<Rightarrow> Some (reject ''V14'' ''%s (%q) is not an IP address'' [FStr label, FStr ad])
      | Some ip \<Rightarrow>
          if \<not> prefix_contains p ip
          then Some (reject ''V14'' ''%s (%s) is outside the LAN %s'' [FStr label, FStr ad, FStr (CIDR lan)])
          else dhcp_bounds lan p rest)"

definition dhcp_entries :: "bool \<Rightarrow> LANConfig \<Rightarrow> (string \<times> string) list" where
  "dhcp_entries low_first lan =
     (let lo = (''the DHCP range start'', DHCPRangeLow lan); hi = (''the DHCP range end'', DHCPRangeHigh lan)
      in if low_first then [lo, hi] else [hi, lo])"

definition ValidateLANConfig ::
  "bool \<Rightarrow> LANConfig \<Rightarrow> NetworkInterface list \<Rightarrow> string \<Rightarrow> Verdict list" where
  "ValidateLANConfig low_first lan rows mgmtCIDR =
     (if CIDR lan = [] then []
      else case parse_prefix (CIDR lan) of
        None \<Rightarrow> [reject ''V14'' ''%q is not a valid address and prefix, e.g. 10.77.0.1/24'' [FStr (CIDR lan)]]
      | Some p \<Rightarrow>
          (case find (\<lambda>f. overlaps (CIDR lan) f) (lan_forbidden rows mgmtCIDR) of
             Some f \<Rightarrow> [reject ''V14'' ''LAN %s overlaps %s'' [FStr (CIDR lan), FStr f]]
           | None \<Rightarrow>
               (case dhcp_bounds lan p (dhcp_entries low_first lan) of
                  Some v \<Rightarrow> [v] | None \<Rightarrow> [])))"

text \<open>\<open>SourceAllows\<close>, the source by role capability matrix.\<close>

definition SourceAllows :: "string \<Rightarrow> InterfaceRole \<Rightarrow> bool" where
  "SourceAllows source role =
     (if role = RoleUnassigned then True
      else if source \<in> {''eth_onboard'', ''eth_pci'', ''eth_platform'', ''eth_usb'', ''virt_vlan'', ''virt_bond''}
      then role = RoleWAN \<or> role = RoleLAN \<or> role = RoleLANMember
      else if source \<in> {''wifi_pci'', ''wifi_usb''}
      then role = RoleWAN \<or> role = RoleLAN \<or> role = RoleLANMember
      else if source \<in> {''tether_android'', ''tether_iphone'', ''wwan_usb'', ''wwan_pcie''}
      then role = RoleWAN
      else if source = ''virt_bridge'' then role = RoleLAN
      else False)"

text \<open>
  \<open>RegDomainUnset\<close>. Upper-casing is kept for ASCII: no letter of any alphabet has a digit as its
  upper case, so the comparisons do not see the difference.
\<close>

definition to_upper :: "string \<Rightarrow> string" where
  "to_upper = map (\<lambda>c. if 97 \<le> byte c \<and> byte c \<le> 122 then char_of (byte c - 32) else c)"

definition RegDomainUnset :: "string \<Rightarrow> bool" where
  "RegDomainUnset code = (let c = to_upper (trim_space code) in c = [] \<or> c = ''00'' \<or> c = ''0'')"

section \<open>Rules before the proposal\<close>

definition by_id :: "NetworkInterface list \<Rightarrow> nat \<Rightarrow> NetworkInterface option" where
  "by_id rows i = find (\<lambda>r. ifID r = i) (rev rows)"

definition source_of :: "NetworkInterface \<Rightarrow> string" where
  "source_of t = (if SourceOverride t \<noteq> [] then SourceOverride t else Source t)"

definition unassignable :: "string \<Rightarrow> bool" where
  "unassignable s \<longleftrightarrow> s = ''loopback'' \<or> s = ''virt_other'' \<or> s = ''unknown''"

definition rule_request :: "ChangeRequest \<Rightarrow> Verdict option" where
  "rule_request r = (if length (RequestID r) > 64
     then Some (reject ''WAN_request'' ''Request identifier is too long.'' []) else None)"

definition rule_V1 :: "NetworkInterface \<Rightarrow> Verdict option" where
  "rule_V1 t = (if \<not> Present t
     then Some (reject ''V1'' ''interface %s is not present'' [FStr (IfName t)]) else None)"

definition rule_V2 :: "ChangeRequest \<Rightarrow> Verdict option" where
  "rule_V2 r = (if \<not> role_valid (rRole r)
     then Some (reject ''V2'' ''%q is not a valid role'' [FStr (role_str (rRole r))]) else None)"

definition rule_V21 :: "ChangeRequest \<Rightarrow> NetworkInterface \<Rightarrow> Verdict option" where
  "rule_V21 r t = (if NewIfName r \<noteq> [] \<and> NewIfName r \<noteq> IfName t
     then Some (reject ''V21'' ''interfaces are never renamed (%s -> %s); use the operator label instead''
                  [FStr (IfName t), FStr (NewIfName r)]) else None)"

definition rule_V3 :: "NetworkInterface \<Rightarrow> Verdict option" where
  "rule_V3 t = (if unassignable (source_of t)
     then Some (reject ''V3'' ''%s (%s) can never hold a role'' [FStr (IfName t), FStr (source_of t)]) else None)"

definition rule_V3_bridge :: "ChangeRequest \<Rightarrow> NetworkInterface \<Rightarrow> Verdict option" where
  "rule_V3_bridge r t = (if IfName t = ManagedBridgeName \<and> rRole r \<noteq> RoleUnassigned
     then Some (reject ''V3'' ''%s is the bridge nasnet creates for the LAN, not a port; assign the port you want on the LAN instead''
                  [FStr (IfName t)]) else None)"

definition rule_V6 :: "ChangeRequest \<Rightarrow> NetworkInterface \<Rightarrow> Verdict option" where
  "rule_V6 r t = (if rRole r \<noteq> RoleUnassigned \<and> has_prefix (source_of t) ''wwan_'' \<and> rRole r \<noteq> RoleWAN
     then Some (reject ''V6'' ''%s is a cellular modem and can only be an uplink'' [FStr (IfName t)]) else None)"

definition rule_V5 :: "ChangeRequest \<Rightarrow> NetworkInterface \<Rightarrow> Verdict option" where
  "rule_V5 r t = (if rRole r \<noteq> RoleUnassigned \<and> Ephemeral t \<and> (rRole r = RoleLAN \<or> rRole r = RoleLANMember)
     then Some (reject ''V5'' ''%s is an ephemeral device (%s) and cannot hold %s''
                  [FStr (IfName t), FStr (source_of t), FStr (role_str (rRole r))]) else None)"

definition rule_V4 :: "ChangeRequest \<Rightarrow> NetworkInterface \<Rightarrow> Verdict option" where
  "rule_V4 r t = (if rRole r \<noteq> RoleUnassigned \<and> \<not> SourceAllows (source_of t) (rRole r)
     then Some (reject ''V4'' ''a %s interface cannot hold the %s role''
                  [FStr (source_of t), FStr (role_str (rRole r))]) else None)"

definition rule_V7 :: "ValidationInput \<Rightarrow> NetworkInterface \<Rightarrow> Verdict option" where
  "rule_V7 vi t = (case MasterID t of
      Some m \<Rightarrow> if rRole (Req vi) \<noteq> RoleLANMember \<and> by_id (Rows vi) m = None
        then Some (reject ''V7'' ''%s is enslaved to an interface nasnet does not manage'' [FStr (IfName t)])
        else None
    | None \<Rightarrow> None)"

definition rule_V8 :: "ValidationInput \<Rightarrow> NetworkInterface \<Rightarrow> Verdict option" where
  "rule_V8 vi t = (if role_is_singleton (rRole (Req vi))
     then map_option (\<lambda>h. reject ''V8'' ''%s already holds the %s role; name it explicitly to take the role over''
                            [FStr (IfName h), FStr (role_str (rRole (Req vi)))])
            (find (\<lambda>h. Role h = rRole (Req vi) \<and> ifID h \<noteq> ifID t \<and> EvictID (Req vi) \<noteq> Some (ifID h)) (Rows vi))
     else None)"

definition rule_V9_role :: "ChangeRequest \<Rightarrow> NetworkInterface \<Rightarrow> Verdict option" where
  "rule_V9_role r t = (if rRole r \<noteq> RoleUnassigned \<and> Role t \<noteq> RoleUnassigned \<and> Role t \<noteq> rRole r
     then Some (reject ''V9'' ''%s already holds the %s role; clear it first''
                  [FStr (IfName t), FStr (role_str (Role t))]) else None)"

definition rule_V9_members :: "ValidationInput \<Rightarrow> NetworkInterface \<Rightarrow> Verdict option" where
  "rule_V9_members vi t = (if rRole (Req vi) \<noteq> RoleUnassigned
     then map_option (\<lambda>m. reject ''V9'' ''%s is enslaved to %s, so %s cannot also hold %s''
                            [FStr (IfName m), FStr (IfName t), FStr (IfName t), FStr (role_str (rRole (Req vi)))])
            (find (\<lambda>m. MasterID m = Some (ifID t) \<and> rRole (Req vi) \<noteq> RoleLAN) (Rows vi))
     else None)"

definition rule_V10 :: "ValidationInput \<Rightarrow> NetworkInterface \<Rightarrow> Verdict option" where
  "rule_V10 vi t = (if rRole (Req vi) = RoleLANMember
     then (case rMasterID (Req vi) of
             None \<Rightarrow> Some (reject ''V10'' ''%s needs a LAN bridge to join'' [FStr (IfName t)])
           | Some m \<Rightarrow>
               (case by_id (Rows vi) m of
                  Some master \<Rightarrow> if Role master \<noteq> RoleLAN
                    then Some (reject ''V10'' ''master interface %d does not hold the lan role'' [FInt (int m)])
                    else None
                | None \<Rightarrow> Some (reject ''V10'' ''master interface %d does not hold the lan role'' [FInt (int m)])))
     else None)"

definition rule_V11 :: "ValidationInput \<Rightarrow> NetworkInterface \<Rightarrow> Verdict option" where
  "rule_V11 vi t =
     (if has_prefix (source_of t) ''wifi_'' \<and> (rRole (Req vi) = RoleLAN \<or> rRole (Req vi) = RoleLANMember) then
        (if \<not> HostapdInstalled vi
         then Some (reject ''V11'' ''hostapd is not installed, so %s cannot be an access point'' [FStr (IfName t)])
         else if \<not> RadioSupportsAP vi (Phy t)
         then Some (reject ''V11'' ''radio %s does not support access point mode, so %s cannot hold %s''
                      [FStr (Phy t), FStr (IfName t), FStr (role_str (rRole (Req vi)))])
         else if RegDomainUnset (CountryCode vi)
         then Some (reject ''V11'' ''set a country code before enabling an access point: the default regulatory domain marks nearly all 5 GHz as no-initiating-radiation and hostapd refuses to start'' [])
         else None)
      else None)"

definition rule_V12 :: "ValidationInput \<Rightarrow> NetworkInterface \<Rightarrow> Verdict option" where
  "rule_V12 vi t =
     (if has_prefix (source_of t) ''wifi_'' \<and> rRole (Req vi) = RoleWAN then
        (if \<not> IWDInstalled vi
         then Some (reject ''V12'' ''iwd is not installed, so %s cannot join a network (networkd cannot associate)'' [FStr (IfName t)])
         else if \<not> RadioSupportsSTA vi (Phy t)
         then Some (reject ''V12'' ''radio %s does not support station mode'' [FStr (Phy t)])
         else None)
      else None)"

definition rule_V24 :: "ChangeRequest \<Rightarrow> Verdict option" where
  "rule_V24 r = (if MACPolicy r = ''random'' \<and> (rRole r = RoleWAN \<or> rRole r = RoleLAN \<or> rRole r = RoleLANMember)
     then Some (reject ''V24'' ''a random MAC policy cannot be used on %s: clients and DHCP reservations both depend on a stable address''
                  [FStr (role_str (rRole r))]) else None)"

definition apRole :: "InterfaceRole \<Rightarrow> bool" where
  "apRole r \<longleftrightarrow> r = RoleLAN \<or> r = RoleLANMember"

definition rule_V13 :: "ValidationInput \<Rightarrow> NetworkInterface \<Rightarrow> Verdict option" where
  "rule_V13 vi t = (if Phy t \<noteq> [] \<and> rRole (Req vi) \<noteq> RoleUnassigned
     then map_option (\<lambda>sib. reject ''V13'' ''%s shares radio %s with %s; a radio is a station or an access point, never both''
                              [FStr (IfName t), FStr (Phy t), FStr (IfName sib)])
            (find (\<lambda>sib. \<not> (ifID sib = ifID t \<or> Phy sib \<noteq> Phy t \<or> Role sib = RoleUnassigned)
                          \<and> apRole (Role sib) \<noteq> apRole (rRole (Req vi))) (Rows vi))
     else None)"

text \<open>The rules V2 to V13 in their order, on a target that exists and is present.\<close>

definition early_rules :: "ValidationInput \<Rightarrow> NetworkInterface \<Rightarrow> Verdict option" where
  "early_rules vi t =
     (let r = Req vi in first_some
        [rule_V1 t, rule_V2 r, rule_V21 r t, rule_V3 t, rule_V3_bridge r t, rule_V6 r t, rule_V5 r t, rule_V4 r t,
         rule_V7 vi t, rule_V8 vi t, rule_V9_role r t, rule_V9_members vi t, rule_V10 vi t,
         rule_V11 vi t, rule_V12 vi t, rule_V24 r, rule_V13 vi t])"

section \<open>The proposed rows\<close>

text \<open>How far a block of \<open>Validate\<close> gets: it returns with verdicts, or goes on with them and a value.\<close>

datatype 'a flow = Return "Verdict list" | Go "Verdict list" 'a

fun go_cons :: "'a \<Rightarrow> 'a list flow \<Rightarrow> 'a list flow" where
  "go_cons x (Return vs) = Return vs"
| "go_cons x (Go vs xs) = Go vs (x # xs)"

text \<open>
  The loop that validates the proposed configuration instead of the row it replaces: the evicted
  row loses its role, the target takes the requested one and the WAN configuration.
\<close>

fun propose ::
  "ChangeRequest \<Rightarrow> NetworkInterface \<Rightarrow> Verdict list \<Rightarrow> NetworkInterface list \<Rightarrow> NetworkInterface list flow" where
  "propose r t vs [] = Go vs []"
| "propose r t vs (row # rest) =
     (let row = (if EvictID r = Some (ifID row) then row\<lparr>Role := RoleUnassigned, Slot := SlotNone\<rparr> else row) in
      if ifID row \<noteq> ifID t then go_cons row (propose r t vs rest)
      else let row = row\<lparr>Role := rRole r, Slot := rSlot r\<rparr> in
        case WANChange r t of
          None \<Rightarrow> go_cons row (propose r t vs rest)
        | Some cfg \<Rightarrow>
            if rRole r \<noteq> RoleWAN
            then Return (vs @ [reject ''WAN_role'' ''WAN configuration requires a WAN role.'' []])
            else let vs = vs @ ValidateWAN cfg (rSlot r) (source_of t) in
              if Rejected vs then Return vs
              else go_cons (SetWAN row cfg) (propose r t vs rest))"

text \<open>A static WAN may not overlap the management subnet or the subnet of another WAN.\<close>

definition wan_overlap_one :: "ValidationInput \<Rightarrow> WANConfig \<Rightarrow> NetworkInterface \<Rightarrow> Verdict list" where
  "wan_overlap_one vi cfg other =
     (let addresses = (if Method other = MethodStatic then [StaticAddress other] else LiveAddresses vi (IfName other))
      in case find (\<lambda>ad. overlaps (wcStaticAddress cfg) ad) addresses of
           Some ad \<Rightarrow> [reject ''WAN_overlap'' ''WAN subnet overlaps %s (%s); use different subnets for each WAN''
                        [FStr (IfName other), FStr ad]]
         | None \<Rightarrow> [])"

definition wan_overlap_verdicts ::
  "ValidationInput \<Rightarrow> NetworkInterface \<Rightarrow> WANConfig \<Rightarrow> NetworkInterface list \<Rightarrow> Verdict list" where
  "wan_overlap_verdicts vi t cfg proposed =
     (if MgmtCIDR vi \<noteq> [] \<and> overlaps (wcStaticAddress cfg) (MgmtCIDR vi)
      then [reject ''WAN_overlap'' ''WAN address overlaps the reserved management subnet %s'' [FStr (MgmtCIDR vi)]]
      else [])
     @ concat (map (wan_overlap_one vi cfg)
         (filter (\<lambda>other. \<not> (ifID other = ifID t \<or> Role other \<noteq> RoleWAN)) proposed))"

definition overlap_step ::
  "ValidationInput \<Rightarrow> NetworkInterface \<Rightarrow> Verdict list \<Rightarrow> NetworkInterface list \<Rightarrow> NetworkInterface list flow" where
  "overlap_step vi t vs proposed =
     (case WANChange (Req vi) t of
        Some cfg \<Rightarrow>
          if wcMethod cfg = MethodStatic then
            (let vs = vs @ wan_overlap_verdicts vi t cfg proposed
             in if Rejected vs then Return vs else Go vs proposed)
          else Go vs proposed
      | None \<Rightarrow> Go vs proposed)"

definition lan_step ::
  "bool \<Rightarrow> ValidationInput \<Rightarrow> Verdict list \<Rightarrow> NetworkInterface list \<Rightarrow> NetworkInterface list flow" where
  "lan_step low_first vi vs proposed =
     (case LAN vi of
        Some lan \<Rightarrow>
          (let lanVs = ValidateLANConfig low_first lan proposed (MgmtCIDR vi)
           in if Rejected lanVs then Return (vs @ lanVs) else Go vs proposed)
      | None \<Rightarrow> Go vs proposed)"

section \<open>Rules after the proposal\<close>

definition rule_V15 :: "ChangeRequest \<Rightarrow> NetworkInterface \<Rightarrow> Verdict option" where
  "rule_V15 r t = (if has_prefix (source_of t) ''wwan_'' \<and> rMethod r = MethodDHCP4
     then Some (reject ''V15'' ''%s is a raw-IP link; networkd cannot DHCP on it, choose rawip or a static address''
                  [FStr (IfName t)]) else None)"

definition rule_V20 :: "ChangeRequest \<Rightarrow> NetworkInterface \<Rightarrow> Verdict option" where
  "rule_V20 r t =
     (if rRole r = RoleWAN then
        (if \<not> slot_is_domestic (rSlot r) \<and> \<not> slot_is_secondary (rSlot r)
         then Some (reject ''V20'' ''%s must be assigned to a domestic slot or a secondary slot'' [FStr (IfName t)])
         else None)
      else if rSlot r \<noteq> SlotNone
      then Some (reject ''V20'' ''only an uplink carries a slot, %s does not'' [FStr (role_str (rRole r))])
      else None)"

definition rule_V25 :: "ValidationInput \<Rightarrow> NetworkInterface \<Rightarrow> Verdict option" where
  "rule_V25 vi t = (if rRole (Req vi) = RoleWAN
     then map_option (\<lambda>h. reject ''V25'' ''%s already holds the %s slot; name it explicitly to take it over''
                            [FStr (IfName h), FStr (slot_str (rSlot (Req vi)))])
            (find (\<lambda>h. \<not> (ifID h = ifID t \<or> Role h \<noteq> RoleWAN \<or> Slot h \<noteq> rSlot (Req vi))
                        \<and> EvictID (Req vi) \<noteq> Some (ifID h)) (Rows vi))
     else None)"

section \<open>The shape of the box\<close>

definition em_dash :: string where
  "em_dash = [CHR 0xE2, CHR 0x80, CHR 0x94]"

record box_counts =
  assignable :: nat
  wans :: nat
  hasMgmt :: bool
  hasLAN :: bool

definition count_row :: "ChangeRequest \<Rightarrow> NetworkInterface \<Rightarrow> NetworkInterface \<Rightarrow> box_counts \<Rightarrow> box_counts" where
  "count_row r t row b =
     (if unassignable (Source row) \<or> \<not> Present row then b
      else let b = b\<lparr>assignable := assignable b + 1\<rparr>;
               role = (if ifID row = ifID t then rRole r else Role row)
           in if role = RoleWAN then b\<lparr>wans := wans b + 1\<rparr>
              else if role = RoleMgmt then b\<lparr>hasMgmt := True\<rparr>
              else if role = RoleLAN then b\<lparr>hasLAN := True\<rparr>
              else b)"

definition box_shape :: "ValidationInput \<Rightarrow> NetworkInterface \<Rightarrow> box_counts" where
  "box_shape vi t = fold (count_row (Req vi) t) (Rows vi)
     \<lparr>assignable = 0, wans = 0, hasMgmt = False, hasLAN = False\<rparr>"

definition rule_V16 :: "ChangeRequest \<Rightarrow> NetworkInterface \<Rightarrow> box_counts \<Rightarrow> Verdict option" where
  "rule_V16 r t b = (if rRole r = RoleUnassigned \<and> Role t = RoleWAN \<and> wans b = 0
     then Some (reject ''V16'' ''at least one uplink must remain assigned'' []) else None)"

definition warn_V16 :: "box_counts \<Rightarrow> Verdict list" where
  "warn_V16 b = (if wans b < 2
     then [warn ''V16'' (''only %d uplink assigned '' @ em_dash @ '' no failover and no split routing'') [FInt (int (wans b))]] else [])"

definition confirm_V17 :: "ValidationInput \<Rightarrow> NetworkInterface \<Rightarrow> box_counts \<Rightarrow> Verdict list" where
  "confirm_V17 vi t b =
     (if assignable b = 2 \<and> wans b = 2 \<and> \<not> hasLAN b
      then let other = fold (\<lambda>row o'. if ifID row \<noteq> ifID t \<and> Present row then IfName row else o') (Rows vi) []
           in [confirm ''V17'' ''no local network: the panel will be reachable only via %s. An nft accept rule for the panel port on the domestic uplink is provisioned automatically so the firewall cannot cut the only management path. Type CONFIRM to continue.''
                  [FStr other]]
      else [])"

definition rule_V18 :: "ValidationInput \<Rightarrow> NetworkInterface \<Rightarrow> Verdict option" where
  "rule_V18 vi t =
     (if PeerIfName vi \<noteq> [] \<and> PeerIfName vi = IfName t \<and> rRole (Req vi) = RoleUnassigned \<and> \<not> Confirmed (Req vi)
      then Some (reject ''V18'' ''%s carries this admin session; unassigning it will cut you off. Confirm to proceed with the auto-revert armed'' [FStr (IfName t)])
      else None)"

definition late_warnings :: "ValidationInput \<Rightarrow> NetworkInterface \<Rightarrow> box_counts \<Rightarrow> Verdict list" where
  "late_warnings vi t b =
     (if assignable b \<ge> 3 \<and> \<not> hasMgmt b
      then [warn ''V19'' ''%d assignable interfaces and no management port reserved; reserving one gives a headless box a recovery path''
              [FInt (int (assignable b))]] else [])
     @ (if ifKeyKind t \<noteq> [] \<and> ifKeyKind t \<noteq> ''permaddr'' \<and> rRole (Req vi) \<noteq> RoleUnassigned
        then [warn ''V22'' (''%s has no usable permanent MAC, so this role is tied to the port, not the device '' @ em_dash
              @ '' swapping the adapter keeps the role'') [FStr (IfName t)]]
        else [])
     @ (if rRole (Req vi) = RoleWAN \<and> USBSpeedMbit t = 480
        then [warn ''V23'' ''%s is on a USB 2.0 port; expect a ceiling near 280 Mbit/s'' [FStr (IfName t)]] else [])"

definition tail_rules :: "ValidationInput \<Rightarrow> NetworkInterface \<Rightarrow> Verdict list \<Rightarrow> Verdict list" where
  "tail_rules vi t vs =
     (case first_some [rule_V15 (Req vi) t, rule_V20 (Req vi) t, rule_V25 vi t] of
        Some v \<Rightarrow> vs @ [v]
      | None \<Rightarrow>
          (let b = box_shape vi t in
           case rule_V16 (Req vi) t b of
             Some v \<Rightarrow> vs @ [v]
           | None \<Rightarrow>
               (let vs = vs @ warn_V16 b @ confirm_V17 vi t b in
                case rule_V18 vi t of
                  Some v \<Rightarrow> vs @ [v]
                | None \<Rightarrow> vs @ late_warnings vi t b)))"

fun flow_bind :: "'a flow \<Rightarrow> (Verdict list \<Rightarrow> 'a \<Rightarrow> 'b flow) \<Rightarrow> 'b flow" where
  "flow_bind (Return vs) k = Return vs"
| "flow_bind (Go vs a) k = k vs a"

definition proposal_steps ::
  "bool \<Rightarrow> ValidationInput \<Rightarrow> NetworkInterface \<Rightarrow> NetworkInterface list flow" where
  "proposal_steps low_first vi t =
     flow_bind (propose (Req vi) t [] (Rows vi)) (\<lambda>vs proposed.
     flow_bind (overlap_step vi t vs proposed) (\<lambda>vs proposed.
       lan_step low_first vi vs proposed))"

definition Validate :: "bool \<Rightarrow> ValidationInput \<Rightarrow> Verdict list" where
  "Validate low_first vi =
     (case rule_request (Req vi) of
        Some v \<Rightarrow> [v]
      | None \<Rightarrow>
          (case by_id (Rows vi) (InterfaceID (Req vi)) of
             None \<Rightarrow> [reject ''V1'' ''interface %d not found'' [FInt (int (InterfaceID (Req vi)))]]
           | Some t \<Rightarrow>
               (case early_rules vi t of
                  Some v \<Rightarrow> [v]
                | None \<Rightarrow>
                    (case proposal_steps low_first vi t of
                       Return vs \<Rightarrow> vs
                     | Go vs _ \<Rightarrow> tail_rules vi t vs))))"

section \<open>Wi-Fi settings\<close>

text \<open>
  \<open>validWPAPassphrase\<close> ranges over runes. Every rune that is accepted is one ASCII byte, and a byte
  of 0x80 or more belongs to a rune that is refused (U+FFFD when it is not UTF-8), so the loop over
  bytes accepts the same passphrases.
\<close>

definition wpa_hex_digit :: "char \<Rightarrow> bool" where
  "wpa_hex_digit c \<longleftrightarrow> c \<in> set ''0123456789abcdefABCDEF''"

definition validWPAPassphrase :: "string \<Rightarrow> bool" where
  "validWPAPassphrase psk =
     (if length psk = 64 then list_all wpa_hex_digit psk
      else if length psk < 8 \<or> length psk > 63 then False
      else list_all (\<lambda>c. \<not> (byte c < 0x20 \<or> byte c > 0x7e)) psk)"

definition ValidateWifiConfig :: "WifiConfig \<Rightarrow> Verdict list" where
  "ValidateWifiConfig cfg =
     (let n = length (SSID cfg) in if n = 0 \<or> n > 32
      then [reject ''V38'' ''the network name must be 1-32 bytes; %q is %d'' [FStr (SSID cfg), FInt (int n)]] else [])
     @ (if (Mode cfg = ''ap'' \<or> PSK cfg \<noteq> []) \<and> \<not> validWPAPassphrase (PSK cfg)
        then [reject ''V39'' ''the passphrase must be 8-63 printable characters, or 64 hex digits'' []] else [])
     @ (if Band cfg \<in> {''2g'', ''5g'', ''6g''} then [] else [reject ''V40'' ''unknown band %q'' [FStr (Band cfg)]])
     @ (if Mode cfg \<in> {''ap'', ''station''} then [] else [reject ''V41'' ''unknown mode %q'' [FStr (Mode cfg)]])
     @ (if Mode cfg = ''ap'' \<and> RegDomainUnset (wifiCountryCode cfg)
        then [reject ''V42'' ''a country code is required before an access point can start'' []] else [])"

section \<open>Writing an accepted change\<close>

text \<open>
  The first op of \<open>buildPlan\<close>, a database transaction: evict, read the row, set the role and the
  slot, then save the WAN intent. \<open>None\<close> is the error of \<open>tx.First\<close>, which rolls the transaction
  back. \<open>Apply\<close> runs it only when no verdict rejects and every confirmation was given.
\<close>

definition update_where :: "nat \<Rightarrow> (NetworkInterface \<Rightarrow> NetworkInterface) \<Rightarrow> NetworkInterface list \<Rightarrow> NetworkInterface list" where
  "update_where i f rows = map (\<lambda>r. if ifID r = i then f r else r) rows"

definition SetRoleTx :: "nat \<Rightarrow> InterfaceRole \<Rightarrow> UplinkSlot \<Rightarrow> NetworkInterface list \<Rightarrow> NetworkInterface list" where
  "SetRoleTx i role slot rows = update_where i (\<lambda>r. r\<lparr>Role := role, Slot := slot\<rparr>) rows"

definition SaveWANIntent :: "NetworkInterface \<Rightarrow> NetworkInterface list \<Rightarrow> NetworkInterface list" where
  "SaveWANIntent row rows = update_where (ifID row)
     (\<lambda>r. r\<lparr>Method := Method row, StaticAddress := StaticAddress row, StaticGateway := StaticGateway row,
            GatewayOnLink := GatewayOnLink row, DNSServer := DNSServer row, DNSServer2 := DNSServer2 row,
            DNSDomains := DNSDomains row, LearnedGateway := LearnedGateway row\<rparr>) rows"

definition assign_role_tx :: "ChangeRequest \<Rightarrow> NetworkInterface list \<Rightarrow> NetworkInterface list option" where
  "assign_role_tx r rows =
     (let rows = (case EvictID r of
                    Some e \<Rightarrow> SetRoleTx e RoleUnassigned SlotNone rows
                  | None \<Rightarrow> rows)
      in case find (\<lambda>x. ifID x = InterfaceID r) rows of
           None \<Rightarrow> None
         | Some row \<Rightarrow>
             (let rows = SetRoleTx (InterfaceID r) (rRole r) (rSlot r) rows;
                  cfg = WANChange r row;
                  row = row\<lparr>Role := rRole r, Slot := rSlot r\<rparr>;
                  row = (case cfg of
                           Some c \<Rightarrow> SetWAN row c
                         | None \<Rightarrow> if rRole r = RoleWAN \<and> slot_is_secondary (rSlot r)
                                   then row\<lparr>DNSServer := [], DNSServer2 := [], DNSDomains := []\<rparr> else row)
              in Some (SaveWANIntent row rows)))"

definition apply_blocked :: "bool \<Rightarrow> Verdict list \<Rightarrow> Verdict option" where
  "apply_blocked confirmed vs =
     find (\<lambda>v. vLevel v = LevelReject \<or> vLevel v = LevelConfirm \<and> \<not> confirmed) vs"

definition Apply_rows :: "bool \<Rightarrow> ValidationInput \<Rightarrow> Verdict + NetworkInterface list option" where
  "Apply_rows low_first vi =
     (case apply_blocked (Confirmed (Req vi)) (Validate low_first vi) of
        Some v \<Rightarrow> Inl v
      | None \<Rightarrow> Inr (assign_role_tx (Req vi) (Rows vi)))"

section \<open>What acceptance implies\<close>

lemma Rejected_mem: "v \<in> set vs \<Longrightarrow> vLevel v = LevelReject \<Longrightarrow> Rejected vs"
  by (auto simp: Rejected_iff)

lemmas rule_defs =
  rule_V1_def rule_V2_def rule_V21_def rule_V3_def rule_V3_bridge_def rule_V6_def rule_V5_def rule_V4_def
  rule_V7_def rule_V8_def rule_V9_role_def rule_V9_members_def rule_V10_def rule_V11_def rule_V12_def
  rule_V24_def rule_V13_def

abbreviation rejects :: "Verdict option \<Rightarrow> bool" where
  "rejects \<equiv> pred_option (\<lambda>v. vLevel v = LevelReject)"

lemma rule_levels:
  "rejects (rule_V1 t)" "rejects (rule_V2 r)" "rejects (rule_V21 r t)" "rejects (rule_V3 t)"
  "rejects (rule_V3_bridge r t)" "rejects (rule_V6 r t)" "rejects (rule_V5 r t)" "rejects (rule_V4 r t)"
  "rejects (rule_V7 vi t)" "rejects (rule_V8 vi t)" "rejects (rule_V9_role r t)" "rejects (rule_V9_members vi t)"
  "rejects (rule_V10 vi t)" "rejects (rule_V11 vi t)" "rejects (rule_V12 vi t)" "rejects (rule_V24 r)"
  "rejects (rule_V13 vi t)" "rejects (rule_V15 r t)" "rejects (rule_V20 r t)" "rejects (rule_V25 vi t)"
  by (simp_all add: rule_defs rule_V15_def rule_V20_def rule_V25_def option.pred_map comp_def option.pred_True
      split: option.split)

lemma early_rules_reject: "early_rules vi t = Some v \<Longrightarrow> vLevel v = LevelReject"
  unfolding early_rules_def Let_def by (erule first_some_pred [rotated]) (simp add: rule_levels)

lemma late_rules_reject:
  "first_some [rule_V15 r t, rule_V20 r t, rule_V25 vi t] = Some v \<Longrightarrow> vLevel v = LevelReject"
  by (rule first_some_pred) (simp_all add: rule_levels)

text \<open>A row of the proposal, and what the loop does when it does not return.\<close>

definition proposed_row :: "ChangeRequest \<Rightarrow> NetworkInterface \<Rightarrow> NetworkInterface \<Rightarrow> NetworkInterface" where
  "proposed_row r t row =
     (let row = (if EvictID r = Some (ifID row) then row\<lparr>Role := RoleUnassigned, Slot := SlotNone\<rparr> else row) in
      if ifID row \<noteq> ifID t then row
      else let row = row\<lparr>Role := rRole r, Slot := rSlot r\<rparr> in
        case WANChange r t of None \<Rightarrow> row | Some cfg \<Rightarrow> SetWAN row cfg)"

definition wan_change_ok :: "ChangeRequest \<Rightarrow> NetworkInterface \<Rightarrow> bool" where
  "wan_change_ok r t = (case WANChange r t of None \<Rightarrow> True
     | Some cfg \<Rightarrow> rRole r = RoleWAN \<and> \<not> Rejected (ValidateWAN cfg (rSlot r) (source_of t)))"

lemma go_cons_simps:
  "go_cons x f = Go vs ys \<longleftrightarrow> (\<exists>zs. f = Go vs zs \<and> ys = x # zs)"
  "go_cons x f = Return vs \<longleftrightarrow> f = Return vs"
  by (cases f; auto)+

lemma ValidateWAN_silent: "\<not> Rejected (ValidateWAN c slot src) \<Longrightarrow> ValidateWAN c slot src = []"
  by (simp add: ValidateWAN_Rejected_iff)

lemma propose_Cons:
  "propose r t vs (row # rows) =
     (if ifID row \<noteq> ifID t then go_cons (proposed_row r t row) (propose r t vs rows)
      else case WANChange r t of
        None \<Rightarrow> go_cons (proposed_row r t row) (propose r t vs rows)
      | Some cfg \<Rightarrow>
          if rRole r \<noteq> RoleWAN
          then Return (vs @ [reject ''WAN_role'' ''WAN configuration requires a WAN role.'' []])
          else if Rejected (vs @ ValidateWAN cfg (rSlot r) (source_of t))
          then Return (vs @ ValidateWAN cfg (rSlot r) (source_of t))
          else go_cons (proposed_row r t row) (propose r t (vs @ ValidateWAN cfg (rSlot r) (source_of t)) rows))"
  by (simp add: Let_def proposed_row_def split: option.split)

declare propose.simps(2) [simp del]

lemma propose_Go:
  assumes "propose r t vs rows = Go ws out" "\<not> Rejected vs"
  shows "ws = vs \<and> out = map (proposed_row r t) rows \<and> (ifID t \<in> ifID ` set rows \<longrightarrow> wan_change_ok r t)"
  using assms
proof (induction rows arbitrary: out)
  case (Cons row rows)
  show ?case
  proof (cases "ifID row = ifID t")
    case False
    with Cons show ?thesis by (auto simp: propose_Cons go_cons_simps)
  next
    case True
    show ?thesis
    proof (cases "WANChange r t")
      case None
      with Cons True show ?thesis by (auto simp: propose_Cons go_cons_simps wan_change_ok_def)
    next
      case (Some cfg)
      with Cons.prems True have ok: "rRole r = RoleWAN" "\<not> Rejected (ValidateWAN cfg (rSlot r) (source_of t))"
        by (auto simp: propose_Cons split: if_splits)
      with Cons True Some show ?thesis
        by (auto simp: propose_Cons go_cons_simps wan_change_ok_def ValidateWAN_silent [OF ok(2)])
    qed
  qed
qed simp

lemma propose_Return: "propose r t vs rows = Return ws \<Longrightarrow> Rejected ws"
  by (induction rows arbitrary: vs)
     (auto simp: propose_Cons go_cons_simps simp del: Rejected_append split: if_splits option.splits,
      simp)

text \<open>Everything an accepted change has passed, on the target row \<open>t\<close>.\<close>

definition accepted :: "bool \<Rightarrow> ValidationInput \<Rightarrow> NetworkInterface \<Rightarrow> bool" where
  "accepted low_first vi t \<longleftrightarrow>
     rule_request (Req vi) = None \<and> by_id (Rows vi) (InterfaceID (Req vi)) = Some t
     \<and> early_rules vi t = None \<and> wan_change_ok (Req vi) t
     \<and> (\<forall>cfg. WANChange (Req vi) t = Some cfg \<and> wcMethod cfg = MethodStatic
          \<longrightarrow> \<not> Rejected (wan_overlap_verdicts vi t cfg (map (proposed_row (Req vi) t) (Rows vi))))
     \<and> (\<forall>lan. LAN vi = Some lan
          \<longrightarrow> \<not> Rejected (ValidateLANConfig low_first lan (map (proposed_row (Req vi) t) (Rows vi)) (MgmtCIDR vi)))
     \<and> rule_V15 (Req vi) t = None \<and> rule_V20 (Req vi) t = None \<and> rule_V25 vi t = None
     \<and> rule_V16 (Req vi) t (box_shape vi t) = None \<and> rule_V18 vi t = None"

lemma by_id_Some: "by_id rows i = Some t \<Longrightarrow> t \<in> set rows \<and> ifID t = i"
  by (auto simp: by_id_def find_Some_iff) (metis nth_mem length_rev set_rev)

lemma by_id_unique: "distinct (map ifID rows) \<Longrightarrow> x \<in> set rows \<Longrightarrow> by_id rows (ifID x) = Some x"
proof -
  assume d: "distinct (map ifID rows)" and x: "x \<in> set rows"
  then have "by_id rows (ifID x) \<noteq> None" by (auto simp: by_id_def find_None_iff)
  then obtain y where y: "by_id rows (ifID x) = Some y" by blast
  from by_id_Some [OF y] d x have "y = x" by (metis distinct_map inj_onD)
  with y show ?thesis by simp
qed

lemma overlap_step_simps:
  "overlap_step vi t vs ps = Go ws qs \<Longrightarrow> \<not> Rejected vs \<Longrightarrow>
     \<not> Rejected ws \<and> qs = ps \<and> (\<forall>cfg. WANChange (Req vi) t = Some cfg \<and> wcMethod cfg = MethodStatic
          \<longrightarrow> \<not> Rejected (wan_overlap_verdicts vi t cfg ps))"
  "overlap_step vi t vs ps = Return ws \<Longrightarrow> Rejected ws"
  by (auto simp: overlap_step_def Let_def split: option.splits if_splits)

lemma lan_step_simps:
  "lan_step lf vi vs ps = Go ws qs \<Longrightarrow> ws = vs \<and> qs = ps
     \<and> (\<forall>lan. LAN vi = Some lan \<longrightarrow> \<not> Rejected (ValidateLANConfig lf lan ps (MgmtCIDR vi)))"
  "lan_step lf vi vs ps = Return ws \<Longrightarrow> Rejected ws"
  by (auto simp: lan_step_def Let_def split: option.splits if_splits)

lemma flow_bind_simps:
  "flow_bind f k = Go ws b \<longleftrightarrow> (\<exists>vs a. f = Go vs a \<and> k vs a = Go ws b)"
  "flow_bind f k = Return ws \<longleftrightarrow> f = Return ws \<or> (\<exists>vs a. f = Go vs a \<and> k vs a = Return ws)"
  by (cases f; auto)+

lemma proposal_Return: "proposal_steps lf vi t = Return ws \<Longrightarrow> Rejected ws"
  by (auto simp: proposal_steps_def flow_bind_simps dest: propose_Return overlap_step_simps lan_step_simps)

lemma proposal_Go:
  assumes "proposal_steps lf vi t = Go ws qs"
  shows "\<not> Rejected ws
     \<and> (ifID t \<in> ifID ` set (Rows vi) \<longrightarrow> wan_change_ok (Req vi) t)
     \<and> (\<forall>cfg. WANChange (Req vi) t = Some cfg \<and> wcMethod cfg = MethodStatic
          \<longrightarrow> \<not> Rejected (wan_overlap_verdicts vi t cfg (map (proposed_row (Req vi) t) (Rows vi))))
     \<and> (\<forall>lan. LAN vi = Some lan
          \<longrightarrow> \<not> Rejected (ValidateLANConfig lf lan (map (proposed_row (Req vi) t) (Rows vi)) (MgmtCIDR vi)))"
proof -
  from assms obtain vs ps vs' ps' where
    p: "propose (Req vi) t [] (Rows vi) = Go vs ps" and o': "overlap_step vi t vs ps = Go vs' ps'"
    and l: "lan_step lf vi vs' ps' = Go ws qs"
    by (auto simp: proposal_steps_def flow_bind_simps)
  from propose_Go [OF p] have vs: "vs = []" "ps = map (proposed_row (Req vi) t) (Rows vi)"
    "ifID t \<in> ifID ` set (Rows vi) \<longrightarrow> wan_change_ok (Req vi) t" by auto
  with overlap_step_simps(1) [OF o'] lan_step_simps(1) [OF l] show ?thesis by auto
qed

lemma Validate_accepted:
  assumes "\<not> Rejected (Validate lf vi)"
  shows "\<exists>t. accepted lf vi t"
proof -
  from assms obtain t where t: "rule_request (Req vi) = None" "by_id (Rows vi) (InterfaceID (Req vi)) = Some t"
    by (auto simp: Validate_def rule_request_def split: option.splits if_splits)
  with assms have e: "early_rules vi t = None"
    by (cases "early_rules vi t") (auto simp: Validate_def dest: early_rules_reject)
  with assms t obtain ws qs where g: "proposal_steps lf vi t = Go ws qs"
    by (cases "proposal_steps lf vi t") (auto simp: Validate_def dest: proposal_Return)
  with assms t e have r: "\<not> Rejected (tail_rules vi t ws)" by (simp add: Validate_def)
  then have l: "first_some [rule_V15 (Req vi) t, rule_V20 (Req vi) t, rule_V25 vi t] = None"
    by (cases "first_some [rule_V15 (Req vi) t, rule_V20 (Req vi) t, rule_V25 vi t]")
       (auto simp: tail_rules_def dest: late_rules_reject)
  with r have "rule_V16 (Req vi) t (box_shape vi t) = None" "rule_V18 vi t = None"
    by (auto simp: tail_rules_def Let_def rule_V16_def rule_V18_def simp del: first_some_None_iff split: if_splits)
  moreover have "ifID t \<in> ifID ` set (Rows vi)" using by_id_Some [OF t(2)] by blast
  ultimately show ?thesis using t e l proposal_Go [OF g] by (auto simp: accepted_def)
qed

section \<open>The invariant of the interface table\<close>

text \<open>
  Identifiers are unique, an uplink sits in a real slot and everything else in none, no two uplinks
  share a slot, and a singleton role has at most one holder.
\<close>

definition slot_ok :: "InterfaceRole \<Rightarrow> UplinkSlot \<Rightarrow> bool" where
  "slot_ok role slot \<longleftrightarrow>
     (if role = RoleWAN then slot_is_domestic slot \<or> slot_is_secondary slot else slot = SlotNone)"

definition exclusive :: "NetworkInterface \<Rightarrow> NetworkInterface \<Rightarrow> bool" where
  "exclusive a b \<longleftrightarrow> ifID a \<noteq> ifID b \<longrightarrow>
     \<not> (Role a = RoleWAN \<and> Role b = RoleWAN \<and> Slot a = Slot b)
     \<and> \<not> (role_is_singleton (Role a) \<and> Role b = Role a)"

definition rows_ok :: "NetworkInterface list \<Rightarrow> bool" where
  "rows_ok rows \<longleftrightarrow> distinct (map ifID rows)
     \<and> (\<forall>a \<in> set rows. slot_ok (Role a) (Slot a))
     \<and> (\<forall>a \<in> set rows. \<forall>b \<in> set rows. exclusive a b)"

text \<open>The row the transaction leaves where the row \<open>x\<close> was; \<open>w\<close> holds the WAN intent it saves.\<close>

definition assigned_row :: "ChangeRequest \<Rightarrow> NetworkInterface \<Rightarrow> NetworkInterface \<Rightarrow> NetworkInterface" where
  "assigned_row r w x =
     (let x = (if EvictID r = Some (ifID x) then x\<lparr>Role := RoleUnassigned, Slot := SlotNone\<rparr> else x) in
      if ifID x = InterfaceID r
      then x\<lparr>Role := rRole r, Slot := rSlot r, Method := Method w, StaticAddress := StaticAddress w,
             StaticGateway := StaticGateway w, GatewayOnLink := GatewayOnLink w, DNSServer := DNSServer w,
             DNSServer2 := DNSServer2 w, DNSDomains := DNSDomains w, LearnedGateway := LearnedGateway w\<rparr>
      else x)"

lemma ifID_SetWAN [simp]: "ifID (SetWAN n c) = ifID n"
  by (simp add: SetWAN_def Let_def)

lemma evict_map:
  "(case EvictID r of Some e \<Rightarrow> SetRoleTx e RoleUnassigned SlotNone rows | None \<Rightarrow> rows)
     = map (\<lambda>x. if EvictID r = Some (ifID x) then x\<lparr>Role := RoleUnassigned, Slot := SlotNone\<rparr> else x) rows"
  by (auto simp: SetRoleTx_def update_where_def split: option.split)

lemma assign_role_tx_map:
  assumes "t \<in> set rows" "ifID t = InterfaceID r"
  shows "\<exists>w. assign_role_tx r rows = Some (map (assigned_row r w) rows)"
proof -
  let ?E = "\<lambda>x. if EvictID r = Some (ifID x) then x\<lparr>Role := RoleUnassigned, Slot := SlotNone\<rparr> else x"
  have "ifID (?E t) = InterfaceID r" using assms(2) by simp
  moreover have "?E t \<in> set (map ?E rows)" using assms(1) by auto
  ultimately have "find (\<lambda>x. ifID x = InterfaceID r) (map ?E rows) \<noteq> None"
    by (auto simp: find_None_iff simp del: set_map)
  then obtain row where f: "find (\<lambda>x. ifID x = InterfaceID r) (map ?E rows) = Some row" by blast
  then have "ifID row = InterfaceID r" by (auto simp: find_Some_iff)
  then show ?thesis
    by (intro exI [of _ "case WANChange r row of
              Some c \<Rightarrow> SetWAN (row\<lparr>Role := rRole r, Slot := rSlot r\<rparr>) c
            | None \<Rightarrow> if rRole r = RoleWAN \<and> slot_is_secondary (rSlot r)
                then row\<lparr>Role := rRole r, Slot := rSlot r, DNSServer := [], DNSServer2 := [], DNSDomains := []\<rparr>
                else row\<lparr>Role := rRole r, Slot := rSlot r\<rparr>"])
       (simp add: assign_role_tx_def evict_map f Let_def SaveWANIntent_def SetRoleTx_def update_where_def
         assigned_row_def split: option.split)
qed

lemma assigned_row_simps [simp]:
  "ifID (assigned_row r w x) = ifID x"
  "Role (assigned_row r w x) = (if ifID x = InterfaceID r then rRole r
     else if EvictID r = Some (ifID x) then RoleUnassigned else Role x)"
  "Slot (assigned_row r w x) = (if ifID x = InterfaceID r then rSlot r
     else if EvictID r = Some (ifID x) then SlotNone else Slot x)"
  by (simp_all add: assigned_row_def Let_def)

lemma assigned_row_other:
  "ifID x \<noteq> InterfaceID r \<Longrightarrow> EvictID r \<noteq> Some (ifID x) \<Longrightarrow> assigned_row r w x = x"
  by (simp add: assigned_row_def)

lemma accepted_slot: "accepted lf vi t \<Longrightarrow> slot_ok (rRole (Req vi)) (rSlot (Req vi))"
  by (auto simp: accepted_def rule_V20_def slot_ok_def split: if_splits)

lemma slot_ok_none [simp]: "slot_ok RoleUnassigned SlotNone"
  by (simp add: slot_ok_def)

lemma accepted_target: "accepted lf vi t \<Longrightarrow> t \<in> set (Rows vi) \<and> ifID t = InterfaceID (Req vi)"
  by (auto simp: accepted_def dest: by_id_Some)

lemma accepted_exclusive:
  assumes "accepted lf vi t" "h \<in> set (Rows vi)" "ifID h \<noteq> InterfaceID (Req vi)" "EvictID (Req vi) \<noteq> Some (ifID h)"
  shows "\<not> (role_is_singleton (rRole (Req vi)) \<and> Role h = rRole (Req vi))"
    and "\<not> (rRole (Req vi) = RoleWAN \<and> Role h = RoleWAN \<and> Slot h = rSlot (Req vi))"
proof -
  have "rule_V8 vi t = None" "rule_V25 vi t = None"
    using assms(1) by (simp_all add: accepted_def early_rules_def Let_def)
  then show "\<not> (role_is_singleton (rRole (Req vi)) \<and> Role h = rRole (Req vi))"
    "\<not> (rRole (Req vi) = RoleWAN \<and> Role h = RoleWAN \<and> Slot h = rSlot (Req vi))"
    using assms(2-4) accepted_target [OF assms(1)]
    by (fastforce simp: rule_V8_def rule_V25_def find_None_iff split: if_splits)+
qed

lemma assign_keeps_rows_ok:
  assumes ok: "rows_ok (Rows vi)" and acc: "accepted lf vi t"
  shows "rows_ok (map (assigned_row (Req vi) w) (Rows vi))"
  unfolding rows_ok_def
proof (intro conjI ballI)
  show "distinct (map ifID (map (assigned_row (Req vi) w) (Rows vi)))"
    using ok by (simp add: rows_ok_def comp_def)
  show "slot_ok (Role a) (Slot a)" if "a \<in> set (map (assigned_row (Req vi) w) (Rows vi))" for a
    using that ok accepted_slot [OF acc] by (auto simp: rows_ok_def)
  show "exclusive a b" if "a \<in> set (map (assigned_row (Req vi) w) (Rows vi))"
    "b \<in> set (map (assigned_row (Req vi) w) (Rows vi))" for a b
  proof -
    from that obtain x y where xy: "x \<in> set (Rows vi)" "y \<in> set (Rows vi)"
      and ab: "a = assigned_row (Req vi) w x" "b = assigned_row (Req vi) w y" by auto
    from ok xy have e: "exclusive x y" by (simp add: rows_ok_def)
    note n = accepted_exclusive [OF acc xy(1)] accepted_exclusive [OF acc xy(2)]
    show ?thesis
      using e n by (auto simp: exclusive_def ab role_is_singleton_def split: if_splits)
  qed
qed

text \<open>
  C3. A change \<open>Apply\<close> lets through is written in full and keeps the interface table well formed:
  unique identifiers, every uplink in a real slot, no two uplinks in one slot, one holder per
  singleton role. The target holds the requested role and slot, the evicted row none, and every
  other row is as it was.
\<close>

theorem apply_keeps_rows_ok:
  assumes "rows_ok (Rows vi)" "Apply_rows low_first vi = Inr res"
  shows "\<exists>rows'. res = Some rows' \<and> rows_ok rows' \<and> map ifID rows' = map ifID (Rows vi)
    \<and> (\<forall>x \<in> set rows'.
         (ifID x = InterfaceID (Req vi) \<longrightarrow> Role x = rRole (Req vi) \<and> Slot x = rSlot (Req vi))
         \<and> (ifID x \<noteq> InterfaceID (Req vi) \<longrightarrow>
              (if EvictID (Req vi) = Some (ifID x) then Role x = RoleUnassigned \<and> Slot x = SlotNone
               else x \<in> set (Rows vi))))"
proof -
  have "\<not> Rejected (Validate low_first vi)"
    using assms(2) by (auto simp: Apply_rows_def apply_blocked_def find_None_iff Rejected_iff split: option.splits)
  then obtain t where acc: "accepted low_first vi t" using Validate_accepted by blast
  then obtain w where w: "assign_role_tx (Req vi) (Rows vi) = Some (map (assigned_row (Req vi) w) (Rows vi))"
    using assign_role_tx_map accepted_target by blast
  with assms(2) have "res = Some (map (assigned_row (Req vi) w) (Rows vi))"
    by (auto simp: Apply_rows_def split: option.splits)
  with assign_keeps_rows_ok [OF assms(1) acc, of w] show ?thesis
    by (auto simp: comp_def assigned_row_other)
qed

section \<open>Safety of an accepted LAN\<close>

lemma unmap4in6_valid: "valid_prefix p \<Longrightarrow> valid_prefix (unmap4in6 p)"
  by (cases "pfx_addr p") (auto simp: unmap4in6_def valid_prefix_def unmap_def is4in6_def zone_def bit_len_def)

lemma overlaps_iff:
  assumes "parse_prefix a = Some p" "parse_prefix b = Some q"
  shows "overlaps a b \<longleftrightarrow> (\<exists>x. prefix_contains (unmap4in6 p) x \<and> prefix_contains (unmap4in6 q) x)"
  using assms overlaps_iff_common_addr [OF unmap4in6_valid unmap4in6_valid] parse_prefix_valid
  by (auto simp: overlaps_def)

lemma dhcp_bounds_None_iff:
  "dhcp_bounds lan p es = None
    \<longleftrightarrow> (\<forall>(l, ad) \<in> set es. ad \<noteq> [] \<longrightarrow> (\<exists>ip. parse_addr ad = Some ip \<and> prefix_contains p ip))"
  by (induction lan p es rule: dhcp_bounds.induct) (auto split: option.splits)

lemma dhcp_bounds_reject: "dhcp_bounds lan p es = Some v \<Longrightarrow> vLevel v = LevelReject"
  by (induction lan p es rule: dhcp_bounds.induct) (auto split: option.splits if_splits)

text \<open>A LAN that keeps clear of every reserved range and hands out addresses of its own.\<close>

definition lan_ok :: "LANConfig \<Rightarrow> NetworkInterface list \<Rightarrow> string \<Rightarrow> bool" where
  "lan_ok lan rows mgmt \<longleftrightarrow> CIDR lan = [] \<or>
     (\<exists>p. parse_prefix (CIDR lan) = Some p
       \<and> (\<forall>f \<in> set (lan_forbidden rows mgmt). \<not> overlaps (CIDR lan) f)
       \<and> (\<forall>ad \<in> {DHCPRangeLow lan, DHCPRangeHigh lan}. ad \<noteq> [] \<longrightarrow>
            (\<exists>ip. parse_addr ad = Some ip \<and> prefix_contains p ip)))"

lemma dhcp_entries_None_iff:
  "dhcp_bounds lan p (dhcp_entries lf lan) = None
    \<longleftrightarrow> (\<forall>ad \<in> {DHCPRangeLow lan, DHCPRangeHigh lan}. ad \<noteq> [] \<longrightarrow>
          (\<exists>ip. parse_addr ad = Some ip \<and> prefix_contains p ip))"
  by (auto simp: dhcp_bounds_None_iff dhcp_entries_def Let_def)

lemma ValidateLAN_iff: "\<not> Rejected (ValidateLANConfig lf lan rows mgmt) \<longleftrightarrow> lan_ok lan rows mgmt"
proof (cases "CIDR lan = [] \<or> parse_prefix (CIDR lan) = None")
  case True
  then show ?thesis by (auto simp: ValidateLANConfig_def lan_ok_def)
next
  case False
  then obtain p where p: "CIDR lan \<noteq> []" "parse_prefix (CIDR lan) = Some p" by auto
  show ?thesis
  proof (cases "find (\<lambda>f. overlaps (CIDR lan) f) (lan_forbidden rows mgmt)")
    case None
    then have "\<forall>f \<in> set (lan_forbidden rows mgmt). \<not> overlaps (CIDR lan) f"
      by (auto simp: find_None_iff)
    moreover have "\<not> Rejected (ValidateLANConfig lf lan rows mgmt)
        \<longleftrightarrow> dhcp_bounds lan p (dhcp_entries lf lan) = None"
      using p None by (auto simp: ValidateLANConfig_def dest: dhcp_bounds_reject split: option.split)
    ultimately show ?thesis
      using p unfolding dhcp_entries_None_iff by (simp add: lan_ok_def)
  next
    case (Some f)
    then have "f \<in> set (lan_forbidden rows mgmt)" "overlaps (CIDR lan) f"
      by (auto simp: find_Some_iff)
    with p Some show ?thesis by (auto simp: ValidateLANConfig_def lan_ok_def)
  qed
qed

text \<open>
  An accepted LAN definition shares no address with a reserved range, with the management
  subnet or with the static subnet of an uplink, and both ends of its DHCP pool lie inside it.
  Mapped IPv4 prefixes are compared as the IPv4 prefixes they stand for.
\<close>

theorem accepted_LAN_is_disjoint:
  assumes "\<not> Rejected (ValidateLANConfig low_first lan rows mgmtCIDR)" "CIDR lan \<noteq> []"
  shows "\<exists>p. parse_prefix (CIDR lan) = Some p
    \<and> (\<forall>f q x. f \<in> set reservedLANOverlaps \<or> f = mgmtCIDR \<and> f \<noteq> []
          \<or> (\<exists>r \<in> set rows. Role r = RoleWAN \<and> f = StaticAddress r \<and> f \<noteq> [])
        \<longrightarrow> parse_prefix f = Some q
        \<longrightarrow> \<not> (prefix_contains (unmap4in6 p) x \<and> prefix_contains (unmap4in6 q) x))
    \<and> (\<forall>ad \<in> {DHCPRangeLow lan, DHCPRangeHigh lan}. ad \<noteq> [] \<longrightarrow>
         (\<exists>ip. parse_addr ad = Some ip \<and> prefix_contains p ip))"
proof -
  from assms obtain p where p: "parse_prefix (CIDR lan) = Some p"
    and f: "\<And>f. f \<in> set (lan_forbidden rows mgmtCIDR) \<Longrightarrow> \<not> overlaps (CIDR lan) f"
    and d: "\<forall>ad \<in> {DHCPRangeLow lan, DHCPRangeHigh lan}. ad \<noteq> [] \<longrightarrow>
         (\<exists>ip. parse_addr ad = Some ip \<and> prefix_contains p ip)"
    unfolding ValidateLAN_iff lan_ok_def by blast
  have m: "f \<in> set (lan_forbidden rows mgmtCIDR)"
    if "f \<in> set reservedLANOverlaps \<or> f = mgmtCIDR \<and> f \<noteq> []
          \<or> (\<exists>r \<in> set rows. Role r = RoleWAN \<and> f = StaticAddress r \<and> f \<noteq> [])" for f
    using that by (auto simp: lan_forbidden_def)
  from p d show ?thesis
    using f m overlaps_iff [OF p] by blast
qed

definition example_lan :: LANConfig where
  "example_lan = \<lparr>lanID = 1, lanNodeID = 1, BridgeName = ''lan0'', CIDR = ''10.77.0.1/24'',
     DHCPRangeLow = ''10.77.0.50'', DHCPRangeHigh = ''10.77.0.200'', LeaseHours = 12,
     lanEnabled = True, InputFirewall = True\<rparr>"

lemma example_lan_accepted: "ValidateLANConfig True example_lan [example_iface] ''192.168.250.1/30'' = []"
  by code_simp

theorem accepted_LAN_is_disjoint_witness:
  "\<not> Rejected (ValidateLANConfig True example_lan [example_iface] ''192.168.250.1/30'') \<and> CIDR example_lan \<noteq> []
   \<and> (\<exists>p. parse_prefix ''10.77.0.1/24'' = Some p)"
proof -
  have a: "\<not> Rejected (ValidateLANConfig True example_lan [example_iface] ''192.168.250.1/30'')"
    by (simp add: example_lan_accepted)
  have c: "CIDR example_lan = ''10.77.0.1/24''" by (simp add: example_lan_def)
  from c have n: "CIDR example_lan \<noteq> []" by simp
  from accepted_LAN_is_disjoint [OF a n] a n show ?thesis unfolding c by blast
qed

section \<open>Acceptance does not depend on the order of a map\<close>

lemma propose_ok:
  assumes "wan_change_ok r t"
  shows "propose r t [] rows = Go [] (map (proposed_row r t) rows)"
proof (induction rows)
  case (Cons row rows)
  show ?case
  proof (cases "WANChange r t")
    case None
    with Cons show ?thesis by (simp add: propose_Cons)
  next
    case (Some cfg)
    with assms have "rRole r = RoleWAN" "ValidateWAN cfg (rSlot r) (source_of t) = []"
      by (auto simp: wan_change_ok_def ValidateWAN_Rejected_iff)
    with Some Cons show ?thesis by (simp add: propose_Cons)
  qed
qed simp

lemma tail_rules_accept:
  assumes "rule_V15 (Req vi) t = None" "rule_V20 (Req vi) t = None" "rule_V25 vi t = None"
    "rule_V16 (Req vi) t (box_shape vi t) = None" "rule_V18 vi t = None" "\<not> Rejected vs"
  shows "\<not> Rejected (tail_rules vi t vs)"
  using assms by (auto simp: tail_rules_def Let_def warn_V16_def confirm_V17_def late_warnings_def)

lemma overlap_step_ok:
  "\<forall>cfg. WANChange (Req vi) t = Some cfg \<and> wcMethod cfg = MethodStatic
     \<longrightarrow> \<not> Rejected (wan_overlap_verdicts vi t cfg ps)
   \<Longrightarrow> \<exists>ws. overlap_step vi t [] ps = Go ws ps \<and> \<not> Rejected ws"
  by (auto simp: overlap_step_def Let_def split: option.split)

lemma Validate_accepted_iff: "\<not> Rejected (Validate lf vi) \<longleftrightarrow> (\<exists>t. accepted lf vi t)"
proof
  assume "\<exists>t. accepted lf vi t"
  then obtain t where t: "accepted lf vi t" ..
  let ?P = "map (proposed_row (Req vi) t) (Rows vi)"
  from t obtain ws where "overlap_step vi t [] ?P = Go ws ?P" and w: "\<not> Rejected ws"
    unfolding accepted_def using overlap_step_ok by blast
  moreover from t have "lan_step lf vi ws ?P = Go ws ?P"
    by (auto simp: lan_step_def accepted_def Let_def split: option.split)
  moreover from t have "propose (Req vi) t [] (Rows vi) = Go [] ?P"
    by (simp add: accepted_def propose_ok)
  ultimately have "proposal_steps lf vi t = Go ws ?P" by (simp add: proposal_steps_def)
  with t w tail_rules_accept [of vi t ws] show "\<not> Rejected (Validate lf vi)"
    by (simp add: accepted_def Validate_def)
qed (rule Validate_accepted)

text \<open>
  Go iterates over the map of DHCP bounds in an unspecified order, which may change the message
  of a rejected LAN. It never changes the outcome: a change is accepted in one order exactly when it
  is accepted in the other.
\<close>

theorem Validate_order_independent:
  "Rejected (Validate low_first vi) \<longleftrightarrow> Rejected (Validate (\<not> low_first) vi)"
proof -
  have "accepted low_first vi t \<longleftrightarrow> accepted (\<not> low_first) vi t" for t
    by (simp add: accepted_def ValidateLAN_iff)
  then show ?thesis using Validate_accepted_iff by blast
qed

section \<open>The last uplink\<close>

definition is_uplink :: "NetworkInterface \<Rightarrow> bool" where
  "is_uplink r \<longleftrightarrow> Role r = RoleWAN \<and> Present r \<and> \<not> unassignable (Source r)"

lemma wans_fold:
  "wans (fold (count_row r t) rows b) = wans b + length (filter (\<lambda>x. \<not> unassignable (Source x) \<and> Present x
     \<and> (if ifID x = ifID t then rRole r else Role x) = RoleWAN) rows)"
  by (induction rows arbitrary: b) (auto simp: count_row_def Let_def)

lemma Present_assigned_row [simp]:
  "Present (assigned_row r w x) = Present x" "Source (assigned_row r w x) = Source x"
  by (simp_all add: assigned_row_def Let_def)

lemma uplink_remains:
  assumes acc: "accepted lf vi t" and u: "u \<in> set (Rows vi)" "is_uplink u" and ev: "EvictID (Req vi) = None"
    and d: "distinct (map ifID (Rows vi))"
  shows "\<exists>x \<in> set (Rows vi). is_uplink (assigned_row (Req vi) w x)"
proof (cases "u = t \<and> rRole (Req vi) = RoleUnassigned")
  case True
  with acc u have "wans (box_shape vi t) \<noteq> 0"
    by (auto simp: accepted_def rule_V16_def is_uplink_def split: if_splits)
  then obtain x where "x \<in> set (Rows vi)" "\<not> unassignable (Source x)" "Present x"
    "(if ifID x = ifID t then rRole (Req vi) else Role x) = RoleWAN"
    by (auto simp: box_shape_def wans_fold filter_empty_conv)
  then show ?thesis using ev accepted_target [OF acc]
    by (intro bexI [of _ x]) (auto simp: is_uplink_def)
next
  case False
  have "rule_V9_role (Req vi) t = None" using acc by (simp add: accepted_def early_rules_def Let_def)
  with False u have r: "u = t \<Longrightarrow> rRole (Req vi) = RoleWAN"
    by (auto simp: rule_V9_role_def is_uplink_def split: if_splits)
  have "u = t" if "ifID u = InterfaceID (Req vi)"
    using that accepted_target [OF acc] u d by (metis distinct_map inj_onD)
  with r u ev show ?thesis by (intro bexI [of _ u]) (auto simp: is_uplink_def)
qed

text \<open>
  A change that evicts nobody never takes the last uplink away: when the box has a present
  uplink before an accepted change, it has one after it.
\<close>

theorem apply_keeps_an_uplink:
  assumes "rows_ok (Rows vi)" "Apply_rows low_first vi = Inr (Some rows')" "EvictID (Req vi) = None"
    "\<exists>u \<in> set (Rows vi). is_uplink u"
  shows "\<exists>u \<in> set rows'. is_uplink u"
proof -
  have "\<not> Rejected (Validate low_first vi)"
    using assms(2) by (auto simp: Apply_rows_def apply_blocked_def find_None_iff Rejected_iff split: option.splits)
  then obtain t where acc: "accepted low_first vi t" using Validate_accepted by blast
  then obtain w where w: "assign_role_tx (Req vi) (Rows vi) = Some (map (assigned_row (Req vi) w) (Rows vi))"
    using assign_role_tx_map accepted_target by blast
  with assms(2) have "rows' = map (assigned_row (Req vi) w) (Rows vi)"
    by (auto simp: Apply_rows_def split: option.splits)
  moreover obtain u where "u \<in> set (Rows vi)" "is_uplink u" using assms(4) by blast
  ultimately show ?thesis
    using uplink_remains [OF acc _ _ assms(3)] assms(1) by (auto simp: rows_ok_def)
qed

definition example_request :: ChangeRequest where
  "example_request = \<lparr>RequestID = ''r1'', WAN = None, InterfaceID = 2, rRole = RoleWAN, rSlot = SlotSecondary,
     EvictID = None, Confirmed = True, rMasterID = None, rMethod = MethodDHCP4, rStaticAddress = [],
     rStaticGateway = [], NewIfName = [], MACPolicy = []\<rparr>"

definition example_input :: "ChangeRequest \<Rightarrow> ValidationInput" where
  "example_input r = \<lparr>LiveAddresses = (\<lambda>_. []),
     Rows = [example_iface, example_iface\<lparr>ifID := 2, ifKey := ''k2'', IfName := ''eth1'', Role := RoleUnassigned,
               Slot := SlotNone\<rparr>],
     Req = r, LAN = Some example_lan, MgmtCIDR = ''192.168.250.1/30'', PeerIfName = [], HostapdInstalled = True,
     IWDInstalled = True, RadioSupportsAP = (\<lambda>_. False), RadioSupportsSTA = (\<lambda>_. False), CountryCode = []\<rparr>"

lemma example_apply:
  "Apply_rows True (example_input example_request)
     = Inr (Some [example_iface, example_iface\<lparr>ifID := 2, ifKey := ''k2'', IfName := ''eth1'',
                  Role := RoleWAN, Slot := SlotSecondary, LearnedGateway := []\<rparr>])"
  by code_simp

lemma example_rows_ok: "rows_ok (Rows (example_input r))"
  by (simp add: example_input_def) code_simp

theorem apply_keeps_rows_ok_witness:
  "\<exists>rows'. Apply_rows True (example_input example_request) = Inr (Some rows') \<and> rows_ok rows'"
  using apply_keeps_rows_ok [OF example_rows_ok example_apply] example_apply by blast

lemma example_has_uplink: "\<exists>u \<in> set (Rows (example_input r)). is_uplink u"
  by (simp add: example_input_def example_iface_def is_uplink_def unassignable_def)

theorem apply_keeps_an_uplink_witness:
  "\<exists>rows'. Apply_rows True (example_input example_request) = Inr (Some rows') \<and> (\<exists>u \<in> set rows'. is_uplink u)"
proof -
  have "EvictID (Req (example_input example_request)) = None"
    by (simp add: example_input_def example_request_def)
  from apply_keeps_an_uplink [OF example_rows_ok example_apply this example_has_uplink] example_apply
  show ?thesis by blast
qed


section \<open>A rule that never fires\<close>

abbreviation not_V15 :: "Verdict option \<Rightarrow> bool" where
  "not_V15 \<equiv> pred_option (\<lambda>v. Rule v \<noteq> ''V15'')"

lemma rule_names:
  "not_V15 (rule_V1 t)" "not_V15 (rule_V2 r)" "not_V15 (rule_V21 r t)" "not_V15 (rule_V3 t)"
  "not_V15 (rule_V3_bridge r t)" "not_V15 (rule_V6 r t)" "not_V15 (rule_V5 r t)" "not_V15 (rule_V4 r t)"
  "not_V15 (rule_V7 vi t)" "not_V15 (rule_V8 vi t)" "not_V15 (rule_V9_role r t)" "not_V15 (rule_V9_members vi t)"
  "not_V15 (rule_V10 vi t)" "not_V15 (rule_V11 vi t)" "not_V15 (rule_V12 vi t)" "not_V15 (rule_V24 r)"
  "not_V15 (rule_V13 vi t)" "not_V15 (rule_V20 r t)" "not_V15 (rule_V25 vi t)"
  by (simp_all add: rule_defs rule_V20_def rule_V25_def option.pred_map comp_def option.pred_True
      split: option.split)

lemma wan_dns_loop_rule: "v \<in> set (wan_dns_loop i seen ips) \<Longrightarrow> Rule v = ''WAN_dns''"
  by (induction ips arbitrary: i seen) (auto split: if_splits)

abbreviation no_V15 :: "Verdict list \<Rightarrow> bool" where
  "no_V15 \<equiv> list_all (\<lambda>v. Rule v \<noteq> ''V15'')"

lemma ValidateWAN_rule: "no_V15 (ValidateWAN c slot src)"
  by (auto simp: list_all_iff ValidateWAN_def wan_address_verdicts_def wan_gateway_verdicts_def
      wan_dns_verdicts_def Let_def split: if_splits option.splits addr.splits prod.splits dest: wan_dns_loop_rule)

lemma propose_rule: "propose r t vs rows = Return ws \<Longrightarrow> no_V15 vs \<Longrightarrow> no_V15 ws"
  by (induction rows arbitrary: vs)
     (auto simp: propose_Cons go_cons_simps ValidateWAN_rule split: if_splits option.splits)

lemma wan_overlap_rule: "no_V15 (wan_overlap_verdicts vi t cfg ps)"
  by (auto simp: list_all_iff wan_overlap_verdicts_def wan_overlap_one_def Let_def split: if_splits option.splits)

lemma dhcp_bounds_rule: "dhcp_bounds lan p es = Some w \<Longrightarrow> Rule w = ''V14''"
  by (induction lan p es rule: dhcp_bounds.induct) (auto split: option.splits if_splits)

lemma ValidateLAN_rule: "no_V15 (ValidateLANConfig lf lan rows mgmt)"
  by (auto simp: ValidateLANConfig_def dest: dhcp_bounds_rule split: option.split)

lemma overlap_step_rule:
  "overlap_step vi t vs ps = Return ws \<Longrightarrow> no_V15 vs \<Longrightarrow> no_V15 ws"
  "overlap_step vi t vs ps = Go ws qs \<Longrightarrow> no_V15 vs \<Longrightarrow> no_V15 ws"
  by (auto simp: overlap_step_def Let_def wan_overlap_rule split: option.splits if_splits)

lemma lan_step_rule:
  "lan_step lf vi vs ps = Return ws \<Longrightarrow> no_V15 vs \<Longrightarrow> no_V15 ws"
  "lan_step lf vi vs ps = Go ws qs \<Longrightarrow> no_V15 vs \<Longrightarrow> no_V15 ws"
  by (auto simp: lan_step_def Let_def ValidateLAN_rule split: option.splits if_splits)

lemma propose_Go_nil: "propose r t [] rows = Go ws out \<Longrightarrow> ws = []"
  by (drule propose_Go) simp_all

lemma proposal_rule:
  "proposal_steps lf vi t = Return ws \<Longrightarrow> no_V15 ws"
  "proposal_steps lf vi t = Go ws qs \<Longrightarrow> no_V15 ws"
  by (auto simp: proposal_steps_def flow_bind_simps
      dest!: propose_Go_nil dest: propose_rule overlap_step_rule lan_step_rule)

lemma tail_rule:
  assumes "rule_V15 (Req vi) t = None" "no_V15 ws"
  shows "no_V15 (tail_rules vi t ws)"
proof (cases "first_some [rule_V15 (Req vi) t, rule_V20 (Req vi) t, rule_V25 vi t]")
  case (Some v)
  then have "Rule v \<noteq> ''V15''" using assms(1) first_some_pred [OF _ Some, of "\<lambda>v. Rule v \<noteq> ''V15''"]
    by (simp add: rule_names)
  with Some assms(2) show ?thesis by (simp add: tail_rules_def del: first_some.simps)
next
  case None
  with assms(2) show ?thesis
    by (simp add: tail_rules_def Let_def rule_V16_def rule_V18_def warn_V16_def confirm_V17_def late_warnings_def
        del: first_some_None_iff)
qed

text \<open>
  Rule V15, which is to explain that a cellular link cannot use DHCP, is dead code: the WAN
  editor's own check refuses every cellular source first, so no validation ever reports V15.
\<close>

theorem V15_is_never_reported:
  "\<not> (\<exists>v \<in> set (Validate low_first vi). Rule v = ''V15'')"
proof -
  have "no_V15 (Validate low_first vi)"
  proof (cases "rule_request (Req vi) = None \<and> (\<exists>t. by_id (Rows vi) (InterfaceID (Req vi)) = Some t \<and> early_rules vi t = None)")
    case False
    moreover have "early_rules vi t = Some v \<Longrightarrow> Rule v \<noteq> ''V15''" for t v
      unfolding early_rules_def Let_def by (erule first_some_pred [rotated]) (simp add: rule_names)
    ultimately show ?thesis
      by (auto simp: Validate_def rule_request_def split: option.split)
  next
    case True
    then obtain t where t: "by_id (Rows vi) (InterfaceID (Req vi)) = Some t" "early_rules vi t = None" by blast
    show ?thesis
    proof (cases "proposal_steps low_first vi t")
      case (Return ws)
      with t True show ?thesis using proposal_rule(1) [OF Return] by (simp add: Validate_def)
    next
      case (Go ws qs)
      have "ifID t \<in> ifID ` set (Rows vi)" using by_id_Some [OF t(1)] by blast
      with proposal_Go [OF Go] have "wan_change_ok (Req vi) t" by blast
      then have "rule_V15 (Req vi) t = None"
        by (auto simp: rule_V15_def wan_change_ok_def WANChange_def Let_def ValidateWAN_Rejected_iff
            ValidateWAN_Nil_iff split: option.splits if_splits)
      with tail_rule proposal_rule(2) [OF Go] t True Go show ?thesis by (simp add: Validate_def)
    qed
  qed
  then show ?thesis by (auto simp: list_all_iff)
qed

section \<open>Wi-Fi\<close>

text \<open>
  The Wi-Fi form accepts exactly a name of 1 to 32 bytes, a known band and mode, and a
  passphrase that is 8 to 63 printable ASCII characters or 64 hex digits; a station may leave it
  empty, an access point may not and needs a country code.
\<close>

theorem ValidateWifiConfig_accepts_iff:
  "\<not> Rejected (ValidateWifiConfig cfg)
    \<longleftrightarrow> 1 \<le> length (SSID cfg) \<and> length (SSID cfg) \<le> 32
      \<and> Band cfg \<in> {''2g'', ''5g'', ''6g''}
      \<and> (Mode cfg = ''ap'' \<and> validWPAPassphrase (PSK cfg) \<and> \<not> RegDomainUnset (wifiCountryCode cfg)
         \<or> Mode cfg = ''station'' \<and> (PSK cfg = [] \<or> validWPAPassphrase (PSK cfg)))"
  by (auto simp: ValidateWifiConfig_def Let_def Suc_le_eq)

end
