(* ===== verification/Netmark.thy ===== *)
theory Netmark
  imports Prelude
begin

text \<open>
  \<open>pkg/netmark/marks.go\<close>, the layout of the 32-bit firewall mark, and \<open>pkg/bandwidth/tiers.go\<close>,
  the bandwidth tiers that use its reserved nibble. The locale \<open>mark_field\<close> states what a field of
  the mark promises its users (reading back what was written, leaving the other bits alone); the
  group field and the ingress-pin field are its two interpretations.
\<close>

unbundle bit_operations_syntax

section \<open>Masks and fields\<close>

definition MaskTier :: u32 where "MaskTier = 0x0000FFFF"
definition MaskGroup :: u32 where "MaskGroup = 0x00FF0000"
definition MaskPin :: u32 where "MaskPin = 0x0F000000"
definition MaskReserved :: u32 where "MaskReserved = 0xF0000000"

definition MaskAll :: u32 where "MaskAll = MaskTier OR MaskGroup OR MaskPin"

definition shiftGroup :: nat where "shiftGroup = 16"
definition shiftPin :: nat where "shiftPin = 24"

definition GroupDomestic :: u32 where "GroupDomestic = 1"
definition GroupForeign :: u32 where "GroupForeign = 2"
definition PinProbe :: u32 where "PinProbe = 15"
definition PinPortmap :: u32 where "PinPortmap = 14"
definition groupForeignViaBase :: u32 where "groupForeignViaBase = 0x10"

definition GroupForeignVia :: "u32 \<Rightarrow> u32" where
  "GroupForeignVia i = groupForeignViaBase OR (i AND 0x0F)"

definition IsGroupForeignVia :: "u32 \<Rightarrow> bool" where
  "IsGroupForeignVia g \<longleftrightarrow> g AND NOT 0x0F = groupForeignViaBase \<and> g AND 0x0F \<noteq> 0"

definition GroupViaUplink :: "u32 \<Rightarrow> u32" where
  "GroupViaUplink g = (if \<not> IsGroupForeignVia g then 0 else g AND 0x0F)"

definition GroupMark :: "u32 \<Rightarrow> u32" where
  "GroupMark g = push_bit shiftGroup g AND MaskGroup"

definition PinMark :: "u32 \<Rightarrow> u32" where
  "PinMark i = push_bit shiftPin i AND MaskPin"

definition WithGroup :: "u32 \<Rightarrow> u32 \<Rightarrow> u32" where
  "WithGroup mark g = (mark AND NOT MaskGroup) OR GroupMark g"

definition WithPin :: "u32 \<Rightarrow> u32 \<Rightarrow> u32" where
  "WithPin mark i = (mark AND NOT MaskPin) OR PinMark i"

definition Group :: "u32 \<Rightarrow> u32" where
  "Group mark = drop_bit shiftGroup (mark AND MaskGroup)"

definition Pin :: "u32 \<Rightarrow> u32" where
  "Pin mark = drop_bit shiftPin (mark AND MaskPin)"

definition Tier :: "u32 \<Rightarrow> u32" where
  "Tier mark = mark AND MaskTier"

text \<open>\<open>fmt.Sprintf("0x%x", v)\<close>: lower-case hexadecimal digits, no leading zero.\<close>

definition hex_digit :: "nat \<Rightarrow> char" where
  "hex_digit d = (if d < 10 then char_of (48 + d) else char_of (87 + d))"

fun hex :: "nat \<Rightarrow> string" where
  "hex n = (if n < 16 then [] else hex (n div 16)) @ [hex_digit (n mod 16)]"

declare hex.simps [simp del]

definition Hex :: "u32 \<Rightarrow> string" where
  "Hex v = ''0x'' @ hex (unat v)"

section \<open>What a field promises\<close>

locale mark_field =
  fixes get :: "u32 \<Rightarrow> u32" and put :: "u32 \<Rightarrow> u32 \<Rightarrow> u32" and fmask :: u32
    and sh :: nat and w :: nat
  assumes get_eq: "get m = drop_bit sh (m AND fmask)"
    and put_eq: "put m v = (m AND NOT fmask) OR (push_bit sh v AND fmask)"
    and fmask_eq: "fmask = push_bit sh (mask w)"
    and fits: "sh + w \<le> 32"
begin

lemma bit_fmask: "bit fmask n \<longleftrightarrow> sh \<le> n \<and> n < sh + w"
  using fits by (auto simp: fmask_eq bit_simps)

lemma bit_get: "bit (get m) n \<longleftrightarrow> n < w \<and> bit m (sh + n)"
  by (auto simp: get_eq bit_simps bit_fmask dest: bit_imp_le_length)

lemma bit_put:
  "bit (put m v) n \<longleftrightarrow> (if sh \<le> n \<and> n < sh + w then bit v (n - sh) else bit m n)"
  using fits by (auto simp: put_eq bit_simps bit_fmask dest: bit_imp_le_length)

lemma get_put: "get (put m v) = take_bit w v"
  by (rule bit_eqI) (auto simp: bit_get bit_put bit_simps)

lemma get_put_small: "take_bit w v = v \<Longrightarrow> get (put m v) = v"
  by (simp add: get_put)

lemma put_put: "put (put m v) v' = put m v'"
  by (rule bit_eqI) (auto simp: bit_put)

lemma put_get: "put m (get m) = m"
  by (rule bit_eqI) (auto simp: bit_put bit_get)

lemma put_other_bits: "put m v AND NOT fmask = m AND NOT fmask"
  by (rule bit_eqI) (auto simp: bit_put bit_simps bit_fmask)

text \<open>A mask that shares no bit with the field reads the same before and after.\<close>

lemma put_disjoint: "msk AND fmask = 0 \<Longrightarrow> put m v AND msk = m AND msk"
proof (rule bit_eqI)
  fix n
  assume d: "msk AND fmask = 0"
  have "\<not> (bit msk n \<and> bit fmask n)"
    using arg_cong [OF d, of "\<lambda>x. bit x n"] by (simp add: bit_simps)
  then show "bit (put m v AND msk) n = bit (m AND msk) n"
    by (auto simp: bit_put bit_simps bit_fmask)
qed

text \<open>A rule that matches the mark of \<open>v\<close> under the field's mask selects the words whose field is \<open>v\<close>.\<close>

lemma match_get: "(m XOR put 0 v) AND fmask = 0 \<longleftrightarrow> get m = take_bit w v"
proof
  assume d: "(m XOR put 0 v) AND fmask = 0"
  have b: "bit m n \<longleftrightarrow> bit v (n - sh)" if "sh \<le> n" "n < sh + w" for n
    using arg_cong [OF d, of "\<lambda>x. bit x n"] that by (auto simp: bit_simps bit_put bit_fmask)
  show "get m = take_bit w v"
    by (rule bit_eqI) (auto simp: bit_get bit_simps b)
next
  assume g: "get m = take_bit w v"
  have b: "bit m n \<longleftrightarrow> bit v (n - sh)" if "sh \<le> n" "n < sh + w" for n
    using arg_cong [OF g, of "\<lambda>x. bit x (n - sh)"] that by (auto simp: bit_get bit_simps)
  show "(m XOR put 0 v) AND fmask = 0"
    by (rule bit_eqI) (auto simp: bit_simps bit_put bit_fmask b)
qed

end

lemma mask_as_shift:
  "MaskGroup = push_bit shiftGroup (mask 8)" "MaskPin = push_bit shiftPin (mask 4)"
  by (simp_all add: MaskGroup_def MaskPin_def shiftGroup_def shiftPin_def mask_numeral)

interpretation group_field: mark_field Group WithGroup MaskGroup shiftGroup 8
  by unfold_locales
     (simp_all add: Group_def WithGroup_def GroupMark_def mask_as_shift shiftGroup_def)

interpretation pin_field: mark_field Pin WithPin MaskPin shiftPin 4
  by unfold_locales
     (simp_all add: Pin_def WithPin_def PinMark_def mask_as_shift shiftPin_def)

lemma mark_matches:
  "(m XOR GroupMark g) AND MaskGroup = 0 \<longleftrightarrow> Group m = take_bit 8 g"
  "(m XOR PinMark i) AND MaskPin = 0 \<longleftrightarrow> Pin m = take_bit 4 i"
  using group_field.match_get [of m g] pin_field.match_get [of m i]
  by (simp_all add: WithGroup_def WithPin_def)

lemma masks_disjoint:
  "MaskTier AND MaskGroup = 0" "MaskTier AND MaskPin = 0" "MaskTier AND MaskReserved = 0"
  "MaskGroup AND MaskPin = 0" "MaskPin AND MaskGroup = 0"
  "MaskReserved AND MaskGroup = 0" "MaskReserved AND MaskPin = 0"
  by (simp_all add: MaskTier_def MaskGroup_def MaskPin_def MaskReserved_def)

lemma masks_tile: "MaskTier OR MaskGroup OR MaskPin OR MaskReserved = - 1"
  by (simp add: MaskTier_def MaskGroup_def MaskPin_def MaskReserved_def)


lemma and_eq_self_bits: "(\<And>n. bit x n \<Longrightarrow> bit y n) \<Longrightarrow> x AND y = (x :: u32)"
  by (rule bit_eqI) (auto simp: bit_simps)

text \<open>
  Writing the group field of a mark stores the low eight bits of the group and nothing else:
  the bandwidth tier, the ingress pin and the reserved nibble (where the agent keeps the tier of a
  connection) read as before, and writing the pin is in the same way invisible to the group.
\<close>

theorem mark_fields_independent:
  "Group (WithGroup m g) = take_bit 8 g
   \<and> Pin (WithGroup m g) = Pin m \<and> Tier (WithGroup m g) = Tier m
   \<and> WithGroup m g AND MaskReserved = m AND MaskReserved
   \<and> Pin (WithPin m i) = take_bit 4 i
   \<and> Group (WithPin m i) = Group m \<and> Tier (WithPin m i) = Tier m
   \<and> WithPin m i AND MaskReserved = m AND MaskReserved"
  by (simp add: group_field.get_put pin_field.get_put Pin_def [of "WithGroup m g"] Pin_def [of m]
      Group_def [of "WithPin m i"] Group_def [of m] Tier_def
      group_field.put_disjoint pin_field.put_disjoint masks_disjoint)


lemma via_bits:
  "(0x10 OR (i AND 0x0F)) AND - 16 = (0x10 :: u32)"
  "(0x10 OR (i AND 0x0F)) AND 0x0F = (i AND 0x0F :: u32)"
  by (simp_all add: bit.conj_disj_distrib2 and.assoc)

text \<open>
  The foreign-via groups are told apart from the plain groups and give the uplink back: for
  every uplink index with a non-zero low nibble, the via group of it is recognised as one, names
  that uplink, and survives being stored in a mark; the domestic and foreign groups are not via
  groups, whatever mark carries them.
\<close>

theorem via_group_roundtrip:
  assumes "i AND 0x0F \<noteq> 0"
  shows "IsGroupForeignVia (GroupForeignVia i)
    \<and> GroupViaUplink (Group (WithGroup m (GroupForeignVia i))) = i AND 0x0F
    \<and> GroupViaUplink GroupDomestic = 0 \<and> GroupViaUplink GroupForeign = 0"
proof -
  let ?g = "GroupForeignVia i"
  have via: "IsGroupForeignVia ?g"
    using assms by (simp add: IsGroupForeignVia_def GroupForeignVia_def groupForeignViaBase_def via_bits)
  have "take_bit 8 (i AND 0x0F) = i AND 0x0F"
    by (simp add: take_bit_eq_mask mask_numeral and.assoc)
  then have "take_bit 8 ?g = ?g"
    by (simp add: GroupForeignVia_def groupForeignViaBase_def)
  then have "Group (WithGroup m ?g) = ?g" by (simp add: group_field.get_put)
  with via show ?thesis
    by (simp add: GroupViaUplink_def GroupDomestic_def GroupForeign_def IsGroupForeignVia_def
        GroupForeignVia_def groupForeignViaBase_def via_bits)
qed

theorem via_group_roundtrip_witness:
  "(3 :: u32) AND 0x0F \<noteq> 0 \<and> GroupViaUplink (Group (WithGroup 0xA5000042 (GroupForeignVia 3))) = 3 AND 0x0F"
  using via_group_roundtrip [of 3 "0xA5000042"] by simp

end
