(* ===== verification/Routing_Rules.thy ===== *)
theory Routing_Rules
  imports Net_Validate Netmark "HOL-Library.Char_ord" "HOL-Library.List_Lexorder" "HOL-Library.Product_Lexorder"
begin

text \<open>
  \<open>internal/network/usecase/rules.go\<close>: the routing policy rules the reconciler installs, built from
  the uplinks, the groups of \<open>repository/group_repository.go\<close> and the tunnel pool, and
  \<open>ReconcileRules\<close>, which makes the kernel's list match. The backend it talks to is an interface
  (\<open>system.Backend\<close>), stated as a locale and interpreted on the in-memory \<open>FakeBackend\<close>.

  What the kernel does with the list is the specification: \<open>walk\<close> goes through the rules by
  preference the way \<open>ip rule\<close> documents it, and the theorems say where a packet with a given mark
  can end up whatever the routing tables hold.
\<close>

unbundle bit_operations_syntax

section \<open>Rules, groups and uplinks\<close>

record PolicyRule =
  Pref :: int
  FwMark :: u32
  FwMask :: u32
  OifName :: string
  rTable :: int
  Blackhole :: bool
  SuppressPrefixLen :: int
  SuppressSet :: bool

definition zero_rule :: PolicyRule where
  "zero_rule = \<lparr>Pref = 0, FwMark = 0, FwMask = 0, OifName = [], rTable = 0, Blackhole = False,
     SuppressPrefixLen = 0, SuppressSet = False\<rparr>"

definition rule_Equal :: "PolicyRule \<Rightarrow> PolicyRule \<Rightarrow> bool" where
  "rule_Equal r o' \<longleftrightarrow> Pref r = Pref o' \<and> FwMark r = FwMark o' \<and> FwMask r = FwMask o'
     \<and> OifName r = OifName o' \<and> rTable r = rTable o' \<and> Blackhole r = Blackhole o'
     \<and> SuppressPrefixLen r = SuppressPrefixLen o' \<and> SuppressSet r = SuppressSet o'"

record WANGroup =
  gNodeID :: nat
  gName :: string
  gGroupIndex :: u32
  RuleBase :: int
  RuleBlackhole :: int
  Policy :: string

definition domestic_group :: WANGroup where
  "domestic_group = \<lparr>gNodeID = 1, gName = ''domestic'', gGroupIndex = GroupDomestic,
     RuleBase = 110, RuleBlackhole = 149, Policy = ''failover''\<rparr>"

definition foreign_group :: WANGroup where
  "foreign_group = \<lparr>gNodeID = 1, gName = ''foreign'', gGroupIndex = GroupForeign,
     RuleBase = 150, RuleBlackhole = 199, Policy = ''failover''\<rparr>"

definition default_groups :: "WANGroup list" where
  "default_groups = [domestic_group, foreign_group]"

definition ensure_group :: "WANGroup \<Rightarrow> WANGroup list \<Rightarrow> WANGroup list" where
  "ensure_group g gs = (if \<exists>x \<in> set gs. gNodeID x = gNodeID g \<and> gName x = gName g then gs else gs @ [g])"

definition EnsureDefaults :: "WANGroup list \<Rightarrow> WANGroup list" where
  "EnsureDefaults gs = fold ensure_group default_groups gs"

text \<open>\<open>groupRepository.List\<close>: ordered by the group index.\<close>

definition list_groups :: "WANGroup list \<Rightarrow> WANGroup list" where
  "list_groups gs = sort_key gGroupIndex gs"

record Uplink =
  upIfName :: string
  upKey :: string
  upTable :: int
  UplinkIndex :: u32
  upSlot :: UplinkSlot
  GroupIndex :: u32
  upDNSServer2 :: string
  upGatewayOnLink :: bool
  upDNSServer :: string

fun tableFor :: "UplinkSlot \<Rightarrow> int" where
  "tableFor SlotDomestic = 201"
| "tableFor SlotDomestic2 = 211"
| "tableFor SlotDomestic3 = 212"
| "tableFor SlotDomestic4 = 213"
| "tableFor SlotSecondary = 202"
| "tableFor SlotSecondary2 = 204"
| "tableFor SlotSecondary3 = 205"
| "tableFor SlotSecondary4 = 206"
| "tableFor _ = 0"

fun uplinkIndexFor :: "UplinkSlot \<Rightarrow> u32" where
  "uplinkIndexFor SlotDomestic = 1"
| "uplinkIndexFor SlotDomestic2 = 6"
| "uplinkIndexFor SlotDomestic3 = 7"
| "uplinkIndexFor SlotDomestic4 = 8"
| "uplinkIndexFor SlotSecondary = 2"
| "uplinkIndexFor SlotSecondary2 = 3"
| "uplinkIndexFor SlotSecondary3 = 4"
| "uplinkIndexFor SlotSecondary4 = 5"
| "uplinkIndexFor _ = 0"

definition groupIndexFor :: "UplinkSlot \<Rightarrow> u32" where
  "groupIndexFor slot = (if slot_is_domestic slot then GroupDomestic
     else if slot_is_secondary slot then GroupForeign else 0)"

text \<open>\<open>GetByRole\<close> orders by interface name; \<open>uplinks\<close> builds the routing identities.\<close>

definition GetByRole :: "InterfaceRole \<Rightarrow> NetworkInterface list \<Rightarrow> NetworkInterface list" where
  "GetByRole role rows = sort_key IfName (filter (\<lambda>r. Role r = role) rows)"

definition uplink_of :: "NetworkInterface \<Rightarrow> Uplink" where
  "uplink_of r = \<lparr>upIfName = IfName r, upKey = ifKey r, upTable = tableFor (Slot r),
     UplinkIndex = uplinkIndexFor (Slot r), upSlot = Slot r, GroupIndex = groupIndexFor (Slot r),
     upDNSServer2 = DNSServer2 r, upGatewayOnLink = (Method r = MethodStatic \<and> GatewayOnLink r),
     upDNSServer = DNSServer r\<rparr>"

definition uplinks :: "NetworkInterface list \<Rightarrow> Uplink list" where
  "uplinks rows = map uplink_of (filter (\<lambda>r. \<not> (\<not> Present r \<or> Slot r = SlotNone)) (GetByRole RoleWAN rows))"

section \<open>Building the rules\<close>

definition RulePrefOifBase :: int where "RulePrefOifBase = 20"
definition RulePrefMainSuppress :: int where "RulePrefMainSuppress = 45"
definition RulePrefFallbackBase :: int where "RulePrefFallbackBase = 32000"
definition RulePrefFallbackBlackhole :: int where "RulePrefFallbackBlackhole = 32009"
definition tableMain :: int where "tableMain = 254"
definition WGTable :: int where "WGTable = 203"
definition RulePrefPinBase :: int where "RulePrefPinBase = 50"
definition RulePrefViaBase :: int where "RulePrefViaBase = 200"
definition rulePrefViaStride :: int where "rulePrefViaStride = 10"

text \<open>\<open>VPNRouteState\<close> is the list of tunnel names; it is active when there is one.\<close>

definition vpn_Active :: "string list \<Rightarrow> bool" where
  "vpn_Active names \<longleftrightarrow> names \<noteq> []"

definition by_index :: "Uplink list \<Rightarrow> Uplink list" where
  "by_index us = sort_key UplinkIndex us"

definition oif_entries :: "Uplink list \<Rightarrow> string list \<Rightarrow> (string \<times> int) list" where
  "oif_entries ordered names =
     take (nat (RulePrefMainSuppress - RulePrefOifBase))
       (map (\<lambda>u. (upIfName u, upTable u)) ordered @ map (\<lambda>n. (n, WGTable)) names)"

definition fallback_rank :: "Uplink \<Rightarrow> int" where
  "fallback_rank u = (if slot_is_domestic (upSlot u) then 0 else 1)"

definition fallbackTables :: "Uplink list \<Rightarrow> string list \<Rightarrow> int list" where
  "fallbackTables us names =
     take (nat (RulePrefFallbackBlackhole - RulePrefFallbackBase))
       ((if vpn_Active names then [WGTable] else [])
        @ map upTable (sort_key (\<lambda>u. (fallback_rank u, UplinkIndex u))
            (filter (\<lambda>u. \<not> slot_is_secondary (upSlot u)) us)))"

definition numbered :: "int \<Rightarrow> 'a list \<Rightarrow> (int \<times> 'a) list" where
  "numbered base xs = zip (map (\<lambda>i. base + int i) [0..<length xs]) xs"

definition BaseRules :: "Uplink list \<Rightarrow> string list \<Rightarrow> PolicyRule list" where
  "BaseRules us names =
     (let ordered = by_index us in
      map (\<lambda>(p, n, t). zero_rule\<lparr>Pref := p, OifName := n, rTable := t\<rparr>)
        (numbered RulePrefOifBase (oif_entries ordered names))
      @ [zero_rule\<lparr>Pref := RulePrefMainSuppress, rTable := tableMain, SuppressSet := True, SuppressPrefixLen := 0\<rparr>]
      @ map (\<lambda>(p, t). zero_rule\<lparr>Pref := p, rTable := t\<rparr>)
          (numbered RulePrefFallbackBase (fallbackTables ordered names))
      @ [zero_rule\<lparr>Pref := RulePrefFallbackBlackhole, Blackhole := True\<rparr>])"

fun pin_rules_from :: "int \<Rightarrow> Uplink list \<Rightarrow> PolicyRule list" where
  "pin_rules_from base [] = []"
| "pin_rules_from base (u # us) =
     zero_rule\<lparr>Pref := base, FwMark := PinMark (UplinkIndex u), FwMask := MaskPin, rTable := upTable u\<rparr>
     # zero_rule\<lparr>Pref := base + 1, FwMark := PinMark (UplinkIndex u), FwMask := MaskPin, Blackhole := True\<rparr>
     # pin_rules_from (base + 2) us"

definition PinRules :: "Uplink list \<Rightarrow> PolicyRule list" where
  "PinRules us = pin_rules_from RulePrefPinBase (by_index us)"

definition member_rules :: "WANGroup \<Rightarrow> Uplink list \<Rightarrow> PolicyRule list" where
  "member_rules g members =
     map (\<lambda>(p, m). zero_rule\<lparr>Pref := p, FwMark := GroupMark (gGroupIndex g), FwMask := MaskGroup, rTable := upTable m\<rparr>)
       (takeWhile (\<lambda>(p, m). p < RuleBlackhole g) (numbered (RuleBase g) members))"

definition group_rules :: "Uplink list \<Rightarrow> string list \<Rightarrow> WANGroup \<Rightarrow> PolicyRule list" where
  "group_rules us names g =
     (if gGroupIndex g = GroupForeign then
        (if vpn_Active names
         then [zero_rule\<lparr>Pref := RuleBase g, FwMark := GroupMark (gGroupIndex g), FwMask := MaskGroup, rTable := WGTable\<rparr>]
         else [])
      else member_rules g (by_index (filter (\<lambda>u. GroupIndex u = gGroupIndex g) us)))
     @ [zero_rule\<lparr>Pref := RuleBlackhole g, FwMark := GroupMark (gGroupIndex g), FwMask := MaskGroup, Blackhole := True\<rparr>]"

definition GroupRules :: "WANGroup list \<Rightarrow> Uplink list \<Rightarrow> string list \<Rightarrow> PolicyRule list" where
  "GroupRules groups us names = concat (map (group_rules us names) (sort_key RuleBase groups))"

definition vpnViaTableFor :: "u32 \<Rightarrow> int" where
  "vpnViaTableFor i = 205 + uint i"

definition via_rules :: "Uplink list \<Rightarrow> string list \<Rightarrow> UplinkSlot \<Rightarrow> PolicyRule list" where
  "via_rules us names slot =
     (let idx = uplinkIndexFor slot;
          mark = GroupMark (GroupForeignVia idx);
          base = RulePrefViaBase + rulePrefViaStride * uint (idx - 2);
          assigned = (\<exists>u \<in> set us. slot_is_secondary (upSlot u) \<and> UplinkIndex u = idx)
      in (if vpn_Active names \<and> assigned
          then [zero_rule\<lparr>Pref := base, FwMark := mark, FwMask := MaskGroup, rTable := vpnViaTableFor idx\<rparr>]
          else [])
         @ [zero_rule\<lparr>Pref := base + rulePrefViaStride - 1, FwMark := mark, FwMask := MaskGroup, Blackhole := True\<rparr>])"

definition ViaRules :: "Uplink list \<Rightarrow> string list \<Rightarrow> PolicyRule list" where
  "ViaRules us names = concat (map (via_rules us names) SecondarySlots)"

definition AllRules :: "WANGroup list \<Rightarrow> Uplink list \<Rightarrow> string list \<Rightarrow> PolicyRule list" where
  "AllRules groups us names =
     (let base = BaseRules us names in
      filter (\<lambda>r. \<not> Pref r \<ge> RulePrefFallbackBase) base
      @ PinRules us @ GroupRules groups us names @ ViaRules us names
      @ filter (\<lambda>r. Pref r \<ge> RulePrefFallbackBase) base)"

section \<open>Reconciling the kernel's list\<close>

definition isStockRule :: "int \<Rightarrow> bool" where
  "isStockRule pref \<longleftrightarrow> pref = 0 \<or> pref \<ge> 32766"

text \<open>
  \<open>ReconcileRules\<close> over a backend state: add what is wanted, read the list, delete what is neither
  stock nor wanted; the first error stops it. An operation returns the new state and whether it
  succeeded.
\<close>

datatype reconcile_error = AddFailed int | ListFailed | DelFailed int

fun reconcile_add ::
  "('s \<Rightarrow> PolicyRule \<Rightarrow> 's \<times> bool) \<Rightarrow> PolicyRule list \<Rightarrow> 's \<Rightarrow> 's \<times> reconcile_error option" where
  "reconcile_add add [] s = (s, None)"
| "reconcile_add add (r # rs) s =
     (let (s', ok) = add s r in if ok then reconcile_add add rs s' else (s', Some (AddFailed (Pref r))))"

fun reconcile_del ::
  "('s \<Rightarrow> PolicyRule \<Rightarrow> 's \<times> bool) \<Rightarrow> PolicyRule list \<Rightarrow> PolicyRule list \<Rightarrow> 's \<Rightarrow> 's \<times> reconcile_error option" where
  "reconcile_del del want [] s = (s, None)"
| "reconcile_del del want (r # rs) s =
     (if isStockRule (Pref r) then reconcile_del del want rs s
      else if list_ex (\<lambda>w. rule_Equal w r) want then reconcile_del del want rs s
      else let (s', ok) = del s r in
        if ok then reconcile_del del want rs s' else (s', Some (DelFailed (Pref r))))"

definition ReconcileRules ::
  "('s \<Rightarrow> PolicyRule \<Rightarrow> 's \<times> bool) \<Rightarrow> ('s \<Rightarrow> PolicyRule list option) \<Rightarrow> ('s \<Rightarrow> PolicyRule \<Rightarrow> 's \<times> bool)
     \<Rightarrow> PolicyRule list \<Rightarrow> 's \<Rightarrow> 's \<times> reconcile_error option" where
  "ReconcileRules add list del want s =
     (case reconcile_add add want s of
        (s', Some e) \<Rightarrow> (s', Some e)
      | (s', None) \<Rightarrow>
          (case list s' of
             None \<Rightarrow> (s', Some ListFailed)
           | Some have_rules \<Rightarrow> reconcile_del del want have_rules s'))"

lemma rule_Equal_iff [simp]: "rule_Equal r o' \<longleftrightarrow> r = o'"
  by (auto simp: rule_Equal_def)

text \<open>
  What \<open>ReconcileRules\<close> relies on of a backend: \<open>rules\<close> are the rules it holds, adding and deleting
  are idempotent and touch one rule, a failed operation changes nothing.
\<close>

locale rule_backend =
  fixes rules :: "'s \<Rightarrow> PolicyRule set"
    and add :: "'s \<Rightarrow> PolicyRule \<Rightarrow> 's \<times> bool"
    and lister :: "'s \<Rightarrow> PolicyRule list option"
    and del :: "'s \<Rightarrow> PolicyRule \<Rightarrow> 's \<times> bool"
  assumes add_ok: "add s r = (s', True) \<Longrightarrow> rules s' = insert r (rules s)"
    and add_fail: "add s r = (s', False) \<Longrightarrow> rules s' = rules s"
    and lister_ok: "lister s = Some rs \<Longrightarrow> set rs = rules s"
    and del_ok: "del s r = (s', True) \<Longrightarrow> rules s' = rules s - {r}"
    and del_fail: "del s r = (s', False) \<Longrightarrow> rules s' = rules s"
begin

lemma adds_ok: "reconcile_add add want s = (s', None) \<Longrightarrow> rules s' = rules s \<union> set want"
  by (induction want arbitrary: s) (auto simp: Let_def add_ok split: prod.splits if_splits)

lemma adds_keep: "reconcile_add add want s = (s', e) \<Longrightarrow> rules s \<subseteq> rules s' \<and> rules s' \<subseteq> rules s \<union> set want"
proof (induction want arbitrary: s)
  case (Cons r want)
  obtain t ok where a: "add s r = (t, ok)" by force
  then have t: "rules s \<subseteq> rules t \<and> rules t \<subseteq> insert r (rules s)"
    by (cases ok) (auto dest: add_ok add_fail)
  show ?case
  proof (cases ok)
    case True
    with Cons.prems a Cons.IH [of t] t show ?thesis by auto
  next
    case False
    with Cons.prems a t show ?thesis by auto
  qed
qed simp

lemma dels_ok:
  "reconcile_del del want hs s = (s', None)
    \<Longrightarrow> rules s' = rules s - {r \<in> set hs. \<not> isStockRule (Pref r) \<and> r \<notin> set want}"
  by (induction hs arbitrary: s)
     (auto simp: Let_def del_ok list_ex_iff split: prod.splits if_splits)

lemma dels_keep: "reconcile_del del want hs s = (s', e) \<Longrightarrow> rules s \<inter> set want \<subseteq> rules s' \<and> rules s' \<subseteq> rules s"
proof (induction hs arbitrary: s)
  case (Cons r hs)
  show ?case
  proof (cases "isStockRule (Pref r) \<or> r \<in> set want")
    case True
    with Cons show ?thesis by (auto simp: list_ex_iff split: if_splits)
  next
    case False
    obtain t ok where d: "del s r = (t, ok)" by force
    then have t: "rules s - {r} \<subseteq> rules t \<and> rules t \<subseteq> rules s"
      by (cases ok) (auto dest: del_ok del_fail)
    show ?thesis
    proof (cases ok)
      case True
      with Cons.prems d False Cons.IH [of t] t show ?thesis by (auto simp: list_ex_iff)
    next
      case ok: False
      with Cons.prems d False t show ?thesis by (auto simp: list_ex_iff)
    qed
  qed
qed simp

lemma reconcile_ok:
  assumes "ReconcileRules add lister del want s = (s', None)"
  shows "rules s' = set want \<union> {r \<in> rules s. isStockRule (Pref r)}"
proof -
  from assms obtain t hs where t: "reconcile_add add want s = (t, None)" "lister t = Some hs"
    "reconcile_del del want hs t = (s', None)"
    by (auto simp: ReconcileRules_def split: prod.splits option.splits)
  from adds_ok [OF t(1)] lister_ok [OF t(2)] dels_ok [OF t(3)] show ?thesis by auto
qed

lemma reconcile_keeps_wanted:
  assumes "ReconcileRules add lister del want s = (s', e)"
  shows "rules s \<inter> set want \<subseteq> rules s' \<and> rules s' \<subseteq> rules s \<union> set want"
proof -
  obtain t e' where t: "reconcile_add add want s = (t, e')" by force
  have a: "rules s \<subseteq> rules t \<and> rules t \<subseteq> rules s \<union> set want" using adds_keep [OF t] .
  show ?thesis
  proof (cases "e' = None \<and> lister t \<noteq> None")
    case True
    then obtain hs where "lister t = Some hs" by auto
    with assms t True have "reconcile_del del want hs t = (s', e)" by (simp add: ReconcileRules_def)
    from dels_keep [OF this] a show ?thesis by blast
  next
    case False
    with assms t have "s' = t" by (auto simp: ReconcileRules_def split: option.splits)
    with a show ?thesis by blast
  qed
qed

end

section \<open>The in-memory backend\<close>

record Nexthop =
  nhOifName :: string
  Weight :: int

record Route =
  OnLink :: bool
  roTable :: int
  Dest :: string
  Gateway :: string
  roOifName :: string
  Scope :: string
  Metric :: int
  Nexthops :: "Nexthop list"

record FakeBackend =
  Rules :: "PolicyRule list"
  Routes :: "Route list"
  fbErr :: bool

definition fake_RuleList :: "FakeBackend \<Rightarrow> PolicyRule list option" where
  "fake_RuleList f = (if fbErr f then None else Some (Rules f))"

definition fake_RuleAdd :: "FakeBackend \<Rightarrow> PolicyRule \<Rightarrow> FakeBackend \<times> bool" where
  "fake_RuleAdd f r =
     (if fbErr f then (f, False)
      else if list_ex (\<lambda>ex. rule_Equal ex r) (Rules f) then (f, True)
      else (f\<lparr>Rules := Rules f @ [r]\<rparr>, True))"

definition fake_RuleDel :: "FakeBackend \<Rightarrow> PolicyRule \<Rightarrow> FakeBackend \<times> bool" where
  "fake_RuleDel f r =
     (if fbErr f then (f, False)
      else (f\<lparr>Rules := filter (\<lambda>ex. \<not> rule_Equal ex r) (Rules f)\<rparr>, True))"

definition fake_RouteList :: "FakeBackend \<Rightarrow> int \<Rightarrow> Route list option" where
  "fake_RouteList f t = (if fbErr f then None else Some (filter (\<lambda>r. roTable r = t) (Routes f)))"

text \<open>Replacing keys on the table, the destination and the metric.\<close>

definition route_key :: "Route \<Rightarrow> int \<times> string \<times> int" where
  "route_key r = (roTable r, Dest r, Metric r)"

fun replace_route :: "Route \<Rightarrow> Route list \<Rightarrow> Route list" where
  "replace_route r [] = [r]"
| "replace_route r (x # xs) = (if route_key x = route_key r then r # xs else x # replace_route r xs)"

definition fake_RouteReplace :: "FakeBackend \<Rightarrow> Route \<Rightarrow> FakeBackend \<times> bool" where
  "fake_RouteReplace f r = (if fbErr f then (f, False) else (f\<lparr>Routes := replace_route r (Routes f)\<rparr>, True))"

definition fake_RouteDel :: "FakeBackend \<Rightarrow> Route \<Rightarrow> FakeBackend \<times> bool" where
  "fake_RouteDel f r = (if fbErr f then (f, False)
     else (f\<lparr>Routes := filter (\<lambda>ex. route_key ex \<noteq> route_key r) (Routes f)\<rparr>, True))"

interpretation fake: rule_backend "\<lambda>f. set (Rules f)" fake_RuleAdd fake_RuleList fake_RuleDel
  by unfold_locales
     (auto simp: fake_RuleAdd_def fake_RuleList_def fake_RuleDel_def list_ex_iff split: if_splits)

section \<open>What the kernel does with the rules\<close>

text \<open>
  The policy lookup of the kernel, for a packet with mark \<open>m\<close> from a socket bound to \<open>oif\<close> (empty
  when unbound). \<open>resolves t sup\<close> says whether table \<open>t\<close> has a route for the packet, with its
  default route left out when \<open>sup\<close>: it is arbitrary, so the theorems hold for every state of the
  tables. Rules are tried by preference; one that matches either drops the packet, routes it, or
  lets the walk go on when its table has no route.
\<close>

datatype outcome = Via PolicyRule | Dropped | NoRule

definition rule_matches :: "u32 \<Rightarrow> string \<Rightarrow> PolicyRule \<Rightarrow> bool" where
  "rule_matches m oif r \<longleftrightarrow> (m XOR FwMark r) AND FwMask r = 0 \<and> (OifName r = [] \<or> OifName r = oif)"

fun walk :: "(int \<Rightarrow> bool \<Rightarrow> bool) \<Rightarrow> u32 \<Rightarrow> string \<Rightarrow> PolicyRule list \<Rightarrow> outcome" where
  "walk resolves m oif [] = NoRule"
| "walk resolves m oif (r # rs) =
     (if \<not> rule_matches m oif r then walk resolves m oif rs
      else if Blackhole r then Dropped
      else if resolves (rTable r) (SuppressSet r) then Via r
      else walk resolves m oif rs)"

definition kernel_route :: "(int \<Rightarrow> bool \<Rightarrow> bool) \<Rightarrow> u32 \<Rightarrow> string \<Rightarrow> PolicyRule list \<Rightarrow> outcome" where
  "kernel_route resolves m oif rs = walk resolves m oif (sort_key Pref rs)"

text \<open>A matching terminator fails closed: nothing behind it is ever used.\<close>

lemma walk_terminator:
  assumes "sorted (map Pref rs)" "b \<in> set rs" "rule_matches m oif b" "Blackhole b"
  shows "walk resolves m oif rs = Dropped
     \<or> (\<exists>r \<in> set rs. walk resolves m oif rs = Via r \<and> rule_matches m oif r \<and> \<not> Blackhole r \<and> Pref r \<le> Pref b)"
  using assms
proof (induction rs)
  case (Cons r rs)
  show ?case
  proof (cases "r = b")
    case True
    with Cons.prems show ?thesis by simp
  next
    case False
    with Cons have "walk resolves m oif rs = Dropped
       \<or> (\<exists>r \<in> set rs. walk resolves m oif rs = Via r \<and> rule_matches m oif r \<and> \<not> Blackhole r \<and> Pref r \<le> Pref b)"
      by simp
    with Cons.prems False show ?thesis by auto
  qed
qed simp

lemma kernel_route_terminator:
  assumes "b \<in> set rs" "rule_matches m oif b" "Blackhole b"
  shows "kernel_route resolves m oif rs = Dropped
     \<or> (\<exists>r \<in> set rs. kernel_route resolves m oif rs = Via r \<and> rule_matches m oif r \<and> \<not> Blackhole r \<and> Pref r \<le> Pref b)"
  using walk_terminator [of "sort_key Pref rs" b m oif resolves] assms by (simp add: kernel_route_def)

section \<open>The rules, block by block\<close>

lemma set_numbered: "(p, x) \<in> set (numbered base xs) \<Longrightarrow> x \<in> set xs \<and> base \<le> p \<and> p < base + int (length xs)"
  by (auto simp: numbered_def in_set_zip)

lemma set_by_index [simp]: "set (by_index us) = set us"
  by (simp add: by_index_def)

lemma pin_rules_mem:
  "r \<in> set (pin_rules_from base us) \<Longrightarrow>
     \<exists>u \<in> set us. FwMark r = PinMark (UplinkIndex u) \<and> FwMask r = MaskPin \<and> OifName r = []
       \<and> base \<le> Pref r \<and> Pref r < base + 2 * int (length us)
       \<and> (\<not> Blackhole r \<longrightarrow> rTable r = upTable u \<and> \<not> SuppressSet r)"
  by (induction base us rule: pin_rules_from.induct) (force simp: zero_rule_def)+

lemma pin_terminator:
  "u \<in> set us \<Longrightarrow> \<exists>b \<in> set (pin_rules_from base us). Blackhole b \<and> FwMark b = PinMark (UplinkIndex u)
     \<and> FwMask b = MaskPin \<and> OifName b = [] \<and> Pref b < base + 2 * int (length us)"
  by (induction base us rule: pin_rules_from.induct) (force simp: zero_rule_def)+

lemmas pref_defs = RulePrefOifBase_def RulePrefMainSuppress_def RulePrefFallbackBase_def
  RulePrefFallbackBlackhole_def tableMain_def WGTable_def RulePrefPinBase_def RulePrefViaBase_def
  rulePrefViaStride_def

text \<open>The rules below the fallback, as what a rule can be when it matches and routes.\<close>

definition routing_head :: "WANGroup list \<Rightarrow> Uplink list \<Rightarrow> string list \<Rightarrow> PolicyRule list" where
  "routing_head groups us names = PinRules us @ GroupRules groups us names @ ViaRules us names"

lemma BaseRules_mem:
  assumes "r \<in> set (BaseRules us names)"
  shows "(OifName r \<in> upIfName ` set us \<union> set names)
     \<or> (r = zero_rule\<lparr>Pref := RulePrefMainSuppress, rTable := tableMain, SuppressSet := True, SuppressPrefixLen := 0\<rparr>)
     \<or> Pref r \<ge> RulePrefFallbackBase"
proof -
  have o': "n \<in> upIfName ` set us \<union> set names" if "(p, n, t) \<in> set (numbered RulePrefOifBase (oif_entries (by_index us) names))" for p n t
    using set_numbered [OF that] by (auto simp: oif_entries_def dest!: in_set_takeD)
  have f: "p \<ge> RulePrefFallbackBase" if "(p, t) \<in> set (numbered RulePrefFallbackBase (fallbackTables (by_index us) names))" for p t
    using set_numbered [OF that] by simp
  have l: "RulePrefFallbackBase \<le> RulePrefFallbackBlackhole" by (simp add: pref_defs)
  show ?thesis
    using assms l by (auto simp: BaseRules_def Let_def zero_rule_def dest: o' f)
qed

lemma AllRules_mem:
  assumes "r \<in> set (AllRules groups us names)" "Pref r < RulePrefFallbackBase"
  shows "OifName r \<in> upIfName ` set us \<union> set names
     \<or> r = zero_rule\<lparr>Pref := RulePrefMainSuppress, rTable := tableMain, SuppressSet := True, SuppressPrefixLen := 0\<rparr>
     \<or> r \<in> set (routing_head groups us names)"
  using assms BaseRules_mem [of r us names] by (auto simp: AllRules_def Let_def routing_head_def)

lemma routing_head_subset: "set (routing_head groups us names) \<subseteq> set (AllRules groups us names)"
  by (auto simp: AllRules_def routing_head_def Let_def)

lemma group_fields [simp]:
  "gGroupIndex domestic_group = GroupDomestic" "gGroupIndex foreign_group = GroupForeign"
  "RuleBase domestic_group = 110" "RuleBase foreign_group = 150"
  "RuleBlackhole domestic_group = 149" "RuleBlackhole foreign_group = 199"
  by (simp_all add: domestic_group_def foreign_group_def)

lemma groups_differ [simp]: "GroupDomestic \<noteq> GroupForeign" "GroupForeign \<noteq> GroupDomestic"
  by (simp_all add: GroupDomestic_def GroupForeign_def)

lemma GroupRules_default:
  "GroupRules default_groups us names = group_rules us names domestic_group @ group_rules us names foreign_group"
  by (simp add: GroupRules_def default_groups_def)

lemma member_rules_mem:
  "r \<in> set (member_rules g ms) \<Longrightarrow> \<exists>m \<in> set ms. FwMark r = GroupMark (gGroupIndex g) \<and> FwMask r = MaskGroup
     \<and> OifName r = [] \<and> rTable r = upTable m \<and> \<not> Blackhole r \<and> Pref r < RuleBlackhole g \<and> RuleBase g \<le> Pref r
     \<and> \<not> SuppressSet r"
  by (fastforce simp: member_rules_def zero_rule_def dest!: set_takeWhileD set_numbered)

lemma uplinks_mem:
  "u \<in> set (uplinks rows) \<Longrightarrow> \<exists>r \<in> set rows. u = uplink_of r \<and> Role r = RoleWAN \<and> Present r \<and> Slot r \<noteq> SlotNone"
  by (auto simp: uplinks_def GetByRole_def)

definition slot_real :: "UplinkSlot \<Rightarrow> bool" where
  "slot_real s \<longleftrightarrow> slot_is_domestic s \<or> slot_is_secondary s"

lemma slot_real_iff: "slot_real s \<longleftrightarrow> s \<in> set (DomesticSlots @ SecondarySlots)"
  by (cases s) (simp_all add: slot_real_def slot_is_domestic_def slot_is_secondary_def DomesticSlots_def SecondarySlots_def)

lemma slot_index:
  "slot_real s \<Longrightarrow> take_bit 4 (uplinkIndexFor s) = uplinkIndexFor s \<and> uplinkIndexFor s \<noteq> 0"
  by (cases s) (simp_all add: slot_real_def slot_is_domestic_def slot_is_secondary_def take_bit_eq_mask mask_numeral)

lemma slot_index_inj: "slot_real s \<Longrightarrow> slot_real t \<Longrightarrow> uplinkIndexFor s = uplinkIndexFor t \<Longrightarrow> s = t"
  by (cases s; cases t) (simp_all add: slot_real_def slot_is_domestic_def slot_is_secondary_def)

lemma slot_table_inj: "slot_real s \<Longrightarrow> slot_real t \<Longrightarrow> tableFor s = tableFor t \<Longrightarrow> s = t"
  by (cases s; cases t) (simp_all add: slot_real_def slot_is_domestic_def slot_is_secondary_def)

lemma uplinks_slot:
  assumes "rows_ok rows" "u \<in> set (uplinks rows)"
  shows "slot_real (upSlot u) \<and> UplinkIndex u = uplinkIndexFor (upSlot u) \<and> upTable u = tableFor (upSlot u)
     \<and> GroupIndex u = groupIndexFor (upSlot u) \<and> upIfName u \<in> IfName ` set rows"
  using assms uplinks_mem [OF assms(2)]
  by (auto simp: rows_ok_def slot_ok_def slot_real_def uplink_of_def)

text \<open>Interfaces and tunnels have names; an empty name would match every socket.\<close>

definition names_ok :: "NetworkInterface list \<Rightarrow> string list \<Rightarrow> bool" where
  "names_ok rows names \<longleftrightarrow> [] \<notin> IfName ` set rows \<and> [] \<notin> set names"

lemma GroupMarks_small:
  "take_bit 8 GroupDomestic = GroupDomestic" "take_bit 8 GroupForeign = GroupForeign"
  by (simp_all add: GroupDomestic_def GroupForeign_def take_bit_eq_mask mask_numeral)

lemma via_group_of_slot:
  "s \<in> set SecondarySlots \<Longrightarrow> take_bit 8 (GroupForeignVia (uplinkIndexFor s)) = GroupForeignVia (uplinkIndexFor s)
     \<and> GroupForeignVia (uplinkIndexFor s) \<noteq> GroupForeign \<and> GroupForeignVia (uplinkIndexFor s) \<noteq> GroupDomestic"
  by (auto simp: SecondarySlots_def GroupForeignVia_def groupForeignViaBase_def GroupForeign_def GroupDomestic_def
      take_bit_eq_mask mask_numeral)

lemma via_offset: "s \<in> set SecondarySlots \<Longrightarrow> uint (uplinkIndexFor s - 2) \<le> 3"
  by (auto simp: SecondarySlots_def)

lemma via_rules_slot:
  assumes "r \<in> set (via_rules us names s)" "s \<in> set SecondarySlots"
  shows "FwMark r = GroupMark (GroupForeignVia (uplinkIndexFor s)) \<and> FwMask r = MaskGroup
     \<and> OifName r = [] \<and> (\<not> Blackhole r \<longrightarrow> rTable r = vpnViaTableFor (uplinkIndexFor s) \<and> vpn_Active names)
     \<and> 200 \<le> Pref r \<and> Pref r \<le> 239 \<and> \<not> SuppressSet r"
proof -
  let ?b = "200 + 10 * uint (uplinkIndexFor s - 2)"
  let ?m = "GroupMark (GroupForeignVia (uplinkIndexFor s))"
  consider "r = zero_rule\<lparr>Pref := ?b, FwMark := ?m, FwMask := MaskGroup, rTable := vpnViaTableFor (uplinkIndexFor s)\<rparr>"
      "vpn_Active names"
    | "r = zero_rule\<lparr>Pref := ?b + 9, FwMark := ?m, FwMask := MaskGroup, Blackhole := True\<rparr>"
    using assms(1) by (auto simp: via_rules_def Let_def pref_defs split: if_splits)
  then show ?thesis using via_offset [OF assms(2)] by cases (simp_all add: zero_rule_def)
qed

lemma via_rules_mem:
  assumes "r \<in> set (ViaRules us names)"
  shows "\<exists>s \<in> set SecondarySlots. r \<in> set (via_rules us names s)"
  using assms by (auto simp: ViaRules_def)

lemma group_rules_mem:
  assumes "r \<in> set (GroupRules default_groups us names)"
  shows "FwMask r = MaskGroup \<and> OifName r = [] \<and> 110 \<le> Pref r \<and> Pref r \<le> 199 \<and> \<not> SuppressSet r
     \<and> (FwMark r = GroupMark GroupForeign \<and> (\<not> Blackhole r \<longrightarrow> rTable r = WGTable \<and> vpn_Active names)
        \<or> FwMark r = GroupMark GroupDomestic
           \<and> (\<not> Blackhole r \<longrightarrow> (\<exists>u \<in> set us. GroupIndex u = GroupDomestic \<and> rTable r = upTable u)))"
proof -
  consider "r \<in> set (member_rules domestic_group (by_index (filter (\<lambda>u. GroupIndex u = GroupDomestic) us)))"
    | "r = zero_rule\<lparr>Pref := 149, FwMark := GroupMark GroupDomestic, FwMask := MaskGroup, Blackhole := True\<rparr>"
    | "r \<in> set (group_rules us names foreign_group)"
    using assms by (auto simp: GroupRules_default group_rules_def)
  then show ?thesis
  proof cases
    case 1
    from member_rules_mem [OF 1] obtain u where
      "u \<in> set us" "GroupIndex u = GroupDomestic" "FwMark r = GroupMark GroupDomestic" "FwMask r = MaskGroup"
      "OifName r = []" "rTable r = upTable u" "\<not> Blackhole r" "Pref r < 149" "110 \<le> Pref r" "\<not> SuppressSet r"
      by auto
    then show ?thesis by auto
  qed (auto simp: group_rules_def zero_rule_def split: if_splits)
qed

lemma pin_rules_no_match:
  assumes "\<forall>u \<in> set us. take_bit 4 (UplinkIndex u) \<noteq> Pin m" "r \<in> set (PinRules us)"
  shows "\<not> rule_matches m oif r"
proof -
  from pin_rules_mem [OF assms(2) [unfolded PinRules_def]]
  obtain u where "u \<in> set us" "FwMark r = PinMark (UplinkIndex u)" "FwMask r = MaskPin" by auto
  with assms(1) show ?thesis by (auto simp: rule_matches_def mark_matches)
qed

text \<open>The only routing rule of an unpinned packet of the foreign group is the tunnel.\<close>

lemma foreign_head:
  assumes "r \<in> set (routing_head default_groups us names)" "rule_matches m oif r" "Group m = GroupForeign"
    "\<forall>u \<in> set us. take_bit 4 (UplinkIndex u) \<noteq> Pin m" "\<not> Blackhole r"
  shows "rTable r = WGTable \<and> \<not> SuppressSet r \<and> vpn_Active names"
proof -
  consider "r \<in> set (PinRules us)" | "r \<in> set (GroupRules default_groups us names)" | "r \<in> set (ViaRules us names)"
    using assms(1) by (auto simp: routing_head_def)
  then show ?thesis
  proof cases
    case 1
    with pin_rules_no_match assms show ?thesis by blast
  next
    case 2
    from group_rules_mem [OF 2] assms show ?thesis
      by (auto simp: rule_matches_def mark_matches GroupMarks_small GroupDomestic_def GroupForeign_def)
  next
    case 3
    from via_rules_mem [OF 3] via_rules_slot obtain s where "s \<in> set SecondarySlots"
      "FwMark r = GroupMark (GroupForeignVia (uplinkIndexFor s))" "FwMask r = MaskGroup" by blast
    with via_group_of_slot [of s] assms(2,3) show ?thesis
      by (auto simp: rule_matches_def mark_matches)
  qed
qed

lemma foreign_terminator:
  "\<exists>b \<in> set (routing_head default_groups us names). Blackhole b \<and> FwMark b = GroupMark GroupForeign
     \<and> FwMask b = MaskGroup \<and> OifName b = [] \<and> Pref b = 199"
  by (rule bexI [of _ "zero_rule\<lparr>Pref := 199, FwMark := GroupMark GroupForeign, FwMask := MaskGroup, Blackhole := True\<rparr>"])
     (auto simp: routing_head_def GroupRules_default group_rules_def zero_rule_def)

section \<open>Where a packet can go\<close>

definition main_suppressed :: PolicyRule where
  "main_suppressed = zero_rule\<lparr>Pref := RulePrefMainSuppress, rTable := tableMain, SuppressSet := True, SuppressPrefixLen := 0\<rparr>"

text \<open>
  The places common to every marked packet: nowhere, a specific (never a default) route of the main
  table, or the kernel's own rule of preference 0, the table of local addresses.
\<close>

definition contained :: "PolicyRule list \<Rightarrow> (PolicyRule \<Rightarrow> bool) \<Rightarrow> outcome \<Rightarrow> bool" where
  "contained before ok out = (case out of
      Dropped \<Rightarrow> True
    | NoRule \<Rightarrow> False
    | Via r \<Rightarrow> ok r \<or> r = main_suppressed \<or> r \<in> set before \<and> Pref r = 0)"

abbreviation installed :: "PolicyRule list \<Rightarrow> FakeBackend \<Rightarrow> FakeBackend \<Rightarrow> bool" where
  "installed want k k' \<equiv> ReconcileRules fake_RuleAdd fake_RuleList fake_RuleDel want k = (k', None)"

lemma installed_rules:
  "installed want k k' \<Longrightarrow> set (Rules k') = set want \<union> {r \<in> set (Rules k). isStockRule (Pref r)}"
  by (rule fake.reconcile_ok)

lemma route_contained:
  assumes inst: "installed (AllRules groups us names) k k'"
    and b: "b \<in> set (routing_head groups us names)" "rule_matches m [] b" "Blackhole b" "Pref b < RulePrefFallbackBase"
    and nm: "[] \<notin> upIfName ` set us" "[] \<notin> set names"
    and ok: "\<And>r. r \<in> set (routing_head groups us names) \<Longrightarrow> rule_matches m [] r \<Longrightarrow> \<not> Blackhole r
              \<Longrightarrow> Pref r \<le> Pref b \<Longrightarrow> ok r"
  shows "contained (Rules k) ok (kernel_route resolves m [] (Rules k'))"
proof -
  have "b \<in> set (Rules k')" using installed_rules [OF inst] routing_head_subset b(1) by blast
  from kernel_route_terminator [OF this b(2,3), of resolves]
  consider "kernel_route resolves m [] (Rules k') = Dropped"
    | r where "r \<in> set (Rules k')" "kernel_route resolves m [] (Rules k') = Via r" "rule_matches m [] r"
        "\<not> Blackhole r" "Pref r \<le> Pref b" by blast
  then show ?thesis
  proof cases
    case 2
    show ?thesis
    proof (cases "r \<in> set (AllRules groups us names)")
      case True
      moreover have "OifName r = []" using 2(3) by (auto simp: rule_matches_def)
      then have "OifName r \<notin> upIfName ` set us \<union> set names" using nm by simp
      ultimately have "r = main_suppressed \<or> r \<in> set (routing_head groups us names)"
        using AllRules_mem [of r groups us names] 2(5) b(4) by (simp add: main_suppressed_def)
      then show ?thesis using 2 ok by (auto simp: contained_def)
    next
      case False
      with 2(1) installed_rules [OF inst] have "r \<in> set (Rules k)" "isStockRule (Pref r)" by auto
      then show ?thesis using 2 b(4) by (auto simp: contained_def isStockRule_def pref_defs)
    qed
  qed (simp add: contained_def)
qed

lemma uplinks_names:
  "rows_ok rows \<Longrightarrow> names_ok rows names \<Longrightarrow> [] \<notin> upIfName ` set (uplinks rows) \<and> [] \<notin> set names"
  using uplinks_slot by (fastforce simp: names_ok_def)

lemma foreign_contained:
  assumes "rows_ok rows" "names_ok rows names"
    and "installed (AllRules default_groups (uplinks rows) names) k k'"
    and "Group m = GroupForeign" "Pin m = 0"
  shows "contained (Rules k) (\<lambda>r. rTable r = WGTable \<and> vpn_Active names)
           (kernel_route resolves m [] (Rules k'))"
proof -
  obtain b where b: "b \<in> set (routing_head default_groups (uplinks rows) names)" "Blackhole b"
    "FwMark b = GroupMark GroupForeign" "FwMask b = MaskGroup" "OifName b = []" "Pref b = 199"
    using foreign_terminator by blast
  have "\<forall>u \<in> set (uplinks rows). take_bit 4 (UplinkIndex u) \<noteq> Pin m"
    using uplinks_slot [OF assms(1)] slot_index assms(5) by metis
  with foreign_head [OF _ _ assms(4)] show ?thesis
    using uplinks_names [OF assms(1,2)] b assms(4)
    by (intro route_contained [OF assms(3), of b])
       (auto simp: rule_matches_def mark_matches GroupMarks_small pref_defs)
qed


lemma wan_slots_inj:
  assumes "rows_ok rows"
  shows "inj_on Slot {r \<in> set rows. Role r = RoleWAN}"
proof (rule inj_onI)
  fix a b assume "a \<in> {r \<in> set rows. Role r = RoleWAN}" "b \<in> {r \<in> set rows. Role r = RoleWAN}" "Slot a = Slot b"
  with assms have "ifID a = ifID b" "a \<in> set rows" "b \<in> set rows" by (auto simp: exclusive_def rows_ok_def)
  with assms show "a = b" by (metis rows_ok_def distinct_map inj_onD)
qed

lemma uplinks_distinct:
  assumes "rows_ok rows"
  shows "distinct (map upSlot (uplinks rows))"
proof -
  have d: "distinct (map ifID rows)" using assms by (simp add: rows_ok_def)
  from wan_slots_inj [OF assms] have "inj_on Slot (set (filter (\<lambda>r. \<not> (\<not> Present r \<or> Slot r = SlotNone)) (GetByRole RoleWAN rows)))"
    by (rule inj_on_subset) (auto simp: GetByRole_def)
  moreover have "distinct (filter (\<lambda>r. \<not> (\<not> Present r \<or> Slot r = SlotNone)) (GetByRole RoleWAN rows))"
    using d by (simp add: GetByRole_def distinct_map)
  ultimately show ?thesis
    by (simp add: uplinks_def distinct_map uplink_of_def comp_def)
qed

lemma uplinks_length:
  assumes "rows_ok rows"
  shows "length (uplinks rows) \<le> 8"
proof -
  have "set (map upSlot (uplinks rows)) \<subseteq> set (DomesticSlots @ SecondarySlots)"
    using uplinks_slot [OF assms] by (auto simp: slot_real_iff simp del: set_append)
  then have "card (set (map upSlot (uplinks rows))) \<le> card (set (DomesticSlots @ SecondarySlots))"
    by (intro card_mono) auto
  then show ?thesis
    using distinct_card [OF uplinks_distinct [OF assms]]
    by (simp add: DomesticSlots_def SecondarySlots_def)
qed

lemma length_by_index [simp]: "length (by_index us) = length us"
  by (simp add: by_index_def)


text \<open>
  A via mark stays in its slice of the pool. Once the rules are installed, an unpinned packet
  of the foreign-via group of a secondary slot leaves through that slot's slice of the tunnel pool
  or not at all, also when the slot is no longer assigned.
\<close>

theorem via_traffic_never_leaks:
  assumes "rows_ok rows" "names_ok rows names"
    and "installed (AllRules default_groups (uplinks rows) names) k k'"
    and "s \<in> set SecondarySlots" "Group m = GroupForeignVia (uplinkIndexFor s)" "Pin m = 0"
  shows "contained (Rules k) (\<lambda>r. rTable r = vpnViaTableFor (uplinkIndexFor s) \<and> vpn_Active names)
           (kernel_route resolves m [] (Rules k'))"
proof -
  let ?b = "zero_rule\<lparr>Pref := 200 + 10 * uint (uplinkIndexFor s - 2) + 9,
     FwMark := GroupMark (GroupForeignVia (uplinkIndexFor s)), FwMask := MaskGroup, Blackhole := True\<rparr>"
  have b: "?b \<in> set (ViaRules (uplinks rows) names)"
    using assms(4) by (auto simp: ViaRules_def via_rules_def Let_def pref_defs)
  have pins: "\<forall>u \<in> set (uplinks rows). take_bit 4 (UplinkIndex u) \<noteq> Pin m"
    using uplinks_slot [OF assms(1)] slot_index assms(6) by metis
  note via = via_group_of_slot [OF assms(4)]
  show ?thesis
  proof (rule route_contained [OF assms(3), of ?b])
    fix r
    assume r: "r \<in> set (routing_head default_groups (uplinks rows) names)" "rule_matches m [] r" "\<not> Blackhole r"
    have "r \<notin> set (PinRules (uplinks rows))" using pin_rules_no_match [OF pins] r(2) by blast
    moreover have "r \<notin> set (GroupRules default_groups (uplinks rows) names)"
      using group_rules_mem [of r "uplinks rows" names] r(2) via assms(5)
      by (auto simp: rule_matches_def mark_matches GroupMarks_small)
    ultimately obtain t where t: "t \<in> set SecondarySlots" "r \<in> set (via_rules (uplinks rows) names t)"
      using r(1) by (auto simp: routing_head_def dest!: via_rules_mem)
    note v = via_rules_slot [OF t(2,1)]
    with r(2) via_group_of_slot [OF t(1)] assms(5)
    have "GroupForeignVia (uplinkIndexFor t) = GroupForeignVia (uplinkIndexFor s)"
      by (simp add: rule_matches_def mark_matches)
    then have "t = s" using t(1) assms(4)
      by (auto simp: SecondarySlots_def GroupForeignVia_def groupForeignViaBase_def)
    with v r(3) show "rTable r = vpnViaTableFor (uplinkIndexFor s) \<and> vpn_Active names" by simp
  qed (use b uplinks_names [OF assms(1,2)] via_offset [OF assms(4)] via assms(5) in
        \<open>auto simp: routing_head_def rule_matches_def mark_matches pref_defs zero_rule_def\<close>)
qed

section \<open>Reconciling, on the in-memory backend\<close>

lemma fake_adds: "\<not> fbErr k \<Longrightarrow> \<exists>k'. reconcile_add fake_RuleAdd want k = (k', None) \<and> \<not> fbErr k'"
  by (induction want arbitrary: k) (auto simp: fake_RuleAdd_def)

lemma fake_dels: "\<not> fbErr k \<Longrightarrow> \<exists>k'. reconcile_del fake_RuleDel want hs k = (k', None)"
  by (induction hs arbitrary: k) (auto simp: fake_RuleDel_def)

lemma fake_installs: "\<not> fbErr k \<Longrightarrow> \<exists>k'. installed want k k'"
  using fake_adds [of k want] fake_dels by (fastforce simp: ReconcileRules_def fake_RuleList_def)


text \<open>Two uplinks and one tunnel, on a kernel with its three stock rules.\<close>

definition example_rows :: "NetworkInterface list" where
  "example_rows = [example_iface, example_iface\<lparr>ifID := 2, ifKey := ''k2'', IfName := ''eth1'', Slot := SlotSecondary\<rparr>]"

definition example_kernel :: FakeBackend where
  "example_kernel = \<lparr>Rules = [zero_rule\<lparr>Pref := 0, rTable := 255\<rparr>, zero_rule\<lparr>Pref := 32766, rTable := 254\<rparr>,
     zero_rule\<lparr>Pref := 32767, rTable := 253\<rparr>], Routes = [], fbErr = False\<rparr>"

lemma example_rows_ok': "rows_ok example_rows" "names_ok example_rows [''nasnet-wg0'']"
  by (simp_all add: example_rows_def rows_ok_def slot_ok_def exclusive_def names_ok_def example_iface_def
      slot_is_domestic_def slot_is_secondary_def role_is_singleton_def)

lemma example_uplink: "uplink_of example_iface \<in> set (uplinks example_rows)"
  by (simp add: uplinks_def GetByRole_def example_rows_def example_iface_def)

lemma example_installs:
  "\<exists>k'. installed (AllRules default_groups (uplinks example_rows) [''nasnet-wg0'']) example_kernel k'"
  by (rule fake_installs) (simp add: example_kernel_def)




theorem via_traffic_never_leaks_witness:
  "\<exists>k'. installed (AllRules default_groups (uplinks example_rows) [''nasnet-wg0'']) example_kernel k'
     \<and> contained (Rules example_kernel) (\<lambda>r. rTable r = vpnViaTableFor 2 \<and> vpn_Active [''nasnet-wg0''])
         (kernel_route (\<lambda>_ _. True) 0x00120000 [] (Rules k'))"
proof -
  obtain k' where k': "installed (AllRules default_groups (uplinks example_rows) [''nasnet-wg0'']) example_kernel k'"
    using example_installs by blast
  have g: "SlotSecondary \<in> set SecondarySlots" "Group 0x00120000 = GroupForeignVia (uplinkIndexFor SlotSecondary)"
    "Pin 0x00120000 = 0"
    by (simp_all add: Group_def Pin_def MaskGroup_def MaskPin_def shiftGroup_def shiftPin_def GroupForeignVia_def
        groupForeignViaBase_def SecondarySlots_def)
  from via_traffic_never_leaks [OF example_rows_ok' k' g] k' show ?thesis by auto
qed

section \<open>Preferences\<close>

text \<open>A block of rules in strictly ascending preference within \<open>[lo, hi)\<close>; blocks chain.\<close>

definition block :: "int \<Rightarrow> int \<Rightarrow> PolicyRule list \<Rightarrow> bool" where
  "block lo hi rs \<longleftrightarrow> sorted_wrt (<) (map Pref rs) \<and> (\<forall>r \<in> set rs. lo \<le> Pref r \<and> Pref r < hi)"

lemma block_append [inv_intros]: "block a b xs \<Longrightarrow> block b c ys \<Longrightarrow> a \<le> b \<Longrightarrow> b \<le> c \<Longrightarrow> block a c (xs @ ys)"
  by (fastforce simp: block_def sorted_wrt_append)

lemma block_weaken: "block a b xs \<Longrightarrow> a' \<le> a \<Longrightarrow> b \<le> b' \<Longrightarrow> block a' b' xs"
  by (auto simp: block_def)

lemma block_single [simp]: "block lo hi [r] \<longleftrightarrow> lo \<le> Pref r \<and> Pref r < hi"
  by (simp add: block_def)

lemma block_Nil [simp]: "block lo hi []"
  by (simp add: block_def)

lemma block_numbered:
  assumes "\<And>p x. Pref (f (p, x)) = p" "base + int (length xs) \<le> hi"
  shows "block base hi (map f (numbered base xs))"
proof -
  have "map Pref (map f (numbered base xs)) = map (\<lambda>i. base + int i) [0..<length xs]"
    unfolding numbered_def by (rule nth_equalityI) (auto simp: assms(1))
  moreover have "sorted_wrt (<) (map (\<lambda>i. base + int i) [0..<n])" for n
    by (induction n) (auto simp: sorted_wrt_append)
  moreover have "lo \<le> Pref r \<and> Pref r < hi" if "r \<in> set (map f (numbered base xs))" "lo = base" for r lo
    using that assms set_numbered [of _ _ base xs] by fastforce
  ultimately show ?thesis by (auto simp: block_def)
qed

lemma block_takeWhile: "block lo hi (map f xs) \<Longrightarrow> block lo hi (map f (takeWhile P xs))"
proof -
  assume b: "block lo hi (map f xs)"
  have e: "map f xs = map f (takeWhile P xs) @ map f (dropWhile P xs)"
    by (simp flip: map_append)
  from b show ?thesis unfolding e by (auto simp: block_def sorted_wrt_append)
qed

lemma block_pins: "block base (base + 2 * int (length us)) (pin_rules_from base us)"
proof (induction base us rule: pin_rules_from.induct)
  case (2 base u us)
  let ?two = "[zero_rule\<lparr>Pref := base, FwMark := PinMark (UplinkIndex u), FwMask := MaskPin, rTable := upTable u\<rparr>,
      zero_rule\<lparr>Pref := base + 1, FwMark := PinMark (UplinkIndex u), FwMask := MaskPin, Blackhole := True\<rparr>]"
  have "block base (base + 2) ?two" by (simp add: block_def zero_rule_def)
  from block_append [OF this 2] show ?case by (simp add: add.assoc)
qed simp

lemma block_member_rules:
  "\<forall>r \<in> set (member_rules g ms). Pref r < RuleBlackhole g \<Longrightarrow> block (RuleBase g) (RuleBlackhole g) (member_rules g ms)"
proof -
  assume a: "\<forall>r \<in> set (member_rules g ms). Pref r < RuleBlackhole g"
  have "block (RuleBase g) (RuleBase g + int (length ms)) (member_rules g ms)"
    unfolding member_rules_def
    by (rule block_takeWhile, rule block_numbered) (auto simp: zero_rule_def)
  with a show ?thesis by (auto simp: block_def)
qed

lemma block_groups: "block 110 200 (GroupRules default_groups us names)"
proof -
  let ?ms = "by_index (filter (\<lambda>u. GroupIndex u = GroupDomestic) us)"
  have "block 110 149 (member_rules domestic_group ?ms)"
    using block_member_rules [of domestic_group ?ms] member_rules_mem [of _ domestic_group ?ms] by auto
  then have "block 110 150 (group_rules us names domestic_group)"
    unfolding group_rules_def by (auto intro!: block_append simp: zero_rule_def)
  moreover have "block 150 200 (group_rules us names foreign_group)"
    by (simp add: group_rules_def block_def zero_rule_def)
  ultimately show ?thesis unfolding GroupRules_default by (rule block_append) simp_all
qed

lemma block_via: "block 200 240 (ViaRules us names)"
proof -
  have v: "block (200 + 10 * uint (uplinkIndexFor s - 2)) (210 + 10 * uint (uplinkIndexFor s - 2)) (via_rules us names s)" for s
    by (simp add: via_rules_def Let_def pref_defs block_def zero_rule_def)
  have "ViaRules us names = via_rules us names SlotSecondary @ via_rules us names SlotSecondary2
      @ via_rules us names SlotSecondary3 @ via_rules us names SlotSecondary4"
    by (simp add: ViaRules_def SecondarySlots_def)
  then show ?thesis
    using v [of SlotSecondary] v [of SlotSecondary2] v [of SlotSecondary3] v [of SlotSecondary4]
    by (auto intro!: block_append [of 200 210] block_append [of 210 220] block_append [of 220 230])
qed

definition oif_rules :: "Uplink list \<Rightarrow> string list \<Rightarrow> PolicyRule list" where
  "oif_rules us names = map (\<lambda>(p, n, t). zero_rule\<lparr>Pref := p, OifName := n, rTable := t\<rparr>)
     (numbered RulePrefOifBase (oif_entries (by_index us) names))"

definition fallback_rules :: "Uplink list \<Rightarrow> string list \<Rightarrow> PolicyRule list" where
  "fallback_rules us names = map (\<lambda>(p, t). zero_rule\<lparr>Pref := p, rTable := t\<rparr>)
     (numbered RulePrefFallbackBase (fallbackTables (by_index us) names))"

lemma block_oif: "block 20 45 (oif_rules us names)"
  using block_numbered [of "\<lambda>(p, n, t). zero_rule\<lparr>Pref := p, OifName := n, rTable := t\<rparr>" 20 "oif_entries (by_index us) names" 45]
  by (auto simp: oif_rules_def oif_entries_def pref_defs zero_rule_def)

lemma block_fallback: "block 32000 32009 (fallback_rules us names)"
  using block_numbered [of "\<lambda>(p, t). zero_rule\<lparr>Pref := p, rTable := t\<rparr>" 32000 "fallbackTables (by_index us) names" 32009]
  by (auto simp: fallback_rules_def fallbackTables_def pref_defs zero_rule_def)

lemma BaseRules_blocks:
  "BaseRules us names = oif_rules us names @ [main_suppressed] @ fallback_rules us names
     @ [zero_rule\<lparr>Pref := RulePrefFallbackBlackhole, Blackhole := True\<rparr>]"
  by (simp add: BaseRules_def Let_def oif_rules_def fallback_rules_def main_suppressed_def)

lemma AllRules_blocks:
  "AllRules groups us names = oif_rules us names @ [main_suppressed] @ PinRules us @ GroupRules groups us names
     @ ViaRules us names @ fallback_rules us names @ [zero_rule\<lparr>Pref := RulePrefFallbackBlackhole, Blackhole := True\<rparr>]"
proof -
  have "filter (\<lambda>r. \<not> RulePrefFallbackBase \<le> Pref r) (oif_rules us names) = oif_rules us names"
    "filter (\<lambda>r. RulePrefFallbackBase \<le> Pref r) (oif_rules us names) = []"
    using block_oif [of us names] by (auto simp: block_def pref_defs filter_id_conv filter_empty_conv)
  moreover have "filter (\<lambda>r. \<not> RulePrefFallbackBase \<le> Pref r) (fallback_rules us names) = []"
    "filter (\<lambda>r. RulePrefFallbackBase \<le> Pref r) (fallback_rules us names) = fallback_rules us names"
    using block_fallback [of us names] by (auto simp: block_def pref_defs filter_id_conv filter_empty_conv)
  ultimately show ?thesis
    by (simp add: AllRules_def BaseRules_blocks Let_def main_suppressed_def zero_rule_def pref_defs)
qed

text \<open>
  No two rules share a preference, whatever uplinks are assigned and however many tunnels are
  up: the list is in strictly ascending order, so the order the kernel walks is the order the code
  wrote, and all of it lies between the kernel's own rules.
\<close>

theorem AllRules_strictly_ascending:
  assumes "rows_ok rows"
  shows "sorted_wrt (<) (map Pref (AllRules default_groups (uplinks rows) names))
    \<and> (\<forall>r \<in> set (AllRules default_groups (uplinks rows) names). \<not> isStockRule (Pref r))"
proof -
  have "block 50 66 (PinRules (uplinks rows))"
    unfolding PinRules_def
    by (rule block_weaken [OF block_pins]) (use uplinks_length [OF assms] in \<open>simp_all add: pref_defs\<close>)
  then have "block 50 110 (PinRules (uplinks rows))" by (rule block_weaken) simp_all
  moreover have "block 45 50 [main_suppressed]" by (simp add: main_suppressed_def pref_defs zero_rule_def)
  moreover have "block 32009 32010 [zero_rule\<lparr>Pref := RulePrefFallbackBlackhole, Blackhole := True\<rparr>]"
    by (simp add: pref_defs zero_rule_def)
  moreover have "block 200 32000 (ViaRules (uplinks rows) names)" by (rule block_weaken [OF block_via]) simp_all
  ultimately have "block 20 32010 (AllRules default_groups (uplinks rows) names)"
    unfolding AllRules_blocks
    by (intro block_append [OF block_oif] block_append [of 45 50] block_append [of 50 110] block_append [OF block_groups]
        block_append [of 200 32000] block_append [OF block_fallback]) simp_all
  then show ?thesis by (auto simp: block_def isStockRule_def)
qed

theorem AllRules_strictly_ascending_witness:
  "rows_ok example_rows \<and> sorted_wrt (<) (map Pref (AllRules default_groups (uplinks example_rows) [''nasnet-wg0'']))"
  using AllRules_strictly_ascending [OF example_rows_ok'(1)] example_rows_ok'(1) by blast

section \<open>Routing tables\<close>

text \<open>
  The part of \<open>renderAll\<close> that gives every uplink its routing table: the pool's table and its slices
  are named first, an uplink with no table or with one already taken is an error.
\<close>

datatype render_error = NoSlot string | SlotTaken UplinkSlot

definition pool_tables :: "int \<rightharpoonup> string" where
  "pool_tables = fold (\<lambda>slot m. m(vpnViaTableFor (uplinkIndexFor slot) \<mapsto> ''nasnet-vpn-'' @ slot_str slot))
     SecondarySlots [WGTable \<mapsto> ''nasnet-vpn'']"

definition uplink_table_name :: "UplinkSlot \<Rightarrow> string" where
  "uplink_table_name slot = ''nasnet-'' @ slot_str slot"

fun render_tables :: "(int \<rightharpoonup> string) \<Rightarrow> NetworkInterface list \<Rightarrow> render_error + (int \<rightharpoonup> string)" where
  "render_tables tables [] = Inr tables"
| "render_tables tables (row # rest) =
     (if Role row = RoleWAN then
        (let t = tableFor (Slot row) in
         if t = 0 then Inl (NoSlot (IfName row))
         else if tables t \<noteq> None then Inl (SlotTaken (Slot row))
         else render_tables (tables(t \<mapsto> uplink_table_name (Slot row))) rest)
      else render_tables tables rest)"

lemma pool_tables_free: "slot_real s \<Longrightarrow> pool_tables (tableFor s) = None"
  by (cases s) (simp_all add: pool_tables_def SecondarySlots_def vpnViaTableFor_def WGTable_def slot_real_def
      slot_is_domestic_def slot_is_secondary_def)

lemma tableFor_real: "slot_real s \<Longrightarrow> tableFor s \<noteq> 0"
  by (cases s) (simp_all add: slot_real_def slot_is_domestic_def slot_is_secondary_def)

lemma map_le_Some: "m \<subseteq>\<^sub>m m' \<Longrightarrow> m a = Some b \<Longrightarrow> m' a = Some b"
  by (force simp: map_le_def)

lemma render_tables_ok:
  assumes "\<forall>r \<in> set rows. Role r = RoleWAN \<longrightarrow> slot_real (Slot r) \<and> tables (tableFor (Slot r)) = None"
    "distinct (map Slot (filter (\<lambda>r. Role r = RoleWAN) rows))"
  shows "\<exists>tables'. render_tables tables rows = Inr tables' \<and> tables \<subseteq>\<^sub>m tables'
    \<and> (\<forall>r \<in> set rows. Role r = RoleWAN \<longrightarrow> tables' (tableFor (Slot r)) = Some (uplink_table_name (Slot r)))"
  using assms
proof (induction tables rows rule: render_tables.induct)
  case (2 tables row rest)
  show ?case
  proof (cases "Role row = RoleWAN")
    case False
    with 2 show ?thesis by auto
  next
    case True
    let ?t = "tableFor (Slot row)" and ?n = "uplink_table_name (Slot row)"
    have real: "slot_real (Slot row)" "?t \<noteq> 0" "tables ?t = None"
      using 2(3) True tableFor_real by auto
    have fresh: "\<forall>r \<in> set rest. Role r = RoleWAN \<longrightarrow> slot_real (Slot r) \<and> (tables(?t \<mapsto> ?n)) (tableFor (Slot r)) = None"
    proof (intro ballI impI)
      fix r assume r: "r \<in> set rest" "Role r = RoleWAN"
      with 2(3) have s: "slot_real (Slot r)" "tables (tableFor (Slot r)) = None" by auto
      from r 2(4) True have "Slot r \<noteq> Slot row" by (auto simp: image_iff)
      with slot_table_inj [OF s(1) real(1)] have "tableFor (Slot r) \<noteq> ?t" by blast
      with s show "slot_real (Slot r) \<and> (tables(?t \<mapsto> ?n)) (tableFor (Slot r)) = None" by simp
    qed
    have "distinct (map Slot (filter (\<lambda>r. Role r = RoleWAN) rest))" using 2(4) True by simp
    moreover have "\<not> tables ?t \<noteq> None" using real(3) by simp
    ultimately obtain tables' where
      t: "render_tables (tables(?t \<mapsto> ?n)) rest = Inr tables'" "tables(?t \<mapsto> ?n) \<subseteq>\<^sub>m tables'"
      "\<forall>r \<in> set rest. Role r = RoleWAN \<longrightarrow> tables' (tableFor (Slot r)) = Some (uplink_table_name (Slot r))"
      using 2(1) [OF True refl real(2) _ fresh] by blast
    have "tables \<subseteq>\<^sub>m tables(?t \<mapsto> ?n)" using real(3) by (auto simp: map_le_def)
    with t(2) have "tables \<subseteq>\<^sub>m tables'" using map_le_trans by blast
    moreover have "tables' ?t = Some ?n" using map_le_Some [OF t(2), of ?t] by simp
    ultimately show ?thesis using t True real by auto
  qed
qed simp

text \<open>
  On a well-formed interface table the table plan never fails: every uplink gets a routing table
  of its own, named after its slot, and none of them is the pool's table or one of its slices.
\<close>

theorem render_tables_never_fails:
  assumes "rows_ok rows"
  shows "\<exists>tables. render_tables pool_tables rows = Inr tables
    \<and> (\<forall>r \<in> set rows. Role r = RoleWAN \<longrightarrow>
         pool_tables (tableFor (Slot r)) = None \<and> tables (tableFor (Slot r)) = Some (uplink_table_name (Slot r)))
    \<and> (\<forall>t n. pool_tables t = Some n \<longrightarrow> tables t = Some n)"
proof -
  have real: "\<forall>r \<in> set rows. Role r = RoleWAN \<longrightarrow> slot_real (Slot r) \<and> pool_tables (tableFor (Slot r)) = None"
    using assms by (auto simp: rows_ok_def slot_ok_def slot_real_def intro: pool_tables_free)
  have "inj_on Slot (set (filter (\<lambda>r. Role r = RoleWAN) rows))"
    using wan_slots_inj [OF assms] by (rule inj_on_subset) auto
  moreover have "distinct (filter (\<lambda>r. Role r = RoleWAN) rows)"
    using assms by (simp add: rows_ok_def distinct_map)
  ultimately have "distinct (map Slot (filter (\<lambda>r. Role r = RoleWAN) rows))" by (simp add: distinct_map)
  from render_tables_ok [OF real this] obtain tables where
    t: "render_tables pool_tables rows = Inr tables" "pool_tables \<subseteq>\<^sub>m tables"
    "\<forall>r \<in> set rows. Role r = RoleWAN \<longrightarrow> tables (tableFor (Slot r)) = Some (uplink_table_name (Slot r))" by blast
  then show ?thesis using real by (intro exI [of _ tables]) (auto dest: map_le_Some)
qed

theorem render_tables_never_fails_witness:
  "rows_ok example_rows \<and> (\<exists>tables. render_tables pool_tables example_rows = Inr tables)"
  using render_tables_never_fails [OF example_rows_ok'(1)] example_rows_ok'(1) by blast

end
