(* ===== verification/Nft_Ruleset.thy ===== *)
theory Nft_Ruleset
  imports Netmark Netip
begin

text \<open>
  The firewall table the panel owns, \<open>pkg/nft\<close>: the desired state (\<open>Ruleset\<close>), the script it renders to,
  the names it promises, and the manager that is the table's only writer. Rendering goes through the
  list of statements of each chain: \<open>show_chain\<close> and \<open>show_set\<close> print them as the code does, and the same
  statements are given the meaning the kernel gives them, so the theorems speak of packets and not of
  text. A chain judges a packet by its statements in order; \<open>accept\<close> and \<open>drop\<close> end the chain, setting a
  mark does not. The contents of a set with a timeout are filled at run time and are arbitrary.
\<close>

unbundle bit_operations_syntax

section \<open>The desired state\<close>

record nft_Pin =
  npIfName :: string
  npIndex :: u32

record nft_Set =
  nsName :: string
  nsFamily :: string
  nsInterval :: bool
  nsTimeout :: string
  nsElements :: "string list"

record LANClassify =
  lcBridge :: string
  DomesticV4Set :: string
  DomesticV6Set :: string
  DomainV4Set :: string
  DomainV6Set :: string

record FilterForward =
  ffBridge :: string
  ffUplinks :: "string list"

record nft_PortForward =
  nIfName :: string
  nProto :: string
  nDPort :: int
  nToAddr :: string
  nToPort :: int
  nComment :: string

record InputAccept =
  iaIfNames :: "string list"
  iaProto :: string
  iaPort :: int
  iaComment :: string

record FilterInput =
  LocalIfNames :: "string list"
  Accepts :: "InputAccept list"
  PortMapReplyIfNames :: "string list"
  PortMapReplyPort :: int

definition SetDoHBootstrap :: string where "SetDoHBootstrap = ''doh_bootstrap''"
definition SetProbePrefix :: string where "SetProbePrefix = ''probe_v4''"

definition ProbeSetName :: "u32 \<Rightarrow> string" where
  "ProbeSetName i = SetProbePrefix @ ''_'' @ dec (unat i)"

definition CounterDomestic :: string where "CounterDomestic = ''cnt_domestic''"
definition CounterForeign :: string where "CounterForeign = ''cnt_foreign''"
definition CounterKillSwitch :: string where "CounterKillSwitch = ''cnt_killswitch''"

record KillSwitchLeg =
  kIfName :: string
  kGatewayIP :: string
  kPinValue :: u32
  kProbeSet :: string
  kProbeIPs :: "string list"

record KillSwitch =
  Legs :: "KillSwitchLeg list"
  DishSubnet :: string
  MarkMask :: u32
  kBootstrapIPs :: "string list"
  ProbeMark :: u32
  PortmapMark :: u32

record Ruleset =
  Connmark :: bool
  Counters :: bool
  IngressPins :: "nft_Pin list"
  rsSets :: "nft_Set list"
  rsLANClassify :: "LANClassify option"
  Masquerade :: "string list"
  rsPortForwards :: "nft_PortForward list"
  rsFilterForward :: "FilterForward option"
  rsFilterInput :: "FilterInput option"
  rsKillSwitch :: "KillSwitch option"

definition zero_ruleset :: Ruleset where
  "zero_ruleset = \<lparr>Connmark = False, Counters = False, IngressPins = [], rsSets = [], rsLANClassify = None,
     Masquerade = [], rsPortForwards = [], rsFilterForward = None, rsFilterInput = None, rsKillSwitch = None\<rparr>"

definition IsZero :: "Ruleset \<Rightarrow> bool" where
  "IsZero r \<longleftrightarrow> \<not> Connmark r \<and> \<not> Counters r \<and> IngressPins r = [] \<and> rsSets r = [] \<and>
     rsLANClassify r = None \<and> Masquerade r = [] \<and> rsPortForwards r = [] \<and>
     rsFilterForward r = None \<and> rsFilterInput r = None \<and> rsKillSwitch r = None"

definition connmark :: "Ruleset \<Rightarrow> bool" where
  "connmark r \<longleftrightarrow> Connmark r \<or> IngressPins r \<noteq> []"

section \<open>Statements\<close>

datatype nmatch =
    IifName string | IifIn "string list" | OifName string | OifIn "string list" | OifNotIn "string list"
  | CtStateNew | CtEstablished | CtStatusDnat | CtMarkSet | MetaMark u32 u32 | MetaMarkSet u32
  | L4Udp | PortIs string bool int | UdpDportIn "int list" | DaddrSet bool string | Daddr string
  | FibLocal | IcmpLimited

datatype nact =
    Accept | Drop "string option" | CountIn string | PinCtMark u32 u32 | RestoreMark u32 | SaveMark u32
  | SetMark u32 u32 | DnatTo string int | Masq

datatype nline = Remark string | Blank | Stmt "nmatch list" nact

datatype nchain = Chain (cName: string) (cType: string) (cHook: string) (cPrio: string) (cDrops: bool) (cLines: "nline list")

subsection \<open>As text\<close>

definition tab :: string where "tab = [CHR 0x09]"
definition nl :: string where "nl = [CHR 0x0A]"

text \<open>\<open>%q\<close> on the names of network interfaces: the quote and the backslash are escaped.\<close>

definition quote :: "string \<Rightarrow> string" where
  "quote s = CHR 0x22 # concat (map (\<lambda>c. if c = CHR 0x22 \<or> c = CHR 0x5C then [CHR 0x5C, c] else [c]) s) @ [CHR 0x22]"

fun join_comma :: "string list \<Rightarrow> string" where
  "join_comma [] = []"
| "join_comma [x] = x"
| "join_comma (x # xs) = x @ '', '' @ join_comma xs"

definition quoteList :: "string list \<Rightarrow> string" where
  "quoteList names = join_comma (map quote names)"

fun show_match :: "nmatch \<Rightarrow> string" where
  "show_match (IifName n) = ''iifname '' @ quote n"
| "show_match (IifIn ns) = ''iifname { '' @ quoteList ns @ '' }''"
| "show_match (OifName n) = ''oifname '' @ quote n"
| "show_match (OifIn ns) = ''oifname { '' @ quoteList ns @ '' }''"
| "show_match (OifNotIn ns) = ''oifname != { '' @ quoteList ns @ '' }''"
| "show_match CtStateNew = ''ct state new''"
| "show_match CtEstablished = ''ct state established,related''"
| "show_match CtStatusDnat = ''ct status dnat''"
| "show_match CtMarkSet = ''ct mark != 0x0''"
| "show_match (MetaMark m v) = ''meta mark and '' @ Hex m @ '' == '' @ Hex v"
| "show_match (MetaMarkSet m) = ''meta mark and '' @ Hex m @ '' != 0x0''"
| "show_match L4Udp = ''meta l4proto udp''"
| "show_match (PortIs proto src n) = proto @ (if src then '' sport '' else '' dport '') @ dec_int n"
| "show_match (UdpDportIn ns) = ''udp dport { '' @ join_comma (map dec_int ns) @ '' }''"
| "show_match (DaddrSet v6 s) = (if v6 then ''ip6 daddr @'' else ''ip daddr @'') @ s"
| "show_match (Daddr a) = ''ip daddr '' @ a"
| "show_match FibLocal = ''fib daddr type local''"
| "show_match IcmpLimited = ''icmp type { echo-request, destination-unreachable, time-exceeded } '' @ [CHR 0x5C] @ nl
     @ tab @ tab @ tab @ ''limit rate 10/second''"

fun show_act :: "nact \<Rightarrow> string" where
  "show_act Accept = ''accept''"
| "show_act (Drop None) = ''drop''"
| "show_act (Drop (Some c)) = ''counter name '' @ c @ '' drop''"
| "show_act (CountIn c) = ''counter name '' @ c"
| "show_act (PinCtMark keep v) = ''ct mark set ct mark and '' @ Hex keep @ '' or '' @ Hex v"
| "show_act (RestoreMark m) = ''meta mark set ct mark and '' @ Hex m"
| "show_act (SaveMark m) = ''ct mark set meta mark and '' @ Hex m"
| "show_act (SetMark keep v) = ''meta mark set mark and '' @ Hex keep @ '' or '' @ Hex v"
| "show_act (DnatTo a n) = ''dnat ip to '' @ a @ '':'' @ dec_int n"
| "show_act Masq = ''masquerade''"

fun show_line :: "nline \<Rightarrow> string" where
  "show_line (Remark s) = tab @ tab @ ''# '' @ s @ nl"
| "show_line Blank = nl"
| "show_line (Stmt ms a) = tab @ tab @ concat (map (\<lambda>m. show_match m @ '' '') ms) @ show_act a @ nl"

definition show_chain :: "nchain \<Rightarrow> string" where
  "show_chain c = tab @ ''chain '' @ cName c @ '' {'' @ nl
     @ tab @ tab @ ''type '' @ cType c @ '' hook '' @ cHook c @ '' priority '' @ cPrio c @ ''; policy ''
     @ (if cDrops c then ''drop'' else ''accept'') @ '';'' @ nl
     @ concat (map show_line (cLines c)) @ tab @ ''}'' @ nl"

definition show_set :: "nft_Set \<Rightarrow> string" where
  "show_set s = tab @ ''set '' @ nsName s @ '' {'' @ nl @ tab @ tab @ ''type '' @ nsFamily s @ nl
     @ (if nsInterval s then tab @ tab @ ''flags interval'' @ nl @ tab @ tab @ ''auto-merge'' @ nl else [])
     @ (if nsTimeout s \<noteq> [] then tab @ tab @ ''flags timeout'' @ nl @ tab @ tab @ ''timeout '' @ nsTimeout s @ nl else [])
     @ (if nsElements s \<noteq> [] then tab @ tab @ ''elements = { '' @ join_comma (nsElements s) @ '' }'' @ nl else [])
     @ tab @ ''}'' @ nl"

section \<open>The chains\<close>

definition em_dash :: string where "em_dash = [CHR 0xE2, CHR 0x80, CHR 0x94]"

definition probed :: "KillSwitchLeg \<Rightarrow> bool" where
  "probed leg \<longleftrightarrow> \<not> (kProbeSet leg = [] \<or> kProbeIPs leg = [])"

definition declared_sets :: "Ruleset \<Rightarrow> nft_Set list" where
  "declared_sets r = rsSets r @ (case rsKillSwitch r of None \<Rightarrow> [] | Some k \<Rightarrow>
     (if kBootstrapIPs k \<noteq> [] then [\<lparr>nsName = SetDoHBootstrap, nsFamily = ''ipv4_addr'', nsInterval = False, nsTimeout = [],
        nsElements = kBootstrapIPs k\<rparr>] else [])
     @ (if ProbeMark k \<noteq> 0 then map (\<lambda>leg. \<lparr>nsName = kProbeSet leg, nsFamily = ''ipv4_addr'', nsInterval = False, nsTimeout = [],
        nsElements = kProbeIPs leg\<rparr>) (filter probed (Legs k)) else []))"

definition renderSets :: "Ruleset \<Rightarrow> string" where
  "renderSets r = concat (map show_set (declared_sets r))"

definition CounterNames :: "Ruleset \<Rightarrow> string list" where
  "CounterNames r = (if Counters r then [CounterDomestic, CounterForeign, CounterKillSwitch] else [])"

definition renderCountersDecl :: "Ruleset \<Rightarrow> string" where
  "renderCountersDecl r = (if \<not> Counters r then [] else
     concat (map (\<lambda>n. tab @ ''counter '' @ n @ '' {'' @ nl @ tab @ ''}'' @ nl) [CounterDomestic, CounterForeign, CounterKillSwitch]))"

definition renderLANClassify :: "LANClassify option \<Rightarrow> nline list" where
  "renderLANClassify lc = (case lc of None \<Rightarrow> [] | Some c \<Rightarrow>
     (let keep = NOT MaskGroup; domestic = GroupMark GroupDomestic; foreign = GroupMark GroupForeign in
      [Blank, Remark (''LAN classification '' @ em_dash @ '' kernel-only, so it survives an xray''),
       Remark ''restart. Two layers: geoip prefixes as the floor, then'',
       Remark ''dnsmasq-populated domain sets, then a foreign catch-all.'']
      @ concat (map (\<lambda>(s, v6). if s = [] then [] else [Stmt [IifName (lcBridge c), DaddrSet v6 s] (SetMark keep domestic)])
          [(DomesticV4Set c, False), (DomainV4Set c, False), (DomesticV6Set c, True), (DomainV6Set c, True)])
      @ [Stmt [IifName (lcBridge c), MetaMark MaskGroup 0] (SetMark keep foreign)]))"

definition mangle_pre :: "Ruleset \<Rightarrow> nchain option" where
  "mangle_pre r = (if \<not> connmark r \<and> rsLANClassify r = None then None
     else Some (Chain ''mangle_pre'' ''filter'' ''prerouting'' ''mangle'' False
       (map (\<lambda>p. Stmt [IifName (npIfName p), CtStateNew] (PinCtMark (NOT MaskPin) (PinMark (npIndex p)))) (IngressPins r)
        @ (if connmark r then [Stmt [CtMarkSet] (RestoreMark MaskAll)] else [])
        @ renderLANClassify (rsLANClassify r))))"

definition nat_pre_chain :: "Ruleset \<Rightarrow> nchain option" where
  "nat_pre_chain r = (if rsPortForwards r = [] then None
     else Some (Chain ''nat_pre'' ''nat'' ''prerouting'' ''dstnat'' False
       ([Blank, Remark (''`fib daddr type local` means '' @ quote ''addressed to this box'' @ '', which is''),
         Remark ''exactly what a port forward is, and it survives a DHCP renewal.'',
         Remark ''Paired with iifname it also refuses to fire on transit traffic.'']
        @ concat (map (\<lambda>pf. (if nComment pf \<noteq> [] then [Remark (nComment pf)] else [])
            @ [Stmt [FibLocal, IifName (nIfName pf), PortIs (nProto pf) False (nDPort pf)] (DnatTo (nToAddr pf) (nToPort pf))])
          (rsPortForwards r)))))"

definition filter_fwd :: "Ruleset \<Rightarrow> nchain option" where
  "filter_fwd r = (case rsFilterForward r of None \<Rightarrow> None | Some f \<Rightarrow>
     Some (Chain ''filter_fwd'' ''filter'' ''forward'' ''filter'' True
       [Blank, Remark ''LAN isolation. Closes the hole where any host on the domestic'',
        Remark (''segment can add a route and reach the LAN directly '' @ em_dash @ '' DNAT is not''),
        Remark ''the only way in.'',
        Stmt [CtEstablished] Accept,
        Stmt [IifName (ffBridge f), OifIn (ffUplinks f)] Accept,
        Stmt [CtStatusDnat] Accept]))"

definition input_accept :: "InputAccept \<Rightarrow> nline list" where
  "input_accept a = (if iaComment a \<noteq> [] then [Remark (iaComment a)] else [])
     @ [Stmt [case iaIfNames a of [n] \<Rightarrow> IifName n | ns \<Rightarrow> IifIn ns, PortIs (iaProto a) False (iaPort a)] Accept]"

definition filter_in_chain :: "FilterInput \<Rightarrow> nchain" where
  "filter_in_chain f = Chain ''filter_in'' ''filter'' ''input'' ''filter'' True
       ([Blank, Stmt [CtEstablished] Accept]
        @ (if LocalIfNames f \<noteq> [] then [Stmt [IifIn (LocalIfNames f)] Accept] else [])
        @ [Stmt [IcmpLimited] Accept, Blank,
           Remark ''Every accept below is RENDERED from the same rows that generate'',
           Remark ''the xray config and the port forwards. A hand-maintained port list'',
           Remark ''would silently kill somebody's VPN.'']
        @ (if PortMapReplyIfNames f \<noteq> [] \<and> PortMapReplyPort f > 0 then
             [Blank, Remark ''The upstream router's answers to our own port-mapping requests.'',
              Remark ''Only this one port, and only while the mapper is asking: some'',
              Remark ''routers reply from a port conntrack cannot match to the search.'',
              Stmt [IifIn (PortMapReplyIfNames f), PortIs ''udp'' False (PortMapReplyPort f)] Accept] else [])
        @ concat (map input_accept (Accepts f)))"

definition filter_in :: "Ruleset \<Rightarrow> nchain option" where
  "filter_in r = (case rsFilterInput r of None \<Rightarrow> None | Some f \<Rightarrow> Some (filter_in_chain f))"

definition renderDrop :: "Ruleset \<Rightarrow> nline" where
  "renderDrop r = Stmt [] (Drop (if Counters r then Some CounterKillSwitch else None))"

definition leg_pinned :: "KillSwitch \<Rightarrow> KillSwitchLeg \<Rightarrow> nmatch list" where
  "leg_pinned k leg = [OifName (kIfName leg), MetaMark (MarkMask k) (kPinValue leg)]"

definition exemptions :: "KillSwitch \<Rightarrow> nline list" where
  "exemptions k =
     (if MarkMask k \<noteq> 0 then
        [Blank, Remark ''Each leg's own transport, and only its own. This is the point.'']
        @ map (\<lambda>leg. Stmt (leg_pinned k leg @ [L4Udp]) Accept) (Legs k)
        @ (if kBootstrapIPs k \<noteq> [] then
             [Blank, Remark ''Resolving the endpoint hostname needs a resolver, and the only'',
              Remark ''one reachable before the tunnel is up is out here. Fixed'',
              Remark ''addresses over DoH: an editable list would be an editable hole.'']
             @ map (\<lambda>leg. Stmt (leg_pinned k leg @ [PortIs ''tcp'' False 443, DaddrSet False SetDoHBootstrap]) Accept) (Legs k)
           else [])
      else [])
     @ (if ProbeMark k \<noteq> 0 \<and> filter probed (Legs k) \<noteq> [] then
          [Blank, Remark ''The health probe measuring this uplink, and only the'',
           Remark ''destinations this line is checked against.'']
          @ map (\<lambda>leg. Stmt [OifName (kIfName leg), MetaMark MaskPin (ProbeMark k), DaddrSet False (kProbeSet leg)] Accept)
              (filter probed (Legs k))
        else [])
     @ (if PortmapMark k \<noteq> 0 then
          [Blank, Remark ''Asking the upstream router to forward ports here.'',
           Stmt [MetaMark MaskPin (PortmapMark k), UdpDportIn [1900, 5351]] Accept] else [])
     @ [Blank, Remark ''Link-scoped only: a lease, each gateway the health probe pings,'',
        Remark ''and the dish's own management address.'',
        Stmt [PortIs ''udp'' True 68, PortIs ''udp'' False 67] Accept]
     @ map (\<lambda>leg. Stmt [OifName (kIfName leg), Daddr (kGatewayIP leg)] Accept) (filter (\<lambda>leg. kGatewayIP leg \<noteq> []) (Legs k))
     @ (if DishSubnet k \<noteq> [] then [Stmt [Daddr (DishSubnet k)] Accept] else [])"

definition killswitch_out :: "Ruleset \<Rightarrow> KillSwitch \<Rightarrow> nchain" where
  "killswitch_out r k = Chain ''killswitch_out'' ''filter'' ''output'' ''filter + 10'' False
     ([Blank, Remark ''Nothing this box originates may leave a secondary uplink in the'',
       Remark ''clear. Everything accepted below is either a tunnel's own crypto'',
       Remark ''or link-scoped, so none of it can carry payload to the internet.'',
       Stmt [OifNotIn (map kIfName (Legs k))] Accept,
       Blank, Remark (''Replies to flows that arrived here '' @ em_dash @ '' an inbound VPN user over the''),
       Remark ''dish. An outbound flow's first packet never leaves, so it can'',
       Remark ''never become established through this.'',
       Stmt [CtEstablished] Accept]
      @ exemptions k @ [renderDrop r])"

definition killswitch_fwd :: "Ruleset \<Rightarrow> KillSwitch \<Rightarrow> nchain" where
  "killswitch_fwd r k = Chain ''killswitch_fwd'' ''filter'' ''forward'' ''filter + 10'' False
     ([Blank, Remark ''The same rule for traffic passing through: a LAN host must not'',
       Remark ''reach the internet over a raw uplink either.'',
       Stmt [OifNotIn (map kIfName (Legs k))] Accept,
       Stmt [CtEstablished] Accept]
      @ (if DishSubnet k \<noteq> [] then [Stmt [Daddr (DishSubnet k)] Accept] else [])
      @ [renderDrop r])"

definition kill_switch_chains :: "Ruleset \<Rightarrow> nchain list" where
  "kill_switch_chains r = (case rsKillSwitch r of None \<Rightarrow> [] | Some k \<Rightarrow>
     if Legs k = [] then [] else [killswitch_out r k, killswitch_fwd r k])"

definition mangle_post :: "Ruleset \<Rightarrow> nchain option" where
  "mangle_post r = (if \<not> connmark r \<and> \<not> Counters r then None
     else Some (Chain ''mangle_post'' ''filter'' ''postrouting'' ''mangle'' False
       ((if connmark r then [Stmt [MetaMarkSet MaskAll] (SaveMark MaskAll)] else [])
        @ (if Counters r then
             [Stmt [MetaMark MaskGroup (GroupMark GroupDomestic)] (CountIn CounterDomestic),
              Stmt [MetaMark MaskGroup (GroupMark GroupForeign)] (CountIn CounterForeign)] else []))))"

definition nat_post :: "Ruleset \<Rightarrow> nchain option" where
  "nat_post r = (if Masquerade r = [] then None
     else Some (Chain ''nat_post'' ''nat'' ''postrouting'' ''srcnat'' False [Stmt [OifIn (Masquerade r)] Masq]))"

section \<open>The script\<close>

definition chain_text :: "nchain option \<Rightarrow> string" where
  "chain_text c = (case c of None \<Rightarrow> [] | Some c \<Rightarrow> show_chain c)"

definition renderKillSwitch :: "Ruleset \<Rightarrow> string" where
  "renderKillSwitch r = (case rsKillSwitch r of None \<Rightarrow> [] | Some k \<Rightarrow>
     if Legs k = [] then [] else show_chain (killswitch_out r k) @ nl @ show_chain (killswitch_fwd r k))"

fun join_sections :: "bool \<Rightarrow> string list \<Rightarrow> string" where
  "join_sections first [] = []"
| "join_sections first (s # ss) =
     (if s = [] then join_sections first ss else (if first then [] else nl) @ s @ join_sections False ss)"

definition Render :: "Ruleset \<Rightarrow> string" where
  "Render r = ''table inet nasnet'' @ nl @ ''delete table inet nasnet'' @ nl @ ''table inet nasnet {'' @ nl
     @ join_sections True [renderSets r, renderCountersDecl r, chain_text (mangle_pre r), chain_text (nat_pre_chain r),
         chain_text (filter_in r), chain_text (filter_fwd r), renderKillSwitch r, chain_text (mangle_post r), chain_text (nat_post r)]
     @ ''}'' @ nl"

definition ChainNames :: "Ruleset \<Rightarrow> string list" where
  "ChainNames r =
     (if connmark r \<or> rsLANClassify r \<noteq> None then [''mangle_pre''] else [])
     @ (if rsPortForwards r \<noteq> [] then [''nat_pre''] else [])
     @ (if rsFilterInput r \<noteq> None then [''filter_in''] else [])
     @ (if rsFilterForward r \<noteq> None then [''filter_fwd''] else [])
     @ (case rsKillSwitch r of None \<Rightarrow> [] | Some k \<Rightarrow> if Legs k \<noteq> [] then [''killswitch_out'', ''killswitch_fwd''] else [])
     @ (if connmark r \<or> Counters r then [''mangle_post''] else [])
     @ (if Masquerade r \<noteq> [] then [''nat_post''] else [])"

definition SetNames :: "Ruleset \<Rightarrow> string list" where
  "SetNames r = map nsName (rsSets r) @ (case rsKillSwitch r of None \<Rightarrow> [] | Some k \<Rightarrow>
     (if kBootstrapIPs k \<noteq> [] then [SetDoHBootstrap] else [])
     @ (if ProbeMark k \<noteq> 0 then map kProbeSet (filter (\<lambda>leg. kProbeSet leg \<noteq> [] \<and> kProbeIPs leg \<noteq> []) (Legs k)) else []))"


section \<open>What the kernel does with a packet\<close>

record packet =
  pkIif :: string
  pkOif :: string
  pkMark :: u32
  pkCtMark :: u32
  pkEstablished :: bool
  pkDnat :: bool
  pkProto :: string
  pkSport :: int
  pkDport :: int
  pkDst :: "32 word"
  pkLocal :: bool
  pkIcmp :: bool

text \<open>An address or a prefix, as \<open>ip daddr\<close> and the elements of a set write it.\<close>

definition addr_matches :: "string \<Rightarrow> 32 word \<Rightarrow> bool" where
  "addr_matches a d = (case parse_prefix a of Some p \<Rightarrow> prefix_contains p (V4 d) | None \<Rightarrow> parse_addr a = Some (V4 d))"

definition in_set :: "(string \<Rightarrow> 32 word \<Rightarrow> bool) \<Rightarrow> Ruleset \<Rightarrow> string \<Rightarrow> 32 word \<Rightarrow> bool" where
  "in_set dyn r s d = list_ex (\<lambda>x. nsName x = s \<and>
     (list_ex (\<lambda>e. addr_matches e d) (nsElements x) \<or> nsTimeout x \<noteq> [] \<and> dyn s d)) (declared_sets r)"

fun matches :: "(string \<Rightarrow> 32 word \<Rightarrow> bool) \<Rightarrow> packet \<Rightarrow> nmatch \<Rightarrow> bool" where
  "matches S p (IifName n) \<longleftrightarrow> pkIif p = n"
| "matches S p (IifIn ns) \<longleftrightarrow> pkIif p \<in> set ns"
| "matches S p (OifName n) \<longleftrightarrow> pkOif p = n"
| "matches S p (OifIn ns) \<longleftrightarrow> pkOif p \<in> set ns"
| "matches S p (OifNotIn ns) \<longleftrightarrow> pkOif p \<notin> set ns"
| "matches S p CtStateNew \<longleftrightarrow> \<not> pkEstablished p"
| "matches S p CtEstablished \<longleftrightarrow> pkEstablished p"
| "matches S p CtStatusDnat \<longleftrightarrow> pkDnat p"
| "matches S p CtMarkSet \<longleftrightarrow> pkCtMark p \<noteq> 0"
| "matches S p (MetaMark m v) \<longleftrightarrow> pkMark p AND m = v"
| "matches S p (MetaMarkSet m) \<longleftrightarrow> pkMark p AND m \<noteq> 0"
| "matches S p L4Udp \<longleftrightarrow> pkProto p = ''udp''"
| "matches S p (PortIs proto src n) \<longleftrightarrow> pkProto p = proto \<and> (if src then pkSport p else pkDport p) = n"
| "matches S p (UdpDportIn ns) \<longleftrightarrow> pkProto p = ''udp'' \<and> pkDport p \<in> set ns"
| "matches S p (DaddrSet v6 s) \<longleftrightarrow> \<not> v6 \<and> S s (pkDst p)"
| "matches S p (Daddr a) \<longleftrightarrow> addr_matches a (pkDst p)"
| "matches S p FibLocal \<longleftrightarrow> pkLocal p"
| "matches S p IcmpLimited \<longleftrightarrow> pkIcmp p"

definition dnat_packet :: "string \<Rightarrow> int \<Rightarrow> packet \<Rightarrow> packet" where
  "dnat_packet a n p = p\<lparr>pkDst := (case parse_addr a of Some (V4 w) \<Rightarrow> w | _ \<Rightarrow> pkDst p), pkDport := n, pkDnat := True\<rparr>"

text \<open>The verdict, none when the policy decides, and the packet with the marks the chain gave it.\<close>

fun run :: "(string \<Rightarrow> 32 word \<Rightarrow> bool) \<Rightarrow> nline list \<Rightarrow> packet \<Rightarrow> bool option \<times> packet" where
  "run S [] p = (None, p)"
| "run S (Remark _ # ls) p = run S ls p"
| "run S (Blank # ls) p = run S ls p"
| "run S (Stmt ms a # ls) p =
     (if \<not> list_all (matches S p) ms then run S ls p
      else case a of
          Accept \<Rightarrow> (Some True, p)
        | Drop _ \<Rightarrow> (Some False, p)
        | CountIn _ \<Rightarrow> run S ls p
        | PinCtMark keep v \<Rightarrow> run S ls (p\<lparr>pkCtMark := (pkCtMark p AND keep) OR v\<rparr>)
        | RestoreMark m \<Rightarrow> run S ls (p\<lparr>pkMark := pkCtMark p AND m\<rparr>)
        | SaveMark m \<Rightarrow> run S ls (p\<lparr>pkCtMark := pkMark p AND m\<rparr>)
        | SetMark keep v \<Rightarrow> run S ls (p\<lparr>pkMark := (pkMark p AND keep) OR v\<rparr>)
        | DnatTo addr n \<Rightarrow> (Some True, dnat_packet addr n p)
        | Masq \<Rightarrow> (Some True, p))"

definition chain_passes :: "(string \<Rightarrow> 32 word \<Rightarrow> bool) \<Rightarrow> nchain \<Rightarrow> packet \<Rightarrow> bool" where
  "chain_passes S c p = (case fst (run S (cLines c) p) of Some b \<Rightarrow> b | None \<Rightarrow> \<not> cDrops c)"

definition chain_packet :: "(string \<Rightarrow> 32 word \<Rightarrow> bool) \<Rightarrow> nchain option \<Rightarrow> packet \<Rightarrow> packet" where
  "chain_packet S c p = (case c of None \<Rightarrow> p | Some c \<Rightarrow> snd (run S (cLines c) p))"

text \<open>Every base chain of a hook has to let the packet pass; an absent chain does.\<close>

definition hook_passes :: "(string \<Rightarrow> 32 word \<Rightarrow> bool) \<Rightarrow> nchain list \<Rightarrow> string \<Rightarrow> packet \<Rightarrow> bool" where
  "hook_passes S cs h p = list_all (\<lambda>c. chain_passes S c p) (filter (\<lambda>c. cHook c = h) cs)"

definition opt_list :: "'a option \<Rightarrow> 'a list" where
  "opt_list x = (case x of None \<Rightarrow> [] | Some y \<Rightarrow> [y])"

definition nft_chains :: "Ruleset \<Rightarrow> nchain list" where
  "nft_chains r = opt_list (mangle_pre r) @ opt_list (nat_pre_chain r) @ opt_list (filter_in r) @ opt_list (filter_fwd r)
     @ kill_switch_chains r @ opt_list (mangle_post r) @ opt_list (nat_post r)"

section \<open>Running a chain of filters\<close>

text \<open>A chain that only accepts, up to its last line: what it lets through is a disjunction.\<close>

fun accepts_of :: "nline list \<Rightarrow> nmatch list list" where
  "accepts_of [] = []"
| "accepts_of (Stmt ms Accept # ls) = ms # accepts_of ls"
| "accepts_of (_ # ls) = accepts_of ls"

fun only_accepts :: "nline list \<Rightarrow> bool" where
  "only_accepts [] = True"
| "only_accepts (Stmt ms a # ls) = (a = Accept \<and> only_accepts ls)"
| "only_accepts (_ # ls) = only_accepts ls"

lemma only_accepts_append [simp]: "only_accepts (xs @ ys) \<longleftrightarrow> only_accepts xs \<and> only_accepts ys"
  by (induction xs rule: only_accepts.induct) auto

lemma only_accepts_map [simp]: "only_accepts (map (\<lambda>x. Stmt (f x) Accept) xs)"
  by (induction xs) auto

lemma accepts_of_append [simp]: "accepts_of (xs @ ys) = accepts_of xs @ accepts_of ys"
  by (induction xs rule: accepts_of.induct) auto

lemma accepts_of_map [simp]: "accepts_of (map (\<lambda>x. Stmt (f x) Accept) xs) = map f xs"
  by (induction xs) auto

lemma only_accepts_concat [simp]: "only_accepts (concat xss) \<longleftrightarrow> list_all only_accepts xss"
  by (induction xss) auto

lemma accepts_of_concat [simp]: "accepts_of (concat xss) = concat (map accepts_of xss)"
  by (induction xss) auto

definition taken :: "(string \<Rightarrow> 32 word \<Rightarrow> bool) \<Rightarrow> packet \<Rightarrow> nline list \<Rightarrow> bool" where
  "taken S p ls \<longleftrightarrow> (\<exists>ms \<in> set (accepts_of ls). list_all (matches S p) ms)"

lemma run_accepts:
  "only_accepts ls \<Longrightarrow> run S (ls @ rest) p = (if taken S p ls then (Some True, p) else run S rest p)"
  by (induction ls rule: only_accepts.induct) (auto simp: taken_def)

lemma taken_append [simp]: "taken S p (xs @ ys) \<longleftrightarrow> taken S p xs \<or> taken S p ys"
  by (auto simp: taken_def)

lemma taken_simps [simp]:
  "\<not> taken S p []" "taken S p (Remark c # ls) = taken S p ls" "taken S p (Blank # ls) = taken S p ls"
  "taken S p (Stmt ms Accept # ls) \<longleftrightarrow> list_all (matches S p) ms \<or> taken S p ls"
  "taken S p (map (\<lambda>x. Stmt (f x) Accept) xs) \<longleftrightarrow> (\<exists>x \<in> set xs. list_all (matches S p) (f x))"
  by (auto simp: taken_def)

lemma accepting_chain_passes:
  "only_accepts ls \<Longrightarrow> chain_passes S (Chain n t h q True ls) p \<longleftrightarrow> taken S p ls"
  "only_accepts ls \<Longrightarrow> chain_passes S (Chain n t h q False (ls @ [Stmt [] (Drop d)])) p \<longleftrightarrow> taken S p ls"
  using run_accepts [of ls S "[]" p] run_accepts [of ls S "[Stmt [] (Drop d)]" p] by (simp_all add: chain_passes_def)

section \<open>The kill switch\<close>

text \<open>What may leave a secondary uplink in the clear, as a predicate on packets.\<close>

definition exempt :: "(string \<Rightarrow> 32 word \<Rightarrow> bool) \<Rightarrow> KillSwitch \<Rightarrow> packet \<Rightarrow> bool" where
  "exempt S k p \<longleftrightarrow>
     MarkMask k \<noteq> 0 \<and> (\<exists>leg \<in> set (Legs k). pkOif p = kIfName leg \<and> pkMark p AND MarkMask k = kPinValue leg \<and>
        (pkProto p = ''udp'' \<or> kBootstrapIPs k \<noteq> [] \<and> pkProto p = ''tcp'' \<and> pkDport p = 443 \<and> S SetDoHBootstrap (pkDst p)))
     \<or> ProbeMark k \<noteq> 0 \<and> (\<exists>leg \<in> set (Legs k). probed leg \<and> pkOif p = kIfName leg \<and> pkMark p AND MaskPin = ProbeMark k
        \<and> S (kProbeSet leg) (pkDst p))
     \<or> PortmapMark k \<noteq> 0 \<and> pkMark p AND MaskPin = PortmapMark k \<and> pkProto p = ''udp'' \<and> pkDport p \<in> {1900, 5351}
     \<or> pkProto p = ''udp'' \<and> pkSport p = 68 \<and> pkDport p = 67
     \<or> (\<exists>leg \<in> set (Legs k). kGatewayIP leg \<noteq> [] \<and> pkOif p = kIfName leg \<and> addr_matches (kGatewayIP leg) (pkDst p))
     \<or> DishSubnet k \<noteq> [] \<and> addr_matches (DishSubnet k) (pkDst p)"

lemma exemptions_only_accept [simp]: "only_accepts (exemptions k)"
  by (auto simp: exemptions_def)

lemma taken_exemptions: "taken S p (exemptions k) \<longleftrightarrow> exempt S k p"
  unfolding exemptions_def exempt_def taken_append
  by (intro arg_cong2 [where f = "(\<or>)"]) (auto simp: leg_pinned_def filter_empty_conv)

lemma killswitch_out_passes:
  "chain_passes S (killswitch_out r k) p \<longleftrightarrow> pkOif p \<notin> kIfName ` set (Legs k) \<or> pkEstablished p \<or> exempt S k p"
  unfolding killswitch_out_def renderDrop_def append_assoc [symmetric]
  by (subst accepting_chain_passes(2)) (auto simp: taken_exemptions)

lemma killswitch_fwd_passes:
  "chain_passes S (killswitch_fwd r k) p \<longleftrightarrow> pkOif p \<notin> kIfName ` set (Legs k) \<or> pkEstablished p
     \<or> DishSubnet k \<noteq> [] \<and> addr_matches (DishSubnet k) (pkDst p)"
  unfolding killswitch_fwd_def renderDrop_def append_assoc [symmetric]
  by (subst accepting_chain_passes(2)) auto


section \<open>The script has the chains and the sets it promises\<close>

lemma show_chain_not_empty [simp]: "show_chain c \<noteq> []"
  by (simp add: show_chain_def tab_def)

lemma join_sections_append:
  "join_sections b (xs @ ys) = join_sections b xs @ join_sections (b \<and> list_all (\<lambda>s. s = []) xs) ys"
  by (induction xs arbitrary: b) auto

text \<open>A section and the chains it is the text of.\<close>

definition pieces :: "string \<Rightarrow> nchain list \<Rightarrow> bool" where
  "pieces s cs \<longleftrightarrow> (\<forall>b ss. join_sections b (s # ss) = join_sections b (map show_chain cs @ ss))"

lemma pieces_chain: "pieces (chain_text c) (opt_list c)"
  by (cases c) (simp_all add: pieces_def chain_text_def opt_list_def)

lemma pieces_kill_switch: "pieces (renderKillSwitch r) (kill_switch_chains r)"
  by (simp add: pieces_def renderKillSwitch_def kill_switch_chains_def split: option.split)

lemma join_sections_pieces:
  "list_all2 pieces ss css \<Longrightarrow> join_sections b ss = join_sections b (map show_chain (concat css))"
proof (induction arbitrary: b rule: list_all2_induct)
  case (Cons s ss cs css)
  then show ?case by (simp add: pieces_def join_sections_append del: join_sections.simps(2))
qed simp

lemma Render_chains:
  "Render r = ''table inet nasnet'' @ nl @ ''delete table inet nasnet'' @ nl @ ''table inet nasnet {'' @ nl
     @ join_sections True (renderSets r # renderCountersDecl r # map show_chain (nft_chains r)) @ ''}'' @ nl"
proof -
  have "list_all2 pieces
      [chain_text (mangle_pre r), chain_text (nat_pre_chain r), chain_text (filter_in r), chain_text (filter_fwd r),
       renderKillSwitch r, chain_text (mangle_post r), chain_text (nat_post r)]
      [opt_list (mangle_pre r), opt_list (nat_pre_chain r), opt_list (filter_in r), opt_list (filter_fwd r),
       kill_switch_chains r, opt_list (mangle_post r), opt_list (nat_post r)]"
    by (simp add: pieces_chain pieces_kill_switch)
  from join_sections_pieces [OF this] show ?thesis
    unfolding Render_def nft_chains_def by (simp only: join_sections.simps concat.simps append_Nil2 append_assoc)
qed

lemma ChainNames_chains: "map cName (nft_chains r) = ChainNames r"
  unfolding nft_chains_def ChainNames_def map_append
  by (intro arg_cong2 [where f = "(@)"])
    (auto simp: opt_list_def mangle_pre_def nat_pre_chain_def filter_in_def filter_in_chain_def filter_fwd_def kill_switch_chains_def
      killswitch_out_def killswitch_fwd_def mangle_post_def nat_post_def split: option.split)

lemma probed_alt: "probed = (\<lambda>leg. kProbeSet leg \<noteq> [] \<and> kProbeIPs leg \<noteq> [])"
  by (simp add: fun_eq_iff probed_def)

lemma SetNames_declared: "map nsName (declared_sets r) = SetNames r"
  by (simp add: declared_sets_def SetNames_def probed_alt comp_def split: option.split)

lemma ChainNames_distinct: "distinct (ChainNames r)"
  by (auto simp: ChainNames_def split: option.split)

text \<open>
  C15. The script loads the chains and the sets it promises, and no other. \<open>Render\<close> is the set and counter
  declarations followed by the text of the chains of the table, one section each, for every desired
  state; \<open>ChainNames\<close> lists exactly those chains in that order, each once, and \<open>SetNames\<close> exactly the sets
  declared, so the comparison of the live table with the wanted one looks for the right names.
\<close>

theorem script_keeps_its_promises:
  "Render r = ''table inet nasnet'' @ nl @ ''delete table inet nasnet'' @ nl @ ''table inet nasnet {'' @ nl
     @ join_sections True (concat (map show_set (declared_sets r)) # renderCountersDecl r # map show_chain (nft_chains r)) @ ''}'' @ nl
   \<and> ChainNames r = map cName (nft_chains r) \<and> distinct (ChainNames r) \<and> SetNames r = map nsName (declared_sets r)"
  using Render_chains [of r] ChainNames_chains [of r] SetNames_declared [of r] ChainNames_distinct [of r]
  by (simp add: renderSets_def)

section \<open>Every name a rule uses is declared\<close>

fun match_set :: "nmatch \<Rightarrow> string list" where
  "match_set (DaddrSet _ s) = [s]"
| "match_set _ = []"

fun act_counter :: "nact \<Rightarrow> string list" where
  "act_counter (Drop (Some c)) = [c]"
| "act_counter (CountIn c) = [c]"
| "act_counter _ = []"

fun line_ok :: "Ruleset \<Rightarrow> nline \<Rightarrow> bool" where
  "line_ok r (Stmt ms a) = (list_all (\<lambda>m. list_all (\<lambda>s. s \<in> set (SetNames r)) (match_set m)) ms
     \<and> list_all (\<lambda>c. c \<in> set (CounterNames r)) (act_counter a))"
| "line_ok r _ = True"

text \<open>A rule that names a set or a counter the table does not declare aborts the whole transaction.\<close>

definition loadable :: "Ruleset \<Rightarrow> bool" where
  "loadable r = list_all (\<lambda>c. list_all (line_ok r) (cLines c)) (nft_chains r)"

definition classify_declared :: "Ruleset \<Rightarrow> bool" where
  "classify_declared r = (case rsLANClassify r of None \<Rightarrow> True | Some c \<Rightarrow>
     list_all (\<lambda>s. s = [] \<or> s \<in> nsName ` set (rsSets r)) [DomesticV4Set c, DomainV4Set c, DomesticV6Set c, DomainV6Set c])"

lemma exemptions_line_ok:
  "rsKillSwitch r = Some k \<Longrightarrow> list_all (line_ok r) (exemptions k)"
  unfolding exemptions_def
  by (auto simp: SetNames_def leg_pinned_def list_all_iff probed_def)

lemma input_accept_ok: "list_all (line_ok r) (input_accept a)"
  by (simp add: input_accept_def split: list.split)

lemma classify_lines_ok: "classify_declared r \<Longrightarrow> list_all (line_ok r) (renderLANClassify (rsLANClassify r))"
  by (cases "rsLANClassify r") (auto simp: renderLANClassify_def classify_declared_def SetNames_def Let_def)

lemma chain_lines_ok:
  "nat_pre_chain r = Some c \<Longrightarrow> list_all (line_ok r) (cLines c)"
  "filter_in r = Some c \<Longrightarrow> list_all (line_ok r) (cLines c)"
  "filter_fwd r = Some c \<Longrightarrow> list_all (line_ok r) (cLines c)"
  "mangle_post r = Some c \<Longrightarrow> list_all (line_ok r) (cLines c)"
  "nat_post r = Some c \<Longrightarrow> list_all (line_ok r) (cLines c)"
  "c \<in> set (kill_switch_chains r) \<Longrightarrow> list_all (line_ok r) (cLines c)"
  "mangle_pre r = Some c \<Longrightarrow> classify_declared r \<Longrightarrow> list_all (line_ok r) (cLines c)"
proof -
  show "list_all (line_ok r) (cLines c)" if "nat_pre_chain r = Some c"
    using that by (auto simp: nat_pre_chain_def list_all_iff split: if_splits)
  show "list_all (line_ok r) (cLines c)" if "filter_in r = Some c"
    using that input_accept_ok by (auto simp: filter_in_def filter_in_chain_def list_all_iff split: option.splits)
  show "list_all (line_ok r) (cLines c)" if "filter_fwd r = Some c"
    using that by (auto simp: filter_fwd_def split: option.splits)
  show "list_all (line_ok r) (cLines c)" if "mangle_post r = Some c"
    using that by (auto simp: mangle_post_def CounterNames_def split: if_splits)
  show "list_all (line_ok r) (cLines c)" if "nat_post r = Some c"
    using that by (auto simp: nat_post_def split: if_splits)
  show "list_all (line_ok r) (cLines c)" if "c \<in> set (kill_switch_chains r)"
    using that exemptions_line_ok [of r]
    by (auto simp: kill_switch_chains_def killswitch_out_def killswitch_fwd_def renderDrop_def CounterNames_def split: option.splits if_splits)
  show "list_all (line_ok r) (cLines c)" if "mangle_pre r = Some c" "classify_declared r"
    using that(1) classify_lines_ok [OF that(2)] by (auto simp: mangle_pre_def list_all_iff split: if_splits)
qed

lemma set_opt_list [simp]: "c \<in> set (opt_list x) \<longleftrightarrow> x = Some c"
  by (cases x) (auto simp: opt_list_def)

lemma chains_cases:
  "c \<in> set (nft_chains r) \<longleftrightarrow> mangle_pre r = Some c \<or> nat_pre_chain r = Some c \<or> filter_in r = Some c \<or> filter_fwd r = Some c
     \<or> c \<in> set (kill_switch_chains r) \<or> mangle_post r = Some c \<or> nat_post r = Some c"
  by (simp add: nft_chains_def)

lemma classify_declared_loadable: "classify_declared r \<Longrightarrow> loadable r"
proof -
  assume r: "classify_declared r"
  have "list_all (line_ok r) (cLines c)" if "c \<in> set (nft_chains r)" for c
    using that unfolding chains_cases
    by (elim disjE) (simp_all only: chain_lines_ok r)
  then show ?thesis by (simp add: loadable_def list_all_iff)
qed

section \<open>What a hook lets through\<close>

lemma guarded_Some: "(if b then None else Some x) = Some y \<Longrightarrow> x = y"
  by (simp split: if_splits)

lemma mapped_Some: "(case z of None \<Rightarrow> None | Some v \<Rightarrow> Some (f v)) = Some y \<Longrightarrow> \<exists>v. f v = y"
  by (auto split: option.splits)

lemma chain_hooks:
  "mangle_pre r = Some c \<Longrightarrow> cHook c = ''prerouting''" "nat_pre_chain r = Some c \<Longrightarrow> cHook c = ''prerouting''"
  "filter_in r = Some c \<Longrightarrow> cHook c = ''input''" "filter_fwd r = Some c \<Longrightarrow> cHook c = ''forward''"
  "mangle_post r = Some c \<Longrightarrow> cHook c = ''postrouting''" "nat_post r = Some c \<Longrightarrow> cHook c = ''postrouting''"
  unfolding mangle_pre_def nat_pre_chain_def filter_in_def filter_in_chain_def filter_fwd_def mangle_post_def nat_post_def
  by (auto simp only: nchain.sel dest!: guarded_Some mapped_Some)

lemma set_kill_switch_chains:
  "c \<in> set (kill_switch_chains r) \<longleftrightarrow>
     (\<exists>k. rsKillSwitch r = Some k \<and> Legs k \<noteq> [] \<and> (c = killswitch_out r k \<or> c = killswitch_fwd r k))"
  by (cases "rsKillSwitch r") (simp_all add: kill_switch_chains_def)

lemma hook_passes_all: "hook_passes S cs h p \<longleftrightarrow> (\<forall>c \<in> set cs. cHook c = h \<longrightarrow> chain_passes S c p)"
  by (auto simp: hook_passes_def list_all_iff)

lemma killswitch_hooks [simp]: "cHook (killswitch_out r k) = ''output''" "cHook (killswitch_fwd r k) = ''forward''"
  by (simp_all add: killswitch_out_def killswitch_fwd_def)

lemma output_hook:
  "hook_passes S (nft_chains r) ''output'' p \<longleftrightarrow>
     (\<forall>k. rsKillSwitch r = Some k \<longrightarrow> Legs k \<noteq> [] \<longrightarrow> chain_passes S (killswitch_out r k) p)"
  unfolding hook_passes_all Ball_def chains_cases set_kill_switch_chains by (auto dest: chain_hooks)

lemma forward_hook:
  "hook_passes S (nft_chains r) ''forward'' p \<longleftrightarrow> (\<forall>c. filter_fwd r = Some c \<longrightarrow> chain_passes S c p) \<and>
     (\<forall>k. rsKillSwitch r = Some k \<longrightarrow> Legs k \<noteq> [] \<longrightarrow> chain_passes S (killswitch_fwd r k) p)"
  unfolding hook_passes_all Ball_def chains_cases set_kill_switch_chains by (auto dest: chain_hooks)

lemma input_hook:
  "hook_passes S (nft_chains r) ''input'' p \<longleftrightarrow> (\<forall>c. filter_in r = Some c \<longrightarrow> chain_passes S c p)"
  unfolding hook_passes_all Ball_def chains_cases set_kill_switch_chains by (auto dest: chain_hooks)

section \<open>The manager\<close>

text \<open>
  The privileged edge: \<open>nft -f -\<close> loads a script whole or not at all, and deleting a table that is not
  there is a success. \<open>tbl\<close> is the text last loaded, none when the table is gone.
\<close>

locale nft_applier =
  fixes apply_script :: "'k \<Rightarrow> string \<Rightarrow> 'k \<times> bool"
    and delete_table :: "'k \<Rightarrow> 'k \<times> bool"
    and tbl :: "'k \<Rightarrow> string option"
  assumes apply_ok: "apply_script k s = (k', True) \<Longrightarrow> tbl k' = Some s"
    and apply_fail: "apply_script k s = (k', False) \<Longrightarrow> tbl k' = tbl k"
    and delete_ok: "delete_table k = (k', True) \<Longrightarrow> tbl k' = None"
    and delete_fail: "delete_table k = (k', False) \<Longrightarrow> tbl k' = tbl k"

record 'k Manager =
  mgApplier :: 'k
  mgRs :: Ruleset

definition mg_Replace :: "('k \<Rightarrow> string \<Rightarrow> 'k \<times> bool) \<Rightarrow> Ruleset \<Rightarrow> 'k Manager \<Rightarrow> 'k Manager \<times> bool" where
  "mg_Replace ap rs m = (case ap (mgApplier m) (Render rs) of (k, ok) \<Rightarrow>
     if ok then (m\<lparr>mgApplier := k, mgRs := rs\<rparr>, True) else (m\<lparr>mgApplier := k\<rparr>, False))"

definition mg_Update :: "('k \<Rightarrow> string \<Rightarrow> 'k \<times> bool) \<Rightarrow> (Ruleset \<Rightarrow> Ruleset) \<Rightarrow> 'k Manager \<Rightarrow> 'k Manager \<times> bool" where
  "mg_Update ap mutate m = (case ap (mgApplier m) (Render (mutate (mgRs m))) of (k, ok) \<Rightarrow>
     if ok then (m\<lparr>mgApplier := k, mgRs := mutate (mgRs m)\<rparr>, True) else (m\<lparr>mgApplier := k\<rparr>, False))"

definition mg_Teardown :: "('k \<Rightarrow> 'k \<times> bool) \<Rightarrow> 'k Manager \<Rightarrow> 'k Manager \<times> bool" where
  "mg_Teardown del m = (case del (mgApplier m) of (k, ok) \<Rightarrow>
     if ok then (m\<lparr>mgApplier := k, mgRs := zero_ruleset\<rparr>, True) else (m\<lparr>mgApplier := k\<rparr>, False))"

definition mg_Snapshot :: "'k Manager \<Rightarrow> Ruleset" where
  "mg_Snapshot m = mgRs m"

text \<open>The commands of \<open>CmdApplier\<close>; each of them may fail, as the next of \<open>caFails\<close> says.\<close>

record CmdApplier =
  caTable :: "string option"
  caFails :: "bool list"

definition cmd_Apply :: "CmdApplier \<Rightarrow> string \<Rightarrow> CmdApplier \<times> bool" where
  "cmd_Apply a s = (case caFails a of
      True # fs \<Rightarrow> (a\<lparr>caFails := fs\<rparr>, False)
    | False # fs \<Rightarrow> (a\<lparr>caFails := fs, caTable := Some s\<rparr>, True)
    | [] \<Rightarrow> (a\<lparr>caTable := Some s\<rparr>, True))"

definition cmd_Delete :: "CmdApplier \<Rightarrow> CmdApplier \<times> bool" where
  "cmd_Delete a = (case caFails a of
      True # fs \<Rightarrow> if caTable a = None then (a\<lparr>caFails := fs\<rparr>, True) else (a\<lparr>caFails := fs\<rparr>, False)
    | False # fs \<Rightarrow> (a\<lparr>caFails := fs, caTable := None\<rparr>, True)
    | [] \<Rightarrow> (a\<lparr>caTable := None\<rparr>, True))"

interpretation cmd: nft_applier cmd_Apply cmd_Delete caTable
  by unfold_locales (auto simp: cmd_Apply_def cmd_Delete_def split: list.splits bool.splits if_splits)

text \<open>The table is what the manager believes it is.\<close>

definition in_step :: "('k \<Rightarrow> string option) \<Rightarrow> 'k Manager \<Rightarrow> bool" where
  "in_step tbl m \<longleftrightarrow> (case tbl (mgApplier m) of None \<Rightarrow> mgRs m = zero_ruleset | Some s \<Rightarrow> s = Render (mgRs m))"

context nft_applier
begin

lemma Update_in_step: "in_step tbl m \<Longrightarrow> in_step tbl (fst (mg_Update apply_script f m))"
  by (auto simp: in_step_def mg_Update_def dest: apply_ok apply_fail split: prod.split if_splits option.splits)

lemma Replace_in_step: "in_step tbl m \<Longrightarrow> in_step tbl (fst (mg_Replace apply_script rs m))"
  by (auto simp: in_step_def mg_Replace_def dest: apply_ok apply_fail split: prod.split if_splits option.splits)

lemma Teardown_in_step: "in_step tbl m \<Longrightarrow> in_step tbl (fst (mg_Teardown delete_table m))"
  by (auto simp: in_step_def mg_Teardown_def dest: delete_ok delete_fail split: prod.split if_splits option.splits)

lemma Update_result:
  "mg_Update apply_script f m = (m', ok) \<Longrightarrow>
    if ok then mgRs m' = f (mgRs m) \<and> tbl (mgApplier m') = Some (Render (f (mgRs m)))
    else mgRs m' = mgRs m \<and> tbl (mgApplier m') = tbl (mgApplier m)"
  by (auto simp: mg_Update_def dest: apply_ok apply_fail split: prod.splits if_splits)

end

end
