(* ===== verification/Port_Forward.thy ===== *)
theory Port_Forward
  imports Routing_Rules Nft_Ruleset
begin

text \<open>
  Port forwards: \<open>ValidatePortForward\<close> of \<open>internal/network/domain/validate.go\<close> (rules V26 to V28),
  the create, update and delete operations of \<open>usecase/portforward.go\<close> over the table of
  \<open>repository/portforward_repository.go\<close>, and the rendering of the rows into the \<open>nat_pre\<close> chain.
  The database gives a created row an identifier of its own and hides a deleted row. The state keeps
  the table and the chain last rendered; a step relation of whole requests carries the invariant.
\<close>

section \<open>Validation\<close>

record PortForwardInput =
  Existing :: "PortForward list"
  New :: PortForward
  LANCIDR :: string
  PanelPort :: int
  HubPort :: int
  SSHPort :: int
  InboundPorts :: "string \<Rightarrow> int list"
  UplinkKeys :: "string list"
  pfConfirmed :: bool

definition sameUplink :: "string \<Rightarrow> string \<Rightarrow> bool" where
  "sameUplink a b \<longleftrightarrow> a = [] \<or> b = [] \<or> a = b"

text \<open>The field checks: protocol, ports, target, uplink.\<close>

definition pf_fields :: "PortForwardInput \<Rightarrow> Verdict option" where
  "pf_fields vi =
     (let pf = New vi in
      if Proto pf \<noteq> ''tcp'' \<and> Proto pf \<noteq> ''udp''
      then Some (reject ''V26'' ''protocol %q must be tcp or udp'' [FStr (Proto pf)])
      else if DPort pf < 1 \<or> DPort pf > 65535
      then Some (reject ''V26'' ''external port %d is out of range'' [FInt (DPort pf)])
      else if ToPort pf < 1 \<or> ToPort pf > 65535
      then Some (reject ''V26'' ''target port %d is out of range'' [FInt (ToPort pf)])
      else if net_parse_ip (ToAddr pf) = None
      then Some (reject ''V26'' ''target %q is not an IP address'' [FStr (ToAddr pf)])
      else if UplinkKey pf \<noteq> [] \<and> UplinkKey pf \<notin> set (UplinkKeys vi)
      then Some (reject ''V26'' ''uplink %q is not an assigned uplink'' [FStr (UplinkKey pf)])
      else None)"

text \<open>The target is inside the LAN, or the box itself.\<close>

definition pf_target :: "PortForwardInput \<Rightarrow> Verdict option" where
  "pf_target vi =
     (let pf = New vi in
      if LANCIDR vi = [] then None
      else case (net_parse_cidr (LANCIDR vi), net_parse_ip (ToAddr pf)) of
        (Some lan, Some target) \<Rightarrow>
          if \<not> ipnet_contains lan target \<and> \<not> ip_is_loopback target
          then Some (reject ''V26'' ''target %s is outside the LAN %s'' [FStr (ToAddr pf), FStr (LANCIDR vi)])
          else None
      | _ \<Rightarrow> None)"

definition pf_inbound :: "PortForwardInput \<Rightarrow> Verdict option" where
  "pf_inbound vi =
     (let pf = New vi in
      if DPort pf \<in> set (InboundPorts vi (Proto pf))
      then Some (reject ''V27'' ''%s/%d is already used by an enabled xray inbound'' [FStr (Proto pf), FInt (DPort pf)])
      else None)"

definition collides :: "PortForward \<Rightarrow> PortForward \<Rightarrow> bool" where
  "collides ex pf \<longleftrightarrow> Proto ex = Proto pf \<and> DPort ex = DPort pf \<and> sameUplink (UplinkKey ex) (UplinkKey pf)"

definition pf_collision :: "PortForwardInput \<Rightarrow> Verdict option" where
  "pf_collision vi =
     (let pf = New vi in
      map_option (\<lambda>ex. reject ''V27'' ''%s/%d already forwards to %s:%d on this uplink''
                         [FStr (Proto pf), FInt (DPort pf), FStr (ToAddr ex), FInt (ToPort ex)])
        (find (\<lambda>ex. \<not> (pfID ex = pfID pf \<or> \<not> pfEnabled ex) \<and> collides ex pf) (Existing vi)))"

definition pf_confirms :: "PortForwardInput \<Rightarrow> Verdict list" where
  "pf_confirms vi =
     (let pf = New vi in
      (if Proto pf = ''tcp'' \<and> PanelPort vi > 0 \<and> DPort pf = PanelPort vi
       then [confirm ''V28'' ''this forward takes over port %d on that uplink, so the panel stops answering there. Type CONFIRM to continue.''
               [FInt (DPort pf)]] else [])
      @ (if Proto pf = ''tcp'' \<and> HubPort vi > 0 \<and> DPort pf = HubPort vi
         then [confirm ''V28'' ''this forward takes over port %d on that uplink, so reverse-mode nodes can no longer reach the panel there. Type CONFIRM to continue.''
                 [FInt (DPort pf)]] else [])
      @ (if Proto pf = ''tcp'' \<and> (ToPort pf = PanelPort vi \<or> ToPort pf = SSHPort vi)
         then [confirm ''V28'' ''this forward exposes %s (port %d) to the internet. Anyone who reaches your uplink can attempt to log in. Type CONFIRM to continue.''
                 [FStr (if ToPort pf = SSHPort vi then ''SSH'' else ''the panel''), FInt (ToPort pf)]] else []))"

definition ValidatePortForward :: "PortForwardInput \<Rightarrow> Verdict list" where
  "ValidatePortForward vi =
     (case first_some [pf_fields vi, pf_target vi, pf_inbound vi, pf_collision vi] of
        Some v \<Rightarrow> [v]
      | None \<Rightarrow> pf_confirms vi)"

section \<open>The table\<close>

text \<open>The live rows and the identifier the next created row gets.\<close>

record pf_table =
  pfRows :: "PortForward list"
  nextID :: nat

definition pf_List :: "pf_table \<Rightarrow> PortForward list" where
  "pf_List t = sort_key (\<lambda>r. (Proto r, DPort r, pfID r)) (pfRows t)"

definition pf_Create :: "PortForward \<Rightarrow> pf_table \<Rightarrow> pf_table" where
  "pf_Create pf t =
     (let pf = (if pfNodeID pf = 0 then pf\<lparr>pfNodeID := 1\<rparr> else pf)
      in \<lparr>pfRows = pfRows t @ [pf\<lparr>pfID := nextID t\<rparr>], nextID = nextID t + 1\<rparr>)"

definition pf_Update :: "PortForward \<Rightarrow> pf_table \<Rightarrow> pf_table" where
  "pf_Update pf t = t\<lparr>pfRows := map (\<lambda>r. if pfID r = pfID pf
      then r\<lparr>UplinkKey := UplinkKey pf, Proto := Proto pf, DPort := DPort pf, ToAddr := ToAddr pf,
             ToPort := ToPort pf, pfComment := pfComment pf, pfEnabled := pfEnabled pf\<rparr>
      else r) (pfRows t)\<rparr>"

definition pf_Delete :: "nat \<Rightarrow> pf_table \<Rightarrow> pf_table" where
  "pf_Delete i t = t\<lparr>pfRows := filter (\<lambda>r. pfID r \<noteq> i) (pfRows t)\<rparr>"

section \<open>The operations\<close>

definition by_key :: "Uplink list \<Rightarrow> string \<Rightarrow> Uplink option" where
  "by_key us k = find (\<lambda>u. upKey u = k) (rev us)"

definition forward_targets :: "PortForward \<Rightarrow> Uplink list \<Rightarrow> Uplink list" where
  "forward_targets r us =
     (if UplinkKey r \<noteq> [] then (case by_key us (UplinkKey r) of None \<Rightarrow> [] | Some u \<Rightarrow> [u]) else us)"

definition rendered :: "PortForward \<Rightarrow> Uplink \<Rightarrow> nft_PortForward" where
  "rendered r u = \<lparr>nIfName = upIfName u, nProto = Proto r, nDPort = DPort r, nToAddr = ToAddr r,
     nToPort = ToPort r, nComment = pfComment r\<rparr>"

definition RenderPortForwards :: "PortForward list \<Rightarrow> Uplink list \<Rightarrow> nft_PortForward list" where
  "RenderPortForwards rows us =
     concat (map (\<lambda>r. map (rendered r) (forward_targets r us)) (filter pfEnabled rows))"

record InboundSpec =
  isTag :: string
  isProto :: string
  isPort :: int
  isEnabled :: bool
  PortRange :: string
  NoAutoMap :: bool

text \<open>\<open>inboundPortsWhere\<close>; \<open>None\<close> when no source is wired or it fails.\<close>

definition inboundPortsWhere :: "(InboundSpec \<Rightarrow> bool) \<Rightarrow> InboundSpec list option \<Rightarrow> string \<Rightarrow> int list" where
  "inboundPortsWhere keep specs proto = (case specs of None \<Rightarrow> []
     | Some ss \<Rightarrow> map isPort (filter (\<lambda>s. isEnabled s \<and> isPort s > 0 \<and> keep s \<and> isProto s = proto) ss))"

definition inboundPorts :: "InboundSpec list option \<Rightarrow> string \<Rightarrow> int list" where
  "inboundPorts specs = inboundPortsWhere (\<lambda>_. True) specs"

text \<open>What a request reads besides the table.\<close>

record pf_env =
  envUplinks :: "Uplink list"
  envLAN :: "LANConfig option"
  envPanelPort :: int
  envHubPort :: int
  envInbounds :: "InboundSpec list option"

record pf_state =
  PFRepo :: "pf_table option"
  nat_pre :: "nft_PortForward list"

datatype pf_error = NoStorage | ErrValidationFailed | ErrConfirmRequired

definition portForwardInput :: "pf_env \<Rightarrow> pf_table \<Rightarrow> PortForward \<Rightarrow> bool \<Rightarrow> PortForwardInput" where
  "portForwardInput env t pf confirmed =
     \<lparr>Existing = pf_List t, New = pf,
      LANCIDR = (case envLAN env of Some lan \<Rightarrow> CIDR lan | None \<Rightarrow> []),
      PanelPort = envPanelPort env, HubPort = envHubPort env, SSHPort = 22,
      InboundPorts = inboundPorts (envInbounds env), UplinkKeys = map upKey (envUplinks env),
      pfConfirmed = confirmed\<rparr>"

fun needsConfirm :: "Verdict list \<Rightarrow> bool" where
  "needsConfirm [] = False"
| "needsConfirm (v # vs) = (if vLevel v = LevelConfirm then True else needsConfirm vs)"

definition checkPortForward ::
  "pf_env \<Rightarrow> pf_state \<Rightarrow> PortForward \<Rightarrow> bool \<Rightarrow> Verdict list \<times> (pf_error + pf_table)" where
  "checkPortForward env st pf confirmed =
     (case PFRepo st of
        None \<Rightarrow> ([], Inl NoStorage)
      | Some t \<Rightarrow>
          (let vs = ValidatePortForward (portForwardInput env t pf confirmed) in
           if Rejected vs then (vs, Inl ErrValidationFailed)
           else if \<not> confirmed \<and> needsConfirm vs then (vs, Inl ErrConfirmRequired)
           else (vs, Inr t)))"

definition reapplyPortForwards :: "pf_env \<Rightarrow> pf_table \<Rightarrow> pf_state \<Rightarrow> pf_state" where
  "reapplyPortForwards env t st = st\<lparr>PFRepo := Some t, nat_pre := RenderPortForwards (pf_List t) (envUplinks env)\<rparr>"

definition CreatePortForward ::
  "pf_env \<Rightarrow> pf_state \<Rightarrow> PortForward \<Rightarrow> bool \<Rightarrow> Verdict list \<times> pf_error option \<times> pf_state" where
  "CreatePortForward env st pf confirmed =
     (case checkPortForward env st pf confirmed of
        (vs, Inl e) \<Rightarrow> (vs, Some e, st)
      | (vs, Inr t) \<Rightarrow> (vs, None, reapplyPortForwards env (pf_Create pf t) st))"

definition UpdatePortForward ::
  "pf_env \<Rightarrow> pf_state \<Rightarrow> PortForward \<Rightarrow> bool \<Rightarrow> Verdict list \<times> pf_error option \<times> pf_state" where
  "UpdatePortForward env st pf confirmed =
     (case checkPortForward env st pf confirmed of
        (vs, Inl e) \<Rightarrow> (vs, Some e, st)
      | (vs, Inr t) \<Rightarrow> (vs, None, reapplyPortForwards env (pf_Update pf t) st))"

definition DeletePortForward :: "pf_env \<Rightarrow> pf_state \<Rightarrow> nat \<Rightarrow> pf_error option \<times> pf_state" where
  "DeletePortForward env st i =
     (case PFRepo st of
        None \<Rightarrow> (Some NoStorage, st)
      | Some t \<Rightarrow> (None, reapplyPortForwards env (pf_Delete i t) st))"

section \<open>The invariant\<close>

definition no_collision :: "PortForward list \<Rightarrow> bool" where
  "no_collision rows \<longleftrightarrow> (\<forall>a \<in> set rows. \<forall>b \<in> set rows.
     pfID a \<noteq> pfID b \<longrightarrow> pfEnabled a \<longrightarrow> pfEnabled b \<longrightarrow> \<not> collides a b)"

definition table_ok :: "pf_table \<Rightarrow> bool" where
  "table_ok t \<longleftrightarrow> distinct (map pfID (pfRows t)) \<and> (\<forall>r \<in> set (pfRows t). pfID r < nextID t \<and> 0 < pfID r)
     \<and> 0 < nextID t \<and> no_collision (pfRows t)"

lemma set_pf_List [simp]: "set (pf_List t) = set (pfRows t)"
  by (simp add: pf_List_def)

lemma sameUplink_sym: "sameUplink a b \<longleftrightarrow> sameUplink b a"
  by (auto simp: sameUplink_def)

lemma collides_sym: "collides a b \<longleftrightarrow> collides b a"
  by (auto simp: collides_def sameUplink_sym)

lemma collides_fields:
  "UplinkKey a = UplinkKey a' \<Longrightarrow> Proto a = Proto a' \<Longrightarrow> DPort a = DPort a' \<Longrightarrow> collides a b \<longleftrightarrow> collides a' b"
  by (simp add: collides_def)

lemma pf_rules_reject:
  "first_some [pf_fields vi, pf_target vi, pf_inbound vi, pf_collision vi] = Some v \<Longrightarrow> vLevel v = LevelReject"
proof (erule first_some_pred [rotated])
  have "rejects (pf_fields vi)" by (simp add: pf_fields_def Let_def)
  moreover have "rejects (pf_target vi)" by (simp add: pf_target_def Let_def split: option.split)
  moreover have "rejects (pf_inbound vi)" by (simp add: pf_inbound_def Let_def)
  moreover have "rejects (pf_collision vi)" by (simp add: pf_collision_def Let_def option.pred_map comp_def option.pred_True)
  ultimately show "\<forall>x \<in> set [pf_fields vi, pf_target vi, pf_inbound vi, pf_collision vi]. rejects x" by simp
qed

lemma pf_accepted_iff:
  "\<not> Rejected (ValidatePortForward vi)
    \<longleftrightarrow> pf_fields vi = None \<and> pf_target vi = None \<and> pf_inbound vi = None \<and> pf_collision vi = None"
proof (cases "first_some [pf_fields vi, pf_target vi, pf_inbound vi, pf_collision vi]")
  case (Some v)
  then have "\<not> (\<forall>x \<in> set [pf_fields vi, pf_target vi, pf_inbound vi, pf_collision vi]. x = None)"
    by (metis first_some_None_iff option.distinct(1))
  moreover have "Rejected (ValidatePortForward vi)"
    using Some pf_rules_reject [OF Some] by (simp add: ValidatePortForward_def del: first_some.simps)
  ultimately show ?thesis by auto
next
  case None
  then show ?thesis by (auto simp: ValidatePortForward_def pf_confirms_def Let_def)
qed

lemma pf_collision_None:
  "pf_collision vi = None
    \<longleftrightarrow> (\<forall>ex \<in> set (Existing vi). pfID ex \<noteq> pfID (New vi) \<longrightarrow> pfEnabled ex \<longrightarrow> \<not> collides ex (New vi))"
  by (auto simp: pf_collision_def Let_def find_None_iff)

lemma check_Inr:
  assumes "checkPortForward env st pf c = (vs, Inr t)"
  shows "PFRepo st = Some t \<and> (\<forall>ex \<in> set (pfRows t). pfID ex \<noteq> pfID pf \<longrightarrow> pfEnabled ex \<longrightarrow> \<not> collides ex pf)"
proof (cases "PFRepo st")
  case (Some t')
  with assms have t: "t' = t" "\<not> Rejected (ValidatePortForward (portForwardInput env t pf c))"
    by (auto simp: checkPortForward_def Let_def split: if_splits)
  then have "pf_collision (portForwardInput env t pf c) = None" by (simp add: pf_accepted_iff)
  then show ?thesis using Some t by (simp add: pf_collision_None portForwardInput_def)
qed (use assms in \<open>simp add: checkPortForward_def\<close>)

lemma pf_Create_ok [inv_intros]:
  assumes "table_ok t" "\<forall>ex \<in> set (pfRows t). pfEnabled ex \<longrightarrow> \<not> collides ex pf"
  shows "table_ok (pf_Create pf t)"
proof -
  define row where "row = (if pfNodeID pf = 0 then pf\<lparr>pfNodeID := 1\<rparr> else pf)\<lparr>pfID := nextID t\<rparr>"
  have c: "pfRows (pf_Create pf t) = pfRows t @ [row]" "nextID (pf_Create pf t) = nextID t + 1"
    by (simp_all add: pf_Create_def Let_def row_def)
  have r: "pfID row = nextID t" "\<And>x. collides row x \<longleftrightarrow> collides pf x"
    by (auto simp: row_def collides_def)
  have "\<not> collides ex row" "\<not> collides row ex" if "ex \<in> set (pfRows t)" "pfEnabled ex" for ex
    using assms(2) that r(2) collides_sym by metis+
  with assms(1) show ?thesis
    by (auto simp: table_ok_def c r no_collision_def)
qed

lemma pf_Update_ok [inv_intros]:
  assumes "table_ok t" "\<forall>ex \<in> set (pfRows t). pfID ex \<noteq> pfID pf \<longrightarrow> pfEnabled ex \<longrightarrow> \<not> collides ex pf"
  shows "table_ok (pf_Update pf t)"
proof -
  define u :: "PortForward \<Rightarrow> PortForward" where "u = (\<lambda>r. if pfID r = pfID pf
      then r\<lparr>UplinkKey := UplinkKey pf, Proto := Proto pf, DPort := DPort pf, ToAddr := ToAddr pf,
             ToPort := ToPort pf, pfComment := pfComment pf, pfEnabled := pfEnabled pf\<rparr> else r)"
  have rows: "pfRows (pf_Update pf t) = map u (pfRows t)" "nextID (pf_Update pf t) = nextID t"
    by (simp_all add: pf_Update_def u_def)
  have id [simp]: "pfID (u r) = pfID r" for r by (simp add: u_def)
  have other: "u r = r" if "pfID r \<noteq> pfID pf" for r using that by (simp add: u_def)
  have same: "collides x (u r) \<longleftrightarrow> collides x pf" "collides (u r) x \<longleftrightarrow> collides pf x" if "pfID r = pfID pf" for r x
    using that by (simp_all add: collides_def u_def)
  have n: "\<not> collides x pf \<and> \<not> collides pf x" if "x \<in> set (pfRows t)" "pfID x \<noteq> pfID pf" "pfEnabled x" for x
    using assms(2) that collides_sym by blast
  have "\<not> collides (u x) (u y)" if xy: "x \<in> set (pfRows t)" "y \<in> set (pfRows t)" "pfID x \<noteq> pfID y"
    "pfEnabled (u x)" "pfEnabled (u y)" for x y
  proof -
    consider "pfID x = pfID pf" "pfID y \<noteq> pfID pf" | "pfID y = pfID pf" "pfID x \<noteq> pfID pf"
      | "pfID x \<noteq> pfID pf" "pfID y \<noteq> pfID pf" using xy(3) by metis
    then show ?thesis
    proof cases
      case 1
      with n [of y] xy show ?thesis by (simp add: same other)
    next
      case 2
      with n [of x] xy show ?thesis by (simp add: same other)
    next
      case 3
      with xy assms(1) show ?thesis by (simp add: table_ok_def no_collision_def other)
    qed
  qed
  then have "no_collision (map u (pfRows t))" by (auto simp: no_collision_def)
  moreover have "map pfID (map u (pfRows t)) = map pfID (pfRows t)" by simp
  ultimately show ?thesis using assms(1) unfolding table_ok_def rows by (auto simp: comp_def)
qed

lemma pf_Delete_ok [inv_intros]: "table_ok t \<Longrightarrow> table_ok (pf_Delete i t)"
  by (auto simp: table_ok_def pf_Delete_def no_collision_def distinct_map inj_on_def)

section \<open>Requests\<close>

text \<open>
  The requests the panel sends: a create carries no identifier, an update and a delete name a row.
  Every request sees its own environment: uplinks, LAN and inbounds change between requests.
\<close>

inductive pf_step :: "pf_state \<Rightarrow> pf_state \<Rightarrow> bool" where
  create: "pfID pf = 0 \<Longrightarrow> CreatePortForward env st pf c = (vs, e, st') \<Longrightarrow> pf_step st st'"
| update: "UpdatePortForward env st pf c = (vs, e, st') \<Longrightarrow> pf_step st st'"
| delete: "DeletePortForward env st i = (e, st') \<Longrightarrow> pf_step st st'"

inductive pf_reachable :: "pf_state \<Rightarrow> bool" where
  initial: "pf_reachable \<lparr>PFRepo = Some \<lparr>pfRows = [], nextID = 1\<rparr>, nat_pre = []\<rparr>"
| step: "pf_reachable st \<Longrightarrow> pf_step st st' \<Longrightarrow> pf_reachable st'"

inductive_cases pf_stepE: "pf_step st st'"

definition state_ok :: "pf_state \<Rightarrow> bool" where
  "state_ok st \<longleftrightarrow> (\<forall>t. PFRepo st = Some t \<longrightarrow> table_ok t)"

lemma reapply_ok: "table_ok t \<Longrightarrow> state_ok (reapplyPortForwards env t st)"
  by (simp add: state_ok_def reapplyPortForwards_def)

lemma check_collides:
  "checkPortForward env st pf c = (vs, Inr t) \<Longrightarrow> state_ok st \<Longrightarrow> table_ok t
     \<and> (\<forall>ex \<in> set (pfRows t). pfID ex \<noteq> pfID pf \<longrightarrow> pfEnabled ex \<longrightarrow> \<not> collides ex pf)"
  using check_Inr by (fastforce simp: state_ok_def)

lemma Create_ok:
  assumes "state_ok st" "pfID pf = 0" "CreatePortForward env st pf c = (vs, e, st')"
  shows "state_ok st'"
proof (cases "checkPortForward env st pf c")
  case (Pair ws r)
  show ?thesis
  proof (cases r)
    case (Inr t)
    have t: "table_ok t" "\<forall>ex \<in> set (pfRows t). pfID ex \<noteq> pfID pf \<longrightarrow> pfEnabled ex \<longrightarrow> \<not> collides ex pf"
      using check_collides [OF Pair [unfolded Inr] assms(1)] by auto
    then have "\<forall>ex \<in> set (pfRows t). pfEnabled ex \<longrightarrow> \<not> collides ex pf"
      using assms(2) by (metis table_ok_def less_numeral_extra(3))
    with t Pair Inr assms(3) show ?thesis
      by (auto simp: CreatePortForward_def intro: reapply_ok pf_Create_ok)
  qed (use assms Pair in \<open>auto simp: CreatePortForward_def\<close>)
qed

lemma Update_ok:
  assumes "state_ok st" "UpdatePortForward env st pf c = (vs, e, st')"
  shows "state_ok st'"
proof (cases "checkPortForward env st pf c")
  case (Pair ws r)
  show ?thesis
  proof (cases r)
    case (Inr t)
    with Pair check_collides [of env st pf c ws t] assms show ?thesis
      by (auto simp: UpdatePortForward_def intro: reapply_ok pf_Update_ok)
  qed (use assms Pair in \<open>auto simp: UpdatePortForward_def\<close>)
qed

lemma Delete_ok: "state_ok st \<Longrightarrow> DeletePortForward env st i = (e, st') \<Longrightarrow> state_ok st'"
  by (cases "PFRepo st") (auto simp: DeletePortForward_def intro!: reapply_ok pf_Delete_ok, auto simp: state_ok_def)

lemma reachable_ok: "pf_reachable st \<Longrightarrow> state_ok st"
proof (induction rule: pf_reachable.induct)
  case initial
  show ?case by (simp add: state_ok_def table_ok_def no_collision_def)
next
  case (step st st')
  from step(2,3) show ?case
    by (auto elim!: pf_stepE intro: Create_ok Update_ok Delete_ok)
qed


section \<open>The rendered chain\<close>

lemma by_key_Some: "by_key us k = Some u \<Longrightarrow> u \<in> set us \<and> upKey u = k"
  by (auto simp: by_key_def find_Some_iff) (metis nth_mem length_rev set_rev)

lemma forward_targets_mem: "u \<in> set (forward_targets r us) \<Longrightarrow> u \<in> set us \<and> (UplinkKey r = [] \<or> UplinkKey r = upKey u)"
  by (auto simp: forward_targets_def split: if_splits option.splits dest!: by_key_Some [OF sym])

definition dnat_key :: "nft_PortForward \<Rightarrow> string \<times> string \<times> int" where
  "dnat_key f = (nIfName f, nProto f, nDPort f)"

lemma distinct_targets: "distinct (map upIfName us) \<Longrightarrow> distinct (map (\<lambda>u. dnat_key (rendered r u)) (forward_targets r us))"
  by (auto simp: forward_targets_def dnat_key_def rendered_def distinct_map inj_on_def split: option.split)

lemma RenderPortForwards_Cons:
  "RenderPortForwards (r # rows) us =
     (if pfEnabled r then map (rendered r) (forward_targets r us) else []) @ RenderPortForwards rows us"
  by (simp add: RenderPortForwards_def)

lemma RenderPortForwards_mem:
  "f \<in> set (RenderPortForwards rows us) \<Longrightarrow> \<exists>r \<in> set rows. \<exists>u \<in> set (forward_targets r us). pfEnabled r \<and> f = rendered r u"
  by (auto simp: RenderPortForwards_def)

lemma render_distinct:
  assumes "distinct (map pfID rows)" "no_collision rows" "distinct (map upIfName us)"
  shows "distinct (map dnat_key (RenderPortForwards rows us))"
  using assms
proof (induction rows)
  case (Cons r rows)
  have ih: "distinct (map dnat_key (RenderPortForwards rows us))"
    using Cons by (auto simp: no_collision_def)
  show ?case
  proof (cases "pfEnabled r")
    case True
    have "dnat_key f \<noteq> dnat_key g" if f: "f \<in> set (map (rendered r) (forward_targets r us))"
      and g: "g \<in> set (RenderPortForwards rows us)" for f g
    proof
      assume eq: "dnat_key f = dnat_key g"
      from f obtain u where u: "u \<in> set (forward_targets r us)" "f = rendered r u" by auto
      from RenderPortForwards_mem [OF g] obtain r' v where
        v: "r' \<in> set rows" "v \<in> set (forward_targets r' us)" "pfEnabled r'" "g = rendered r' v" by blast
      from eq u v have names: "upIfName u = upIfName v" "Proto r = Proto r'" "DPort r = DPort r'"
        by (auto simp: dnat_key_def rendered_def)
      then have "u = v" using forward_targets_mem [OF u(1)] forward_targets_mem [OF v(2)] assms(3)
        by (metis distinct_map inj_onD)
      then have "collides r r'" using forward_targets_mem [OF u(1)] forward_targets_mem [OF v(2)] names
        by (auto simp: collides_def sameUplink_def)
      moreover have "pfID r \<noteq> pfID r'" using Cons.prems(1) v(1) by auto
      ultimately show False using Cons.prems(2) v True by (auto simp: no_collision_def)
    qed
    then have "dnat_key ` set (map (rendered r) (forward_targets r us)) \<inter> dnat_key ` set (RenderPortForwards rows us) = {}"
      by blast
    moreover have "distinct (map dnat_key (map (rendered r) (forward_targets r us)))"
      using distinct_targets [OF Cons.prems(3), of r] by (simp add: comp_def)
    ultimately show ?thesis using ih True by (simp add: RenderPortForwards_Cons image_image comp_def)
  qed (use ih in \<open>simp add: RenderPortForwards_Cons\<close>)
qed (simp add: RenderPortForwards_def)

text \<open>
  The rendered chain is unambiguous: rendering a reachable table gives at most one DNAT rule for
  an interface, a protocol and a port, so no rule shadows another, and every rule comes from an
  enabled row on an uplink that row names (or on any uplink when it names none).
\<close>

theorem rendered_chain_unambiguous:
  assumes "pf_reachable st" "PFRepo st = Some t" "distinct (map upIfName us)"
  shows "distinct (map dnat_key (RenderPortForwards (pf_List t) us))
    \<and> (\<forall>f \<in> set (RenderPortForwards (pf_List t) us). \<exists>r \<in> set (pfRows t). \<exists>u \<in> set us.
         pfEnabled r \<and> (UplinkKey r = [] \<or> UplinkKey r = upKey u) \<and> f = rendered r u)"
proof -
  from assms(1) have "state_ok st" by (rule reachable_ok)
  with assms(2) have t: "table_ok t" by (simp add: state_ok_def)
  then have "distinct (map pfID (pf_List t))" "no_collision (pf_List t)"
    by (simp_all add: table_ok_def no_collision_def pf_List_def distinct_map)
  from render_distinct [OF this assms(3)] show ?thesis
    by (fastforce dest: RenderPortForwards_mem forward_targets_mem)
qed

section \<open>What a stored forward has passed\<close>

text \<open>A forward that takes a port from the panel or the hub, or exposes the panel or SSH.\<close>

definition hazardous :: "pf_env \<Rightarrow> PortForward \<Rightarrow> bool" where
  "hazardous env pf \<longleftrightarrow> Proto pf = ''tcp'' \<and>
     (envPanelPort env > 0 \<and> DPort pf = envPanelPort env \<or> envHubPort env > 0 \<and> DPort pf = envHubPort env
      \<or> ToPort pf = envPanelPort env \<or> ToPort pf = 22)"

lemma needsConfirm_iff: "needsConfirm vs \<longleftrightarrow> (\<exists>v \<in> set vs. vLevel v = LevelConfirm)"
  by (induction vs) auto

lemma accepted_confirms: "\<not> Rejected (ValidatePortForward vi) \<Longrightarrow> ValidatePortForward vi = pf_confirms vi"
  unfolding pf_accepted_iff by (simp add: ValidatePortForward_def)

lemma needsConfirm_hazardous:
  "\<not> Rejected (ValidatePortForward (portForwardInput env t pf c)) \<Longrightarrow>
   needsConfirm (ValidatePortForward (portForwardInput env t pf c)) \<longleftrightarrow> hazardous env pf"
  by (drule accepted_confirms) (auto simp: pf_confirms_def Let_def hazardous_def portForwardInput_def)

lemma check_accepts:
  assumes "checkPortForward env st pf c = (vs, Inr t)"
  shows "\<not> Rejected (ValidatePortForward (portForwardInput env t pf c)) \<and> (hazardous env pf \<longrightarrow> c)"
proof (cases "PFRepo st")
  case (Some t')
  with assms have t: "t' = t" "\<not> Rejected (ValidatePortForward (portForwardInput env t pf c))"
    "c \<or> \<not> needsConfirm (ValidatePortForward (portForwardInput env t pf c))"
    by (auto simp: checkPortForward_def Let_def split: if_splits)
  then show ?thesis using needsConfirm_hazardous by blast
qed (use assms in \<open>simp add: checkPortForward_def\<close>)

text \<open>
  A forward is stored only when it is well formed (a known protocol, ports in range, a target
  that is an address inside the LAN or on the box itself), does not take the port of an enabled
  inbound, and, when it takes over or exposes a management port, the operator has confirmed it. A
  request that fails leaves the table and the chain alone.
\<close>

theorem stored_forward_is_safe:
  assumes "CreatePortForward env st pf c = (vs, e, st')"
  shows "(e \<noteq> None \<longrightarrow> st' = st)
    \<and> (e = None \<longrightarrow>
         Proto pf \<in> {''tcp'', ''udp''} \<and> 1 \<le> DPort pf \<and> DPort pf \<le> 65535 \<and> 1 \<le> ToPort pf \<and> ToPort pf \<le> 65535
         \<and> (\<exists>ip. net_parse_ip (ToAddr pf) = Some ip \<and>
              (\<forall>lan net. envLAN env = Some lan \<longrightarrow> CIDR lan \<noteq> [] \<longrightarrow> net_parse_cidr (CIDR lan) = Some net
                 \<longrightarrow> ipnet_contains net ip \<or> ip_is_loopback ip))
         \<and> DPort pf \<notin> set (inboundPorts (envInbounds env) (Proto pf))
         \<and> (hazardous env pf \<longrightarrow> c))"
proof (cases "checkPortForward env st pf c")
  case (Pair ws r)
  show ?thesis
  proof (cases r)
    case (Inl x)
    with Pair assms show ?thesis by (auto simp: CreatePortForward_def)
  next
    case (Inr t)
    with Pair assms have "e = None" by (auto simp: CreatePortForward_def)
    moreover have "pf_fields (portForwardInput env t pf c) = None" "pf_target (portForwardInput env t pf c) = None"
      "pf_inbound (portForwardInput env t pf c) = None" "hazardous env pf \<longrightarrow> c"
      using check_accepts [OF Pair [unfolded Inr]] by (auto simp: pf_accepted_iff)
    ultimately show ?thesis
      by (auto simp: pf_fields_def pf_target_def pf_inbound_def portForwardInput_def Let_def
          split: if_splits option.splits)
  qed
qed

section \<open>Examples\<close>

definition example_env :: pf_env where
  "example_env = \<lparr>envUplinks = [uplink_of example_iface], envLAN = Some example_lan, envPanelPort = 8080,
     envHubPort = 0, envInbounds = Some [\<lparr>isTag = ''in'', isProto = ''tcp'', isPort = 443, isEnabled = True,
       PortRange = [], NoAutoMap = False\<rparr>]\<rparr>"

definition example_forward :: PortForward where
  "example_forward = \<lparr>pfID = 0, pfNodeID = 1, UplinkKey = [], Proto = ''tcp'', DPort = 7000, ToAddr = ''10.77.0.5'',
     ToPort = 80, pfComment = ''nas'', pfEnabled = True\<rparr>"

definition pf_initial :: pf_state where
  "pf_initial = \<lparr>PFRepo = Some \<lparr>pfRows = [], nextID = 1\<rparr>, nat_pre = []\<rparr>"

definition pf_one :: pf_state where
  "pf_one = \<lparr>PFRepo = Some \<lparr>pfRows = [example_forward\<lparr>pfID := 1\<rparr>], nextID = 2\<rparr>,
     nat_pre = [rendered (example_forward\<lparr>pfID := 1\<rparr>) (uplink_of example_iface)]\<rparr>"

lemma example_create: "CreatePortForward example_env pf_initial example_forward False = ([], None, pf_one)"
  by code_simp

lemma pf_one_reachable: "pf_reachable pf_one"
proof -
  have "pf_reachable pf_initial" unfolding pf_initial_def by (rule pf_reachable.initial)
  moreover have "pf_step pf_initial pf_one"
    by (rule pf_step.create [OF _ example_create]) (simp add: example_forward_def)
  ultimately show ?thesis by (rule pf_reachable.step)
qed


theorem rendered_chain_unambiguous_witness:
  "pf_reachable pf_one \<and> (\<exists>t. PFRepo pf_one = Some t
     \<and> distinct (map dnat_key (RenderPortForwards (pf_List t) [uplink_of example_iface])))"
proof -
  have "PFRepo pf_one = Some \<lparr>pfRows = [example_forward\<lparr>pfID := 1\<rparr>], nextID = 2\<rparr>" by (simp add: pf_one_def)
  moreover have "distinct (map upIfName [uplink_of example_iface])" by simp
  ultimately show ?thesis using rendered_chain_unambiguous [OF pf_one_reachable] pf_one_reachable by blast
qed

theorem stored_forward_is_safe_witness:
  "CreatePortForward example_env pf_initial example_forward False = ([], None, pf_one)
   \<and> (\<exists>ip. net_parse_ip (ToAddr example_forward) = Some ip)"
  using stored_forward_is_safe [OF example_create] example_create by blast

text \<open>
  A create request that carries the identifier of an existing row is not checked against that
  row, although the database gives the new row an identifier of its own: the table then holds two
  enabled forwards for the same port on the same uplink, and the rendered chain two rules of which
  the second can never match.
\<close>

theorem create_with_a_foreign_id_collides:
  "\<exists>st'. CreatePortForward example_env pf_one (example_forward\<lparr>pfID := 1, ToAddr := ''10.77.0.9''\<rparr>) False = ([], None, st')
     \<and> (\<exists>t. PFRepo st' = Some t \<and> \<not> no_collision (pfRows t)
          \<and> \<not> distinct (map dnat_key (RenderPortForwards (pf_List t) (envUplinks example_env))))"
proof -
  let ?rows = "[example_forward\<lparr>pfID := 1\<rparr>, example_forward\<lparr>pfID := 2, ToAddr := ''10.77.0.9''\<rparr>]"
  let ?t = "\<lparr>pfRows = ?rows, nextID = 3\<rparr>"
  let ?st = "\<lparr>PFRepo = Some ?t, nat_pre = RenderPortForwards (pf_List ?t) (envUplinks example_env)\<rparr>"
  have "CreatePortForward example_env pf_one (example_forward\<lparr>pfID := 1, ToAddr := ''10.77.0.9''\<rparr>) False = ([], None, ?st)"
    by code_simp
  moreover have "\<not> no_collision ?rows" by code_simp
  moreover have "\<not> distinct (map dnat_key (RenderPortForwards (pf_List ?t) (envUplinks example_env)))" by code_simp
  moreover have "PFRepo ?st = Some ?t" "pfRows ?t = ?rows" by simp_all
  ultimately show ?thesis by metis
qed

end
