(* ===== verification/Firewall.thy ===== *)
theory Firewall
  imports Port_Forward
begin

text \<open>
  What the panel puts into its firewall table: the ingress pins (\<open>usecase/nftstate.go\<close>), the LAN plane
  (\<open>usecase/lan.go\<close>), the kill switch (\<open>usecase/vpn.go\<close>), the port forwards (\<open>usecase/portforward.go\<close>) and
  the input chain (\<open>usecase/firewall.go\<close>), each a change to one part of the desired state. The compiled
  country database is a parameter. The theorems are about the packets the rendered table lets through.
\<close>

section \<open>The five writers\<close>

definition ApplyNftState :: "Uplink list \<Rightarrow> Ruleset \<Rightarrow> Ruleset" where
  "ApplyNftState us rs = rs\<lparr>Connmark := True, Counters := True,
     IngressPins := map (\<lambda>u. \<lparr>npIfName = upIfName u, npIndex = UplinkIndex u\<rparr>) (sort_key UplinkIndex us)\<rparr>"

definition DomesticSetV4 :: string where "DomesticSetV4 = ''ir_v4''"
definition DomesticSetV6 :: string where "DomesticSetV6 = ''ir_v6''"
definition DomainSetV4 :: string where "DomainSetV4 = ''ir_dom_v4''"
definition DomainSetV6 :: string where "DomainSetV6 = ''ir_dom_v6''"
definition DomainSetTimeout :: string where "DomainSetTimeout = ''24h''"
definition IPv6Enabled :: bool where "IPv6Enabled = False"

text \<open>The prefixes of the country in the embedded database, none when it cannot be read.\<close>

type_synonym cidr_set = "string list \<times> string list"

definition BuildDomesticSetsFrom :: "cidr_set option \<Rightarrow> bool \<Rightarrow> string list \<Rightarrow> nft_Set list option" where
  "BuildDomesticSetsFrom embedded nftSetSupported fetchedV4 =
     (case embedded of None \<Rightarrow> None | Some (cs4, cs6) \<Rightarrow>
       (let v4 = (if fetchedV4 \<noteq> [] then fetchedV4 else cs4) in
        Some ([\<lparr>nsName = DomesticSetV4, nsFamily = ''ipv4_addr'', nsInterval = True, nsTimeout = [], nsElements = v4\<rparr>]
          @ (if IPv6Enabled \<and> cs6 \<noteq> [] then
               [\<lparr>nsName = DomesticSetV6, nsFamily = ''ipv6_addr'', nsInterval = True, nsTimeout = [], nsElements = cs6\<rparr>] else [])
          @ (if nftSetSupported then
               [\<lparr>nsName = DomainSetV4, nsFamily = ''ipv4_addr'', nsInterval = False, nsTimeout = DomainSetTimeout, nsElements = []\<rparr>]
               @ (if IPv6Enabled then
                    [\<lparr>nsName = DomainSetV6, nsFamily = ''ipv6_addr'', nsInterval = False, nsTimeout = DomainSetTimeout, nsElements = []\<rparr>]
                  else []) else []))))"

definition LANBridgeName :: string where "LANBridgeName = ManagedBridgeName"

definition lan_bridge :: "LANConfig \<Rightarrow> string" where
  "lan_bridge lan = (if BridgeName lan = [] then LANBridgeName else BridgeName lan)"

definition lanEgressNames :: "Uplink list \<Rightarrow> string list \<Rightarrow> string list" where
  "lanEgressNames us tunnels = map upIfName (filter (\<lambda>u. \<not> slot_is_secondary (upSlot u)) us) @ tunnels"

definition classify :: "string \<Rightarrow> nft_Set list \<Rightarrow> LANClassify" where
  "classify bridge sets = fold (\<lambda>s c.
       if nsName s = DomesticSetV4 then c\<lparr>DomesticV4Set := DomesticSetV4\<rparr>
       else if nsName s = DomesticSetV6 then c\<lparr>DomesticV6Set := DomesticSetV6\<rparr>
       else if nsName s = DomainSetV4 then c\<lparr>DomainV4Set := DomainSetV4\<rparr>
       else if nsName s = DomainSetV6 then c\<lparr>DomainV6Set := DomainSetV6\<rparr> else c) sets
     \<lparr>lcBridge = bridge, DomesticV4Set = [], DomesticV6Set = [], DomainV4Set = [], DomainV6Set = []\<rparr>"

definition ApplyLANNftState :: "LANConfig option \<Rightarrow> Uplink list \<Rightarrow> nft_Set list \<Rightarrow> string list \<Rightarrow> Ruleset \<Rightarrow> Ruleset" where
  "ApplyLANNftState lan us sets tunnels rs =
     (case lan of
        None \<Rightarrow> rs\<lparr>rsSets := [], rsLANClassify := None, Masquerade := [], rsFilterForward := None\<rparr>
      | Some l \<Rightarrow>
          if \<not> lanEnabled l then rs\<lparr>rsSets := [], rsLANClassify := None, Masquerade := [], rsFilterForward := None\<rparr>
          else (let names = lanEgressNames us tunnels in
            rs\<lparr>Connmark := True, rsSets := sets, rsLANClassify := Some (classify (lan_bridge l) sets),
               Masquerade := names, rsFilterForward := Some \<lparr>ffBridge = lan_bridge l, ffUplinks = names\<rparr>\<rparr>))"

definition secondariesOf :: "Uplink list \<Rightarrow> Uplink list" where
  "secondariesOf us = filter (\<lambda>u. slot_is_secondary (upSlot u)) us"

definition transportMark :: "Uplink \<Rightarrow> u32" where
  "transportMark u = (if UplinkIndex u = 0 then PinMark (uplinkIndexFor SlotSecondary) else PinMark (UplinkIndex u))"

definition killSwitchLegs :: "Uplink list \<Rightarrow> (string \<Rightarrow> string) \<Rightarrow> (UplinkSlot \<Rightarrow> string list) \<Rightarrow> KillSwitchLeg list" where
  "killSwitchLegs us gateways probeIPs = map (\<lambda>u. \<lparr>kIfName = upIfName u, kGatewayIP = gateways (upIfName u),
      kPinValue = transportMark u, kProbeSet = ProbeSetName (UplinkIndex u), kProbeIPs = probeIPs (upSlot u)\<rparr>)
     (sort_key UplinkIndex (secondariesOf us))"

definition StarlinkDishSubnet :: string where "StarlinkDishSubnet = ''192.168.100.0/24''"

definition BootstrapIPs :: "string list" where
  "BootstrapIPs = [''1.1.1.1'', ''1.0.0.1'', ''8.8.8.8'', ''8.8.4.4'']"

definition kill_switch :: "KillSwitchLeg list \<Rightarrow> KillSwitch" where
  "kill_switch legs = \<lparr>Legs = legs, DishSubnet = StarlinkDishSubnet, MarkMask = MaskPin, kBootstrapIPs = BootstrapIPs,
     ProbeMark = PinMark PinProbe, PortmapMark = PinMark PinPortmap\<rparr>"

definition ApplyKillSwitchState ::
  "Uplink list \<Rightarrow> (string \<Rightarrow> string) \<Rightarrow> (UplinkSlot \<Rightarrow> string list) \<Rightarrow> Ruleset \<Rightarrow> Ruleset" where
  "ApplyKillSwitchState us gateways probeIPs rs =
     (let legs = killSwitchLegs us gateways probeIPs in
      if legs = [] then rs\<lparr>rsKillSwitch := None\<rparr> else rs\<lparr>rsKillSwitch := Some (kill_switch legs)\<rparr>)"

definition secondaryGateways :: "Uplink list \<Rightarrow> NetworkInterface list \<Rightarrow> string \<Rightarrow> string" where
  "secondaryGateways us rows n =
     (case find (\<lambda>u. upIfName u = n \<and> ifKey ` set rows \<inter> {upKey u} \<noteq> {}) (rev (secondariesOf us)) of
        None \<Rightarrow> []
      | Some u \<Rightarrow> (case find (\<lambda>r. ifKey r = upKey u) (rev rows) of
            None \<Rightarrow> []
          | Some r \<Rightarrow> if Method r = MethodStatic \<and> StaticGateway r \<noteq> [] then StaticGateway r else LearnedGateway r))"

definition ApplyPortForwards :: "PortForward list \<Rightarrow> Uplink list \<Rightarrow> Ruleset \<Rightarrow> Ruleset" where
  "ApplyPortForwards rows us rs = rs\<lparr>rsPortForwards := RenderPortForwards rows us\<rparr>"

section \<open>The input chain\<close>

definition localOnlyInbound :: "string \<Rightarrow> bool" where
  "localOnlyInbound protocol \<longleftrightarrow> map lower_char protocol \<in> {''socks'', ''http'', ''dokodemo-door''}"

definition inbound_protos :: "string \<Rightarrow> string list" where
  "inbound_protos protocol =
     (let p = map lower_char protocol in
      if p \<in> {''wireguard'', ''hysteria'', ''hysteria2'', ''tuic''} then [''udp'']
      else if p \<in> {''shadowsocks'', ''dokodemo-door'', ''socks''} then [''tcp'', ''udp'']
      else [''tcp''])"

definition InboundSpecsFor :: "string \<Rightarrow> string \<Rightarrow> int \<Rightarrow> string \<Rightarrow> bool \<Rightarrow> InboundSpec list" where
  "InboundSpecsFor tag protocol port portRange enabled =
     (if port \<le> 0 then [] else
      map (\<lambda>p. \<lparr>isTag = tag, isProto = p, isPort = port, isEnabled = enabled, PortRange = portRange,
        NoAutoMap = localOnlyInbound protocol\<rparr>) (inbound_protos protocol))"

record PortMapRule =
  pmID :: nat
  pmNodeID :: nat
  pmUplinkKey :: string
  pmProto :: string
  pmPort :: int
  ExternalHint :: int
  pmComment :: string
  pmEnabled :: bool

record FilterInputSpec =
  fiUplinks :: "Uplink list"
  fiLocalIfNames :: "string list"
  fiPanelPort :: int
  fiHubPort :: int
  AdvertisedIfNames :: "string list"
  fiInbounds :: "InboundSpec list"
  fiPortForwards :: "PortForward list"
  PortMapRules :: "PortMapRule list"
  PortMapUplinks :: "string list"
  TwoWANNoLAN :: bool

definition PortMapLocalPort :: int where "PortMapLocalPort = 5350"

definition accept_on :: "string list \<Rightarrow> string \<Rightarrow> int \<Rightarrow> string \<Rightarrow> InputAccept" where
  "accept_on names proto port comment = \<lparr>iaIfNames = names, iaProto = proto, iaPort = port, iaComment = comment\<rparr>"

definition no_record_comment :: string where
  "no_record_comment = ''panel (no advertised uplink recorded '' @ em_dash @ '' accepted on all)''"

definition no_lan_comment :: string where
  "no_lan_comment = ''panel (no local network '' @ em_dash @ '' accepted on every uplink)''"

definition panel_accepts :: "string list \<Rightarrow> FilterInputSpec \<Rightarrow> InputAccept list" where
  "panel_accepts all spec =
     (if \<not> fiPanelPort spec > 0 then []
      else if AdvertisedIfNames spec = [] then [accept_on all ''tcp'' (fiPanelPort spec) no_record_comment]
      else if TwoWANNoLAN spec then [accept_on all ''tcp'' (fiPanelPort spec) no_lan_comment]
      else [accept_on (AdvertisedIfNames spec) ''tcp'' (fiPanelPort spec) ''panel, domestic uplinks only''])"

text \<open>The key \<open>proto:port\<close> of a port already open is the pair; each loop gives the keys it has seen.\<close>

type_synonym seen = "(string \<times> int) list"

fun inbound_accepts :: "string list \<Rightarrow> InboundSpec list \<Rightarrow> seen \<Rightarrow> seen \<times> InputAccept list" where
  "inbound_accepts all [] seen = (seen, [])"
| "inbound_accepts all (ib # ibs) seen =
     (if \<not> isEnabled ib \<or> isPort ib \<le> 0 \<or> (isProto ib, isPort ib) \<in> set seen then inbound_accepts all ibs seen
      else (let (seen', as) = inbound_accepts all ibs ((isProto ib, isPort ib) # seen)
            in (seen', accept_on all (isProto ib) (isPort ib) (''xray inbound '' @ isTag ib) # as)))"

definition named_uplink :: "FilterInputSpec \<Rightarrow> string \<Rightarrow> string list option" where
  "named_uplink spec key = map_option (\<lambda>u. [upIfName u]) (by_key (fiUplinks spec) key)"

definition to_loopback :: "PortForward \<Rightarrow> bool" where
  "to_loopback pf = (case net_parse_ip (ToAddr pf) of None \<Rightarrow> False | Some ip \<Rightarrow> ip_is_loopback ip)"

fun forward_accepts :: "FilterInputSpec \<Rightarrow> string list \<Rightarrow> PortForward list \<Rightarrow> seen \<Rightarrow> seen \<times> InputAccept list" where
  "forward_accepts spec all [] seen = (seen, [])"
| "forward_accepts spec all (pf # pfs) seen =
     (if \<not> pfEnabled pf \<or> \<not> to_loopback pf \<or> (Proto pf, DPort pf) \<in> set seen then forward_accepts spec all pfs seen
      else (let names = (if UplinkKey pf \<noteq> [] then case_option all id (named_uplink spec (UplinkKey pf)) else all);
                (seen', as) = forward_accepts spec all pfs ((Proto pf, DPort pf) # seen)
            in (seen', accept_on names (Proto pf) (DPort pf) ''box-terminated port forward'' # as)))"

fun mapping_accepts :: "FilterInputSpec \<Rightarrow> string list \<Rightarrow> PortMapRule list \<Rightarrow> seen \<Rightarrow> InputAccept list" where
  "mapping_accepts spec all [] seen = []"
| "mapping_accepts spec all (r # rs) seen =
     (if \<not> pmEnabled r \<or> (pmProto r, pmPort r) \<in> set seen then mapping_accepts spec all rs seen
      else (case (if pmUplinkKey r \<noteq> [] then named_uplink spec (pmUplinkKey r) else Some all) of
          None \<Rightarrow> mapping_accepts spec all rs seen
        | Some names \<Rightarrow> accept_on names (pmProto r) (pmPort r) ''upstream port mapping''
            # mapping_accepts spec all rs ((pmProto r, pmPort r) # seen)))"

definition all_uplinks :: "FilterInputSpec \<Rightarrow> string list" where
  "all_uplinks spec = sort (map upIfName (fiUplinks spec))"

definition DeriveFilterInput :: "FilterInputSpec \<Rightarrow> FilterInput option" where
  "DeriveFilterInput spec =
     (if fiUplinks spec = [] then None else
      (let all = all_uplinks spec;
           hub = (if fiHubPort spec > 0 then [accept_on all ''tcp'' (fiHubPort spec) ''reverse-mode node connections''] else []);
           seen = (if fiHubPort spec > 0 then [(''tcp'', fiHubPort spec)] else []);
           (seen, ins) = inbound_accepts all (fiInbounds spec) seen;
           (seen, fwds) = forward_accepts spec all (fiPortForwards spec) seen
       in Some \<lparr>LocalIfNames = fiLocalIfNames spec,
            Accepts = panel_accepts all spec @ hub @ ins @ fwds @ mapping_accepts spec all (PortMapRules spec) seen,
            PortMapReplyIfNames = (if PortMapUplinks spec \<noteq> [] then PortMapUplinks spec else []),
            PortMapReplyPort = (if PortMapUplinks spec \<noteq> [] then PortMapLocalPort else 0)\<rparr>))"

text \<open>Everything \<open>reapplyFilterInput\<close> reads; an absent value is a source not wired or a read that failed.\<close>

record fi_env =
  feLAN :: "LANConfig option"
  feInboundsWired :: bool
  feRows :: "NetworkInterface list"
  feInbounds :: "InboundSpec list option"
  feForwards :: "PortForward list option"
  fePortMaps :: "PortMapRule list option"
  fePortMapEnabled :: bool
  fePanelPort :: int
  feHubPort :: int

definition ingressUplinkIfNames :: "Uplink list \<Rightarrow> string list" where
  "ingressUplinkIfNames us = map upIfName (sort_key UplinkIndex (filter (\<lambda>u. slot_is_domestic (upSlot u)) us))"

definition localIfNames :: "LANConfig option \<Rightarrow> NetworkInterface list \<Rightarrow> string list \<times> bool" where
  "localIfNames lan rows =
     (let names = [''lo''] @ (case lan of None \<Rightarrow> [] | Some l \<Rightarrow> if lanEnabled l then [lan_bridge l] else [])
            @ map IfName (filter Present (GetByRole RoleMgmt rows))
      in (names, length names = 1))"

definition reapplyFilterInput :: "fi_env \<Rightarrow> (Ruleset \<Rightarrow> Ruleset) option" where
  "reapplyFilterInput e =
     (case feLAN e of
        None \<Rightarrow> Some (\<lambda>rs. rs\<lparr>rsFilterInput := None\<rparr>)
      | Some l \<Rightarrow>
          if \<not> InputFirewall l \<or> \<not> feInboundsWired e then Some (\<lambda>rs. rs\<lparr>rsFilterInput := None\<rparr>)
          else (case (feInbounds e, feForwards e, if fePortMapEnabled e then fePortMaps e else Some []) of
              (Some ibs, Some pfs, Some pms) \<Rightarrow>
                (let us = uplinks (feRows e); (local, noLAN) = localIfNames (Some l) (feRows e);
                     fi = DeriveFilterInput \<lparr>fiUplinks = us, fiLocalIfNames = local, fiPanelPort = fePanelPort e, fiHubPort = feHubPort e,
                       AdvertisedIfNames = ingressUplinkIfNames us, fiInbounds = ibs, fiPortForwards = pfs, PortMapRules = pms,
                       PortMapUplinks = (if fePortMapEnabled e then map upIfName us else []), TwoWANNoLAN = noLAN\<rparr>
                 in Some (\<lambda>rs. rs\<lparr>rsFilterInput := fi\<rparr>))
            | _ \<Rightarrow> None))"


section \<open>The states the panel brings its table to\<close>

inductive panel_rs :: "Ruleset \<Rightarrow> bool" where
  zero: "panel_rs zero_ruleset"
| pins: "panel_rs rs \<Longrightarrow> panel_rs (ApplyNftState us rs)"
| lan: "panel_rs rs \<Longrightarrow> BuildDomesticSetsFrom embedded ok fetched = Some sets \<Longrightarrow> panel_rs (ApplyLANNftState l us sets tunnels rs)"
| kill: "panel_rs rs \<Longrightarrow> panel_rs (ApplyKillSwitchState us gateways probeIPs rs)"
| forwards: "panel_rs rs \<Longrightarrow> panel_rs (ApplyPortForwards rows us rs)"
| inputs: "panel_rs rs \<Longrightarrow> reapplyFilterInput e = Some f \<Longrightarrow> panel_rs (f rs)"

definition lan_set_names :: "string set" where
  "lan_set_names = {DomesticSetV4, DomesticSetV6, DomainSetV4, DomainSetV6}"

definition rs_inv :: "Ruleset \<Rightarrow> bool" where
  "rs_inv r \<longleftrightarrow> classify_declared r \<and> nsName ` set (rsSets r) \<subseteq> lan_set_names"

lemmas set_name_defs = DomesticSetV4_def DomesticSetV6_def DomainSetV4_def DomainSetV6_def

lemma BuildDomesticSetsFrom_names:
  "BuildDomesticSetsFrom embedded ok fetched = Some sets \<Longrightarrow> nsName ` set sets \<subseteq> lan_set_names"
  by (auto simp: BuildDomesticSetsFrom_def lan_set_names_def Let_def split: option.splits prod.splits if_splits)

lemma classify_fields:
  "lcBridge (classify b sets) = b"
  "DomesticV4Set (classify b sets) = (if DomesticSetV4 \<in> nsName ` set sets then DomesticSetV4 else [])"
  "DomesticV6Set (classify b sets) = (if DomesticSetV6 \<in> nsName ` set sets then DomesticSetV6 else [])"
  "DomainV4Set (classify b sets) = (if DomainSetV4 \<in> nsName ` set sets then DomainSetV4 else [])"
  "DomainV6Set (classify b sets) = (if DomainSetV6 \<in> nsName ` set sets then DomainSetV6 else [])"
  unfolding classify_def
  by (induction sets rule: rev_induct) (auto simp: set_name_defs)

lemma classify_declared_lan:
  "classify_declared (rs\<lparr>Connmark := c, rsSets := sets, rsLANClassify := Some (classify b sets), Masquerade := m, rsFilterForward := f\<rparr>)"
  by (simp add: classify_declared_def classify_fields)

lemma reapplyFilterInput_shape:
  "reapplyFilterInput e = Some f \<Longrightarrow> \<exists>fi. f = (\<lambda>rs. rs\<lparr>rsFilterInput := fi\<rparr>)"
  by (auto simp: reapplyFilterInput_def Let_def split: option.splits if_splits prod.splits)

lemma panel_rs_inv: "panel_rs r \<Longrightarrow> rs_inv r"
proof (induction rule: panel_rs.induct)
  case (lan rs embedded ok fetched sets l us tunnels)
  then show ?case
    using BuildDomesticSetsFrom_names [OF lan(2)] classify_declared_lan
    by (auto simp: rs_inv_def ApplyLANNftState_def Let_def classify_declared_def split: option.split)
next
  case (inputs rs e f)
  then show ?case by (auto simp: rs_inv_def classify_declared_def dest!: reapplyFilterInput_shape split: option.splits)
qed (simp_all add: rs_inv_def classify_declared_def zero_ruleset_def ApplyNftState_def ApplyKillSwitchState_def
    ApplyPortForwards_def Let_def split: option.splits)

text \<open>
  The manager over the panel's life: it is created on a box without the table, each writer goes through
  \<open>Update\<close>, a rollback puts an earlier state back with \<open>Replace\<close> or tears the table down.
\<close>

inductive table_reachable :: "CmdApplier Manager \<Rightarrow> bool" where
  fresh: "caTable a = None \<Longrightarrow> table_reachable \<lparr>mgApplier = a, mgRs = zero_ruleset\<rparr>"
| pins: "table_reachable m \<Longrightarrow> table_reachable (fst (mg_Update cmd_Apply (ApplyNftState us) m))"
| lan: "table_reachable m \<Longrightarrow> BuildDomesticSetsFrom embedded ok fetched = Some sets \<Longrightarrow>
    table_reachable (fst (mg_Update cmd_Apply (ApplyLANNftState l us sets tunnels) m))"
| kill: "table_reachable m \<Longrightarrow> table_reachable (fst (mg_Update cmd_Apply (ApplyKillSwitchState us gateways probeIPs) m))"
| forwards: "table_reachable m \<Longrightarrow> table_reachable (fst (mg_Update cmd_Apply (ApplyPortForwards rows us) m))"
| inputs: "table_reachable m \<Longrightarrow> reapplyFilterInput e = Some f \<Longrightarrow> table_reachable (fst (mg_Update cmd_Apply f m))"
| revert: "table_reachable m \<Longrightarrow> table_reachable old \<Longrightarrow>
    table_reachable (fst (mg_Replace cmd_Apply (mg_Snapshot old) m))"
| teardown: "table_reachable m \<Longrightarrow> table_reachable (fst (mg_Teardown cmd_Delete m))"

lemma mg_Update_panel:
  "panel_rs (mgRs m) \<Longrightarrow> panel_rs (f (mgRs m)) \<Longrightarrow> panel_rs (mgRs (fst (mg_Update ap f m)))"
  by (simp add: mg_Update_def split: prod.split)

lemma table_reachable_inv:
  "table_reachable m \<Longrightarrow> panel_rs (mgRs m) \<and> in_step caTable m"
proof (induction rule: table_reachable.induct)
  case (revert m old)
  then show ?case
    by (simp add: cmd.Replace_in_step) (simp add: mg_Replace_def mg_Snapshot_def split: prod.split)
next
  case (teardown m)
  then show ?case
    by (simp add: cmd.Teardown_in_step) (simp add: mg_Teardown_def panel_rs.zero split: prod.split)
qed (auto simp: in_step_def [of _ "\<lparr>mgApplier = _, mgRs = _\<rparr>"] intro: panel_rs.intros mg_Update_panel cmd.Update_in_step)



section \<open>The kill switch holds\<close>

lemma PinMark_match: "m AND MaskPin = PinMark i \<longleftrightarrow> Pin m = take_bit 4 i"
proof -
  have "PinMark i AND MaskPin = PinMark i" by (simp add: PinMark_def and.assoc)
  then have "m AND MaskPin = PinMark i \<longleftrightarrow> (m XOR PinMark i) AND MaskPin = 0"
    by (simp add: bit.conj_xor_distrib2) (auto simp: bit_eq_iff bit_simps)
  then show ?thesis by (simp add: mark_matches)
qed

lemma pin_constants:
  "take_bit 4 PinProbe = PinProbe" "take_bit 4 PinPortmap = PinPortmap"
  "PinMark PinProbe \<noteq> 0" "PinMark PinPortmap \<noteq> 0" "MaskPin \<noteq> 0"
  by (simp_all add: PinProbe_def PinPortmap_def PinMark_def MaskPin_def shiftPin_def take_bit_eq_mask mask_numeral)

lemma ProbeSetName_inj: "ProbeSetName i = ProbeSetName j \<longleftrightarrow> i = j"
proof
  assume "ProbeSetName i = ProbeSetName j"
  then have "undec (dec (unat i)) = undec (dec (unat j))" by (simp add: ProbeSetName_def)
  then show "i = j" by simp (metis word_of_int_uint)
qed simp

lemma set_names_apart:
  "ProbeSetName i \<noteq> []" "ProbeSetName i \<noteq> SetDoHBootstrap" "SetDoHBootstrap \<noteq> ProbeSetName i"
  "ProbeSetName i \<notin> lan_set_names" "SetDoHBootstrap \<notin> lan_set_names"
  by (simp_all add: ProbeSetName_def SetProbePrefix_def SetDoHBootstrap_def lan_set_names_def set_name_defs)

lemma secondary_uplinks:
  assumes "rows_ok rows" "u \<in> set (uplinks rows)"
  shows "UplinkIndex u \<noteq> 0" "take_bit 4 (UplinkIndex u) = UplinkIndex u" "transportMark u = PinMark (UplinkIndex u)"
  using uplinks_slot [OF assms] slot_index by (auto simp: transportMark_def)

lemma uplink_index_inj:
  assumes "rows_ok rows" "u \<in> set (uplinks rows)" "v \<in> set (uplinks rows)" "UplinkIndex u = UplinkIndex v"
  shows "u = v"
proof -
  have "upSlot u = upSlot v"
    using uplinks_slot [OF assms(1,2)] uplinks_slot [OF assms(1,3)] assms(4) slot_index_inj by metis
  with uplinks_distinct [OF assms(1)] assms(2,3) show ?thesis by (auto simp: distinct_map dest: inj_onD)
qed

lemma set_killSwitchLegs:
  "set (killSwitchLegs us gw pr) = (\<lambda>u. \<lparr>kIfName = upIfName u, kGatewayIP = gw (upIfName u), kPinValue = transportMark u,
     kProbeSet = ProbeSetName (UplinkIndex u), kProbeIPs = pr (upSlot u)\<rparr>) ` {u \<in> set us. slot_is_secondary (upSlot u)}"
  by (simp add: killSwitchLegs_def secondariesOf_def)

text \<open>What a new packet on the secondary uplink \<open>u\<close> has to be for the kill switch to let it out.\<close>

definition may_leave :: "(string \<Rightarrow> string) \<Rightarrow> (UplinkSlot \<Rightarrow> string list) \<Rightarrow> Uplink \<Rightarrow> packet \<Rightarrow> bool" where
  "may_leave gw pr u p \<longleftrightarrow>
     Pin (pkMark p) = UplinkIndex u \<and> (pkProto p = ''udp''
        \<or> pkProto p = ''tcp'' \<and> pkDport p = 443 \<and> list_ex (\<lambda>a. addr_matches a (pkDst p)) BootstrapIPs)
     \<or> Pin (pkMark p) = PinProbe \<and> list_ex (\<lambda>a. addr_matches a (pkDst p)) (pr (upSlot u))
     \<or> Pin (pkMark p) = PinPortmap \<and> pkProto p = ''udp'' \<and> pkDport p \<in> {1900, 5351}
     \<or> pkProto p = ''udp'' \<and> pkSport p = 68 \<and> pkDport p = 67
     \<or> gw (upIfName u) \<noteq> [] \<and> addr_matches (gw (upIfName u)) (pkDst p)
     \<or> addr_matches StarlinkDishSubnet (pkDst p)"

lemma in_set_kill_switch:
  assumes "rs_inv r" "rsKillSwitch r = Some (kill_switch legs)"
  shows "in_set dyn r SetDoHBootstrap d \<longleftrightarrow> list_ex (\<lambda>a. addr_matches a d) BootstrapIPs
      \<or> (\<exists>leg \<in> set legs. probed leg \<and> kProbeSet leg = SetDoHBootstrap \<and> list_ex (\<lambda>a. addr_matches a d) (kProbeIPs leg))"
    "in_set dyn r (ProbeSetName i) d \<longleftrightarrow>
      (\<exists>leg \<in> set legs. probed leg \<and> kProbeSet leg = ProbeSetName i \<and> list_ex (\<lambda>a. addr_matches a d) (kProbeIPs leg))"
proof -
  have "\<forall>s \<in> set (rsSets r). nsName s \<noteq> SetDoHBootstrap \<and> nsName s \<noteq> ProbeSetName i"
    using assms(1) set_names_apart(4,5) by (force simp: rs_inv_def)
  then show "in_set dyn r SetDoHBootstrap d \<longleftrightarrow> list_ex (\<lambda>a. addr_matches a d) BootstrapIPs
      \<or> (\<exists>leg \<in> set legs. probed leg \<and> kProbeSet leg = SetDoHBootstrap \<and> list_ex (\<lambda>a. addr_matches a d) (kProbeIPs leg))"
    "in_set dyn r (ProbeSetName i) d \<longleftrightarrow>
      (\<exists>leg \<in> set legs. probed leg \<and> kProbeSet leg = ProbeSetName i \<and> list_ex (\<lambda>a. addr_matches a d) (kProbeIPs leg))"
    using assms(2) set_names_apart
    by (auto simp: in_set_def declared_sets_def kill_switch_def pin_constants list_ex_iff BootstrapIPs_def bex_Un)
qed


text \<open>The exemptions of the rendered chain, for a packet on one secondary uplink.\<close>

lemma exempt_may_leave:
  assumes rows: "rows_ok rows" and names: "distinct (map upIfName (uplinks rows))"
    and r: "rs_inv r" "rsKillSwitch r = Some (kill_switch (killSwitchLegs (uplinks rows) gw pr))"
    and u: "u \<in> set (uplinks rows)" "slot_is_secondary (upSlot u)" and p: "pkOif p = upIfName u"
  shows "exempt (in_set dyn r) (kill_switch (killSwitchLegs (uplinks rows) gw pr)) p \<longleftrightarrow> may_leave gw pr u p"
proof -
  let ?legs = "killSwitchLegs (uplinks rows) gw pr"
  have same: "v = u" if "v \<in> set (uplinks rows)" "upIfName v = upIfName u" for v
    using that names u(1) by (auto simp: distinct_map dest: inj_onD)
  have leg: "(\<exists>leg \<in> set ?legs. pkOif p = kIfName leg \<and> P leg) \<longleftrightarrow>
      P \<lparr>kIfName = upIfName u, kGatewayIP = gw (upIfName u), kPinValue = PinMark (UplinkIndex u),
         kProbeSet = ProbeSetName (UplinkIndex u), kProbeIPs = pr (upSlot u)\<rparr>" for P
    using same u p secondary_uplinks(3) [OF rows u(1)] by (auto simp: set_killSwitchLegs)
  have doh: "in_set dyn r SetDoHBootstrap d \<longleftrightarrow> list_ex (\<lambda>a. addr_matches a d) BootstrapIPs" for d
    using in_set_kill_switch(1) [OF r] by (auto simp: set_killSwitchLegs set_names_apart)
  have probe: "in_set dyn r (ProbeSetName (UplinkIndex u)) d \<longleftrightarrow> list_ex (\<lambda>a. addr_matches a d) (pr (upSlot u))" for d
    using in_set_kill_switch(2) [OF r] u
    by (auto simp: set_killSwitchLegs ProbeSetName_inj probed_def set_names_apart list_ex_iff
        dest: uplink_index_inj [OF rows _ u(1)])
  have legs: "(\<exists>leg \<in> set ?legs. Q leg \<and> pkOif p = kIfName leg \<and> R leg) \<longleftrightarrow>
     (\<exists>leg \<in> set ?legs. pkOif p = kIfName leg \<and> Q leg \<and> R leg)" for Q R by auto
  show ?thesis
    unfolding exempt_def may_leave_def kill_switch_def KillSwitch.simps legs leg KillSwitchLeg.simps
      PinMark_match pin_constants secondary_uplinks(2) [OF rows u(1)] doh probe
    by (auto simp: BootstrapIPs_def StarlinkDishSubnet_def probed_def set_names_apart pin_constants)
qed


text \<open>
  C2. Nothing leaves a secondary uplink in the clear. With the kill switch the panel builds for its
  interfaces in the table, whatever else the table holds, a packet of a new flow gets out of a secondary
  uplink exactly when it is that uplink's own tunnel transport (its own pin, over UDP), a lookup at one of
  the four fixed resolvers under that pin, a health probe to an address this very line is checked
  against, the port mapper talking to the router, a DHCP request, or addressed to the line's gateway or
  the dish. Another uplink's pin never gets out, and a forwarded packet only to the dish.
\<close>

theorem kill_switch_holds:
  assumes "rows_ok rows" "distinct (map upIfName (uplinks rows))"
    and "panel_rs r" "rsKillSwitch r = Some (kill_switch (killSwitchLegs (uplinks rows) gw pr))"
    and "u \<in> set (uplinks rows)" "slot_is_secondary (upSlot u)"
    and "pkOif p = upIfName u" "\<not> pkEstablished p"
  shows "(hook_passes (in_set dyn r) (nft_chains r) ''output'' p \<longleftrightarrow> may_leave gw pr u p)
    \<and> (hook_passes (in_set dyn r) (nft_chains r) ''forward'' p \<longrightarrow> addr_matches StarlinkDishSubnet (pkDst p))"
proof -
  let ?k = "kill_switch (killSwitchLegs (uplinks rows) gw pr)"
  have leg: "upIfName u \<in> kIfName ` set (Legs ?k)"
    using assms(5,6) by (force simp: kill_switch_def set_killSwitchLegs)
  then have k: "Legs ?k \<noteq> []" by auto
  have "hook_passes (in_set dyn r) (nft_chains r) ''output'' p \<longleftrightarrow> exempt (in_set dyn r) ?k p"
    using assms(4,7,8) k leg by (auto simp: output_hook killswitch_out_passes)
  moreover have "hook_passes (in_set dyn r) (nft_chains r) ''forward'' p \<Longrightarrow> addr_matches StarlinkDishSubnet (pkDst p)"
    using assms(4,7,8) k leg by (auto simp: forward_hook killswitch_fwd_passes kill_switch_def)
  ultimately show ?thesis
    using exempt_may_leave [OF assms(1,2) panel_rs_inv [OF assms(3)] assms(4-7)] by blast
qed

section \<open>The LAN\<close>

lemma run_pins:
  "pkIif p \<notin> npIfName ` set ps \<Longrightarrow>
    run S (map (\<lambda>q. Stmt [IifName (npIfName q), CtStateNew] (PinCtMark k (f q))) ps @ ls) p = run S ls p"
  by (induction ps) auto

lemma group_bits:
  "GroupMark GroupDomestic AND MaskGroup \<noteq> 0" "GroupMark GroupDomestic AND NOT MaskGroup = 0"
  "Group (GroupMark GroupDomestic) = GroupDomestic" "Group (GroupMark GroupForeign) = GroupForeign"
  "Pin (GroupMark GroupDomestic) = 0" "Pin (GroupMark GroupForeign) = 0"
  by (simp_all add: GroupMark_def Group_def Pin_def GroupDomestic_def GroupForeign_def MaskGroup_def MaskPin_def
      shiftGroup_def shiftPin_def)

lemma classify_marks:
  assumes "pkIif p = lcBridge c" "pkMark p = 0"
  shows "snd (run S (renderLANClassify (Some c)) p) = p\<lparr>pkMark := GroupMark
    (if DomesticV4Set c \<noteq> [] \<and> S (DomesticV4Set c) (pkDst p) \<or> DomainV4Set c \<noteq> [] \<and> S (DomainV4Set c) (pkDst p)
     then GroupDomestic else GroupForeign)\<rparr>"
  using assms group_bits(1,2) by (simp add: renderLANClassify_def Let_def)

text \<open>What a new packet of a LAN host carries when the routing decision is taken.\<close>

lemma lan_packet_marked:
  assumes "rsLANClassify r = Some c" "pkIif p = lcBridge c" "pkMark p = 0" "pkCtMark p = 0"
    and "lcBridge c \<notin> npIfName ` set (IngressPins r)"
  shows "chain_packet S (mangle_pre r) p = p\<lparr>pkMark := GroupMark
    (if DomesticV4Set c \<noteq> [] \<and> S (DomesticV4Set c) (pkDst p) \<or> DomainV4Set c \<noteq> [] \<and> S (DomainV4Set c) (pkDst p)
     then GroupDomestic else GroupForeign)\<rparr>"
  using assms classify_marks [OF assms(2,3), of S]
  by (simp add: chain_packet_def mangle_pre_def run_pins)

lemma filter_fwd_passes:
  "filter_fwd r = Some ch \<Longrightarrow> rsFilterForward r = Some f \<Longrightarrow> chain_passes S ch p \<longleftrightarrow>
     pkEstablished p \<or> pkIif p = ffBridge f \<and> pkOif p \<in> set (ffUplinks f) \<or> pkDnat p"
  by (auto simp: filter_fwd_def accepting_chain_passes)

lemma secondary_not_egress:
  assumes "u \<in> set us" "slot_is_secondary (upSlot u)" "distinct (map upIfName us @ tunnels)"
  shows "upIfName u \<notin> set (lanEgressNames us tunnels)"
  using assms by (auto simp: lanEgressNames_def distinct_map dest: inj_onD)



section \<open>The input chain\<close>

definition accepted_by :: "packet \<Rightarrow> InputAccept \<Rightarrow> bool" where
  "accepted_by p a \<longleftrightarrow> pkIif p \<in> set (iaIfNames a) \<and> pkProto p = iaProto a \<and> pkDport p = iaPort a"

lemma input_accept_taken [simp]: "only_accepts (input_accept a)" "taken S p (input_accept a) \<longleftrightarrow> accepted_by p a"
  by (auto simp: input_accept_def accepted_by_def split: list.split)

lemma taken_concat: "taken S p (concat (map g xs)) \<longleftrightarrow> (\<exists>x \<in> set xs. taken S p (g x))"
  by (induction xs) auto

lemma filter_in_passes:
  assumes "rsFilterInput r = Some f"
  shows "hook_passes S (nft_chains r) ''input'' p \<longleftrightarrow> pkEstablished p \<or> pkIif p \<in> set (LocalIfNames f) \<or> pkIcmp p
    \<or> PortMapReplyPort f > 0 \<and> pkIif p \<in> set (PortMapReplyIfNames f) \<and> pkProto p = ''udp'' \<and> pkDport p = PortMapReplyPort f
    \<or> list_ex (accepted_by p) (Accepts f)"
proof -
  have "chain_passes S (filter_in_chain f) p \<longleftrightarrow> pkEstablished p \<or> pkIif p \<in> set (LocalIfNames f) \<or> pkIcmp p
    \<or> PortMapReplyPort f > 0 \<and> pkIif p \<in> set (PortMapReplyIfNames f) \<and> pkProto p = ''udp'' \<and> pkDport p = PortMapReplyPort f
    \<or> list_ex (accepted_by p) (Accepts f)"
    unfolding filter_in_chain_def
    by (subst accepting_chain_passes(1)) (auto simp: taken_concat list_ex_iff list_all_iff)
  then show ?thesis using assms by (simp add: input_hook filter_in_def)
qed

text \<open>What may be open on the uplink \<open>n\<close>.\<close>

definition opens :: "FilterInputSpec \<Rightarrow> string \<Rightarrow> string \<Rightarrow> int \<Rightarrow> bool" where
  "opens spec n proto port \<longleftrightarrow>
     proto = ''tcp'' \<and> port = fiPanelPort spec \<and> port > 0 \<and>
       (n \<in> set (AdvertisedIfNames spec) \<or> AdvertisedIfNames spec = [] \<or> TwoWANNoLAN spec)
     \<or> proto = ''tcp'' \<and> port = fiHubPort spec \<and> port > 0
     \<or> list_ex (\<lambda>ib. isEnabled ib \<and> isPort ib > 0 \<and> isProto ib = proto \<and> isPort ib = port) (fiInbounds spec)
     \<or> list_ex (\<lambda>pf. pfEnabled pf \<and> to_loopback pf \<and> Proto pf = proto \<and> DPort pf = port) (fiPortForwards spec)
     \<or> list_ex (\<lambda>m. pmEnabled m \<and> pmProto m = proto \<and> pmPort m = port \<and>
         (pmUplinkKey m = [] \<or> named_uplink spec (pmUplinkKey m) = Some [n])) (PortMapRules spec)
     \<or> proto = ''udp'' \<and> port = PortMapLocalPort \<and> n \<in> set (PortMapUplinks spec)"

lemma inbound_accepts_sound:
  "inbound_accepts all ibs seen = (seen', as) \<Longrightarrow> a \<in> set as \<Longrightarrow>
    \<exists>ib \<in> set ibs. isEnabled ib \<and> isPort ib > 0 \<and> isProto ib = iaProto a \<and> isPort ib = iaPort a"
  by (induction all ibs seen arbitrary: seen' as rule: inbound_accepts.induct)
     (auto simp: accept_on_def Let_def split: if_splits prod.splits)

lemma inbound_accepts_complete:
  "inbound_accepts all ibs seen = (seen', as) \<Longrightarrow> ib \<in> set ibs \<Longrightarrow> isEnabled ib \<Longrightarrow> isPort ib > 0 \<Longrightarrow>
    (isProto ib, isPort ib) \<in> set seen \<or> (\<exists>a \<in> set as. iaIfNames a = all \<and> iaProto a = isProto ib \<and> iaPort a = isPort ib)"
proof (induction all ibs seen arbitrary: seen' as rule: inbound_accepts.induct)
  case (2 all x ibs seen)
  then show ?case by (fastforce simp: accept_on_def Let_def split: if_splits prod.splits)
qed simp

lemma forward_accepts_sound:
  "forward_accepts spec all pfs seen = (seen', as) \<Longrightarrow> a \<in> set as \<Longrightarrow>
    \<exists>pf \<in> set pfs. pfEnabled pf \<and> to_loopback pf \<and> Proto pf = iaProto a \<and> DPort pf = iaPort a"
proof (induction pfs arbitrary: seen seen' as)
  case (Cons pf pfs)
  then show ?case by (fastforce simp: accept_on_def Let_def split: if_splits prod.splits)
qed simp

lemma mapping_accepts_sound:
  "a \<in> set (mapping_accepts spec all rs seen) \<Longrightarrow>
    \<exists>m \<in> set rs. pmEnabled m \<and> pmProto m = iaProto a \<and> pmPort m = iaPort a \<and>
      (pmUplinkKey m = [] \<or> named_uplink spec (pmUplinkKey m) = Some (iaIfNames a))"
  by (induction spec all rs seen rule: mapping_accepts.induct)
     (auto simp: accept_on_def split: if_splits option.splits)

lemma named_uplink_single: "named_uplink spec key = Some ns \<Longrightarrow> n \<in> set ns \<Longrightarrow> ns = [n]"
  by (auto simp: named_uplink_def)



section \<open>Reconciling the table\<close>

text \<open>
  The table writes of \<open>Reconcile\<close> in their order: the kill switch before anything that can fail, the
  pins after the tunnels and the rules are in place, then the LAN plane.
\<close>

record rec_env =
  reRows :: "NetworkInterface list"
  reProbeIPs :: "UplinkSlot \<Rightarrow> string list"
  reDevicesOK :: bool
  reRulesOK :: bool
  reTunnels :: "string list"
  reLAN :: "LANConfig option"
  reSets :: "nft_Set list option"

definition applyLAN_table :: "rec_env \<Rightarrow> Uplink list \<Rightarrow> CmdApplier Manager \<Rightarrow> CmdApplier Manager \<times> bool" where
  "applyLAN_table e us m =
     (case reLAN e of
        None \<Rightarrow> mg_Update cmd_Apply (ApplyLANNftState None us [] (reTunnels e)) m
      | Some l \<Rightarrow> if \<not> lanEnabled l then mg_Update cmd_Apply (ApplyLANNftState None us [] (reTunnels e)) m
          else (case reSets e of None \<Rightarrow> (m, False)
            | Some sets \<Rightarrow> mg_Update cmd_Apply (ApplyLANNftState (Some l) us sets (reTunnels e)) m))"

definition Reconcile_table :: "rec_env \<Rightarrow> CmdApplier Manager \<Rightarrow> CmdApplier Manager \<times> bool" where
  "Reconcile_table e m =
     (let us = uplinks (reRows e) in
      if us = [] then (m, True)
      else (case mg_Update cmd_Apply (ApplyKillSwitchState us (secondaryGateways us (reRows e)) (reProbeIPs e)) m of
          (m, False) \<Rightarrow> (m, False)
        | (m, True) \<Rightarrow>
            if \<not> reDevicesOK e \<or> \<not> reRulesOK e then (m, False)
            else (case mg_Update cmd_Apply (ApplyNftState us) m of
                (m, False) \<Rightarrow> (m, False)
              | (m, True) \<Rightarrow> applyLAN_table e us m)))"

text \<open>The parts of the state no writer of \<open>Reconcile\<close> looks at.\<close>

definition edited_parts :: "Ruleset \<Rightarrow> nft_PortForward list \<times> FilterInput option" where
  "edited_parts rs = (rsPortForwards rs, rsFilterInput rs)"

lemma edited_parts_kept [simp]:
  "edited_parts (ApplyNftState us rs) = edited_parts rs" "edited_parts (ApplyKillSwitchState us gw pr rs) = edited_parts rs"
  "edited_parts (ApplyLANNftState l us sets tunnels rs) = edited_parts rs"
  by (simp_all add: edited_parts_def ApplyNftState_def ApplyKillSwitchState_def ApplyLANNftState_def Let_def split: option.split)

lemma Update_edited_parts:
  assumes "mg_Update cmd_Apply f m = (m', ok)" "\<And>rs. edited_parts (f rs) = edited_parts rs"
  shows "edited_parts (mgRs m') = edited_parts (mgRs m)" "ok \<Longrightarrow> caTable (mgApplier m') = Some (Render (mgRs m'))"
  using cmd.Update_result [OF assms(1)] assms(2) by (auto split: if_splits)

lemma applyLAN_table_edited_parts:
  assumes "applyLAN_table e us m = (m', ok)"
  shows "edited_parts (mgRs m') = edited_parts (mgRs m) \<and> (ok \<longrightarrow> caTable (mgApplier m') = Some (Render (mgRs m')))"
  using assms Update_edited_parts
  by (auto simp: applyLAN_table_def split: option.splits if_splits)

lemma Reconcile_table_edited_parts:
  assumes "Reconcile_table e m = (m', ok)"
  shows "edited_parts (mgRs m') = edited_parts (mgRs m)
    \<and> (ok \<longrightarrow> uplinks (reRows e) \<noteq> [] \<longrightarrow> caTable (mgApplier m') = Some (Render (mgRs m')))"
proof (cases "uplinks (reRows e) = []")
  case False
  let ?us = "uplinks (reRows e)"
  obtain m1 ok1 where 1: "mg_Update cmd_Apply (ApplyKillSwitchState ?us (secondaryGateways ?us (reRows e)) (reProbeIPs e)) m = (m1, ok1)"
    by fastforce
  obtain m2 ok2 where 2: "mg_Update cmd_Apply (ApplyNftState ?us) m1 = (m2, ok2)" by fastforce
  obtain m3 ok3 where 3: "applyLAN_table e ?us m2 = (m3, ok3)" by fastforce
  from assms 1 2 3 False have "m' = m1 \<and> \<not> ok \<or> m' = m2 \<and> \<not> ok \<or> m' = m3 \<and> ok = ok3"
    by (auto simp: Reconcile_table_def Let_def split: if_splits bool.splits)
  with Update_edited_parts(1) [OF 1] Update_edited_parts(1) [OF 2] applyLAN_table_edited_parts [OF 3] show ?thesis by auto
qed (use assms in \<open>simp add: Reconcile_table_def\<close>)

text \<open>
  C17. The reconciler trusts its memory, not the rows. Every write replaces the whole table by what the
  process remembers, and reconciling recomputes neither the port forwards nor the input chain. So after a
  restart of the panel a successful reconcile leaves a table without any port forward and without the
  input firewall, whatever the rows say, until one of them is edited; and when the dead-man's process has
  put the earlier table back after a change that shut the operator out, the reconcile with which the
  panel reacts loads the reverted input chain again.
\<close>

theorem reconcile_trusts_its_memory:
  assumes "uplinks (reRows e) \<noteq> []"
  shows "(Reconcile_table e \<lparr>mgApplier = a, mgRs = zero_ruleset\<rparr> = (m', True) \<longrightarrow>
      caTable (mgApplier m') = Some (Render (mgRs m')) \<and> rsPortForwards (mgRs m') = [] \<and> rsFilterInput (mgRs m') = None)
    \<and> (mg_Replace cmd_Apply old \<lparr>mgApplier = mgApplier panel, mgRs = zero_ruleset\<rparr> = (timer, True) \<longrightarrow>
       Reconcile_table e (panel\<lparr>mgApplier := mgApplier timer\<rparr>) = (m'', True) \<longrightarrow>
      caTable (mgApplier m'') = Some (Render (mgRs m'')) \<and> rsFilterInput (mgRs m'') = rsFilterInput (mgRs panel))"
  using Reconcile_table_edited_parts [of e] assms by (fastforce simp: edited_parts_def zero_ruleset_def)

section \<open>Examples\<close>

text \<open>A domestic and a secondary uplink; the forwards of the two end on the box.\<close>

definition two_uplinks :: "Uplink list" where
  "two_uplinks = uplinks example_rows"

definition box_forward :: "string \<Rightarrow> int \<Rightarrow> int \<Rightarrow> PortForward" where
  "box_forward key dport toport = example_forward\<lparr>UplinkKey := key, DPort := dport, ToAddr := ''127.0.0.1'', ToPort := toport\<rparr>"

definition example_spec :: "PortForward list \<Rightarrow> FilterInputSpec" where
  "example_spec pfs = \<lparr>fiUplinks = two_uplinks, fiLocalIfNames = [''lo''], fiPanelPort = 8080, fiHubPort = 0,
     AdvertisedIfNames = ingressUplinkIfNames two_uplinks, fiInbounds = [], fiPortForwards = pfs, PortMapRules = [],
     PortMapUplinks = [], TwoWANNoLAN = False\<rparr>"

definition example_table :: "PortForward list \<Rightarrow> Ruleset" where
  "example_table pfs = zero_ruleset\<lparr>rsPortForwards := RenderPortForwards pfs two_uplinks,
     rsFilterInput := DeriveFilterInput (example_spec pfs)\<rparr>"

definition arriving :: "string \<Rightarrow> int \<Rightarrow> packet" where
  "arriving n port = \<lparr>pkIif = n, pkOif = [], pkMark = 0, pkCtMark = 0, pkEstablished = False, pkDnat = False, pkProto = ''tcp'',
     pkSport = 40000, pkDport = port, pkDst = 0x0A000001, pkLocal = True, pkIcmp = False\<rparr>"

definition served :: "PortForward list \<Rightarrow> packet \<Rightarrow> bool" where
  "served pfs p = (let r = example_table pfs; S = in_set (\<lambda>_ _. False) r
     in hook_passes S (nft_chains r) ''input'' (chain_packet S (nat_pre_chain r) p))"




definition example_manager :: "CmdApplier Manager" where
  "example_manager = \<lparr>mgApplier = \<lparr>caTable = None, caFails = [True]\<rparr>, mgRs = zero_ruleset\<rparr>"


definition example_kill_switch :: Ruleset where
  "example_kill_switch = ApplyKillSwitchState (uplinks example_rows) (\<lambda>_. ''10.0.0.1'') (\<lambda>_. [''9.9.9.9'']) zero_ruleset"

definition example_secondary :: Uplink where
  "example_secondary = uplink_of (example_iface\<lparr>ifID := 2, ifKey := ''k2'', IfName := ''eth1'', Slot := SlotSecondary\<rparr>)"

lemma example_uplinks: "uplinks example_rows = [uplink_of example_iface, example_secondary]"
  by code_simp

definition leaving :: "string \<Rightarrow> u32 \<Rightarrow> packet" where
  "leaving n m = (arriving [] 443)\<lparr>pkOif := n, pkMark := m, pkDst := 0x08080404\<rparr>"

theorem kill_switch_holds_witness:
  "hook_passes (in_set (\<lambda>_ _. False) example_kill_switch) (nft_chains example_kill_switch) ''output'' (leaving ''eth1'' 0x02000000)
   \<and> \<not> hook_passes (in_set (\<lambda>_ _. False) example_kill_switch) (nft_chains example_kill_switch) ''output'' (leaving ''eth1'' 0x03000000)"
proof -
  have rows: "rows_ok example_rows" by (rule example_rows_ok'(1))
  have names: "distinct (map upIfName (uplinks example_rows))" by code_simp
  have r: "panel_rs example_kill_switch" unfolding example_kill_switch_def by (intro panel_rs.intros)
  have k: "rsKillSwitch example_kill_switch = Some (kill_switch (killSwitchLegs (uplinks example_rows) (\<lambda>_. ''10.0.0.1'') (\<lambda>_. [''9.9.9.9''])))"
    unfolding example_kill_switch_def ApplyKillSwitchState_def Let_def example_uplinks
    by (simp add: killSwitchLegs_def secondariesOf_def example_secondary_def uplink_of_def slot_is_secondary_def)
  have u: "example_secondary \<in> set (uplinks example_rows)" "slot_is_secondary (upSlot example_secondary)"
    by (simp_all add: example_uplinks example_secondary_def uplink_of_def slot_is_secondary_def)
  have p: "pkOif (leaving ''eth1'' m) = upIfName example_secondary" "\<not> pkEstablished (leaving ''eth1'' m)" for m
    by (simp_all add: leaving_def arriving_def example_secondary_def uplink_of_def)
  have "may_leave (\<lambda>_. ''10.0.0.1'') (\<lambda>_. [''9.9.9.9'']) example_secondary (leaving ''eth1'' 0x02000000)"
    "\<not> may_leave (\<lambda>_. ''10.0.0.1'') (\<lambda>_. [''9.9.9.9'']) example_secondary (leaving ''eth1'' 0x03000000)"
    by code_simp+
  with kill_switch_holds [OF rows names r k u p] show ?thesis by blast
qed

definition example_input :: FilterInput where
  "example_input = \<lparr>LocalIfNames = [''lo''], Accepts = [accept_on [''eth0''] ''tcp'' 8080 ''panel, domestic uplinks only''],
     PortMapReplyIfNames = [], PortMapReplyPort = 0\<rparr>"



definition example_lan_table :: Ruleset where
  "example_lan_table = ApplyLANNftState (Some (example_lan\<lparr>lanEnabled := True\<rparr>)) (uplinks example_rows)
     [\<lparr>nsName = DomesticSetV4, nsFamily = ''ipv4_addr'', nsInterval = True, nsTimeout = [], nsElements = [''2.144.0.0/13'']\<rparr>]
     [''nasnet-wg0''] zero_ruleset"

definition from_lan :: packet where
  "from_lan = (arriving ''lan0'' 443)\<lparr>pkLocal := False, pkDst := 0x08080808\<rparr>"



definition example_rec_env :: rec_env where
  "example_rec_env = \<lparr>reRows = example_rows, reProbeIPs = (\<lambda>_. []), reDevicesOK = True, reRulesOK = True, reTunnels = [],
     reLAN = None, reSets = None\<rparr>"

text \<open>The panel has armed the input chain; the dead-man's process has put the empty table back.\<close>

definition armed_panel :: "CmdApplier Manager" where
  "armed_panel = \<lparr>mgApplier = \<lparr>caTable = None, caFails = []\<rparr>, mgRs = zero_ruleset\<lparr>rsFilterInput := Some example_input\<rparr>\<rparr>"

lemma working_applier:
  "caFails (mgApplier m) = [] \<Longrightarrow> \<exists>m'. mg_Update cmd_Apply f m = (m', True) \<and> caFails (mgApplier m') = []"
  by (simp add: mg_Update_def cmd_Apply_def)

lemma example_reconciles:
  assumes "caFails (mgApplier m) = []"
  shows "\<exists>m'. Reconcile_table example_rec_env m = (m', True)"
proof -
  have us: "uplinks (reRows example_rec_env) \<noteq> []" by (simp add: example_rec_env_def example_uplinks)
  let ?us = "uplinks (reRows example_rec_env)"
  obtain m1 where 1: "mg_Update cmd_Apply (ApplyKillSwitchState ?us (secondaryGateways ?us (reRows example_rec_env)) (reProbeIPs example_rec_env)) m = (m1, True)"
    "caFails (mgApplier m1) = []" using working_applier [OF assms] by blast
  obtain m2 where 2: "mg_Update cmd_Apply (ApplyNftState ?us) m1 = (m2, True)" "caFails (mgApplier m2) = []"
    using working_applier [OF 1(2)] by blast
  have e: "reDevicesOK example_rec_env" "reRulesOK example_rec_env" "reLAN example_rec_env = None"
    by (simp_all add: example_rec_env_def)
  from working_applier [OF 2(2)] show ?thesis
    unfolding Reconcile_table_def Let_def applyLAN_table_def e using us e 1(1) 2(1) by auto
qed

theorem reconcile_trusts_its_memory_witness:
  "\<exists>timer m. mg_Replace cmd_Apply zero_ruleset \<lparr>mgApplier = mgApplier armed_panel, mgRs = zero_ruleset\<rparr> = (timer, True)
     \<and> Reconcile_table example_rec_env (armed_panel\<lparr>mgApplier := mgApplier timer\<rparr>) = (m, True)
     \<and> rsFilterInput (mgRs m) = Some example_input"
proof -
  have us: "uplinks (reRows example_rec_env) \<noteq> []" by (simp add: example_rec_env_def example_uplinks)
  obtain timer where t: "mg_Replace cmd_Apply zero_ruleset \<lparr>mgApplier = mgApplier armed_panel, mgRs = zero_ruleset\<rparr> = (timer, True)"
    "caFails (mgApplier timer) = []"
    by (simp add: mg_Replace_def cmd_Apply_def armed_panel_def)
  moreover obtain m where m: "Reconcile_table example_rec_env (armed_panel\<lparr>mgApplier := mgApplier timer\<rparr>) = (m, True)"
    using example_reconciles [of "armed_panel\<lparr>mgApplier := mgApplier timer\<rparr>"] t(2) by auto
  ultimately show ?thesis
    using reconcile_trusts_its_memory [OF us, of undefined undefined zero_ruleset armed_panel timer m]
    by (auto simp: armed_panel_def)
qed

end
