(* ===== verification/Health.thy ===== *)
theory Health
  imports Routing_Rules
begin

text \<open>
  \<open>internal/network/usecase/health.go\<close>: the monitor that damps probe results into one decision per
  uplink, the route operation that carries the decision out, and the verdicts on leased addresses.
  A moment is an integer number of nanoseconds, the zero time of \<open>lastDownAt\<close> is \<open>None\<close>. The damping
  settings can be reloaded at any time, so every observation carries its own; a probe that fails is
  \<open>None\<close>.
\<close>

section \<open>The monitor\<close>

record DampingConfig =
  FailuresToDown :: int
  SuccessesToUp :: int
  FailbackDwell :: int

definition DefaultDamping :: DampingConfig where
  "DefaultDamping = \<lparr>FailuresToDown = 3, SuccessesToUp = 6, FailbackDwell = 60 * 1000000000\<rparr>"

record uplinkState =
  up :: bool
  fails :: int
  successes :: int
  lastDownAt :: "int option"
  everObserved :: bool
  everUp :: bool

definition new_state :: uplinkState where
  "new_state = \<lparr>up = False, fails = 0, successes = 0, lastDownAt = None, everObserved = False, everUp = False\<rparr>"

text \<open>\<open>setLocked\<close>: the new state, and whether \<open>OnChange\<close> is called.\<close>

definition setLocked :: "int \<Rightarrow> uplinkState \<Rightarrow> bool \<Rightarrow> uplinkState \<times> bool" where
  "setLocked now st v =
     (let changed = (up st \<noteq> v \<or> \<not> everObserved st);
          st = st\<lparr>up := v, everObserved := True\<rparr>;
          st = (if v then st\<lparr>everUp := True\<rparr> else st);
          st = st\<lparr>fails := 0, successes := 0\<rparr>;
          st = (if \<not> v then st\<lparr>lastDownAt := Some now\<rparr> else st)
      in (st, changed))"

record observation =
  oDamping :: DampingConfig
  oNow :: int
  oForce :: string
  oCarrier :: "bool option"
  oReachable :: "bool option"

text \<open>One probe cycle: the state after it, whether it changed, and whether the carrier probe failed.\<close>

definition observe :: "observation \<Rightarrow> uplinkState \<Rightarrow> uplinkState \<times> bool \<times> bool" where
  "observe o' st =
     (let d = oDamping o' in
      if oForce o' = ''up'' then (let (st, ch) = setLocked (oNow o') st True in (st, ch, False))
      else if oForce o' = ''down'' then (let (st, ch) = setLocked (oNow o') st False in (st, ch, False))
      else case oCarrier o' of
        None \<Rightarrow> (st, False, True)
      | Some False \<Rightarrow>
          (let st = st\<lparr>fails := FailuresToDown d\<rparr>; (st, ch) = setLocked (oNow o') st False in (st, ch, False))
      | Some True \<Rightarrow>
          if oReachable o' = Some True then
            (let st = st\<lparr>fails := 0, successes := successes st + 1\<rparr> in
             if \<not> up st \<and> successes st \<ge> SuccessesToUp d then
               (if (case lastDownAt st of None \<Rightarrow> False | Some t \<Rightarrow> oNow o' - t < FailbackDwell d)
                then (st, False, False)
                else let (st, ch) = setLocked (oNow o') st True in (st, ch, False))
             else (if \<not> everObserved st \<and> up st then st\<lparr>everObserved := True\<rparr> else st, False, False))
          else
            (let st = st\<lparr>successes := 0, fails := fails st + 1\<rparr> in
             if up st \<and> fails st \<ge> FailuresToDown d
             then (let (st, ch) = setLocked (oNow o') st False in (st, ch, False))
             else (if \<not> everObserved st then st\<lparr>everObserved := True\<rparr> else st, False, False)))"

record HealthMonitor =
  states :: "string \<Rightarrow> uplinkState option"
  changes :: "(string \<times> bool) list"

text \<open>\<open>Observe\<close>: whether the uplink is up, whether that changed, whether it failed.\<close>

definition Observe :: "string \<Rightarrow> observation \<Rightarrow> HealthMonitor \<Rightarrow> (bool \<times> bool \<times> bool) \<times> HealthMonitor" where
  "Observe ifname o' h =
     (let st = (case states h ifname of None \<Rightarrow> new_state | Some st \<Rightarrow> st);
          (st', ch, err) = observe o' st
      in ((up st', ch, err),
          h\<lparr>states := (states h)(ifname \<mapsto> st'),
            changes := changes h @ (if ch then [(ifname, up st')] else [])\<rparr>))"

definition EverUp :: "string \<Rightarrow> HealthMonitor \<Rightarrow> bool" where
  "EverUp ifname h = (case states h ifname of None \<Rightarrow> False | Some st \<Rightarrow> everUp st)"

section \<open>The route operation\<close>

text \<open>
  \<open>ApplyRoute\<close> over a backend: bringing an uplink up replaces the default route of its table, taking
  it down deletes it. \<open>lookup\<close> is the route a backend holds for a table, a destination and a metric.
\<close>

definition default_route :: "Uplink \<Rightarrow> string \<Rightarrow> Route" where
  "default_route u gw = \<lparr>OnLink = upGatewayOnLink u, roTable = upTable u, Dest = ''default'', Gateway = gw,
     roOifName = upIfName u, Scope = [], Metric = 0, Nexthops = []\<rparr>"

definition bare_route :: "Uplink \<Rightarrow> Route" where
  "bare_route u = \<lparr>OnLink = False, roTable = upTable u, Dest = ''default'', Gateway = [],
     roOifName = [], Scope = [], Metric = 0, Nexthops = []\<rparr>"

definition ApplyRoute ::
  "('s \<Rightarrow> Route \<Rightarrow> 's \<times> bool) \<Rightarrow> ('s \<Rightarrow> Route \<Rightarrow> 's \<times> bool) \<Rightarrow> Uplink \<Rightarrow> string \<Rightarrow> bool \<Rightarrow> 's \<Rightarrow> 's \<times> bool" where
  "ApplyRoute replace del u gw v s = (if v then replace s (default_route u gw) else del s (bare_route u))"

locale route_backend =
  fixes lookup :: "'s \<Rightarrow> int \<times> string \<times> int \<Rightarrow> Route option"
    and replace :: "'s \<Rightarrow> Route \<Rightarrow> 's \<times> bool"
    and del :: "'s \<Rightarrow> Route \<Rightarrow> 's \<times> bool"
  assumes replace_ok: "replace s r = (s', True) \<Longrightarrow> lookup s' = (lookup s)(route_key r \<mapsto> r)"
    and del_ok: "del s r = (s', True) \<Longrightarrow> lookup s' = (lookup s)(route_key r := None)"
begin

lemma applied_up:
  "ApplyRoute replace del u gw True s = (s', True) \<Longrightarrow> lookup s' = (lookup s)((upTable u, ''default'', 0) \<mapsto> default_route u gw)"
  by (auto simp: ApplyRoute_def default_route_def route_key_def dest!: replace_ok)

lemma applied_down:
  "ApplyRoute replace del u gw False s = (s', True) \<Longrightarrow> lookup s' = (lookup s)((upTable u, ''default'', 0) := None)"
  by (auto simp: ApplyRoute_def bare_route_def route_key_def dest!: del_ok)

lemma applied_other_table:
  "ApplyRoute replace del u gw v s = (s', True) \<Longrightarrow> t \<noteq> upTable u \<Longrightarrow> lookup s' (t, d, m) = lookup s (t, d, m)"
  by (cases v) (auto dest!: applied_up applied_down)

end

definition fake_lookup :: "FakeBackend \<Rightarrow> int \<times> string \<times> int \<Rightarrow> Route option" where
  "fake_lookup f k = find (\<lambda>r. route_key r = k) (Routes f)"

lemma find_replace_route:
  "find (\<lambda>x. route_key x = k) (replace_route r xs) = (if k = route_key r then Some r else find (\<lambda>x. route_key x = k) xs)"
  by (induction xs) auto

lemma find_filter_key:
  "find (\<lambda>x. route_key x = k) (filter (\<lambda>x. route_key x \<noteq> k') xs) = (if k = k' then None else find (\<lambda>x. route_key x = k) xs)"
  by (induction xs) auto

interpretation fake_routes: route_backend fake_lookup fake_RouteReplace fake_RouteDel
  by unfold_locales
     (auto simp: fake_RouteReplace_def fake_RouteDel_def fake_lookup_def find_replace_route find_filter_key fun_eq_iff
       split: if_splits)

section \<open>Leased addresses\<close>

definition fmt_addr :: "addr \<Rightarrow> fmt_arg" where
  "fmt_addr a = (case a of V4 w \<Rightarrow> FAddr 32 (uint w) [] | V6 x z \<Rightarrow> FAddr 128 (uint x) z)"

definition starlinkBypassCIDR :: string where
  "starlinkBypassCIDR = ''100.64.0.0/10''"

definition lease_entries :: "(string \<times> string) list \<Rightarrow> Uplink list \<Rightarrow> (string \<times> netprefix) list" where
  "lease_entries addrs us =
     concat (map (\<lambda>(n, cidr). if n \<notin> upIfName ` set us then []
        else (case parse_prefix cidr of None \<Rightarrow> [] | Some p \<Rightarrow> [(n, p)])) addrs)"

definition pair_verdict :: "string \<times> netprefix \<Rightarrow> string \<times> netprefix \<Rightarrow> Verdict list" where
  "pair_verdict a b =
     (let aIP = pfx_addr (snd a); bIP = pfx_addr (snd b) in
      if fst a = fst b then []
      else if aIP = bIP
      then [reject ''V29'' ''%s and %s both hold %s; source selection and conntrack both break and no sysctl helps''
              [FStr (fst a), FStr (fst b), fmt_addr aIP]]
      else if prefix_contains (snd a) bIP \<or> prefix_contains (snd b) aIP
      then [warn ''V30'' ''%s (%s) and %s (%s) are on overlapping subnets; ARP hardening is applied, but check that this is intended''
              [FStr (fst a), fmt_addr aIP, FStr (fst b), fmt_addr bIP]]
      else [])"

fun pairs_verdicts :: "(string \<times> netprefix) list \<Rightarrow> Verdict list" where
  "pairs_verdicts [] = []"
| "pairs_verdicts (a # rest) = concat (map (pair_verdict a) rest) @ pairs_verdicts rest"

definition dish_verdicts :: "bool \<Rightarrow> string \<Rightarrow> Verdict list" where
  "dish_verdicts dishReachable dishLeaseCIDR =
     (if dishReachable \<and> dishLeaseCIDR \<noteq> [] then
        (case (parse_prefix starlinkBypassCIDR, parse_prefix dishLeaseCIDR) of
           (Some bypass, Some lease) \<Rightarrow>
             if \<not> prefix_contains bypass (pfx_addr lease)
             then [warn ''V31'' ''Starlink is not in bypass mode: the dish answers but the lease %s is outside %s''
                     [FStr dishLeaseCIDR, FStr starlinkBypassCIDR]]
             else []
         | _ \<Rightarrow> [])
      else [])"

definition LeaseVerdicts :: "(string \<times> string) list \<Rightarrow> Uplink list \<Rightarrow> bool \<Rightarrow> string \<Rightarrow> Verdict list" where
  "LeaseVerdicts addrs us dishReachable dishLeaseCIDR =
     pairs_verdicts (lease_entries addrs us) @ dish_verdicts dishReachable dishLeaseCIDR"

section \<open>Runs of the monitor\<close>

text \<open>
  Histories are latest first. A run of the monitor interleaves the observations of any number of
  uplinks; \<open>monitor_projects\<close> says that each uplink behaves as a machine of its own.
\<close>

inductive health_run :: "observation list \<Rightarrow> uplinkState \<Rightarrow> bool" where
  start: "health_run [] new_state"
| step: "health_run h st \<Longrightarrow> health_run (o' # h) (fst (observe o' st))"

inductive monitor_run :: "(string \<times> observation) list \<Rightarrow> HealthMonitor \<Rightarrow> bool" where
  start: "monitor_run [] \<lparr>states = (\<lambda>_. None), changes = []\<rparr>"
| step: "monitor_run h m \<Longrightarrow> monitor_run ((n, o') # h) (snd (Observe n o' m))"

definition history_of :: "string \<Rightarrow> (string \<times> observation) list \<Rightarrow> observation list" where
  "history_of n h = map snd (filter (\<lambda>e. fst e = n) h)"

lemma Observe_states:
  "states (snd (Observe n o' m)) = (states m)(n \<mapsto> fst (observe o' (case states m n of None \<Rightarrow> new_state | Some st \<Rightarrow> st)))"
  by (simp add: Observe_def Let_def split: prod.split)

lemma monitor_projects:
  "monitor_run h m \<Longrightarrow> health_run (history_of n h) (case states m n of None \<Rightarrow> new_state | Some st \<Rightarrow> st)
     \<and> (states m n = None \<longleftrightarrow> history_of n h = [])"
proof (induction rule: monitor_run.induct)
  case start
  show ?case by (simp add: history_of_def health_run.start)
next
  case (step h m k o')
  then show ?case
    by (auto simp: Observe_states history_of_def intro: health_run.step)
qed

definition unforced :: "observation \<Rightarrow> bool" where
  "unforced o' \<longleftrightarrow> oForce o' \<noteq> ''up'' \<and> oForce o' \<noteq> ''down''"

definition ok_probe :: "observation \<Rightarrow> bool" where
  "ok_probe o' \<longleftrightarrow> unforced o' \<and> oCarrier o' = Some True \<and> oReachable o' = Some True"

definition bad_probe :: "observation \<Rightarrow> bool" where
  "bad_probe o' \<longleftrightarrow> unforced o' \<and> oCarrier o' = Some True \<and> oReachable o' \<noteq> Some True"

text \<open>An observation whose carrier probe fails says nothing and is skipped.\<close>

definition informative :: "observation \<Rightarrow> bool" where
  "informative o' \<longleftrightarrow> \<not> (unforced o' \<and> oCarrier o' = None)"

definition last_were :: "(observation \<Rightarrow> bool) \<Rightarrow> int \<Rightarrow> observation list \<Rightarrow> bool" where
  "last_were P n h \<longleftrightarrow> (let es = filter informative h in n \<le> int (length es) \<and> list_all P (take (nat n) es))"

lemma observe_cases:
  obtains (up) "oForce o' = ''up''" "observe o' st = (fst (setLocked (oNow o') st True), snd (setLocked (oNow o') st True), False)"
  | (down) "oForce o' = ''down''" "observe o' st = (fst (setLocked (oNow o') st False), snd (setLocked (oNow o') st False), False)"
  | (error) "unforced o'" "oCarrier o' = None" "observe o' st = (st, False, True)"
  | (lost) "unforced o'" "oCarrier o' = Some False" "up (fst (observe o' st)) = False" "fails (fst (observe o' st)) = 0"
      "successes (fst (observe o' st)) = 0"
  | (ok) "ok_probe o'"
  | (bad) "bad_probe o'"
proof (cases "unforced o'")
  case True
  show ?thesis
  proof (cases "oCarrier o'")
    case None
    with True that(3) show ?thesis by (simp add: observe_def unforced_def)
  next
    case (Some c)
    with True that(4-6) show ?thesis
      by (cases c; cases "oReachable o' = Some True")
         (auto simp: observe_def unforced_def ok_probe_def bad_probe_def setLocked_def Let_def)
  qed
next
  case False
  with that(1,2) show ?thesis by (auto simp: observe_def unforced_def Let_def split: prod.split)
qed

lemma setLocked_simps [simp]:
  "up (fst (setLocked t st v)) = v" "fails (fst (setLocked t st v)) = 0" "successes (fst (setLocked t st v)) = 0"
  by (simp_all add: setLocked_def Let_def)

lemma observe_ok_probe:
  assumes "ok_probe o'"
  shows "fails (fst (observe o' st)) = 0"
    "successes (fst (observe o' st)) = 0 \<or> successes (fst (observe o' st)) = successes st + 1"
    "up st \<Longrightarrow> up (fst (observe o' st))"
    "\<not> up st \<Longrightarrow> up (fst (observe o' st)) \<longleftrightarrow> SuccessesToUp (oDamping o') \<le> successes st + 1
        \<and> (case lastDownAt st of None \<Rightarrow> True | Some t \<Rightarrow> FailbackDwell (oDamping o') \<le> oNow o' - t)"
    "\<not> up (fst (observe o' st)) \<Longrightarrow> successes (fst (observe o' st)) = successes st + 1 \<and> lastDownAt (fst (observe o' st)) = lastDownAt st"
  using assms
  by (auto simp: observe_def ok_probe_def unforced_def setLocked_def Let_def split: option.splits)

lemma observe_bad_probe:
  assumes "bad_probe o'"
  shows "successes (fst (observe o' st)) = 0"
    "fails (fst (observe o' st)) = 0 \<or> fails (fst (observe o' st)) = fails st + 1"
    "\<not> up st \<Longrightarrow> \<not> up (fst (observe o' st))"
    "up st \<Longrightarrow> up (fst (observe o' st)) \<longleftrightarrow> fails st + 1 < FailuresToDown (oDamping o')"
    "up (fst (observe o' st)) \<Longrightarrow> fails (fst (observe o' st)) = fails st + 1"
  using assms
  by (auto simp: observe_def bad_probe_def unforced_def setLocked_def Let_def)

lemma informative_probes [simp]: "ok_probe o' \<Longrightarrow> informative o'" "bad_probe o' \<Longrightarrow> informative o'"
  by (auto simp: informative_def ok_probe_def bad_probe_def)

lemma last_were_zero [simp]: "n \<le> 0 \<Longrightarrow> last_were P n h"
  by (simp add: last_were_def)

lemma last_were_Cons: "P x \<Longrightarrow> informative x \<Longrightarrow> 0 \<le> n \<Longrightarrow> last_were P n h \<Longrightarrow> last_were P (n + 1) (x # h)"
  by (simp add: last_were_def Let_def nat_add_distrib)

lemma last_were_skip: "\<not> informative x \<Longrightarrow> last_were P n (x # h) = last_were P n h"
  by (simp add: last_were_def)

lemma last_were_mono: "last_were P n h \<Longrightarrow> m \<le> n \<Longrightarrow> last_were P m h"
  by (auto simp: last_were_def Let_def list_all_iff dest: set_take_subset_set_take [THEN subsetD, rotated])
     (meson nat_mono set_take_subset_set_take subsetD)

text \<open>The counters count: each is the length of an unbroken run of probes at the end of the history.\<close>

lemma counters:
  "health_run h st \<Longrightarrow> 0 \<le> fails st \<and> 0 \<le> successes st \<and> last_were bad_probe (fails st) h \<and> last_were ok_probe (successes st) h"
proof (induction rule: health_run.induct)
  case start
  show ?case by (simp add: new_state_def)
next
  case (step h st o')
  show ?case
  proof (cases rule: observe_cases [of o' st])
    case error
    then have "\<not> informative o'" by (simp add: informative_def)
    with step error show ?thesis by (simp add: last_were_skip)
  next
    case ok
    then show ?thesis using step observe_ok_probe(1,2) [OF ok, of st] by (auto intro!: last_were_Cons)
  next
    case bad
    then show ?thesis using step observe_bad_probe(1,2) [OF bad, of st] by (auto intro!: last_were_Cons)
  qed simp_all
qed

lemma observe_down:
  assumes "health_run h st" "up st" "\<not> up (fst (observe o' st))"
  shows "oForce o' = ''down'' \<or> unforced o' \<and> oCarrier o' = Some False
    \<or> last_were bad_probe (FailuresToDown (oDamping o')) (o' # h)"
proof (cases rule: observe_cases [of o' st])
  case bad
  with assms(2,3) have "FailuresToDown (oDamping o') \<le> fails st + 1" using observe_bad_probe(4) by force
  moreover have "last_were bad_probe (fails st + 1) (o' # h)"
    using counters [OF assms(1)] bad by (auto intro!: last_were_Cons)
  ultimately show ?thesis using last_were_mono by blast
next
  case ok
  with assms(2,3) show ?thesis using observe_ok_probe(3) by blast
qed (use assms in auto)

lemma observe_up:
  assumes "health_run h st" "\<not> up st" "up (fst (observe o' st))"
  shows "oForce o' = ''up''
    \<or> last_were ok_probe (SuccessesToUp (oDamping o')) (o' # h)
      \<and> (\<forall>t. lastDownAt st = Some t \<longrightarrow> FailbackDwell (oDamping o') \<le> oNow o' - t)"
proof (cases rule: observe_cases [of o' st])
  case ok
  with assms(2,3) have "SuccessesToUp (oDamping o') \<le> successes st + 1"
    "\<forall>t. lastDownAt st = Some t \<longrightarrow> FailbackDwell (oDamping o') \<le> oNow o' - t"
    using observe_ok_probe(4) by (force split: option.splits)+
  moreover have "last_were ok_probe (successes st + 1) (o' # h)"
    using counters [OF assms(1)] ok by (auto intro!: last_were_Cons)
  ultimately show ?thesis using last_were_mono by blast
next
  case bad
  with assms(2,3) show ?thesis using observe_bad_probe(3) by blast
qed (use assms in auto)


section \<open>The monitor is live\<close>

definition observe_all :: "observation list \<Rightarrow> uplinkState \<Rightarrow> uplinkState" where
  "observe_all os st = fold (\<lambda>o' st. fst (observe o' st)) os st"

lemma bad_probes_down: "\<forall>x \<in> set os. bad_probe x \<Longrightarrow> \<not> up st \<Longrightarrow> \<not> up (observe_all os st)"
  by (induction os arbitrary: st) (auto simp: observe_all_def observe_bad_probe)

lemma bad_probes_count:
  "\<forall>x \<in> set os. bad_probe x \<and> oDamping x = d \<Longrightarrow> up (observe_all os st) \<Longrightarrow> os \<noteq> []
     \<Longrightarrow> fails st + int (length os) < FailuresToDown d"
proof (induction os arbitrary: st)
  case (Cons x os)
  then have x: "bad_probe x" "oDamping x = d" by auto
  have u: "up (fst (observe x st))" using Cons bad_probes_down [of os "fst (observe x st)"] by (auto simp: observe_all_def)
  with x have s: "up st" "fails (fst (observe x st)) = fails st + 1" "fails st + 1 < FailuresToDown d"
    using observe_bad_probe(3,4,5) [OF x(1), of st] by auto
  show ?case
  proof (cases "os = []")
    case True
    with s show ?thesis by simp
  next
    case False
    from Cons.prems have "\<forall>x \<in> set os. bad_probe x \<and> oDamping x = d" "up (observe_all os (fst (observe x st)))"
      by (auto simp: observe_all_def)
    from Cons.IH [OF this False] s show ?thesis by simp
  qed
qed simp

lemma ok_probes_up: "\<forall>x \<in> set os. ok_probe x \<Longrightarrow> up st \<Longrightarrow> up (observe_all os st)"
  by (induction os arbitrary: st) (auto simp: observe_all_def observe_ok_probe)

lemma ok_probes_count:
  "\<forall>x \<in> set os. ok_probe x \<and> oDamping x = d \<and> (\<forall>t. lastDownAt st = Some t \<longrightarrow> FailbackDwell d \<le> oNow x - t)
     \<Longrightarrow> \<not> up (observe_all os st) \<Longrightarrow> os \<noteq> [] \<Longrightarrow> successes st + int (length os) < SuccessesToUp d"
proof (induction os arbitrary: st)
  case (Cons x os)
  then have x: "ok_probe x" "oDamping x = d" "\<forall>t. lastDownAt st = Some t \<longrightarrow> FailbackDwell d \<le> oNow x - t" by auto
  have dw: "case lastDownAt st of None \<Rightarrow> True | Some t \<Rightarrow> FailbackDwell (oDamping x) \<le> oNow x - t"
    using x by (simp split: option.split)
  have u: "\<not> up (fst (observe x st))" using Cons ok_probes_up [of os "fst (observe x st)"] by (auto simp: observe_all_def)
  with x have s: "\<not> up st" "successes (fst (observe x st)) = successes st + 1" "successes st + 1 < SuccessesToUp d"
    "lastDownAt (fst (observe x st)) = lastDownAt st"
    using observe_ok_probe(3,4,5) [OF x(1), of st] dw by force+
  show ?case
  proof (cases "os = []")
    case True
    with s show ?thesis by simp
  next
    case False
    from Cons.prems s(4) have "\<forall>y \<in> set os. ok_probe y \<and> oDamping y = d
        \<and> (\<forall>t. lastDownAt (fst (observe x st)) = Some t \<longrightarrow> FailbackDwell d \<le> oNow y - t)"
      "\<not> up (observe_all os (fst (observe x st)))"
      by (auto simp: observe_all_def)
    from Cons.IH [OF this False] s show ?thesis by simp
  qed
qed simp

text \<open>
  The monitor does decide: from any state of a run, as many consecutive failed probes as the
  setting asks for leave the uplink down, and as many good ones past the dwell leave it up.
\<close>

theorem failover_is_live:
  assumes "health_run h st" "os \<noteq> []" "\<forall>x \<in> set os. oDamping x = d"
  shows "((\<forall>x \<in> set os. bad_probe x) \<and> FailuresToDown d \<le> int (length os) \<longrightarrow> \<not> up (observe_all os st))
    \<and> ((\<forall>x \<in> set os. ok_probe x \<and> (\<forall>t. lastDownAt st = Some t \<longrightarrow> FailbackDwell d \<le> oNow x - t))
        \<and> SuccessesToUp d \<le> int (length os) \<longrightarrow> up (observe_all os st))"
proof -
  note c = counters [OF assms(1)]
  have "\<not> up (observe_all os st)" if "\<forall>x \<in> set os. bad_probe x" "FailuresToDown d \<le> int (length os)"
    using that bad_probes_count [of os d st] assms(2,3) c by force
  moreover have "up (observe_all os st)"
    if "\<forall>x \<in> set os. ok_probe x \<and> (\<forall>t. lastDownAt st = Some t \<longrightarrow> FailbackDwell d \<le> oNow x - t)"
      "SuccessesToUp d \<le> int (length os)"
    using that ok_probes_count [of os d st] assms(2,3) c by force
  ultimately show ?thesis by blast
qed

section \<open>Routes and leases\<close>

text \<open>
  Applying a decision changes exactly one route: bringing an uplink up leaves its table with
  the default route through its gateway, taking it down leaves it with none, and nothing else in
  any table moves.
\<close>

theorem ApplyRoute_exact:
  assumes "ApplyRoute fake_RouteReplace fake_RouteDel u gw v k = (k', True)"
  shows "fake_lookup k' (upTable u, ''default'', 0) = (if v then Some (default_route u gw) else None)
    \<and> (\<forall>t d m. (t, d, m) \<noteq> (upTable u, ''default'', 0) \<longrightarrow> fake_lookup k' (t, d, m) = fake_lookup k (t, d, m))"
  using fake_routes.applied_up [of u gw k k'] fake_routes.applied_down [of u gw k k'] assms
  by (cases v) (auto simp del: fun_upd_apply simp: fun_upd_same fun_upd_other)

lemma set_lease_entries:
  "(n, p) \<in> set (lease_entries addrs us) \<longleftrightarrow> n \<in> upIfName ` set us \<and> (\<exists>c. (n, c) \<in> set addrs \<and> parse_prefix c = Some p)"
  by (auto simp: lease_entries_def split: option.splits if_splits) (metis option.inject)+

definition clash :: "string \<times> netprefix \<Rightarrow> string \<times> netprefix \<Rightarrow> bool" where
  "clash a b \<longleftrightarrow> fst a \<noteq> fst b \<and> pfx_addr (snd a) = pfx_addr (snd b)"

lemma clash_sym: "clash a b \<longleftrightarrow> clash b a" and clash_irrefl: "\<not> clash a a"
  by (auto simp: clash_def)

lemma pair_verdict_reject: "Rejected (pair_verdict a b) \<longleftrightarrow> clash a b"
  by (auto simp: pair_verdict_def clash_def Let_def)

lemma pairs_verdicts_reject: "Rejected (pairs_verdicts es) \<longleftrightarrow> (\<exists>a \<in> set es. \<exists>b \<in> set es. clash a b)"
proof (induction es)
  case (Cons a es)
  have "Rejected (concat (map (pair_verdict a) xs)) \<longleftrightarrow> (\<exists>b \<in> set xs. clash a b)" for xs
    by (induction xs) (auto simp: pair_verdict_reject)
  with Cons show ?case using clash_sym clash_irrefl by (simp, blast)
qed simp

lemma dish_not_rejected: "\<not> Rejected (dish_verdicts r c)"
  by (auto simp: dish_verdicts_def split: option.split)

text \<open>
  The lease check rejects exactly when two different uplinks hold the same address; overlapping
  subnets and a dish outside bypass mode are never more than warnings.
\<close>

theorem LeaseVerdicts_rejects_iff:
  "Rejected (LeaseVerdicts addrs us dish lease)
    \<longleftrightarrow> (\<exists>n n' c c' p p'. (n, c) \<in> set addrs \<and> (n', c') \<in> set addrs \<and> n \<noteq> n'
          \<and> n \<in> upIfName ` set us \<and> n' \<in> upIfName ` set us
          \<and> parse_prefix c = Some p \<and> parse_prefix c' = Some p' \<and> pfx_addr p = pfx_addr p')"
proof -
  have "Rejected (LeaseVerdicts addrs us dish lease)
      \<longleftrightarrow> (\<exists>a \<in> set (lease_entries addrs us). \<exists>b \<in> set (lease_entries addrs us). clash a b)"
    by (simp add: LeaseVerdicts_def dish_not_rejected pairs_verdicts_reject)
  also have "\<dots> \<longleftrightarrow> (\<exists>n p n' p'. (n, p) \<in> set (lease_entries addrs us) \<and> (n', p') \<in> set (lease_entries addrs us)
      \<and> n \<noteq> n' \<and> pfx_addr p = pfx_addr p')"
    by (simp add: clash_def Bex_def split_paired_Ex)
  finally show ?thesis unfolding set_lease_entries by blast
qed

section \<open>Examples\<close>

definition probe_at :: "int \<Rightarrow> bool \<Rightarrow> observation" where
  "probe_at t r = \<lparr>oDamping = DefaultDamping, oNow = t, oForce = [], oCarrier = Some True, oReachable = Some r\<rparr>"

definition up_monitor :: HealthMonitor where
  "up_monitor = snd (Observe ''eth0'' ((probe_at 0 True)\<lparr>oForce := ''up''\<rparr>) \<lparr>states = (\<lambda>_. None), changes = []\<rparr>)"

lemma up_monitor_run: "monitor_run [(''eth0'', (probe_at 0 True)\<lparr>oForce := ''up''\<rparr>)] up_monitor"
  unfolding up_monitor_def by (intro monitor_run.intros)

definition up_state :: uplinkState where
  "up_state = \<lparr>up = True, fails = 0, successes = 0, lastDownAt = None, everObserved = True, everUp = True\<rparr>"

lemma up_monitor_state: "states up_monitor ''eth0'' = Some up_state"
  by (simp add: up_monitor_def Observe_def observe_def setLocked_def new_state_def up_state_def Let_def)


theorem failover_is_live_witness:
  "health_run [] new_state \<and> up (observe_all (replicate 6 (probe_at 9 True)) new_state)"
proof -
  have r: "health_run [] new_state" by (rule health_run.start)
  have "\<forall>x \<in> set (replicate 6 (probe_at 9 True)). oDamping x = DefaultDamping" by (simp add: probe_at_def)
  from failover_is_live [OF r _ this] r show ?thesis
    by (simp add: probe_at_def ok_probe_def unforced_def new_state_def DefaultDamping_def)
qed

theorem ApplyRoute_exact_witness:
  "\<exists>k'. ApplyRoute fake_RouteReplace fake_RouteDel (uplink_of example_iface) ''10.0.0.1'' True example_kernel = (k', True)
     \<and> fake_lookup k' (201, ''default'', 0) = Some (default_route (uplink_of example_iface) ''10.0.0.1'')"
proof -
  let ?u = "uplink_of example_iface"
  have t: "upTable ?u = 201" by (simp add: uplink_of_def example_iface_def)
  obtain k' where k': "ApplyRoute fake_RouteReplace fake_RouteDel ?u ''10.0.0.1'' True example_kernel = (k', True)"
    by (simp add: ApplyRoute_def fake_RouteReplace_def example_kernel_def)
  from ApplyRoute_exact [OF k'] k' show ?thesis by (auto simp: t)
qed

end
