(* ===== verification/Pool.thy ===== *)
theory Pool
  imports Routing_Rules
begin

text \<open>
  The tunnel pool: the profile table of \<open>internal/network/repository/vpn_repository.go\<close>, the order
  and chain operations of \<open>usecase/pool_control.go\<close>, the choice of the tunnels that carry and the
  election of a carrier of \<open>usecase/pool_strategy.go\<close>, and the failover of the domestic lines of
  \<open>usecase/domestic_failover.go\<close>. Round-trip times are whole milliseconds far below the range of
  an \<open>int\<close>, so they are kept exact.
\<close>

section \<open>The profile table\<close>

record VPNProfile =
  vpID :: nat
  vpNodeID :: nat
  vpName :: string
  vpType :: string
  vpEnabled :: bool
  vpPriority :: int
  vpWeight :: int
  WGSlot :: "int option"
  TransportUplink :: string
  vpConfig :: string

datatype vpn_error =
  ErrProfileNotFound | ErrProfileActive | ErrPoolFull | PriorityRange | WeightRange
  | NotInPool nat | ListedTwice nat | OrderIncomplete | NoProfileID | NoConfig | SlotTaken

definition MaxEnabledProfiles :: nat where
  "MaxEnabledProfiles = 8"

definition vpn_Get :: "nat \<Rightarrow> VPNProfile list \<Rightarrow> VPNProfile option" where
  "vpn_Get i ps = find (\<lambda>p. vpID p = i) ps"

definition vpn_set :: "nat \<Rightarrow> (VPNProfile \<Rightarrow> VPNProfile) \<Rightarrow> VPNProfile list \<Rightarrow> VPNProfile list" where
  "vpn_set i f ps = map (\<lambda>p. if vpID p = i then f p else p) ps"

definition vpn_Delete :: "nat \<Rightarrow> VPNProfile list \<Rightarrow> vpn_error + VPNProfile list" where
  "vpn_Delete i ps = (case vpn_Get i ps of
      None \<Rightarrow> Inl ErrProfileNotFound
    | Some p \<Rightarrow> if vpEnabled p then Inl ErrProfileActive else Inr (filter (\<lambda>p. vpID p \<noteq> i) ps))"

definition Enabled :: "VPNProfile list \<Rightarrow> VPNProfile list" where
  "Enabled ps = sort_key (\<lambda>p. (vpPriority p, vpID p)) (filter vpEnabled ps)"

definition taken_slots :: "VPNProfile list \<Rightarrow> int set" where
  "taken_slots ps = {s. \<exists>p \<in> set ps. vpEnabled p \<and> WGSlot p = Some s}"

definition free_slot :: "VPNProfile list \<Rightarrow> int option" where
  "free_slot ps = find (\<lambda>s. \<not> (\<exists>p \<in> set ps. vpEnabled p \<and> WGSlot p = Some s)) (map int [0..<MaxEnabledProfiles])"

definition SetEnabled :: "nat \<Rightarrow> bool \<Rightarrow> VPNProfile list \<Rightarrow> vpn_error + VPNProfile list" where
  "SetEnabled i on ps = (case vpn_Get i ps of
      None \<Rightarrow> Inl ErrProfileNotFound
    | Some p \<Rightarrow>
        if \<not> on then Inr (vpn_set i (\<lambda>p. p\<lparr>vpEnabled := False, WGSlot := None\<rparr>) ps)
        else if vpEnabled p then Inr ps
        else case free_slot ps of
          None \<Rightarrow> Inl ErrPoolFull
        | Some s \<Rightarrow> Inr (vpn_set i (\<lambda>p. p\<lparr>vpEnabled := True, WGSlot := Some s\<rparr>) ps))"

definition ValidatePoolRole :: "int \<Rightarrow> int \<Rightarrow> vpn_error option" where
  "ValidatePoolRole priority weight =
     (if priority < 0 \<or> priority > 7 then Some PriorityRange
      else if weight < 1 \<or> weight > 100 then Some WeightRange else None)"

definition SetRole :: "nat \<Rightarrow> int \<Rightarrow> int \<Rightarrow> VPNProfile list \<Rightarrow> vpn_error + VPNProfile list" where
  "SetRole i priority weight ps = (case ValidatePoolRole priority weight of
      Some e \<Rightarrow> Inl e
    | None \<Rightarrow> if vpn_Get i ps = None then Inl ErrProfileNotFound
              else Inr (vpn_set i (\<lambda>p. p\<lparr>vpPriority := priority, vpWeight := weight\<rparr>) ps))"

text \<open>\<open>SetOrder\<close>: a transaction over the positions; any row that is missing rolls it back.\<close>

fun SetOrder_from :: "int \<Rightarrow> nat list \<Rightarrow> VPNProfile list \<Rightarrow> vpn_error + VPNProfile list" where
  "SetOrder_from pos [] ps = Inr ps"
| "SetOrder_from pos (i # ids) ps =
     (if vpn_Get i ps = None then Inl ErrProfileNotFound
      else SetOrder_from (pos + 1) ids (vpn_set i (\<lambda>p. p\<lparr>vpPriority := pos\<rparr>) ps))"

definition SetOrder :: "nat list \<Rightarrow> VPNProfile list \<Rightarrow> vpn_error + VPNProfile list" where
  "SetOrder ids ps = SetOrder_from 0 ids ps"

definition SetTransport :: "nat \<Rightarrow> string \<Rightarrow> VPNProfile list \<Rightarrow> vpn_error + VPNProfile list" where
  "SetTransport i key ps = (if vpn_Get i ps = None then Inl ErrProfileNotFound
     else Inr (vpn_set i (\<lambda>p. p\<lparr>TransportUplink := key\<rparr>) ps))"

text \<open>
  \<open>Create\<close>: the row gets the identifier \<open>i\<close> the database assigns; \<open>Update\<close> writes the name,
  the type and the configuration.
\<close>

definition vpn_Create :: "nat \<Rightarrow> VPNProfile \<Rightarrow> VPNProfile list \<Rightarrow> VPNProfile list" where
  "vpn_Create i p ps =
     (let p = (if vpNodeID p = 0 then p\<lparr>vpNodeID := 1\<rparr> else p);
          p = (if vpType p = [] then p\<lparr>vpType := ''wireguard''\<rparr> else p)
      in ps @ [p\<lparr>vpID := i\<rparr>])"

definition vpn_Update :: "VPNProfile \<Rightarrow> VPNProfile list \<Rightarrow> vpn_error + VPNProfile list" where
  "vpn_Update p ps =
     (if vpID p = 0 then Inl NoProfileID
      else if vpConfig p = [] then Inl NoConfig
      else Inr (vpn_set (vpID p) (\<lambda>r. r\<lparr>vpName := vpName p, vpType := vpType p, vpConfig := vpConfig p\<rparr>) ps))"

text \<open>
  The partial index \<open>ux_vpn_wg_slot\<close>, which the database checks at every write, and \<open>SetPool\<close>,
  the rollback: a transaction that clears the pool and writes the wanted rows back.
\<close>

definition slot_index_ok :: "VPNProfile list \<Rightarrow> bool" where
  "slot_index_ok ps \<longleftrightarrow>
     (\<forall>p \<in> set ps. \<forall>q \<in> set ps. WGSlot p \<noteq> None \<longrightarrow> WGSlot p = WGSlot q \<longrightarrow> vpID p = vpID q)"

definition restore_row :: "VPNProfile \<Rightarrow> VPNProfile \<Rightarrow> VPNProfile" where
  "restore_row w p = p\<lparr>vpEnabled := True, WGSlot := WGSlot w, vpPriority := vpPriority w,
     vpWeight := vpWeight w, vpConfig := vpConfig w\<rparr>"

fun restore_rows :: "VPNProfile list \<Rightarrow> VPNProfile list \<Rightarrow> vpn_error + VPNProfile list" where
  "restore_rows [] ps = Inr ps"
| "restore_rows (w # ws) ps =
     (let ps' = vpn_set (vpID w) (restore_row w) ps
      in if slot_index_ok ps' then restore_rows ws ps' else Inl SlotTaken)"

definition clear_pool :: "VPNProfile list \<Rightarrow> VPNProfile list" where
  "clear_pool ps = map (\<lambda>p. if vpEnabled p then p\<lparr>vpEnabled := False, WGSlot := None\<rparr> else p) ps"

definition SetPool :: "VPNProfile list \<Rightarrow> VPNProfile list \<Rightarrow> vpn_error + VPNProfile list" where
  "SetPool want ps = restore_rows want (clear_pool ps)"

section \<open>Order and chain\<close>

fun check_order :: "nat list \<Rightarrow> nat list \<Rightarrow> nat list \<Rightarrow> vpn_error option" where
  "check_order known seen [] = None"
| "check_order known seen (i # ids) =
     (if i \<notin> set known then Some (NotInPool i)
      else if i \<in> set seen then Some (ListedTwice i)
      else check_order known (i # seen) ids)"

definition SetPoolOrder :: "nat list \<Rightarrow> VPNProfile list \<Rightarrow> vpn_error + VPNProfile list" where
  "SetPoolOrder ids ps =
     (case check_order (map vpID (Enabled ps)) [] ids of
        Some e \<Rightarrow> Inl e
      | None \<Rightarrow> if length ids \<noteq> length (Enabled ps) then Inl OrderIncomplete else SetOrder ids ps)"

definition appendToChain :: "nat \<Rightarrow> VPNProfile list \<Rightarrow> vpn_error + VPNProfile list" where
  "appendToChain i ps =
     (let last = fold (\<lambda>p l. if vpID p \<noteq> i \<and> vpPriority p > l then vpPriority p else l) (Enabled ps) (- 1)
      in SetRole i (last + 1) 1 ps)"

text \<open>The step that puts a profile into the pool: store its configuration, enable it, append it to the chain.\<close>

definition join_pool :: "VPNProfile \<Rightarrow> VPNProfile list \<Rightarrow> vpn_error + VPNProfile list" where
  "join_pool profile ps =
     (case vpn_Update profile ps of
        Inl e \<Rightarrow> Inl e
      | Inr ps \<Rightarrow> (case SetEnabled (vpID profile) True ps of
                    Inl e \<Rightarrow> Inl e
                  | Inr ps \<Rightarrow> appendToChain (vpID profile) ps))"

section \<open>Who carries\<close>

datatype PoolStrategy = StrategySpread | StrategyOrder | StrategyFastest

definition ParsePoolStrategy :: "string \<Rightarrow> PoolStrategy \<times> bool" where
  "ParsePoolStrategy s =
     (if s = ''spread'' then (StrategySpread, True)
      else if s = ''order'' then (StrategyOrder, True)
      else if s = ''fastest'' then (StrategyFastest, True)
      else (StrategySpread, False))"

definition SingleCarrier :: "PoolStrategy \<Rightarrow> bool" where
  "SingleCarrier s \<longleftrightarrow> s = StrategyOrder \<or> s = StrategyFastest"

definition fastestMarginMs :: int where "fastestMarginMs = 20"
definition fastestMarginPct :: int where "fastestMarginPct = 25"
definition fastestHoldTicks :: int where "fastestHoldTicks = 3"

definition betterByMargin :: "int \<Rightarrow> int \<Rightarrow> bool" where
  "betterByMargin challenger carrier =
     (if challenger \<le> 0 \<or> carrier \<le> 0 then False
      else carrier - challenger \<ge> fastestMarginMs
        \<and> (carrier - challenger) * 100 \<ge> carrier * fastestMarginPct)"

record poolMember =
  pmIfName :: string
  pmSlot :: int
  pmPriority :: int
  RTTms :: int
  pmHealthy :: bool

text \<open>\<open>fastestOf\<close>, on a non-empty list as in the code.\<close>

fun fastest_from :: "poolMember \<Rightarrow> poolMember list \<Rightarrow> poolMember" where
  "fastest_from best [] = best"
| "fastest_from best (m # ms) =
     (if RTTms m \<le> 0 then fastest_from best ms
      else if RTTms best \<le> 0 \<or> RTTms m < RTTms best then fastest_from m ms
      else fastest_from best ms)"

definition fastestOf :: "poolMember list \<Rightarrow> poolMember" where
  "fastestOf ms = fastest_from (hd ms) (tl ms)"

definition pool_ordered :: "poolMember list \<Rightarrow> poolMember list" where
  "pool_ordered ms = sort_key (\<lambda>m. (pmPriority m, pmSlot m)) ms"

definition carriersFor :: "poolMember list \<Rightarrow> PoolStrategy \<Rightarrow> string \<Rightarrow> poolMember list" where
  "carriersFor members strategy sticky =
     (if members = [] then []
      else let ordered = pool_ordered members; healthy = filter pmHealthy ordered in
        case strategy of
          StrategyOrder \<Rightarrow> if healthy \<noteq> [] then take 1 healthy else take 1 ordered
        | StrategyFastest \<Rightarrow>
            if healthy = [] then take 1 ordered
            else (case find (\<lambda>m. pmIfName m = sticky) healthy of
                    Some m \<Rightarrow> [m]
                  | None \<Rightarrow> [fastestOf healthy])
        | StrategySpread \<Rightarrow> if healthy \<noteq> [] then healthy else ordered)"

definition poolNexthops :: "poolMember list \<Rightarrow> PoolStrategy \<Rightarrow> string \<Rightarrow> Nexthop list" where
  "poolNexthops members strategy carrier =
     map (\<lambda>m. \<lparr>nhOifName = pmIfName m, Weight = 1\<rparr>) (carriersFor members strategy carrier)"

section \<open>Electing a carrier\<close>

record carrierSwitch =
  csFrom :: string
  csTo :: string
  csReason :: string
  FromRTT :: int
  ToRTT :: int

record elect_state =
  poolCarrier :: string
  poolChallenger :: string
  poolChallengeTicks :: int

definition by_name :: "poolMember list \<Rightarrow> string \<Rightarrow> poolMember option" where
  "by_name ms n = find (\<lambda>m. pmIfName m = n) (rev ms)"

abbreviation no_challenge :: "elect_state \<Rightarrow> elect_state" where
  "no_challenge u \<equiv> u\<lparr>poolChallenger := [], poolChallengeTicks := 0\<rparr>"

definition electFastest :: "poolMember list \<Rightarrow> string \<Rightarrow> elect_state \<Rightarrow> poolMember \<times> elect_state" where
  "electFastest members prev u =
     (case by_name members prev of
        None \<Rightarrow> (hd (carriersFor members StrategyFastest []), no_challenge u)
      | Some cur \<Rightarrow>
          if \<not> pmHealthy cur then (hd (carriersFor members StrategyFastest []), no_challenge u)
          else let healthy = filter (\<lambda>m. pmHealthy m \<and> pmIfName m \<noteq> prev) members in
            if healthy = [] \<or> RTTms cur \<le> 0 then (cur, no_challenge u)
            else let best = fastestOf healthy in
              if \<not> betterByMargin (RTTms best) (RTTms cur) then (cur, no_challenge u)
              else if poolChallenger u \<noteq> pmIfName best
              then (cur, u\<lparr>poolChallenger := pmIfName best, poolChallengeTicks := 1\<rparr>)
              else let u = u\<lparr>poolChallengeTicks := poolChallengeTicks u + 1\<rparr> in
                if poolChallengeTicks u < fastestHoldTicks then (cur, u) else (best, u))"

definition elect_move ::
  "poolMember \<Rightarrow> string \<Rightarrow> string \<Rightarrow> int \<Rightarrow> elect_state \<Rightarrow> carrierSwitch option \<times> elect_state" where
  "elect_move want reason prev prevRTT u =
     (if pmIfName want = prev then (None, u)
      else let u = no_challenge (u\<lparr>poolCarrier := pmIfName want\<rparr>) in
        if prev = [] then (None, u)
        else (Some \<lparr>csFrom = prev, csTo = pmIfName want, csReason = reason, FromRTT = prevRTT, ToRTT = RTTms want\<rparr>, u))"

definition electCarrier :: "poolMember list \<Rightarrow> PoolStrategy \<Rightarrow> elect_state \<Rightarrow> carrierSwitch option \<times> elect_state" where
  "electCarrier members strategy u =
     (if \<not> SingleCarrier strategy \<or> members = []
      then (None, no_challenge (u\<lparr>poolCarrier := []\<rparr>))
      else let prev = poolCarrier u;
               prevRTT = (case by_name members prev of Some m \<Rightarrow> RTTms m | None \<Rightarrow> 0)
           in if strategy = StrategyOrder then
                (let want = hd (carriersFor members strategy []);
                     reason = (case by_name members prev of
                                 Some cur \<Rightarrow> if pmPriority want < pmPriority cur then ''failback'' else ''failover''
                               | None \<Rightarrow> ''failover'')
                 in elect_move want reason prev prevRTT u)
              else
                (let (want, u) = electFastest members prev u;
                     reason = (case by_name members prev of
                                 Some cur \<Rightarrow> if pmHealthy cur then ''faster'' else ''failover''
                               | None \<Rightarrow> ''failover'')
                 in elect_move want reason prev prevRTT u))"

section \<open>Domestic failover\<close>

datatype domesticVia = viaOwn | viaSibling | viaPool | viaNone

record domesticObs =
  doUp :: Uplink
  doGateway :: string
  GatewayUp :: bool
  InternetUp :: bool
  ForcedDown :: bool

record domesticRoute =
  drUp :: Uplink
  drGateway :: string
  drVia :: domesticVia
  drForcedDown :: bool
  Sibling :: "domesticObs option"

definition do_healthy :: "domesticObs \<Rightarrow> bool" where
  "do_healthy o' \<longleftrightarrow> GatewayUp o' \<and> InternetUp o'"

definition best_line :: "domesticObs list \<Rightarrow> domesticObs option" where
  "best_line ordered = find (\<lambda>o'. do_healthy o' \<and> doGateway o' \<noteq> []) ordered"

definition domestic_route :: "domesticObs option \<Rightarrow> bool \<Rightarrow> bool \<Rightarrow> domesticObs \<Rightarrow> domesticRoute" where
  "domestic_route best failoverOn vpnUp o' =
     (let r = \<lparr>drUp = doUp o', drGateway = doGateway o', drVia = viaOwn, drForcedDown = ForcedDown o', Sibling = None\<rparr> in
      if do_healthy o' then r\<lparr>drVia := viaOwn\<rparr>
      else if best \<noteq> None \<and> GatewayUp o' then r\<lparr>drVia := viaSibling, Sibling := best\<rparr>
      else if best \<noteq> None then r\<lparr>drVia := viaNone\<rparr>
      else if failoverOn \<and> vpnUp then r\<lparr>drVia := viaPool\<rparr>
      else if GatewayUp o' then r\<lparr>drVia := viaOwn\<rparr>
      else r\<lparr>drVia := viaNone\<rparr>)"

definition domesticRoutePlan :: "domesticObs list \<Rightarrow> bool \<Rightarrow> bool \<Rightarrow> domesticRoute list" where
  "domesticRoutePlan obs failoverOn vpnUp =
     (let ordered = sort_key (\<lambda>o'. UplinkIndex (doUp o')) obs
      in map (domestic_route (best_line ordered) failoverOn vpnUp) ordered)"

section \<open>The slots of the pool\<close>

definition slot_wf :: "VPNProfile \<Rightarrow> bool" where
  "slot_wf p \<longleftrightarrow> (vpEnabled p \<longleftrightarrow> WGSlot p \<noteq> None)
     \<and> (case WGSlot p of None \<Rightarrow> True | Some s \<Rightarrow> 0 \<le> s \<and> s < int MaxEnabledProfiles)"

definition pool_ok :: "VPNProfile list \<Rightarrow> bool" where
  "pool_ok ps \<longleftrightarrow> distinct (map vpID ps) \<and> (\<forall>p \<in> set ps. slot_wf p)
     \<and> (\<forall>p \<in> set ps. \<forall>q \<in> set ps. WGSlot p \<noteq> None \<longrightarrow> WGSlot p = WGSlot q \<longrightarrow> vpID p = vpID q)"

lemma pool_ok_slotD:
  "pool_ok ps \<Longrightarrow> p \<in> set ps \<Longrightarrow> q \<in> set ps \<Longrightarrow> WGSlot p \<noteq> None \<Longrightarrow> WGSlot p = WGSlot q \<Longrightarrow> vpID p = vpID q"
  unfolding pool_ok_def by blast

lemma pool_ok_ids: "pool_ok ps \<Longrightarrow> distinct (map vpID ps)"
  unfolding pool_ok_def by blast

lemma pool_ok_wf: "pool_ok ps \<Longrightarrow> p \<in> set ps \<Longrightarrow> slot_wf p"
  unfolding pool_ok_def by blast

lemma pool_ok_eq: "pool_ok ps \<Longrightarrow> p \<in> set ps \<Longrightarrow> q \<in> set ps \<Longrightarrow> vpID p = vpID q \<Longrightarrow> p = q"
  by (meson pool_ok_ids distinct_map inj_onD)

lemma pool_ok_mapI:
  assumes "distinct (map vpID ps)" "\<And>p. vpID (g p) = vpID p" "\<And>p. p \<in> set ps \<Longrightarrow> slot_wf (g p)"
    "\<And>p q. p \<in> set ps \<Longrightarrow> q \<in> set ps \<Longrightarrow> WGSlot (g p) \<noteq> None \<Longrightarrow> WGSlot (g p) = WGSlot (g q) \<Longrightarrow> vpID p = vpID q"
  shows "pool_ok (map g ps)"
  unfolding pool_ok_def
proof (intro conjI ballI impI)
  show "distinct (map vpID (map g ps))" using assms(1,2) by (simp add: comp_def)
next
  fix p assume "p \<in> set (map g ps)"
  then show "slot_wf p" using assms(3) by auto
next
  fix p q assume "p \<in> set (map g ps)" "q \<in> set (map g ps)" and e: "WGSlot p \<noteq> None" "WGSlot p = WGSlot q"
  then obtain x y where "x \<in> set ps" "p = g x" "y \<in> set ps" "q = g y" by auto
  with assms(4) [of x y] e assms(2) show "vpID p = vpID q" by metis
qed

lemma vpn_set_simps [simp]: "length (vpn_set i f ps) = length ps"
  by (simp add: vpn_set_def)

lemma vpn_set_ids: "(\<And>p. vpID (f p) = vpID p) \<Longrightarrow> map vpID (vpn_set i f ps) = map vpID ps"
  by (simp add: vpn_set_def)

lemma vpn_Get_Some: "vpn_Get i ps = Some p \<Longrightarrow> p \<in> set ps \<and> vpID p = i"
  by (auto simp: vpn_Get_def find_Some_iff)

lemma vpn_Get_None_iff: "vpn_Get i ps = None \<longleftrightarrow> i \<notin> vpID ` set ps"
  by (auto simp: vpn_Get_def find_None_iff)

text \<open>An update that leaves identifiers, flags and slots alone keeps the invariant.\<close>

lemma pool_ok_vpn_set:
  assumes "pool_ok ps" "\<And>p. vpID (f p) = vpID p \<and> vpEnabled (f p) = vpEnabled p \<and> WGSlot (f p) = WGSlot p"
  shows "pool_ok (vpn_set i f ps)"
proof -
  define g where "g = (\<lambda>p. if vpID p = i then f p else p)"
  have k: "vpID (g p) = vpID p" "slot_wf (g p) = slot_wf p" "WGSlot (g p) = WGSlot p" for p
    using assms(2) by (auto simp: g_def slot_wf_def)
  show ?thesis
    unfolding vpn_set_def g_def [symmetric]
  proof (rule pool_ok_mapI [OF pool_ok_ids [OF assms(1)]], unfold k)
    show "slot_wf p" if "p \<in> set ps" for p using pool_ok_wf [OF assms(1) that] .
    show "vpID p = vpID q" if "p \<in> set ps" "q \<in> set ps" "WGSlot p \<noteq> None" "WGSlot p = WGSlot q" for p q
      using pool_ok_slotD [OF assms(1) that] .
  qed (rule refl)
qed

lemma SetOrder_from_ok: "pool_ok ps \<Longrightarrow> SetOrder_from pos ids ps = Inr ps' \<Longrightarrow> pool_ok ps'"
proof (induction pos ids ps rule: SetOrder_from.induct)
  case (2 pos i ids ps)
  have "pool_ok (vpn_set i (\<lambda>p. p\<lparr>vpPriority := pos\<rparr>) ps)" by (rule pool_ok_vpn_set [OF 2(2)]) simp
  with 2 show ?case by (auto split: if_splits)
qed simp

lemma free_slot_Some:
  "free_slot ps = Some s \<Longrightarrow> 0 \<le> s \<and> s < int MaxEnabledProfiles \<and> (\<forall>p \<in> set ps. vpEnabled p \<longrightarrow> WGSlot p \<noteq> Some s)"
proof -
  assume "free_slot ps = Some s"
  then have "s \<in> set (map int [0..<MaxEnabledProfiles])" "\<not> (\<exists>p \<in> set ps. vpEnabled p \<and> WGSlot p = Some s)"
    unfolding free_slot_def find_Some_iff by auto
  then show ?thesis by auto
qed

lemma pool_ok_enable:
  assumes "pool_ok ps" "free_slot ps = Some s"
  shows "pool_ok (vpn_set i (\<lambda>p. p\<lparr>vpEnabled := True, WGSlot := Some s\<rparr>) ps)"
proof -
  define g where "g = (\<lambda>p::VPNProfile. if vpID p = i then p\<lparr>vpEnabled := True, WGSlot := Some s\<rparr> else p)"
  note s = free_slot_Some [OF assms(2)]
  have free: "WGSlot p \<noteq> Some s" if "p \<in> set ps" for p
    using s that assms(1) by (auto simp: pool_ok_def slot_wf_def)
  have "vpID p = vpID q" if "p \<in> set ps" "q \<in> set ps" "WGSlot (g p) \<noteq> None" "WGSlot (g p) = WGSlot (g q)" for p q
    using that free [OF that(1)] free [OF that(2)] pool_ok_slotD [OF assms(1) that(1,2)]
    by (cases "vpID p = i"; cases "vpID q = i") (simp_all add: g_def)
  moreover have "slot_wf (g p)" if "p \<in> set ps" for p
    using pool_ok_wf [OF assms(1) that] s by (simp add: g_def slot_wf_def)
  moreover have "vpID (g p) = vpID p" for p by (simp add: g_def)
  ultimately show ?thesis
    unfolding vpn_set_def g_def [symmetric] by (intro pool_ok_mapI [OF pool_ok_ids [OF assms(1)]])
qed

lemma pool_ok_disable:
  assumes "pool_ok ps"
  shows "pool_ok (vpn_set i (\<lambda>p. p\<lparr>vpEnabled := False, WGSlot := None\<rparr>) ps)"
proof -
  define g where "g = (\<lambda>p::VPNProfile. if vpID p = i then p\<lparr>vpEnabled := False, WGSlot := None\<rparr> else p)"
  have "vpID (g p) = vpID p" for p by (simp add: g_def)
  moreover have "slot_wf (g p)" if "p \<in> set ps" for p
    using pool_ok_wf [OF assms(1) that] by (simp add: g_def slot_wf_def)
  moreover have "vpID p = vpID q" if "p \<in> set ps" "q \<in> set ps" "WGSlot (g p) \<noteq> None" "WGSlot (g p) = WGSlot (g q)" for p q
    using that pool_ok_slotD [OF assms that(1,2)]
    by (cases "vpID p = i"; cases "vpID q = i") (simp_all add: g_def)
  ultimately show ?thesis
    unfolding vpn_set_def g_def [symmetric] by (intro pool_ok_mapI [OF pool_ok_ids [OF assms(1)]])
qed

lemma pool_ok_filter: "pool_ok ps \<Longrightarrow> pool_ok (filter P ps)"
  unfolding pool_ok_def by (auto simp: distinct_map_filter simp del: not_None_eq)

datatype pool_command =
  CDelete nat | CEnable nat bool | CRole nat int int | COrder "nat list" | CTransport nat string | CJoin VPNProfile

fun run_command :: "pool_command \<Rightarrow> VPNProfile list \<Rightarrow> vpn_error + VPNProfile list" where
  "run_command (CDelete i) ps = vpn_Delete i ps"
| "run_command (CEnable i on) ps = SetEnabled i on ps"
| "run_command (CRole i p w) ps = SetRole i p w ps"
| "run_command (COrder ids) ps = SetPoolOrder ids ps"
| "run_command (CTransport i k) ps = SetTransport i k ps"
| "run_command (CJoin p) ps = join_pool p ps"

lemma SetEnabled_ok [inv_intros]: "pool_ok ps \<Longrightarrow> SetEnabled i on ps = Inr ps' \<Longrightarrow> pool_ok ps'"
  by (auto simp: SetEnabled_def split: option.splits if_splits intro: pool_ok_enable pool_ok_disable)

lemma SetRole_ok [inv_intros]: "pool_ok ps \<Longrightarrow> SetRole i p w ps = Inr ps' \<Longrightarrow> pool_ok ps'"
  by (auto simp: SetRole_def split: option.splits if_splits intro: pool_ok_vpn_set)

lemma vpn_Update_ok [inv_intros]: "pool_ok ps \<Longrightarrow> vpn_Update p ps = Inr ps' \<Longrightarrow> pool_ok ps'"
  by (auto simp: vpn_Update_def split: if_splits intro: pool_ok_vpn_set)

lemma join_pool_ok:
  assumes "pool_ok ps" "join_pool p ps = Inr ps'"
  shows "pool_ok ps'"
proof -
  obtain ps1 where 1: "vpn_Update p ps = Inr ps1" using assms(2) by (auto simp: join_pool_def split: sum.splits)
  then obtain ps2 where 2: "SetEnabled (vpID p) True ps1 = Inr ps2" using assms(2) by (auto simp: join_pool_def split: sum.splits)
  have "pool_ok ps2" by (rule SetEnabled_ok [OF vpn_Update_ok [OF assms(1) 1] 2])
  moreover have "appendToChain (vpID p) ps2 = Inr ps'" using assms(2) 1 2 by (simp add: join_pool_def)
  ultimately show ?thesis unfolding appendToChain_def Let_def by (rule SetRole_ok)
qed

lemma run_command_ok: "pool_ok ps \<Longrightarrow> run_command c ps = Inr ps' \<Longrightarrow> pool_ok ps'"
proof (cases c)
  case (CDelete i)
  moreover assume "pool_ok ps" "run_command c ps = Inr ps'"
  ultimately show ?thesis by (auto simp: vpn_Delete_def split: option.splits if_splits intro: pool_ok_filter)
next
  case (COrder ids)
  moreover assume "pool_ok ps" "run_command c ps = Inr ps'"
  ultimately show ?thesis by (auto simp: SetPoolOrder_def SetOrder_def split: option.splits if_splits intro: SetOrder_from_ok)
next
  case (CTransport i k)
  moreover assume "pool_ok ps" "run_command c ps = Inr ps'"
  ultimately show ?thesis by (auto simp: SetTransport_def split: if_splits intro: pool_ok_vpn_set)
next
  case (CJoin p)
  moreover assume "pool_ok ps" "run_command c ps = Inr ps'"
  ultimately show ?thesis by (simp add: join_pool_ok)
qed (auto intro: inv_intros)

lemma set_Enabled: "set (Enabled ps) = {p \<in> set ps. vpEnabled p}"
  by (auto simp: Enabled_def)

lemma length_Enabled: "length (Enabled ps) = length (filter vpEnabled ps)"
  by (simp add: Enabled_def)

lemma free_slot_None_iff:
  assumes "pool_ok ps"
  shows "free_slot ps = None \<longleftrightarrow> length (Enabled ps) = MaxEnabledProfiles"
proof -
  let ?en = "filter vpEnabled ps" and ?S = "the ` WGSlot ` set (filter vpEnabled ps)"
  have some: "\<exists>s. WGSlot p = Some s \<and> 0 \<le> s \<and> s < int MaxEnabledProfiles" if "p \<in> set ?en" for p
    using that assms by (fastforce simp: pool_ok_def slot_wf_def split: option.splits)
  have inj: "inj_on (the \<circ> WGSlot) (set ?en)"
  proof (rule inj_onI)
    fix p q assume pq: "p \<in> set ?en" "q \<in> set ?en" "(the \<circ> WGSlot) p = (the \<circ> WGSlot) q"
    then obtain s where "WGSlot p = Some s" "WGSlot q = Some s" using some by fastforce
    then have "vpID p = vpID q" using pq pool_ok_slotD [OF assms] by simp
    then show "p = q" using pq pool_ok_eq [OF assms] by simp
  qed
  have "distinct ?en" using assms by (simp add: pool_ok_def distinct_map)
  then have card: "card ?S = length (Enabled ps)"
    using card_image [OF inj] distinct_card [of ?en] by (simp add: length_Enabled image_comp comp_def)
  have sub: "?S \<subseteq> {0..<int MaxEnabledProfiles}" using some by fastforce
  have "free_slot ps = None \<longleftrightarrow> {0..<int MaxEnabledProfiles} \<subseteq> ?S"
  proof -
    have "free_slot ps = None \<longleftrightarrow> (\<forall>s \<in> {0..<int MaxEnabledProfiles}. \<exists>p \<in> set ps. vpEnabled p \<and> WGSlot p = Some s)"
      unfolding free_slot_def find_None_iff set_map set_upt image_int_atLeastLessThan by auto
    also have "\<dots> \<longleftrightarrow> {0..<int MaxEnabledProfiles} \<subseteq> ?S" using some by (force simp: image_iff)
    finally show ?thesis .
  qed
  also have "\<dots> \<longleftrightarrow> card ?S = MaxEnabledProfiles"
  proof
    assume "{0..<int MaxEnabledProfiles} \<subseteq> ?S"
    with sub have "?S = {0..<int MaxEnabledProfiles}" by (rule subset_antisym)
    then show "card ?S = MaxEnabledProfiles" by (simp only: card_atLeastLessThan_int)
  next
    assume "card ?S = MaxEnabledProfiles"
    then have "?S = {0..<int MaxEnabledProfiles}" using card_subset_eq [OF finite_atLeastLessThan_int sub] by simp
    then show "{0..<int MaxEnabledProfiles} \<subseteq> ?S" by simp
  qed
  finally show ?thesis using card by simp
qed

text \<open>
  C20. The pool's table stays sound under every operation on it: an enabled profile owns exactly one
  of the eight interface slots, no two share one, and a disabled profile owns none. Enabling a
  disabled profile fails for lack of a slot exactly when all eight are taken.
\<close>

theorem pool_slots_sound:
  assumes "pool_ok ps"
  shows "(run_command c ps = Inr ps' \<longrightarrow> pool_ok ps')
    \<and> (vpn_Get i ps = Some p \<and> \<not> vpEnabled p \<longrightarrow>
         (SetEnabled i True ps = Inl ErrPoolFull \<longleftrightarrow> length (Enabled ps) = MaxEnabledProfiles)
         \<and> (length (Enabled ps) \<noteq> MaxEnabledProfiles \<longrightarrow> (\<exists>ps''. SetEnabled i True ps = Inr ps'')))"
proof -
  have "SetEnabled i True ps = Inl ErrPoolFull \<longleftrightarrow> free_slot ps = None"
    "free_slot ps \<noteq> None \<longrightarrow> (\<exists>ps''. SetEnabled i True ps = Inr ps'')"
    if "vpn_Get i ps = Some p" "\<not> vpEnabled p"
    using that by (auto simp: SetEnabled_def split: option.splits)
  then show ?thesis using run_command_ok [OF assms] free_slot_None_iff [OF assms] by auto
qed

section \<open>The order of the chain\<close>

lemma check_order_None:
  "check_order known seen ids = None \<longleftrightarrow> set ids \<subseteq> set known \<and> distinct ids \<and> set ids \<inter> set seen = {}"
  by (induction known seen ids rule: check_order.induct) auto

text \<open>The priorities after writing an order: the position of a listed profile, else as before.\<close>

definition position :: "nat list \<Rightarrow> nat \<Rightarrow> nat" where
  "position ids i = length (takeWhile (\<lambda>x. x \<noteq> i) ids)"

lemma SetOrder_from_spec:
  assumes "set ids \<subseteq> vpID ` set ps" "distinct ids"
  shows "SetOrder_from pos ids ps =
    Inr (map (\<lambda>p. if vpID p \<in> set ids then p\<lparr>vpPriority := pos + int (position ids (vpID p))\<rparr> else p) ps)"
  using assms
proof (induction pos ids ps rule: SetOrder_from.induct)
  case (1 pos ps)
  show ?case by (simp add: map_idI)
next
  case (2 pos i ids ps)
  let ?ps = "vpn_set i (\<lambda>p. p\<lparr>vpPriority := pos\<rparr>) ps"
  have "set ids \<subseteq> vpID ` set ?ps" using 2(2) vpn_set_ids [of "\<lambda>p. p\<lparr>vpPriority := pos\<rparr>" i ps]
    by (metis (no_types, lifting) VPNProfile.ext_inject VPNProfile.surjective VPNProfile.update_convs(6) list.set_map set_subset_Cons subset_trans)
  moreover have "vpn_Get i ps \<noteq> None" using 2(2) by (auto simp: vpn_Get_None_iff)
  ultimately have "SetOrder_from pos (i # ids) ps = Inr (map (\<lambda>p. if vpID p \<in> set ids
      then p\<lparr>vpPriority := pos + 1 + int (position ids (vpID p))\<rparr> else p) ?ps)"
    using 2 by simp
  also have "\<dots> = Inr (map (\<lambda>p. if vpID p \<in> set (i # ids) then p\<lparr>vpPriority := pos + int (position (i # ids) (vpID p))\<rparr> else p) ps)"
    using 2(3) by (auto simp: vpn_set_def position_def)
  finally show ?case .
qed

lemma position_nth: "distinct ids \<Longrightarrow> k < length ids \<Longrightarrow> position ids (ids ! k) = k"
proof (induction ids arbitrary: k)
  case (Cons i ids)
  then show ?case by (cases k) (auto simp: position_def)
qed simp

lemma position_less: "i \<in> set ids \<Longrightarrow> position ids i < length ids \<and> ids ! position ids i = i"
  by (induction ids) (auto simp: position_def)

lemma sorted_ids_unique:
  assumes "sorted (map (\<lambda>p. (vpPriority p, vpID p)) xs)" "distinct ids" "set (map vpID xs) = set ids" "length xs = length ids"
    "\<forall>p \<in> set xs. vpPriority p = int (position ids (vpID p))"
  shows "map vpID xs = ids"
proof -
  let ?pos = "\<lambda>i. position ids i"
  have "sorted (map ?pos (map vpID xs))"
  proof -
    have "sorted_wrt (\<lambda>p q. vpPriority p \<le> vpPriority q) xs"
      using assms(1) by (auto simp: sorted_map less_eq_prod_def elim: sorted_wrt_mono_rel [rotated])
    then have "sorted_wrt (\<lambda>p q. ?pos (vpID p) \<le> ?pos (vpID q)) xs"
      by (rule sorted_wrt_mono_rel [rotated]) (use assms(5) in auto)
    then show ?thesis by (simp add: sorted_map)
  qed
  moreover have "map ?pos ids = [0..<length ids]"
    by (rule nth_equalityI) (auto simp: position_nth assms(2))
  moreover have "distinct (map vpID xs)"
    using assms(2-4) by (metis card_distinct distinct_card length_map)
  moreover have inj: "inj_on ?pos (set ids)"
    by (rule inj_onI) (metis position_less)
  moreover have "set (map ?pos (map vpID xs)) = set [0..<length ids]"
    using calculation(2) assms(3) by (metis set_map)
  ultimately have "map ?pos (map vpID xs) = map ?pos ids"
    by (metis assms(3) distinct_map distinct_upt sorted_distinct_set_unique sorted_upt)
  moreover have "inj_on ?pos (set (map vpID xs) \<union> set ids)" using inj assms(3) by simp
  ultimately show ?thesis using inj_on_map_eq_map by blast
qed

text \<open>
  Setting the order of the pool does what the operator dragged. It is accepted exactly when the
  list names every enabled tunnel once, and afterwards the chain, read back in priority order, is
  that list; nothing but priorities has changed.
\<close>

theorem SetPoolOrder_sets_the_chain:
  assumes "pool_ok ps"
  shows "((\<exists>ps'. SetPoolOrder ids ps = Inr ps') \<longleftrightarrow> distinct ids \<and> set ids = vpID ` set (Enabled ps))
    \<and> (\<forall>ps'. SetPoolOrder ids ps = Inr ps' \<longrightarrow> map vpID (Enabled ps') = ids
         \<and> map (\<lambda>p. p\<lparr>vpPriority := 0\<rparr>) ps' = map (\<lambda>p. p\<lparr>vpPriority := 0\<rparr>) ps)"
proof -
  have de: "distinct (map vpID (Enabled ps))"
    using pool_ok_ids [OF assms] by (simp add: Enabled_def distinct_map inj_on_def)
  have len: "length ids = length (Enabled ps) \<longleftrightarrow> set ids = vpID ` set (Enabled ps)"
    if "distinct ids" "set ids \<subseteq> vpID ` set (Enabled ps)"
    using that de by (metis List.finite_set card_subset_eq distinct_card length_map list.set_map)
  have sub: "vpID ` set (Enabled ps) \<subseteq> vpID ` set ps" by (auto simp: set_Enabled)
  have acc: "SetPoolOrder ids ps = Inr (map (\<lambda>p. if vpID p \<in> set ids then p\<lparr>vpPriority := int (position ids (vpID p))\<rparr> else p) ps)"
    if d: "distinct ids" "set ids = vpID ` set (Enabled ps)"
  proof -
    have "check_order (map vpID (Enabled ps)) [] ids = None" using d by (simp add: check_order_None)
    moreover have "length ids = length (Enabled ps)" using d len by simp
    ultimately have "SetPoolOrder ids ps = SetOrder_from 0 ids ps" by (simp add: SetPoolOrder_def SetOrder_def)
    then show ?thesis using d sub SetOrder_from_spec [of ids ps 0] by simp
  qed
  have rej: "distinct ids \<and> set ids = vpID ` set (Enabled ps)" if "SetPoolOrder ids ps = Inr ps'" for ps'
  proof -
    have "check_order (map vpID (Enabled ps)) [] ids = None" "length ids = length (Enabled ps)"
      using that by (auto simp: SetPoolOrder_def split: option.splits if_splits)
    then show ?thesis using len by (auto simp: check_order_None)
  qed
  have "map vpID (Enabled ps') = ids \<and> map (\<lambda>p. p\<lparr>vpPriority := 0\<rparr>) ps' = map (\<lambda>p. p\<lparr>vpPriority := 0\<rparr>) ps"
    if r: "SetPoolOrder ids ps = Inr ps'" for ps'
  proof
    note d = rej [OF r]
    let ?f = "\<lambda>p. if vpID p \<in> set ids then p\<lparr>vpPriority := int (position ids (vpID p))\<rparr> else p"
    have ps': "ps' = map ?f ps" using acc d r by simp
    show "map (\<lambda>p. p\<lparr>vpPriority := 0\<rparr>) ps' = map (\<lambda>p. p\<lparr>vpPriority := 0\<rparr>) ps" by (simp add: ps')
    have en: "filter vpEnabled ps' = map ?f (filter vpEnabled ps)"
      unfolding ps' filter_map by (rule arg_cong [where f = "map ?f"], rule filter_cong) auto
    show "map vpID (Enabled ps') = ids"
    proof (rule sorted_ids_unique)
      show "sorted (map (\<lambda>p. (vpPriority p, vpID p)) (Enabled ps'))" by (simp add: Enabled_def)
      show "distinct ids" using d by simp
      show "set (map vpID (Enabled ps')) = set ids"
        using d by (auto simp: Enabled_def en image_image)
      show "length (Enabled ps') = length ids" using len d by (simp add: Enabled_def en)
      show "\<forall>p \<in> set (Enabled ps'). vpPriority p = int (position ids (vpID p))"
        using d by (auto simp: Enabled_def en)
    qed
  qed
  then show ?thesis using acc rej by blast
qed

section \<open>The chain runs out of positions\<close>

fun run_commands :: "pool_command list \<Rightarrow> VPNProfile list \<Rightarrow> vpn_error + VPNProfile list" where
  "run_commands [] ps = Inr ps"
| "run_commands (c # cs) ps = (case run_command c ps of Inl e \<Rightarrow> Inl e | Inr ps' \<Rightarrow> run_commands cs ps')"

definition example_profile :: "nat \<Rightarrow> VPNProfile" where
  "example_profile i = \<lparr>vpID = i, vpNodeID = 1, vpName = ''t'', vpType = ''wireguard'', vpEnabled = False,
     vpPriority = 0, vpWeight = 1, WGSlot = None, TransportUplink = [], vpConfig = ''{}''\<rparr>"

definition example_pool :: "VPNProfile list" where
  "example_pool = [example_profile 1, example_profile 2]"

definition toggle :: "nat \<Rightarrow> pool_command list" where
  "toggle i = [CEnable i False, CJoin (example_profile i)]"

text \<open>
  Positions in the chain are never given back. A tunnel that joins goes one past the highest
  position, which may not exceed 7, so after turning two tunnels off and on in turn a few times a
  tunnel can no longer be turned on, although the pool then holds a single one.
\<close>

theorem joining_can_run_out_of_positions:
  "\<exists>ps. run_commands ([CJoin (example_profile 1), CJoin (example_profile 2)] @ concat (replicate 3 (toggle 1 @ toggle 2)) @ [CEnable 1 False]) example_pool = Inr ps
     \<and> length (Enabled ps) = 1 \<and> vpn_Get 1 ps \<noteq> None \<and> join_pool (example_profile 1) ps = Inl PriorityRange"
proof -
  let ?ps = "[(example_profile 1)\<lparr>vpPriority := 6\<rparr>, (example_profile 2)\<lparr>vpPriority := 7, vpEnabled := True, WGSlot := Some 1\<rparr>]"
  have "run_commands ([CJoin (example_profile 1), CJoin (example_profile 2)] @ concat (replicate 3 (toggle 1 @ toggle 2)) @ [CEnable 1 False]) example_pool = Inr ?ps"
    by code_simp
  moreover have "length (Enabled ?ps) = 1" "vpn_Get 1 ?ps \<noteq> None" by code_simp+
  moreover have "join_pool (example_profile 1) ?ps = Inl PriorityRange" by code_simp
  ultimately show ?thesis by blast
qed

lemma example_pool_ok: "pool_ok example_pool"
  by (simp add: pool_ok_def example_pool_def example_profile_def slot_wf_def)

theorem pool_slots_sound_witness:
  "pool_ok example_pool \<and> (\<exists>ps. run_command (CJoin (example_profile 1)) example_pool = Inr ps \<and> pool_ok ps)"
proof -
  let ?ps = "[(example_profile 1)\<lparr>vpEnabled := True, WGSlot := Some 0\<rparr>, example_profile 2]"
  have "run_command (CJoin (example_profile 1)) example_pool = Inr ?ps" by code_simp
  then show ?thesis using pool_slots_sound [OF example_pool_ok, of "CJoin (example_profile 1)" ?ps] example_pool_ok by blast
qed

definition two_tunnels :: "VPNProfile list" where
  "two_tunnels = [(example_profile 1)\<lparr>vpEnabled := True, WGSlot := Some 0\<rparr>,
     (example_profile 2)\<lparr>vpEnabled := True, WGSlot := Some 1, vpPriority := 1\<rparr>]"

lemma two_tunnels_ok: "pool_ok two_tunnels"
  by (simp add: pool_ok_def two_tunnels_def example_profile_def slot_wf_def MaxEnabledProfiles_def)

theorem SetPoolOrder_sets_the_chain_witness:
  "pool_ok two_tunnels \<and> (\<exists>ps. SetPoolOrder [2, 1] two_tunnels = Inr ps \<and> map vpID (Enabled ps) = [2, 1])"
proof -
  have "map vpID (Enabled two_tunnels) = [1, 2]" by code_simp
  then have "vpID ` set (Enabled two_tunnels) = set [1, 2]" by (simp only: list.set_map [symmetric])
  then have "distinct [2, 1::nat] \<and> set [2, 1] = vpID ` set (Enabled two_tunnels)" by auto
  then obtain ps where "SetPoolOrder [2, 1] two_tunnels = Inr ps"
    using SetPoolOrder_sets_the_chain [OF two_tunnels_ok, of "[2, 1]", THEN conjunct1, THEN iffD2] by blast
  then show ?thesis
    using SetPoolOrder_sets_the_chain [OF two_tunnels_ok, of "[2, 1]", THEN conjunct2] two_tunnels_ok by simp
qed

section \<open>Who carries\<close>

lemma set_pool_ordered [simp]: "set (pool_ordered ms) = set ms"
  by (simp add: pool_ordered_def)

lemma pool_ordered_Nil [simp]: "pool_ordered ms = [] \<longleftrightarrow> ms = []"
  using set_pool_ordered [of ms] by (metis set_empty)

lemma fastest_from_mem: "fastest_from b ms \<in> set (b # ms)"
  by (induction b ms rule: fastest_from.induct) auto

lemma fastestOf_mem: "ms \<noteq> [] \<Longrightarrow> fastestOf ms \<in> set ms"
  using fastest_from_mem [of "hd ms" "tl ms"] by (cases ms) (simp_all add: fastestOf_def)

lemma fastest_from_least:
  "m \<in> set (b # ms) \<Longrightarrow> 0 < RTTms m \<Longrightarrow> 0 < RTTms (fastest_from b ms) \<and> RTTms (fastest_from b ms) \<le> RTTms m"
proof (induction b ms arbitrary: m rule: fastest_from.induct)
  case (2 b x ms)
  show ?case
  proof (cases "RTTms x \<le> 0")
    case True
    with 2 show ?thesis by auto
  next
    case x: False
    show ?thesis
    proof (cases "RTTms b \<le> 0 \<or> RTTms x < RTTms b")
      case True
      have "0 < RTTms (fastest_from x ms) \<and> RTTms (fastest_from x ms) \<le> RTTms x" using 2(2) [of x] x True by simp
      moreover have "0 < RTTms (fastest_from x ms) \<and> RTTms (fastest_from x ms) \<le> RTTms m" if "m \<in> set ms"
        using 2(2) [of m] 2(5) x True that by simp
      ultimately show ?thesis using 2(4,5) x True by auto
    next
      case False
      have "0 < RTTms (fastest_from b ms) \<and> RTTms (fastest_from b ms) \<le> RTTms b" using 2(3) [of b] x False by simp
      moreover have "0 < RTTms (fastest_from b ms) \<and> RTTms (fastest_from b ms) \<le> RTTms m" if "m \<in> set ms"
        using 2(3) [of m] 2(5) x False that by simp
      ultimately show ?thesis using 2(4,5) x False by auto
    qed
  qed
qed simp

lemma fastestOf_least:
  "m \<in> set ms \<Longrightarrow> 0 < RTTms m \<Longrightarrow> 0 < RTTms (fastestOf ms) \<and> RTTms (fastestOf ms) \<le> RTTms m"
  using fastest_from_least [of m "hd ms" "tl ms"] by (cases ms) (simp_all add: fastestOf_def)

lemma take1_min:
  assumes "filter P (pool_ordered ms) \<noteq> []"
  shows "\<exists>m \<in> set ms. take 1 (filter P (pool_ordered ms)) = [m] \<and> P m
    \<and> (\<forall>x \<in> set ms. P x \<longrightarrow> (pmPriority m, pmSlot m) \<le> (pmPriority x, pmSlot x))"
proof -
  obtain m rest where m: "filter P (pool_ordered ms) = m # rest" using assms by (cases "filter P (pool_ordered ms)") auto
  have "m \<in> set (filter P (pool_ordered ms))" by (simp only: m) simp
  then have "m \<in> set ms" "P m" by auto
  moreover have "\<forall>x \<in> set ms. P x \<longrightarrow> (pmPriority m, pmSlot m) \<le> (pmPriority x, pmSlot x)"
    using sort_key_filter_hd [OF m [unfolded pool_ordered_def]] by blast
  ultimately show ?thesis using m by (intro bexI [of _ m]) simp_all
qed

text \<open>
  Traffic always has somewhere to go and never uses a dead tunnel while a live one exists. For a
  non-empty pool every strategy names at least one member; the members it names are all healthy
  when any member is. Spreading names every healthy member, the chain the healthy member that is
  first in the operator's order, and the fastest strategy the elected one while it is healthy and
  otherwise one with the least measured round trip.
\<close>

theorem carriersFor_spec:
  assumes "members \<noteq> []"
  shows "carriersFor members s sticky \<noteq> [] \<and> set (carriersFor members s sticky) \<subseteq> set members
    \<and> ((\<exists>m \<in> set members. pmHealthy m) \<longrightarrow>
         (\<forall>m \<in> set (carriersFor members s sticky). pmHealthy m)
         \<and> (s = StrategySpread \<longrightarrow> set (carriersFor members s sticky) = {m \<in> set members. pmHealthy m})
         \<and> (s = StrategyOrder \<longrightarrow> (\<exists>m. carriersFor members s sticky = [m]
              \<and> (\<forall>x \<in> set members. pmHealthy x \<longrightarrow> (pmPriority m, pmSlot m) \<le> (pmPriority x, pmSlot x))))
         \<and> (s = StrategyFastest \<longrightarrow> (\<exists>m. carriersFor members s sticky = [m]
              \<and> (pmIfName m = sticky
                 \<or> \<not> (\<exists>x \<in> set members. pmHealthy x \<and> pmIfName x = sticky)
                   \<and> (\<forall>x \<in> set members. pmHealthy x \<longrightarrow> 0 < RTTms x \<longrightarrow> 0 < RTTms m \<and> RTTms m \<le> RTTms x)))))"
proof -
  let ?h = "filter pmHealthy (pool_ordered members)"
  have hset: "set ?h = {m \<in> set members. pmHealthy m}" by auto
  have t1: "\<exists>m \<in> set members. take 1 (pool_ordered members) = [m]"
    using take1_min [of "\<lambda>_. True" members] assms by auto
  show ?thesis
  proof (cases "\<exists>m \<in> set members. pmHealthy m")
    case False
    then have "?h = []" by (auto simp: filter_empty_conv)
    with t1 assms False show ?thesis by (cases s) (auto simp: carriersFor_def Let_def)
  next
    case True
    then have h: "?h \<noteq> []" by (auto simp: filter_empty_conv)
    show ?thesis
    proof (cases s)
      case StrategySpread
      with assms h True show ?thesis by (auto simp: carriersFor_def Let_def)
    next
      case StrategyOrder
      from take1_min [OF h] obtain m where "m \<in> set members" "take 1 ?h = [m]" "pmHealthy m"
        "\<forall>x \<in> set members. pmHealthy x \<longrightarrow> (pmPriority m, pmSlot m) \<le> (pmPriority x, pmSlot x)" by blast
      moreover have "carriersFor members s sticky = take 1 ?h" using StrategyOrder h assms by (simp add: carriersFor_def Let_def)
      ultimately show ?thesis using StrategyOrder by simp
    next
      case StrategyFastest
      show ?thesis
      proof (cases "find (\<lambda>m. pmIfName m = sticky) ?h")
        case None
        then have n: "\<not> (\<exists>x \<in> set members. pmHealthy x \<and> pmIfName x = sticky)" by (auto simp: find_None_iff)
        have "carriersFor members s sticky = [fastestOf ?h]"
          using None StrategyFastest h assms by (simp add: carriersFor_def Let_def)
        moreover have "fastestOf ?h \<in> set members" "pmHealthy (fastestOf ?h)" using fastestOf_mem [OF h] hset by auto
        moreover have "\<forall>x \<in> set members. pmHealthy x \<longrightarrow> 0 < RTTms x \<longrightarrow> 0 < RTTms (fastestOf ?h) \<and> RTTms (fastestOf ?h) \<le> RTTms x"
          using fastestOf_least [of _ ?h] hset by blast
        ultimately show ?thesis using StrategyFastest n by simp
      next
        case (Some m)
        then have "m \<in> set ?h" "pmIfName m = sticky" unfolding find_Some_iff using nth_mem by blast+
        moreover have "carriersFor members s sticky = [m]"
          using Some StrategyFastest h assms by (simp add: carriersFor_def Let_def)
        ultimately show ?thesis using StrategyFastest by auto
      qed
    qed
  qed
qed

definition mem :: "string \<Rightarrow> int \<Rightarrow> int \<Rightarrow> int \<Rightarrow> bool \<Rightarrow> poolMember" where
  "mem n s p r h = \<lparr>pmIfName = n, pmSlot = s, pmPriority = p, RTTms = r, pmHealthy = h\<rparr>"

theorem carriersFor_spec_witness:
  "carriersFor [mem ''wg0'' 0 0 50 False, mem ''wg1'' 1 1 90 True, mem ''wg2'' 2 2 30 True] StrategyFastest ''wg0''
     = [mem ''wg2'' 2 2 30 True]
   \<and> carriersFor [mem ''wg0'' 0 0 50 False, mem ''wg1'' 1 1 90 True, mem ''wg2'' 2 2 30 True] StrategyFastest ''wg0'' \<noteq> []"
proof (rule conjI)
  show "carriersFor [mem ''wg0'' 0 0 50 False, mem ''wg1'' 1 1 90 True, mem ''wg2'' 2 2 30 True] StrategyFastest ''wg0''
      = [mem ''wg2'' 2 2 30 True]" by code_simp
qed (use carriersFor_spec [of "[mem ''wg0'' 0 0 50 False, mem ''wg1'' 1 1 90 True, mem ''wg2'' 2 2 30 True]"] in simp)

section \<open>Hysteresis of the election\<close>

text \<open>
  \<open>beats ms prev c\<close>: at the measurement \<open>ms\<close> the tunnel named \<open>c\<close> is the fastest healthy
  challenger of the healthy carrier \<open>prev\<close> and better than it by both margins.
\<close>

definition beats :: "poolMember list \<Rightarrow> string \<Rightarrow> string \<Rightarrow> bool" where
  "beats ms prev c \<longleftrightarrow> (case by_name ms prev of
      None \<Rightarrow> False
    | Some cur \<Rightarrow> pmHealthy cur
        \<and> (let hs = filter (\<lambda>m. pmHealthy m \<and> pmIfName m \<noteq> prev) ms in
             hs \<noteq> [] \<and> pmIfName (fastestOf hs) = c \<and> betterByMargin (RTTms (fastestOf hs)) (RTTms cur)))"

text \<open>The ticks of the election, each with the measurements it saw, most recent first.\<close>

fun elect_run :: "poolMember list list \<Rightarrow> elect_state" where
  "elect_run [] = \<lparr>poolCarrier = [], poolChallenger = [], poolChallengeTicks = 0\<rparr>"
| "elect_run (ms # hist) = snd (electCarrier ms StrategyFastest (elect_run hist))"

text \<open>
  The invariant: a running challenge of \<open>n\<close> ticks is backed by the last \<open>n\<close> measurements, all of
  them taken while the present carrier carried.
\<close>

definition challenge_ok :: "poolMember list list \<Rightarrow> bool" where
  "challenge_ok hist \<longleftrightarrow> (let u = elect_run hist; n = nat (poolChallengeTicks u) in
     0 \<le> poolChallengeTicks u \<and> n \<le> length hist \<and> poolChallengeTicks u < fastestHoldTicks
     \<and> (\<forall>i < n. beats (hist ! i) (poolCarrier u) (poolChallenger u)
                \<and> poolCarrier (elect_run (drop (Suc i) hist)) = poolCarrier u))"

lemma betterByMargin_pos: "betterByMargin a b \<Longrightarrow> 0 < a \<and> 0 < b \<and> a < b"
  by (auto simp: betterByMargin_def fastestMarginMs_def split: if_splits)

lemma elect_move_same: "pmIfName want = prev \<Longrightarrow> elect_move want r prev rtt u = (None, u)"
  by (simp add: elect_move_def)

lemma by_name_Some: "by_name ms n = Some m \<Longrightarrow> m \<in> set ms \<and> pmIfName m = n"
  unfolding by_name_def by (drule find_SomeD) simp

text \<open>One tick of the fastest election, by what happens to the carrier and to the challenge.\<close>

lemma electFastest_cases:
  assumes "electFastest ms prev u = (want, u')"
  obtains
    (replaced) "\<not> (\<exists>cur. by_name ms prev = Some cur \<and> pmHealthy cur)" "u' = no_challenge u"
      "want = hd (carriersFor ms StrategyFastest [])"
  | (held) "pmIfName want = prev" "u' = no_challenge u"
  | (begun) c where "pmIfName want = prev" "u' = u\<lparr>poolChallenger := c, poolChallengeTicks := 1\<rparr>" "beats ms prev c"
  | (going) "pmIfName want = prev" "u' = u\<lparr>poolChallengeTicks := poolChallengeTicks u + 1\<rparr>"
      "beats ms prev (poolChallenger u)" "poolChallengeTicks u + 1 < fastestHoldTicks"
  | (won) "pmIfName want = poolChallenger u" "u' = u\<lparr>poolChallengeTicks := poolChallengeTicks u + 1\<rparr>"
      "beats ms prev (poolChallenger u)" "\<not> poolChallengeTicks u + 1 < fastestHoldTicks"
proof (cases "\<exists>cur. by_name ms prev = Some cur \<and> pmHealthy cur")
  case False
  then show ?thesis using assms that(1) by (auto simp: electFastest_def split: option.splits)
next
  case True
  then obtain cur where cur: "by_name ms prev = Some cur" "pmHealthy cur" by blast
  note nm = by_name_Some [OF cur(1)]
  let ?hs = "filter (\<lambda>m. pmHealthy m \<and> pmIfName m \<noteq> prev) ms"
  show ?thesis
  proof (cases "?hs = [] \<or> RTTms cur \<le> 0 \<or> \<not> betterByMargin (RTTms (fastestOf ?hs)) (RTTms cur)")
    case True
    then have "want = cur \<and> u' = no_challenge u" using assms cur by (auto simp: electFastest_def Let_def split: if_splits)
    then show ?thesis using that(2) nm by simp
  next
    case False
    then have b: "beats ms prev (pmIfName (fastestOf ?hs))" using cur by (simp add: beats_def Let_def)
    show ?thesis
      using assms cur b nm False that(3) [of "pmIfName (fastestOf ?hs)"] that(4,5)
      by (auto simp: electFastest_def Let_def split: if_splits)
  qed
qed

lemma elect_tick:
  assumes "ms \<noteq> []" "electFastest ms (poolCarrier u) u = (want, u')"
  shows "snd (electCarrier ms StrategyFastest u) =
    (if pmIfName want = poolCarrier u then u' else no_challenge (u'\<lparr>poolCarrier := pmIfName want\<rparr>))"
  using assms by (simp add: electCarrier_def SingleCarrier_def elect_move_def Let_def)

lemma challenge_okI0: "poolChallengeTicks (elect_run hist) = 0 \<Longrightarrow> challenge_ok hist"
  by (simp add: challenge_ok_def Let_def fastestHoldTicks_def)

lemma challenge_ok_step:
  assumes "challenge_ok hist" "elect_run (ms # hist) = (elect_run hist)\<lparr>poolChallengeTicks := poolChallengeTicks (elect_run hist) + 1\<rparr>"
    "beats ms (poolCarrier (elect_run hist)) (poolChallenger (elect_run hist))"
    "poolChallengeTicks (elect_run hist) + 1 < fastestHoldTicks"
  shows "challenge_ok (ms # hist)"
proof -
  let ?u = "elect_run hist"
  note inv = assms(1) [unfolded challenge_ok_def Let_def]
  have n: "nat (poolChallengeTicks ?u + 1) = Suc (nat (poolChallengeTicks ?u))" using inv by (simp add: nat_add_distrib)
  have "beats ((ms # hist) ! i) (poolCarrier ?u) (poolChallenger ?u)
      \<and> poolCarrier (elect_run (drop (Suc i) (ms # hist))) = poolCarrier ?u" if "i < Suc (nat (poolChallengeTicks ?u))" for i
    using that assms(3) inv by (cases i) auto
  then show ?thesis using inv assms(2,4) n unfolding challenge_ok_def Let_def by simp
qed

lemma challenge_ok_all: "challenge_ok hist"
proof (induction hist)
  case Nil
  show ?case by (rule challenge_okI0) simp
next
  case (Cons ms hist)
  let ?u = "elect_run hist"
  show ?case
  proof (cases "ms = []")
    case True
    then show ?thesis by (intro challenge_okI0) (simp add: electCarrier_def)
  next
    case ne: False
    obtain want u' where e: "electFastest ms (poolCarrier ?u) ?u = (want, u')" by fastforce
    note t = elect_tick [OF ne e]
    show ?thesis
    proof (cases "pmIfName want = poolCarrier ?u")
      case False
      then show ?thesis using t by (intro challenge_okI0) simp
    next
      case same: True
      with t have r: "elect_run (ms # hist) = u'" by simp
      from e show ?thesis
      proof (cases rule: electFastest_cases)
        case (begun c)
        then show ?thesis using r by (simp add: challenge_ok_def Let_def fastestHoldTicks_def del: elect_run.simps)
      next
        case going
        then show ?thesis using r Cons.IH by (intro challenge_ok_step) simp_all
      next
        case won
        have "0 \<le> poolChallengeTicks ?u" "poolChallengeTicks ?u < fastestHoldTicks"
          using Cons.IH by (simp_all add: challenge_ok_def Let_def)
        then have "beats (hist ! 0) (poolCarrier ?u) (poolChallenger ?u)"
          using won(4) Cons.IH by (simp add: challenge_ok_def Let_def fastestHoldTicks_def)
        with same won show ?thesis by (auto simp: beats_def Let_def split: option.splits dest: fastestOf_mem)
      qed (use r in \<open>auto intro!: challenge_okI0\<close>)
    qed
  qed
qed

text \<open>
  The fastest strategy never flaps. A healthy carrier is dropped for a faster tunnel only after
  the same challenger was the fastest healthy one and beat it by at least 20 ms and 25 percent in
  three measurements in a row, during which the carrier did not change.
\<close>

theorem faster_switch_is_earned:
  assumes "fst (electCarrier ms StrategyFastest (elect_run hist)) = Some sw" "csReason sw = ''faster''"
  shows "2 \<le> length hist \<and> (\<forall>m \<in> set (take 3 (ms # hist)). beats m (csFrom sw) (csTo sw))
    \<and> (\<forall>i < 3. poolCarrier (elect_run (drop i hist)) = csFrom sw)"
proof -
  let ?u = "elect_run hist"
  have ne: "ms \<noteq> []" using assms(1) by (auto simp: electCarrier_def)
  obtain want u' where e: "electFastest ms (poolCarrier ?u) ?u = (want, u')" by fastforce
  have mv: "pmIfName want \<noteq> poolCarrier ?u" "csFrom sw = poolCarrier ?u" "csTo sw = pmIfName want"
    using assms(1) ne e by (auto simp: electCarrier_def SingleCarrier_def elect_move_def Let_def split: if_splits)
  have cur: "\<exists>cur. by_name ms (poolCarrier ?u) = Some cur \<and> pmHealthy cur"
    using assms ne e by (auto simp: electCarrier_def SingleCarrier_def elect_move_def Let_def split: if_splits option.splits)
  note inv = challenge_ok_all [of hist, unfolded challenge_ok_def Let_def]
  from e show ?thesis
  proof (cases rule: electFastest_cases)
    case won
    then have "poolChallengeTicks ?u = 2" using inv by (simp add: fastestHoldTicks_def)
    then have *: "2 \<le> length hist" "\<forall>i < 2. beats (hist ! i) (csFrom sw) (csTo sw) \<and> poolCarrier (elect_run (drop (Suc i) hist)) = csFrom sw"
      using inv won(1) mv by simp_all
    have "m = ms \<or> (\<exists>i < 2. m = hist ! i)" if "m \<in> set (take 3 (ms # hist))" for m
      using that *(1) by (auto simp: in_set_conv_nth)
    moreover have "poolCarrier (elect_run (drop i hist)) = csFrom sw" if "i < 3" for i
      using that *(2) mv by (cases i) auto
    ultimately show ?thesis using * won(1,3) mv by auto
  qed (use mv cur in auto)
qed

definition slow_and_fast :: "poolMember list" where
  "slow_and_fast = [mem ''wg0'' 0 0 200 True, mem ''wg1'' 1 1 40 True]"

definition wg0_only :: "poolMember list" where
  "wg0_only = [mem ''wg0'' 0 0 200 True]"

theorem faster_switch_is_earned_witness:
  "\<exists>sw. fst (electCarrier slow_and_fast StrategyFastest (elect_run [slow_and_fast, slow_and_fast, wg0_only])) = Some sw
     \<and> csReason sw = ''faster'' \<and> beats slow_and_fast (csFrom sw) (csTo sw)"
proof -
  let ?sw = "\<lparr>csFrom = ''wg0'', csTo = ''wg1'', csReason = ''faster'', FromRTT = 200, ToRTT = 40\<rparr>"
  have s: "fst (electCarrier slow_and_fast StrategyFastest (elect_run [slow_and_fast, slow_and_fast, wg0_only])) = Some ?sw"
    by code_simp
  then have "\<forall>m \<in> set (take 3 (slow_and_fast # [slow_and_fast, slow_and_fast, wg0_only])). beats m (csFrom ?sw) (csTo ?sw)"
    using faster_switch_is_earned [OF s] by simp
  then show ?thesis using s by simp
qed

section \<open>The domestic plan\<close>

lemma best_line_Some:
  assumes "best_line (sort_key (\<lambda>o'. UplinkIndex (doUp o')) obs) = Some b"
  shows "b \<in> set obs \<and> do_healthy b \<and> doGateway b \<noteq> []
    \<and> (\<forall>x \<in> set obs. do_healthy x \<longrightarrow> doGateway x \<noteq> [] \<longrightarrow> UplinkIndex (doUp b) \<le> UplinkIndex (doUp x))"
proof -
  let ?P = "\<lambda>o'. do_healthy o' \<and> doGateway o' \<noteq> []"
  let ?s = "sort_key (\<lambda>o'. UplinkIndex (doUp o')) obs"
  have f: "find ?P ?s = Some b" using assms by (simp add: best_line_def)
  obtain ys where "filter ?P ?s = b # ys" using find_filter [OF f] by blast
  then show ?thesis using find_SomeD [OF f] sort_key_filter_hd [of ?P _ obs b ys] by auto
qed

lemma best_line_None:
  "best_line (sort_key (\<lambda>o'. UplinkIndex (doUp o')) obs) = None \<longleftrightarrow> (\<forall>x \<in> set obs. do_healthy x \<longrightarrow> doGateway x = [])"
  by (auto simp: best_line_def find_None_iff)

text \<open>
  The failover policy of the domestic lines. Every line gets exactly one entry, in slot order. A
  healthy line keeps its own gateway. A line is sent over a sibling only while its own gateway
  still answers, and that sibling is the healthy line of least index with a known gateway; the
  pool carries a line only with failover on, the tunnels up and no such sibling; a line is
  withdrawn only when its own gateway is gone.
\<close>

theorem domesticRoutePlan_spec:
  assumes "i < length obs"
  shows "length (domesticRoutePlan obs failoverOn vpnUp) = length obs
    \<and> (let o' = sort_key (\<lambda>o'. UplinkIndex (doUp o')) obs ! i; r = domesticRoutePlan obs failoverOn vpnUp ! i in
        drUp r = doUp o' \<and> drGateway r = doGateway o'
        \<and> (do_healthy o' \<longrightarrow> drVia r = viaOwn)
        \<and> (drVia r = viaSibling \<longrightarrow> GatewayUp o' \<and> (\<exists>b \<in> set obs. Sibling r = Some b \<and> do_healthy b \<and> doGateway b \<noteq> []
             \<and> (\<forall>x \<in> set obs. do_healthy x \<longrightarrow> doGateway x \<noteq> [] \<longrightarrow> UplinkIndex (doUp b) \<le> UplinkIndex (doUp x))))
        \<and> (drVia r = viaPool \<longleftrightarrow> \<not> do_healthy o' \<and> failoverOn \<and> vpnUp \<and> (\<forall>x \<in> set obs. do_healthy x \<longrightarrow> doGateway x = []))
        \<and> (drVia r = viaNone \<longrightarrow> \<not> GatewayUp o'))"
proof -
  let ?s = "sort_key (\<lambda>o'. UplinkIndex (doUp o')) obs"
  have r: "domesticRoutePlan obs failoverOn vpnUp ! i = domestic_route (best_line ?s) failoverOn vpnUp (?s ! i)"
    using assms by (simp add: domesticRoutePlan_def Let_def)
  show ?thesis
  proof (cases "best_line ?s")
    case None
    then have "\<forall>x \<in> set obs. do_healthy x \<longrightarrow> doGateway x = []" using best_line_None by blast
    with None r show ?thesis by (auto simp: Let_def domestic_route_def domesticRoutePlan_def do_healthy_def)
  next
    case (Some b)
    note b = best_line_Some [OF Some]
    have "\<not> (\<forall>x \<in> set obs. do_healthy x \<longrightarrow> doGateway x = [])" using b by blast
    then show ?thesis using Some r b
      by (auto simp: Let_def domestic_route_def domesticRoutePlan_def)
  qed
qed

definition example_line :: "string \<Rightarrow> u32 \<Rightarrow> bool \<Rightarrow> bool \<Rightarrow> domesticObs" where
  "example_line n i gw net = \<lparr>doUp = \<lparr>upIfName = n, upKey = n, upTable = 201, UplinkIndex = i, upSlot = SlotDomestic,
       GroupIndex = 1, upDNSServer2 = [], upGatewayOnLink = False, upDNSServer = []\<rparr>,
     doGateway = ''10.0.0.1'', GatewayUp = gw, InternetUp = net, ForcedDown = False\<rparr>"

theorem domesticRoutePlan_spec_witness:
  "let obs = [example_line ''eth2'' 3 True True, example_line ''eth1'' 2 True False] in
     0 < length obs \<and> length (domesticRoutePlan obs True True) = 2
     \<and> Sibling (domesticRoutePlan obs True True ! 0) = Some (example_line ''eth2'' 3 True True)"
proof -
  let ?obs = "[example_line ''eth2'' 3 True True, example_line ''eth1'' 2 True False]"
  have "length (domesticRoutePlan ?obs True True) = 2" using domesticRoutePlan_spec [of 0 ?obs True True] by simp
  moreover have "Sibling (domesticRoutePlan ?obs True True ! 0) = Some (example_line ''eth2'' 3 True True)" by code_simp
  ultimately show ?thesis by (simp add: Let_def)
qed

section \<open>Rolling the pool back\<close>

definition pool_key :: "VPNProfile \<Rightarrow> nat \<times> int option \<times> int \<times> int \<times> string" where
  "pool_key p = (vpID p, WGSlot p, vpPriority p, vpWeight p, vpConfig p)"

definition slots_from :: "VPNProfile list \<Rightarrow> VPNProfile list \<Rightarrow> bool" where
  "slots_from W ps \<longleftrightarrow> (\<forall>p \<in> set ps. WGSlot p \<noteq> None \<longrightarrow> (\<exists>w \<in> set W. vpID w = vpID p \<and> WGSlot w = WGSlot p))"

lemma slots_from_index: "slot_index_ok W \<Longrightarrow> slots_from W ps \<Longrightarrow> slot_index_ok ps"
  unfolding slot_index_ok_def slots_from_def by metis

lemma restore_row_simps [simp]:
  "vpID (restore_row w p) = vpID p" "vpEnabled (restore_row w p)" "WGSlot (restore_row w p) = WGSlot w"
  by (simp_all add: restore_row_def)

definition restored :: "VPNProfile list \<Rightarrow> VPNProfile \<Rightarrow> VPNProfile" where
  "restored ws p = (case find (\<lambda>w. vpID w = vpID p) ws of None \<Rightarrow> p | Some w \<Rightarrow> restore_row w p)"

lemma restore_rows_result:
  assumes "slot_index_ok W" "set ws \<subseteq> set W" "distinct (map vpID ws)" "slots_from W ps"
  shows "restore_rows ws ps = Inr (map (restored ws) ps)"
  using assms(2-4)
proof (induction ws arbitrary: ps)
  case Nil
  then show ?case by (simp add: restored_def)
next
  case (Cons w ws)
  let ?ps = "vpn_set (vpID w) (restore_row w) ps"
  have sf: "slots_from W ?ps" using Cons.prems unfolding slots_from_def vpn_set_def by fastforce
  have "restored ws (if vpID p = vpID w then restore_row w p else p) = restored (w # ws) p" for p
  proof (cases "vpID p = vpID w")
    case True
    then have "find (\<lambda>x. vpID x = vpID (restore_row w p)) ws = None"
      using Cons.prems(2) by (auto simp: find_None_iff) (metis image_eqI)
    with True show ?thesis by (simp add: restored_def)
  qed (simp add: restored_def)
  then have "map (restored ws) ?ps = map (restored (w # ws)) ps" by (simp add: vpn_set_def)
  then show ?case using Cons.IH [OF _ _ sf] Cons.prems slots_from_index [OF assms(1) sf] by (simp add: Let_def)
qed

lemma by_id_of_Enabled:
  assumes "distinct (map vpID W)" "w \<in> set W" "vpID w = i"
  shows "find (\<lambda>w. vpID w = i) W = Some w"
proof -
  have "find (\<lambda>w. vpID w = i) W \<noteq> None" using assms(2,3) unfolding find_None_iff by blast
  then obtain x where x: "find (\<lambda>w. vpID w = i) W = Some x" by blast
  then have "x \<in> set W \<and> vpID x = i" by (rule find_SomeD)
  then have "x = w" using assms inj_onD [of vpID "set W" x w] by (simp add: distinct_map)
  with x show ?thesis by simp
qed

lemma sorted_keys_unique:
  assumes "sorted (map f xs)" "sorted (map f ys)" "distinct (map f xs)" "distinct (map f ys)" "set xs = set ys"
  shows "xs = ys"
proof -
  have "map f xs = map f ys" using assms by (intro sorted_distinct_set_unique) auto
  moreover have "inj_on f (set xs \<union> set ys)" using assms(3,5) by (simp add: distinct_map)
  ultimately show ?thesis by (simp add: inj_on_map_eq_map)
qed

lemma Enabled_sorted: "sorted (map (\<lambda>p. (vpPriority p, vpID p)) (Enabled ps))"
  by (simp add: Enabled_def)

lemma Enabled_ids_distinct: "pool_ok ps \<Longrightarrow> distinct (map vpID (Enabled ps))"
  using pool_ok_ids by (simp add: Enabled_def distinct_map inj_on_def)

lemma Enabled_keys_distinct: "pool_ok ps \<Longrightarrow> distinct (map (\<lambda>p. (vpPriority p, vpID p)) (Enabled ps))"
  using Enabled_ids_distinct [of ps] by (auto simp: distinct_map inj_on_def)

lemma pool_ok_index: "pool_ok ps \<Longrightarrow> slot_index_ok (Enabled ps)"
  unfolding slot_index_ok_def set_Enabled using pool_ok_slotD by blast

lemma clear_pool_off:
  assumes "pool_ok ps" "p \<in> set (clear_pool ps)"
  shows "\<not> vpEnabled p \<and> WGSlot p = None"
proof -
  obtain x where "x \<in> set ps" "p = (if vpEnabled x then x\<lparr>vpEnabled := False, WGSlot := None\<rparr> else x)"
    using assms(2) by (auto simp: clear_pool_def)
  with pool_ok_wf [OF assms(1)] show ?thesis by (simp add: slot_wf_def)
qed

lemma SetPool_result:
  assumes "pool_ok ps0" "pool_ok ps"
  shows "SetPool (Enabled ps0) ps = Inr (map (restored (Enabled ps0)) (clear_pool ps))"
proof -
  have "slots_from (Enabled ps0) (clear_pool ps)"
    using clear_pool_off [OF assms(2)] by (simp add: slots_from_def)
  then show ?thesis unfolding SetPool_def
    by (intro restore_rows_result [OF pool_ok_index [OF assms(1)]]) (simp_all add: Enabled_ids_distinct assms(1))
qed

text \<open>A rolled-back row, by whether it was in the pool.\<close>

lemma restored_cases:
  assumes "pool_ok ps0" "pool_ok ps" "q \<in> set (map (restored (Enabled ps0)) (clear_pool ps))"
  obtains (member) w where "w \<in> set (Enabled ps0)" "vpEnabled q" "pool_key q = pool_key w"
  | (other) "\<not> vpEnabled q" "WGSlot q = None" "vpID q \<notin> vpID ` set (Enabled ps0)"
proof -
  obtain p where p: "p \<in> set (clear_pool ps)" "q = restored (Enabled ps0) p" using assms(3) by auto
  note off = clear_pool_off [OF assms(2) p(1)]
  show ?thesis
  proof (cases "find (\<lambda>w. vpID w = vpID p) (Enabled ps0)")
    case None
    then have "vpID p \<notin> vpID ` set (Enabled ps0)" unfolding find_None_iff by force
    with None p(2) off show ?thesis using other by (simp add: restored_def)
  next
    case (Some w)
    with find_SomeD [OF Some] p(2) show ?thesis using member [of w] by (simp add: restored_def restore_row_def pool_key_def)
  qed
qed

lemma clear_pool_ids [simp]: "map vpID (clear_pool ps) = map vpID ps"
  by (simp add: clear_pool_def)

lemma restored_id [simp]: "vpID (restored ws p) = vpID p"
  by (simp add: restored_def split: option.splits)

text \<open>
  Rollback restores the pool. Whatever has become of the table since (as long as the rows are
  still there), writing the pool that was saved earlier back succeeds without breaking the slot
  index, gives exactly the saved tunnels in their order with their slots, positions, weights and
  configurations, and leaves a well-formed pool.
\<close>

theorem SetPool_restores_the_pool:
  assumes "pool_ok ps0" "pool_ok ps" "vpID ` set (Enabled ps0) \<subseteq> vpID ` set ps"
  shows "\<exists>ps'. SetPool (Enabled ps0) ps = Inr ps' \<and> pool_ok ps' \<and> map pool_key (Enabled ps') = map pool_key (Enabled ps0)"
proof -
  let ?ps' = "map (restored (Enabled ps0)) (clear_pool ps)"
  have ids: "map vpID ?ps' = map vpID ps" by (simp add: comp_def clear_pool_ids [unfolded comp_def])
  note rc = restored_cases [OF assms(1,2), consumes 1, case_names member other]
  have sk: "pool_key p = pool_key w \<Longrightarrow> WGSlot p = WGSlot w \<and> vpID p = vpID w" for p w by (simp add: pool_key_def)
  have wf0: "slot_wf w" "vpEnabled w" if "w \<in> set (Enabled ps0)" for w using that pool_ok_wf [OF assms(1)] by (simp_all add: set_Enabled)
  have ok: "pool_ok ?ps'" unfolding pool_ok_def ids
  proof (intro conjI ballI impI)
    show "slot_wf q" if "q \<in> set ?ps'" for q
      using that
    proof (cases rule: rc)
      case (member w)
      with sk [OF member(3)] wf0 [OF member(1)] show ?thesis by (simp add: slot_wf_def)
    qed (simp add: slot_wf_def)
    show "vpID p = vpID q" if q: "p \<in> set ?ps'" "q \<in> set ?ps'" and s: "WGSlot p \<noteq> None" "WGSlot p = WGSlot q" for p q
    proof -
      obtain w where w: "w \<in> set (Enabled ps0)" "pool_key p = pool_key w" using q(1) s(1) by (cases rule: rc) auto
      obtain v where v: "v \<in> set (Enabled ps0)" "pool_key q = pool_key v" using q(2) s by (cases rule: rc) auto
      have "vpID w = vpID v" using pool_ok_index [OF assms(1)] w v s sk [OF w(2)] sk [OF v(2)] unfolding slot_index_ok_def by metis
      then show ?thesis using sk [OF w(2)] sk [OF v(2)] by simp
    qed
  qed (rule pool_ok_ids [OF assms(2)])
  have "map pool_key (Enabled ?ps') = map pool_key (Enabled ps0)"
  proof (rule sorted_keys_unique [where f = "\<lambda>k. (fst (snd (snd k)), fst k)"])
    show "set (map pool_key (Enabled ?ps')) = set (map pool_key (Enabled ps0))"
    proof (intro equalityI subsetI)
      fix k assume "k \<in> set (map pool_key (Enabled ?ps'))"
      then obtain q where "q \<in> set ?ps'" "vpEnabled q" "k = pool_key q" by (auto simp: set_Enabled)
      then show "k \<in> set (map pool_key (Enabled ps0))" by (cases rule: rc) auto
    next
      fix k assume "k \<in> set (map pool_key (Enabled ps0))"
      then obtain w where w: "w \<in> set (Enabled ps0)" "k = pool_key w" by auto
      then have "vpID w \<in> vpID ` set ?ps'" using assms(3) ids by (metis image_eqI list.set_map subsetD)
      then obtain q where q: "q \<in> set ?ps'" "vpID q = vpID w" by (metis imageE)
      from q(1) show "k \<in> set (map pool_key (Enabled ?ps'))"
      proof (cases rule: rc)
        case (member v)
        then have "vpID v = vpID w" using q(2) sk by metis
        then have "v = w" using member(1) w(1) pool_ok_eq [OF assms(1)] by (simp add: set_Enabled)
        then have "k = pool_key q" "q \<in> set (Enabled ?ps')" using member q(1) w(2) unfolding set_Enabled by simp_all
        then show ?thesis unfolding list.set_map by (rule image_eqI)
      qed (use q(2) w(1) in auto)
    qed
  qed (use Enabled_sorted ok assms(1) in \<open>simp_all add: comp_def pool_key_def Enabled_keys_distinct\<close>)
  then show ?thesis using SetPool_result [OF assms(1,2)] ok by blast
qed

theorem SetPool_restores_the_pool_witness:
  "pool_ok two_tunnels \<and> pool_ok example_pool
    \<and> (\<exists>ps'. SetPool (Enabled two_tunnels) example_pool = Inr ps' \<and> map pool_key (Enabled ps') = map pool_key (Enabled two_tunnels))"
proof -
  have "map vpID (Enabled two_tunnels) = [1, 2]" "map vpID example_pool = [1, 2]" by code_simp+
  then have "vpID ` set (Enabled two_tunnels) \<subseteq> vpID ` set example_pool" by (simp only: list.set_map [symmetric])
  then show ?thesis
    using SetPool_restores_the_pool [OF two_tunnels_ok example_pool_ok] two_tunnels_ok example_pool_ok by blast
qed

end
