(* ===== verification/Bandwidth.thy ===== *)
theory Bandwidth
  imports Netmark
begin

text \<open>
  \<open>pkg/bandwidth/tiers.go\<close>: the bandwidth tiers and how a tier is written into socket priorities
  and connection marks.
\<close>

unbundle bit_operations_syntax

definition PriorityMajor :: u32 where "PriorityMajor = 0xb0"
definition ClassMajor :: u32 where "ClassMajor = 0xb1"
definition ConnMarkShift :: nat where "ConnMarkShift = 28"
definition ConnMarkMask :: u32 where "ConnMarkMask = 0xf0000000"

record tier =
  Level :: u32
  RateMbit :: int
  CeilMbit :: int
  Burst :: string

definition SocketPriority :: "tier \<Rightarrow> u32" where
  "SocketPriority t = push_bit 16 PriorityMajor OR Level t"

definition ClassID :: "tier \<Rightarrow> string" where
  "ClassID t = hex (unat ClassMajor) @ '':'' @ hex (unat (Level t))"

definition ConnMark :: "tier \<Rightarrow> u32" where
  "ConnMark t = push_bit ConnMarkShift (Level t)"

definition tiers :: "tier list" where
  "tiers =
     [\<lparr>Level = 0, RateMbit = 0, CeilMbit = 0, Burst = ''''\<rparr>,
      \<lparr>Level = 1, RateMbit = 10, CeilMbit = 12, Burst = ''256k''\<rparr>,
      \<lparr>Level = 2, RateMbit = 30, CeilMbit = 35, Burst = ''384k''\<rparr>,
      \<lparr>Level = 3, RateMbit = 50, CeilMbit = 55, Burst = ''512k''\<rparr>,
      \<lparr>Level = 4, RateMbit = 100, CeilMbit = 110, Burst = ''1m''\<rparr>,
      \<lparr>Level = 5, RateMbit = 200, CeilMbit = 220, Burst = ''2m''\<rparr>,
      \<lparr>Level = 6, RateMbit = 500, CeilMbit = 550, Burst = ''4m''\<rparr>]"

definition AllTiers :: "tier list" where
  "AllTiers = tiers"

fun keep_limited :: "tier list \<Rightarrow> tier list" where
  "keep_limited [] = []"
| "keep_limited (t # ts) = (if RateMbit t > 0 then t # keep_limited ts else keep_limited ts)"

definition RateLimitedTiers :: "tier list" where
  "RateLimitedTiers = keep_limited tiers"

fun first_at_least :: "int \<Rightarrow> tier list \<Rightarrow> tier option" where
  "first_at_least b [] = None"
| "first_at_least b (t # ts) = (if RateMbit t \<ge> b then Some t else first_at_least b ts)"

definition GetTier :: "int \<Rightarrow> tier" where
  "GetTier b =
     (if b \<le> 0 then tiers ! 0
      else case first_at_least b (drop 1 tiers) of
        Some t \<Rightarrow> t
      | None \<Rightarrow> tiers ! (length tiers - 1))"

lemma first_at_least_Some:
  "first_at_least b ts = Some t \<Longrightarrow> t \<in> set ts \<and> RateMbit t \<ge> b"
  by (induction ts) (auto split: if_splits)

lemma first_at_least_None: "first_at_least b ts = None \<longleftrightarrow> (\<forall>t \<in> set ts. RateMbit t < b)"
  by (induction ts) auto

lemma first_at_least_least:
  "sorted (map RateMbit ts) \<Longrightarrow> first_at_least b ts = Some t \<Longrightarrow> u \<in> set ts \<Longrightarrow> RateMbit u \<ge> b
    \<Longrightarrow> RateMbit t \<le> RateMbit u"
  by (induction ts) (auto split: if_splits)

lemma tiers_sorted: "sorted (map RateMbit (drop 1 tiers))"
  by (simp add: tiers_def)

lemma limited_eq_tail: "RateLimitedTiers = drop 1 tiers"
  by (simp add: RateLimitedTiers_def tiers_def)

lemma tail_last: "t \<in> set (drop 1 tiers) \<Longrightarrow> RateMbit t \<le> RateMbit (tiers ! (length tiers - 1))"
  by (auto simp: tiers_def)

text \<open>
  A positive request gets the slowest rate-limited tier that is fast enough, and the fastest
  tier when none is; anything else gets the unlimited tier.
\<close>

theorem GetTier_spec:
  "(b \<le> 0 \<longrightarrow> RateMbit (GetTier b) = 0)
   \<and> (0 < b \<longrightarrow> GetTier b \<in> set RateLimitedTiers
        \<and> (\<forall>u \<in> set RateLimitedTiers. RateMbit u \<ge> b \<longrightarrow>
              RateMbit (GetTier b) \<ge> b \<and> RateMbit (GetTier b) \<le> RateMbit u)
        \<and> ((\<forall>u \<in> set RateLimitedTiers. RateMbit u < b) \<longrightarrow>
              (\<forall>u \<in> set RateLimitedTiers. RateMbit u \<le> RateMbit (GetTier b))))"
proof (cases "0 < b")
  case False
  then show ?thesis by (simp add: GetTier_def tiers_def)
next
  case True
  show ?thesis
  proof (cases "first_at_least b (drop 1 tiers)")
    case None
    then have "GetTier b = tiers ! (length tiers - 1)" using True by (simp add: GetTier_def)
    moreover have "tiers ! (length tiers - 1) \<in> set (drop 1 tiers)" by (simp add: tiers_def)
    ultimately show ?thesis
      using None True tail_last by (auto simp: limited_eq_tail first_at_least_None not_le [symmetric])
  next
    case (Some t)
    then have g: "GetTier b = t" using True by (simp add: GetTier_def)
    have "t \<in> set (drop 1 tiers)" "RateMbit t \<ge> b"
      using first_at_least_Some [OF Some] by simp_all
    then show ?thesis
      using True first_at_least_least [OF tiers_sorted Some]
      by (auto simp: g limited_eq_tail not_le [symmetric])
  qed
qed

theorem GetTier_spec_witness:
  "(0 :: int) < 60 \<and> GetTier 60 \<in> set RateLimitedTiers \<and> RateMbit (GetTier 60) = 100"
proof -
  have "GetTier 60 \<in> set RateLimitedTiers" using GetTier_spec [of 60] by simp
  moreover have "RateMbit (GetTier 60) = 100" by (simp add: GetTier_def tiers_def)
  ultimately show ?thesis by simp
qed

text \<open>
  Every tier's connection mark lies in the reserved nibble of the mark word: the router's
  conntrack save and restore, which move only the bits of \<open>MaskAll\<close>, never carry a tier onto a
  packet, and no write of the group or pin field disturbs it. Distinct tiers keep distinct marks
  and distinct socket priorities.
\<close>

theorem tier_marks_reserved:
  assumes "t \<in> set tiers" "u \<in> set tiers"
  shows "ConnMark t AND MaskAll = 0 \<and> ConnMark t AND NOT ConnMarkMask = 0
    \<and> WithGroup (ConnMark t OR m) g AND MaskReserved = (ConnMark t OR m) AND MaskReserved
    \<and> (ConnMark t = ConnMark u \<longrightarrow> t = u) \<and> (SocketPriority t = SocketPriority u \<longrightarrow> t = u)"
proof -
  have 1: "ConnMark t AND MaskAll = 0 \<and> ConnMark t AND NOT ConnMarkMask = 0"
    using assms(1) by (auto simp: tiers_def ConnMark_def ConnMarkShift_def ConnMarkMask_def MaskAll_def
        MaskTier_def MaskGroup_def MaskPin_def)
  have 2: "Level t = Level u \<Longrightarrow> t = u"
    using assms by (auto simp: tiers_def)
  have 3: "ConnMark t = ConnMark u \<Longrightarrow> Level t = Level u"
    using assms by (auto simp: tiers_def ConnMark_def ConnMarkShift_def)
  have 4: "SocketPriority t = SocketPriority u \<Longrightarrow> Level t = Level u"
    using assms by (auto simp: tiers_def SocketPriority_def PriorityMajor_def)
  show ?thesis
    using 1 2 3 4 by (simp add: group_field.put_disjoint masks_disjoint)
qed

theorem tier_marks_reserved_witness:
  "tiers ! 3 \<in> set tiers \<and> tiers ! 5 \<in> set tiers \<and> ConnMark (tiers ! 3) AND MaskAll = 0"
proof -
  have "tiers ! 3 \<in> set tiers" "tiers ! 5 \<in> set tiers" by (simp_all add: tiers_def)
  then show ?thesis using tier_marks_reserved [of "tiers ! 3" "tiers ! 5"] by blast
qed

end
