(* ===== verification/Job_Text.thy ===== *)
theory Job_Text
  imports Prelude
begin

text \<open>
  The texts a background job may show, \<open>internal/remotenodes/jobs/text.go\<close>: taking the secrets of
  a login out of a text and cutting the text to a number of characters. Strings are byte
  sequences, so the decoding of UTF-8 that \<open>strings.ToValidUTF8\<close>, \<open>utf8.RuneCountInString\<close> and
  \<open>utf8.DecodeRuneInString\<close> do is written out.
\<close>

section \<open>UTF-8\<close>

definition in_range :: "nat \<Rightarrow> nat \<Rightarrow> char \<Rightarrow> bool" where
  "in_range lo hi c \<longleftrightarrow> lo \<le> byte c \<and> byte c \<le> hi"

text \<open>What may follow a leading byte: the ranges of the continuation bytes.\<close>

definition tail_ranges :: "nat \<Rightarrow> (nat \<times> nat) list option" where
  "tail_ranges b =
     (if b < 0x80 then Some []
      else if 0xC2 \<le> b \<and> b \<le> 0xDF then Some [(0x80, 0xBF)]
      else if 0xE0 \<le> b \<and> b \<le> 0xEF then
        Some [(if b = 0xE0 then 0xA0 else 0x80, if b = 0xED then 0x9F else 0xBF), (0x80, 0xBF)]
      else if 0xF0 \<le> b \<and> b \<le> 0xF4 then
        Some [(if b = 0xF0 then 0x90 else 0x80, if b = 0xF4 then 0x8F else 0xBF), (0x80, 0xBF), (0x80, 0xBF)]
      else None)"

text \<open>The length of the encoded character a string starts with, if it starts with one.\<close>

fun rune_len :: "string \<Rightarrow> nat option" where
  "rune_len [] = None"
| "rune_len (c # r) = (case tail_ranges (byte c) of
      None \<Rightarrow> None
    | Some rs \<Rightarrow> if list_all2 (\<lambda>(lo, hi) c. in_range lo hi c) rs (take (length rs) r)
                then Some (Suc (length rs)) else None)"

lemma rune_len_bounds: "rune_len s = Some w \<Longrightarrow> 1 \<le> w \<and> w \<le> length s"
  by (cases s) (auto split: option.splits if_splits dest: list_all2_lengthD)

lemma take_of_append: "list_all2 P rs (take (length rs) r) \<Longrightarrow> take (length rs) (r @ t) = take (length rs) r"
  by (drule list_all2_lengthD) simp

lemma rune_len_prefix: "rune_len s = Some w \<Longrightarrow> rune_len (s @ t) = Some w"
  by (cases s) (auto simp: take_of_append simp del: take_append split: option.splits if_splits)

lemma rune_len_take: "rune_len s = Some w \<Longrightarrow> rune_len (take w s) = Some w"
  by (cases s) (auto split: option.splits if_splits)

text \<open>\<open>DecodeRuneInString\<close>: a byte that starts no character has width one.\<close>

definition rune_width :: "string \<Rightarrow> nat" where
  "rune_width s = (case rune_len s of Some w \<Rightarrow> w | None \<Rightarrow> 1)"

lemma rune_width_pos [simp]: "0 < rune_width s"
  using rune_len_bounds [of s] by (fastforce simp: rune_width_def split: option.splits)

text \<open>The characters of a string, in turn.\<close>

function runes :: "string \<Rightarrow> string list" where
  "runes s = (if s = [] then [] else take (rune_width s) s # runes (drop (rune_width s) s))"
  by pat_completeness auto
termination
  by (relation "measure length") auto

declare runes.simps [simp del]

definition rune_count :: "string \<Rightarrow> nat" where
  "rune_count s = length (runes s)"

definition replacement :: string where
  "replacement = [CHR 0xEF, CHR 0xBF, CHR 0xBD]"

text \<open>\<open>strings.ToValidUTF8\<close>: a run of bytes that are no characters becomes one replacement.\<close>

function to_valid :: "bool \<Rightarrow> string \<Rightarrow> string" where
  "to_valid bad s = (case s of
      [] \<Rightarrow> []
    | c # cs \<Rightarrow>
        if byte c < 0x80 then c # to_valid False cs
        else case rune_len s of
          Some w \<Rightarrow> take w s @ to_valid False (drop w s)
        | None \<Rightarrow> (if bad then [] else replacement) @ to_valid True cs)"
  by pat_completeness auto
termination
  by (relation "measure (\<lambda>(bad, s). length s)") (auto simp del: rune_len.simps dest!: rune_len_bounds)

declare to_valid.simps [simp del]

section \<open>Hiding and cutting\<close>

definition ellipsis :: string where
  "ellipsis = [CHR 0xE2, CHR 0x80, CHR 0xA6]"

definition minLine :: nat where
  "minLine = 8"

definition add_word :: "string list \<Rightarrow> string \<Rightarrow> string list" where
  "add_word words w = (if w \<noteq> [] \<and> w \<notin> set words then words @ [w] else words)"

definition secret_lines :: "string \<Rightarrow> string list" where
  "secret_lines s = (if CHR 0x0A \<in> set s
     then filter (\<lambda>l. minLine \<le> rune_count l) (map trim_space (split_on (CHR 0x0A) s)) else [])"

definition secret_words :: "string \<Rightarrow> string list" where
  "secret_words s = (if trim_space s = [] then [] else [s, trim_space s] @ secret_lines s)"

definition hider_words :: "string list \<Rightarrow> string list" where
  "hider_words secrets = foldl add_word [] (concat (map secret_words secrets))"

definition newHider :: "string list \<Rightarrow> string list option" where
  "newHider secrets =
     (let words = hider_words secrets
      in if words = [] then None else Some (sort_key (\<lambda>w. - int (length w)) words))"

definition hide_words :: "string list \<Rightarrow> string \<Rightarrow> string" where
  "hide_words words s = foldl (\<lambda>s w. replace_all w ellipsis s) s words"

definition Hide :: "string \<Rightarrow> string list \<Rightarrow> string" where
  "Hide s secrets = (case newHider secrets of Some h \<Rightarrow> hide_words h s | None \<Rightarrow> s)"

definition clip :: "string \<Rightarrow> nat \<Rightarrow> string" where
  "clip s m =
     (let s = to_valid False (trim_space s)
      in if rune_count s \<le> m then s else concat (take (m - 1) (runes s)) @ ellipsis)"

definition hide_and_clip :: "string list option \<Rightarrow> string \<Rightarrow> nat \<Rightarrow> string" where
  "hide_and_clip h s m = clip (case h of Some ws \<Rightarrow> hide_words ws s | None \<Rightarrow> s) m"

section \<open>Nothing new appears\<close>

text \<open>
  A word is plain when it is ASCII: it then shares no byte with what replaces a secret, a bad byte
  or the end of a long text, and every place where it occurs in the result it occurred before.
\<close>

definition plain :: "string \<Rightarrow> bool" where
  "plain w \<longleftrightarrow> w \<noteq> [] \<and> (\<forall>c \<in> set w. byte c < 0x80)"

lemma plain_disjoint:
  "plain w \<Longrightarrow> set w \<inter> set ellipsis = {}" "plain w \<Longrightarrow> set w \<inter> set replacement = {}"
  by (auto simp: plain_def ellipsis_def replacement_def)

lemma prefix_append_disjoint:
  assumes "prefix w (x @ y)" "set w \<inter> set x = {}" "x \<noteq> []"
  shows "w = []"
  using assms by (cases w; cases x) auto

lemma sublist_append_disjoint:
  assumes "sublist w (x @ y)" "set w \<inter> set x = {}" "w \<noteq> []"
  shows "sublist w y"
proof -
  consider "sublist w x" | "sublist w y" | w1 w2 where "w = w1 @ w2" "suffix w1 x" "prefix w2 y"
    using assms(1) by (auto simp: sublist_append)
  then show ?thesis
  proof cases
    case 1
    then have "set w \<subseteq> set x" by (rule set_mono_sublist)
    with assms(2,3) show ?thesis by (metis Int_absorb2 set_empty)
  next
    case 3
    then have "set w1 \<subseteq> set x" by (simp add: set_mono_suffix)
    moreover have "set w1 \<inter> set x = {}" using assms(2) 3(1) by auto
    ultimately have "w1 = []" by (metis Int_absorb2 set_empty)
    with 3 show ?thesis by simp
  qed
qed

lemma sublist_append_disjoint_right:
  assumes "sublist w (x @ y)" "set w \<inter> set y = {}" "w \<noteq> []"
  shows "sublist w x"
proof -
  have "sublist (rev w) (rev y @ rev x)" using assms(1) by (simp only: rev_append [symmetric] sublist_rev)
  moreover have "set (rev w) \<inter> set (rev y) = {}" "rev w \<noteq> []" using assms(2,3) by simp_all
  ultimately have "sublist (rev w) (rev x)" by (rule sublist_append_disjoint)
  then show ?thesis by (simp only: sublist_rev)
qed
lemma prefix_replace_all:
  "prefix w (replace_all old new s) \<Longrightarrow> set w \<inter> set new = {} \<Longrightarrow> new \<noteq> [] \<Longrightarrow> prefix w s"
proof (induction old new s arbitrary: w rule: replace_all.induct)
  case (1 old new s)
  show ?case
  proof (cases "old = [] \<or> has_prefix s old")
    case True
    then have "prefix w s \<or> prefix w (new @ replace_all old new (drop (length old) s))"
      using "1.prems"(1) by (subst (asm) replace_all.simps) (auto split: if_splits)
    then show ?thesis using prefix_append_disjoint [of w new] "1.prems"(2,3) by (metis Nil_prefix)
  next
    case False
    then show ?thesis using 1(2-)
      by (subst (asm) (2) replace_all.simps) (cases s; cases w; auto)
  qed
qed

lemma sublist_replace_all:
  "sublist w (replace_all old new s) \<Longrightarrow> set w \<inter> set new = {} \<Longrightarrow> new \<noteq> [] \<Longrightarrow> w \<noteq> [] \<Longrightarrow> sublist w s"
proof (induction old new s rule: replace_all.induct)
  case (1 old new s)
  consider "old = []" | "old \<noteq> []" "has_prefix s old" | "old \<noteq> []" "\<not> has_prefix s old" by blast
  then show ?case
  proof cases
    case 1
    then show ?thesis using "1.prems"(1) by (subst (asm) replace_all.simps) simp
  next
    case 2
    then have "sublist w (new @ replace_all old new (drop (length old) s))"
      using "1.prems"(1) by (subst (asm) replace_all.simps) simp
    then have "sublist w (replace_all old new (drop (length old) s))"
      using "1.prems" sublist_append_disjoint by blast
    then have "sublist w (drop (length old) s)" using "1.IH"(1) 2 "1.prems" by blast
    then show ?thesis by (meson sublist_drop sublist_order.order_trans)
  next
    case 3
    show ?thesis
    proof (cases s)
      case Nil
      then show ?thesis using "1.prems"(1) 3 by (subst (asm) replace_all.simps) simp
    next
      case (Cons c cs)
      have p: "prefix w s" if "prefix w (replace_all old new s)" using prefix_replace_all that "1.prems" by blast
      have r: "replace_all old new s = c # replace_all old new cs" using 3 Cons by (subst replace_all.simps) simp
      then have "prefix w (replace_all old new s) \<or> sublist w (replace_all old new cs)"
        using "1.prems"(1) by (simp add: sublist_Cons_right)
      then show ?thesis using p "1.IH"(2) [OF 3 Cons] "1.prems" Cons by (auto simp: sublist_Cons_right)
    qed
  qed
qed

lemma replace_all_removes:
  "set w \<inter> set new = {} \<Longrightarrow> new \<noteq> [] \<Longrightarrow> w \<noteq> [] \<Longrightarrow> \<not> sublist w (replace_all w new s)"
proof (induction w new s rule: replace_all.induct)
  case (1 w new s)
  show ?case
  proof (cases "has_prefix s w")
    case True
    then have "replace_all w new s = new @ replace_all w new (drop (length w) s)" using "1.prems" by (subst replace_all.simps) simp
    then show ?thesis using 1 True sublist_append_disjoint by metis
  next
    case False
    show ?thesis
    proof (cases s)
      case Nil
      then show ?thesis using False "1.prems" by (subst replace_all.simps) simp
    next
      case (Cons c cs)
      have r: "replace_all w new s = c # replace_all w new cs" using False "1.prems" Cons by (subst replace_all.simps) simp
      have "\<not> prefix w (replace_all w new s)" using False prefix_replace_all "1.prems" by (metis has_prefix_iff)
      then show ?thesis using "1.IH"(2) [OF "1.prems"(3) False Cons] "1.prems" r by (simp add: sublist_Cons_right)
    qed
  qed
qed

lemma ellipsis_not_Nil [simp]: "ellipsis \<noteq> []"
  by (simp add: ellipsis_def)

lemma hide_words_sublist: "sublist w (hide_words ws s) \<Longrightarrow> plain w \<Longrightarrow> sublist w s"
proof (induction ws arbitrary: s)
  case (Cons v ws)
  then have "sublist w (replace_all v ellipsis s)" by (simp add: hide_words_def)
  then show ?case using sublist_replace_all Cons.prems(2) plain_disjoint(1) by (metis ellipsis_not_Nil plain_def)
qed (simp add: hide_words_def)

lemma hide_words_removes: "w \<in> set ws \<Longrightarrow> plain w \<Longrightarrow> \<not> sublist w (hide_words ws s)"
proof (induction ws arbitrary: s)
  case (Cons v ws)
  show ?case
  proof (cases "w \<in> set ws")
    case True
    then show ?thesis using Cons by (simp add: hide_words_def)
  next
    case False
    then have "w = v" using Cons.prems by simp
    then have "\<not> sublist w (replace_all v ellipsis s)"
      using replace_all_removes plain_disjoint(1) Cons.prems(2) by (metis ellipsis_not_Nil plain_def)
    then show ?thesis using hide_words_sublist [of w ws] Cons.prems(2) by (auto simp: hide_words_def)
  qed
qed simp

lemma prefix_to_valid: "prefix w (to_valid False s) \<Longrightarrow> set w \<inter> set replacement = {} \<Longrightarrow> prefix w s"
proof (induction "False" s arbitrary: w rule: to_valid.induct)
  case (1 s)
  show ?case
  proof (cases s)
    case Nil
    with 1 show ?thesis by (subst (asm) (3) to_valid.simps) simp
  next
    case (Cons c cs)
    consider "byte c < 0x80" | r where "\<not> byte c < 0x80" "rune_len s = Some r" | "\<not> byte c < 0x80" "rune_len s = None"
      by fastforce
    then show ?thesis
    proof cases
      case 1
      then have "to_valid False s = c # to_valid False cs" using Cons by (subst to_valid.simps) simp
      with "1.prems" "1.hyps"(1) [OF Cons 1] Cons show ?thesis by (cases w) auto
    next
      case 2
      then have "to_valid False s = take r s @ to_valid False (drop r s)" using Cons by (subst to_valid.simps) simp
      with "1.prems"(1) consider "prefix w (take r s)" | w' where "w = take r s @ w'" "prefix w' (to_valid False (drop r s))"
        by (auto simp: prefix_append)
      then show ?thesis
      proof cases
        case 1
        then show ?thesis by (metis take_is_prefix prefix_order.order_trans)
      next
        case (2 w')
        then have "prefix w' (drop r s)" using "1.hyps"(3) [OF Cons] \<open>\<not> byte c < 0x80\<close> \<open>rune_len s = Some r\<close> "1.prems"(2) by auto
        with 2 show ?thesis by (metis append_take_drop_id same_prefix_prefix)
      qed
    next
      case 3
      then have "to_valid False s = replacement @ to_valid True cs" using Cons by (subst to_valid.simps) simp
      then have "w = []"
        using "1.prems" by (intro prefix_append_disjoint [of w replacement "to_valid True cs"]) (simp_all add: replacement_def)
      then show ?thesis by simp
    qed
  qed
qed

lemma sublist_to_valid:
  "sublist w (to_valid bad s) \<Longrightarrow> set w \<inter> set replacement = {} \<Longrightarrow> w \<noteq> [] \<Longrightarrow> sublist w s"
proof (induction bad s rule: to_valid.induct)
  case (1 bad s)
  show ?case
  proof (cases s)
    case Nil
    with 1 show ?thesis by (subst (asm) (4) to_valid.simps) simp
  next
    case (Cons c cs)
    consider "byte c < 0x80" | r where "\<not> byte c < 0x80" "rune_len s = Some r" | "\<not> byte c < 0x80" "rune_len s = None"
      by fastforce
    then show ?thesis
    proof cases
      case a: 1
      then have "to_valid bad s = c # to_valid False cs" using Cons by (subst to_valid.simps) simp
      moreover have "to_valid False s = c # to_valid False cs" using Cons a by (subst to_valid.simps) simp
      ultimately have "prefix w (to_valid False s) \<or> sublist w (to_valid False cs)" using "1.prems"(1) by (simp add: sublist_Cons_right)
      then show ?thesis using prefix_to_valid "1.IH"(1) [OF Cons a] "1.prems"(2,3) Cons
        by (metis prefix_imp_sublist sublist_Cons_right)
    next
      case b: 2
      then have "to_valid bad s = take r s @ to_valid False (drop r s)" using Cons by (subst to_valid.simps) simp
      with "1.prems"(1) consider "sublist w (take r s)" | "sublist w (to_valid False (drop r s))"
        | w1 w2 where "w = w1 @ w2" "suffix w1 (take r s)" "prefix w2 (to_valid False (drop r s))"
        by (auto simp: sublist_append)
      then show ?thesis
      proof cases
        case 1
        then show ?thesis by (meson sublist_take sublist_order.order_trans)
      next
        case 2
        then have "sublist w (drop r s)" using "1.IH"(3) [OF Cons b] "1.prems"(2,3) by blast
        then show ?thesis by (meson sublist_drop sublist_order.order_trans)
      next
        case 3
        then have "prefix w2 (drop r s)" using prefix_to_valid "1.prems"(2) by auto
        then have "sublist (w1 @ w2) (take r s @ drop r s)" using 3(2) unfolding sublist_append by blast
        then show ?thesis using 3(1) by simp
      qed
    next
      case 3
      then have "to_valid bad s = (if bad then [] else replacement) @ to_valid True cs" using Cons by (subst to_valid.simps) simp
      then have "sublist w (to_valid True cs)" using "1.prems" sublist_append_disjoint by (metis append_Nil)
      then have "sublist w cs" using "1.IH"(2) [OF Cons 3] "1.prems"(2,3) by blast
      then show ?thesis using Cons by (simp add: sublist_Cons_right)
    qed
  qed
qed

lemma trim_left_suffix: "suffix (trim_left s) s"
proof (induction s rule: trim_left.induct)
  case (1 s)
  show ?case
  proof (cases "space_prefix s = 0")
    case False
    then show ?thesis using 1 suffix_drop [of "space_prefix s" s] by (subst trim_left.simps) (auto intro: suffix_order.order_trans)
  qed (subst trim_left.simps, simp)
qed

lemma trim_right_prefix: "prefix (trim_right s) s"
proof (induction s rule: trim_right.induct)
  case (1 s)
  show ?case
  proof (cases "space_suffix s = 0")
    case False
    then show ?thesis using 1 take_is_prefix [of "length s - space_suffix s" s]
      by (subst trim_right.simps) (auto intro: prefix_order.order_trans)
  qed (subst trim_right.simps, simp)
qed

lemma trim_space_sublist: "sublist (trim_space s) s"
  unfolding trim_space_def using trim_left_suffix trim_right_prefix
  by (meson prefix_imp_sublist suffix_imp_sublist sublist_order.order_trans)

lemma concat_runes: "concat (runes s) = s"
proof (induction s rule: runes.induct)
  case (1 s)
  then show ?case by (subst runes.simps) auto
qed

lemma take_runes_prefix: "prefix (concat (take n (runes s))) s"
  by (metis append_take_drop_id concat_append concat_runes prefixI)

lemma clip_sublist: "sublist w (clip s m) \<Longrightarrow> plain w \<Longrightarrow> sublist w s"
proof -
  assume "sublist w (clip s m)" and w: "plain w"
  then have "sublist w (to_valid False (trim_space s)) \<or> sublist w (concat (take (m - 1) (runes (to_valid False (trim_space s)))) @ ellipsis)"
    by (auto simp: clip_def Let_def split: if_splits)
  then have "sublist w (to_valid False (trim_space s))"
    using sublist_append_disjoint_right plain_disjoint(1) [OF w] w take_runes_prefix
    by (metis plain_def prefix_imp_sublist sublist_order.order_trans)
  then have "sublist w (trim_space s)" using sublist_to_valid plain_disjoint(2) [OF w] w by (metis plain_def)
  then show ?thesis using trim_space_sublist sublist_order.order_trans by blast
qed

lemma hide_and_clip_clean: "w \<in> set ws \<Longrightarrow> plain w \<Longrightarrow> \<not> sublist w (hide_and_clip (Some ws) s m)"
  unfolding hide_and_clip_def using clip_sublist hide_words_removes by fastforce

section \<open>What is hidden\<close>

lemma set_add_words: "set (foldl add_word ws vs) = set ws \<union> (set vs - {[]})"
  by (induction vs arbitrary: ws) (auto simp: add_word_def)

lemma set_hider_words: "set (hider_words secrets) = (\<Union>s \<in> set secrets. set (secret_words s)) - {[]}"
  by (simp add: hider_words_def set_add_words)

lemma newHider_words: "newHider secrets = Some ws \<Longrightarrow> set ws = set (hider_words secrets)"
  by (auto simp: newHider_def Let_def split: if_splits)

lemma newHider_None: "newHider secrets = None \<longleftrightarrow> hider_words secrets = []"
  by (simp add: newHider_def Let_def)

text \<open>
  A secret never shows. Whatever a text says, after hiding it holds neither an ASCII secret of
  the job that is not blank, nor that secret without the white space around it, nor a line of a
  key of at least eight characters; and hiding adds nothing that was not there: an ASCII word in
  the hidden text was in the text.
\<close>

theorem secrets_never_show:
  assumes "s \<in> set secrets" "trim_space s \<noteq> []" "w \<in> {s, trim_space s} \<union> set (secret_lines s)" "plain w"
  shows "\<not> sublist w (Hide text secrets) \<and> \<not> sublist w (hide_and_clip (newHider secrets) text m)
    \<and> (\<forall>v. plain v \<longrightarrow> sublist v (Hide text secrets) \<longrightarrow> sublist v text)"
proof -
  have w: "w \<in> set (hider_words secrets)" using assms unfolding set_hider_words plain_def secret_words_def by auto
  then obtain ws where ws: "newHider secrets = Some ws" using newHider_None by (metis empty_iff list.set(1) option.exhaust)
  then have "w \<in> set ws" using newHider_words w by simp
  then show ?thesis using hide_words_removes hide_words_sublist hide_and_clip_clean assms(4) ws by (simp add: Hide_def)
qed

theorem secrets_never_show_witness:
  "Hide ''login hunter22 refused'' [''hunter22''] = ''login '' @ ellipsis @ '' refused''
   \<and> \<not> sublist ''hunter22'' (Hide ''login hunter22 refused'' [''hunter22''])"
proof
  show "Hide ''login hunter22 refused'' [''hunter22''] = ''login '' @ ellipsis @ '' refused''" by code_simp
  have "trim_space ''hunter22'' \<noteq> []" "plain ''hunter22''" by code_simp+
  then show "\<not> sublist ''hunter22'' (Hide ''login hunter22 refused'' [''hunter22''])"
    using secrets_never_show [of "''hunter22''" "[''hunter22'']" "''hunter22''" "''login hunter22 refused''" 0] by simp
qed

section \<open>How long a text gets\<close>

definition encoded :: "string \<Rightarrow> bool" where
  "encoded c \<longleftrightarrow> rune_len c = Some (length c)"

lemma runes_Cons: "encoded c \<Longrightarrow> runes (c @ t) = c # runes t"
proof -
  assume c: "encoded c"
  then have "c \<noteq> []" by (auto simp: encoded_def)
  moreover have "rune_width (c @ t) = length c" using rune_len_prefix c by (simp add: rune_width_def encoded_def)
  ultimately show ?thesis by (subst runes.simps) simp
qed

lemma runes_concat: "\<forall>c \<in> set cs. encoded c \<Longrightarrow> runes (concat cs) = cs"
proof (induction cs)
  case Nil
  then show ?case by (subst runes.simps) simp
qed (simp add: runes_Cons)

lemma encoded_constants: "encoded ellipsis" "encoded replacement"
  by code_simp+

lemma encoded_ascii: "byte c < 0x80 \<Longrightarrow> encoded [c]"
  by (simp add: encoded_def tail_ranges_def)

lemma to_valid_encoded: "\<exists>cs. to_valid bad s = concat cs \<and> (\<forall>c \<in> set cs. encoded c)"
proof (induction bad s rule: to_valid.induct)
  case (1 bad s)
  show ?case
  proof (cases s)
    case Nil
    then show ?thesis by (subst to_valid.simps) (auto intro: exI [of _ "[]"])
  next
    case (Cons c cs)
    consider "byte c < 0x80" | r where "\<not> byte c < 0x80" "rune_len s = Some r" | "\<not> byte c < 0x80" "rune_len s = None"
      by fastforce
    then show ?thesis
    proof cases
      case a: 1
      then have "to_valid bad s = [c] @ to_valid False cs" using Cons by (subst to_valid.simps) simp
      then show ?thesis using 1(1) [OF Cons a] encoded_ascii [OF a] by (metis concat.simps(2) set_ConsD)
    next
      case b: 2
      then have "to_valid bad s = take r s @ to_valid False (drop r s)" using Cons by (subst to_valid.simps) simp
      moreover have "encoded (take r s)" using rune_len_take [OF b(2)] rune_len_bounds [OF b(2)] by (simp add: encoded_def)
      ultimately show ?thesis using 1(3) [OF Cons b] by (metis concat.simps(2) set_ConsD)
    next
      case c: 3
      then have "to_valid bad s = concat (if bad then [] else [replacement]) @ to_valid True cs"
        using Cons by (subst to_valid.simps) simp
      moreover obtain ds where "to_valid True cs = concat ds" "\<forall>d \<in> set ds. encoded d" using 1(2) [OF Cons c] by blast
      ultimately have "to_valid bad s = concat ((if bad then [] else [replacement]) @ ds)"
        "\<forall>d \<in> set ((if bad then [] else [replacement]) @ ds). encoded d" using encoded_constants by auto
      then show ?thesis by blast
    qed
  qed
qed

text \<open>
  A text is cut to what it may hold: \<open>clip s m\<close> has at most \<open>m\<close> characters, every one of them
  properly encoded, and a text that is valid, trimmed and short enough is not touched.
\<close>

theorem clip_bounded:
  assumes "0 < m"
  shows "rune_count (clip s m) \<le> m \<and> (\<forall>c \<in> set (runes (clip s m)). encoded c)
    \<and> (rune_count (to_valid False (trim_space s)) \<le> m \<longrightarrow> clip s m = to_valid False (trim_space s))"
proof -
  obtain cs where cs: "to_valid False (trim_space s) = concat cs" "\<forall>c \<in> set cs. encoded c" using to_valid_encoded by blast
  then have r: "runes (to_valid False (trim_space s)) = cs" by (simp add: runes_concat)
  show ?thesis
  proof (cases "length cs \<le> m")
    case True
    then show ?thesis using r cs by (simp add: clip_def rune_count_def Let_def)
  next
    case False
    let ?ds = "take (m - 1) cs @ [ellipsis]"
    have "clip s m = concat ?ds" using False r by (simp add: clip_def rune_count_def Let_def)
    moreover have "\<forall>c \<in> set ?ds. encoded c" using cs(2) encoded_constants by (auto dest: in_set_takeD)
    ultimately have "runes (clip s m) = ?ds" using runes_concat by metis
    then show ?thesis using False assms r \<open>\<forall>c \<in> set ?ds. encoded c\<close> by (simp add: rune_count_def)
  qed
qed

theorem clip_bounded_witness:
  "0 < (4::nat) \<and> rune_count (clip ''  installing  '' 4) \<le> 4 \<and> clip ''  installing  '' 4 = ''ins'' @ ellipsis"
proof (intro conjI)
  show "rune_count (clip ''  installing  '' 4) \<le> 4" using clip_bounded [of 4 "''  installing  ''"] by simp
  show "clip ''  installing  '' 4 = ''ins'' @ ellipsis" by code_simp
qed simp

end
