(* ===== verification/Jobs.thy ===== *)
theory Jobs
  imports Job_Text
begin

text \<open>
  The engine of background jobs, \<open>internal/remotenodes/jobs/{jobs,run,subscribe}.go\<close>. The engine's
  \<open>*job\<close> pointers and its channels are indices into two stores, so that the maps \<open>byID\<close> and
  \<open>onNode\<close>, the list \<open>order\<close> and the handle a job's function holds share jobs as they do in the
  code. Every operation runs under the engine's lock and is one step; the clock is read once per
  step. What the code cannot see here is a parameter: the hooks of \<open>Config\<close>, the identifiers the
  random source proposes and the error a job's function returns.
\<close>

section \<open>Data\<close>

definition kinds :: "string list" where
  "kinds = [''install'', ''update-agent'', ''update-xray'', ''renew-cert'', ''rotate-keys'', ''change-settings'', ''remove'']"

datatype JobState = StateRunning | StateOK | StateFailed

datatype StepState = StepPending | StepRunning | StepOK | StepFailed

definition parse_step_state :: "string \<Rightarrow> StepState option" where
  "parse_step_state s =
     (if s = ''pending'' then Some StepPending else if s = ''running'' then Some StepRunning
      else if s = ''ok'' then Some StepOK else if s = ''failed'' then Some StepFailed else None)"

record Step =
  stKey :: string
  stName :: string
  stState :: StepState
  stDetail :: string

record InstallForm =
  fName :: string
  fHost :: string
  SSHPort :: int
  SSHUser :: string
  EntryPort :: int
  HandshakeTarget :: string

record ErrorInfo =
  eiPort :: int
  eiRole :: string
  Process :: string
  PinnedKey :: string
  ShownKey :: string
  Found :: "string list"
  XrayVersion :: string
  SameBuild :: bool
  eiNodeID :: nat
  NodeName :: string
  eiTarget :: string
  eiReason :: string
  Tried :: int
  TookOver :: bool

definition no_info :: ErrorInfo where
  "no_info = \<lparr>eiPort = 0, eiRole = [], Process = [], PinnedKey = [], ShownKey = [], Found = [], XrayVersion = [],
     SameBuild = False, eiNodeID = 0, NodeName = [], eiTarget = [], eiReason = [], Tried = 0, TookOver = False\<rparr>"

record Job =
  jID :: string
  jKind :: string
  jState :: JobState
  jSteps :: "Step list"
  jError :: string
  jCode :: string
  jErrorInfo :: "ErrorInfo option"
  jNodeID :: nat
  jTarget :: string
  StartedAt :: int
  FinishedAt :: "int option"
  jInstall :: "InstallForm option"

definition MaxSteps :: nat where "MaxSteps = 32"
definition MaxDetail :: nat where "MaxDetail = 200"
definition MaxError :: nat where "MaxError = 500"
definition maxName :: nat where "maxName = 64"
definition maxFact :: nat where "maxFact = 128"
definition maxReason :: nat where "maxReason = 300"

definition DefaultKeep :: int where "DefaultKeep = 20"

text \<open>\<open>DefaultMaxAge\<close>, an hour in nanoseconds.\<close>

definition DefaultMaxAge :: int where "DefaultMaxAge = 3600 * 10 ^ 9"

text \<open>
  An error: what its \<open>Error\<close> method says, \<open>None\<close> when it panics, and whether it is the engine's own
  \<open>errInternal\<close>.
\<close>

record goerr =
  errSays :: "string option"
  internal :: bool

definition errInternal :: goerr where
  "errInternal = \<lparr>errSays = Some ''internal error'', internal = True\<rparr>"

definition errText :: "goerr \<Rightarrow> string" where
  "errText err = (case errSays err of Some s \<Rightarrow> s | None \<Rightarrow> ''internal error'')"

text \<open>The hooks; a hook that panics answers \<open>None\<close>.\<close>

record Config =
  Keep :: int
  MaxAge :: int
  StepKey :: "(string \<Rightarrow> string) option"
  ErrorCode :: "(goerr \<Rightarrow> string option) option"
  ErrorInfoHook :: "(goerr \<Rightarrow> ErrorInfo option option) option"

record job =
  view :: Job
  hide :: "string list option"
  subs :: "nat list"
  finished :: int
  endSeq :: nat

text \<open>
  A channel with room for one value. \<open>chJob\<close> is the job it follows, \<open>chRead\<close> the last value its
  reader took and \<open>chStopped\<close> whether the reader gave up.
\<close>

record chan =
  buf :: "Job option"
  chClosed :: bool
  chJob :: nat
  chRead :: "Job option"
  chStopped :: bool

record Engine =
  cfg :: Config
  eClosed :: bool
  ended :: nat
  heap :: "job list"
  byID :: "string \<Rightarrow> nat option"
  order :: "nat list"
  onNode :: "nat \<Rightarrow> nat option"
  chans :: "chan list"

record Spec =
  spKind :: string
  spNodeID :: nat
  spTarget :: string
  spSteps :: "string list"
  Secrets :: "string list"
  spInstall :: "InstallForm option"

datatype start_error = NotAKind string | NothingToRun | ErrClosed | BusyError nat string | NoRandom

definition running :: "Engine \<Rightarrow> nat \<Rightarrow> bool" where
  "running e p \<longleftrightarrow> jState (view (heap e ! p)) = StateRunning"

section \<open>Operations\<close>

definition New :: "Config \<Rightarrow> Engine" where
  "New c = \<lparr>cfg = c\<lparr>Keep := (if Keep c \<le> 0 then DefaultKeep else Keep c), MaxAge := (if MaxAge c \<le> 0 then DefaultMaxAge else MaxAge c)\<rparr>,
     eClosed = False, ended = 0, heap = [], byID = (\<lambda>_. None), order = [], onNode = (\<lambda>_. None), chans = []\<rparr>"

definition keyOf :: "Config \<Rightarrow> string \<Rightarrow> string" where
  "keyOf c name = (case StepKey c of None \<Rightarrow> [] | Some f \<Rightarrow> f name)"

text \<open>\<open>step\<close>: the index of the named step, added when it is new, and the steps then.\<close>

definition step_named :: "(string \<Rightarrow> string) \<Rightarrow> string \<Rightarrow> Step list \<Rightarrow> nat option \<times> Step list" where
  "step_named key name steps =
     (let name = clip name maxName in
      if name = [] then (None, steps)
      else case find (\<lambda>i. stName (steps ! i) = name) [0..<length steps] of
          Some i \<Rightarrow> (Some i, steps)
        | None \<Rightarrow>
            if length steps \<ge> MaxSteps then (None, steps)
            else (Some (length steps), steps @ [\<lparr>stKey = key name, stName = name, stState = StepPending, stDetail = []\<rparr>]))"

definition plan :: "Config \<Rightarrow> string list \<Rightarrow> Step list" where
  "plan c names = foldl (\<lambda>steps n. snd (step_named (keyOf c) n steps)) [] names"

definition job_text :: "job \<Rightarrow> string \<Rightarrow> nat \<Rightarrow> string" where
  "job_text j s m = hide_and_clip (hide j) s m"

definition forget :: "Engine \<Rightarrow> nat list \<Rightarrow> Engine" where
  "forget e ps = e\<lparr>byID := foldl (\<lambda>m p. m(jID (view (heap e ! p)) := None)) (byID e) ps,
                   order := filter (\<lambda>p. p \<notin> set ps) (order e)\<rparr>"

definition prune :: "int \<Rightarrow> Engine \<Rightarrow> Engine" where
  "prune now e =
     (let e = forget e (filter (\<lambda>p. \<not> running e p \<and> now - finished (heap e ! p) > MaxAge (cfg e)) (order e));
          over = filter (\<lambda>p. \<not> running e p) (order e)
      in if int (length over) \<le> Keep (cfg e) then e
         else forget e (drop (nat (Keep (cfg e))) (sort_key (\<lambda>p. - int (endSeq (heap e ! p))) over)))"

text \<open>\<open>publish\<close>: the value nobody took is replaced; the channels of a job that is over are closed.\<close>

definition publish :: "nat \<Rightarrow> Engine \<Rightarrow> Engine" where
  "publish p e =
     (let j = heap e ! p;
          over = (jState (view j) \<noteq> StateRunning);
          cs = map (\<lambda>(i, c). if i \<in> set (subs j) then c\<lparr>buf := Some (view j), chClosed := chClosed c \<or> over\<rparr> else c)
                 (enumerate 0 (chans e))
      in e\<lparr>chans := cs, heap := (heap e)[p := (if over then j\<lparr>subs := []\<rparr> else j)]\<rparr>)"

definition newID :: "string list \<Rightarrow> Engine \<Rightarrow> string option" where
  "newID proposals e = find (\<lambda>i. byID e i = None) proposals"

definition clip_form :: "InstallForm \<Rightarrow> InstallForm" where
  "clip_form f = f\<lparr>fName := clip (fName f) maxName, fHost := clip (fHost f) (maxName * 4), SSHUser := clip (SSHUser f) maxName\<rparr>"

definition Start :: "int \<Rightarrow> string list \<Rightarrow> bool \<Rightarrow> Spec \<Rightarrow> Engine \<Rightarrow> (start_error + Job) \<times> Engine" where
  "Start now proposals has_fn spec e =
     (if spKind spec \<notin> set kinds then (Inl (NotAKind (spKind spec)), e)
      else if \<not> has_fn then (Inl NothingToRun, e)
      else if eClosed e then (Inl ErrClosed, e)
      else case (if spNodeID spec \<noteq> 0 then onNode e (spNodeID spec) else None) of
        Some cur \<Rightarrow> (Inl (BusyError (spNodeID spec) (jID (view (heap e ! cur)))), e)
      | None \<Rightarrow> (case newID proposals e of
          None \<Rightarrow> (Inl NoRandom, e)
        | Some i \<Rightarrow>
            let p = length (heap e);
                v = \<lparr>jID = i, jKind = spKind spec, jState = StateRunning, jSteps = plan (cfg e) (spSteps spec),
                     jError = [], jCode = [], jErrorInfo = None, jNodeID = spNodeID spec, jTarget = spTarget spec,
                     StartedAt = now, FinishedAt = None, jInstall = map_option clip_form (spInstall spec)\<rparr>;
                e = e\<lparr>heap := heap e @ [\<lparr>view = v, hide = newHider (Secrets spec), subs = [], finished = 0, endSeq = 0\<rparr>],
                      byID := (byID e)(i := Some p), order := order e @ [p],
                      onNode := (if spNodeID spec \<noteq> 0 then (onNode e)(spNodeID spec := Some p) else onNode e)\<rparr>
            in (Inr v, prune now e)))"

text \<open>\<open>change\<close>: what a job's function reports about a step; nothing once the job is over.\<close>

definition change :: "nat \<Rightarrow> string \<Rightarrow> (job \<Rightarrow> Step \<Rightarrow> Step) \<Rightarrow> Engine \<Rightarrow> Engine" where
  "change p name f e =
     (let j = heap e ! p in
      if jState (view j) \<noteq> StateRunning then e
      else case step_named (keyOf (cfg e)) name (jSteps (view j)) of
        (None, _) \<Rightarrow> e
      | (Some i, steps) \<Rightarrow>
          let after = f j (steps ! i);
              e' = e\<lparr>heap := (heap e)[p := j\<lparr>view := (view j)\<lparr>jSteps := steps[i := after]\<rparr>\<rparr>]\<rparr>
          in if length steps \<noteq> length (jSteps (view j)) \<or> after \<noteq> steps ! i then publish p e' else e')"

definition Begin :: "nat \<Rightarrow> string \<Rightarrow> Engine \<Rightarrow> Engine" where
  "Begin p name = change p name (\<lambda>j s. s\<lparr>stState := StepRunning\<rparr>)"

definition Detail :: "nat \<Rightarrow> string \<Rightarrow> string \<Rightarrow> Engine \<Rightarrow> Engine" where
  "Detail p name t = change p name (\<lambda>j s. s\<lparr>stDetail := job_text j t MaxDetail\<rparr>)"

definition Done :: "nat \<Rightarrow> string \<Rightarrow> Engine \<Rightarrow> Engine" where
  "Done p name = change p name (\<lambda>j s. s\<lparr>stState := StepOK\<rparr>)"

definition Fail :: "nat \<Rightarrow> string \<Rightarrow> goerr option \<Rightarrow> Engine \<Rightarrow> Engine" where
  "Fail p name err = change p name (\<lambda>j s. s\<lparr>stState := StepFailed,
     stDetail := (case err of None \<Rightarrow> [] | Some x \<Rightarrow> job_text j (errText x) MaxDetail)\<rparr>)"

definition SetStep :: "nat \<Rightarrow> string \<Rightarrow> string \<Rightarrow> string \<Rightarrow> Engine \<Rightarrow> Engine" where
  "SetStep p name state t e = (case parse_step_state state of
      None \<Rightarrow> e
    | Some st \<Rightarrow> change p name (\<lambda>j s. s\<lparr>stState := st, stDetail := job_text j t MaxDetail\<rparr>) e)"

definition FailedStep :: "nat \<Rightarrow> Engine \<Rightarrow> string" where
  "FailedStep p e = (case find (\<lambda>s. stState s = StepFailed) (jSteps (view (heap e ! p))) of Some s \<Rightarrow> stName s | None \<Rightarrow> [])"

definition codeOf :: "Config \<Rightarrow> goerr \<Rightarrow> string" where
  "codeOf c err = (case ErrorCode c of
      None \<Rightarrow> []
    | Some f \<Rightarrow> if internal err then [] else (case f err of Some code \<Rightarrow> code | None \<Rightarrow> []))"

definition infoOf :: "Config \<Rightarrow> goerr \<Rightarrow> ErrorInfo option" where
  "infoOf c err = (case ErrorInfoHook c of
      None \<Rightarrow> None
    | Some f \<Rightarrow> if internal err then None else (case f err of Some i \<Rightarrow> i | None \<Rightarrow> None))"

definition cleanInfo :: "job \<Rightarrow> ErrorInfo option \<Rightarrow> ErrorInfo option" where
  "cleanInfo j info = (case info of
      None \<Rightarrow> None
    | Some i \<Rightarrow>
        let c = i\<lparr>Process := job_text j (Process i) maxFact, NodeName := job_text j (NodeName i) maxName,
                  eiRole := job_text j (eiRole i) maxName, XrayVersion := job_text j (XrayVersion i) maxName,
                  PinnedKey := job_text j (PinnedKey i) maxFact, ShownKey := job_text j (ShownKey i) maxFact,
                  eiTarget := job_text j (eiTarget i) maxFact, eiReason := job_text j (eiReason i) maxReason,
                  Found := take 8 (filter (\<lambda>f. f \<noteq> []) (map (\<lambda>f. job_text j f maxName) (Found i)))\<rparr>
        in if c = no_info then None else Some c)"

definition close_step :: "goerr option \<Rightarrow> string \<Rightarrow> Step \<Rightarrow> Step" where
  "close_step err t s = (if stState s = StepRunning
     then (if err = None then s\<lparr>stState := StepOK\<rparr> else s\<lparr>stState := StepFailed, stDetail := t\<rparr>) else s)"

definition finished_view :: "Config \<Rightarrow> int \<Rightarrow> goerr option \<Rightarrow> job \<Rightarrow> Job" where
  "finished_view c now err j =
     (case err of
        None \<Rightarrow> (view j)\<lparr>jState := StateOK, FinishedAt := Some now,
                  jSteps := filter (\<lambda>s. stState s \<noteq> StepPending) (map (close_step err []) (jSteps (view j)))\<rparr>
      | Some x \<Rightarrow> (view j)\<lparr>jState := StateFailed, FinishedAt := Some now,
                    jSteps := map (close_step err (job_text j (errText x) MaxDetail)) (jSteps (view j)),
                    jError := job_text j (errText x) MaxError, jCode := clip (codeOf c x) maxName,
                    jErrorInfo := cleanInfo j (infoOf c x)\<rparr>)"

definition finish :: "nat \<Rightarrow> int \<Rightarrow> goerr option \<Rightarrow> Engine \<Rightarrow> Engine" where
  "finish p now err e =
     (let j = heap e ! p;
          v = finished_view (cfg e) now err j;
          j' = j\<lparr>view := v, finished := now, hide := None, endSeq := Suc (ended e)\<rparr>;
          e = e\<lparr>heap := (heap e)[p := j'], ended := Suc (ended e),
                onNode := (if jNodeID v \<noteq> 0 \<and> onNode e (jNodeID v) = Some p then (onNode e)(jNodeID v := None) else onNode e)\<rparr>
      in prune now (publish p e))"

text \<open>\<open>run\<close>: a function that panics or never returns ends its job with \<open>errInternal\<close>.\<close>

datatype outcome = Returned "goerr option" | Panicked

definition run :: "nat \<Rightarrow> int \<Rightarrow> outcome \<Rightarrow> Engine \<Rightarrow> Engine" where
  "run p now out e = finish p now (case out of Returned err \<Rightarrow> err | Panicked \<Rightarrow> Some errInternal) e"

definition Get :: "int \<Rightarrow> string \<Rightarrow> Engine \<Rightarrow> Job option \<times> Engine" where
  "Get now i e = (let e = prune now e in (map_option (\<lambda>p. view (heap e ! p)) (byID e i), e))"

definition ListJobs :: "int \<Rightarrow> Engine \<Rightarrow> Job list \<times> Engine" where
  "ListJobs now e = (let e = prune now e in (map (\<lambda>p. view (heap e ! p)) (rev (order e)), e))"

definition Running :: "nat \<Rightarrow> Engine \<Rightarrow> Job option" where
  "Running n e = map_option (\<lambda>p. view (heap e ! p)) (onNode e n)"

definition Subscribe :: "int \<Rightarrow> string \<Rightarrow> Engine \<Rightarrow> nat option \<times> Engine" where
  "Subscribe now i e =
     (let e = prune now e in
      case byID e i of
        None \<Rightarrow> (None, e)
      | Some p \<Rightarrow>
          let ch = length (chans e);
              over = (jState (view (heap e ! p)) \<noteq> StateRunning);
              e' = e\<lparr>chans := chans e @ [\<lparr>buf = Some (view (heap e ! p)), chClosed = over, chJob = p, chRead = None, chStopped = False\<rparr>]\<rparr>
          in (Some ch, if over then e' else e'\<lparr>heap := (heap e)[p := (heap e ! p)\<lparr>subs := subs (heap e ! p) @ [ch]\<rparr>]\<rparr>))"

definition unsubscribe :: "nat \<Rightarrow> nat \<Rightarrow> Engine \<Rightarrow> Engine" where
  "unsubscribe p ch e =
     (if ch \<in> set (subs (heap e ! p))
      then e\<lparr>heap := (heap e)[p := (heap e ! p)\<lparr>subs := removeAll ch (subs (heap e ! p))\<rparr>],
             chans := (chans e)[ch := (chans e ! ch)\<lparr>chClosed := True, chStopped := True\<rparr>]\<rparr>
      else e)"

text \<open>The reader's side: a receive takes the waiting value, if there is one.\<close>

definition receive :: "nat \<Rightarrow> Engine \<Rightarrow> Engine" where
  "receive ch e = (case buf (chans e ! ch) of
      None \<Rightarrow> e
    | Some v \<Rightarrow> e\<lparr>chans := (chans e)[ch := (chans e ! ch)\<lparr>buf := None, chRead := Some v\<rparr>]\<rparr>)"

definition CloseEngine :: "Engine \<Rightarrow> Engine" where
  "CloseEngine e = e\<lparr>eClosed := True\<rparr>"

section \<open>Runs of the engine\<close>

text \<open>
  A job's function is run once, so \<open>run\<close> is taken once for a job: while it is running. The handle
  of a job may report at any time, also after the end. A reader cancels the channel it was given.
\<close>

inductive jstep :: "Engine \<Rightarrow> Engine \<Rightarrow> bool" where
  start: "jstep e (snd (Start now proposals has_fn spec e))"
| report_begin: "p < length (heap e) \<Longrightarrow> jstep e (Begin p name e)"
| report_detail: "p < length (heap e) \<Longrightarrow> jstep e (Detail p name t e)"
| report_done: "p < length (heap e) \<Longrightarrow> jstep e (Done p name e)"
| report_fail: "p < length (heap e) \<Longrightarrow> jstep e (Fail p name err e)"
| report_set: "p < length (heap e) \<Longrightarrow> jstep e (SetStep p name state t e)"
| over: "p < length (heap e) \<Longrightarrow> running e p \<Longrightarrow> jstep e (run p now out e)"
| get: "jstep e (snd (Get now i e))"
| list_jobs: "jstep e (snd (ListJobs now e))"
| subscribe: "jstep e (snd (Subscribe now i e))"
| cancel: "ch < length (chans e) \<Longrightarrow> jstep e (unsubscribe (chJob (chans e ! ch)) ch e)"
| read: "ch < length (chans e) \<Longrightarrow> jstep e (receive ch e)"
| close: "jstep e (CloseEngine e)"

inductive jobs_reachable :: "Engine \<Rightarrow> bool" where
  new: "jobs_reachable (New c)"
| step: "jobs_reachable e \<Longrightarrow> jstep e e' \<Longrightarrow> jobs_reachable e'"

inductive_cases jstepE: "jstep e e'"

section \<open>The invariant\<close>

abbreviation V :: "Engine \<Rightarrow> nat \<Rightarrow> Job" where
  "V e p \<equiv> view (heap e ! p)"

definition ok_order :: "Engine \<Rightarrow> bool" where
  "ok_order e \<longleftrightarrow> distinct (order e) \<and> (\<forall>p \<in> set (order e). p < length (heap e))
     \<and> (\<forall>p < length (heap e). running e p \<longrightarrow> p \<in> set (order e))"

definition ok_ids :: "Engine \<Rightarrow> bool" where
  "ok_ids e \<longleftrightarrow> (\<forall>i p. byID e i = Some p \<longleftrightarrow> p \<in> set (order e) \<and> jID (V e p) = i)"

definition ok_nodes :: "Engine \<Rightarrow> bool" where
  "ok_nodes e \<longleftrightarrow> (\<forall>n p. onNode e n = Some p \<longleftrightarrow> p < length (heap e) \<and> running e p \<and> jNodeID (V e p) = n \<and> n \<noteq> 0)"

definition ok_seq :: "Engine \<Rightarrow> bool" where
  "ok_seq e \<longleftrightarrow> (\<forall>p < length (heap e). endSeq (heap e ! p) \<le> ended e)
     \<and> (\<forall>p < length (heap e). \<forall>q < length (heap e). \<not> running e p \<longrightarrow> \<not> running e q
          \<longrightarrow> endSeq (heap e ! p) = endSeq (heap e ! q) \<longrightarrow> p = q)"

definition ok_keep :: "Engine \<Rightarrow> bool" where
  "ok_keep e \<longleftrightarrow> 0 < Keep (cfg e) \<and> int (length (filter (\<lambda>p. \<not> running e p) (order e))) \<le> Keep (cfg e)"

definition steps_ok :: "Step list \<Rightarrow> bool" where
  "steps_ok ss \<longleftrightarrow> length ss \<le> MaxSteps \<and> distinct (map stName ss) \<and> [] \<notin> stName ` set ss"

definition ok_steps :: "Engine \<Rightarrow> bool" where
  "ok_steps e \<longleftrightarrow> (\<forall>p < length (heap e). steps_ok (jSteps (V e p)))"

text \<open>The reader of a channel has, or is about to get, the job as it now stands.\<close>

definition current :: "Engine \<Rightarrow> nat \<Rightarrow> bool" where
  "current e ch \<longleftrightarrow> (let c = chans e ! ch; v = V e (chJob c) in buf c = Some v \<or> buf c = None \<and> chRead c = Some v)"

definition ok_subs :: "Engine \<Rightarrow> bool" where
  "ok_subs e \<longleftrightarrow> (\<forall>p < length (heap e).
     (subs (heap e ! p) \<noteq> [] \<longrightarrow> running e p)
     \<and> (\<forall>ch \<in> set (subs (heap e ! p)). ch < length (chans e) \<and> chJob (chans e ! ch) = p \<and> \<not> chClosed (chans e ! ch)))"

definition ok_chans :: "Engine \<Rightarrow> bool" where
  "ok_chans e \<longleftrightarrow> (\<forall>ch < length (chans e). chJob (chans e ! ch) < length (heap e)
     \<and> (\<not> chClosed (chans e ! ch) \<longrightarrow> ch \<in> set (subs (heap e ! chJob (chans e ! ch))))
     \<and> (chClosed (chans e ! ch) \<longrightarrow> chStopped (chans e ! ch) \<or> \<not> running e (chJob (chans e ! ch)))
     \<and> (\<not> chStopped (chans e ! ch) \<longrightarrow> current e ch))"

definition eng_ok :: "Engine \<Rightarrow> bool" where
  "eng_ok e \<longleftrightarrow> ok_order e \<and> ok_ids e \<and> ok_nodes e \<and> ok_seq e \<and> ok_keep e \<and> ok_steps e \<and> ok_subs e \<and> ok_chans e"

lemmas ok_defs = ok_order_def ok_ids_def ok_nodes_def ok_seq_def ok_keep_def ok_steps_def ok_subs_def ok_chans_def

section \<open>Forgetting\<close>

lemma forget_simps [simp]:
  "heap (forget e ps) = heap e" "onNode (forget e ps) = onNode e" "chans (forget e ps) = chans e"
  "cfg (forget e ps) = cfg e" "ended (forget e ps) = ended e" "eClosed (forget e ps) = eClosed e"
  "running (forget e ps) = running e" "order (forget e ps) = filter (\<lambda>p. p \<notin> set ps) (order e)"
  by (simp_all add: forget_def running_def fun_eq_iff)

lemma foldl_clears: "foldl (\<lambda>m p. m(f p := None)) m ps i = (if \<exists>p \<in> set ps. f p = i then None else m i)"
  by (induction ps arbitrary: m) auto

lemma forget_byID: "byID (forget e ps) i = (if \<exists>p \<in> set ps. jID (V e p) = i then None else byID e i)"
  by (simp add: forget_def foldl_clears)

lemma forget_ok_ids:
  assumes "ok_ids e" "set ps \<subseteq> set (order e)"
  shows "ok_ids (forget e ps)"
  using assms unfolding ok_ids_def forget_byID by (auto split: if_splits) (metis option.inject subsetD)+

lemma forget_ok_order:
  assumes "ok_order e" "\<forall>p \<in> set ps. \<not> running e p"
  shows "ok_order (forget e ps)"
  using assms by (auto simp: ok_order_def)

text \<open>\<open>prune\<close> in two moves, and what it leaves alone.\<close>

definition too_old :: "int \<Rightarrow> Engine \<Rightarrow> nat list" where
  "too_old now e = filter (\<lambda>p. \<not> running e p \<and> now - finished (heap e ! p) > MaxAge (cfg e)) (order e)"

definition ended_jobs :: "Engine \<Rightarrow> nat list" where
  "ended_jobs e = filter (\<lambda>p. \<not> running e p) (order e)"

definition surplus :: "Engine \<Rightarrow> nat list" where
  "surplus e = (if int (length (ended_jobs e)) \<le> Keep (cfg e) then []
     else drop (nat (Keep (cfg e))) (sort_key (\<lambda>p. - int (endSeq (heap e ! p))) (ended_jobs e)))"

lemma forget_Nil [simp]: "forget e [] = e"
  by (simp add: forget_def)

lemma prune_two: "prune now e = (let e = forget e (too_old now e) in forget e (surplus e))"
  by (simp add: prune_def too_old_def surplus_def ended_jobs_def Let_def)

lemma set_surplus: "set (surplus e) \<subseteq> set (ended_jobs e)"
  by (auto simp: surplus_def dest: in_set_dropD)

lemma prune_simps [simp]:
  "heap (prune now e) = heap e" "onNode (prune now e) = onNode e" "chans (prune now e) = chans e"
  "cfg (prune now e) = cfg e" "ended (prune now e) = ended e" "running (prune now e) = running e"
  by (simp_all add: prune_two Let_def)

lemma kept_length:
  assumes "ok_order e" "0 < Keep (cfg e)"
  shows "int (length (filter (\<lambda>p. p \<notin> set (surplus e)) (ended_jobs e))) \<le> Keep (cfg e)"
proof (cases "int (length (ended_jobs e)) \<le> Keep (cfg e)")
  case True
  then show ?thesis by (simp add: surplus_def)
next
  case False
  let ?s = "sort_key (\<lambda>p. - int (endSeq (heap e ! p))) (ended_jobs e)" and ?k = "nat (Keep (cfg e))"
  have d: "distinct ?s" "distinct (ended_jobs e)" using assms(1) by (simp_all add: ok_order_def ended_jobs_def)
  have "set ?s = set (take ?k ?s) \<union> set (drop ?k ?s)" by (metis append_take_drop_id set_append)
  moreover have "set (take ?k ?s) \<inter> set (drop ?k ?s) = {}" using d(1) by (metis append_take_drop_id distinct_append)
  ultimately have "set (filter (\<lambda>p. p \<notin> set (drop ?k ?s)) (ended_jobs e)) = set (take ?k ?s)" by auto
  then have "length (filter (\<lambda>p. p \<notin> set (drop ?k ?s)) (ended_jobs e)) = length (take ?k ?s)"
    using d by (metis distinct_card distinct_filter distinct_take)
  then show ?thesis using False assms(2) by (simp add: surplus_def)
qed

lemma prune_ok:
  assumes "ok_order e" "ok_ids e" "0 < Keep (cfg e)"
  shows "ok_order (prune now e) \<and> ok_ids (prune now e) \<and> ok_keep (prune now e)"
proof -
  let ?e = "forget e (too_old now e)"
  have 1: "ok_order ?e" "ok_ids ?e" using assms by (auto intro!: forget_ok_order forget_ok_ids simp: too_old_def)
  have "filter (\<lambda>p. \<not> running ?e p) (order (forget ?e (surplus ?e))) = filter (\<lambda>p. p \<notin> set (surplus ?e)) (ended_jobs ?e)"
    by (simp add: ended_jobs_def conj_ac)
  then have "ok_keep (forget ?e (surplus ?e))" using kept_length [OF 1(1)] assms(3) by (simp add: ok_keep_def)
  moreover have "\<forall>p \<in> set (surplus ?e). \<not> running ?e p" "set (surplus ?e) \<subseteq> set (order ?e)"
    using set_surplus [of ?e] by (auto simp: ended_jobs_def)
  ultimately show ?thesis using forget_ok_order [OF 1(1)] forget_ok_ids [OF 1(2)] by (simp add: prune_two Let_def)
qed

lemma prune_eng_ok:
  assumes "ok_order e" "ok_ids e" "0 < Keep (cfg e)" "ok_nodes e" "ok_seq e" "ok_steps e" "ok_subs e" "ok_chans e"
  shows "eng_ok (prune now e)"
  using prune_ok [OF assms(1-3), of now] assms(4-)
  by (simp add: eng_ok_def ok_nodes_def ok_seq_def ok_steps_def ok_subs_def ok_chans_def current_def)

section \<open>Publishing a new state\<close>

text \<open>A job is given a new state and its followers are told.\<close>

definition post :: "nat \<Rightarrow> job \<Rightarrow> Engine \<Rightarrow> Engine" where
  "post p j e = publish p (e\<lparr>heap := (heap e)[p := j]\<rparr>)"

definition settled :: "job \<Rightarrow> job" where
  "settled j = (if jState (view j) \<noteq> StateRunning then j\<lparr>subs := []\<rparr> else j)"

lemma settled_simps [simp]: "view (settled j) = view j" "endSeq (settled j) = endSeq j" "hide (settled j) = hide j"
  by (simp_all add: settled_def)

lemma post_simps [simp]:
  "p < length (heap e) \<Longrightarrow> heap (post p j e) = (heap e)[p := settled j]"
  "byID (post p j e) = byID e" "order (post p j e) = order e" "onNode (post p j e) = onNode e"
  "cfg (post p j e) = cfg e" "ended (post p j e) = ended e" "length (chans (post p j e)) = length (chans e)"
  by (simp_all add: post_def publish_def settled_def Let_def)

lemma post_chans:
  assumes "p < length (heap e)" "c < length (chans e)"
  shows "chans (post p j e) ! c = (if c \<in> set (subs j)
    then (chans e ! c)\<lparr>buf := Some (view j), chClosed := chClosed (chans e ! c) \<or> jState (view j) \<noteq> StateRunning\<rparr>
    else chans e ! c)"
  using assms by (simp add: post_def publish_def Let_def nth_enumerate_eq)

lemma post_running: "p < length (heap e) \<Longrightarrow> running (post p j e) q = (if q = p then jState (view j) = StateRunning else running e q)"
  by (simp add: running_def)

lemma post_subs:
  assumes "p < length (heap e)" "ok_subs e" "subs j = subs (heap e ! p)"
  shows "ok_subs (post p j e)"
  unfolding ok_subs_def
proof (intro allI impI conjI ballI)
  fix q assume q: "q < length (heap (post p j e))"
  { assume "subs (heap (post p j e) ! q) \<noteq> []"
    then show "running (post p j e) q"
      using assms q by (cases "q = p") (auto simp: ok_subs_def post_running settled_def split: if_splits) }
  fix c assume c: "c \<in> set (subs (heap (post p j e) ! q))"
  have s: "set (subs (heap (post p j e) ! q)) \<subseteq> set (subs (heap e ! q))"
    using assms q by (cases "q = p") (auto simp: settled_def)
  have q': "q < length (heap e)" using q assms(1) by simp
  have old: "c < length (chans e)" "chJob (chans e ! c) = q" "\<not> chClosed (chans e ! c)"
    using s c q' assms(2) unfolding ok_subs_def by blast+
  then show "c < length (chans (post p j e))" by simp
  show "chJob (chans (post p j e) ! c) = q" using old assms(1) by (simp add: post_chans)
  have "q = p" if "c \<in> set (subs j)" using that old(2) assms(1-3) unfolding ok_subs_def by metis
  then have "jState (view j) = StateRunning" if "c \<in> set (subs j)"
    using that c assms(1) by (auto simp: settled_def split: if_splits)
  then show "\<not> chClosed (chans (post p j e) ! c)" using old assms(1) by (simp add: post_chans)
qed

lemma post_current:
  assumes "p < length (heap e)" "ok_chans e" "ok_subs e" "subs j = subs (heap e ! p)" "running e p" "c < length (chans e)"
    "\<not> chStopped (chans e ! c)"
  shows "current (post p j e) c"
proof (cases "c \<in> set (subs j)")
  case True
  then have "chJob (chans e ! c) = p" using assms by (simp add: ok_subs_def)
  with True show ?thesis using assms by (simp add: current_def post_chans Let_def)
next
  case False
  then have "chJob (chans e ! c) \<noteq> p" using assms unfolding ok_chans_def by metis
  moreover have "current e c" using assms unfolding ok_chans_def by blast
  ultimately show ?thesis using False assms by (simp add: current_def post_chans Let_def)
qed

lemma post_chans_ok:
  assumes "p < length (heap e)" "ok_chans e" "ok_subs e" "subs j = subs (heap e ! p)" "running e p"
  shows "ok_chans (post p j e)"
  unfolding ok_chans_def
proof (intro allI impI)
  fix c assume "c < length (chans (post p j e))"
  then have c: "c < length (chans e)" by simp
  let ?c = "chans e ! c" and ?c' = "chans (post p j e) ! c" and ?e = "post p j e"
  have same: "chJob ?c' = chJob ?c" "chStopped ?c' = chStopped ?c" using assms(1) c by (simp_all add: post_chans)
  have here: "c \<in> set (subs j) \<Longrightarrow> chJob ?c = p" using assms(1,3,4) unfolding ok_subs_def by metis
  have old: "chJob ?c < length (heap e)" "\<not> chClosed ?c \<longrightarrow> c \<in> set (subs (heap e ! chJob ?c))"
    "chClosed ?c \<longrightarrow> chStopped ?c \<or> \<not> running e (chJob ?c)" using assms(2) c unfolding ok_chans_def by blast+
  have "c \<in> set (subs (heap ?e ! chJob ?c'))" if "\<not> chClosed ?c'"
    using that old assms(1,4) c same by (cases "chJob ?c = p") (auto simp: post_chans settled_def split: if_splits)
  moreover have "chStopped ?c' \<or> \<not> running ?e (chJob ?c')" if "chClosed ?c'"
    using that old assms c same here by (cases "c \<in> set (subs j)") (auto simp: post_chans post_running)
  moreover have "current ?e c" if "\<not> chStopped ?c'" using post_current [OF assms c] that same by simp
  ultimately show "chJob ?c' < length (heap ?e) \<and> (\<not> chClosed ?c' \<longrightarrow> c \<in> set (subs (heap ?e ! chJob ?c')))
     \<and> (chClosed ?c' \<longrightarrow> chStopped ?c' \<or> \<not> running ?e (chJob ?c')) \<and> (\<not> chStopped ?c' \<longrightarrow> current ?e c)"
    using old(1) assms(1) same by simp
qed

text \<open>A report changes nothing but the steps of a running job.\<close>

lemma post_same_ok:
  assumes "eng_ok e" "p < length (heap e)" "running e p" "jState (view j) = StateRunning" "jID (view j) = jID (V e p)"
    "jNodeID (view j) = jNodeID (V e p)" "subs j = subs (heap e ! p)" "endSeq j = endSeq (heap e ! p)" "steps_ok (jSteps (view j))"
  shows "eng_ok (post p j e)"
proof -
  let ?e = "post p j e"
  have r: "running ?e = running e" using assms(2-4) by (auto simp: fun_eq_iff post_running)
  have v: "jID (V ?e q) = jID (V e q)" "jNodeID (V ?e q) = jNodeID (V e q)" "endSeq (heap ?e ! q) = endSeq (heap e ! q)" for q
    using assms(2,5,6,8) by (cases "q = p"; simp)+
  have "ok_steps ?e" using assms(1,2,9) by (auto simp: eng_ok_def ok_steps_def nth_list_update)
  then show ?thesis
    using assms(1) post_subs [OF assms(2) _ assms(7)] post_chans_ok [OF assms(2) _ _ assms(7,3)] assms(2)
    unfolding eng_ok_def ok_order_def ok_ids_def ok_nodes_def ok_seq_def ok_keep_def r v by simp
qed

section \<open>Reports\<close>

definition fresh_step :: "Step \<Rightarrow> bool" where
  "fresh_step s \<longleftrightarrow> stDetail s = []"

lemma step_named_Some:
  assumes "step_named key name ss = (Some i, ss')" "steps_ok ss"
  shows "steps_ok ss' \<and> i < length ss' \<and> (ss' = ss \<or> (\<exists>s. ss' = ss @ [s] \<and> fresh_step s))"
proof (cases "find (\<lambda>i. stName (ss ! i) = clip name maxName) [0..<length ss]")
  case None
  then have "clip name maxName \<notin> stName ` set ss" by (auto simp: find_None_iff in_set_conv_nth)
  then show ?thesis using assms None by (auto simp: step_named_def Let_def steps_ok_def fresh_step_def split: if_splits)
next
  case (Some k)
  then have "k < length ss" using find_SomeD [OF Some] by simp
  then show ?thesis using assms Some by (auto simp: step_named_def Let_def split: if_splits)
qed

lemma step_named_None: "step_named key name ss = (None, ss') \<Longrightarrow> ss' = ss"
  by (auto simp: step_named_def Let_def split: if_splits option.splits)

lemma steps_ok_update:
  assumes "steps_ok ss" "i < length ss" "stName s = stName (ss ! i)"
  shows "steps_ok (ss[i := s])"
proof -
  have "map stName (ss[i := s]) = map stName ss" using assms(2,3) by (simp add: map_update list_update_same_conv)
  then have "stName ` set (ss[i := s]) = stName ` set ss" by (metis list.set_map)
  with assms(1) \<open>map stName (ss[i := s]) = map stName ss\<close> show ?thesis by (simp add: steps_ok_def)
qed

lemma plan_ok: "steps_ok (plan c names)"
proof -
  have "steps_ok ss \<Longrightarrow> steps_ok (foldl (\<lambda>ss n. snd (step_named (keyOf c) n ss)) ss names)" for ss
  proof (induction names arbitrary: ss)
    case (Cons n names)
    have "steps_ok (snd (step_named (keyOf c) n ss))"
      using step_named_Some [of "keyOf c" n ss] step_named_None [of "keyOf c" n ss] Cons.prems
      by (cases "step_named (keyOf c) n ss"; cases "fst (step_named (keyOf c) n ss)") auto
    then show ?case using Cons.IH by simp
  qed simp
  from this [of "[]"] show ?thesis by (simp add: plan_def steps_ok_def)
qed

text \<open>A report either does nothing or posts the job with one step changed or added.\<close>

definition with_steps :: "job \<Rightarrow> Step list \<Rightarrow> job" where
  "with_steps j ss = j\<lparr>view := (view j)\<lparr>jSteps := ss\<rparr>\<rparr>"

lemma change_cases:
  assumes "eng_ok e" "p < length (heap e)" "\<And>j s. stName (f j s) = stName s"
  obtains (same) "change p name f e = e"
  | (posted) ss where "running e p" "steps_ok ss" "change p name f e = post p (with_steps (heap e ! p) ss) e"
      "\<forall>s \<in> set ss. s \<in> set (jSteps (V e p)) \<or> fresh_step s \<or> (\<exists>x. s = f (heap e ! p) x \<and> (x \<in> set (jSteps (V e p)) \<or> fresh_step x))"
proof (cases "running e p \<and> fst (step_named (keyOf (cfg e)) name (jSteps (V e p))) \<noteq> None")
  case False
  then have "change p name f e = e"
    by (cases "step_named (keyOf (cfg e)) name (jSteps (V e p))") (auto simp: change_def running_def Let_def)
  then show ?thesis by (rule same)
next
  case True
  then obtain i ss where s: "step_named (keyOf (cfg e)) name (jSteps (V e p)) = (Some i, ss)" by (metis option.exhaust prod.collapse)
  have "steps_ok (jSteps (V e p))" using assms(1,2) by (simp add: eng_ok_def ok_steps_def)
  note n = step_named_Some [OF s this]
  let ?j = "heap e ! p" and ?s = "f (heap e ! p) (ss ! i)"
  let ?e = "e\<lparr>heap := (heap e)[p := with_steps ?j (ss[i := ?s])]\<rparr>"
  have c: "change p name f e = (if length ss \<noteq> length (jSteps (V e p)) \<or> ?s \<noteq> ss ! i then publish p ?e else ?e)"
    using True s by (simp add: change_def running_def Let_def with_steps_def)
  show ?thesis
  proof (cases "length ss \<noteq> length (jSteps (V e p)) \<or> ?s \<noteq> ss ! i")
    case False
    then have "ss[i := ?s] = jSteps (V e p)" using n by auto
    then have "?e = e" using False assms(2) by (simp add: with_steps_def)
    then show ?thesis using c False same by simp
  next
    case t: True
    have old: "\<forall>s \<in> set ss. s \<in> set (jSteps (V e p)) \<or> fresh_step s" using n by auto
    moreover have "ss ! i \<in> set ss" using n by simp
    ultimately have "\<forall>s \<in> set (ss[i := ?s]). s \<in> set (jSteps (V e p)) \<or> fresh_step s
        \<or> (\<exists>x. s = f ?j x \<and> (x \<in> set (jSteps (V e p)) \<or> fresh_step x))"
      using set_update_subset_insert [of ss i ?s] by (metis insert_iff subsetD)
    moreover have "change p name f e = post p (with_steps ?j (ss[i := ?s])) e" using c t by (simp add: post_def)
    ultimately show ?thesis using posted [of "ss[i := ?s]"] True n steps_ok_update assms(3) by simp
  qed
qed

lemma with_steps_simps [simp]:
  "jState (view (with_steps j ss)) = jState (view j)" "jID (view (with_steps j ss)) = jID (view j)"
  "jNodeID (view (with_steps j ss)) = jNodeID (view j)" "jSteps (view (with_steps j ss)) = ss"
  "subs (with_steps j ss) = subs j" "endSeq (with_steps j ss) = endSeq j" "hide (with_steps j ss) = hide j"
  "jError (view (with_steps j ss)) = jError (view j)" "jErrorInfo (view (with_steps j ss)) = jErrorInfo (view j)"
  by (simp_all add: with_steps_def)

lemma change_ok [inv_intros]:
  assumes "eng_ok e" "p < length (heap e)" "\<And>j s. stName (f j s) = stName s"
  shows "eng_ok (change p name f e)"
proof (cases rule: change_cases [where f = f and name = name, OF assms, case_names same posted])
  case (posted ss)
  then show ?thesis using post_same_ok [OF assms(1,2)] by (simp add: running_def)
qed (use assms(1) in simp)

lemma reports_ok:
  assumes "eng_ok e" "p < length (heap e)"
  shows "eng_ok (Begin p name e)" "eng_ok (Detail p name t e)" "eng_ok (Done p name e)" "eng_ok (Fail p name err e)"
    "eng_ok (SetStep p name state t e)"
  using assms by (auto simp: Begin_def Detail_def Done_def Fail_def SetStep_def split: option.splits intro!: change_ok)

section \<open>The end of a job\<close>

lemma finished_view_simps [simp]:
  "jID (finished_view c now err j) = jID (view j)" "jNodeID (finished_view c now err j) = jNodeID (view j)"
  "jState (finished_view c now err j) \<noteq> StateRunning"
  by (simp_all add: finished_view_def split: option.splits)

lemma close_step_name [simp]: "stName (close_step err t s) = stName s"
  by (simp add: close_step_def)

lemma finished_view_steps: "steps_ok (jSteps (view j)) \<Longrightarrow> steps_ok (jSteps (finished_view c now err j))"
  by (auto simp: finished_view_def steps_ok_def comp_def distinct_map_filter image_image intro: le_trans split: option.splits)
    (simp_all add: distinct_map_filter comp_def distinct_map, auto simp: inj_on_def intro: le_trans [OF length_filter_le])

definition over_job :: "Engine \<Rightarrow> nat \<Rightarrow> int \<Rightarrow> goerr option \<Rightarrow> job" where
  "over_job e p now err = (heap e ! p)\<lparr>view := finished_view (cfg e) now err (heap e ! p), finished := now, hide := None,
     endSeq := Suc (ended e)\<rparr>"

definition leave_node :: "Engine \<Rightarrow> nat \<Rightarrow> Engine" where
  "leave_node e p = e\<lparr>ended := Suc (ended e),
     onNode := (if jNodeID (V e p) \<noteq> 0 \<and> onNode e (jNodeID (V e p)) = Some p then (onNode e)(jNodeID (V e p) := None) else onNode e)\<rparr>"

lemma finish_post: "finish p now err e = prune now (post p (over_job e p now err) (leave_node e p))"
  by (cases e) (simp add: finish_def post_def over_job_def leave_node_def Let_def)

lemma leave_node_simps [simp]:
  "heap (leave_node e p) = heap e" "byID (leave_node e p) = byID e" "order (leave_node e p) = order e"
  "cfg (leave_node e p) = cfg e" "chans (leave_node e p) = chans e" "ended (leave_node e p) = Suc (ended e)"
  "running (leave_node e p) = running e"
  by (simp_all add: leave_node_def running_def fun_eq_iff)

lemma finish_ok [inv_intros]:
  assumes "eng_ok e" "p < length (heap e)" "running e p"
  shows "eng_ok (finish p now err e)"
proof -
  let ?l = "leave_node e p" and ?j = "over_job e p now err"
  let ?e = "post p ?j ?l"
  have j: "jState (view ?j) \<noteq> StateRunning" "jID (view ?j) = jID (V e p)" "jNodeID (view ?j) = jNodeID (V e p)"
    "subs ?j = subs (heap e ! p)" "endSeq ?j = Suc (ended e)" by (simp_all add: over_job_def)
  have p: "p < length (heap ?l)" using assms(2) by simp
  have r: "running ?e q \<longleftrightarrow> q \<noteq> p \<and> running e q" for q using post_running [OF p, of ?j q] j(1) by simp
  have v: "jID (V ?e q) = jID (V e q)" "jNodeID (V ?e q) = jNodeID (V e q)" for q
    using j(2,3) assms(2) by (cases "q = p"; simp)+
  have nodes: "onNode e n = Some q \<longleftrightarrow> q < length (heap e) \<and> running e q \<and> jNodeID (V e q) = n \<and> n \<noteq> 0" for n q
    using assms(1) by (simp add: eng_ok_def ok_nodes_def)
  have "onNode ?e n = (if n = jNodeID (V e p) then None else onNode e n)" for n
    using nodes [of 0] nodes [of _ p] assms(2,3) by (cases "jNodeID (V e p) = 0"; cases "onNode e 0") (auto simp: leave_node_def)
  then have "onNode ?e n = Some q \<longleftrightarrow> q < length (heap e) \<and> (q \<noteq> p \<and> running e q) \<and> jNodeID (V e q) = n \<and> n \<noteq> 0" for n q
    using nodes [of n q] nodes [of n p] assms(2,3) by (cases "q = p") auto
  then have "ok_nodes ?e" unfolding ok_nodes_def r v using assms(2) by simp
  moreover have "ok_order ?e" using assms unfolding eng_ok_def ok_order_def r by simp
  moreover have "ok_ids ?e" using assms unfolding eng_ok_def ok_ids_def v by simp
  moreover have "ok_seq ?e"
  proof -
    have "\<forall>q < length (heap e). endSeq (heap e ! q) < Suc (ended e)" using assms(1) by (auto simp: eng_ok_def ok_seq_def less_Suc_eq_le)
    then show ?thesis using assms j(5) unfolding eng_ok_def ok_seq_def r
      by (auto simp: nth_list_update less_Suc_eq_le split: if_splits)
  qed
  moreover have "ok_steps ?e"
    using assms finished_view_steps by (auto simp: eng_ok_def ok_steps_def nth_list_update over_job_def)
  moreover have "ok_subs ?l" "ok_chans ?l"
    using assms(1) by (simp_all add: eng_ok_def ok_subs_def ok_chans_def current_def)
  then have "ok_subs ?e" "ok_chans ?e" using post_subs [OF p] post_chans_ok [OF p] j(4) assms(3) by simp_all
  ultimately show ?thesis unfolding finish_post using assms(1) by (intro prune_eng_ok) (simp_all add: eng_ok_def ok_keep_def)
qed

section \<open>Starting, following and stopping\<close>

definition admit :: "int \<Rightarrow> string \<Rightarrow> Spec \<Rightarrow> Engine \<Rightarrow> Engine" where
  "admit now i spec e =
     (let p = length (heap e);
          v = \<lparr>jID = i, jKind = spKind spec, jState = StateRunning, jSteps = plan (cfg e) (spSteps spec),
               jError = [], jCode = [], jErrorInfo = None, jNodeID = spNodeID spec, jTarget = spTarget spec,
               StartedAt = now, FinishedAt = None, jInstall = map_option clip_form (spInstall spec)\<rparr>
      in e\<lparr>heap := heap e @ [\<lparr>view = v, hide = newHider (Secrets spec), subs = [], finished = 0, endSeq = 0\<rparr>],
           byID := (byID e)(i := Some p), order := order e @ [p],
           onNode := (if spNodeID spec \<noteq> 0 then (onNode e)(spNodeID spec := Some p) else onNode e)\<rparr>)"

lemma Start_cases:
  obtains (refused) x where "Start now proposals has_fn spec e = (Inl x, e)"
  | (admitted) i where "byID e i = None" "spNodeID spec \<noteq> 0 \<longrightarrow> onNode e (spNodeID spec) = None"
      "snd (Start now proposals has_fn spec e) = prune now (admit now i spec e)"
      "fst (Start now proposals has_fn spec e) = Inr (V (admit now i spec e) (length (heap e)))"
      "spKind spec \<in> set kinds" "has_fn" "\<not> eClosed e"
proof (cases "spKind spec \<in> set kinds \<and> has_fn \<and> \<not> eClosed e \<and> (spNodeID spec \<noteq> 0 \<longrightarrow> onNode e (spNodeID spec) = None)")
  case False
  then have "\<exists>x. Start now proposals has_fn spec e = (Inl x, e)" by (auto simp: Start_def)
  then show ?thesis using refused by blast
next
  case True
  show ?thesis
  proof (cases "newID proposals e")
    case None
    then have "Start now proposals has_fn spec e = (Inl NoRandom, e)" using True by (simp add: Start_def)
    then show ?thesis by (rule refused)
  next
    case (Some i)
    then have "byID e i = None" unfolding newID_def by (rule find_SomeD [THEN conjunct2])
    then show ?thesis using True Some by (intro admitted) (auto simp: Start_def admit_def Let_def)
  qed
qed

lemma admit_simps [simp]:
  "cfg (admit now i spec e) = cfg e" "chans (admit now i spec e) = chans e" "ended (admit now i spec e) = ended e"
  "order (admit now i spec e) = order e @ [length (heap e)]" "length (heap (admit now i spec e)) = Suc (length (heap e))"
  "q < length (heap e) \<Longrightarrow> heap (admit now i spec e) ! q = heap e ! q"
  "q < length (heap e) \<Longrightarrow> running (admit now i spec e) q = running e q"
  "running (admit now i spec e) (length (heap e))" "jID (V (admit now i spec e) (length (heap e))) = i"
  "jNodeID (V (admit now i spec e) (length (heap e))) = spNodeID spec"
  "jSteps (V (admit now i spec e) (length (heap e))) = plan (cfg e) (spSteps spec)"
  "subs (heap (admit now i spec e) ! length (heap e)) = []" "endSeq (heap (admit now i spec e) ! length (heap e)) = 0"
  by (simp_all add: admit_def running_def Let_def nth_append)

lemma admit_ok:
  assumes "eng_ok e" "byID e i = None" "spNodeID spec \<noteq> 0 \<longrightarrow> onNode e (spNodeID spec) = None"
  shows "eng_ok (prune now (admit now i spec e))"
proof (rule prune_eng_ok)
  let ?e = "admit now i spec e" and ?n = "length (heap e)"
  have split: "p < length (heap ?e) \<longleftrightarrow> p < ?n \<or> p = ?n" for p by (auto simp: less_Suc_eq)
  have o: "p < ?n" if "p \<in> set (order e)" for p using that assms(1) by (simp add: eng_ok_def ok_order_def)
  show "ok_order ?e" using assms(1) o unfolding eng_ok_def ok_order_def split by auto
  show "0 < Keep (cfg ?e)" using assms(1) by (simp add: eng_ok_def ok_keep_def)
  have ids: "byID e k = Some q \<longleftrightarrow> q \<in> set (order e) \<and> jID (V e q) = k" for k q using assms(1) by (simp add: eng_ok_def ok_ids_def)
  show "ok_ids ?e" unfolding ok_ids_def
  proof (intro allI)
    fix k q
    show "byID ?e k = Some q \<longleftrightarrow> q \<in> set (order ?e) \<and> jID (V ?e q) = k"
    proof (cases "q = ?n")
      case True
      then show ?thesis using ids [of k q] o [of q] by (auto simp: admit_def Let_def)
    next
      case False
      then show ?thesis using ids [of k q] ids [of i q] o [of q] assms(2) by (auto simp: admit_def Let_def nth_append)
    qed
  qed
  have nodes: "onNode e n = Some q \<longleftrightarrow> q < ?n \<and> running e q \<and> jNodeID (V e q) = n \<and> n \<noteq> 0" for n q
    using assms(1) by (simp add: eng_ok_def ok_nodes_def)
  show "ok_nodes ?e" unfolding ok_nodes_def split
  proof (intro allI)
    fix n q
    show "onNode ?e n = Some q \<longleftrightarrow> (q < ?n \<or> q = ?n) \<and> running ?e q \<and> jNodeID (V ?e q) = n \<and> n \<noteq> 0"
    proof (cases "q = ?n")
      case True
      then show ?thesis using nodes [of n q] by (auto simp: admit_def Let_def running_def)
    next
      case False
      then show ?thesis using nodes [of n q] nodes [of "spNodeID spec" q] assms(3) by (cases "q < ?n") (auto simp: admit_def Let_def running_def nth_append)
    qed
  qed
  show "ok_seq ?e" using assms(1) unfolding eng_ok_def ok_seq_def split by auto
  show "ok_steps ?e" using assms(1) plan_ok unfolding eng_ok_def ok_steps_def split by auto
  show "ok_subs ?e" using assms(1) unfolding eng_ok_def ok_subs_def split by auto
  show "ok_chans ?e" using assms(1) unfolding eng_ok_def ok_chans_def split by (auto simp: current_def Let_def)
qed

lemma prune_inv [inv_intros]: "eng_ok e \<Longrightarrow> eng_ok (prune now e)"
  by (rule prune_eng_ok) (simp_all add: eng_ok_def ok_keep_def)

definition follow :: "nat \<Rightarrow> Engine \<Rightarrow> Engine" where
  "follow p e = e\<lparr>
     heap := (if running e p then (heap e)[p := (heap e ! p)\<lparr>subs := subs (heap e ! p) @ [length (chans e)]\<rparr>] else heap e),
     chans := chans e @ [\<lparr>buf = Some (V e p), chClosed = \<not> running e p, chJob = p, chRead = None, chStopped = False\<rparr>]\<rparr>"

lemma Subscribe_follow:
  "Subscribe now i e = (case byID (prune now e) i of None \<Rightarrow> (None, prune now e)
     | Some p \<Rightarrow> (Some (length (chans e)), follow p (prune now e)))"
  by (simp add: Subscribe_def follow_def running_def Let_def split: option.splits)

text \<open>An update of a job that touches only its followers.\<close>

lemma subs_update_ok:
  assumes "eng_ok e" "heap e' = (heap e)[p := (heap e ! p)\<lparr>subs := cs\<rparr>]" "p < length (heap e)"
    "byID e' = byID e" "order e' = order e" "onNode e' = onNode e" "cfg e' = cfg e" "ended e' = ended e"
    "ok_subs e'" "ok_chans e'"
  shows "eng_ok e'"
proof -
  have v: "V e' q = V e q" "endSeq (heap e' ! q) = endSeq (heap e ! q)" for q using assms(2,3) by (cases "q = p"; simp)+
  then have r: "running e' = running e" by (simp add: running_def fun_eq_iff)
  have l: "length (heap e') = length (heap e)" using assms(2) by simp
  show ?thesis using assms(1,4-) unfolding eng_ok_def ok_order_def ok_ids_def ok_nodes_def ok_seq_def ok_keep_def ok_steps_def v r l
    by simp
qed

lemma follow_ok:
  assumes "eng_ok e" "p < length (heap e)"
  shows "eng_ok (follow p e)"
proof -
  let ?e = "follow p e" and ?n = "length (chans e)"
  let ?cs = "if running e p then subs (heap e ! p) @ [?n] else subs (heap e ! p)"
  have h: "heap ?e = (heap e)[p := (heap e ! p)\<lparr>subs := ?cs\<rparr>]" using assms(2) by (simp add: follow_def)
  have v: "V ?e q = V e q" "subs (heap ?e ! q) = (if q = p then ?cs else subs (heap e ! q))" for q
    using h assms(2) by (cases "q = p"; simp)+
  have r: "running ?e = running e" using v(1) by (simp add: running_def fun_eq_iff)
  have c: "chans ?e ! c = (if c = ?n then \<lparr>buf = Some (V e p), chClosed = \<not> running e p, chJob = p, chRead = None, chStopped = False\<rparr>
      else chans e ! c)" if "c < length (chans ?e)" for c using that by (simp add: follow_def nth_append)
  have l: "length (chans ?e) = Suc ?n" "length (heap ?e) = length (heap e)" using h by (simp_all add: follow_def)
  have os: "(subs (heap e ! q) \<noteq> [] \<longrightarrow> running e q) \<and>
      (\<forall>ch \<in> set (subs (heap e ! q)). ch < ?n \<and> chJob (chans e ! ch) = q \<and> \<not> chClosed (chans e ! ch))" if "q < length (heap e)" for q
    using that assms(1) by (simp add: eng_ok_def ok_subs_def)
  have "ok_subs ?e" unfolding ok_subs_def l v r
  proof (intro allI impI conjI ballI)
    fix q assume q: "q < length (heap e)"
    show "running e q" if "(if q = p then ?cs else subs (heap e ! q)) \<noteq> []"
      using that os [OF q] by (cases "running e p"; cases "q = p") auto
    fix ch assume ch: "ch \<in> set (if q = p then ?cs else subs (heap e ! q))"
    then have "ch = ?n \<and> q = p \<and> running e p \<or> ch \<in> set (subs (heap e ! q))" by (auto split: if_splits)
    then have *: "ch < Suc ?n \<and> (ch = ?n \<longrightarrow> q = p \<and> running e p) \<and> (ch \<noteq> ?n \<longrightarrow> chJob (chans e ! ch) = q \<and> \<not> chClosed (chans e ! ch))"
      using os [OF q] by fastforce
    then show "ch < Suc ?n" "chJob (chans ?e ! ch) = q" "\<not> chClosed (chans ?e ! ch)" using c [of ch] l(1) by auto
  qed
  moreover have "ok_chans ?e" unfolding ok_chans_def
  proof (intro allI impI)
    fix ch assume ch: "ch < length (chans ?e)"
    show "chJob (chans ?e ! ch) < length (heap ?e) \<and> (\<not> chClosed (chans ?e ! ch) \<longrightarrow> ch \<in> set (subs (heap ?e ! chJob (chans ?e ! ch))))
       \<and> (chClosed (chans ?e ! ch) \<longrightarrow> chStopped (chans ?e ! ch) \<or> \<not> running ?e (chJob (chans ?e ! ch)))
       \<and> (\<not> chStopped (chans ?e ! ch) \<longrightarrow> current ?e ch)"
    proof (cases "ch = ?n")
      case True
      then show ?thesis using c [OF ch] assms(2) l v r by (simp add: current_def Let_def)
    next
      case False
      then have "ch < ?n" using ch l by simp
      then have "chJob (chans e ! ch) < length (heap e) \<and> (\<not> chClosed (chans e ! ch) \<longrightarrow> ch \<in> set (subs (heap e ! chJob (chans e ! ch))))
        \<and> (chClosed (chans e ! ch) \<longrightarrow> chStopped (chans e ! ch) \<or> \<not> running e (chJob (chans e ! ch)))
        \<and> (\<not> chStopped (chans e ! ch) \<longrightarrow> current e ch)" using assms(1) by (simp add: eng_ok_def ok_chans_def)
      then show ?thesis using c [OF ch] False l v r by (auto simp: current_def Let_def)
    qed
  qed
  ultimately show ?thesis using assms(1) by (intro subs_update_ok [OF assms(1) h assms(2)]) (simp_all add: follow_def)
qed

lemma byID_bound: "eng_ok e \<Longrightarrow> byID e i = Some p \<Longrightarrow> p < length (heap e)"
  by (simp add: eng_ok_def ok_ids_def ok_order_def)

lemma Subscribe_ok: "eng_ok e \<Longrightarrow> eng_ok (snd (Subscribe now i e))"
  unfolding Subscribe_follow using follow_ok byID_bound prune_inv by (fastforce split: option.splits)

lemma unsubscribe_ok:
  assumes "eng_ok e" "ch < length (chans e)"
  shows "eng_ok (unsubscribe (chJob (chans e ! ch)) ch e)"
proof (cases "ch \<in> set (subs (heap e ! chJob (chans e ! ch)))")
  case True
  let ?p = "chJob (chans e ! ch)" and ?e = "unsubscribe (chJob (chans e ! ch)) ch e"
  have p: "?p < length (heap e)" using assms by (simp add: eng_ok_def ok_chans_def)
  have h: "heap ?e = (heap e)[?p := (heap e ! ?p)\<lparr>subs := removeAll ch (subs (heap e ! ?p))\<rparr>]"
    and cs: "chans ?e = (chans e)[ch := (chans e ! ch)\<lparr>chClosed := True, chStopped := True\<rparr>]" using True by (simp_all add: unsubscribe_def)
  have v: "V ?e q = V e q" "set (subs (heap ?e ! q)) = (if q = ?p then set (subs (heap e ! q)) - {ch} else set (subs (heap e ! q)))" for q
    using h p by (cases "q = ?p"; simp)+
  have r: "running ?e = running e" using v(1) by (simp add: running_def fun_eq_iff)
  have os: "(subs (heap e ! q) \<noteq> [] \<longrightarrow> running e q) \<and>
      (\<forall>ch \<in> set (subs (heap e ! q)). ch < length (chans e) \<and> chJob (chans e ! ch) = q \<and> \<not> chClosed (chans e ! ch))" if "q < length (heap e)" for q
    using that assms(1) by (simp add: eng_ok_def ok_subs_def)
  have "ok_subs ?e" unfolding ok_subs_def
  proof (intro allI impI conjI ballI)
    fix q assume "q < length (heap ?e)"
    then have q: "q < length (heap e)" using h by simp
    show "running ?e q" if "subs (heap ?e ! q) \<noteq> []"
    proof -
      have "set (subs (heap ?e ! q)) \<subseteq> set (subs (heap e ! q))" unfolding v(2) by auto
      then have "subs (heap e ! q) \<noteq> []" using that by (metis set_empty subset_empty)
      then show ?thesis using os [OF q] r by simp
    qed
    fix c assume "c \<in> set (subs (heap ?e ! q))"
    then have "c \<in> set (subs (heap e ! q))" "c \<noteq> ch \<or> q \<noteq> ?p" using v(2) [of q] by (auto split: if_splits)
    then have "c < length (chans e)" "chJob (chans e ! c) = q" "\<not> chClosed (chans e ! c)" "c \<noteq> ch" using os [OF q] by auto
    then show "c < length (chans ?e)" "chJob (chans ?e ! c) = q" "\<not> chClosed (chans ?e ! c)" using cs by simp_all
  qed
  moreover have "ok_chans ?e" unfolding ok_chans_def
  proof (intro allI impI)
    fix c assume "c < length (chans ?e)"
    then have c: "c < length (chans e)" using cs by simp
    have old: "chJob (chans e ! c) < length (heap e) \<and> (\<not> chClosed (chans e ! c) \<longrightarrow> c \<in> set (subs (heap e ! chJob (chans e ! c))))
        \<and> (chClosed (chans e ! c) \<longrightarrow> chStopped (chans e ! c) \<or> \<not> running e (chJob (chans e ! c)))
        \<and> (\<not> chStopped (chans e ! c) \<longrightarrow> current e c)" using assms(1) c by (simp add: eng_ok_def ok_chans_def)
    have hl: "length (heap ?e) = length (heap e)" by (simp add: h)
    show "chJob (chans ?e ! c) < length (heap ?e) \<and> (\<not> chClosed (chans ?e ! c) \<longrightarrow> c \<in> set (subs (heap ?e ! chJob (chans ?e ! c))))
       \<and> (chClosed (chans ?e ! c) \<longrightarrow> chStopped (chans ?e ! c) \<or> \<not> running ?e (chJob (chans ?e ! c)))
       \<and> (\<not> chStopped (chans ?e ! c) \<longrightarrow> current ?e c)"
    proof (cases "c = ch")
      case True
      then have "chans ?e ! c = (chans e ! c)\<lparr>chClosed := True, chStopped := True\<rparr>" using cs c by simp
      with old show ?thesis unfolding hl r by simp
    next
      case False
      then have "chans ?e ! c = chans e ! c" using cs by simp
      moreover have "c \<in> set (subs (heap e ! q)) \<Longrightarrow> c \<in> set (subs (heap ?e ! q))" for q unfolding v(2) using False by auto
      ultimately show ?thesis using old unfolding hl r current_def Let_def v(1) by auto
    qed
  qed
  ultimately show ?thesis using assms(1) by (intro subs_update_ok [OF assms(1) h p]) (simp_all add: unsubscribe_def)
qed (use assms(1) in \<open>simp add: unsubscribe_def\<close>)

lemma eng_ok_cong:
  assumes "eng_ok e" "heap e' = heap e" "byID e' = byID e" "order e' = order e" "onNode e' = onNode e" "cfg e' = cfg e"
    "ended e' = ended e" "ok_subs e'" "ok_chans e'"
  shows "eng_ok e'"
proof -
  have r: "running e' = running e" by (simp add: running_def fun_eq_iff assms(2))
  show ?thesis using assms(1,8,9) unfolding eng_ok_def ok_order_def ok_ids_def ok_nodes_def ok_seq_def ok_keep_def ok_steps_def
      assms(2-7) r by blast
qed

lemma receive_ok:
  assumes "eng_ok e" "ch < length (chans e)"
  shows "eng_ok (receive ch e)"
proof (cases "buf (chans e ! ch)")
  case None
  then show ?thesis using assms(1) by (simp add: receive_def)
next
  case (Some v)
  let ?e = "receive ch e"
  have same: "heap ?e = heap e" "byID ?e = byID e" "order ?e = order e" "onNode ?e = onNode e" "cfg ?e = cfg e" "ended ?e = ended e"
    using Some by (simp_all add: receive_def)
  have r: "running ?e = running e" by (simp add: running_def fun_eq_iff same)
  have c: "chClosed (chans ?e ! c) = chClosed (chans e ! c)" "chJob (chans ?e ! c) = chJob (chans e ! c)"
    "chStopped (chans ?e ! c) = chStopped (chans e ! c)" for c
    using Some assms(2) by (cases "c = ch"; simp add: receive_def)+
  have l: "length (chans ?e) = length (chans e)" using Some by (simp add: receive_def)
  have cur: "current ?e c" if "current e c" for c
    using that Some assms(2) by (cases "c = ch") (auto simp: current_def Let_def receive_def)
  have "ok_subs ?e" using assms(1) unfolding eng_ok_def ok_subs_def same r l c by blast
  moreover have "ok_chans ?e" using assms(1) cur unfolding eng_ok_def ok_chans_def same r l c by blast
  ultimately show ?thesis using eng_ok_cong [OF assms(1) same] by blast
qed

lemma New_ok: "eng_ok (New c)"
  by (simp add: eng_ok_def ok_defs New_def DefaultKeep_def)

lemma CloseEngine_ok: "eng_ok e \<Longrightarrow> eng_ok (CloseEngine e)"
  by (rule eng_ok_cong) (simp_all add: CloseEngine_def eng_ok_def ok_subs_def ok_chans_def running_def current_def)

lemma Start_ok: "eng_ok e \<Longrightarrow> eng_ok (snd (Start now proposals has_fn spec e))"
  by (rule Start_cases [of now proposals has_fn spec e]) (simp_all add: admit_ok)

lemma jstep_ok: "jstep e e' \<Longrightarrow> eng_ok e \<Longrightarrow> eng_ok e'"
  by (induction rule: jstep.induct)
    (auto simp: run_def Get_def ListJobs_def Let_def
       intro: Start_ok reports_ok finish_ok prune_inv Subscribe_ok unsubscribe_ok receive_ok CloseEngine_ok)

lemma reachable_eng_ok: "jobs_reachable e \<Longrightarrow> eng_ok e"
  by (induction rule: jobs_reachable.induct) (auto intro: New_ok jstep_ok)

section \<open>What the engine promises\<close>

lemma one_per_node:
  "eng_ok e \<Longrightarrow> p < length (heap e) \<Longrightarrow> q < length (heap e) \<Longrightarrow> running e p \<Longrightarrow> running e q
    \<Longrightarrow> jNodeID (V e p) = jNodeID (V e q) \<Longrightarrow> jNodeID (V e p) \<noteq> 0 \<Longrightarrow> p = q"
  unfolding eng_ok_def ok_nodes_def by (metis option.inject)

text \<open>
  C29. The engine's books are right in every run, whatever jobs are started, reported on, followed and
  ended: a node never has two jobs running; a job that is running is never forgotten and is found by
  its identifier; at most \<open>Keep\<close> finished jobs are remembered; a job has at most 32 steps, with
  different names; and \<open>Start\<close> answers that a node is busy exactly when a job is running on it.
\<close>

theorem jobs_engine_sound:
  assumes "jobs_reachable e"
  shows "(\<forall>p < length (heap e). \<forall>q < length (heap e). running e p \<and> running e q
            \<and> jNodeID (V e p) = jNodeID (V e q) \<and> jNodeID (V e p) \<noteq> 0 \<longrightarrow> p = q)
    \<and> (\<forall>p < length (heap e). running e p \<longrightarrow> byID e (jID (V e p)) = Some p)
    \<and> int (length (filter (\<lambda>v. jState v \<noteq> StateRunning) (map (V e) (order e)))) \<le> Keep (cfg e)
    \<and> (\<forall>p < length (heap e). length (jSteps (V e p)) \<le> MaxSteps \<and> distinct (map stName (jSteps (V e p))))
    \<and> (spKind spec \<in> set kinds \<and> \<not> eClosed e \<and> spNodeID spec \<noteq> 0 \<longrightarrow>
         ((\<exists>i. fst (Start now proposals True spec e) = Inl (BusyError (spNodeID spec) i))
          \<longleftrightarrow> (\<exists>p < length (heap e). running e p \<and> jNodeID (V e p) = spNodeID spec)))"
proof -
  note ok = reachable_eng_ok [OF assms]
  have "filter (\<lambda>v. jState v \<noteq> StateRunning) (map (V e) (order e)) = map (V e) (filter (\<lambda>p. \<not> running e p) (order e))"
    by (simp add: filter_map comp_def running_def)
  then have "int (length (filter (\<lambda>v. jState v \<noteq> StateRunning) (map (V e) (order e)))) \<le> Keep (cfg e)"
    using ok by (simp add: eng_ok_def ok_keep_def)
  moreover have "(\<exists>i. fst (Start now proposals True spec e) = Inl (BusyError (spNodeID spec) i))
      \<longleftrightarrow> (\<exists>p < length (heap e). running e p \<and> jNodeID (V e p) = spNodeID spec)"
    if "spKind spec \<in> set kinds" "\<not> eClosed e" "spNodeID spec \<noteq> 0"
  proof -
    have "(\<exists>i. fst (Start now proposals True spec e) = Inl (BusyError (spNodeID spec) i)) \<longleftrightarrow> onNode e (spNodeID spec) \<noteq> None"
      using that by (auto simp: Start_def Let_def split: option.splits)
    then show ?thesis using ok that(3) unfolding eng_ok_def ok_nodes_def by auto
  qed
  moreover have "\<forall>p < length (heap e). running e p \<longrightarrow> byID e (jID (V e p)) = Some p"
    using ok unfolding eng_ok_def ok_ids_def ok_order_def by blast
  ultimately show ?thesis using one_per_node [OF ok] ok by (simp add: eng_ok_def ok_steps_def steps_ok_def)
qed

lemma sort_key_drop_take:
  assumes "x \<in> set (drop k (sort_key f xs))" "y \<in> set (take k (sort_key f xs))"
  shows "f y \<le> f x"
proof -
  have "sorted (map f (take k (sort_key f xs) @ drop k (sort_key f xs)))" by simp
  then show ?thesis using assms by (simp only: map_append sorted_append) auto
qed

text \<open>
  What is forgotten is the right thing: a job that pruning drops had finished, and either more
  than the maximal age ago, or \<open>Keep\<close> finished jobs that all ended after it are still remembered.
\<close>

theorem prune_forgets_the_oldest:
  assumes "jobs_reachable e" "p \<in> set (order e)" "p \<notin> set (order (prune now e))"
  shows "\<not> running e p \<and> (now - finished (heap e ! p) > MaxAge (cfg e)
    \<or> (let kept = filter (\<lambda>q. \<not> running e q) (order (prune now e)) in
         int (length kept) = Keep (cfg e) \<and> (\<forall>q \<in> set kept. endSeq (heap e ! p) < endSeq (heap e ! q))))"
proof -
  note ok = reachable_eng_ok [OF assms(1)]
  let ?e = "forget e (too_old now e)"
  have order: "order (prune now e) = filter (\<lambda>p. p \<notin> set (surplus ?e)) (order ?e)" by (simp add: prune_two Let_def)
  show ?thesis
  proof (cases "p \<in> set (too_old now e)")
    case True
    then show ?thesis by (simp add: too_old_def)
  next
    case False
    then have s: "p \<in> set (surplus ?e)" using assms(2,3) order by auto
    let ?k = "nat (Keep (cfg e))" and ?l = "sort_key (\<lambda>p. - int (endSeq (heap e ! p))) (ended_jobs ?e)"
    have big: "\<not> int (length (ended_jobs ?e)) \<le> Keep (cfg e)" and pd: "p \<in> set (drop ?k ?l)"
      using s by (auto simp: surplus_def split: if_splits)
    have o1: "ok_order ?e" using ok by (auto simp: eng_ok_def too_old_def intro: forget_ok_order)
    have d: "distinct ?l" using o1 by (simp add: ok_order_def ended_jobs_def del: forget_simps(8))
    have disj: "set (take ?k ?l) \<inter> set (drop ?k ?l) = {}" using d by (metis append_take_drop_id distinct_append)
    have un: "set ?l = set (take ?k ?l) \<union> set (drop ?k ?l)" by (metis append_take_drop_id set_append)
    let ?kept = "filter (\<lambda>q. \<not> running e q) (order (prune now e))"
    have "set ?kept = set ?l - set (drop ?k ?l)" unfolding order using big by (auto simp: surplus_def ended_jobs_def)
    then have ks: "set ?kept = set (take ?k ?l)" using un disj by auto
    have "distinct ?kept" using ok unfolding order eng_ok_def ok_order_def by (simp only: distinct_filter forget_simps)
    then have len: "length ?kept = length (take ?k ?l)" using ks d by (metis distinct_card distinct_take)
    have ended: "x < length (heap e) \<and> \<not> running e x" if "x \<in> set ?l" for x
    proof -
      have "x \<in> set (order e) \<and> \<not> running e x" using that by (simp add: ended_jobs_def)
      then show ?thesis using ok unfolding eng_ok_def ok_order_def by blast
    qed
    have "endSeq (heap e ! p) < endSeq (heap e ! q)" if "q \<in> set ?kept" for q
    proof -
      have q: "q \<in> set (take ?k ?l)" using that unfolding ks .
      then have "endSeq (heap e ! p) \<le> endSeq (heap e ! q)" using sort_key_drop_take [OF pd q] by simp
      moreover have "q \<noteq> p" using q pd disj by auto
      moreover have "p \<in> set ?l" "q \<in> set ?l" using un q pd by auto
      then have "endSeq (heap e ! p) \<noteq> endSeq (heap e ! q)"
        using ended [of p] ended [of q] \<open>q \<noteq> p\<close> ok unfolding eng_ok_def ok_seq_def by metis
      ultimately show ?thesis by simp
    qed
    moreover have "int (length ?kept) = Keep (cfg e)" using len big ok by (simp add: eng_ok_def ok_keep_def)
    moreover have "\<not> running e p" using ended [of p] un pd by auto
    ultimately show ?thesis by (simp add: Let_def)
  qed
qed

text \<open>
  C31. Whoever follows a job sees where it stands. In every run, unless the reader has cancelled, the
  value waiting in its channel is the job as it now is, or nothing waits and that is the last value
  it took; a slow reader misses only intermediate states. The channel is closed exactly when the
  job is over, so the last value before the close is the final state, and the engine never sends on
  a closed channel.
\<close>

theorem followers_see_the_latest_state:
  assumes "jobs_reachable e" "ch < length (chans e)" "\<not> chStopped (chans e ! ch)"
  shows "(let c = chans e ! ch; now = V e (chJob c) in
            (buf c = Some now \<or> buf c = None \<and> chRead c = Some now)
            \<and> (chClosed c \<longleftrightarrow> jState now \<noteq> StateRunning))
    \<and> (\<forall>p < length (heap e). \<forall>c \<in> set (subs (heap e ! p)). \<not> chClosed (chans e ! c))"
proof -
  note ok = reachable_eng_ok [OF assms(1)]
  have c: "chJob (chans e ! ch) < length (heap e)" "current e ch"
    "\<not> chClosed (chans e ! ch) \<longrightarrow> ch \<in> set (subs (heap e ! chJob (chans e ! ch)))"
    "chClosed (chans e ! ch) \<longrightarrow> \<not> running e (chJob (chans e ! ch))"
    using ok assms(2,3) unfolding eng_ok_def ok_chans_def by blast+
  moreover have "subs (heap e ! chJob (chans e ! ch)) \<noteq> [] \<longrightarrow> running e (chJob (chans e ! ch))"
    using ok c(1) unfolding eng_ok_def ok_subs_def by blast
  ultimately have "chClosed (chans e ! ch) \<longleftrightarrow> \<not> running e (chJob (chans e ! ch))" by (metis empty_iff list.set(1))
  moreover have "\<forall>p < length (heap e). \<forall>c \<in> set (subs (heap e ! p)). \<not> chClosed (chans e ! c)"
    using ok unfolding eng_ok_def ok_subs_def by blast
  ultimately show ?thesis using c(2) unfolding current_def running_def Let_def by blast
qed

section \<open>After the end\<close>

lemma change_other:
  assumes "eng_ok e" "p < length (heap e)" "\<And>j s. stName (f j s) = stName s" "\<not> running e q"
  shows "length (heap (change p name f e)) = length (heap e) \<and> V (change p name f e) q = V e q"
proof (cases rule: change_cases [where f = f and name = name, OF assms(1-3), case_names same posted])
  case (posted ss)
  then have "p \<noteq> q" using assms(4) by auto
  then show ?thesis using posted(3) assms(2) by simp
qed simp

lemma unsubscribe_view: "V (unsubscribe p ch e) q = V e q"
  by (cases "q = p"; cases "p < length (heap e)") (simp_all add: unsubscribe_def list_update_beyond)

lemma follow_view: "V (follow p e) q = V e q"
  by (cases "q = p"; cases "p < length (heap e)") (simp_all add: follow_def list_update_beyond)

lemma jstep_final:
  "jstep e e' \<Longrightarrow> eng_ok e \<Longrightarrow> q < length (heap e) \<Longrightarrow> \<not> running e q \<Longrightarrow> q < length (heap e') \<and> V e' q = V e q"
proof (induction rule: jstep.induct)
  case (start e now proposals has_fn spec)
  then show ?case by (cases rule: Start_cases [of now proposals has_fn spec e]) simp_all
next
  case (over p e now out)
  then have "p \<noteq> q" by auto
  then show ?case using over by (simp add: run_def finish_post)
next
  case (subscribe e now i)
  then show ?case by (auto simp: Subscribe_follow follow_view split: option.splits) (simp_all add: follow_def)
next
  case (cancel ch e)
  then show ?case by (simp add: unsubscribe_view) (simp add: unsubscribe_def)
qed (auto simp: Begin_def Detail_def Done_def Fail_def SetStep_def Get_def ListJobs_def Let_def receive_def CloseEngine_def
       change_other split: option.splits)

text \<open>
  A job that is over stays as it ended: whatever its function still reports and whatever else the
  engine does, the job's state, steps, error and times never change again.
\<close>

theorem finished_job_is_final:
  assumes "jstep\<^sup>*\<^sup>* e e'" "jobs_reachable e" "p < length (heap e)" "\<not> running e p"
  shows "V e' p = V e p"
proof -
  have "jobs_reachable e' \<and> p < length (heap e') \<and> V e' p = V e p"
    using assms(1)
  proof (induction rule: rtranclp_induct)
    case (step x y)
    then have "\<not> running x p" using assms(4) by (simp add: running_def)
    then show ?case using jstep_final [OF step(2) reachable_eng_ok] step jobs_reachable.step by metis
  qed (use assms in simp)
  then show ?thesis by blast
qed

section \<open>Secrets\<close>

definition info_texts :: "ErrorInfo \<Rightarrow> string list" where
  "info_texts i = [Process i, NodeName i, eiRole i, XrayVersion i, PinnedKey i, ShownKey i, eiTarget i, eiReason i] @ Found i"

text \<open>Every text in a job that a job's function or its error can put there.\<close>

definition job_texts :: "Job \<Rightarrow> string list" where
  "job_texts v = map stDetail (jSteps v) @ [jError v] @ (case jErrorInfo v of None \<Rightarrow> [] | Some i \<Rightarrow> info_texts i)"

lemma in_job_texts:
  "t \<in> set (job_texts v) \<longleftrightarrow> t \<in> stDetail ` set (jSteps v) \<or> t = jError v \<or> (\<exists>i. jErrorInfo v = Some i \<and> t \<in> set (info_texts i))"
  by (auto simp: job_texts_def split: option.splits)

definition clean_text :: "string list \<Rightarrow> string \<Rightarrow> bool" where
  "clean_text ws t \<longleftrightarrow> (\<forall>w \<in> set ws. plain w \<longrightarrow> \<not> sublist w t)"

definition hides :: "string list \<Rightarrow> Engine \<Rightarrow> nat \<Rightarrow> bool" where
  "hides ws e p \<longleftrightarrow> p < length (heap e) \<and> (running e p \<longrightarrow> hide (heap e ! p) = Some ws) \<and> (\<forall>t \<in> set (job_texts (V e p)). clean_text ws t)"

lemma clean_Nil [simp]: "clean_text ws []"
  by (auto simp: clean_text_def plain_def)

lemma clean_job_text [simp]: "hide j = Some ws \<Longrightarrow> clean_text ws (job_text j t m)"
  by (simp add: clean_text_def job_text_def hide_and_clip_clean)

lemma clean_cleanInfo: "hide j = Some ws \<Longrightarrow> cleanInfo j info = Some i \<Longrightarrow> t \<in> set (info_texts i) \<Longrightarrow> clean_text ws t"
  by (auto simp: cleanInfo_def info_texts_def Let_def dest!: in_set_takeD split: option.splits if_splits)

lemma clean_finished_view:
  assumes "hide j = Some ws" "\<forall>t \<in> set (job_texts (view j)). clean_text ws t"
  shows "\<forall>t \<in> set (job_texts (finished_view c now err j)). clean_text ws t"
proof (cases err)
  case None
  then show ?thesis using assms(2) by (auto simp: finished_view_def in_job_texts close_step_def)
next
  case (Some x)
  have "\<forall>s \<in> set (jSteps (view j)). clean_text ws (stDetail s)" using assms(2) by (simp add: in_job_texts)
  then show ?thesis using Some assms(1) clean_cleanInfo [OF assms(1)]
    by (auto simp: finished_view_def in_job_texts close_step_def)
qed

lemma change_hides:
  assumes "eng_ok e" "q < length (heap e)" "\<And>j s. stName (f j s) = stName s" "hides ws e p"
    "\<And>j s. hide j = Some ws \<Longrightarrow> clean_text ws (stDetail s) \<Longrightarrow> clean_text ws (stDetail (f j s))"
  shows "hides ws (change q name f e) p"
proof (cases rule: change_cases [where f = f and name = name, OF assms(1-3), case_names same posted])
  case (posted ss)
  show ?thesis
  proof (cases "q = p")
    case False
    then show ?thesis using assms(2,4) posted(3) by (simp add: hides_def running_def)
  next
    case True
    have h: "hide (heap e ! p) = Some ws" and old: "\<forall>t \<in> set (job_texts (V e p)). clean_text ws t"
      using assms(4) posted(1) True by (auto simp: hides_def)
    then have steps: "\<forall>s \<in> set (jSteps (V e p)). clean_text ws (stDetail s)" by (simp add: in_job_texts)
    have "\<forall>s \<in> set ss. clean_text ws (stDetail s)"
      using posted(4) steps assms(5) [OF h] True unfolding fresh_step_def by (metis clean_Nil)
    then have "\<forall>t \<in> set (job_texts (view (with_steps (heap e ! p) ss))). clean_text ws t" using old by (auto simp: in_job_texts)
    then show ?thesis using posted True assms(2) h by (simp add: hides_def)
  qed
qed (use assms(4) in simp)

lemma finish_hides:
  assumes "eng_ok e" "q < length (heap e)" "running e q" "hides ws e p"
  shows "hides ws (finish q now err e) p"
proof (cases "q = p")
  case False
  then show ?thesis using assms by (simp add: finish_post hides_def running_def)
next
  case True
  then have "\<forall>t \<in> set (job_texts (finished_view (cfg e) now err (heap e ! p))). clean_text ws t"
    using assms(3,4) by (intro clean_finished_view) (simp_all add: hides_def)
  then show ?thesis using True assms(2) by (simp add: finish_post hides_def over_job_def running_def)
qed

lemma subs_update_same:
  "view (h[a := (h ! a)\<lparr>subs := c\<rparr>] ! p) = view (h ! p)" "hide (h[a := (h ! a)\<lparr>subs := c\<rparr>] ! p) = hide (h ! p)"
  by (cases "a = p"; cases "a < length h"; simp add: list_update_beyond)+

lemma jstep_hides: "jstep e e' \<Longrightarrow> eng_ok e \<Longrightarrow> hides ws e p \<Longrightarrow> hides ws e' p"
proof (induction rule: jstep.induct)
  case (start e now proposals has_fn spec)
  then show ?case by (cases rule: Start_cases [of now proposals has_fn spec e]) (simp_all add: hides_def less_Suc_eq)
next
  case (subscribe e now i)
  then show ?case
    by (cases "byID (prune now e) i") (auto simp: Subscribe_follow hides_def follow_def running_def subs_update_same)
next
  case (cancel ch e)
  then show ?case by (auto simp: unsubscribe_def hides_def running_def subs_update_same)
qed (auto simp: Begin_def Detail_def Done_def Fail_def SetStep_def run_def Get_def ListJobs_def Let_def receive_def CloseEngine_def
       hides_def [where e = "prune _ _"] finish_hides intro!: change_hides split: option.splits, simp_all add: hides_def running_def)

lemma plan_fresh: "s \<in> set (plan c names) \<Longrightarrow> stDetail s = []"
proof -
  have "\<forall>s \<in> set ss. stDetail s = [] \<Longrightarrow> \<forall>s \<in> set (foldl (\<lambda>ss n. snd (step_named (keyOf c) n ss)) ss names). stDetail s = []" for ss
  proof (induction names arbitrary: ss)
    case (Cons n names)
    have "\<forall>s \<in> set (snd (step_named (keyOf c) n ss)). stDetail s = []"
      using Cons.prems by (auto simp: step_named_def Let_def split: option.splits)
    then show ?case using Cons.IH by simp
  qed simp
  from this [of "[]"] show "s \<in> set (plan c names) \<Longrightarrow> stDetail s = []" by (simp add: plan_def)
qed

lemma admit_hides:
  assumes "newHider (Secrets spec) = Some ws"
  shows "hides ws (prune now (admit now i spec e)) (length (heap e))"
proof -
  have "t = []" if "t \<in> set (job_texts (V (admit now i spec e) (length (heap e))))" for t
    using that plan_fresh by (auto simp: in_job_texts) (auto simp: admit_def Let_def)
  then have "\<forall>t \<in> set (job_texts (V (admit now i spec e) (length (heap e)))). clean_text ws t" by (metis clean_Nil)
  moreover have "hide (heap (admit now i spec e) ! length (heap e)) = Some ws" using assms by (simp add: admit_def Let_def)
  ultimately show ?thesis by (simp add: hides_def)
qed


section \<open>A run\<close>

definition example_config :: Config where
  "example_config = \<lparr>Keep = 1, MaxAge = 100, StepKey = None, ErrorCode = None, ErrorInfoHook = None\<rparr>"

definition example_spec :: "nat \<Rightarrow> Spec" where
  "example_spec n = \<lparr>spKind = ''install'', spNodeID = n, spTarget = [], spSteps = [], Secrets = [''k7''], spInstall = None\<rparr>"

definition started :: "nat \<Rightarrow> string \<Rightarrow> Engine \<Rightarrow> Engine" where
  "started n i e = snd (Start 10 [i] True (example_spec n) e)"

definition failing :: goerr where
  "failing = \<lparr>errSays = Some ''bad k7'', internal = False\<rparr>"

text \<open>One job that is followed, fails with its password in the error, and is followed by another.\<close>

definition example_run :: Engine where
  "example_run = finish 0 20 (Some failing) (snd (Subscribe 15 ''aa'' (started 7 ''aa'' (New example_config))))"

lemma started_reachable: "jobs_reachable e \<Longrightarrow> jobs_reachable (started n i e)"
  unfolding started_def by (rule jobs_reachable.step [OF _ jstep.start])

lemma first_started: "jobs_reachable (started 7 ''aa'' (New example_config))"
  by (rule started_reachable [OF jobs_reachable.new])

lemma followed_steps:
  "jstep\<^sup>*\<^sup>* (started 7 ''aa'' (New example_config)) (snd (Subscribe 15 ''aa'' (started 7 ''aa'' (New example_config))))"
  by (intro r_into_rtranclp jstep.subscribe)

lemmas run_defs = started_def Start_def example_spec_def New_def newID_def Let_def prune_def running_def kinds_def forget_def
  example_config_def plan_def Subscribe_def finish_def publish_def finished_view_def

lemma example_steps: "jstep\<^sup>*\<^sup>* (started 7 ''aa'' (New example_config)) example_run"
proof -
  let ?e = "snd (Subscribe 15 ''aa'' (started 7 ''aa'' (New example_config)))"
  have "0 < length (heap ?e)" "running ?e 0" by (simp_all add: run_defs)
  then have "jstep ?e (run 0 20 (Returned (Some failing)) ?e)" by (rule jstep.over)
  then have "jstep ?e example_run" by (simp add: run_def example_run_def)
  then show ?thesis using followed_steps by (rule rtranclp.rtrancl_into_rtrancl [rotated])
qed

lemma reachable_run: "jstep\<^sup>*\<^sup>* e e' \<Longrightarrow> jobs_reachable e \<Longrightarrow> jobs_reachable e'"
  by (induction rule: rtranclp_induct) (auto intro: jobs_reachable.step)

lemma example_reachable: "jobs_reachable example_run"
  by (rule reachable_run [OF example_steps first_started])

lemma example_text: "hide_and_clip (newHider [''k7'']) ''bad k7'' MaxError = ''bad '' @ ellipsis"
  by code_simp

lemma example_job: "length (heap example_run) = 1" "\<not> running example_run 0" "length (chans example_run) = 1"
  "\<not> chStopped (chans example_run ! 0)" "order example_run = [0]" "finished (heap example_run ! 0) = 20" "MaxAge (cfg example_run) = 100"
  "jError (V example_run 0) = hide_and_clip (newHider [''k7'']) ''bad k7'' MaxError"
  by (simp_all add: example_run_def run_defs failing_def errText_def job_text_def)

theorem jobs_engine_sound_witness:
  "jobs_reachable example_run \<and> 0 < length (heap example_run) \<and> length (jSteps (V example_run 0)) \<le> MaxSteps"
  using jobs_engine_sound [OF example_reachable] example_reachable example_job(1) by simp

theorem prune_forgets_the_oldest_witness:
  "0 \<in> set (order example_run) \<and> 0 \<notin> set (order (prune 500 example_run)) \<and> \<not> running example_run 0"
proof -
  have "0 \<notin> set (order (prune 500 example_run))"
    using example_job by (simp add: prune_two Let_def too_old_def)
  then show ?thesis using prune_forgets_the_oldest [OF example_reachable, of 0 500] example_job by simp
qed

theorem followers_see_the_latest_state_witness:
  "0 < length (chans example_run) \<and> \<not> chStopped (chans example_run ! 0) \<and> chClosed (chans example_run ! 0)"
proof -
  have "chJob (chans example_run ! 0) = 0" by (simp add: example_run_def run_defs failing_def)
  then show ?thesis using followers_see_the_latest_state [OF example_reachable, of 0] example_job by (simp add: Let_def running_def)
qed

theorem finished_job_is_final_witness:
  "\<not> running example_run 0 \<and> V (Begin 0 ''late'' example_run) 0 = V example_run 0"
proof -
  have "jstep example_run (Begin 0 ''late'' example_run)" by (rule jstep.report_begin) (simp add: example_job)
  then show ?thesis using finished_job_is_final [OF r_into_rtranclp example_reachable, of "Begin 0 ''late'' example_run" 0] example_job
    by simp
qed


end
