(* ===== verification/Go_Maps.thy ===== *)
theory Go_Maps
  imports Prelude "HOL-Library.AList"
begin

text \<open>
  Go's maps as association lists with distinct keys. A missing key reads as the zero value of its
  type (\<open>get\<close>), \<open>m[k] = v\<close> is the library's \<open>AList.update\<close>, \<open>m[k] += v\<close> is \<open>bump\<close>, and
  \<open>delete(m, k)\<close> is \<open>AList.delete\<close>. The order of the list stands for the order an iteration over the
  map happens to take: what is proved of the callers holds for every order.
\<close>

definition get :: "('k \<times> 'v::zero) list \<Rightarrow> 'k \<Rightarrow> 'v" where
  "get m k = (case map_of m k of None \<Rightarrow> 0 | Some v \<Rightarrow> v)"

definition bump :: "'k \<Rightarrow> 'v::comm_monoid_add \<Rightarrow> ('k \<times> 'v) list \<Rightarrow> ('k \<times> 'v) list" where
  "bump k v m = AList.update k (get m k + v) m"

abbreviation keys :: "('k \<times> 'v) list \<Rightarrow> 'k list" where
  "keys m \<equiv> map fst m"

lemma get_Nil [simp]: "get [] k = 0"
  by (simp add: get_def)

lemma get_Cons: "get ((k', v) # m) k = (if k = k' then v else get m k)"
  by (simp add: get_def)

lemma get_update [simp]: "get (AList.update k v m) k' = (if k' = k then v else get m k')"
  by (simp add: get_def update_conv')

lemma get_delete [simp]: "get (AList.delete k m) k' = (if k' = k then 0 else get m k')"
  by (simp add: get_def delete_conv')

lemma get_bump [simp]: "get (bump k v m) k' = get m k' + (if k' = k then v else 0)"
  by (simp add: bump_def)

lemma get_out: "k \<notin> set (keys m) \<Longrightarrow> get m k = 0"
  by (simp add: get_def map_of_eq_None_iff [THEN iffD2])

lemma get_in: "distinct (keys m) \<Longrightarrow> (k, v) \<in> set m \<Longrightarrow> get m k = v"
  by (simp add: get_def)

lemma get_cong: "map_of m = map_of m' \<Longrightarrow> get m = get m'"
  by (rule ext) (simp add: get_def)

lemma map_of_filter_key: "map_of (filter (\<lambda>(k, v). P k) m) k = (if P k then map_of m k else None)"
  by (induction m) auto

lemma get_filter [simp]: "get (filter (\<lambda>(k, v). P k) m) k = (if P k then get m k else 0)"
  by (simp add: get_def map_of_filter_key)

lemma keys_update [simp]: "set (keys (AList.update k v m)) = insert k (set (keys m))"
  by (simp add: dom_update)

lemma update_elems: "set (AList.update k v m) \<subseteq> insert (k, v) (set m)"
  by (induction m) auto

lemma update_fresh: "k \<notin> set (keys m) \<Longrightarrow> AList.update k v m = m @ [(k, v)]"
  by (induction m) auto

lemma keys_bump [simp]: "set (keys (bump k v m)) = insert k (set (keys m))"
  by (simp add: bump_def dom_update)

lemma distinct_keys_update [simp]: "distinct (keys m) \<Longrightarrow> distinct (keys (AList.update k v m))"
  by (rule distinct_update)

lemma distinct_bump [simp]: "distinct (keys m) \<Longrightarrow> distinct (keys (bump k v m))"
  by (simp add: bump_def)

lemma distinct_filter_keys [simp]: "distinct (keys m) \<Longrightarrow> distinct (keys (filter P m))"
  by (induction m) (auto simp: image_iff)

lemma sum_list_get:
  fixes f :: "'k \<Rightarrow> 'v::zero \<Rightarrow> 'a::comm_monoid_add"
  assumes "distinct (keys m)"
  shows "(\<Sum>(k, v) \<leftarrow> m. f k v) = (\<Sum>k \<in> set (keys m). f k (get m k))"
  using assms
proof (induction m)
  case (Cons kv m)
  obtain k v where kv: "kv = (k, v)" by fastforce
  have "f x (get (kv # m) x) = f x (get m x)" if "x \<in> set (keys m)" for x
    using that Cons.prems kv by (auto simp: get_def)
  then have "(\<Sum>x \<in> set (keys m). f x (get (kv # m) x)) = (\<Sum>x \<in> set (keys m). f x (get m x))" by (rule sum.cong [OF refl])
  then show ?case using Cons kv by (simp add: get_def)
qed simp

text \<open>The sum over any finite set of keys that holds all of the map's.\<close>

lemma sum_list_get_superset:
  fixes f :: "'k \<Rightarrow> 'v::zero \<Rightarrow> 'a::comm_monoid_add"
  assumes "distinct (keys m)" "finite S" "set (keys m) \<subseteq> S" "\<And>k. f k 0 = 0"
  shows "(\<Sum>(k, v) \<leftarrow> m. f k v) = (\<Sum>k \<in> S. f k (get m k))"
proof -
  have "(\<Sum>k \<in> set (keys m). f k (get m k)) = (\<Sum>k \<in> S. f k (get m k))"
    by (rule sum.mono_neutral_left) (use assms get_out [of _ m] in auto)
  then show ?thesis using assms(1) by (simp add: sum_list_get)
qed

lemma sum_list_one_key:
  fixes m :: "('k \<times> 'v::comm_monoid_add) list"
  assumes "distinct (keys m)"
  shows "(\<Sum>(k, v) \<leftarrow> m. if k = i then v else 0) = get m i"
  using assms by (induction m) (auto simp: get_Cons get_out)

text \<open>Adding up with \<open>+=\<close>: the order of the additions does not matter.\<close>

lemma get_fold_bump: "get (fold (\<lambda>(k, v). bump k v) xs m) i = get m i + (\<Sum>(k, v) \<leftarrow> xs. if k = i then v else 0)"
  by (induction xs arbitrary: m) (auto simp: add.assoc)

lemma distinct_fold_bump: "distinct (keys m) \<Longrightarrow> distinct (keys (fold (\<lambda>(k, v). bump k v) xs m))"
  by (induction xs arbitrary: m) auto

end
