(* ===== verification/Usage_History.thy ===== *)
theory Usage_History
  imports Go_Maps
begin

text \<open>
  What is kept of a remote node's traffic, \<open>internal/remotenodes/usage/history.go\<close>, and the sums the
  page reads (\<open>window\<close> and \<open>sums\<close> of \<open>read.go\<close>). Byte counts are 64-bit words and addition
  saturates. \<open>Totals\<close> is an instance of
  \<open>comm_monoid_add\<close>, so that the sums over days, subscriptions and buckets are the library's.
\<close>

section \<open>Byte counts\<close>

datatype Totals = Totals (Up: u64) (Down: u64)

definition sat :: "u64 \<Rightarrow> u64 \<Rightarrow> u64" where
  "sat a b = (if a + b \<ge> a then a + b else - 1)"

lemma u64_bound: "unat (a :: u64) < 2 ^ 64"
  by (rule order_less_le_trans [OF unsigned_less]) simp

lemma unat_sat: "unat (sat a b) = min (unat a + unat b) (2 ^ 64 - 1)"
proof -
  have u: "unat (- 1 :: u64) = 2 ^ 64 - 1" by (simp add: unsigned_minus_1_eq_mask mask_eq_exp_minus_1)
  have l: "unat a < 2 ^ 64" "unat b < 2 ^ 64" by (rule u64_bound)+
  show ?thesis
  proof (cases "unat a + unat b < 2 ^ 64")
    case True
    then have s: "unat (a + b) = unat a + unat b" by (simp add: unat_word_ariths(1))
    then have "a + b \<ge> a" by (simp add: word_le_nat_alt)
    with s True show ?thesis by (simp add: sat_def)
  next
    case False
    then have "unat (a + b) = unat a + unat b - 2 ^ 64"
      using l by (simp add: unat_word_ariths(1) mod_if le_mod_geq)
    then have "\<not> a + b \<ge> a" using l False by (simp add: word_le_nat_alt)
    with False u show ?thesis by (simp add: sat_def)
  qed
qed

lemma sat_simps [simp]: "sat 0 b = b" "sat a 0 = a"
  by (simp_all add: sat_def)

lemma sat_comm: "sat a b = sat b a"
  by (rule word_unat_eq_iff [THEN iffD2]) (simp add: unat_sat add.commute)

lemma sat_assoc: "sat (sat a b) c = sat a (sat b c)"
  by (rule word_unat_eq_iff [THEN iffD2]) (simp add: unat_sat)

lemma sat_ge: "a \<le> sat a b"
  using u64_bound [of a] by (simp add: word_le_nat_alt unat_sat)

instantiation Totals :: comm_monoid_add
begin

definition zero_Totals :: Totals where
  "zero_Totals = Totals 0 0"

definition plus_Totals :: "Totals \<Rightarrow> Totals \<Rightarrow> Totals" where
  "plus_Totals t o' = Totals (sat (Up t) (Up o')) (sat (Down t) (Down o'))"

instance
proof
  fix a b c :: Totals
  show "a + b + c = a + (b + c)" by (simp add: plus_Totals_def sat_assoc)
  show "a + b = b + a" by (simp add: plus_Totals_def sat_comm)
  show "0 + a = a" by (cases a) (simp add: plus_Totals_def zero_Totals_def)
qed

end

definition isZero :: "Totals \<Rightarrow> bool" where
  "isZero t \<longleftrightarrow> t = 0"

definition at_least :: "Totals \<Rightarrow> Totals \<Rightarrow> bool" where
  "at_least a b \<longleftrightarrow> Up b \<le> Up a \<and> Down b \<le> Down a"

lemma at_least_plus [simp]: "at_least (a + b) a" "at_least (a + b) b"
  using sat_ge sat_comm by (metis at_least_def plus_Totals_def Totals.sel)+

lemma at_least_refl [simp]: "at_least a a"
  by (simp add: at_least_def)

lemma at_least_trans: "at_least a b \<Longrightarrow> at_least b c \<Longrightarrow> at_least a c"
  by (auto simp: at_least_def)

section \<open>Days\<close>

definition secondsPerDay :: int where "secondsPerDay = 24 * 60 * 60"
definition monthDays :: int where "monthDays = 30"
definition keepDays :: int where "keepDays = 31"

definition dayOf :: "int \<Rightarrow> int" where
  "dayOf unix = (let d = go_quot unix secondsPerDay in if go_rem unix secondsPerDay < 0 then d - 1 else d)"

lemma dayOf_floor: "dayOf unix = unix div secondsPerDay"
proof (cases "0 \<le> unix")
  case True
  then show ?thesis by (simp add: dayOf_def go_quot_def go_rem_def secondsPerDay_def Let_def)
next
  case False
  have r: "go_rem unix secondsPerDay = - ((- unix) mod secondsPerDay)"
    using False by (simp add: go_rem_def go_quot_def minus_mult_div_eq_mod [symmetric])
  have "unix div secondsPerDay = (if (- unix) mod secondsPerDay = 0 then - ((- unix) div secondsPerDay) else - ((- unix) div secondsPerDay) - 1)"
    using zdiv_zminus1_eq_if [of secondsPerDay "- unix"] by (simp add: secondsPerDay_def)
  moreover have "0 \<le> (- unix) mod secondsPerDay" by (simp add: secondsPerDay_def)
  ultimately show ?thesis using False by (auto simp: dayOf_def Let_def r go_quot_def)
qed

section \<open>Buckets\<close>

record bucket =
  bSubs :: "(nat \<times> Totals) list"
  bBridge :: Totals

definition bucket_node :: "bucket \<Rightarrow> Totals" where
  "bucket_node b = (\<Sum>(i, t) \<leftarrow> bSubs b. t)"

record nodeHist =
  days :: "(int \<times> Totals) list"
  hSubs :: "(nat \<times> (int \<times> Totals) list) list"
  hBridge :: Totals
  life :: "(nat \<times> Totals) list"
  through :: int

definition newNodeHist :: nodeHist where
  "newNodeHist = \<lparr>days = [], hSubs = [], hBridge = 0, life = [], through = 0\<rparr>"

definition series :: "nodeHist \<Rightarrow> nat \<Rightarrow> (int \<times> Totals) list" where
  "series h i = (case map_of (hSubs h) i of None \<Rightarrow> [] | Some m \<Rightarrow> m)"

definition add_sub :: "int \<Rightarrow> nat \<times> Totals \<Rightarrow> nodeHist \<Rightarrow> nodeHist" where
  "add_sub d it h = (case it of (i, t) \<Rightarrow>
     if isZero t then h
     else h\<lparr>hSubs := AList.update i (bump d t (series h i)) (hSubs h), life := bump i t (life h)\<rparr>)"

definition hist_add :: "int \<Rightarrow> bucket \<Rightarrow> nodeHist \<Rightarrow> nodeHist" where
  "hist_add ts b h =
     (let d = dayOf ts;
          n = bucket_node b;
          h = (if \<not> isZero n then h\<lparr>days := bump d n (days h)\<rparr> else h);
          h = fold (add_sub d) (bSubs b) h
      in h\<lparr>hBridge := hBridge h + bBridge b\<rparr>)"

definition hist_prune :: "int \<Rightarrow> nodeHist \<Rightarrow> nodeHist" where
  "hist_prune keepFrom h =
     h\<lparr>days := filter (\<lambda>(d, t). \<not> d < keepFrom) (days h),
       hSubs := filter (\<lambda>(i, m). m \<noteq> []) (map (\<lambda>(i, m). (i, filter (\<lambda>(d, t). \<not> d < keepFrom) m)) (hSubs h))\<rparr>"

definition hist_empty :: "nodeHist \<Rightarrow> bool" where
  "hist_empty h \<longleftrightarrow> days h = [] \<and> hSubs h = [] \<and> life h = [] \<and> isZero (hBridge h) \<and> through h = 0"

definition span :: "(int \<times> Totals) list \<Rightarrow> int \<Rightarrow> int \<Rightarrow> Totals" where
  "span m from to = (\<Sum>(d, v) \<leftarrow> m. if d \<ge> from \<and> d \<le> to then v else 0)"

section \<open>What a history holds\<close>

definition hist_ok :: "nodeHist \<Rightarrow> bool" where
  "hist_ok h \<longleftrightarrow> distinct (keys (days h)) \<and> distinct (keys (hSubs h)) \<and> (\<forall>(i, m) \<in> set (hSubs h). distinct (keys m)) \<and> distinct (keys (life h))"

lemma hist_ok_new [simp]: "hist_ok newNodeHist"
  by (simp add: hist_ok_def newNodeHist_def)

lemma hist_ok_series: "hist_ok h \<Longrightarrow> distinct (keys (series h i))"
  by (auto simp: hist_ok_def series_def split: option.splits dest: map_of_SomeD)

lemma hist_ok_add_sub: "hist_ok h \<Longrightarrow> hist_ok (add_sub d it h)"
proof -
  assume h: "hist_ok h"
  then have "distinct (keys (series h (fst it)))" by (rule hist_ok_series)
  then show ?thesis using h update_elems by (fastforce simp: hist_ok_def add_sub_def split: prod.splits)
qed

lemma hist_ok_fold: "hist_ok h \<Longrightarrow> hist_ok (fold (add_sub d) its h)"
  by (induction its arbitrary: h) (simp_all add: hist_ok_add_sub)

lemma hist_ok_add: "hist_ok h \<Longrightarrow> hist_ok (hist_add ts b h)"
proof -
  assume h: "hist_ok h"
  let ?h = "if \<not> isZero (bucket_node b) then h\<lparr>days := bump (dayOf ts) (bucket_node b) (days h)\<rparr> else h"
  have "hist_ok ?h" using h by (simp add: hist_ok_def)
  then have "hist_ok (fold (add_sub (dayOf ts)) (bSubs b) ?h)" by (rule hist_ok_fold)
  then show ?thesis by (simp add: hist_add_def Let_def hist_ok_def)
qed

lemma hist_ok_prune: "hist_ok h \<Longrightarrow> hist_ok (hist_prune k h)"
  by (auto simp: hist_ok_def hist_prune_def comp_def case_prod_beta distinct_filter_keys)

lemma isZero_iff [simp]: "isZero t \<longleftrightarrow> t = 0"
  by (simp add: isZero_def)

lemma fold_add_sub_frame [simp]:
  "days (fold (add_sub d) its h) = days h" "hBridge (fold (add_sub d) its h) = hBridge h" "through (fold (add_sub d) its h) = through h"
  by (induction its arbitrary: h) (auto simp: add_sub_def split: prod.splits)

lemma fold_add_sub_life: "get (life (fold (add_sub d) its h)) i = get (life h) i + (\<Sum>(k, t) \<leftarrow> its. if k = i then t else 0)"
  by (induction its arbitrary: h) (auto simp: add_sub_def add.assoc split: prod.splits)

lemma series_update: "series (h\<lparr>hSubs := AList.update i m (hSubs h), life := l\<rparr>) j = (if j = i then m else series h j)"
  by (simp add: series_def update_conv')

lemma fold_add_sub_series:
  "get (series (fold (add_sub d) its h) i) d' = get (series h i) d' + (if d' = d then \<Sum>(k, t) \<leftarrow> its. if k = i then t else 0 else 0)"
proof (induction its arbitrary: h)
  case (Cons it its)
  obtain k t where it: "it = (k, t)" by fastforce
  have "get (series (add_sub d it h) i) d' = get (series h i) d' + (if d' = d \<and> k = i then t else 0)"
    by (simp add: it add_sub_def series_update)
  then show ?case using Cons.IH [of "add_sub d it h"] it by (auto simp: add.assoc)
qed simp

lemma series_cong: "hSubs h = hSubs h' \<Longrightarrow> series h = series h'"
  by (rule ext) (simp add: series_def)

lemma hist_add_get:
  assumes "distinct (keys (bSubs b))"
  shows "get (life (hist_add ts b h)) i = get (life h) i + get (bSubs b) i"
    "get (series (hist_add ts b h) i) d = get (series h i) d + (if d = dayOf ts then get (bSubs b) i else 0)"
    "get (days (hist_add ts b h)) d = get (days h) d + (if d = dayOf ts then bucket_node b else 0)"
    "hBridge (hist_add ts b h) = hBridge h + bBridge b" "through (hist_add ts b h) = through h"
proof -
  let ?h = "if \<not> isZero (bucket_node b) then h\<lparr>days := bump (dayOf ts) (bucket_node b) (days h)\<rparr> else h"
  have h: "life ?h = life h" "series ?h = series h" "hBridge ?h = hBridge h" "through ?h = through h" by (simp_all add: series_def [abs_def])
  have a: "hist_add ts b h = (let h' = fold (add_sub (dayOf ts)) (bSubs b) ?h in h'\<lparr>hBridge := hBridge h' + bBridge b\<rparr>)"
    by (simp add: hist_add_def Let_def)
  then have s: "series (hist_add ts b h) = series (fold (add_sub (dayOf ts)) (bSubs b) ?h)" by (simp add: Let_def series_def [abs_def])
  show "get (life (hist_add ts b h)) i = get (life h) i + get (bSubs b) i"
    using fold_add_sub_life [of _ _ ?h] assms h by (simp add: a Let_def sum_list_one_key del: isZero_iff)
  show "get (series (hist_add ts b h) i) d = get (series h i) d + (if d = dayOf ts then get (bSubs b) i else 0)"
    using fold_add_sub_series [of _ _ ?h] assms h by (simp add: s sum_list_one_key del: isZero_iff)
qed (simp_all add: hist_add_def Let_def)

lemma map_of_drop_empty: "distinct (keys m) \<Longrightarrow> map_of (filter (\<lambda>(i, s). s \<noteq> []) m) i = (case map_of m i of None \<Rightarrow> None | Some s \<Rightarrow> if s = [] then None else Some s)"
  by (induction m) (auto split: option.splits dest: map_of_SomeD simp: image_iff map_of_eq_None_iff)

lemma series_prune: "hist_ok h \<Longrightarrow> series (hist_prune k h) i = filter (\<lambda>(d, t). \<not> d < k) (series h i)"
  by (auto simp: series_def hist_prune_def map_of_drop_empty map_of_map comp_def case_prod_beta hist_ok_def split: option.splits)

lemma hist_prune_get:
  assumes "hist_ok h"
  shows "life (hist_prune k h) = life h" "hBridge (hist_prune k h) = hBridge h" "through (hist_prune k h) = through h"
    "get (series (hist_prune k h) i) d = (if d < k then 0 else get (series h i) d)"
    "get (days (hist_prune k h)) d = (if d < k then 0 else get (days h) d)"
  using assms get_filter [of "\<lambda>d. \<not> d < k"] by (simp_all add: series_prune) (simp_all add: hist_prune_def)

section \<open>The page's sums\<close>

lemma span_days: "distinct (keys m) \<Longrightarrow> span m from to = (\<Sum>d \<in> {from..to}. get m d)"
proof -
  assume d: "distinct (keys m)"
  let ?f = "\<lambda>d v. if d \<ge> from \<and> d \<le> to then v else 0"
  have "span m from to = (\<Sum>d \<in> set (keys m) \<union> {from..to}. ?f d (get m d))"
    unfolding span_def using d by (intro sum_list_get_superset) auto
  also have "\<dots> = (\<Sum>d \<in> {from..to}. ?f d (get m d))" by (rule sum.mono_neutral_right) auto
  finally show ?thesis by simp
qed

record partial =
  pTs :: int
  pB :: bucket
  pNode :: Totals

definition window :: "int \<Rightarrow> int \<times> int" where
  "window now = (dayOf now, dayOf now - (monthDays - 1))"

definition sums :: "(int \<times> Totals) list \<Rightarrow> partial option \<Rightarrow> Totals \<Rightarrow> int \<Rightarrow> int \<Rightarrow> Totals \<times> Totals" where
  "sums ser p share today from =
     (let t = get ser today; m = span ser from today in
      case p of None \<Rightarrow> (t, m)
      | Some p \<Rightarrow> let d = dayOf (pTs p) in (if d = today then t + share else t, if d \<ge> from \<and> d \<le> today then m + share else m))"

datatype hist_op = AddOp int bucket | PruneOp int

fun run_op :: "hist_op \<Rightarrow> nodeHist \<Rightarrow> nodeHist" where
  "run_op (AddOp ts b) h = hist_add ts b h"
| "run_op (PruneOp k) h = hist_prune k h"

definition counted :: "(bucket \<Rightarrow> Totals) \<Rightarrow> (int \<Rightarrow> bool) \<Rightarrow> hist_op list \<Rightarrow> Totals" where
  "counted f P ops = (\<Sum>p \<leftarrow> ops. case p of AddOp ts b \<Rightarrow> if P (dayOf ts) then f b else 0 | PruneOp k \<Rightarrow> 0)"

definition op_ok :: "int \<Rightarrow> hist_op \<Rightarrow> bool" where
  "op_ok from p \<longleftrightarrow> (case p of AddOp ts b \<Rightarrow> distinct (keys (bSubs b)) | PruneOp k \<Rightarrow> k \<le> from)"

lemma counted_simps [simp]: "counted f P [] = 0"
  "counted f P (ops @ [p]) = counted f P ops + (case p of AddOp ts b \<Rightarrow> if P (dayOf ts) then f b else 0 | PruneOp k \<Rightarrow> 0)"
  by (simp_all add: counted_def)

lemma counted_sum: "finite S \<Longrightarrow> (\<Sum>d \<in> S. counted f (\<lambda>x. x = d) ops) = counted f (\<lambda>x. x \<in> S) ops"
proof (induction ops rule: rev_induct)
  case (snoc p ops)
  then show ?case by (cases p) (auto simp: sum.distrib)
qed simp

lemma run_get:
  assumes "\<forall>p \<in> set ops. op_ok from p" "from \<le> d"
  shows "hist_ok (fold run_op ops newNodeHist)
    \<and> get (life (fold run_op ops newNodeHist)) i = counted (\<lambda>b. get (bSubs b) i) (\<lambda>x. True) ops
    \<and> get (series (fold run_op ops newNodeHist) i) d = counted (\<lambda>b. get (bSubs b) i) (\<lambda>x. x = d) ops
    \<and> get (days (fold run_op ops newNodeHist)) d = counted bucket_node (\<lambda>x. x = d) ops
    \<and> hBridge (fold run_op ops newNodeHist) = counted bBridge (\<lambda>x. True) ops"
  using assms(1)
proof (induction ops rule: rev_induct)
  case Nil
  then show ?case by (simp add: newNodeHist_def series_def hist_ok_def)
next
  case (snoc p ops)
  then have p: "op_ok from p" by simp
  let ?h = "fold run_op ops newNodeHist"
  from snoc have IH: "hist_ok ?h" "get (life ?h) i = counted (\<lambda>b. get (bSubs b) i) (\<lambda>x. True) ops"
    "get (series ?h i) d = counted (\<lambda>b. get (bSubs b) i) (\<lambda>x. x = d) ops"
    "get (days ?h) d = counted bucket_node (\<lambda>x. x = d) ops" "hBridge ?h = counted bBridge (\<lambda>x. True) ops" by auto
  show ?case
  proof (cases p)
    case (AddOp ts b)
    then have "distinct (keys (bSubs b))" using p by (simp add: op_ok_def)
    then show ?thesis using IH AddOp by (auto simp: hist_add_get hist_ok_add)
  next
    case (PruneOp k)
    then have "\<not> d < k" using p assms(2) by (simp add: op_ok_def)
    then show ?thesis using IH PruneOp by (simp add: hist_prune_get hist_ok_prune)
  qed
qed

text \<open>
  What the page shows of a node is exact. However many buckets were counted and days pruned, in
  whatever order, as long as no day from \<open>from\<close> on was pruned: a subscription's total over any days
  of that window is the sum of its bytes in the buckets whose timestamps fall in them, the node's
  total is the sum of everyone's, and the lifetime total a traffic limit is measured against and
  the bridge's total are the sums over every bucket that was ever counted, pruned days included.
\<close>

theorem usage_history_is_exact:
  assumes "\<forall>p \<in> set ops. op_ok from p" "from \<le> lo"
  shows "span (series (fold run_op ops newNodeHist) i) lo hi = counted (\<lambda>b. get (bSubs b) i) (\<lambda>d. lo \<le> d \<and> d \<le> hi) ops
    \<and> span (days (fold run_op ops newNodeHist)) lo hi = counted bucket_node (\<lambda>d. lo \<le> d \<and> d \<le> hi) ops
    \<and> get (life (fold run_op ops newNodeHist)) i = counted (\<lambda>b. get (bSubs b) i) (\<lambda>d. True) ops
    \<and> hBridge (fold run_op ops newNodeHist) = counted bBridge (\<lambda>d. True) ops"
proof -
  let ?h = "fold run_op ops newNodeHist"
  have g: "hist_ok ?h" "get (life ?h) i = counted (\<lambda>b. get (bSubs b) i) (\<lambda>x. True) ops" "hBridge ?h = counted bBridge (\<lambda>x. True) ops"
    using run_get [OF assms] by auto
  have "from \<le> d" if "d \<in> {lo..hi}" for d using that assms(2) by simp
  then have s: "(\<Sum>d \<in> {lo..hi}. get (series ?h i) d) = (\<Sum>d \<in> {lo..hi}. counted (\<lambda>b. get (bSubs b) i) (\<lambda>x. x = d) ops)"
    "(\<Sum>d \<in> {lo..hi}. get (days ?h) d) = (\<Sum>d \<in> {lo..hi}. counted bucket_node (\<lambda>x. x = d) ops)"
    using run_get [OF assms(1)] by (auto intro!: sum.cong)
  have "distinct (keys (series ?h i))" "distinct (keys (days ?h))" using g(1) hist_ok_series by (auto simp: hist_ok_def)
  then show ?thesis using g s by (simp add: span_days counted_sum)
qed

theorem usage_history_is_exact_witness:
  "span (series (fold run_op [AddOp 100 \<lparr>bSubs = [(1, Totals 5 7)], bBridge = 0\<rparr>, PruneOp 0,
     AddOp 90000 \<lparr>bSubs = [(1, Totals 1 1), (2, Totals 9 9)], bBridge = 0\<rparr>] newNodeHist) 1) 0 1 = Totals 6 8"
proof -
  have "\<forall>p \<in> set [AddOp 100 \<lparr>bSubs = [(1, Totals 5 7)], bBridge = 0\<rparr>, PruneOp 0,
     AddOp 90000 \<lparr>bSubs = [(1, Totals 1 1), (2, Totals 9 9)], bBridge = 0\<rparr>]. op_ok 0 p"
    by (simp add: op_ok_def)
  from usage_history_is_exact [OF this, of 0 1 1] show ?thesis
    by (simp add: counted_def dayOf_floor secondsPerDay_def get_Cons plus_Totals_def zero_Totals_def sat_def)
qed

end
