(* ===== verification/Usage_File.thy ===== *)
theory Usage_File
  imports Usage_History
begin

text \<open>
  The history's file, \<open>internal/remotenodes/usage/file.go\<close>, at the level of the document that is
  marshalled. The name of a day is symbolic: \<open>DayName d\<close> is what \<open>time.Format\<close> writes for day \<open>d\<close>, and
  it parses back exactly when the year has four digits; \<open>OtherName\<close> is a key of a file that is no
  day. Go's encoder sorts the keys of a map, so the days of a series are a sorted list.
\<close>

datatype dayName = DayName int | OtherName string

definition day_String :: "int \<Rightarrow> dayName" where
  "day_String d = DayName d"

text \<open>The days of the years 0000 to 9999.\<close>

definition four_digit_year :: "int \<Rightarrow> bool" where
  "four_digit_year d \<longleftrightarrow> - 719528 \<le> d \<and> d \<le> 2932896"

fun parseDay :: "dayName \<Rightarrow> int option" where
  "parseDay (DayName d) = (if four_digit_year d then Some d else None)"
| "parseDay (OtherName s) = None"

record fileTotal =
  ftID :: nat
  ftTotal :: Totals

record fileSub =
  fsID :: nat
  fsDays :: "(dayName \<times> Totals) list"
  fsTotal :: "Totals option"

record fileNode =
  fnID :: nat
  AckedThrough :: int
  fnBridge :: Totals
  fnDays :: "(dayName \<times> Totals) list"
  Subscriptions :: "fileSub list"

record fileDoc =
  Version :: int
  fdNodes :: "fileNode list"
  fdRetired :: "fileTotal list"

definition SchemaVersion :: int where "SchemaVersion = 1"

section \<open>Writing\<close>

definition dayStrings :: "(int \<times> Totals) list \<Rightarrow> (dayName \<times> Totals) list" where
  "dayStrings m = map (\<lambda>(d, t). (day_String d, t)) (sort_key fst m)"

definition encode_sub :: "nodeHist \<Rightarrow> nat \<Rightarrow> fileSub" where
  "encode_sub h sid = \<lparr>fsID = sid, fsDays = dayStrings (series h sid), fsTotal = Some (get (life h) sid)\<rparr>"

definition encode_node :: "nat \<times> nodeHist \<Rightarrow> fileNode" where
  "encode_node n = (case n of (i, h) \<Rightarrow>
     \<lparr>fnID = i, AckedThrough = through h, fnBridge = hBridge h, fnDays = dayStrings (days h),
      Subscriptions = sort_key fsID (map (encode_sub h) (remdups (keys (hSubs h) @ keys (life h))))\<rparr>)"

definition encodeDoc :: "(nat \<times> nodeHist) list \<Rightarrow> (nat \<times> Totals) list \<Rightarrow> fileDoc" where
  "encodeDoc nodes retired =
     \<lparr>Version = SchemaVersion,
      fdNodes = sort_key fnID (map encode_node (filter (\<lambda>(i, h). \<not> hist_empty h) nodes)),
      fdRetired = sort_key ftID (map (\<lambda>(i, t). \<lparr>ftID = i, ftTotal = t\<rparr>) (filter (\<lambda>(i, t). \<not> isZero t) retired))\<rparr>"

section \<open>Reading\<close>

datatype decode_error =
    Unreadable
  | Newer int
  | NoVersion
  | BadNodeID nat
  | NegativeMark nat
  | BadDay nat
  | BadSubID nat nat
  | BadSubDay nat nat
  | RetiredNoID

fun parseDays :: "(dayName \<times> Totals) list \<Rightarrow> (int \<times> Totals) list \<Rightarrow> (int \<times> Totals) list option" where
  "parseDays [] out = Some out"
| "parseDays ((s, t) # rest) out = (case parseDay s of None \<Rightarrow> None | Some d \<Rightarrow> parseDays rest (AList.update d t out))"

definition whole :: "(int \<times> Totals) list \<Rightarrow> Totals" where
  "whole ser = span ser int64_min int64_max"

fun decode_subs :: "nat \<Rightarrow> fileSub list \<Rightarrow> nat list \<Rightarrow> nodeHist \<Rightarrow> decode_error + nodeHist" where
  "decode_subs node [] seen h = Inr h"
| "decode_subs node (sub # rest) seen h =
     (if fsID sub = 0 \<or> fsID sub \<in> set seen then Inl (BadSubID node (fsID sub))
      else case parseDays (fsDays sub) [] of
        None \<Rightarrow> Inl (BadSubDay node (fsID sub))
      | Some ser \<Rightarrow>
          let h = (if length ser > 0 then h\<lparr>hSubs := AList.update (fsID sub) ser (hSubs h)\<rparr> else h);
              h = (case fsTotal sub of
                     Some t \<Rightarrow> h\<lparr>life := AList.update (fsID sub) t (life h)\<rparr>
                   | None \<Rightarrow> if length ser > 0 then h\<lparr>life := AList.update (fsID sub) (whole ser) (life h)\<rparr> else h)
          in decode_subs node rest (fsID sub # seen) h)"

fun decode_nodes :: "fileNode list \<Rightarrow> (nat \<times> nodeHist) list \<Rightarrow> decode_error + (nat \<times> nodeHist) list" where
  "decode_nodes [] out = Inr out"
| "decode_nodes (fn # rest) out =
     (if fnID fn = 0 \<or> fnID fn \<in> set (keys out) then Inl (BadNodeID (fnID fn))
      else if AckedThrough fn < 0 then Inl (NegativeMark (fnID fn))
      else case parseDays (fnDays fn) [] of
        None \<Rightarrow> Inl (BadDay (fnID fn))
      | Some ds \<Rightarrow>
          (case decode_subs (fnID fn) (Subscriptions fn) []
             (newNodeHist\<lparr>through := AckedThrough fn, hBridge := fnBridge fn, days := ds\<rparr>) of
             Inl e \<Rightarrow> Inl e
           | Inr h \<Rightarrow> decode_nodes rest (AList.update (fnID fn) h out)))"

fun decode_retired :: "fileTotal list \<Rightarrow> (nat \<times> Totals) list \<Rightarrow> decode_error + (nat \<times> Totals) list" where
  "decode_retired [] out = Inr out"
| "decode_retired (r # rest) out = (if ftID r = 0 then Inl RetiredNoID else decode_retired rest (bump (ftID r) (ftTotal r) out))"

text \<open>\<open>None\<close> is a file that does not unmarshal.\<close>

definition decodeDoc :: "fileDoc option \<Rightarrow> decode_error + ((nat \<times> nodeHist) list \<times> (nat \<times> Totals) list)" where
  "decodeDoc b =
     (case b of
        None \<Rightarrow> Inl Unreadable
      | Some doc \<Rightarrow>
          if Version doc > SchemaVersion then Inl (Newer (Version doc))
          else if Version doc < 1 then Inl NoVersion
          else (case decode_nodes (fdNodes doc) [] of
                  Inl e \<Rightarrow> Inl e
                | Inr out \<Rightarrow> (case decode_retired (fdRetired doc) [] of Inl e \<Rightarrow> Inl e | Inr retired \<Rightarrow> Inr (out, retired))))"

section \<open>Round trip\<close>

definition hist_same :: "nodeHist \<Rightarrow> nodeHist \<Rightarrow> bool" where
  "hist_same h h' \<longleftrightarrow> get (days h) = get (days h') \<and> (\<forall>i. get (series h i) = get (series h' i))
     \<and> get (life h) = get (life h') \<and> hBridge h = hBridge h' \<and> through h = through h'"

definition hist_at :: "(nat \<times> nodeHist) list \<Rightarrow> nat \<Rightarrow> nodeHist" where
  "hist_at nodes i = (case map_of nodes i of None \<Rightarrow> newNodeHist | Some h \<Rightarrow> h)"

definition hist_storable :: "nodeHist \<Rightarrow> bool" where
  "hist_storable h \<longleftrightarrow> hist_ok h \<and> 0 \<le> through h \<and> 0 \<notin> set (keys (hSubs h)) \<and> 0 \<notin> set (keys (life h))
     \<and> (\<forall>d \<in> set (keys (days h)). four_digit_year d) \<and> (\<forall>(i, m) \<in> set (hSubs h). \<forall>d \<in> set (keys m). four_digit_year d)"

lemma sort_fst_keys [simp]: "set (keys (sort_key fst m)) = set (keys m)" "distinct (keys m) \<Longrightarrow> distinct (keys (sort_key fst m))"
  by (simp_all add: distinct_map)

lemma map_of_sort: "distinct (keys m) \<Longrightarrow> map_of (sort_key fst m) = map_of m"
  by (rule map_of_inject_set [THEN iffD2]) (simp_all add: distinct_map)

lemma parseDays_names:
  "\<forall>d \<in> set (keys m). four_digit_year d \<Longrightarrow> parseDays (map (\<lambda>(d, t). (day_String d, t)) m) out = Some (fold (\<lambda>(d, t). AList.update d t) m out)"
  by (induction m arbitrary: out) (auto simp: day_String_def)

lemma fold_update_new: "distinct (keys m) \<Longrightarrow> set (keys m) \<inter> set (keys out) = {} \<Longrightarrow> fold (\<lambda>(d, t). AList.update d t) m out = out @ m"
proof (induction m arbitrary: out)
  case (Cons kv m)
  obtain k v where kv: "kv = (k, v)" by fastforce
  have "AList.update k v out = out @ [(k, v)]" using Cons.prems kv by (intro update_fresh) auto
  moreover have "set (keys m) \<inter> set (keys (out @ [(k, v)])) = {}" using Cons.prems kv by auto
  ultimately show ?case using Cons kv by simp
qed simp

lemma parseDays_dayStrings:
  assumes "distinct (keys m)" "\<forall>d \<in> set (keys m). four_digit_year d"
  shows "parseDays (dayStrings m) [] = Some (sort_key fst m)"
  using assms parseDays_names [of "sort_key fst m" "[]"] fold_update_new [of "sort_key fst m" "[]"] by (simp add: dayStrings_def del: set_map)

lemma sort_key_map: "sort_key f (map g xs) = map g (sort_key (\<lambda>x. f (g x)) xs)"
proof -
  have "insort_key f (g x) (map g ys) = map g (insort_key (\<lambda>x. f (g x)) x ys)" for x ys by (induction ys) auto
  then show ?thesis by (induction xs) simp_all
qed

lemma series_storable:
  assumes "hist_storable h"
  shows "distinct (keys (series h i)) \<and> (\<forall>d \<in> set (keys (series h i)). four_digit_year d)"
  using assms hist_ok_series [of h i] by (fastforce simp: hist_storable_def series_def split: option.splits dest: map_of_SomeD)

lemma decode_encode_subs:
  assumes h: "hist_storable h" and ids: "distinct ids" "0 \<notin> set ids" "set ids \<inter> set seen = {}"
  shows "\<exists>g'. decode_subs n (map (encode_sub h) ids) seen g = Inr g'
    \<and> through g' = through g \<and> hBridge g' = hBridge g \<and> days g' = days g
    \<and> (\<forall>i. series g' i = (if i \<in> set ids \<and> series h i \<noteq> [] then sort_key fst (series h i) else series g i))
    \<and> (\<forall>i. get (life g') i = (if i \<in> set ids then get (life h) i else get (life g) i))"
  using ids
proof (induction ids arbitrary: seen g)
  case Nil
  then show ?case by simp
next
  case (Cons j ids)
  let ?ser = "sort_key fst (series h j)"
  let ?g = "if series h j \<noteq> [] then g\<lparr>hSubs := AList.update j ?ser (hSubs g)\<rparr> else g"
  let ?g' = "?g\<lparr>life := AList.update j (get (life h) j) (life ?g)\<rparr>"
  have p: "parseDays (dayStrings (series h j)) [] = Some ?ser" using series_storable [OF h, of j] by (intro parseDays_dayStrings) auto
  have "decode_subs n (map (encode_sub h) (j # ids)) seen g = decode_subs n (map (encode_sub h) ids) (j # seen) ?g'"
    using Cons.prems p by (auto simp: encode_sub_def Let_def)
  moreover obtain g' where g': "decode_subs n (map (encode_sub h) ids) (j # seen) ?g' = Inr g'"
    "through g' = through ?g'" "hBridge g' = hBridge ?g'" "days g' = days ?g'"
    "\<And>i. series g' i = (if i \<in> set ids \<and> series h i \<noteq> [] then sort_key fst (series h i) else series ?g' i)"
    "\<And>i. get (life g') i = (if i \<in> set ids then get (life h) i else get (life ?g') i)"
    using Cons.IH [of "j # seen" ?g'] Cons.prems by auto
  moreover have "series ?g' i = (if i = j \<and> series h j \<noteq> [] then ?ser else series g i)" for i by (simp add: series_def update_conv')
  moreover have "through ?g' = through g" "hBridge ?g' = hBridge g" "days ?g' = days g" "life ?g = life g" by simp_all
  ultimately show ?case by (intro exI [of _ g']) (auto simp del: decode_subs.simps)
qed

lemma series_get_sort: "distinct (keys m) \<Longrightarrow> get (sort_key fst m) = get m"
  by (rule get_cong) (rule map_of_sort)

lemma decode_encode_node:
  assumes h: "hist_storable h"
  shows "\<exists>h'. decode_subs n (Subscriptions (encode_node (i, h))) []
      (newNodeHist\<lparr>through := through h, hBridge := hBridge h, days := sort_key fst (days h)\<rparr>) = Inr h' \<and> hist_same h' h"
proof -
  let ?ids = "sort (remdups (keys (hSubs h) @ keys (life h)))"
  let ?g = "newNodeHist\<lparr>through := through h, hBridge := hBridge h, days := sort_key fst (days h)\<rparr>"
  have "Subscriptions (encode_node (i, h)) = map (encode_sub h) ?ids"
    by (simp add: encode_node_def sort_key_map encode_sub_def)
  moreover obtain h' where h': "decode_subs n (map (encode_sub h) ?ids) [] ?g = Inr h'"
    "through h' = through ?g" "hBridge h' = hBridge ?g" "days h' = days ?g"
    "\<And>i. series h' i = (if i \<in> set ?ids \<and> series h i \<noteq> [] then sort_key fst (series h i) else series ?g i)"
    "\<And>i. get (life h') i = (if i \<in> set ?ids then get (life h) i else get (life ?g) i)"
    using decode_encode_subs [OF h, of ?ids "[]" n ?g] h by (auto simp: hist_storable_def)
  moreover have "get (series h' i) = get (series h i)" for i
  proof (cases "i \<in> set ?ids \<and> series h i \<noteq> []")
    case True
    then show ?thesis using h'(5) [of i] series_storable [OF h, of i] by (simp add: series_get_sort)
  next
    case False
    then have "series h i = []" by (auto simp: series_def split: option.splits dest!: map_of_SomeD) (force)
    then show ?thesis using False h'(5) [of i] by (simp add: series_def newNodeHist_def)
  qed
  moreover have "get (life h') i = get (life h) i" for i using h'(6) [of i] get_out [of i "life h"] by (auto simp: newNodeHist_def)
  ultimately show ?thesis using h by (auto simp: hist_same_def hist_storable_def hist_ok_def series_get_sort)
qed

lemma decode_encode_nodes:
  assumes "distinct (keys ns)" "0 \<notin> set (keys ns)" "\<forall>(i, h) \<in> set ns. hist_storable h" "set (keys ns) \<inter> set (keys out) = {}"
  shows "\<exists>out'. decode_nodes (map encode_node ns) out = Inr out' \<and> (\<forall>i. i \<notin> set (keys ns) \<longrightarrow> map_of out' i = map_of out i)
    \<and> (\<forall>(i, h) \<in> set ns. \<exists>h'. map_of out' i = Some h' \<and> hist_same h' h)"
  using assms
proof (induction ns arbitrary: out)
  case (Cons n ns)
  obtain i h where n: "n = (i, h)" by fastforce
  have h: "hist_storable h" using Cons.prems n by simp
  then have p: "parseDays (dayStrings (days h)) [] = Some (sort_key fst (days h))"
    by (intro parseDays_dayStrings) (auto simp: hist_storable_def hist_ok_def)
  obtain h' where h': "decode_subs i (Subscriptions (encode_node (i, h))) []
      (newNodeHist\<lparr>through := through h, hBridge := hBridge h, days := sort_key fst (days h)\<rparr>) = Inr h'" "hist_same h' h"
    using decode_encode_node [OF h, of i i] by blast
  have "decode_nodes (map encode_node (n # ns)) out = decode_nodes (map encode_node ns) (AList.update i h' out)"
    using Cons.prems n p h h' by (auto simp: encode_node_def hist_storable_def)
  moreover obtain out' where "decode_nodes (map encode_node ns) (AList.update i h' out) = Inr out'"
    "\<forall>j. j \<notin> set (keys ns) \<longrightarrow> map_of out' j = map_of (AList.update i h' out) j"
    "\<forall>(j, h) \<in> set ns. \<exists>h'. map_of out' j = Some h' \<and> hist_same h' h"
    using Cons.IH [of "AList.update i h' out"] Cons.prems n by (auto simp del: set_map)
  moreover have "i \<notin> set (keys ns)" using Cons.prems n by simp
  ultimately show ?case using n h'(2) by (intro exI [of _ out']) (auto simp: update_conv')
qed simp

lemma decode_encode_retired:
  assumes "0 \<notin> set (keys ts)"
  shows "\<exists>out'. decode_retired (map (\<lambda>(i, t). \<lparr>ftID = i, ftTotal = t\<rparr>) ts) out = Inr out'
    \<and> (\<forall>i. get out' i = get out i + (\<Sum>(k, t) \<leftarrow> ts. if k = i then t else 0))
    \<and> (distinct (keys out) \<longrightarrow> distinct (keys out')) \<and> set (keys out') = set (keys out) \<union> set (keys ts)"
  using assms
proof (induction ts arbitrary: out)
  case (Cons r ts)
  obtain j t where r: "r = (j, t)" by fastforce
  obtain out' where "decode_retired (map (\<lambda>(i, t). \<lparr>ftID = i, ftTotal = t\<rparr>) ts) (bump j t out) = Inr out'"
    "\<forall>i. get out' i = get (bump j t out) i + (\<Sum>(k, t) \<leftarrow> ts. if k = i then t else 0)"
    "distinct (keys (bump j t out)) \<longrightarrow> distinct (keys out')" "set (keys out') = set (keys (bump j t out)) \<union> set (keys ts)"
    using Cons.IH [of "bump j t out"] Cons.prems by auto
  then show ?case using Cons.prems r by (intro exI [of _ out']) (auto simp: add.assoc simp del: set_map keys_update)
qed simp

lemma hist_same_refl [simp]: "hist_same h h"
  by (simp add: hist_same_def)

lemma hist_empty_same: "hist_empty h \<Longrightarrow> hist_same newNodeHist h"
  by (simp add: hist_empty_def hist_same_def newNodeHist_def series_def)

definition storable :: "(nat \<times> nodeHist) list \<Rightarrow> (nat \<times> Totals) list \<Rightarrow> bool" where
  "storable nodes retired \<longleftrightarrow> distinct (keys nodes) \<and> 0 \<notin> set (keys nodes) \<and> (\<forall>(i, h) \<in> set nodes. hist_storable h)
     \<and> distinct (keys retired) \<and> 0 \<notin> set (keys retired)"

lemma decode_encode:
  assumes "storable nodes retired"
  shows "\<exists>ns rt. decodeDoc (Some (encodeDoc nodes retired)) = Inr (ns, rt)
    \<and> (\<forall>i. hist_same (hist_at ns i) (hist_at nodes i)) \<and> (\<forall>i. get rt i = get retired i)
    \<and> set (keys ns) \<subseteq> set (keys nodes)"
proof -
  let ?ns = "filter (\<lambda>(i, h). \<not> hist_empty h) nodes" and ?rt = "filter (\<lambda>(i, t). \<not> isZero t) retired"
  let ?sns = "sort_key fst ?ns" and ?srt = "sort_key fst ?rt"
  have st: "distinct (keys nodes)" "0 \<notin> set (keys nodes)" "\<forall>(i, h) \<in> set nodes. hist_storable h" "distinct (keys retired)" "0 \<notin> set (keys retired)"
    using assms unfolding storable_def by blast+
  have e: "fdNodes (encodeDoc nodes retired) = map encode_node ?sns"
    "fdRetired (encodeDoc nodes retired) = map (\<lambda>(i, t). \<lparr>ftID = i, ftTotal = t\<rparr>) ?srt"
    by (simp_all add: encodeDoc_def sort_key_map encode_node_def case_prod_unfold)
  have d: "distinct (keys ?sns)" "0 \<notin> set (keys ?sns)" "\<forall>(i, h) \<in> set ?sns. hist_storable h"
    using st by (auto intro: sort_fst_keys)
  obtain ns where ns: "decode_nodes (map encode_node ?sns) [] = Inr ns" "\<forall>i. i \<notin> set (keys ?sns) \<longrightarrow> map_of ns i = None"
    "\<forall>(i, h) \<in> set ?sns. \<exists>h'. map_of ns i = Some h' \<and> hist_same h' h"
    using decode_encode_nodes [OF d, of "[]"] by auto
  have "0 \<notin> set (keys ?srt)" using st by auto
  from decode_encode_retired [OF this, of "[]"] obtain rt where rt: "decode_retired (map (\<lambda>(i, t). \<lparr>ftID = i, ftTotal = t\<rparr>) ?srt) [] = Inr rt"
    "\<And>i. get rt i = (\<Sum>(k, t) \<leftarrow> ?srt. if k = i then t else 0)" by auto
  have "get rt i = get retired i" for i
  proof -
    have dr: "distinct (keys ?rt)" using st by simp
    then have "get rt i = get ?rt i" using rt(2) [of i] sum_list_one_key [of ?srt i] by (simp add: series_get_sort del: isZero_iff)
    also have "\<dots> = get retired i" using st(4) by (induction retired) (auto simp: get_Cons get_out split: if_splits)
    finally show ?thesis .
  qed
  moreover have "hist_same (hist_at ns i) (hist_at nodes i)" for i
  proof (cases "i \<in> set (keys ?sns)")
    case True
    then obtain h where h: "(i, h) \<in> set ?sns" by auto
    then have "map_of nodes i = Some h" using st(1) by simp
    then show ?thesis using ns(3) h by (fastforce simp: hist_at_def)
  next
    case False
    then have "map_of ns i = None" using ns(2) by blast
    moreover have "hist_empty h" if "map_of nodes i = Some h" for h using False map_of_SomeD [OF that] by force
    ultimately show ?thesis by (auto simp: hist_at_def hist_empty_same split: option.splits)
  qed
  moreover have "set (keys ns) \<subseteq> set (keys nodes)"
  proof
    fix i assume "i \<in> set (keys ns)"
    then have "i \<in> set (keys ?sns)" using ns(2) by (metis map_of_eq_None_iff list.set_map)
    then show "i \<in> set (keys nodes)" by auto
  qed
  ultimately show ?thesis using ns(1) rt(1) e by (auto simp: decodeDoc_def encodeDoc_def SchemaVersion_def)
qed

text \<open>
  C36. What is written is read back. For any history whose node and subscription ids are positive,
  whose marks are not negative and whose days have a four-digit year, decoding the document it was
  encoded to succeeds and gives every node the same daily totals, the same series and lifetime
  totals of every subscription, the same bridge totals and the same mark, and every subscription
  the same total from removed nodes. (A node with nothing in it may be left out of the file.)
\<close>

theorem usage_file_roundtrip:
  assumes "storable nodes retired"
  shows "\<exists>ns rt. decodeDoc (Some (encodeDoc nodes retired)) = Inr (ns, rt)
    \<and> (\<forall>i. hist_same (hist_at ns i) (hist_at nodes i)) \<and> (\<forall>i. get rt i = get retired i)"
  using decode_encode [OF assms] by blast

theorem usage_file_roundtrip_witness:
  "\<exists>ns rt. decodeDoc (Some (encodeDoc [(3, hist_add 100 \<lparr>bSubs = [(4, Totals 5 7)], bBridge = 0\<rparr> newNodeHist)] [(2, Totals 1 1)])) = Inr (ns, rt)
    \<and> get (life (hist_at ns 3)) 4 = Totals 5 7 \<and> get rt 2 = Totals 1 1"
proof -
  let ?h = "hist_add 100 \<lparr>bSubs = [(4, Totals 5 7)], bBridge = 0\<rparr> newNodeHist"
  have h: "?h = \<lparr>days = [(0, Totals 5 7)], hSubs = [(4, [(0, Totals 5 7)])], hBridge = 0, life = [(4, Totals 5 7)], through = 0\<rparr>"
    by (simp add: hist_add_def add_sub_def bump_def get_Cons bucket_node_def dayOf_floor secondsPerDay_def newNodeHist_def series_def
        plus_Totals_def zero_Totals_def sat_def Let_def)
  then have "storable [(3, ?h)] [(2, Totals 1 1)]"
    by (simp add: storable_def hist_storable_def hist_ok_def four_digit_year_def)
  from usage_file_roundtrip [OF this] obtain ns rt where
    r: "decodeDoc (Some (encodeDoc [(3, ?h)] [(2, Totals 1 1)])) = Inr (ns, rt)" "hist_same (hist_at ns 3) (hist_at [(3, ?h)] 3)"
      "get rt 2 = get [(2 :: nat, Totals 1 1)] 2" by blast
  then have "get (life (hist_at ns 3)) 4 = Totals 5 7" by (simp add: hist_same_def hist_at_def h get_Cons)
  with r show ?thesis by (auto simp: get_Cons)
qed

lemma hist_same_sym: "hist_same h h' \<Longrightarrow> hist_same h' h"
  by (simp add: hist_same_def)

lemma hist_same_trans: "hist_same h h' \<Longrightarrow> hist_same h' h'' \<Longrightarrow> hist_same h h''"
  by (simp add: hist_same_def)

text \<open>A write that is skipped because the bytes are the same skips no change.\<close>

lemma encode_injective:
  assumes "storable n r" "storable n' r'" "encodeDoc n r = encodeDoc n' r'"
  shows "hist_same (hist_at n i) (hist_at n' i) \<and> get r = get r'"
proof -
  obtain ns rt where "decodeDoc (Some (encodeDoc n r)) = Inr (ns, rt)" "\<forall>i. hist_same (hist_at ns i) (hist_at n i)" "\<forall>i. get rt i = get r i"
    using decode_encode [OF assms(1)] by blast
  moreover obtain ns' rt' where "decodeDoc (Some (encodeDoc n' r')) = Inr (ns', rt')" "\<forall>i. hist_same (hist_at ns' i) (hist_at n' i)" "\<forall>i. get rt' i = get r' i"
    using decode_encode [OF assms(2)] by blast
  ultimately show ?thesis using assms(3) hist_same_trans hist_same_sym by (metis (no_types, lifting) ext old.sum.inject(2) prod.inject)
qed

section \<open>Whatever is accepted is well formed\<close>

lemma parseDays_wf:
  "parseDays ds out = Some m \<Longrightarrow> distinct (keys out) \<and> (\<forall>d \<in> set (keys out). four_digit_year d) \<Longrightarrow>
   distinct (keys m) \<and> (\<forall>d \<in> set (keys m). four_digit_year d)"
proof (induction ds out rule: parseDays.induct)
  case (2 s t rest out)
  then obtain d where "parseDay s = Some d" "parseDays rest (AList.update d t out) = Some m" by (auto split: option.splits)
  moreover have "four_digit_year d" using calculation(1) by (cases s) (auto split: if_splits)
  moreover have "distinct (keys (AList.update d t out)) \<and> (\<forall>d \<in> set (keys (AList.update d t out)). four_digit_year d)"
    using "2.prems"(2) calculation(3) by (simp del: set_map)
  ultimately show ?case using "2.IH" by blast
qed simp

lemma decode_subs_wf: "decode_subs node ss seen h = Inr h' \<Longrightarrow> hist_storable h \<Longrightarrow> hist_storable h'"
proof (induction node ss seen h rule: decode_subs.induct)
  case (2 node sub rest seen h)
  then obtain ser where ser: "fsID sub \<noteq> 0" "parseDays (fsDays sub) [] = Some ser" by (auto split: if_splits option.splits)
  let ?h = "if length ser > 0 then h\<lparr>hSubs := AList.update (fsID sub) ser (hSubs h)\<rparr> else h"
  let ?h' = "case fsTotal sub of Some t \<Rightarrow> ?h\<lparr>life := AList.update (fsID sub) t (life ?h)\<rparr>
    | None \<Rightarrow> if length ser > 0 then ?h\<lparr>life := AList.update (fsID sub) (whole ser) (life ?h)\<rparr> else ?h"
  have w: "distinct (keys ser)" "\<forall>d \<in> set (keys ser). four_digit_year d" using parseDays_wf [OF ser(2)] by auto
  have "\<forall>(i, m) \<in> set (hSubs h). distinct (keys m) \<and> (\<forall>d \<in> set (keys m). four_digit_year d)"
    using "2.prems"(2) by (auto simp: hist_storable_def hist_ok_def simp del: set_map)
  then have "\<forall>(i, m) \<in> set (AList.update (fsID sub) ser (hSubs h)). distinct (keys m) \<and> (\<forall>d \<in> set (keys m). four_digit_year d)"
    using w update_elems [of "fsID sub" ser "hSubs h"] by blast
  then have "hist_storable ?h" using "2.prems"(2) ser(1) by (auto simp: hist_storable_def hist_ok_def simp del: set_map)
  then have "hist_storable ?h'" using ser(1) by (auto simp: hist_storable_def hist_ok_def split: option.splits simp del: set_map)
  moreover have "decode_subs node rest (fsID sub # seen) ?h' = Inr h'" "fsID sub \<notin> set seen"
    using "2.prems"(1) ser by (auto simp: Let_def split: if_splits)
  ultimately show ?case using "2.IH" [OF _ ser(2) refl refl] ser(1) by blast
qed simp

lemma decode_nodes_wf:
  "decode_nodes ns out = Inr out' \<Longrightarrow> distinct (keys out) \<and> 0 \<notin> set (keys out) \<and> (\<forall>(i, h) \<in> set out. hist_storable h) \<Longrightarrow>
   distinct (keys out') \<and> 0 \<notin> set (keys out') \<and> (\<forall>(i, h) \<in> set out'. hist_storable h)"
proof (induction ns out rule: decode_nodes.induct)
  case (2 fn rest out)
  then obtain ds h where ds: "fnID fn \<noteq> 0" "fnID fn \<notin> set (keys out)" "\<not> AckedThrough fn < 0" "parseDays (fnDays fn) [] = Some ds"
    "decode_subs (fnID fn) (Subscriptions fn) [] (newNodeHist\<lparr>through := AckedThrough fn, hBridge := fnBridge fn, days := ds\<rparr>) = Inr h"
    "decode_nodes rest (AList.update (fnID fn) h out) = Inr out'" by (auto split: if_splits option.splits sum.splits)
  have "hist_storable (newNodeHist\<lparr>through := AckedThrough fn, hBridge := fnBridge fn, days := ds\<rparr>)"
    using ds(3) parseDays_wf [OF ds(4)] by (simp add: hist_storable_def hist_ok_def newNodeHist_def)
  then have "hist_storable h" using decode_subs_wf [OF ds(5)] by blast
  then have "distinct (keys (AList.update (fnID fn) h out)) \<and> 0 \<notin> set (keys (AList.update (fnID fn) h out))
      \<and> (\<forall>(i, h) \<in> set (AList.update (fnID fn) h out). hist_storable h)"
    using "2.prems"(2) ds(1) update_elems [of "fnID fn" h out] by (auto simp del: set_map)
  with "2.IH" [OF _ ds(3-6)] ds(1,2) show ?case by blast
qed simp

lemma decode_retired_wf:
  "decode_retired rs out = Inr out' \<Longrightarrow> distinct (keys out) \<and> 0 \<notin> set (keys out) \<Longrightarrow> distinct (keys out') \<and> 0 \<notin> set (keys out')"
  by (induction rs out rule: decode_retired.induct) (auto split: if_splits simp del: set_map)

lemma decodeDoc_parts:
  assumes "decodeDoc b = Inr (ns, rt)"
  obtains doc where "b = Some doc" "\<not> Version doc > SchemaVersion" "\<not> Version doc < 1"
    "decode_nodes (fdNodes doc) [] = Inr ns" "decode_retired (fdRetired doc) [] = Inr rt"
  using assms by (auto simp: decodeDoc_def split: option.splits if_splits sum.splits)

lemma accepted_decodes_storable:
  assumes "decodeDoc b = Inr (ns, rt)"
  shows "storable ns rt"
  using assms
proof (rule decodeDoc_parts)
  fix doc assume "decode_nodes (fdNodes doc) [] = Inr ns" "decode_retired (fdRetired doc) [] = Inr rt"
  then show ?thesis using decode_nodes_wf [of "fdNodes doc" "[]" ns] decode_retired_wf [of "fdRetired doc" "[]" rt] by (simp add: storable_def)
qed

text \<open>
  C37. A file that is accepted is a well-formed history, whoever wrote it. Whatever the document
  holds, if decoding it succeeds then its version is the one this build reads, no node and no
  subscription has id zero or appears twice, no mark is negative, every day of every series has a
  four-digit year and appears once: everything the writer needs to write it again.
\<close>

theorem accepted_file_is_well_formed:
  assumes "decodeDoc b = Inr (ns, rt)"
  shows "storable ns rt \<and> (\<exists>doc. b = Some doc \<and> Version doc = SchemaVersion)"
  using assms accepted_decodes_storable [OF assms] by (auto elim!: decodeDoc_parts simp: SchemaVersion_def)

theorem accepted_file_is_well_formed_witness:
  "decodeDoc (Some \<lparr>Version = 1, fdNodes = [\<lparr>fnID = 2, AckedThrough = 5, fnBridge = 0, fnDays = [], Subscriptions = []\<rparr>], fdRetired = []\<rparr>)
     = Inr ([(2, newNodeHist\<lparr>through := 5\<rparr>)], [])
   \<and> storable [(2, newNodeHist\<lparr>through := 5\<rparr>)] []"
proof -
  have "decodeDoc (Some \<lparr>Version = 1, fdNodes = [\<lparr>fnID = 2, AckedThrough = 5, fnBridge = 0, fnDays = [], Subscriptions = []\<rparr>], fdRetired = []\<rparr>)
     = Inr ([(2, newNodeHist\<lparr>through := 5\<rparr>)], [])"
    by (simp add: decodeDoc_def SchemaVersion_def newNodeHist_def)
  from this accepted_file_is_well_formed [OF this] show ?thesis by simp
qed

end
