(* ===== verification/Node_Emails.thy ===== *)
theory Node_Emails
  imports Prelude
begin

text \<open>
  The names a remote node's clients go by in the statistics,
  \<open>internal/remotenodes/nodecfg/emails.go\<close>: a client's identity is read back from its email, so the
  parsers have to be the exact inverses of the printers.
\<close>

text \<open>\<open>fmt.Sprintf("%d", n)\<close> and \<open>strconv.Itoa\<close> on an \<open>int\<close>.\<close>

definition itoa :: "int \<Rightarrow> string" where
  "itoa n = (if n < 0 then CHR ''-'' # dec (nat (- n)) else dec (nat n))"

text \<open>\<open>strings.CutPrefix\<close> and \<open>strings.CutSuffix\<close>.\<close>

definition cut_prefix :: "string \<Rightarrow> string \<Rightarrow> string option" where
  "cut_prefix s p = (if has_prefix s p then Some (drop (length p) s) else None)"

definition cut_suffix :: "string \<Rightarrow> string \<Rightarrow> string option" where
  "cut_suffix s p = (if length p \<le> length s \<and> drop (length s - length p) s = p then Some (take (length s - length p) s) else None)"

lemma cut_prefix_iff: "cut_prefix s p = Some r \<longleftrightarrow> s = p @ r"
  by (auto simp: cut_prefix_def has_prefix_iff prefix_def)

lemma cut_suffix_iff: "cut_suffix s p = Some r \<longleftrightarrow> s = r @ p"
  by (auto simp: cut_suffix_def) (metis append_take_drop_id)

definition SubscriptionEmail :: "int \<Rightarrow> string" where
  "SubscriptionEmail n = ''sub-'' @ itoa n @ ''@remote-nodes''"

definition BridgeEmail :: "int \<Rightarrow> string" where
  "BridgeEmail nodeID = ''rvs-t'' @ itoa nodeID @ ''@reverse''"

definition BridgeReverseTag :: "int \<Rightarrow> string" where
  "BridgeReverseTag nodeID = ''rvs-to-node-'' @ itoa nodeID"

definition positiveInt :: "string \<Rightarrow> int option" where
  "positiveInt s = (case atoi s of None \<Rightarrow> None | Some n \<Rightarrow> if n < 1 \<or> itoa n \<noteq> s then None else Some n)"

definition ParseSubscriptionEmail :: "string \<Rightarrow> int option" where
  "ParseSubscriptionEmail email =
     (case cut_prefix email ''sub-'' of None \<Rightarrow> None
      | Some s \<Rightarrow> (case cut_suffix s ''@remote-nodes'' of None \<Rightarrow> None | Some s \<Rightarrow> positiveInt s))"

definition ParseBridgeEmail :: "string \<Rightarrow> int option" where
  "ParseBridgeEmail email =
     (case cut_prefix email ''rvs-t'' of None \<Rightarrow> None
      | Some s \<Rightarrow> (case cut_suffix s ''@reverse'' of None \<Rightarrow> None | Some s \<Rightarrow> positiveInt s))"

lemma positiveInt_iff: "positiveInt s = Some n \<longleftrightarrow> s = itoa n \<and> 1 \<le> n \<and> n \<le> int64_max"
proof
  assume "positiveInt s = Some n"
  then show "s = itoa n \<and> 1 \<le> n \<and> n \<le> int64_max"
    using atoi_range [of s n] by (auto simp: positiveInt_def split: option.splits if_splits)
next
  assume a: "s = itoa n \<and> 1 \<le> n \<and> n \<le> int64_max"
  then have "atoi s = Some n" by (simp add: itoa_def)
  with a show "positiveInt s = Some n" by (simp add: positiveInt_def)
qed

lemma parse_between:
  "(case cut_prefix e p of None \<Rightarrow> None
    | Some s \<Rightarrow> (case cut_suffix s q of None \<Rightarrow> None | Some s \<Rightarrow> positiveInt s)) = Some n
   \<longleftrightarrow> e = p @ itoa n @ q \<and> 1 \<le> n \<and> n \<le> int64_max" (is "?l = _ \<longleftrightarrow> _")
proof -
  have "?l = Some n \<longleftrightarrow> (\<exists>s r. cut_prefix e p = Some s \<and> cut_suffix s q = Some r \<and> positiveInt r = Some n)"
    by (auto split: option.splits)
  then show ?thesis by (simp add: cut_prefix_iff cut_suffix_iff positiveInt_iff)
qed

lemma ParseSubscriptionEmail_iff:
  "ParseSubscriptionEmail e = Some n \<longleftrightarrow> e = SubscriptionEmail n \<and> 1 \<le> n \<and> n \<le> int64_max"
  by (simp add: ParseSubscriptionEmail_def SubscriptionEmail_def parse_between)

lemma ParseBridgeEmail_iff:
  "ParseBridgeEmail e = Some n \<longleftrightarrow> e = BridgeEmail n \<and> 1 \<le> n \<and> n \<le> int64_max"
  by (simp add: ParseBridgeEmail_def BridgeEmail_def parse_between)

text \<open>
  A client's identity survives the statistics. For every id Go can hold from 1 on, parsing the
  email printed for it gives it back; an email that parses as an id is the very email printed for
  that id, so no other client can be billed to it; and no email is both a subscription's and a
  bridge's.
\<close>

theorem emails_are_identities:
  "(ParseSubscriptionEmail e = Some n \<longleftrightarrow> e = SubscriptionEmail n \<and> 1 \<le> n \<and> n \<le> int64_max)
   \<and> (ParseBridgeEmail e = Some n \<longleftrightarrow> e = BridgeEmail n \<and> 1 \<le> n \<and> n \<le> int64_max)
   \<and> (ParseSubscriptionEmail e = None \<or> ParseBridgeEmail e = None)"
proof -
  have "ParseSubscriptionEmail e = None \<or> ParseBridgeEmail e = None"
  proof (rule ccontr)
    assume "\<not> ?thesis"
    then obtain n m where "ParseSubscriptionEmail e = Some n" "ParseBridgeEmail e = Some m" by auto
    then have "e = SubscriptionEmail n" "e = BridgeEmail m"
      by (simp_all add: ParseSubscriptionEmail_iff ParseBridgeEmail_iff)
    then show False by (simp add: SubscriptionEmail_def BridgeEmail_def)
  qed
  then show ?thesis using ParseSubscriptionEmail_iff ParseBridgeEmail_iff by blast
qed

end
