(* ===== verification/Bounded_Logs.thy ===== *)
theory Bounded_Logs
  imports Prelude
begin

text \<open>
  Three bounded logs and one contract. \<open>RingBuffer\<close> of \<open>internal/agent/process/ringbuffer.go\<close> keeps
  the last lines of a process, \<open>ring\<close> of \<open>internal/remotenodes/bridgectl/ring.go\<close> the last bytes
  of the bridge's output. Both promise what \<open>bounded_log\<close> states: what they hold is the end of
  everything ever written. \<open>ring\<close> of \<open>internal/remotenodes/usage/ring.go\<close> keeps the traffic chart
  by the time of its points. Indices are natural numbers: the code's stay within the buffer, which
  is part of what is proved; an access outside of it, a division by zero or a negative length is a
  panic, the value \<open>None\<close>.
\<close>

section \<open>The contract\<close>

definition last_n :: "nat \<Rightarrow> 'a list \<Rightarrow> 'a list" where
  "last_n k xs = drop (length xs - k) xs"

lemma length_last_n [simp]: "length (last_n k xs) = min k (length xs)"
  by (simp add: last_n_def)

lemma last_n_short: "length xs \<le> k \<Longrightarrow> last_n k xs = xs"
  by (simp add: last_n_def)

lemma last_n_append: "last_n k (last_n k xs @ ys) = last_n k (xs @ ys)"
  by (cases "length xs \<le> k") (simp_all add: last_n_def add.commute)

lemma suffix_last_n: "suffix (last_n k xs) xs"
  by (simp add: last_n_def suffix_drop)

locale bounded_log =
  fixes cap :: nat and invar :: "'s \<Rightarrow> bool" and empty :: 's and put :: "'s \<Rightarrow> 'a list \<Rightarrow> 's" and held :: "'s \<Rightarrow> 'a list"
  assumes empty_invar: "invar empty" and empty_held: "held empty = []"
    and put_invar: "invar s \<Longrightarrow> invar (put s xs)"
    and put_held: "invar s \<Longrightarrow> held (put s xs) = last_n cap (held s @ xs)"
begin

lemma puts_invar: "invar (foldl put empty ws)"
  by (induction ws rule: rev_induct) (simp_all add: empty_invar put_invar)

lemma puts_held: "held (foldl put empty ws) = last_n cap (concat ws)"
proof (induction ws rule: rev_induct)
  case (snoc w ws)
  then show ?case by (simp add: put_held puts_invar last_n_append)
qed (simp add: empty_held last_n_def)

lemma puts_bounded: "length (held (foldl put empty ws)) \<le> cap"
  by (simp add: puts_held)

end

section \<open>The lines of a process\<close>

record RingBuffer =
  rbData :: "string list"
  rbSize :: nat
  head :: nat
  rbTail :: nat
  count :: nat

definition NewRingBuffer :: "nat \<Rightarrow> RingBuffer" where
  "NewRingBuffer sz = \<lparr>rbData = replicate sz [], rbSize = sz, head = 0, rbTail = 0, count = 0\<rparr>"

definition rb_Write :: "string \<Rightarrow> RingBuffer \<Rightarrow> RingBuffer option" where
  "rb_Write line rb =
     (if head rb < length (rbData rb) \<and> rbSize rb \<noteq> 0
      then let rb = rb\<lparr>rbData := (rbData rb)[head rb := line], head := (head rb + 1) mod rbSize rb\<rparr>
           in Some (if count rb < rbSize rb then rb\<lparr>count := count rb + 1\<rparr> else rb\<lparr>rbTail := (rbTail rb + 1) mod rbSize rb\<rparr>)
      else None)"

definition rb_Tail :: "int \<Rightarrow> RingBuffer \<Rightarrow> string list option" where
  "rb_Tail n rb =
     (let n = (if n > int (count rb) then int (count rb) else n) in
      if n < 0 \<or> rbSize rb = 0 then None
      else let start = (int (head rb) - n + int (rbSize rb)) mod int (rbSize rb)
           in Some (map (\<lambda>i. rbData rb ! (nat (start + int i) mod rbSize rb)) [0..<nat n]))"

definition rb_Lines :: "RingBuffer \<Rightarrow> nat" where
  "rb_Lines rb = count rb"

definition rb_Clear :: "RingBuffer \<Rightarrow> RingBuffer" where
  "rb_Clear rb = rb\<lparr>head := 0, rbTail := 0, count := 0\<rparr>"

definition rb_held :: "RingBuffer \<Rightarrow> string list" where
  "rb_held rb = map (\<lambda>i. rbData rb ! ((rbTail rb + i) mod rbSize rb)) [0..<count rb]"

definition rb_ok :: "nat \<Rightarrow> RingBuffer \<Rightarrow> bool" where
  "rb_ok sz rb \<longleftrightarrow> 0 < sz \<and> rbSize rb = sz \<and> length (rbData rb) = sz \<and> rbTail rb < sz \<and> count rb \<le> sz
     \<and> head rb = (rbTail rb + count rb) mod sz"

lemma mod_add_eq_iff:
  assumes "i < s" "j < s" "(t + i) mod s = (t + j) mod (s::nat)"
  shows "i = j"
proof -
  have "i mod s = j mod s" using assms(3) by (simp add: nat_mod_eq_iff)
  with assms show ?thesis by simp
qed

lemma Clear_ok: "rb_ok sz rb \<Longrightarrow> rb_ok sz (rb_Clear rb) \<and> rb_held (rb_Clear rb) = []"
  by (simp add: rb_ok_def rb_Clear_def rb_held_def)

lemma New_held: "0 < sz \<Longrightarrow> rb_ok sz (NewRingBuffer sz) \<and> rb_held (NewRingBuffer sz) = []"
  by (simp add: rb_ok_def NewRingBuffer_def rb_held_def)

lemma Write_ok:
  assumes "rb_ok sz rb"
  shows "\<exists>rb'. rb_Write line rb = Some rb' \<and> rb_ok sz rb' \<and> rb_held rb' = last_n sz (rb_held rb @ [line])"
proof -
  have s: "0 < sz" "rbSize rb = sz" "length (rbData rb) = sz" "rbTail rb < sz" "count rb \<le> sz"
    "head rb = (rbTail rb + count rb) mod sz" using assms by (simp_all add: rb_ok_def)
  let ?d = "(rbData rb)[head rb := line]" and ?t = "rbTail rb"
  have h: "head rb < sz" using s by simp
  show ?thesis
  proof (cases "count rb < sz")
    case True
    let ?rb = "rb\<lparr>rbData := ?d, head := (head rb + 1) mod sz, count := count rb + 1\<rparr>"
    have "?d ! ((?t + i) mod sz) = rbData rb ! ((?t + i) mod sz)" if "i < count rb" for i
    proof -
      have "(?t + i) mod sz \<noteq> head rb" using that True s mod_add_eq_iff [of i sz "count rb" ?t] by auto
      then show ?thesis by simp
    qed
    moreover have "?d ! ((?t + count rb) mod sz) = line" using s h by simp
    ultimately have "rb_held ?rb = rb_held rb @ [line]" by (simp add: rb_held_def s)
    moreover have "length (rb_held rb) < sz" using True by (simp add: rb_held_def)
    moreover have "rb_ok sz ?rb" using s True by (simp add: rb_ok_def mod_Suc_eq)
    moreover have "rb_Write line rb = Some ?rb" using s h True by (simp add: rb_Write_def Let_def)
    ultimately show ?thesis by (simp add: last_n_def)
  next
    case False
    then have c: "count rb = sz" using s by simp
    then have ht: "head rb = ?t" using s by simp
    let ?rb = "rb\<lparr>rbData := ?d, head := (head rb + 1) mod sz, rbTail := (?t + 1) mod sz\<rparr>"
    have "rb_held ?rb ! i = (tl (rb_held rb) @ [line]) ! i" if "i < sz" for i
    proof (cases "Suc i = sz")
      case True
      then have "?t + 1 + i = ?t + sz" by simp
      then have "(?t + 1 + i) mod sz = ?t" using s(4) by (metis mod_add_self2 mod_less)
      moreover have "\<not> i < sz - Suc 0" using True by simp
      ultimately show ?thesis using True s h ht c by (simp add: rb_held_def nth_append mod_add_left_eq)
    next
      case False
      then have i: "Suc i < sz" using that by simp
      have "(?t + Suc i) mod sz \<noteq> ?t mod sz" using mod_add_eq_iff [of "Suc i" sz 0 ?t] i s by auto
      then have "(?t + 1 + i) mod sz \<noteq> head rb" using ht s by simp
      moreover have "i < sz - Suc 0" using i by simp
      ultimately show ?thesis using i s ht c by (simp add: rb_held_def nth_append nth_tl mod_add_left_eq)
    qed
    moreover have "length (rb_held ?rb) = sz" "length (tl (rb_held rb) @ [line]) = sz" using c s by (simp_all add: rb_held_def)
    ultimately have "rb_held ?rb = tl (rb_held rb) @ [line]" by (intro nth_equalityI) simp_all
    moreover have "length (rb_held rb) = sz" using c by (simp add: rb_held_def)
    then have "last_n sz (rb_held rb @ [line]) = tl (rb_held rb) @ [line]" using s(1) by (cases "rb_held rb") (auto simp: last_n_def)
    moreover have "rb_ok sz ?rb" using s c ht by (simp add: rb_ok_def mod_add_left_eq)
    moreover have "rb_Write line rb = Some ?rb" using s h c by (simp add: rb_Write_def Let_def)
    ultimately show ?thesis by simp
  qed
qed

lemma Tail_held:
  assumes "rb_ok sz rb" "0 \<le> n"
  shows "rb_Tail n rb = Some (last_n (nat n) (rb_held rb))"
proof -
  have s: "0 < sz" "rbSize rb = sz" "count rb \<le> sz" "head rb = (rbTail rb + count rb) mod sz"
    using assms(1) by (simp_all add: rb_ok_def)
  define k where "k = min (nat n) (count rb)"
  have k: "(if n > int (count rb) then int (count rb) else n) = int k" "k \<le> count rb" using assms(2) by (auto simp: k_def)
  let ?f = "\<lambda>i. rbData rb ! (nat ((int (head rb) - int k + int sz) mod int sz + int i) mod sz)"
  have "?f i = rb_held rb ! (count rb - k + i)" if "i < k" for i
  proof -
    have "int (head rb) - int k + int sz = int (head rb + sz - k)" using k(2) s(3) by simp
    then have "nat ((int (head rb) - int k + int sz) mod int sz + int i) = (head rb + sz - k) mod sz + i"
      by (simp only: zmod_int [symmetric] of_nat_add [symmetric] nat_int)
    also have "\<dots> mod sz = (head rb + sz - k + i) mod sz" by (simp add: mod_add_left_eq)
    also have "head rb + sz - k + i = head rb + (sz - k + i)" using k(2) s(3) by simp
    also have "\<dots> mod sz = (rbTail rb + count rb + (sz - k + i)) mod sz" unfolding s(4) by (rule mod_add_left_eq)
    also have "\<dots> = (rbTail rb + (count rb - k + i) + sz) mod sz" using k(2) s(3) by (simp add: algebra_simps)
    also have "\<dots> = (rbTail rb + (count rb - k + i)) mod sz" by simp
    finally have "?f i = rbData rb ! ((rbTail rb + (count rb - k + i)) mod sz)" by (simp only:)
    moreover have "count rb - k + i < count rb" using that k(2) by simp
    ultimately show ?thesis unfolding rb_held_def s(2) by (simp only: nth_map length_upt nth_upt diff_zero add_0)
  qed
  moreover have "length (rb_held rb) = count rb" by (simp add: rb_held_def)
  ultimately have "map ?f [0..<k] = last_n (nat n) (rb_held rb)"
    by (intro nth_equalityI) (auto simp: last_n_def k_def min_def)
  then show ?thesis using s k(1) by (simp add: rb_Tail_def Let_def)
qed

text \<open>Several lines written one after the other; \<open>None\<close> as soon as one of them panics.\<close>

fun rb_writes :: "string list \<Rightarrow> RingBuffer \<Rightarrow> RingBuffer option" where
  "rb_writes [] rb = Some rb"
| "rb_writes (l # ls) rb = (case rb_Write l rb of None \<Rightarrow> None | Some rb' \<Rightarrow> rb_writes ls rb')"

lemma writes_ok: "rb_ok sz rb \<Longrightarrow> \<exists>rb'. rb_writes ls rb = Some rb' \<and> rb_ok sz rb' \<and> rb_held rb' = last_n sz (rb_held rb @ ls)"
proof (induction ls arbitrary: rb)
  case Nil
  then show ?case by (auto simp: rb_ok_def rb_held_def last_n_def)
next
  case (Cons l ls)
  obtain rb1 where 1: "rb_Write l rb = Some rb1" "rb_ok sz rb1" "rb_held rb1 = last_n sz (rb_held rb @ [l])"
    using Write_ok [OF Cons.prems] by blast
  obtain rb2 where "rb_writes ls rb1 = Some rb2" "rb_ok sz rb2" "rb_held rb2 = last_n sz (rb_held rb1 @ ls)"
    using Cons.IH [OF 1(2)] by blast
  then show ?case using 1 last_n_append [of sz "rb_held rb @ [l]" ls] by simp
qed

interpretation lines: bounded_log "Suc n" "\<lambda>s. \<exists>rb. s = Some rb \<and> rb_ok (Suc n) rb" "Some (NewRingBuffer (Suc n))"
  "\<lambda>s ls. Option.bind s (rb_writes ls)" "\<lambda>s. rb_held (the s)" for n
proof unfold_locales
  fix s xs assume "\<exists>rb. s = Some rb \<and> rb_ok (Suc n) rb"
  then obtain rb where rb: "s = Some rb" "rb_ok (Suc n) rb" by blast
  with writes_ok [OF rb(2), of xs] show "\<exists>rb. Option.bind s (rb_writes xs) = Some rb \<and> rb_ok (Suc n) rb"
    "rb_held (the (Option.bind s (rb_writes xs))) = last_n (Suc n) (rb_held (the s) @ xs)" by auto
qed (use New_held [of "Suc n"] in auto)

text \<open>
  The log of a process is the end of what the process said. A buffer of positive size, written
  to in any way, never panics, and \<open>Tail(n)\<close> for a non-negative \<open>n\<close> is exactly the last \<open>n\<close> lines
  that were written, oldest first, or all of the last lines the buffer can hold when it is asked
  for more.
\<close>

theorem RingBuffer_is_the_end_of_the_log:
  assumes "0 < sz" "0 \<le> m"
  shows "\<exists>rb. rb_writes ls (NewRingBuffer sz) = Some rb \<and> rb_Lines rb = min sz (length ls)
    \<and> rb_Tail m rb = Some (last_n (nat m) (last_n sz ls))"
proof -
  obtain n where n: "sz = Suc n" using assms(1) by (cases sz) auto
  have "\<exists>rb. rb_writes ls (NewRingBuffer sz) = Some rb \<and> rb_ok sz rb" "rb_held (the (rb_writes ls (NewRingBuffer sz))) = last_n sz ls"
    using lines.puts_invar [of n "[ls]"] lines.puts_held [of n "[ls]"] n by simp_all
  then obtain rb where rb: "rb_writes ls (NewRingBuffer sz) = Some rb" "rb_ok sz rb" "rb_held rb = last_n sz ls" by auto
  have "rb_Lines rb = length (rb_held rb)" by (simp add: rb_Lines_def rb_held_def)
  then show ?thesis using rb Tail_held [OF rb(2) assms(2)] by (simp add: min.commute)
qed

theorem RingBuffer_is_the_end_of_the_log_witness:
  "\<exists>rb. rb_writes [''a'', ''b'', ''c''] (NewRingBuffer 2) = Some rb \<and> rb_Tail 5 rb = Some [''b'', ''c'']"
  using RingBuffer_is_the_end_of_the_log [of 2 5 "[''a'', ''b'', ''c'']"] by (auto simp: last_n_def)

section \<open>The output of the bridge\<close>

record byte_ring =
  rBuf :: string
  rNext :: nat
  rFull :: bool

definition newRing :: "nat \<Rightarrow> byte_ring" where
  "newRing sz = \<lparr>rBuf = replicate sz (CHR 0x00), rNext = 0, rFull = False\<rparr>"

text \<open>\<open>copy(dst[at:], src)\<close>: as much of the source as fits.\<close>

definition copy_at :: "nat \<Rightarrow> string \<Rightarrow> string \<Rightarrow> string" where
  "copy_at at src dst = take at dst @ take (length dst - at) src @ drop (at + length src) dst"

definition ring_Write :: "byte_ring \<Rightarrow> string \<Rightarrow> byte_ring" where
  "ring_Write r p =
     (if p = [] then r
      else let sz = length (rBuf r) in
        if length p \<ge> sz then r\<lparr>rBuf := copy_at 0 (drop (length p - sz) p) (rBuf r), rNext := 0, rFull := True\<rparr>
        else let n = min (sz - rNext r) (length p);
                 b = copy_at (rNext r) p (rBuf r);
                 (b, full) = (if n < length p then (copy_at 0 (drop n p) b, True) else (b, rFull r));
                 next = (rNext r + length p) mod sz
             in r\<lparr>rBuf := b, rNext := next, rFull := (full \<or> next = 0)\<rparr>)"

definition ring_snapshot :: "byte_ring \<Rightarrow> string \<times> bool" where
  "ring_snapshot r = (if \<not> rFull r then (take (rNext r) (rBuf r), False)
     else (drop (rNext r) (rBuf r) @ take (rNext r) (rBuf r), True))"

definition ring_bytes :: "byte_ring \<Rightarrow> string" where
  "ring_bytes r = fst (ring_snapshot r)"

text \<open>\<open>String\<close>: \<open>strings.Cut\<close> at the first newline.\<close>

definition ring_String :: "byte_ring \<Rightarrow> string" where
  "ring_String r =
     (let (b, wrapped) = ring_snapshot r in
      if wrapped \<and> CHR 0x0A \<in> set b then tl (dropWhile (\<lambda>c. c \<noteq> CHR 0x0A) b) else b)"

definition ring_ok :: "nat \<Rightarrow> byte_ring \<Rightarrow> bool" where
  "ring_ok sz r \<longleftrightarrow> length (rBuf r) = sz \<and> (rNext r < sz \<or> sz = 0 \<and> rNext r = 0)"

lemma ring_Write_long:
  assumes "ring_ok sz r" "p \<noteq> []" "sz \<le> length p"
  shows "ring_ok sz (ring_Write r p) \<and> ring_bytes (ring_Write r p) = last_n sz (ring_bytes r @ p)"
proof -
  have "ring_Write r p = r\<lparr>rBuf := last_n sz p, rNext := 0, rFull := True\<rparr>"
    using assms by (simp add: ring_Write_def ring_ok_def copy_at_def last_n_def)
  moreover have "last_n sz (ring_bytes r @ p) = last_n sz p" using assms(3) by (simp add: last_n_def)
  ultimately show ?thesis using assms(1,3) by (auto simp: ring_ok_def ring_bytes_def ring_snapshot_def)
qed

text \<open>A write that fits, by whether it stops before, at or behind the end of the buffer.\<close>

lemma ring_Write_short:
  assumes "ring_ok sz r" "p \<noteq> []" "length p < sz"
  shows "ring_ok sz (ring_Write r p) \<and> ring_bytes (ring_Write r p) = last_n sz (ring_bytes r @ p)"
proof -
  let ?b = "rBuf r" and ?k = "rNext r" and ?l = "length p"
  have b: "length ?b = sz" "?k < sz" using assms by (auto simp: ring_ok_def)
  show ?thesis
  proof (cases "?k + ?l \<le> sz")
    case True
    let ?b' = "take ?k ?b @ p @ drop (?k + ?l) ?b"
    have b': "length ?b' = sz" using b True by simp
    have n: "min (sz - ?k) ?l = ?l" using True by simp
    have w: "ring_Write r p = r\<lparr>rBuf := ?b', rNext := (?k + ?l) mod sz, rFull := (rFull r \<or> (?k + ?l) mod sz = 0)\<rparr>"
      using assms b n by (simp add: ring_Write_def Let_def copy_at_def)
    have m: "(?k + ?l) mod sz = (if ?k + ?l = sz then 0 else ?k + ?l)" using True by simp
    show ?thesis
    proof (cases "?k + ?l = sz")
      case eq: True
      then have "ring_bytes (ring_Write r p) = take ?k ?b @ p" using w by (simp add: ring_bytes_def ring_snapshot_def b(1))
      moreover have "last_n sz (ring_bytes r @ p) = take ?k ?b @ p"
        using eq b by (auto simp: ring_bytes_def ring_snapshot_def last_n_def)
      moreover have "ring_ok sz (ring_Write r p)" using w b' b(2) eq by (simp add: ring_ok_def)
      ultimately show ?thesis by simp
    next
      case lt: False
      then have m': "(?k + ?l) mod sz = ?k + ?l" using m by simp
      have t: "take (?k + ?l) ?b' = take ?k ?b @ p" "drop (?k + ?l) ?b' = drop (?k + ?l) ?b" using b True by simp_all
      have "ring_bytes (ring_Write r p) = (if rFull r then drop (?k + ?l) ?b @ take ?k ?b @ p else take ?k ?b @ p)"
        using w m' t assms(2) by (simp add: ring_bytes_def ring_snapshot_def)
      moreover have "last_n sz (ring_bytes r @ p) = (if rFull r then drop (?k + ?l) ?b @ take ?k ?b @ p else take ?k ?b @ p)"
        using b True by (auto simp: ring_bytes_def ring_snapshot_def last_n_def add.commute)
      moreover have "ring_ok sz (ring_Write r p)" using w b' m' lt True by (simp add: ring_ok_def)
      ultimately show ?thesis by simp
    qed
  next
    case False
    let ?n = "sz - ?k"
    let ?j = "?l - ?n"
    have j: "?n < ?l" "?j < ?k" "?j < sz" using False assms(3) b(2) by auto
    have c1: "copy_at ?k p ?b = take ?k ?b @ take ?n p" using b False by (simp add: copy_at_def)
    have lc: "length (take ?k ?b @ take ?n p) = sz" using b j by simp
    have c2: "copy_at 0 (drop ?n p) (take ?k ?b @ take ?n p) = drop ?n p @ drop ?j (take ?k ?b) @ take ?n p"
      using b j lc by (simp add: copy_at_def)
    have "?k + ?l = ?j + sz" using j b by simp
    then have md: "(?k + ?l) mod sz = ?j" using j(3) by (metis mod_add_self2 mod_less)
    have w: "ring_Write r p = r\<lparr>rBuf := drop ?n p @ drop ?j (take ?k ?b) @ take ?n p, rNext := ?j, rFull := True\<rparr>"
      using assms b j c1 c2 md by (simp add: ring_Write_def Let_def)
    have "ring_bytes (ring_Write r p) = drop ?j (take ?k ?b) @ p"
      using w by (simp add: ring_bytes_def ring_snapshot_def)
    moreover have "last_n sz (ring_bytes r @ p) = drop ?j (take ?k ?b) @ p"
      using b j by (auto simp: ring_bytes_def ring_snapshot_def last_n_def add.commute)
    moreover have "ring_ok sz (ring_Write r p)" using w j b by (simp add: ring_ok_def)
    ultimately show ?thesis by simp
  qed
qed

lemma ring_Write_ok:
  assumes "ring_ok sz r" "sz = 0 \<longrightarrow> p \<noteq> [] \<or> ring_bytes r = []" "length (ring_bytes r) \<le> sz"
  shows "ring_ok sz (ring_Write r p) \<and> ring_bytes (ring_Write r p) = last_n sz (ring_bytes r @ p)"
proof (cases "p = []")
  case True
  then show ?thesis using assms by (simp add: ring_Write_def last_n_short)
qed (use ring_Write_long [OF assms(1)] ring_Write_short [OF assms(1)] in \<open>cases "sz \<le> length p"; simp\<close>)

lemma ring_bytes_bounded: "ring_ok sz r \<Longrightarrow> length (ring_bytes r) \<le> sz"
  by (auto simp: ring_ok_def ring_bytes_def ring_snapshot_def)

interpretation bytes: bounded_log sz "ring_ok sz" "newRing sz" ring_Write ring_bytes for sz
proof unfold_locales
  show "ring_ok sz (newRing sz)" "ring_bytes (newRing sz) = []"
    by (auto simp: ring_ok_def newRing_def ring_bytes_def ring_snapshot_def)
  fix r p assume "ring_ok sz r"
  then show "ring_ok sz (ring_Write r p)" "ring_bytes (ring_Write r p) = last_n sz (ring_bytes r @ p)"
    using ring_Write_ok [of sz r p] ring_bytes_bounded [of sz r] by auto
qed

lemma cut_suffix: "suffix (tl (dropWhile P b)) b"
  by (metis suffix_dropWhile suffix_order.trans suffix_tl)

lemma last_line_start:
  assumes "c \<in> set b"
  shows "\<exists>a. b = a @ c # tl (dropWhile (\<lambda>x. x \<noteq> c) b)"
proof -
  have "dropWhile (\<lambda>x. x \<noteq> c) b \<noteq> []" "hd (dropWhile (\<lambda>x. x \<noteq> c) b) = c"
    using assms hd_dropWhile [of "\<lambda>x. x \<noteq> c" b] by (auto simp: dropWhile_eq_Nil_conv)
  then have "dropWhile (\<lambda>x. x \<noteq> c) b = c # tl (dropWhile (\<lambda>x. x \<noteq> c) b)" by (metis list.collapse)
  then show ?thesis by (metis takeWhile_dropWhile_id)
qed

text \<open>
  The bridge's output ring holds the end of what was written, whatever the writes: it is exactly
  the last \<open>size\<close> bytes of all of them together, and what \<open>String\<close> shows is the end of those, from
  the start of a line on when the beginning is gone and a line starts in what is left.
\<close>

theorem ring_is_the_end_of_the_output:
  "ring_bytes (foldl ring_Write (newRing sz) ws) = last_n sz (concat ws)
   \<and> suffix (ring_String (foldl ring_Write (newRing sz) ws)) (concat ws)
   \<and> (snd (ring_snapshot (foldl ring_Write (newRing sz) ws)) \<and> CHR 0x0A \<in> set (last_n sz (concat ws))
        \<longrightarrow> (\<exists>a. last_n sz (concat ws) = a @ CHR 0x0A # ring_String (foldl ring_Write (newRing sz) ws)))"
proof -
  let ?r = "foldl ring_Write (newRing sz) ws"
  have h: "fst (ring_snapshot ?r) = last_n sz (concat ws)" using bytes.puts_held [of sz ws] by (simp add: ring_bytes_def)
  have "suffix (ring_String ?r) (fst (ring_snapshot ?r))"
    by (auto simp: ring_String_def Let_def cut_suffix split: prod.splits)
  then have "suffix (ring_String ?r) (concat ws)" using h suffix_last_n suffix_order.trans by metis
  moreover have "\<exists>a. fst (ring_snapshot ?r) = a @ CHR 0x0A # ring_String ?r"
    if "snd (ring_snapshot ?r)" "CHR 0x0A \<in> set (fst (ring_snapshot ?r))"
    using that last_line_start [OF that(2)] by (auto simp: ring_String_def split: prod.splits)
  ultimately show ?thesis using h by (simp add: ring_bytes_def)
qed

theorem ring_is_the_end_of_the_output_witness:
  "snd (ring_snapshot (foldl ring_Write (newRing 4) [''ab'', ''cde''])) \<and> ring_bytes (foldl ring_Write (newRing 4) [''ab'', ''cde'']) = ''bcde''"
proof
  show "snd (ring_snapshot (foldl ring_Write (newRing 4) [''ab'', ''cde'']))" by code_simp
qed (use ring_is_the_end_of_the_output [of 4 "[''ab'', ''cde'']"] in \<open>simp add: last_n_def\<close>)

section \<open>The traffic chart\<close>

text \<open>
  \<open>ring\<close> of \<open>internal/remotenodes/usage/ring.go\<close>. Times are Unix seconds; a point's time is its
  step's, \<open>time.Unix(p.step * 5, 0)\<close>, so that sorting by time is sorting by step.
\<close>

definition step_seconds :: int where "step_seconds = 5"
definition ringSlots :: nat where "ringSlots = 180"

datatype chart_slot = Slot (sstep: int) (sup: u64) (sdown: u64)

definition emptyChart :: "chart_slot list" where
  "emptyChart = replicate ringSlots (Slot 0 0 0)"

definition stepOf :: "int \<Rightarrow> int" where
  "stepOf t = go_quot t step_seconds"

definition chart_put :: "int \<Rightarrow> u64 \<Rightarrow> u64 \<Rightarrow> chart_slot list \<Rightarrow> chart_slot list" where
  "chart_put at up down r =
     (let s = stepOf at in if s \<le> 0 then r else r[nat (s mod int ringSlots) := Slot s up down])"

record Point =
  At :: int
  PUp :: u64
  PDown :: u64

definition chart_points :: "int \<Rightarrow> chart_slot list \<Rightarrow> Point list" where
  "chart_points now r =
     (let lst = stepOf now in
      sort_key At (map (\<lambda>p. \<lparr>At = sstep p * step_seconds, PUp = sup p, PDown = sdown p\<rparr>)
        (filter (\<lambda>p. sstep p > lst - int ringSlots \<and> sstep p \<le> lst) r)))"

definition chart_puts :: "(int \<times> u64 \<times> u64) list \<Rightarrow> chart_slot list" where
  "chart_puts ws = fold (\<lambda>(at, up, down). chart_put at up down) ws emptyChart"

definition slot_no :: "int \<Rightarrow> nat" where
  "slot_no s = nat (s mod int ringSlots)"

lemma slot_no_less [simp]: "slot_no s < ringSlots"
  by (simp add: slot_no_def ringSlots_def nat_less_iff)

lemma slot_no_eq: "slot_no s = slot_no s' \<Longrightarrow> s < s' \<Longrightarrow> s \<le> s' - int ringSlots"
proof -
  assume "slot_no s = slot_no s'" and l: "s < s'"
  then have "s mod 180 = s' mod 180" by (simp add: slot_no_def ringSlots_def nat_eq_iff2)
  then have "180 dvd s' - s" by (metis mod_eq_dvd_iff)
  then have "180 \<le> s' - s" using l by (intro zdvd_imp_le) simp_all
  then show ?thesis by (simp add: ringSlots_def)
qed

lemma chart_put_alt: "chart_put at up down r = (if stepOf at \<le> 0 then r else r[slot_no (stepOf at) := Slot (stepOf at) up down])"
  by (simp add: chart_put_def slot_no_def Let_def)

lemma length_chart_puts [simp]: "length (chart_puts ws) = ringSlots"
  by (induction ws rule: rev_induct) (auto simp: chart_puts_def emptyChart_def chart_put_alt)

lemma chart_puts_snoc: "chart_puts (ws @ [(at, up, down)]) = chart_put at up down (chart_puts ws)"
  by (simp add: chart_puts_def)

text \<open>A slot holds the last point put into it.\<close>

definition slot_of :: "(int \<times> u64 \<times> u64) option \<Rightarrow> chart_slot" where
  "slot_of w = (case w of None \<Rightarrow> Slot 0 0 0 | Some (at, up, down) \<Rightarrow> Slot (stepOf at) up down)"

lemma chart_slot_latest:
  assumes "k < ringSlots"
  shows "chart_puts ws ! k = slot_of (find (\<lambda>w. 0 < stepOf (fst w) \<and> slot_no (stepOf (fst w)) = k) (rev ws))"
proof (induction ws rule: rev_induct)
  case Nil
  then show ?case using assms by (simp add: chart_puts_def emptyChart_def slot_of_def)
next
  case (snoc w ws)
  obtain at up down where w: "w = (at, up, down)" by (cases w) auto
  show ?case using snoc assms by (auto simp: w chart_puts_snoc chart_put_alt slot_of_def)
qed

text \<open>The last point put in a step.\<close>

definition last_of_step :: "(int \<times> u64 \<times> u64) list \<Rightarrow> int \<Rightarrow> (int \<times> u64 \<times> u64) option" where
  "last_of_step ws s = find (\<lambda>w. stepOf (fst w) = s) (rev ws)"

text \<open>
  Once steps come in order, nothing of the window shares its slot with a later step: a later one
  would be a whole window ahead.
\<close>

lemma find_step:
  assumes "sorted_wrt (\<lambda>a b. stepOf (fst b) \<le> stepOf (fst a)) xs" "\<forall>w \<in> set xs. stepOf (fst w) \<le> lst"
    "lst - int ringSlots < s" "0 < s" "find (\<lambda>w. stepOf (fst w) = s) xs \<noteq> None"
  shows "find (\<lambda>w. 0 < stepOf (fst w) \<and> slot_no (stepOf (fst w)) = slot_no s) xs = find (\<lambda>w. stepOf (fst w) = s) xs"
  using assms
proof (induction xs)
  case (Cons x xs)
  show ?case
  proof (cases "stepOf (fst x) = s")
    case False
    then have "find (\<lambda>w. stepOf (fst w) = s) xs \<noteq> None" using Cons.prems(5) by simp
    then obtain w where w: "w \<in> set xs" "stepOf (fst w) = s" by (auto simp: find_None_iff)
    then have "s < stepOf (fst x)" using Cons.prems(1) False by fastforce
    moreover have "stepOf (fst x) \<le> lst" using Cons.prems(2) by simp
    ultimately have "slot_no (stepOf (fst x)) \<noteq> slot_no s" using slot_no_eq [of s "stepOf (fst x)"] Cons.prems(3) by auto
    then show ?thesis using Cons False by simp
  qed (use Cons.prems(4) in simp)
qed simp

lemma chart_window:
  assumes "sorted (map (stepOf \<circ> fst) ws)" "\<forall>w \<in> set ws. stepOf (fst w) \<le> lst" "lst - int ringSlots < s" "0 < s"
  shows "Slot s up down \<in> set (chart_puts ws) \<longleftrightarrow> (\<exists>at. last_of_step ws s = Some (at, up, down))"
proof -
  let ?P = "\<lambda>k w. 0 < stepOf (fst w) \<and> slot_no (stepOf (fst w)) = k"
  have d: "sorted_wrt (\<lambda>a b. stepOf (fst b) \<le> stepOf (fst a)) (rev ws)"
    using assms(1) by (simp add: sorted_map sorted_wrt_rev)
  have f: "find (?P (slot_no s)) (rev ws) = last_of_step ws s" if "last_of_step ws s \<noteq> None"
    using find_step [OF d _ assms(3,4)] assms(2) that by (simp add: last_of_step_def)
  show ?thesis
  proof
    assume "Slot s up down \<in> set (chart_puts ws)"
    then obtain k where k: "k < ringSlots" "slot_of (find (?P k) (rev ws)) = Slot s up down"
      by (auto simp: in_set_conv_nth chart_slot_latest)
    then obtain at where w: "find (?P k) (rev ws) = Some (at, up, down)" "stepOf at = s"
      using assms(4) by (auto simp: slot_of_def split: option.splits)
    have "(at, up, down) \<in> set ws" "slot_no s = k" using find_SomeD [OF w(1)] w(2) by auto
    moreover have "last_of_step ws s \<noteq> None" using calculation(1) w(2) by (auto simp: last_of_step_def find_None_iff)
    ultimately show "\<exists>at. last_of_step ws s = Some (at, up, down)" using f w(1) by auto
  next
    assume "\<exists>at. last_of_step ws s = Some (at, up, down)"
    then obtain at where l: "last_of_step ws s = Some (at, up, down)" by blast
    then have "stepOf at = s" using find_SomeD [of _ "rev ws"] by (fastforce simp: last_of_step_def)
    then have "chart_puts ws ! slot_no s = Slot s up down" using f l by (simp add: chart_slot_latest slot_of_def)
    then show "Slot s up down \<in> set (chart_puts ws)" by (metis length_chart_puts nth_mem slot_no_less)
  qed
qed

lemma chart_slot_place: "k < ringSlots \<Longrightarrow> sstep (chart_puts ws ! k) \<noteq> 0 \<Longrightarrow> slot_no (sstep (chart_puts ws ! k)) = k"
  by (auto simp: chart_slot_latest slot_of_def split: option.splits dest: find_SomeD)

lemma distinct_by_place:
  assumes "\<And>i. i < length xs \<Longrightarrow> Q (xs ! i) \<Longrightarrow> g (f (xs ! i)) = i"
  shows "distinct (map f (filter Q xs))"
  using assms
proof (induction xs rule: rev_induct)
  case (snoc x xs)
  have "g (f (xs ! i)) = i" if "i < length xs" "Q (xs ! i)" for i using snoc.prems [of i] that by (simp add: nth_append)
  then have d: "distinct (map f (filter Q xs))" "\<And>y. y \<in> set xs \<Longrightarrow> Q y \<Longrightarrow> g (f y) < length xs"
    using snoc.IH by (auto simp: in_set_conv_nth)
  moreover have "Q x \<Longrightarrow> g (f x) = length xs" using snoc.prems [of "length xs"] by simp
  ultimately show ?case by (auto simp: image_iff) (metis less_irrefl)
qed simp

lemma strictly_sorted: "sorted (xs :: 'a :: linorder list) \<Longrightarrow> distinct xs \<Longrightarrow> sorted_wrt (<) xs"
  by (simp add: strict_sorted_iff)

text \<open>
  The chart is the last window of what was polled. When the clock only goes forward, the points
  shown at \<open>now\<close> are exactly one for each five-second step of the last quarter of an hour in which a
  poll fell, with the rates of the last poll of that step, in the order of time and none twice.
\<close>

theorem chart_is_the_last_window:
  assumes "sorted (map (stepOf \<circ> fst) ws)" "\<forall>w \<in> set ws. stepOf (fst w) \<le> stepOf now" "int ringSlots \<le> stepOf now"
  shows "sorted_wrt (<) (map At (chart_points now (chart_puts ws)))
    \<and> (\<lparr>At = t, PUp = up, PDown = down\<rparr> \<in> set (chart_points now (chart_puts ws)) \<longleftrightarrow>
        (\<exists>s at. t = s * step_seconds \<and> stepOf now - int ringSlots < s \<and> s \<le> stepOf now \<and> last_of_step ws s = Some (at, up, down)))"
proof
  let ?Q = "\<lambda>p. stepOf now - int ringSlots < sstep p \<and> sstep p \<le> stepOf now"
  let ?m = "\<lambda>p. \<lparr>At = sstep p * step_seconds, PUp = sup p, PDown = sdown p\<rparr>"
  have pts: "chart_points now (chart_puts ws) = sort_key At (map ?m (filter ?Q (chart_puts ws)))"
    by (simp add: chart_points_def Let_def)
  have "slot_no (At (?m (chart_puts ws ! i)) div step_seconds) = i" if "i < length (chart_puts ws)" "?Q (chart_puts ws ! i)" for i
    using chart_slot_place [of i ws] that assms(3) by (simp add: step_seconds_def)
  then have "distinct (map (At \<circ> ?m) (filter ?Q (chart_puts ws)))"
    by (intro distinct_by_place [where g = "\<lambda>t. slot_no (t div step_seconds)"]) simp
  then have "distinct (map At (map ?m (filter ?Q (chart_puts ws))))" by (simp only: map_map)
  then have "distinct (map At (chart_points now (chart_puts ws)))" by (simp only: pts distinct_map distinct_sort set_sort)
  then show "sorted_wrt (<) (map At (chart_points now (chart_puts ws)))" by (intro strictly_sorted) (simp only: pts sorted_sort_key)
  have "0 < s" if "stepOf now - int ringSlots < s" for s using that assms(3) by simp
  then have "Slot s up down \<in> set (chart_puts ws) \<longleftrightarrow> (\<exists>at. last_of_step ws s = Some (at, up, down))" if "stepOf now - int ringSlots < s" for s
    using chart_window [OF assms(1,2)] that by blast
  moreover have "\<lparr>At = t, PUp = up, PDown = down\<rparr> \<in> set (chart_points now (chart_puts ws)) \<longleftrightarrow>
      (\<exists>s. t = s * step_seconds \<and> stepOf now - int ringSlots < s \<and> s \<le> stepOf now \<and> Slot s up down \<in> set (chart_puts ws))"
    unfolding pts set_sort set_map set_filter image_iff by (metis (mono_tags, lifting) Point.ext_inject chart_slot.collapse chart_slot.sel mem_Collect_eq)
  ultimately show "\<lparr>At = t, PUp = up, PDown = down\<rparr> \<in> set (chart_points now (chart_puts ws)) \<longleftrightarrow>
      (\<exists>s at. t = s * step_seconds \<and> stepOf now - int ringSlots < s \<and> s \<le> stepOf now \<and> last_of_step ws s = Some (at, up, down))" by metis
qed

theorem chart_is_the_last_window_witness:
  "\<lparr>At = 1000, PUp = 3, PDown = 4\<rparr> \<in> set (chart_points 1009 (chart_puts [(1000, 1, 2), (1004, 3, 4), (1007, 5, 6)]))"
proof -
  have s: "stepOf 1000 = 200" "stepOf 1004 = 200" "stepOf 1007 = 201" "stepOf 1009 = 201"
    by (simp_all add: stepOf_def go_quot_def step_seconds_def)
  then show ?thesis
    using chart_is_the_last_window [of "[(1000, 1, 2), (1004, 3, 4), (1007, 5, 6)]" 1009 1000 3 4]
    by (simp add: last_of_step_def ringSlots_def step_seconds_def)
qed

end
