(* ===== verification/Traffic_Store.thy ===== *)
theory Traffic_Store
  imports Go_Maps "HOL-Library.Multiset"
begin

text \<open>
  The agent's traffic buffer, \<open>internal/agent/traffic\<close>: the buckets of \<open>store.go\<close> and
  \<open>memory_store.go\<close>, the file behind them (\<open>file_store.go\<close>, at the level of the document that is
  marshalled) and the collector of \<open>collector.go\<close> that turns Xray's cumulative counters into
  buckets. Counters are Go's \<open>int64\<close>, additions and subtractions wrap. Times are Unix seconds and
  durations whole seconds; a duration below a second is a division by zero in \<open>truncateTime\<close>, the
  value \<open>None\<close>.
\<close>

type_synonym counters = "(string \<times> int) list"

datatype CoreUsageCounts = CoreUsageCounts (Uplink: int) (Downlink: int)

instantiation CoreUsageCounts :: zero
begin

definition zero_CoreUsageCounts :: CoreUsageCounts where
  "zero_CoreUsageCounts = CoreUsageCounts 0 0"

instance ..

end

instantiation list :: (type) zero
begin

definition zero_list :: "'a list" where "zero_list = []"

instance ..

end

record XrayStatsSnapshot =
  UserUplink :: counters
  UserDownlink :: counters
  InboundUplink :: counters
  InboundDownlink :: counters
  OutboundUplink :: counters
  OutboundDownlink :: counters
  TotalUplink :: int
  TotalDownlink :: int
  CoreUsage :: "(string \<times> (string \<times> CoreUsageCounts) list) list"

record TrafficBucket = XrayStatsSnapshot +
  Timestamp :: int

record MemoryStore =
  buckets :: "(int \<times> TrafficBucket) list"
  baseline :: "XrayStatsSnapshot option"
  bucketDuration :: int
  retention :: int

definition NewMemoryStore :: "int \<Rightarrow> int \<Rightarrow> MemoryStore" where
  "NewMemoryStore dur ret = \<lparr>buckets = [], baseline = None, bucketDuration = dur, retention = ret\<rparr>"

section \<open>The store\<close>

definition truncateTime :: "MemoryStore \<Rightarrow> int \<Rightarrow> int option" where
  "truncateTime s t = (let secs = bucketDuration s in if secs = 0 then None else Some (go_quot t secs * secs))"

definition newBucket :: "int \<Rightarrow> TrafficBucket" where
  "newBucket ts = \<lparr>UserUplink = [], UserDownlink = [], InboundUplink = [], InboundDownlink = [],
     OutboundUplink = [], OutboundDownlink = [], TotalUplink = 0, TotalDownlink = 0, CoreUsage = [], Timestamp = ts\<rparr>"

definition merge_counts :: "counters \<Rightarrow> counters \<Rightarrow> counters" where
  "merge_counts src dst = fold (\<lambda>(k, v) m. AList.update k (wrap64 (get m k + v)) m) src dst"

definition merge_core :: "(string \<times> (string \<times> CoreUsageCounts) list) list \<Rightarrow> (string \<times> (string \<times> CoreUsageCounts) list) list
    \<Rightarrow> (string \<times> (string \<times> CoreUsageCounts) list) list" where
  "merge_core src dst =
     fold (\<lambda>(proto, byEmail) m.
       AList.update proto
         (fold (\<lambda>(email, c) d.
            let cur = get d email
            in AList.update email (CoreUsageCounts (wrap64 (Uplink cur + Uplink c)) (wrap64 (Downlink cur + Downlink c))) d)
          byEmail (get m proto)) m)
       src dst"

definition merge_bucket :: "XrayStatsSnapshot \<Rightarrow> TrafficBucket \<Rightarrow> TrafficBucket" where
  "merge_bucket snap b =
     b\<lparr>UserUplink := merge_counts (UserUplink snap) (UserUplink b),
       UserDownlink := merge_counts (UserDownlink snap) (UserDownlink b),
       CoreUsage := merge_core (CoreUsage snap) (CoreUsage b),
       InboundUplink := merge_counts (InboundUplink snap) (InboundUplink b),
       InboundDownlink := merge_counts (InboundDownlink snap) (InboundDownlink b),
       OutboundUplink := merge_counts (OutboundUplink snap) (OutboundUplink b),
       OutboundDownlink := merge_counts (OutboundDownlink snap) (OutboundDownlink b),
       TotalUplink := wrap64 (TotalUplink b + TotalUplink snap),
       TotalDownlink := wrap64 (TotalDownlink b + TotalDownlink snap)\<rparr>"

text \<open>\<open>Accumulate\<close>: the merge into the bucket of the hour, then the eviction of expired buckets.\<close>

definition filed :: "XrayStatsSnapshot \<Rightarrow> int \<Rightarrow> (int \<times> TrafficBucket) list \<Rightarrow> (int \<times> TrafficBucket) list" where
  "filed snap ts bs =
     AList.update ts (merge_bucket snap (case map_of bs ts of None \<Rightarrow> newBucket ts | Some b \<Rightarrow> b)) bs"

definition Accumulate :: "XrayStatsSnapshot option \<Rightarrow> int \<Rightarrow> MemoryStore \<Rightarrow> MemoryStore option" where
  "Accumulate snapshot now s =
     (case snapshot of
        None \<Rightarrow> Some s
      | Some snap \<Rightarrow>
          (case truncateTime s now of
             None \<Rightarrow> None
           | Some ts \<Rightarrow>
               let cutoff = now - retention s
               in Some (s\<lparr>buckets := filter (\<lambda>(ts, b). \<not> ts < cutoff) (filed snap ts (buckets s))\<rparr>)))"

definition GetAll :: "MemoryStore \<Rightarrow> TrafficBucket list" where
  "GetAll s = sort_key Timestamp (map snd (buckets s))"

definition Drain :: "int \<Rightarrow> MemoryStore \<Rightarrow> MemoryStore" where
  "Drain throughTime s = s\<lparr>buckets := filter (\<lambda>(ts, b). \<not> ts \<le> throughTime) (buckets s)\<rparr>"

text \<open>\<open>cloneSnapshot\<close> copies the counters and leaves the core usage out.\<close>

definition cloneSnapshot :: "XrayStatsSnapshot option \<Rightarrow> XrayStatsSnapshot option" where
  "cloneSnapshot src = map_option (\<lambda>s. s\<lparr>CoreUsage := []\<rparr>) src"

definition GetBaseline :: "MemoryStore \<Rightarrow> XrayStatsSnapshot option" where
  "GetBaseline s = cloneSnapshot (baseline s)"

definition SetBaseline :: "XrayStatsSnapshot option \<Rightarrow> MemoryStore \<Rightarrow> MemoryStore" where
  "SetBaseline snapshot s = s\<lparr>baseline := cloneSnapshot snapshot\<rparr>"

definition emptySnapshot :: XrayStatsSnapshot where
  "emptySnapshot = \<lparr>UserUplink = [], UserDownlink = [], InboundUplink = [], InboundDownlink = [],
     OutboundUplink = [], OutboundDownlink = [], TotalUplink = 0, TotalDownlink = 0, CoreUsage = []\<rparr>"

definition agg_bucket :: "TrafficBucket \<Rightarrow> XrayStatsSnapshot \<Rightarrow> XrayStatsSnapshot" where
  "agg_bucket b agg =
     agg\<lparr>UserUplink := merge_counts (UserUplink b) (UserUplink agg),
         UserDownlink := merge_counts (UserDownlink b) (UserDownlink agg),
         InboundUplink := merge_counts (InboundUplink b) (InboundUplink agg),
         InboundDownlink := merge_counts (InboundDownlink b) (InboundDownlink agg),
         OutboundUplink := merge_counts (OutboundUplink b) (OutboundUplink agg),
         OutboundDownlink := merge_counts (OutboundDownlink b) (OutboundDownlink agg),
         TotalUplink := wrap64 (TotalUplink agg + TotalUplink b),
         TotalDownlink := wrap64 (TotalDownlink agg + TotalDownlink b)\<rparr>"

definition Aggregate :: "MemoryStore \<Rightarrow> XrayStatsSnapshot" where
  "Aggregate s = fold agg_bucket (map snd (buckets s)) emptySnapshot"

definition DrainAll :: "MemoryStore \<Rightarrow> XrayStatsSnapshot \<times> MemoryStore" where
  "DrainAll s = (Aggregate s, s\<lparr>buckets := []\<rparr>)"

section \<open>The collector\<close>

definition diffMap :: "counters \<Rightarrow> counters \<Rightarrow> counters" where
  "diffMap prev cur = List.map_filter (\<lambda>(k, c).
     if c \<le> 0 then None
     else let p = get prev k in
       if c < p then Some (k, c) else if c > p then Some (k, wrap64 (c - p)) else None) cur"

definition diffInt64 :: "int \<Rightarrow> int \<Rightarrow> int" where
  "diffInt64 prev cur = (if cur < prev then cur else wrap64 (cur - prev))"

definition diffSnapshot :: "XrayStatsSnapshot option \<Rightarrow> XrayStatsSnapshot option \<Rightarrow> XrayStatsSnapshot" where
  "diffSnapshot prev cur =
     (case cur of None \<Rightarrow> emptySnapshot
      | Some c \<Rightarrow>
          (case prev of None \<Rightarrow> c\<lparr>CoreUsage := []\<rparr>
           | Some p \<Rightarrow>
               \<lparr>UserUplink = diffMap (UserUplink p) (UserUplink c), UserDownlink = diffMap (UserDownlink p) (UserDownlink c),
                InboundUplink = diffMap (InboundUplink p) (InboundUplink c), InboundDownlink = diffMap (InboundDownlink p) (InboundDownlink c),
                OutboundUplink = diffMap (OutboundUplink p) (OutboundUplink c), OutboundDownlink = diffMap (OutboundDownlink p) (OutboundDownlink c),
                TotalUplink = diffInt64 (TotalUplink p) (TotalUplink c), TotalDownlink = diffInt64 (TotalDownlink p) (TotalDownlink c),
                CoreUsage = []\<rparr>))"

definition snapshotIsEmpty :: "XrayStatsSnapshot \<Rightarrow> bool" where
  "snapshotIsEmpty s \<longleftrightarrow>
     \<not> (TotalUplink s \<noteq> 0 \<or> TotalDownlink s \<noteq> 0)
     \<and> UserUplink s = [] \<and> UserDownlink s = [] \<and> InboundUplink s = [] \<and> InboundDownlink s = []
     \<and> OutboundUplink s = [] \<and> OutboundDownlink s = []"

text \<open>
  \<open>collect\<close> in its two halves: the store sees the delta first and the new baseline after it. Other
  goroutines (the flush of the file, a drain) can run in between. \<open>stats\<close> is what Xray answered,
  \<open>None\<close> for an error; the collector's own \<open>baseline\<close> is the first component of the state.
\<close>

definition collect_delta :: "XrayStatsSnapshot \<Rightarrow> int \<Rightarrow> XrayStatsSnapshot option \<times> MemoryStore \<Rightarrow> (XrayStatsSnapshot option \<times> MemoryStore) option" where
  "collect_delta current now st =
     (case st of (bl, s) \<Rightarrow>
        let delta = diffSnapshot bl (Some current) in
        if \<not> snapshotIsEmpty delta then map_option (\<lambda>s. (Some current, s)) (Accumulate (Some delta) now s)
        else Some (Some current, s))"

definition collect :: "XrayStatsSnapshot option \<Rightarrow> int \<Rightarrow> XrayStatsSnapshot option \<times> MemoryStore \<Rightarrow> (XrayStatsSnapshot option \<times> MemoryStore) option" where
  "collect stats now st =
     (case stats of None \<Rightarrow> Some st
      | Some q \<Rightarrow>
          let current = q\<lparr>CoreUsage := []\<rparr>
          in map_option (\<lambda>(bl, s). (bl, SetBaseline (Some current) s)) (collect_delta current now st))"

section \<open>The file\<close>

record fileStoreData =
  fVersion :: int
  fBuckets :: "TrafficBucket list"
  fBaseline :: "XrayStatsSnapshot option"

definition fileStoreVersion :: int where "fileStoreVersion = 2"

text \<open>\<open>flush\<close> up to the document it writes; \<open>loadFromDisk\<close> of a document that unmarshals (\<open>None\<close>: a
  missing or a corrupt file).\<close>

definition fs_flush :: "MemoryStore \<Rightarrow> fileStoreData" where
  "fs_flush s = \<lparr>fVersion = fileStoreVersion, fBuckets = GetAll s, fBaseline = GetBaseline s\<rparr>"

definition loadFromDisk :: "fileStoreData option \<Rightarrow> MemoryStore \<Rightarrow> MemoryStore" where
  "loadFromDisk data s =
     (case data of None \<Rightarrow> s
      | Some d \<Rightarrow>
          if fVersion d \<noteq> 1 \<and> fVersion d \<noteq> fileStoreVersion then s
          else let s = s\<lparr>buckets := fold (\<lambda>b m. AList.update (Timestamp b) b m) (fBuckets d) (buckets s)\<rparr>
               in if fBaseline d \<noteq> None then s\<lparr>baseline := fBaseline d\<rparr> else s)"

definition NewFileStore :: "fileStoreData option \<Rightarrow> int \<Rightarrow> int \<Rightarrow> MemoryStore" where
  "NewFileStore data dur ret = loadFromDisk data (NewMemoryStore dur ret)"

section \<open>Counters, uniformly\<close>

datatype field = UserUp | UserDown | InUp | InDown | OutUp | OutDown

fun cnt :: "field \<Rightarrow> 'a XrayStatsSnapshot_scheme \<Rightarrow> counters" where
  "cnt UserUp s = UserUplink s"
| "cnt UserDown s = UserDownlink s"
| "cnt InUp s = InboundUplink s"
| "cnt InDown s = InboundDownlink s"
| "cnt OutUp s = OutboundUplink s"
| "cnt OutDown s = OutboundDownlink s"

lemma cnt_simps [simp]:
  "cnt f (merge_bucket snap b) = merge_counts (cnt f snap) (cnt f b)"
  "cnt f (newBucket ts) = []"
  "cnt f (c\<lparr>CoreUsage := cu\<rparr>) = cnt f c"
  "cnt f (diffSnapshot (Some p) (Some c)) = diffMap (cnt f p) (cnt f c)"
  "cnt f (diffSnapshot None (Some c)) = cnt f c"
  by (cases f; simp add: merge_bucket_def newBucket_def diffSnapshot_def)+

lemma snapshotIsEmpty_cnt: "snapshotIsEmpty s \<Longrightarrow> cnt f s = []"
  by (cases f) (simp_all add: snapshotIsEmpty_def)

lemma Timestamp_merge [simp]: "Timestamp (merge_bucket snap b) = Timestamp b" "Timestamp (newBucket ts) = ts"
  by (simp_all add: merge_bucket_def newBucket_def)

lemma get_merge_counts:
  "distinct (keys src) \<Longrightarrow> get (merge_counts src dst) k = (case map_of src k of None \<Rightarrow> get dst k | Some v \<Rightarrow> wrap64 (get dst k + v))"
proof (induction src arbitrary: dst)
  case (Cons kv src)
  obtain k' v where kv: "kv = (k', v)" by fastforce
  have "map_of src k' = None" using Cons.prems kv by (simp add: map_of_eq_None_iff)
  then show ?case using Cons kv by (cases "k = k'") (simp_all add: merge_counts_def split: option.split)
qed (simp add: merge_counts_def)

lemma distinct_merge_counts: "distinct (keys dst) \<Longrightarrow> distinct (keys (merge_counts src dst))"
  unfolding merge_counts_def by (induction src arbitrary: dst) (auto split: prod.splits)

lemma get_merge_exact:
  assumes "distinct (keys src)" "0 \<le> get dst k" "0 \<le> get src k" "get dst k + get src k \<le> int64_max"
  shows "get (merge_counts src dst) k = get dst k + get src k"
proof (cases "map_of src k")
  case None
  then show ?thesis using assms(1) by (simp add: get_merge_counts get_def [of src])
next
  case (Some v)
  then have "get src k = v" by (simp add: get_def)
  then show ?thesis using assms Some by (simp add: get_merge_counts wrap64_id int64_min_def)
qed

lemma diffMap_Cons: "diffMap p ((k, v) # c) =
  (if v \<le> 0 \<or> v = get p k then diffMap p c else (k, if v < get p k then v else wrap64 (v - get p k)) # diffMap p c)"
  by (auto simp: diffMap_def List.map_filter_simps Let_def)

lemma diffMap_Nil [simp]: "diffMap p [] = []"
  by (simp add: diffMap_def List.map_filter_simps)

lemma keys_diffMap: "set (keys (diffMap p c)) \<subseteq> set (keys c)"
proof (induction c)
  case (Cons kv c)
  then show ?case by (cases kv) (auto simp: diffMap_Cons subset_iff simp del: set_map)
qed simp

lemma distinct_diffMap: "distinct (keys c) \<Longrightarrow> distinct (keys (diffMap p c))"
proof (induction c)
  case (Cons kv c)
  then show ?case using keys_diffMap [of p c] by (cases kv) (auto simp: diffMap_Cons simp del: set_map)
qed simp

lemma get_diffMap:
  assumes "distinct (keys c)"
  shows "get (diffMap p c) k = (if get c k \<le> 0 then 0 else if get c k < get p k then get c k else wrap64 (get c k - get p k))"
  using assms
proof (induction c)
  case Nil
  then show ?case by simp
next
  case (Cons kv c)
  obtain k' v where kv: "kv = (k', v)" by fastforce
  have IH: "get (diffMap p c) k = (if get c k \<le> 0 then 0 else if get c k < get p k then get c k else wrap64 (get c k - get p k))"
    using Cons by simp
  have "k' \<notin> set (keys c)" using Cons.prems kv by simp
  then have "get c k' = 0" "get (diffMap p c) k' = 0" using keys_diffMap [of p c] by (auto intro!: get_out simp del: set_map)
  then show ?case using IH kv
    by (auto simp: diffMap_Cons get_Cons wrap64_id int64_min_def int64_max_def)
qed

section \<open>What the buffer holds\<close>

definition buffered :: "(int \<times> TrafficBucket) list \<Rightarrow> field \<Rightarrow> string \<Rightarrow> int" where
  "buffered bs f k = (\<Sum>(ts, b) \<leftarrow> bs. get (cnt f b) k)"

definition bucket_ok :: "int \<times> TrafficBucket \<Rightarrow> bool" where
  "bucket_ok tb \<longleftrightarrow> Timestamp (snd tb) = fst tb \<and> (\<forall>f. distinct (keys (cnt f (snd tb))) \<and> (\<forall>k. 0 \<le> get (cnt f (snd tb)) k))"

definition buckets_ok :: "(int \<times> TrafficBucket) list \<Rightarrow> bool" where
  "buckets_ok bs \<longleftrightarrow> distinct (keys bs) \<and> (\<forall>tb \<in> set bs. bucket_ok tb)"

lemma buckets_ok_Nil [simp]: "buckets_ok []"
  by (simp add: buckets_ok_def)

lemma buckets_ok_filter: "buckets_ok bs \<Longrightarrow> buckets_ok (filter P bs)"
  by (simp add: buckets_ok_def)

lemma buffered_nonneg: "buckets_ok bs \<Longrightarrow> 0 \<le> buffered bs f k"
  unfolding buffered_def by (rule sum_list_nonneg) (auto simp: buckets_ok_def bucket_ok_def)

lemma buffered_split: "buffered (filter P bs) f k + buffered (filter (\<lambda>tb. \<not> P tb) bs) f k = buffered bs f k"
  by (induction bs) (auto simp: buffered_def)

lemma buffered_update:
  "distinct (keys bs) \<Longrightarrow>
   buffered (AList.update ts b bs) f k = buffered bs f k + get (cnt f b) k - (case map_of bs ts of None \<Rightarrow> 0 | Some b0 \<Rightarrow> get (cnt f b0) k)"
  by (induction bs) (auto simp: buffered_def map_of_eq_None_iff split: option.splits dest: map_of_SomeD)

lemma bucket_le_buffered: "buckets_ok bs \<Longrightarrow> map_of bs ts = Some b \<Longrightarrow> get (cnt f b) k \<le> buffered bs f k"
proof -
  assume a: "buckets_ok bs" "map_of bs ts = Some b"
  then have "(ts, b) \<in> set bs" by (simp add: map_of_SomeD)
  then have "get (cnt f b) k \<in> set (map (\<lambda>(ts, b). get (cnt f b) k) bs)" by force
  moreover have "\<forall>x \<in> set (map (\<lambda>(ts, b). get (cnt f b) k) bs). 0 \<le> x" using a(1) by (auto simp: buckets_ok_def bucket_ok_def)
  ultimately show ?thesis unfolding buffered_def using elem_le_sum_list by (meson member_le_sum_list)
qed

lemma filed_ok:
  assumes bs: "buckets_ok bs" and snap: "\<And>f. distinct (keys (cnt f snap))" "\<And>f k. 0 \<le> get (cnt f snap) k"
    and fits: "\<And>f k. buffered bs f k + get (cnt f snap) k \<le> int64_max"
  shows "buckets_ok (filed snap ts bs) \<and> buffered (filed snap ts bs) f k = buffered bs f k + get (cnt f snap) k"
proof -
  let ?b = "case map_of bs ts of None \<Rightarrow> newBucket ts | Some b \<Rightarrow> b"
  have b: "bucket_ok (ts, ?b)" using bs by (auto simp: buckets_ok_def bucket_ok_def split: option.splits dest!: map_of_SomeD)
  have "get (cnt f ?b) k \<le> buffered bs f k" for f k using bucket_le_buffered [OF bs] buffered_nonneg [OF bs] by (auto split: option.splits)
  then have m: "get (cnt f (merge_bucket snap ?b)) k = get (cnt f ?b) k + get (cnt f snap) k" for f k
    using b snap by (subst cnt_simps, intro get_merge_exact) (auto simp: bucket_ok_def intro: order_trans [OF add_right_mono fits])
  then have "bucket_ok (ts, merge_bucket snap ?b)" using b snap by (simp add: bucket_ok_def distinct_merge_counts)
  then have "buckets_ok (filed snap ts bs)" using bs update_elems [of ts "merge_bucket snap ?b" bs] by (auto simp: buckets_ok_def filed_def)
  moreover have "buffered (filed snap ts bs) f k = buffered bs f k + get (cnt f snap) k"
    using bs m by (auto simp: filed_def buffered_update buckets_ok_def split: option.splits)
  ultimately show ?thesis by blast
qed

section \<open>A restart loses nothing and counts nothing twice\<close>

text \<open>
  Everything the agent does with the buffer, as steps: Xray's counters grow, the collector reads
  them (or gets no answer), the hub has buckets dropped, the file is written, the agent starts again
  from the file. \<open>aGone\<close> is not part of the program: it adds up the bytes of the buckets that have
  left the buffer, acknowledged or expired, and \<open>aGoneDisk\<close> is the same as of the last write.
\<close>

record agent_sys =
  aBase :: "XrayStatsSnapshot option"
  aMem :: MemoryStore
  aDisk :: "fileStoreData option"
  aXray :: XrayStatsSnapshot
  aGone :: "field \<Rightarrow> string \<Rightarrow> int"
  aGoneDisk :: "field \<Rightarrow> string \<Rightarrow> int"

definition xray_ok :: "XrayStatsSnapshot \<Rightarrow> bool" where
  "xray_ok x \<longleftrightarrow> (\<forall>f. distinct (keys (cnt f x)) \<and> (\<forall>k. 0 \<le> get (cnt f x) k \<and> get (cnt f x) k \<le> int64_max))"

definition grows :: "XrayStatsSnapshot \<Rightarrow> XrayStatsSnapshot \<Rightarrow> bool" where
  "grows x y \<longleftrightarrow> (\<forall>f k. get (cnt f x) k \<le> get (cnt f y) k)"

text \<open>The bytes of the buckets that expire in a collection.\<close>

definition expired :: "XrayStatsSnapshot \<Rightarrow> int \<Rightarrow> XrayStatsSnapshot option \<times> MemoryStore \<Rightarrow> field \<Rightarrow> string \<Rightarrow> int" where
  "expired current now st f k =
     (case st of (bl, s) \<Rightarrow>
        let delta = diffSnapshot bl (Some current) in
        if snapshotIsEmpty delta then 0
        else (case truncateTime s now of None \<Rightarrow> 0
              | Some ts \<Rightarrow> buffered (filter (\<lambda>(ts, b). ts < now - retention s) (filed delta ts (buckets s))) f k))"

inductive agent_run :: "int \<Rightarrow> int \<Rightarrow> agent_sys \<Rightarrow> bool" for dur ret where
  start: "xray_ok x \<Longrightarrow> agent_run dur ret
    \<lparr>aBase = None, aMem = NewMemoryStore dur ret, aDisk = None, aXray = x, aGone = \<lambda>f k. 0, aGoneDisk = \<lambda>f k. 0\<rparr>"
| traffic: "agent_run dur ret s \<Longrightarrow> xray_ok y \<Longrightarrow> grows (aXray s) y \<Longrightarrow> agent_run dur ret (s\<lparr>aXray := y\<rparr>)"
| silent: "agent_run dur ret s \<Longrightarrow> collect None now (aBase s, aMem s) = Some (b, m) \<Longrightarrow> agent_run dur ret (s\<lparr>aBase := b, aMem := m\<rparr>)"
| tick: "agent_run dur ret s \<Longrightarrow> collect (Some (aXray s)) now (aBase s, aMem s) = Some (b, m) \<Longrightarrow>
    agent_run dur ret (s\<lparr>aBase := b, aMem := m, aGone := \<lambda>f k. aGone s f k + expired ((aXray s)\<lparr>CoreUsage := []\<rparr>) now (aBase s, aMem s) f k\<rparr>)"
| drain: "agent_run dur ret s \<Longrightarrow>
    agent_run dur ret (s\<lparr>aMem := Drain t (aMem s), aGone := \<lambda>f k. aGone s f k + buffered (filter (\<lambda>(ts, b). ts \<le> t) (buckets (aMem s))) f k\<rparr>)"
| flush: "agent_run dur ret s \<Longrightarrow> agent_run dur ret (s\<lparr>aDisk := Some (fs_flush (aMem s)), aGoneDisk := aGone s\<rparr>)"
| restart: "agent_run dur ret s \<Longrightarrow>
    agent_run dur ret (s\<lparr>aMem := NewFileStore (aDisk s) dur ret, aBase := GetBaseline (NewFileStore (aDisk s) dur ret), aGone := aGoneDisk s\<rparr>)"

text \<open>A buffer and the baseline it belongs to: together they account for every byte Xray had counted.\<close>

definition base_of :: "XrayStatsSnapshot option \<Rightarrow> field \<Rightarrow> string \<Rightarrow> int" where
  "base_of bl f k = (case bl of None \<Rightarrow> 0 | Some b \<Rightarrow> get (cnt f b) k)"

definition accounts :: "(int \<times> TrafficBucket) list \<Rightarrow> (field \<Rightarrow> string \<Rightarrow> int) \<Rightarrow> XrayStatsSnapshot option \<Rightarrow> XrayStatsSnapshot \<Rightarrow> bool" where
  "accounts bs gone bl x \<longleftrightarrow> buckets_ok bs \<and> (\<forall>f k. 0 \<le> gone f k \<and> buffered bs f k + gone f k = base_of bl f k \<and> base_of bl f k \<le> get (cnt f x) k)"

lemma base_of_clone [simp]: "base_of (cloneSnapshot bl) = base_of bl"
  by (rule ext)+ (simp add: base_of_def cloneSnapshot_def split: option.splits)

lemma accounts_cong: "base_of bl = base_of bl' \<Longrightarrow> accounts bs gone bl x = accounts bs gone bl' x"
  by (simp add: accounts_def)

lemma accounts_mono: "accounts bs gone bl x \<Longrightarrow> grows x y \<Longrightarrow> accounts bs gone bl y"
  unfolding accounts_def grows_def by (meson order_trans)

lemma accounts_drop:
  assumes "accounts bs gone bl x" "bs' = filter P bs"
  shows "accounts bs' (\<lambda>f k. gone f k + buffered (filter (\<lambda>tb. \<not> P tb) bs) f k) bl x"
proof -
  have "buckets_ok bs" using assms(1) by (simp add: accounts_def)
  then have "0 \<le> buffered (filter (\<lambda>tb. \<not> P tb) bs) f k" for f k by (intro buffered_nonneg buckets_ok_filter)
  moreover have "buffered (filter P bs) f k = buffered bs f k - buffered (filter (\<lambda>tb. \<not> P tb) bs) f k" for f k
    using buffered_split [of P bs f k] by simp
  ultimately show ?thesis using assms by (simp add: accounts_def buckets_ok_filter)
qed

text \<open>The delta is exactly what the baseline is behind by.\<close>

lemma delta_exact:
  assumes "accounts bs gone bl x" "xray_ok x"
  shows "distinct (keys (cnt f (diffSnapshot bl (Some x)))) \<and> get (cnt f (diffSnapshot bl (Some x))) k = get (cnt f x) k - base_of bl f k"
proof (cases bl)
  case None
  then show ?thesis using assms by (simp add: base_of_def xray_ok_def)
next
  case (Some p)
  have x: "distinct (keys (cnt f x))" "0 \<le> get (cnt f x) k" "get (cnt f x) k \<le> int64_max" using assms(2) by (auto simp: xray_ok_def)
  have "buffered bs f k + gone f k = base_of bl f k" "base_of bl f k \<le> get (cnt f x) k" "0 \<le> gone f k" "0 \<le> buffered bs f k"
    using assms(1) buffered_nonneg by (auto simp: accounts_def)
  then have p: "0 \<le> get (cnt f p) k" "get (cnt f p) k \<le> get (cnt f x) k" using Some by (auto simp: base_of_def)
  then show ?thesis using x Some by (simp add: base_of_def get_diffMap distinct_diffMap wrap64_id int64_min_def)
qed

lemma accounts_collect:
  assumes a: "accounts (buckets s) gone bl x" "xray_ok x" and c: "collect (Some x) now (bl, s) = Some (bl', s')"
  shows "accounts (buckets s') (\<lambda>f k. gone f k + expired (x\<lparr>CoreUsage := []\<rparr>) now (bl, s) f k) (Some x) x
    \<and> base_of bl' = base_of (Some x) \<and> base_of (baseline s') = base_of (Some x)"
proof -
  let ?x = "x\<lparr>CoreUsage := []\<rparr>"
  let ?d = "diffSnapshot bl (Some ?x)"
  have b: "base_of (Some ?x) = base_of (Some x)" by (rule ext)+ (simp add: base_of_def)
  have x: "accounts (buckets s) gone bl ?x" "xray_ok ?x" using a by (simp_all add: accounts_def xray_ok_def)
  note d = delta_exact [OF x]
  from c obtain s1 where s1: "collect_delta ?x now (bl, s) = Some (Some ?x, s1)" "bl' = Some ?x" "s' = SetBaseline (Some ?x) s1"
    by (auto simp: collect_def collect_delta_def Let_def split: if_splits)
  have "accounts (buckets s1) (\<lambda>f k. gone f k + expired ?x now (bl, s) f k) (Some x) x"
  proof (cases "snapshotIsEmpty ?d")
    case True
    then have "get (cnt f ?x) k = base_of bl f k" for f k using d [of f k] snapshotIsEmpty_cnt [OF True, of f] by simp
    then have "base_of (Some x) = base_of bl" by (intro ext) (simp add: base_of_def)
    then show ?thesis using True a(1) s1(1) by (simp add: collect_delta_def expired_def accounts_def Let_def)
  next
    case False
    then obtain ts where ts: "truncateTime s now = Some ts"
      "buckets s1 = filter (\<lambda>(ts, b). \<not> ts < now - retention s) (filed ?d ts (buckets s))"
      using s1(1) by (auto simp: collect_delta_def Accumulate_def Let_def split: option.splits)
    have n: "0 \<le> gone f k" "buffered (buckets s) f k + gone f k = base_of bl f k" "base_of bl f k \<le> get (cnt f ?x) k" for f k
      using x(1) by (auto simp: accounts_def)
    have "buffered (buckets s) f k + get (cnt f ?d) k \<le> int64_max" for f k
    proof -
      have "get (cnt f ?x) k \<le> int64_max" using x(2) by (simp only: xray_ok_def)
      then show ?thesis using d [of f k] n [of f k] by linarith
    qed
    moreover have "0 \<le> get (cnt f ?d) k" for f k using d [of f k] n [of f k] by simp
    ultimately have m: "buckets_ok (filed ?d ts (buckets s)) \<and> buffered (filed ?d ts (buckets s)) f k = buffered (buckets s) f k + get (cnt f ?d) k" for f k
      using a(1) d by (intro filed_ok) (auto simp: accounts_def)
    moreover have "buffered (filed ?d ts (buckets s)) f k + gone f k = get (cnt f ?x) k" for f k
      using m [of f k] d [of f k] n [of f k] by linarith
    ultimately have "accounts (filed ?d ts (buckets s)) gone (Some x) x" using n by (simp add: accounts_def base_of_def)
    from accounts_drop [OF this ts(2)] show ?thesis
      using False ts(1) by (simp add: expired_def Let_def case_prod_unfold)
  qed
  moreover have "buckets s' = buckets s1" "base_of (baseline s') = base_of (Some ?x)"
    using s1(3) base_of_clone [of "Some ?x"] by (simp_all add: SetBaseline_def)
  ultimately show ?thesis using s1(2) b by simp
qed

text \<open>What is written and read back is the same buffer, in the order of time.\<close>

lemma fold_update_fresh:
  "distinct (map Timestamp bs) \<Longrightarrow> set (map Timestamp bs) \<inter> set (keys m) = {} \<Longrightarrow>
   fold (\<lambda>b m. AList.update (Timestamp b) b m) bs m = m @ map (\<lambda>b. (Timestamp b, b)) bs"
proof (induction bs arbitrary: m)
  case (Cons b bs)
  have "AList.update (Timestamp b) b m = m @ [(Timestamp b, b)]" using Cons.prems by (intro update_fresh) auto
  moreover have "set (map Timestamp bs) \<inter> set (keys (m @ [(Timestamp b, b)])) = {}" using Cons.prems by auto
  ultimately show ?case using Cons by simp
qed simp

lemma stamped: "\<forall>tb \<in> set bs. Timestamp (snd tb) = fst tb \<Longrightarrow> map (\<lambda>b. (Timestamp b, b)) (map snd bs) = bs"
  by (induction bs) auto

lemma reload_buckets:
  assumes "buckets_ok (buckets s)"
  shows "mset (buckets (NewFileStore (Some (fs_flush s)) dur ret)) = mset (buckets s)"
proof -
  let ?bs = "GetAll s"
  have k: "map (\<lambda>b. (Timestamp b, b)) (map snd (buckets s)) = buckets s"
    using assms by (intro stamped) (simp add: buckets_ok_def bucket_ok_def)
  have "mset (map Timestamp ?bs) = mset (keys (buckets s))"
    using arg_cong [OF k, of "\<lambda>l. mset (map fst l)"] by (simp add: GetAll_def comp_def multiset.map_comp)
  then have "distinct (map Timestamp ?bs)" using assms by (metis buckets_ok_def mset_eq_imp_distinct_iff)
  then have "buckets (NewFileStore (Some (fs_flush s)) dur ret) = map (\<lambda>b. (Timestamp b, b)) ?bs"
    by (simp add: NewFileStore_def loadFromDisk_def fs_flush_def NewMemoryStore_def Let_def fold_update_fresh)
  moreover have "mset (map (\<lambda>b. (Timestamp b, b)) ?bs) = mset (map (\<lambda>b. (Timestamp b, b)) (map snd (buckets s)))"
    by (simp only: GetAll_def mset_map mset_sort)
  ultimately show ?thesis using k by (simp only:)
qed

lemma accounts_mset: "mset bs = mset bs' \<Longrightarrow> accounts bs gone bl x = accounts bs' gone bl x"
proof -
  assume m: "mset bs = mset bs'"
  then have "buffered bs = buffered bs'"
    by (intro ext) (simp add: buffered_def flip: sum_mset_sum_list)
  moreover have "buckets_ok bs = buckets_ok bs'"
    using m mset_eq_setD [OF m] mset_eq_imp_distinct_iff [of "keys bs" "keys bs'"] by (simp add: buckets_ok_def)
  ultimately show ?thesis by (simp add: accounts_def)
qed

lemma accounts_restart:
  assumes "accounts (buckets s) gone (baseline s) x"
  shows "accounts (buckets (NewFileStore (Some (fs_flush s)) dur ret)) gone (baseline (NewFileStore (Some (fs_flush s)) dur ret)) x"
proof -
  have "base_of (baseline (NewFileStore (Some (fs_flush s)) dur ret)) = base_of (baseline s)"
    by (intro ext) (simp add: NewFileStore_def loadFromDisk_def fs_flush_def NewMemoryStore_def Let_def GetBaseline_def cloneSnapshot_def base_of_def split: option.splits)
  then show ?thesis using assms reload_buckets [of s dur ret] accounts_mset accounts_cong by (metis accounts_def)
qed

lemma collect_total: "bucketDuration s \<noteq> 0 \<Longrightarrow> \<exists>b m. collect q now (bl, s) = Some (b, m)"
  by (auto simp: collect_def collect_delta_def Accumulate_def truncateTime_def Let_def split: option.splits)

definition disk_accounts :: "agent_sys \<Rightarrow> bool" where
  "disk_accounts s \<longleftrightarrow>
     (case aDisk s of None \<Rightarrow> \<forall>f k. aGoneDisk s f k = 0
      | Some d \<Rightarrow> \<exists>m. d = fs_flush m \<and> accounts (buckets m) (aGoneDisk s) (baseline m) (aXray s))"

lemma agent_invariant:
  assumes "agent_run dur ret s"
  shows "accounts (buckets (aMem s)) (aGone s) (aBase s) (aXray s) \<and> base_of (baseline (aMem s)) = base_of (aBase s)
    \<and> xray_ok (aXray s) \<and> disk_accounts s"
  using assms
proof (induction rule: agent_run.induct)
  case (start x)
  then show ?case by (auto simp: NewMemoryStore_def accounts_def buffered_def base_of_def disk_accounts_def xray_ok_def)
next
  case (traffic s y)
  then show ?case using accounts_mono by (fastforce simp: disk_accounts_def split: option.splits)
next
  case (silent s now b m)
  then show ?case by (auto simp: collect_def disk_accounts_def split: option.splits)
next
  case (tick s now b m)
  then show ?case using accounts_collect [of "aMem s" "aGone s" "aBase s" "aXray s" now b m] accounts_cong [of b "Some (aXray s)"]
    by (auto simp: disk_accounts_def split: option.splits)
next
  case (drain s t)
  let ?b = "buckets (aMem s)"
  have "buckets (Drain t (aMem s)) = filter (\<lambda>tb. \<not> fst tb \<le> t) ?b" by (simp add: Drain_def case_prod_unfold)
  from accounts_drop [OF _ this, of "aGone s" "aBase s" "aXray s"] drain show ?case
    by (auto simp: disk_accounts_def Drain_def case_prod_unfold split: option.splits)
next
  case (flush s)
  then have "accounts (buckets (aMem s)) (aGone s) (baseline (aMem s)) (aXray s)" using accounts_cong by metis
  then show ?case using flush by (auto simp: disk_accounts_def)
next
  case (restart s)
  let ?m = "NewFileStore (aDisk s) dur ret"
  have "accounts (buckets ?m) (aGoneDisk s) (baseline ?m) (aXray s)"
  proof (cases "aDisk s")
    case None
    then show ?thesis using restart
      by (simp add: disk_accounts_def NewFileStore_def loadFromDisk_def NewMemoryStore_def accounts_def buffered_def base_of_def xray_ok_def)
  next
    case (Some d)
    then show ?thesis using restart accounts_restart by (auto simp: disk_accounts_def)
  qed
  then show ?case using restart accounts_cong [of "GetBaseline ?m" "baseline ?m"] by (auto simp: GetBaseline_def disk_accounts_def split: option.splits)
qed


definition counter_demo :: "int \<Rightarrow> XrayStatsSnapshot" where
  "counter_demo n = emptySnapshot\<lparr>UserUplink := [(''a'', n)]\<rparr>"

lemma cnt_demo: "cnt f (counter_demo n) = (if f = UserUp then [(''a'', n)] else [])"
  by (cases f) (simp_all add: counter_demo_def emptySnapshot_def)


text \<open>
  The order of the two halves of a collection matters. When the file is written after the delta
  went into the buffer and before the new baseline is stored, and the agent starts again from that
  file, the same bytes are counted a second time: Xray counted seven, and the buffer holds fourteen.
\<close>

theorem flush_between_the_halves_counts_twice:
  "\<exists>bl1 m1 b2 m2. collect_delta (counter_demo 7) 100 (None, NewMemoryStore 3600 604800) = Some (bl1, m1)
     \<and> (let m0 = NewFileStore (Some (fs_flush m1)) 3600 604800 in
         collect (Some (counter_demo 7)) 105 (GetBaseline m0, m0) = Some (b2, m2))
     \<and> buffered (buckets m2) UserUp ''a'' = 14"
  by (simp add: collect_delta_def collect_def Accumulate_def truncateTime_def NewMemoryStore_def Let_def counter_demo_def emptySnapshot_def
      diffSnapshot_def snapshotIsEmpty_def filed_def merge_bucket_def newBucket_def merge_counts_def merge_core_def fs_flush_def GetAll_def
      GetBaseline_def cloneSnapshot_def NewFileStore_def loadFromDisk_def fileStoreVersion_def go_quot_def SetBaseline_def buffered_def get_Cons
      wrap64_def)

text \<open>
  A counter between two readings: \<open>used\<close> bytes go through, and Xray may start again in between,
  after which only the bytes \<open>since\<close> then are in the counter.
\<close>

datatype reading = Onward int | Restarted int int

fun used :: "reading \<Rightarrow> int" where
  "used (Onward u) = u"
| "used (Restarted u since) = u"

fun next_value :: "int \<Rightarrow> reading \<Rightarrow> int" where
  "next_value v (Onward u) = v + u"
| "next_value v (Restarted u since) = since"

fun reading_ok :: "int \<Rightarrow> reading \<Rightarrow> bool" where
  "reading_ok v (Onward u) \<longleftrightarrow> 0 \<le> u \<and> v + u \<le> int64_max"
| "reading_ok v (Restarted u since) \<longleftrightarrow> 0 \<le> since \<and> since \<le> u \<and> since \<le> int64_max"

text \<open>A restart the collector can see: the counter is below the baseline.\<close>

fun seen :: "int \<Rightarrow> reading \<Rightarrow> bool" where
  "seen v (Onward u) \<longleftrightarrow> True"
| "seen v (Restarted u since) \<longleftrightarrow> since < v \<and> since = u"

fun readings_ok :: "(int \<Rightarrow> reading \<Rightarrow> bool) \<Rightarrow> int \<Rightarrow> reading list \<Rightarrow> bool" where
  "readings_ok P v [] = True"
| "readings_ok P v (r # rs) = (P v r \<and> readings_ok P (next_value v r) rs)"

fun deltas :: "string \<Rightarrow> int \<Rightarrow> reading list \<Rightarrow> int" where
  "deltas k v [] = 0"
| "deltas k v (r # rs) = get (diffMap [(k, v)] [(k, next_value v r)]) k + deltas k (next_value v r) rs"

lemma delta_bounds:
  assumes "0 \<le> v" "reading_ok v r"
  shows "get (diffMap [(k, v)] [(k, next_value v r)]) k \<le> used r \<and> (seen v r \<longrightarrow> get (diffMap [(k, v)] [(k, next_value v r)]) k = used r)
    \<and> 0 \<le> get (diffMap [(k, v)] [(k, next_value v r)]) k \<and> 0 \<le> next_value v r"
  using assms by (cases r) (auto simp: get_diffMap get_Cons wrap64_id int64_min_def)

text \<open>
  Nobody is billed for more than went through. Over any sequence of readings of a counter, with
  Xray restarting between readings as often as it likes, the deltas add up to at most the bytes
  that were used; and to exactly those bytes as long as every restart is visible, that is, the
  counter has not yet climbed past the baseline again and no bytes were lost with the old process.
\<close>

theorem deltas_never_overcount:
  assumes "0 \<le> v" "readings_ok reading_ok v rs"
  shows "0 \<le> deltas k v rs \<and> deltas k v rs \<le> (\<Sum>r \<leftarrow> rs. used r)
    \<and> (readings_ok seen v rs \<longrightarrow> deltas k v rs = (\<Sum>r \<leftarrow> rs. used r))"
  using assms
proof (induction rs arbitrary: v)
  case (Cons r rs)
  then have "reading_ok v r" "readings_ok reading_ok (next_value v r) rs" by simp_all
  then show ?case using delta_bounds [OF Cons.prems(1), of r k] Cons.IH [of "next_value v r"] by (simp add: add_mono)
qed simp

theorem deltas_never_overcount_witness:
  "deltas ''a'' 10 [Onward 5, Restarted 3 3, Onward 4] = 12"
  using deltas_never_overcount [of 10 "[Onward 5, Restarted 3 3, Onward 4]" "''a''"] by (simp add: int64_max_def)

end
