(* ===== verification/Usage_Collect.thy ===== *)
theory Usage_Collect
  imports Usage_File Node_Emails Bounded_Logs Traffic_Store
begin

text \<open>
  The collector of \<open>internal/remotenodes/usage\<close>: what a poll takes in (\<open>collect.go\<close>), what a flush
  writes and acknowledges and what is forgotten (\<open>usage.go\<close>), and what the page reads (\<open>read.go\<close>).

  Times are nanoseconds since the epoch. A node's identity is the pointer the code compares: \<open>ident\<close>
  is a number given at allocation. A \<open>Source\<close> is the number of the agent it reaches. The rate of a
  node is a 64-bit float in the code; the function \<open>rate\<close>, a parameter, stands for
  \<open>uint64(math.Round(float64(bytes) / seconds))\<close> of a byte count and a number of nanoseconds.
  What the log says is left out.
\<close>

section \<open>What the agent answers\<close>

text \<open>\<open>TrafficRecord\<close> and \<open>StatsBundle\<close> of \<open>pkg/agent/types.go\<close>: the parts the collector reads.\<close>

record TrafficRecord =
  rTimestamp :: int
  rUserUplink :: counters
  rUserDownlink :: counters
  rCoreUsage :: "(string \<times> string \<times> int \<times> int) list"

record StatsBundle =
  Buffered :: "TrafficRecord option list option"
  OnlineIPs :: "(string \<times> (string \<times> int) list) list option"

text \<open>\<open>GetBufferedTraffic\<close> of the agent's server, \<open>internal/agent/server/server.go\<close>.\<close>

definition coreUsageRecords :: "(string \<times> (string \<times> CoreUsageCounts) list) list \<Rightarrow> (string \<times> string \<times> int \<times> int) list" where
  "coreUsageRecords cu = concat (map (\<lambda>(proto, byEmail). map (\<lambda>(email, c). (proto, email, Uplink c, Downlink c)) byEmail) cu)"

definition traffic_record :: "TrafficBucket \<Rightarrow> TrafficRecord" where
  "traffic_record b = \<lparr>rTimestamp = Timestamp b, rUserUplink = UserUplink b, rUserDownlink = UserDownlink b,
     rCoreUsage = coreUsageRecords (CoreUsage b)\<rparr>"

definition GetBufferedTraffic :: "MemoryStore \<Rightarrow> TrafficRecord list" where
  "GetBufferedTraffic s = map traffic_record (GetAll s)"

section \<open>Reading the buckets\<close>

record urecord =
  rts :: int
  rb :: bucket
  rnode :: Totals

definition nonNegative :: "int \<Rightarrow> u64" where
  "nonNegative v = (if v < 0 then 0 else word_of_int v)"

definition bucket_take :: "nat \<Rightarrow> string \<Rightarrow> Totals \<Rightarrow> bucket \<Rightarrow> bucket" where
  "bucket_take nodeID email t b =
     (if isZero t then b
      else case ParseSubscriptionEmail email of
        Some i \<Rightarrow> b\<lparr>bSubs := bump (nat i) t (bSubs b)\<rparr>
      | None \<Rightarrow>
          (case ParseBridgeEmail email of
             Some i \<Rightarrow> if nat i = nodeID then b\<lparr>bBridge := bBridge b + t\<rparr> else b
           | None \<Rightarrow> b))"

definition emptyBucket :: bucket where
  "emptyBucket = \<lparr>bSubs = [], bBridge = 0\<rparr>"

definition read_record :: "nat \<Rightarrow> TrafficRecord \<Rightarrow> bucket \<Rightarrow> bucket" where
  "read_record nodeID r b =
     (let b = fold (\<lambda>(email, v). bucket_take nodeID email (Totals (nonNegative v) 0)) (rUserUplink r) b
      in fold (\<lambda>(email, v). bucket_take nodeID email (Totals 0 (nonNegative v))) (rUserDownlink r) b)"

fun by_time :: "nat \<Rightarrow> int \<Rightarrow> TrafficRecord option list \<Rightarrow> (int \<times> bucket) list \<times> nat \<Rightarrow> (int \<times> bucket) list \<times> nat" where
  "by_time nodeID limit [] st = st"
| "by_time nodeID limit (None # rest) st = by_time nodeID limit rest st"
| "by_time nodeID limit (Some r # rest) (m, ahead) =
     (if rTimestamp r \<le> 0 then by_time nodeID limit rest (m, ahead)
      else if rTimestamp r > limit then by_time nodeID limit rest (m, ahead + 1)
      else let b = (case map_of m (rTimestamp r) of None \<Rightarrow> emptyBucket | Some b \<Rightarrow> b)
           in by_time nodeID limit rest (AList.update (rTimestamp r) (read_record nodeID r b) m, ahead))"

definition records :: "TrafficRecord option list \<Rightarrow> nat \<Rightarrow> int \<Rightarrow> urecord list \<times> nat" where
  "records inp nodeID limit =
     (case by_time nodeID limit inp ([], 0) of (m, ahead) \<Rightarrow>
        (sort_key rts (map (\<lambda>(ts, b). \<lparr>rts = ts, rb = b, rnode = bucket_node b\<rparr>) m), ahead))"

definition monus :: "u64 \<Rightarrow> u64 \<Rightarrow> u64" where
  "monus a b = (if a > b then a - b else 0)"

definition tminus :: "Totals \<Rightarrow> Totals \<Rightarrow> Totals" where
  "tminus t o' = Totals (monus (Up t) (Up o')) (monus (Down t) (Down o'))"

section \<open>A node\<close>

record observation =
  ofrom :: int
  oto :: int
  inc :: Totals

record node =
  ident :: nat
  hist :: nodeHist
  diskThrough :: int
  src :: "nat option"
  acked :: int
  staleSeen :: bool
  ackFailing :: bool
  nlive :: bool
  misses :: int
  updatedAt :: "int option"
  npartial :: "partial option"
  online :: "(nat \<times> int) list option"
  onlineAt :: int
  lastSeen :: "(nat \<times> int) list"
  havePrev :: bool
  lastData :: int
  obs :: "observation list"
  rateUp :: u64
  rateDown :: u64
  chart :: "chart_slot list"
  warnedAhead :: bool

definition new_node :: "nat \<Rightarrow> nodeHist \<Rightarrow> int \<Rightarrow> node" where
  "new_node n h dt =
     \<lparr>ident = n, hist = h, diskThrough = dt, src = None, acked = 0, staleSeen = False, ackFailing = False,
      nlive = False, misses = 0, updatedAt = None, npartial = None, online = None, onlineAt = 0, lastSeen = [],
      havePrev = False, lastData = 0, obs = [], rateUp = 0, rateDown = 0, chart = emptyChart, warnedAhead = False\<rparr>"

definition second :: int where "second = 1000000000"
definition rateWindow :: int where "rateWindow = 15 * second"
definition onlineMaxAge :: int where "onlineMaxAge = 60 * second"
definition maxAhead :: int where "maxAhead = 24 * 60 * 60 * second"
definition unix :: "int \<Rightarrow> int" where "unix t = t div second"

definition missLocked :: "int \<Rightarrow> node \<Rightarrow> node" where
  "missLocked missedPolls n =
     (let n = (if misses n < 2147483647 then n\<lparr>misses := misses n + 1\<rparr> else n) in
      if misses n \<ge> missedPolls
      then n\<lparr>nlive := False, online := None, rateUp := 0, rateDown := 0, obs := [], havePrev := False\<rparr>
      else n)"

definition rateLocked :: "(u64 \<Rightarrow> int \<Rightarrow> u64) \<Rightarrow> int \<Rightarrow> node \<Rightarrow> node" where
  "rateLocked rate now n =
     (let cut = now - rateWindow;
          os = dropWhile (\<lambda>x. \<not> oto x > cut) (obs n);
          n = n\<lparr>obs := os, rateUp := 0, rateDown := 0\<rparr>
      in if os = [] then n
         else let s = (\<Sum>x \<leftarrow> os. inc x);
                  ns = oto (last os) - ofrom (hd os)
              in if ns \<le> 0 then n else n\<lparr>rateUp := rate (Up s) ns, rateDown := rate (Down s) ns\<rparr>)"

definition online_map :: "(string \<times> (string \<times> int) list) list \<Rightarrow> (nat \<times> int) list" where
  "online_map ips = fold (\<lambda>(email, addrs) m.
     if addrs = [] then m
     else case ParseSubscriptionEmail email of Some i \<Rightarrow> bump (nat i) (int (length addrs)) m | None \<Rightarrow> m) ips []"

definition onlineLocked :: "(string \<times> (string \<times> int) list) list \<Rightarrow> int \<Rightarrow> node \<Rightarrow> node" where
  "onlineLocked ips now n =
     (let on = online_map ips
      in n\<lparr>online := Some on, onlineAt := now, lastSeen := fold (\<lambda>i m. AList.update i now m) (keys on) (lastSeen n)\<rparr>)"

definition counts :: "node \<Rightarrow> int \<times> int" where
  "counts n = (case online n of None \<Rightarrow> (0, 0) | Some on \<Rightarrow> (int (length on), \<Sum>(i, k) \<leftarrow> on. k))"

text \<open>One bucket of the loop: the history, what was counted, what is fresh, the newest, and staleness.\<close>

definition fold_record :: "int \<Rightarrow> int \<Rightarrow> urecord \<Rightarrow> nodeHist \<times> Totals \<times> Totals \<times> partial option \<times> bool
    \<Rightarrow> nodeHist \<times> Totals \<times> Totals \<times> partial option \<times> bool" where
  "fold_record newest dt r st =
     (case st of (h, cntd, fresh, lv, stale) \<Rightarrow>
        if rts r \<le> through h then (h, cntd, fresh, lv, stale \<or> rts r \<le> dt)
        else if rts r < newest then ((hist_add (rts r) (rb r) h)\<lparr>through := rts r\<rparr>, cntd + rnode r, fresh + rnode r, lv, stale)
        else (h, cntd, fresh + rnode r, Some \<lparr>pTs = rts r, pB = rb r, pNode = rnode r\<rparr>, stale))"

record Sample =
  sAt :: int
  sRateUp :: u64
  sRateDown :: u64
  sOnline :: int
  sConnections :: int
  Counted :: Totals

text \<open>The buffered part of \<open>foldLocked\<close>: the node, what was counted, the mark to acknowledge, and
  whether an observation was added.\<close>

definition fold_buffered :: "bool \<Rightarrow> nat \<Rightarrow> TrafficRecord option list \<Rightarrow> int \<Rightarrow> node \<Rightarrow> node \<times> Totals \<times> int \<times> bool" where
  "fold_buffered noWrite nodeID buf now n =
     (let (recs, ahead) = records buf nodeID (unix (now + maxAhead));
          n = (if ahead > 0 \<and> \<not> warnedAhead n then n\<lparr>warnedAhead := True\<rparr>
               else if ahead = 0 then n\<lparr>warnedAhead := False\<rparr> else n);
          newest = (if recs \<noteq> [] then rts (last recs) else 0);
          (h, cntd, fresh, lv, stale) = fold (fold_record newest (diskThrough n)) recs (hist n, 0, 0, None, False);
          n = n\<lparr>hist := h\<rparr>;
          ack = (if stale \<and> \<not> noWrite then diskThrough n else 0);
          n = (if stale then n\<lparr>staleSeen := True\<rparr> else n);
          shown = (case npartial n of Some p \<Rightarrow> pNode p | None \<Rightarrow> 0);
          i = tminus fresh shown;
          n = n\<lparr>npartial := lv\<rparr>
      in if \<not> havePrev n then (n\<lparr>havePrev := True, lastData := now\<rparr>, cntd, ack, False)
         else if now > lastData n
              then (n\<lparr>obs := obs n @ [\<lparr>ofrom = lastData n, oto = now, inc = i\<rparr>], lastData := now\<rparr>, cntd, ack, True)
         else (n, cntd, ack, False))"

definition foldLocked :: "(u64 \<Rightarrow> int \<Rightarrow> u64) \<Rightarrow> bool \<Rightarrow> nat \<Rightarrow> StatsBundle \<Rightarrow> int \<Rightarrow> node \<Rightarrow> node \<times> Sample \<times> int" where
  "foldLocked rate noWrite nodeID b now n =
     (let n = n\<lparr>misses := 0, nlive := True, updatedAt := Some now\<rparr>;
          (n, cntd, ack, added) =
            (case Buffered b of None \<Rightarrow> (n, 0, 0, False) | Some buf \<Rightarrow> fold_buffered noWrite nodeID buf now n);
          n = rateLocked rate now n;
          n = (if added then n\<lparr>chart := chart_put (unix now) (rateUp n) (rateDown n) (chart n)\<rparr> else n);
          n = (case OnlineIPs b of
                 Some ips \<Rightarrow> onlineLocked ips now n
               | None \<Rightarrow> if online n \<noteq> None \<and> now - onlineAt n > onlineMaxAge then n\<lparr>online := None\<rparr> else n);
          (on, conns) = counts n
      in (n, \<lparr>sAt = now, sRateUp = rateUp n, sRateDown = rateDown n, sOnline = on, sConnections = conns, Counted = cntd\<rparr>, ack))"

section \<open>The collector\<close>

record collector =
  MissedPolls :: int
  hasPath :: bool
  nodes :: "(nat \<times> node) list"
  retired :: "(nat \<times> Totals) list"
  enc :: fileDoc
  noWrite :: bool
  writes :: nat
  nextIdent :: nat

definition hists :: "collector \<Rightarrow> (nat \<times> nodeHist) list" where
  "hists c = map (\<lambda>(i, n). (i, hist n)) (nodes c)"

definition nodeLocked :: "nat \<Rightarrow> collector \<Rightarrow> node \<times> collector" where
  "nodeLocked i c =
     (case map_of (nodes c) i of
        Some n \<Rightarrow> (n, c)
      | None \<Rightarrow> let n = new_node (nextIdent c) newNodeHist 0
                in (n, c\<lparr>nodes := AList.update i n (nodes c), nextIdent := nextIdent c + 1\<rparr>))"

definition put_node :: "nat \<Rightarrow> node \<Rightarrow> collector \<Rightarrow> collector" where
  "put_node i n c = c\<lparr>nodes := AList.update i n (nodes c)\<rparr>"

text \<open>
  \<open>Poll\<close> in the steps between which other operations can run: it registers the node and its source,
  asks the agent (no lock of the collector held), takes the answer in, and sends the acknowledgement.
\<close>

definition poll_begin :: "nat \<Rightarrow> nat \<Rightarrow> collector \<Rightarrow> nat \<times> collector" where
  "poll_begin i agent c = (case nodeLocked i c of (n, c) \<Rightarrow> (ident n, put_node i (n\<lparr>src := Some agent\<rparr>) c))"

datatype poll_result = PollFailed | PollForgotten | Polled Sample int

text \<open>\<open>answer\<close>: \<open>None\<close> is an error; a nil bundle is an empty one. A node that was forgotten and is no
  longer the one the poll began with is left alone.\<close>

definition poll_end :: "(u64 \<Rightarrow> int \<Rightarrow> u64) \<Rightarrow> nat \<Rightarrow> nat \<Rightarrow> StatsBundle option option \<Rightarrow> int \<Rightarrow> collector \<Rightarrow> poll_result \<times> collector" where
  "poll_end rate i idn answer now c =
     (case answer of
        None \<Rightarrow>
          (PollFailed,
           case map_of (nodes c) i of
             Some n \<Rightarrow> if ident n = idn then put_node i (missLocked (MissedPolls c) n) c else c
           | None \<Rightarrow> c)
      | Some bundle \<Rightarrow>
          let bundle = (case bundle of None \<Rightarrow> \<lparr>Buffered = None, OnlineIPs = None\<rparr> | Some b \<Rightarrow> b) in
          (case map_of (nodes c) i of
             None \<Rightarrow> (PollForgotten, c)
           | Some n \<Rightarrow>
               if ident n \<noteq> idn then (PollForgotten, c)
               else case foldLocked rate (noWrite c) i bundle now n of (n, s, ack) \<Rightarrow> (Polled s ack, put_node i n c)))"

text \<open>\<open>ackNode\<close> once the agent has answered, for the node the caller holds; \<open>ok\<close> is whether it agreed.\<close>

definition ackNode :: "nat \<Rightarrow> nat \<Rightarrow> int \<Rightarrow> bool \<Rightarrow> collector \<Rightarrow> collector" where
  "ackNode i idn thr ok c =
     (case map_of (nodes c) i of
        Some n \<Rightarrow> if ident n = idn \<and> ok then put_node i (n\<lparr>acked := max (acked n) thr, staleSeen := False\<rparr>) c else c
      | None \<Rightarrow> c)"

text \<open>What a poll notes of its acknowledgement, so that a failure that goes on is said once.\<close>

definition poll_acked :: "nat \<Rightarrow> nat \<Rightarrow> int \<Rightarrow> bool \<Rightarrow> collector \<Rightarrow> collector" where
  "poll_acked i idn thr ok c =
     (let c = ackNode i idn thr ok c in
      case map_of (nodes c) i of
        Some n \<Rightarrow> if ident n = idn then put_node i (n\<lparr>ackFailing := \<not> ok\<rparr>) c else c
      | None \<Rightarrow> c)"

definition pruneLocked :: "int \<Rightarrow> collector \<Rightarrow> collector" where
  "pruneLocked now c =
     (let keepFrom = dayOf (unix now) - (keepDays - 1)
      in c\<lparr>nodes := map (\<lambda>(i, n). (i, n\<lparr>hist := hist_prune keepFrom (hist n)\<rparr>)) (nodes c)\<rparr>)"

definition Forget :: "nat \<Rightarrow> collector \<Rightarrow> collector" where
  "Forget i c =
     (let c = (case map_of (nodes c) i of
                 Some n \<Rightarrow> c\<lparr>retired := fold (\<lambda>(s, t). bump s t) (life (hist n)) (retired c)\<rparr>
               | None \<Rightarrow> c)
      in c\<lparr>nodes := AList.delete i (nodes c)\<rparr>)"

definition forget_sub :: "nat \<Rightarrow> node \<Rightarrow> node" where
  "forget_sub s n =
     n\<lparr>hist := (hist n)\<lparr>life := AList.delete s (life (hist n)), hSubs := AList.delete s (hSubs (hist n))\<rparr>,
       online := map_option (AList.delete s) (online n),
       lastSeen := AList.delete s (lastSeen n),
       npartial := map_option (\<lambda>p. p\<lparr>pB := (pB p)\<lparr>bSubs := AList.delete s (bSubs (pB p))\<rparr>\<rparr>) (npartial n)\<rparr>"

definition ForgetSubscription :: "nat \<Rightarrow> collector \<Rightarrow> collector" where
  "ForgetSubscription s c =
     c\<lparr>retired := AList.delete s (retired c), nodes := map (\<lambda>(i, n). (i, forget_sub s n)) (nodes c)\<rparr>"

text \<open>
  \<open>write\<close> in its three sections: the document and the marks are taken under the lock, the file is
  written without it (\<open>ok\<close>: whether that worked), and the marks are recorded under the lock again.
\<close>

definition write_begin :: "int \<Rightarrow> collector \<Rightarrow> fileDoc \<times> (nat \<times> int) list \<times> collector" where
  "write_begin now c =
     (let c = pruneLocked now c
      in (encodeDoc (hists c) (retired c), map (\<lambda>(i, n). (i, through (hist n))) (nodes c), c))"

definition write_needed :: "fileDoc \<Rightarrow> collector \<Rightarrow> bool" where
  "write_needed doc c \<longleftrightarrow> hasPath c \<and> doc \<noteq> enc c"

definition write_end :: "(nat \<times> int) list \<Rightarrow> collector \<Rightarrow> collector" where
  "write_end marks c =
     c\<lparr>nodes := map (\<lambda>(i, n). (i, case map_of marks i of Some m \<Rightarrow> n\<lparr>diskThrough := max (diskThrough n) m\<rparr> | None \<Rightarrow> n)) (nodes c)\<rparr>"

definition flush_write :: "int \<Rightarrow> bool \<Rightarrow> collector \<Rightarrow> bool \<times> collector" where
  "flush_write now ok c =
     (case write_begin now c of (doc, marks, c) \<Rightarrow>
        if write_needed doc c then (if \<not> ok then (False, c) else (True, write_end marks (c\<lparr>enc := doc, writes := writes c + 1\<rparr>)))
        else (True, write_end marks c))"

text \<open>The acknowledgements a flush sends: to which agent, for which node, up to which mark.\<close>

record job =
  jid :: nat
  jident :: nat
  jsrc :: nat
  jthrough :: int

definition jobs :: "collector \<Rightarrow> job list" where
  "jobs c = sort_key jid (List.map_filter (\<lambda>(i, n).
     case src n of
       Some a \<Rightarrow> if diskThrough n > 0 \<and> (diskThrough n > acked n \<or> staleSeen n)
                 then Some \<lparr>jid = i, jident = ident n, jsrc = a, jthrough = diskThrough n\<rparr> else None
     | None \<Rightarrow> None) (nodes c))"

text \<open>\<open>load\<close> and the start of \<open>Open\<close>: what a process begins with, given the file.\<close>

definition load :: "fileDoc option \<Rightarrow> collector \<Rightarrow> collector" where
  "load file c =
     (case file of
        None \<Rightarrow> c
      | Some doc \<Rightarrow>
          (case decodeDoc (Some doc) of
             Inl (Newer v) \<Rightarrow> c\<lparr>noWrite := True\<rparr>
           | Inl e \<Rightarrow> c
           | Inr (hs, rt) \<Rightarrow>
               c\<lparr>nodes := map (\<lambda>(k, i, h). (i, new_node k h (through h))) (zip [nextIdent c..<nextIdent c + length hs] hs),
                 retired := rt, nextIdent := nextIdent c + length hs\<rparr>))"

definition open_collector :: "int \<Rightarrow> bool \<Rightarrow> fileDoc option \<Rightarrow> int \<Rightarrow> collector" where
  "open_collector missed path file now =
     (let c = \<lparr>MissedPolls = (if missed \<le> 0 then 3 else missed), hasPath = path, nodes = [], retired = [],
               enc = encodeDoc [] [], noWrite = False, writes = 0, nextIdent = 0\<rparr>;
          c = (if path then load file c else c);
          c = c\<lparr>enc := encodeDoc (hists c) (retired c)\<rparr>
      in pruneLocked now c)"

section \<open>What the page reads\<close>

record NodeUsage =
  nuLive :: bool
  nuOnline :: int
  nuConnections :: int
  nuRateUp :: u64
  nuRateDown :: u64
  nuToday :: Totals
  nuMonth :: Totals
  nuUpdatedAt :: "int option"

definition Node :: "nat \<Rightarrow> int \<Rightarrow> collector \<Rightarrow> NodeUsage" where
  "Node i now c =
     (case map_of (nodes c) i of
        None \<Rightarrow> \<lparr>nuLive = False, nuOnline = 0, nuConnections = 0, nuRateUp = 0, nuRateDown = 0, nuToday = 0, nuMonth = 0, nuUpdatedAt = None\<rparr>
      | Some n \<Rightarrow>
          let (today, from) = window (unix now);
              share = (case npartial n of Some p \<Rightarrow> pNode p | None \<Rightarrow> 0);
              (t, m) = sums (days (hist n)) (npartial n) share today from;
              (on, conns) = counts n
          in \<lparr>nuLive = nlive n, nuOnline = (if nlive n then on else 0), nuConnections = (if nlive n then conns else 0),
              nuRateUp = (if nlive n then rateUp n else 0), nuRateDown = (if nlive n then rateDown n else 0),
              nuToday = t, nuMonth = m, nuUpdatedAt = updatedAt n\<rparr>)"

record SubUsage =
  suLive :: bool
  suOnline :: bool
  suConnections :: int
  suLastSeen :: "int option"
  suToday :: Totals
  suMonth :: Totals

definition emptySubUsage :: SubUsage where
  "emptySubUsage = \<lparr>suLive = False, suOnline = False, suConnections = 0, suLastSeen = None, suToday = 0, suMonth = 0\<rparr>"

definition subUsage :: "node \<Rightarrow> nat \<Rightarrow> int \<Rightarrow> int \<Rightarrow> SubUsage" where
  "subUsage n s today from =
     (let share = (case npartial n of Some p \<Rightarrow> get (bSubs (pB p)) s | None \<Rightarrow> 0);
          (t, m) = sums (series (hist n) s) (npartial n) share today from;
          k = (case online n of Some on \<Rightarrow> get on s | None \<Rightarrow> 0)
      in \<lparr>suLive = nlive n, suOnline = (nlive n \<and> k > 0), suConnections = (if nlive n then k else 0),
          suLastSeen = map_of (lastSeen n) s, suToday = t, suMonth = m\<rparr>)"

definition Subscription :: "nat \<Rightarrow> nat \<Rightarrow> int \<Rightarrow> collector \<Rightarrow> SubUsage" where
  "Subscription s i now c =
     (case map_of (nodes c) i of None \<Rightarrow> emptySubUsage
      | Some n \<Rightarrow> let (today, from) = window (unix now) in subUsage n s today from)"

definition later_seen :: "int option \<Rightarrow> int option \<Rightarrow> int option" where
  "later_seen a b = (case (a, b) of (None, _) \<Rightarrow> b | (_, None) \<Rightarrow> a | (Some x, Some y) \<Rightarrow> if y > x then b else a)"

definition SubscriptionTotal :: "nat \<Rightarrow> int \<Rightarrow> collector \<Rightarrow> SubUsage" where
  "SubscriptionTotal s now c =
     (let (today, from) = window (unix now)
      in fold (\<lambda>(i, n) u.
           let v = subUsage n s today from
           in \<lparr>suLive = (suLive u \<or> suLive v), suOnline = (suOnline u \<or> suOnline v), suConnections = suConnections u + suConnections v,
               suLastSeen = later_seen (suLastSeen u) (suLastSeen v), suToday = suToday u + suToday v, suMonth = suMonth u + suMonth v\<rparr>)
           (nodes c) emptySubUsage)"

definition node_lifetime :: "nat \<Rightarrow> node \<Rightarrow> Totals" where
  "node_lifetime s n = get (life (hist n)) s + (case npartial n of Some p \<Rightarrow> get (bSubs (pB p)) s | None \<Rightarrow> 0)"

definition SubscriptionLifetime :: "nat \<Rightarrow> collector \<Rightarrow> Totals" where
  "SubscriptionLifetime s c = fold (\<lambda>(i, n) t. t + node_lifetime s n) (nodes c) (get (retired c) s)"

definition Bridge :: "nat \<Rightarrow> collector \<Rightarrow> Totals" where
  "Bridge i c = (case map_of (nodes c) i of Some n \<Rightarrow> hBridge (hist n) | None \<Rightarrow> 0)"

definition Traffic :: "nat \<Rightarrow> int \<Rightarrow> collector \<Rightarrow> Point list" where
  "Traffic i now c = (case map_of (nodes c) i of Some n \<Rightarrow> chart_points (unix now) (chart n) | None \<Rightarrow> [])"

section \<open>What a poll takes in\<close>

text \<open>The hub's reading of one record.\<close>

definition reading_of :: "nat \<Rightarrow> TrafficRecord \<Rightarrow> bucket" where
  "reading_of i r = read_record i r emptyBucket"

definition bucket_wf :: "bucket \<Rightarrow> bool" where
  "bucket_wf b \<longleftrightarrow> distinct (keys (bSubs b)) \<and> 0 \<notin> set (keys (bSubs b))"

lemma bucket_take_wf: "bucket_wf b \<Longrightarrow> bucket_wf (bucket_take i e t b)"
  by (auto simp: bucket_take_def bucket_wf_def ParseSubscriptionEmail_iff split: option.splits simp del: set_map)

lemma fold_take_wf: "bucket_wf b \<Longrightarrow> bucket_wf (fold (\<lambda>(e, v). bucket_take i e (f v)) evs b)"
  by (induction evs arbitrary: b) (auto simp: bucket_take_wf)

lemma reading_wf [simp]: "bucket_wf (reading_of i r)"
proof -
  have "bucket_wf emptyBucket" by (simp add: bucket_wf_def emptyBucket_def)
  then show ?thesis unfolding reading_of_def read_record_def Let_def by (intro fold_take_wf [where f = "\<lambda>v. Totals 0 (nonNegative v)"] fold_take_wf [where f = "\<lambda>v. Totals (nonNegative v) 0"])
qed

lemma by_time_distinct:
  assumes "distinct (map rTimestamp rs)" "\<forall>r \<in> set rs. 0 < rTimestamp r" "set (map rTimestamp rs) \<inter> set (keys m) = {}"
  shows "by_time i limit (map Some rs) (m, a) =
    (m @ map (\<lambda>r. (rTimestamp r, reading_of i r)) (filter (\<lambda>r. rTimestamp r \<le> limit) rs), a + length (filter (\<lambda>r. rTimestamp r > limit) rs))"
  using assms
proof (induction rs arbitrary: m a)
  case (Cons r rs)
  show ?case
  proof (cases "rTimestamp r \<le> limit")
    case True
    have new: "rTimestamp r \<notin> set (keys m)" using Cons.prems by auto
    then have "map_of m (rTimestamp r) = None" by (simp add: map_of_eq_None_iff)
    moreover have "AList.update (rTimestamp r) (reading_of i r) m = m @ [(rTimestamp r, reading_of i r)]" using new by (rule update_fresh)
    moreover have "set (map rTimestamp rs) \<inter> set (keys (m @ [(rTimestamp r, reading_of i r)])) = {}" using Cons.prems by auto
    ultimately show ?thesis using Cons True by (simp add: reading_of_def)
  qed (use Cons in simp)
qed simp

definition urec :: "nat \<Rightarrow> TrafficRecord \<Rightarrow> urecord" where
  "urec i r = \<lparr>rts = rTimestamp r, rb = reading_of i r, rnode = bucket_node (reading_of i r)\<rparr>"

lemma records_spec:
  assumes "distinct (map rTimestamp rs)" "\<forall>r \<in> set rs. 0 < rTimestamp r"
  shows "sorted_wrt (<) (map rts (fst (records (map Some rs) i limit)))
    \<and> set (fst (records (map Some rs) i limit)) = urec i ` {r \<in> set rs. rTimestamp r \<le> limit}"
proof -
  let ?rs = "filter (\<lambda>r. rTimestamp r \<le> limit) rs"
  have f: "fst (records (map Some rs) i limit) = sort_key rts (map (urec i) ?rs)"
    using by_time_distinct [of rs "[]" i limit 0] assms by (simp add: records_def comp_def urec_def [abs_def])
  have "distinct (map rTimestamp ?rs)" using assms(1) by (simp add: distinct_map_filter)
  then have "distinct (map rts (map (urec i) ?rs))" by (simp add: comp_def urec_def)
  then have "distinct (map rts (sort_key rts (map (urec i) ?rs)))" by (simp only: distinct_map distinct_sort set_sort)
  then show ?thesis by (auto simp: f strict_sorted_iff)
qed

text \<open>The loop counts the buckets between the mark and the newest, and moves the mark to the last of them.\<close>

definition counted_records :: "int \<Rightarrow> int \<Rightarrow> urecord list \<Rightarrow> urecord list" where
  "counted_records th newest recs = filter (\<lambda>r. th < rts r \<and> rts r < newest) recs"

definition count_one :: "urecord \<Rightarrow> nodeHist \<Rightarrow> nodeHist" where
  "count_one r h = (hist_add (rts r) (rb r) h)\<lparr>through := rts r\<rparr>"

definition newest_partial :: "int \<Rightarrow> int \<Rightarrow> urecord list \<Rightarrow> partial option" where
  "newest_partial th newest recs =
     (case filter (\<lambda>r. th < rts r \<and> \<not> rts r < newest) recs of [] \<Rightarrow> None | rs \<Rightarrow> Some \<lparr>pTs = rts (last rs), pB = rb (last rs), pNode = rnode (last rs)\<rparr>)"

lemma through_count_one [simp]: "through (count_one r h) = rts r"
  by (simp add: count_one_def)

lemma fold_records_hist:
  assumes "sorted_wrt (<) (map rts recs)"
  shows "fst (fold (fold_record newest dt) recs (h, c, f, l, st)) = fold count_one (counted_records (through h) newest recs) h"
  using assms
proof (induction recs arbitrary: h c f l st)
  case (Cons r recs)
  show ?case
  proof (cases "through h < rts r \<and> rts r < newest")
    case True
    have "counted_records (rts r) newest recs = counted_records (through h) newest recs"
      using Cons.prems True by (auto simp: counted_records_def intro!: filter_cong)
    moreover have "fold_record newest dt r (h, c, f, l, st) = (count_one r h, c + rnode r, f + rnode r, l, st)"
      using True by (simp add: fold_record_def count_one_def)
    ultimately show ?thesis using Cons True by (simp add: counted_records_def)
  next
    case False
    then show ?thesis using Cons by (auto simp: fold_record_def counted_records_def)
  qed
qed (simp add: counted_records_def)

lemma fold_records_partial:
  assumes "sorted_wrt (<) (map rts recs)"
  shows "fst (snd (snd (snd (fold (fold_record newest dt) recs (h, c, f, None, st))))) = newest_partial (through h) newest recs"
proof -
  have "fst (snd (snd (snd (fold (fold_record newest dt) recs (h, c, f, l, st))))) =
    (if newest_partial (through h) newest recs = None then l else newest_partial (through h) newest recs)" for l
    using assms
  proof (induction recs arbitrary: h c f l st)
    case (Cons r recs)
    have later: "\<forall>x \<in> set recs. rts r < rts x" using Cons.prems by auto
    show ?case
    proof (cases "through h < rts r \<and> rts r < newest")
      case True
      have "newest_partial (rts r) newest recs = newest_partial (through h) newest recs"
        using later True unfolding newest_partial_def by (auto intro!: arg_cong [of _ _ "case_list _ _"] filter_cong)
      moreover have "fold_record newest dt r (h, c, f, l, st) = (count_one r h, c + rnode r, f + rnode r, l, st)"
        using True by (simp add: fold_record_def count_one_def)
      ultimately show ?thesis using Cons True by (simp add: newest_partial_def)
    next
      case False
      then show ?thesis using Cons by (auto simp: fold_record_def newest_partial_def split: list.splits)
    qed
  qed (simp add: newest_partial_def)
  then show ?thesis by simp
qed

section \<open>A history that counts every bucket up to its mark\<close>

definition bucket_reading :: "nat \<Rightarrow> TrafficBucket \<Rightarrow> bucket" where
  "bucket_reading i b = reading_of i (traffic_record b)"

definition part :: "(bucket \<Rightarrow> Totals) \<Rightarrow> nat \<Rightarrow> (int \<times> TrafficBucket) list \<Rightarrow> int \<Rightarrow> Totals" where
  "part f i T ts = (case map_of T ts of None \<Rightarrow> 0 | Some b \<Rightarrow> f (bucket_reading i b))"

definition upto_mark :: "(bucket \<Rightarrow> Totals) \<Rightarrow> nat \<Rightarrow> (int \<times> TrafficBucket) list \<Rightarrow> int \<Rightarrow> Totals" where
  "upto_mark f i T th = (\<Sum>ts \<in> {ts \<in> set (keys T). ts \<le> th}. part f i T ts)"

definition faithful :: "nat \<Rightarrow> (int \<times> TrafficBucket) list \<Rightarrow> nodeHist \<Rightarrow> bool" where
  "faithful i T h \<longleftrightarrow> (\<forall>s. get (life h) s = upto_mark (\<lambda>b. get (bSubs b) s) i T (through h)) \<and> hBridge h = upto_mark bBridge i T (through h)"

lemma upto_mark_cong:
  assumes "\<And>ts. ts \<le> th \<Longrightarrow> map_of T ts = map_of T' ts"
  shows "upto_mark f i T th = upto_mark f i T' th"
proof -
  have k: "ts \<in> set (keys T) \<longleftrightarrow> map_of T ts \<noteq> None" for ts and T :: "(int \<times> TrafficBucket) list" by (simp add: map_of_eq_None_iff)
  show ?thesis unfolding upto_mark_def by (rule sum.cong) (auto simp: k assms part_def simp del: set_map)
qed

lemma faithful_cong: "(\<And>ts. ts \<le> through h \<Longrightarrow> map_of T ts = map_of T' ts) \<Longrightarrow> faithful i T h = faithful i T' h"
  using upto_mark_cong [of "through h" T T'] by (simp add: faithful_def)

lemma faithful_same: "hist_same h h' \<Longrightarrow> faithful i T h \<Longrightarrow> faithful i T h'"
  by (simp add: faithful_def hist_same_def)

lemma faithful_prune: "hist_ok h \<Longrightarrow> faithful i T (hist_prune k h) = faithful i T h"
  by (simp add: faithful_def hist_prune_get)

lemma faithful_new: "\<forall>ts \<in> set (keys T). 0 < ts \<Longrightarrow> faithful i T newNodeHist"
proof -
  assume "\<forall>ts \<in> set (keys T). 0 < ts"
  then have "{ts \<in> set (keys T). ts \<le> 0} = {}" by auto
  then have "upto_mark f i T 0 = 0" for f by (simp only: upto_mark_def sum.empty)
  then show ?thesis by (simp add: faithful_def newNodeHist_def)
qed

lemma count_one_get:
  assumes "bucket_wf (rb r)"
  shows "get (life (count_one r h)) s = get (life h) s + get (bSubs (rb r)) s" "hBridge (count_one r h) = hBridge h + bBridge (rb r)"
  using assms by (simp_all add: count_one_def hist_add_get bucket_wf_def)

lemma count_all_get:
  assumes "\<forall>r \<in> set rs. bucket_wf (rb r)"
  shows "get (life (fold count_one rs h)) s = get (life h) s + (\<Sum>r \<leftarrow> rs. get (bSubs (rb r)) s)"
    "hBridge (fold count_one rs h) = hBridge h + (\<Sum>r \<leftarrow> rs. bBridge (rb r))"
    "through (fold count_one rs h) = (if rs = [] then through h else rts (last rs))"
  using assms
proof (induction rs arbitrary: h)
  case (Cons r rs)
  { case 1 then show ?case using Cons(1) by (simp add: count_one_get add.assoc) next
    case 2 then show ?case using Cons(2) by (simp add: count_one_get add.assoc) next
    case 3 then show ?case using Cons(3) by simp }
qed simp_all

lemma sorted_last: "sorted_wrt (<) (map f xs) \<Longrightarrow> x \<in> set xs \<Longrightarrow> f x \<le> (f (last xs) :: 'a :: linorder)"
  by (induction xs) (auto simp: less_imp_le)

text \<open>The completed buckets the loop counts are exactly the agent's between the mark and the newest.\<close>

lemma fold_faithful:
  assumes h: "faithful i T h" and s: "sorted_wrt (<) (map rts recs)"
    and m: "\<And>ts r. through h < ts \<Longrightarrow> ts < newest \<Longrightarrow> (r \<in> set recs \<and> rts r = ts) \<longleftrightarrow> (\<exists>b. map_of T ts = Some b \<and> r = urec i (traffic_record b))"
  shows "faithful i T (fold count_one (counted_records (through h) newest recs) h)"
proof -
  let ?C = "counted_records (through h) newest recs"
  let ?h = "fold count_one ?C h"
  have C: "r \<in> set ?C \<Longrightarrow> through h < rts r \<and> rts r < newest \<and> (\<exists>b. map_of T (rts r) = Some b \<and> r = urec i (traffic_record b))" for r
    using m [of "rts r" r] by (auto simp: counted_records_def)
  have wf: "\<forall>r \<in> set ?C. bucket_wf (rb r)" using C by (force simp: urec_def)
  note g = count_all_get [OF wf, of h]
  have sC: "sorted_wrt (<) (map rts ?C)" using s by (simp add: counted_records_def sorted_wrt_map sorted_wrt_filter)
  then have inj: "inj_on rts (set ?C)" "distinct ?C" by (auto simp: strict_sorted_iff distinct_map)
  have part: "f (rb r) = part f i T (rts r)" if "r \<in> set ?C" for f r using C [OF that] by (auto simp: part_def bucket_reading_def urec_def)
  have keys: "{ts \<in> set (keys T). ts \<le> through ?h} = {ts \<in> set (keys T). ts \<le> through h} \<union> rts ` set ?C"
  proof (cases "?C = []")
    case False
    then have l: "last ?C \<in> set ?C" "through ?h = rts (last ?C)" using g(3) by simp_all
    have "ts \<in> rts ` set ?C" if t: "ts \<in> set (keys T)" "ts \<le> through ?h" "\<not> ts \<le> through h" for ts
    proof -
      obtain b where "map_of T ts = Some b" using t(1) by (metis map_of_eq_None_iff not_None_eq list.set_map)
      moreover have "through h < ts" "ts < newest" using t C [OF l(1)] l(2) by auto
      ultimately have "urec i (traffic_record b) \<in> set recs \<and> rts (urec i (traffic_record b)) = ts" using m by blast
      then show ?thesis using \<open>through h < ts\<close> \<open>ts < newest\<close> by (force simp: counted_records_def)
    qed
    moreover have "rts r \<in> set (keys T) \<and> rts r \<le> through ?h" if "r \<in> set ?C" for r
      using C [OF that] sorted_last [OF sC that] l(2) by (auto dest: map_of_SomeD intro: rev_image_eqI)
    moreover have "through h \<le> through ?h" using C [OF l(1)] l(2) by simp
    ultimately show ?thesis by (auto simp del: set_map)
  qed (use g(3) in simp)
  have sum: "upto_mark f i T (through ?h) = upto_mark f i T (through h) + (\<Sum>r \<leftarrow> ?C. f (rb r))" for f
  proof -
    have "(\<Sum>r \<leftarrow> ?C. f (rb r)) = (\<Sum>r \<in> set ?C. part f i T (rts r))" using inj(2) part by (simp add: sum_list_distinct_conv_sum_set)
    also have "\<dots> = (\<Sum>ts \<in> rts ` set ?C. part f i T ts)" using inj(1) by (simp add: sum.reindex)
    finally have e: "(\<Sum>r \<leftarrow> ?C. f (rb r)) = (\<Sum>ts \<in> rts ` set ?C. part f i T ts)" .
    have "{ts \<in> set (keys T). ts \<le> through h} \<inter> rts ` set ?C = {}" using C by force
    then show ?thesis unfolding upto_mark_def keys e by (intro sum.union_disjoint) auto
  qed
  show ?thesis using h g(1,2) sum by (simp add: faithful_def)
qed

section \<open>What a poll leaves alone\<close>

definition newest_of :: "urecord list \<Rightarrow> int" where
  "newest_of recs = (if recs \<noteq> [] then rts (last recs) else 0)"

lemma rateLocked_frame [simp]:
  "hist (rateLocked rate now n) = hist n" "npartial (rateLocked rate now n) = npartial n" "diskThrough (rateLocked rate now n) = diskThrough n"
  "src (rateLocked rate now n) = src n" "ident (rateLocked rate now n) = ident n"
  by (simp_all add: rateLocked_def Let_def)

lemma onlineLocked_frame [simp]:
  "hist (onlineLocked ips now n) = hist n" "npartial (onlineLocked ips now n) = npartial n" "diskThrough (onlineLocked ips now n) = diskThrough n"
  "src (onlineLocked ips now n) = src n" "ident (onlineLocked ips now n) = ident n"
  by (simp_all add: onlineLocked_def Let_def)

lemma missLocked_frame [simp]:
  "hist (missLocked mp n) = hist n" "npartial (missLocked mp n) = npartial n" "diskThrough (missLocked mp n) = diskThrough n"
  "src (missLocked mp n) = src n" "ident (missLocked mp n) = ident n"
  by (simp_all add: missLocked_def Let_def)

lemma fold_buffered_effect:
  assumes "sorted_wrt (<) (map rts recs)" "recs = fst (records buf i (unix (now + maxAhead)))" "fold_buffered nw i buf now n = (n', c, ack, ad)"
  shows "hist n' = fold count_one (counted_records (through (hist n)) (newest_of recs) recs) (hist n)
    \<and> npartial n' = newest_partial (through (hist n)) (newest_of recs) recs
    \<and> diskThrough n' = diskThrough n \<and> src n' = src n \<and> ident n' = ident n \<and> (ack = 0 \<or> ack = diskThrough n)"
proof -
  obtain ahead where r: "records buf i (unix (now + maxAhead)) = (recs, ahead)" using assms(2) by (metis surjective_pairing)
  let ?f = "fold (fold_record (newest_of recs) (diskThrough n)) recs (hist n, 0, 0, None, False)"
  obtain h c1 f l st where f: "?f = (h, c1, f, l, st)" by (metis surjective_pairing)
  have hl: "h = fold count_one (counted_records (through (hist n)) (newest_of recs) recs) (hist n)"
    "l = newest_partial (through (hist n)) (newest_of recs) recs"
    using fold_records_hist [OF assms(1), of "newest_of recs" "diskThrough n" "hist n" 0 0 None False]
      fold_records_partial [OF assms(1), of "newest_of recs" "diskThrough n" "hist n" 0 0 False] f by simp_all
  show ?thesis using assms(3) unfolding fold_buffered_def r newest_of_def [symmetric] Let_def
    by (auto simp: f hl [symmetric] split: if_splits)
qed

lemma foldLocked_effect:
  assumes "sorted_wrt (<) (map rts recs)" "recs = fst (records buf i (unix (now + maxAhead)))"
    "foldLocked rate nw i \<lparr>Buffered = Some buf, OnlineIPs = ips\<rparr> now n = (n', smp, ack)"
  shows "hist n' = fold count_one (counted_records (through (hist n)) (newest_of recs) recs) (hist n)
    \<and> npartial n' = newest_partial (through (hist n)) (newest_of recs) recs
    \<and> diskThrough n' = diskThrough n \<and> src n' = src n \<and> ident n' = ident n \<and> (ack = 0 \<or> ack = diskThrough n)"
proof -
  let ?n = "n\<lparr>misses := 0, nlive := True, updatedAt := Some now\<rparr>"
  obtain n1 c1 ack1 ad where f: "fold_buffered nw i buf now ?n = (n1, c1, ack1, ad)" by (metis surjective_pairing)
  have e: "hist n1 = fold count_one (counted_records (through (hist n)) (newest_of recs) recs) (hist n)
    \<and> npartial n1 = newest_partial (through (hist n)) (newest_of recs) recs
    \<and> diskThrough n1 = diskThrough n \<and> src n1 = src n \<and> ident n1 = ident n \<and> (ack1 = 0 \<or> ack1 = diskThrough n)"
    using fold_buffered_effect [OF assms(1,2) f] by simp
  have "hist n' = hist n1 \<and> npartial n' = npartial n1 \<and> diskThrough n' = diskThrough n1 \<and> src n' = src n1 \<and> ident n' = ident n1 \<and> ack = ack1"
    using assms(3) by (auto simp: foldLocked_def f Let_def split: if_splits option.splits prod.splits)
  with e show ?thesis by simp
qed

section \<open>What a history can be written as\<close>

lemma keys_fold_add_sub:
  "set (keys (hSubs (fold (add_sub d) its h))) \<subseteq> set (keys (hSubs h)) \<union> set (keys its)
   \<and> set (keys (life (fold (add_sub d) its h))) \<subseteq> set (keys (life h)) \<union> set (keys its)"
proof (induction its arbitrary: h)
  case (Cons it its)
  have "set (keys (hSubs (add_sub d it h))) \<subseteq> insert (fst it) (set (keys (hSubs h)))"
    "set (keys (life (add_sub d it h))) \<subseteq> insert (fst it) (set (keys (life h)))"
    by (auto simp: add_sub_def split: prod.splits simp del: set_map)
  with Cons [of "add_sub d it h"] show ?case by (auto simp del: set_map)
qed simp

lemma series_days_add_sub:
  assumes "\<forall>(i, m) \<in> set (hSubs h). \<forall>d \<in> set (keys m). P d" "P d"
  shows "\<forall>(i, m) \<in> set (hSubs (add_sub d it h)). \<forall>d \<in> set (keys m). P d"
proof -
  have "\<forall>x \<in> set (keys (series h (fst it))). P x"
  proof (cases "map_of (hSubs h) (fst it)")
    case (Some m)
    then show ?thesis using assms(1) map_of_SomeD [OF Some] by (fastforce simp: series_def simp del: set_map)
  qed (simp add: series_def)
  then have b: "\<forall>x \<in> set (keys (bump d t (series h (fst it)))). P x" for t using assms(2) by (simp del: set_map)
  have "\<forall>(i, m) \<in> set (AList.update (fst it) (bump d (snd it) (series h (fst it))) (hSubs h)). \<forall>d \<in> set (keys m). P d"
    using assms(1) b [of "snd it"] update_elems [of "fst it" "bump d (snd it) (series h (fst it))" "hSubs h"] by blast
  then show ?thesis using assms(1) by (simp add: add_sub_def split_beta)
qed

lemma series_days_fold:
  "\<forall>(i, m) \<in> set (hSubs h). \<forall>d \<in> set (keys m). P d \<Longrightarrow> P d \<Longrightarrow> \<forall>(i, m) \<in> set (hSubs (fold (add_sub d) its h)). \<forall>d \<in> set (keys m). P d"
proof (induction its arbitrary: h)
  case (Cons it its)
  then show ?case using series_days_add_sub [of h P d it] by simp
qed simp

lemma storable_count_one:
  assumes "hist_storable h" "bucket_wf (rb r)" "0 \<le> rts r" "four_digit_year (dayOf (rts r))"
  shows "hist_storable (count_one r h)"
proof -
  let ?d = "dayOf (rts r)" and ?b = "rb r"
  let ?h = "if \<not> isZero (bucket_node ?b) then h\<lparr>days := bump ?d (bucket_node ?b) (days h)\<rparr> else h"
  let ?f = "fold (add_sub ?d) (bSubs ?b) ?h"
  have a: "hist_add (rts r) ?b h = ?f\<lparr>hBridge := hBridge ?f + bBridge ?b\<rparr>" by (simp add: hist_add_def Let_def)
  have h: "hist_ok h" "0 \<notin> set (keys (hSubs h))" "0 \<notin> set (keys (life h))" "\<forall>d \<in> set (keys (days h)). four_digit_year d"
    "\<forall>(i, m) \<in> set (hSubs h). \<forall>d \<in> set (keys m). four_digit_year d" using assms(1) unfolding hist_storable_def by blast+
  have "hist_ok (hist_add (rts r) ?b h)" using h(1) by (rule hist_ok_add)
  moreover have "0 \<notin> set (keys (hSubs ?f))" "0 \<notin> set (keys (life ?f))"
    using keys_fold_add_sub [of ?d "bSubs ?b" ?h] assms(2) h(2,3) by (auto simp: bucket_wf_def simp del: set_map split: if_splits)
  moreover have "\<forall>d \<in> set (keys (days ?f)). four_digit_year d" using h(4) assms(4) by (simp del: set_map)
  moreover have "\<forall>(i, m) \<in> set (hSubs ?f). \<forall>d \<in> set (keys m). four_digit_year d"
    using h(5) assms(4) by (intro series_days_fold) simp_all
  ultimately show ?thesis using assms(3) by (simp add: hist_storable_def count_one_def a hist_ok_def del: set_map)
qed

lemma storable_prune: "hist_storable h \<Longrightarrow> hist_storable (hist_prune k h)"
proof -
  assume h: "hist_storable h"
  then have o: "hist_ok (hist_prune k h)" by (simp add: hist_ok_prune hist_storable_def)
  have "set (keys (days (hist_prune k h))) \<subseteq> set (keys (days h))" "set (keys (hSubs (hist_prune k h))) \<subseteq> set (keys (hSubs h))"
    by (auto simp: hist_prune_def intro: rev_image_eqI)
  moreover have "\<exists>m'. (i, m') \<in> set (hSubs h) \<and> set (keys m) \<subseteq> set (keys m')" if mem: "(i, m) \<in> set (hSubs (hist_prune k h))" for i m
  proof -
    obtain m' where "(i, m') \<in> set (hSubs h)" "m = filter (\<lambda>(d, t). \<not> d < k) m'" using mem by (auto simp: hist_prune_def)
    moreover from this have "set (keys m) \<subseteq> set (keys m')" by auto
    ultimately show ?thesis by blast
  qed
  ultimately show ?thesis using h o unfolding hist_storable_def by (simp add: hist_prune_def del: set_map) blast
qed

end
