(* ===== verification/Usage_Protocol.thy ===== *)
theory Usage_Protocol
  imports Usage_Collect
begin

text \<open>
  The hub's collector, its file and the agents' buffers together: \<open>internal/remotenodes/usage\<close>
  counting what \<open>internal/agent/traffic\<close> buffers. Agents fill buckets, polls begin, are answered,
  fail or are taken in, the file is written in its three sections, acknowledgements are sent, arrive
  late, twice or never, and the hub dies and starts again from its file, in any order. \<open>uTwin\<close> is no
  part of the program: it is the buffer of an agent from which nothing was ever dropped.
\<close>

record usys =
  uC :: collector
  uFile :: "fileDoc option"
  uStore :: "nat \<Rightarrow> MemoryStore"
  uTwin :: "nat \<Rightarrow> (int \<times> TrafficBucket) list"
  uClk :: "nat \<Rightarrow> int"
  uPoll :: "nat \<Rightarrow> (nat \<times> TrafficRecord list option) option"
  uWrite :: "(fileDoc \<times> (nat \<times> int) list \<times> bool) option"
  uAcks :: "(nat \<times> int) set"

text \<open>The history a file holds of a node.\<close>

definition file_hist :: "fileDoc option \<Rightarrow> nat \<Rightarrow> nodeHist" where
  "file_hist file i =
     (case file of None \<Rightarrow> newNodeHist
      | Some doc \<Rightarrow> (case decodeDoc (Some doc) of Inl e \<Rightarrow> newNodeHist | Inr (ns, rt) \<Rightarrow> hist_at ns i))"

abbreviation mark :: "usys \<Rightarrow> nat \<Rightarrow> int" where
  "mark s i \<equiv> through (file_hist (uFile s) i)"

text \<open>
  The steps. \<open>fill\<close>: an agent's clock does not go back, and a bucket expires only after the hub has it
  in its file (the retention is seven days, and the hub is away for less). \<open>take\<close>: the hub's clock
  shows a year below 9999. Everything else is unrestricted.
\<close>

inductive usage_run :: "(u64 \<Rightarrow> int \<Rightarrow> u64) \<Rightarrow> usys \<Rightarrow> bool" for rate where
  start: "usage_run rate
    \<lparr>uC = open_collector missed True None now, uFile = None, uStore = \<lambda>i. NewMemoryStore dur ret, uTwin = \<lambda>i. [],
     uClk = \<lambda>i. 1, uPoll = \<lambda>i. None, uWrite = None, uAcks = {}\<rparr>"
| fill: "usage_run rate s \<Longrightarrow> truncateTime (uStore s i) now = Some ts \<Longrightarrow> uClk s i \<le> ts \<Longrightarrow> \<not> ts < now - retention (uStore s i) \<Longrightarrow>
    \<forall>t \<in> set (keys (buckets (uStore s i))). t < now - retention (uStore s i) \<longrightarrow> t \<le> mark s i \<Longrightarrow>
    Accumulate (Some snap) now (uStore s i) = Some m \<Longrightarrow>
    usage_run rate (s\<lparr>uStore := (uStore s)(i := m), uTwin := (uTwin s)(i := filed snap ts (uTwin s i)), uClk := (uClk s)(i := ts)\<rparr>)"
| poll: "usage_run rate s \<Longrightarrow> i \<noteq> 0 \<Longrightarrow> uPoll s i = None \<Longrightarrow> poll_begin i i (uC s) = (idn, c) \<Longrightarrow>
    usage_run rate (s\<lparr>uC := c, uPoll := (uPoll s)(i := Some (idn, None))\<rparr>)"
| answer: "usage_run rate s \<Longrightarrow> uPoll s i = Some (idn, None) \<Longrightarrow>
    usage_run rate (s\<lparr>uPoll := (uPoll s)(i := Some (idn, Some (GetBufferedTraffic (uStore s i))))\<rparr>)"
| fail: "usage_run rate s \<Longrightarrow> uPoll s i = Some (idn, a) \<Longrightarrow> poll_end rate i idn None now (uC s) = (res, c) \<Longrightarrow>
    usage_run rate (s\<lparr>uC := c, uPoll := (uPoll s)(i := None)\<rparr>)"
| take_in: "usage_run rate s \<Longrightarrow> uPoll s i = Some (idn, Some rs) \<Longrightarrow> four_digit_year (dayOf (unix (now + maxAhead))) \<Longrightarrow>
    poll_end rate i idn (Some (Some \<lparr>Buffered = Some (map Some rs), OnlineIPs = ips\<rparr>)) now (uC s) = (res, c) \<Longrightarrow>
    usage_run rate (s\<lparr>uC := c, uPoll := (uPoll s)(i := None),
      uAcks := uAcks s \<union> (case res of Polled smp ack \<Rightarrow> if ack > 0 then {(i, ack)} else {} | _ \<Rightarrow> {})\<rparr>)"
| write1: "usage_run rate s \<Longrightarrow> uWrite s = None \<Longrightarrow> write_begin now (uC s) = (doc, marks, c) \<Longrightarrow>
    usage_run rate (s\<lparr>uC := c, uWrite := Some (doc, marks, False)\<rparr>)"
| write_fails: "usage_run rate s \<Longrightarrow> uWrite s = Some (doc, marks, False) \<Longrightarrow> usage_run rate (s\<lparr>uWrite := None\<rparr>)"
| write2: "usage_run rate s \<Longrightarrow> uWrite s = Some (doc, marks, False) \<Longrightarrow> write_needed doc (uC s) \<Longrightarrow>
    usage_run rate (s\<lparr>uFile := Some doc, uC := (uC s)\<lparr>enc := doc, writes := writes (uC s) + 1\<rparr>, uWrite := Some (doc, marks, True)\<rparr>)"
| write_same: "usage_run rate s \<Longrightarrow> uWrite s = Some (doc, marks, False) \<Longrightarrow> \<not> write_needed doc (uC s) \<Longrightarrow>
    usage_run rate (s\<lparr>uWrite := Some (doc, marks, True)\<rparr>)"
| write3: "usage_run rate s \<Longrightarrow> uWrite s = Some (doc, marks, True) \<Longrightarrow> usage_run rate (s\<lparr>uC := write_end marks (uC s), uWrite := None\<rparr>)"
| send: "usage_run rate s \<Longrightarrow> j \<in> set (jobs (uC s)) \<Longrightarrow> usage_run rate (s\<lparr>uAcks := insert (jsrc j, jthrough j) (uAcks s)\<rparr>)"
| arrive: "usage_run rate s \<Longrightarrow> (i, thr) \<in> uAcks s \<Longrightarrow> usage_run rate (s\<lparr>uStore := (uStore s)(i := Drain thr (uStore s i))\<rparr>)"
| confirm: "usage_run rate s \<Longrightarrow> usage_run rate (s\<lparr>uC := poll_acked i idn thr ok (uC s)\<rparr>)"
| crash: "usage_run rate s \<Longrightarrow>
    usage_run rate (s\<lparr>uC := open_collector missed True (uFile s) now, uPoll := \<lambda>i. None, uWrite := None\<rparr>)"

section \<open>The invariant\<close>

definition twin_ok :: "(int \<times> TrafficBucket) list \<Rightarrow> int \<Rightarrow> bool" where
  "twin_ok T clk \<longleftrightarrow> distinct (keys T) \<and> (\<forall>(ts, b) \<in> set T. 0 < ts \<and> ts \<le> clk \<and> Timestamp b = ts)"

definition store_ok :: "(int \<times> TrafficBucket) list \<Rightarrow> (int \<times> TrafficBucket) list \<Rightarrow> int \<Rightarrow> bool" where
  "store_ok A T mk \<longleftrightarrow> distinct (keys A) \<and> (\<forall>ts. map_of A ts = map_of T ts \<or> map_of A ts = None \<and> ts \<le> mk)"

definition hist_fits :: "nat \<Rightarrow> (int \<times> TrafficBucket) list \<Rightarrow> int \<Rightarrow> nodeHist \<Rightarrow> bool" where
  "hist_fits i T clk h \<longleftrightarrow> faithful i T h \<and> 0 \<le> through h \<and> through h < clk"

text \<open>An answer on its way: below its newest bucket, and above the mark, it is what the agent has.\<close>

definition answer_fits :: "TrafficRecord list \<Rightarrow> (int \<times> TrafficBucket) list \<Rightarrow> int \<Rightarrow> int \<Rightarrow> bool" where
  "answer_fits rs T clk th \<longleftrightarrow> distinct (map rTimestamp rs) \<and> (\<forall>r \<in> set rs. 0 < rTimestamp r \<and> rTimestamp r \<le> clk)
     \<and> (\<forall>m \<in> set rs. \<forall>ts r. th < ts \<and> ts < rTimestamp m \<longrightarrow>
          (r \<in> set rs \<and> rTimestamp r = ts \<longleftrightarrow> (\<exists>b. map_of T ts = Some b \<and> r = traffic_record b)))"

definition node_fits :: "usys \<Rightarrow> nat \<Rightarrow> node \<Rightarrow> bool" where
  "node_fits s i n \<longleftrightarrow> hist_fits i (uTwin s i) (uClk s i) (hist n) \<and> mark s i \<le> through (hist n) \<and> diskThrough n \<le> mark s i
     \<and> (src n = None \<or> src n = Some i)
     \<and> (\<forall>idn rs. uPoll s i = Some (idn, Some rs) \<longrightarrow> answer_fits rs (uTwin s i) (uClk s i) (through (hist n)))
     \<and> (\<forall>doc marks b. uWrite s = Some (doc, marks, b) \<longrightarrow> through (file_hist (Some doc) i) \<le> through (hist n))"

definition write_fits :: "usys \<Rightarrow> nat \<Rightarrow> bool" where
  "write_fits s i \<longleftrightarrow> (\<forall>doc marks b. uWrite s = Some (doc, marks, b) \<longrightarrow>
     (\<exists>x. decodeDoc (Some doc) = Inr x) \<and> hist_fits i (uTwin s i) (uClk s i) (file_hist (Some doc) i) \<and> mark s i \<le> through (file_hist (Some doc) i)
     \<and> (\<forall>m. map_of marks i = Some m \<longrightarrow> m \<le> through (file_hist (Some doc) i))
     \<and> (b \<longrightarrow> mark s i = through (file_hist (Some doc) i)))"

definition place_ok :: "usys \<Rightarrow> nat \<Rightarrow> bool" where
  "place_ok s i \<longleftrightarrow> twin_ok (uTwin s i) (uClk s i) \<and> 0 < uClk s i \<and> store_ok (buckets (uStore s i)) (uTwin s i) (mark s i)
     \<and> hist_fits i (uTwin s i) (uClk s i) (file_hist (uFile s) i)
     \<and> (case map_of (nodes (uC s)) i of Some n \<Rightarrow> node_fits s i n
        | None \<Rightarrow> mark s i = 0 \<and> uPoll s i = None \<and> (\<forall>doc marks b. uWrite s = Some (doc, marks, b) \<longrightarrow> through (file_hist (Some doc) i) = 0))
     \<and> write_fits s i \<and> (\<forall>thr. (i, thr) \<in> uAcks s \<longrightarrow> thr \<le> mark s i)
     \<and> hist_same (file_hist (uFile s) i) (file_hist (Some (enc (uC s))) i)"

definition hub_ok :: "collector \<Rightarrow> fileDoc option \<Rightarrow> bool" where
  "hub_ok c file \<longleftrightarrow> \<not> noWrite c \<and> hasPath c \<and> storable (hists c) (retired c)
     \<and> (case file of None \<Rightarrow> True | Some doc \<Rightarrow> \<exists>x. decodeDoc (Some doc) = Inr x)"

definition sys_ok :: "usys \<Rightarrow> bool" where
  "sys_ok s \<longleftrightarrow> hub_ok (uC s) (uFile s) \<and> (\<forall>i. place_ok s i)"

section \<open>Helpers\<close>

lemma map_of_map_key: "map_of (map (\<lambda>(k, v). (k, f k v)) m) k = map_option (f k) (map_of m k)"
  by (induction m) auto

lemma keys_hists [simp]: "keys (hists c) = keys (nodes c)"
  by (simp add: hists_def comp_def case_prod_unfold)

lemma map_of_hists: "map_of (hists c) i = map_option hist (map_of (nodes c) i)"
  using map_of_map_key [of "\<lambda>i. hist"] by (simp add: hists_def)

lemma hists_put: "hists (c\<lparr>nodes := AList.update i n ns\<rparr>) = AList.update i (hist n) (hists (c\<lparr>nodes := ns\<rparr>))"
  by (induction ns) (auto simp: hists_def)

lemma storable_update:
  assumes "storable hs rt" "i \<noteq> 0" "hist_storable h"
  shows "storable (AList.update i h hs) rt"
  using assms update_elems [of i h hs] unfolding storable_def by (auto simp del: set_map)

lemma hist_fits_same: "hist_same h h' \<Longrightarrow> hist_fits i T clk h \<Longrightarrow> hist_fits i T clk h'"
  using faithful_same by (auto simp: hist_fits_def hist_same_def)

lemma hist_fits_grow:
  assumes "hist_fits i T clk h" "\<And>ts. ts < clk \<Longrightarrow> map_of T' ts = map_of T ts" "clk \<le> clk'"
  shows "hist_fits i T' clk' h"
  using assms faithful_cong [of h T' T i] by (auto simp: hist_fits_def)

lemma hist_fits_prune: "hist_ok h \<Longrightarrow> hist_fits i T clk (hist_prune k h) = hist_fits i T clk h"
  by (simp add: hist_fits_def faithful_prune hist_prune_get)

lemma answer_fits_grow:
  assumes "answer_fits rs T clk th" "\<And>ts. ts < clk \<Longrightarrow> map_of T' ts = map_of T ts" "clk \<le> clk'"
  shows "answer_fits rs T' clk' th"
proof -
  have "map_of T' ts = map_of T ts" if "m \<in> set rs" "ts < rTimestamp m" for m ts
    using assms that by (force simp: answer_fits_def)
  moreover have "distinct (map rTimestamp rs)" "\<forall>r \<in> set rs. 0 < rTimestamp r \<and> rTimestamp r \<le> clk"
    "\<forall>m \<in> set rs. \<forall>ts r. th < ts \<and> ts < rTimestamp m \<longrightarrow> (r \<in> set rs \<and> rTimestamp r = ts \<longleftrightarrow> (\<exists>b. map_of T ts = Some b \<and> r = traffic_record b))"
    using assms(1) unfolding answer_fits_def by blast+
  ultimately show ?thesis using assms(3) unfolding answer_fits_def by auto
qed

lemma twin_keys: "twin_ok T clk \<Longrightarrow> map_of T ts = Some b \<Longrightarrow> 0 < ts \<and> ts \<le> clk \<and> Timestamp b = ts"
  by (auto simp: twin_ok_def dest: map_of_SomeD)

lemma place_hist_ok: "hub_ok c file \<Longrightarrow> map_of (nodes c) i = Some n \<Longrightarrow> hist_storable (hist n) \<and> hist_ok (hist n) \<and> i \<noteq> 0"
proof -
  assume a: "hub_ok c file" "map_of (nodes c) i = Some n"
  then have "(i, hist n) \<in> set (hists c)" by (auto simp: hists_def dest: map_of_SomeD intro: rev_image_eqI)
  moreover have "\<forall>(i, h) \<in> set (hists c). hist_storable h" "0 \<notin> set (keys (hists c))"
    using a(1) unfolding hub_ok_def storable_def by blast+
  ultimately have "hist_storable (hist n)" "i \<noteq> 0" by (auto simp del: keys_hists intro: rev_image_eqI)
  then show ?thesis by (simp add: hist_storable_def)
qed

section \<open>Every step keeps it\<close>

lemma sys_ok_fill:
  assumes s: "sys_ok s" and ts: "truncateTime (uStore s i) now = Some ts" "uClk s i \<le> ts" "\<not> ts < now - retention (uStore s i)"
    and ex: "\<forall>t \<in> set (keys (buckets (uStore s i))). t < now - retention (uStore s i) \<longrightarrow> t \<le> mark s i"
    and acc: "Accumulate (Some snap) now (uStore s i) = Some m"
  shows "sys_ok (s\<lparr>uStore := (uStore s)(i := m), uTwin := (uTwin s)(i := filed snap ts (uTwin s i)), uClk := (uClk s)(i := ts)\<rparr>)" (is "sys_ok ?s")
proof -
  let ?A = "buckets (uStore s i)" and ?T = "uTwin s i" and ?clk = "uClk s i"
  let ?T' = "filed snap ts ?T"
  have p: "place_ok s i" using s by (simp add: sys_ok_def)
  then have tw: "twin_ok ?T ?clk" "0 < ?clk" and st: "store_ok ?A ?T (mark s i)" and mk: "mark s i < ?clk"
    by (auto simp: place_ok_def hist_fits_def)
  have T': "map_of ?T' x = (if x = ts then Some (merge_bucket snap (case map_of ?T ts of None \<Rightarrow> newBucket ts | Some b \<Rightarrow> b)) else map_of ?T x)" for x
    by (simp add: filed_def update_conv')
  have same: "map_of ?T' x = map_of ?T x" if "x < ?clk" for x using that ts(2) T' by simp
  have tw': "twin_ok ?T' ts"
  proof -
    have "Timestamp (case map_of ?T ts of None \<Rightarrow> newBucket ts | Some b \<Rightarrow> b) = ts" using twin_keys [OF tw(1), of ts] by (auto split: option.splits)
    then have "\<forall>(t, b) \<in> insert (ts, merge_bucket snap (case map_of ?T ts of None \<Rightarrow> newBucket ts | Some b \<Rightarrow> b)) (set ?T). 0 < t \<and> t \<le> ts \<and> Timestamp b = t"
      using tw ts(2) by (fastforce simp: twin_ok_def)
    then show ?thesis using tw(1) update_elems unfolding twin_ok_def filed_def by (metis (no_types, lifting) distinct_keys_update subsetD)
  qed
  have At: "map_of ?A ts = map_of ?T ts" using st mk ts(2) by (force simp: store_ok_def)
  have m: "buckets m = filter (\<lambda>(t, b). \<not> t < now - retention (uStore s i)) (filed snap ts ?A)"
    using acc ts(1) by (auto simp: Accumulate_def Let_def)
  have "store_ok (buckets m) ?T' (mark s i)"
    unfolding store_ok_def
  proof (intro conjI allI)
    show "distinct (keys (buckets m))" using st by (simp add: m store_ok_def filed_def)
    fix x
    have mx: "map_of (buckets m) x = (if x < now - retention (uStore s i) then None else map_of (filed snap ts ?A) x)"
      unfolding m by (subst map_of_filter_key) simp
    show "map_of (buckets m) x = map_of ?T' x \<or> map_of (buckets m) x = None \<and> x \<le> mark s i"
    proof (cases "x = ts")
      case True
      then show ?thesis using mx ts(3) At by (simp add: filed_def update_conv')
    next
      case False
      moreover have "map_of ?A x = map_of ?T x \<or> map_of ?A x = None \<and> x \<le> mark s i" using st by (simp add: store_ok_def)
      moreover have "x \<le> mark s i" if "x < now - retention (uStore s i)" "map_of ?A x \<noteq> None"
        using ex that by (metis map_of_eq_None_iff list.set_map)
      moreover have "map_of (filed snap ts ?A) x = map_of ?A x" "map_of ?T' x = map_of ?T x" using False by (simp_all add: filed_def update_conv')
      ultimately show ?thesis using mx by metis
    qed
  qed
  moreover have "node_fits ?s i n" if "node_fits s i n" for n
    using that hist_fits_grow [OF _ same ts(2), of i] answer_fits_grow [OF _ same ts(2)] by (auto simp: node_fits_def)
  moreover have "write_fits ?s i" if "write_fits s i" using that hist_fits_grow [OF _ same ts(2), of i] by (auto simp: write_fits_def)
  moreover have "hist_fits i ?T' ts (file_hist (uFile s) i)" using p hist_fits_grow [OF _ same ts(2), of i] by (simp add: place_ok_def)
  ultimately have "place_ok ?s i" using p tw' tw(2) ts(2) by (auto simp: place_ok_def split: option.splits)
  moreover have "place_ok ?s j" if "j \<noteq> i" for j
  proof -
    have "place_ok s j" using s by (simp add: sys_ok_def)
    moreover have "write_fits ?s j = write_fits s j" "node_fits ?s j m = node_fits s j m" for m
      using that by (simp_all add: write_fits_def node_fits_def)
    ultimately show ?thesis using that unfolding place_ok_def by (auto split: option.splits)
  qed
  ultimately have "place_ok ?s j" for j by (cases "j = i") (simp_all only:)
  then show ?thesis using s by (simp add: sys_ok_def)
qed

text \<open>A change of one node of the collector that keeps what the invariant says of it.\<close>

lemma sys_ok_node:
  assumes s: "sys_ok s" and hub: "hub_ok c (uFile s)" and e: "enc c = enc (uC s)"
    and n: "map_of (nodes c) = (map_of (nodes (uC s)))(i \<mapsto> n)"
    and fits: "node_fits (s\<lparr>uC := c, uPoll := (uPoll s)(i := p), uAcks := a\<rparr>) i n"
    and a: "\<And>j thr. (j, thr) \<in> a \<Longrightarrow> (j, thr) \<in> uAcks s \<or> thr \<le> mark s j"
  shows "sys_ok (s\<lparr>uC := c, uPoll := (uPoll s)(i := p), uAcks := a\<rparr>)" (is "sys_ok ?s")
proof -
  have ack: "\<forall>thr. (j, thr) \<in> a \<longrightarrow> thr \<le> mark s j" for j using s a unfolding sys_ok_def place_ok_def by blast
  have "place_ok ?s j" for j
  proof (cases "j = i")
    case True
    have "place_ok s i" using s by (simp add: sys_ok_def)
    moreover have "write_fits ?s i = write_fits s i" by (simp add: write_fits_def)
    ultimately show ?thesis using True n fits e ack [of i] unfolding place_ok_def by auto
  next
    case False
    have "place_ok s j" using s by (simp add: sys_ok_def)
    moreover have "write_fits ?s j = write_fits s j" by (simp add: write_fits_def)
    moreover have "node_fits ?s j m = node_fits s j m" for m using False by (simp add: node_fits_def)
    ultimately show ?thesis using False n e ack [of j] unfolding place_ok_def by (auto split: option.splits)
  qed
  then show ?thesis using hub by (simp add: sys_ok_def)
qed

lemma hub_ok_put:
  assumes "hub_ok c file" "i \<noteq> 0" "hist_storable (hist n)"
  shows "hub_ok (c\<lparr>nodes := AList.update i n (nodes c)\<rparr>) file"
  using assms storable_update [of "hists c" "retired c" i "hist n"] by (simp add: hub_ok_def hists_put)

lemma storable_new: "hist_storable newNodeHist"
  by (simp add: hist_storable_def) (simp add: newNodeHist_def)

lemma sys_ok_poll:
  assumes s: "sys_ok s" "i \<noteq> 0" "uPoll s i = None" "poll_begin i i (uC s) = (idn, c)"
  shows "sys_ok (s\<lparr>uC := c, uPoll := (uPoll s)(i := Some (idn, None))\<rparr>)"
proof -
  have p: "place_ok s i" and hub: "hub_ok (uC s) (uFile s)" using s(1) by (simp_all add: sys_ok_def)
  have "sys_ok (s\<lparr>uC := c, uPoll := (uPoll s)(i := Some (idn, None)), uAcks := uAcks s\<rparr>)"
  proof (cases "map_of (nodes (uC s)) i")
    case (Some n)
    then have c: "c = (uC s)\<lparr>nodes := AList.update i (n\<lparr>src := Some i\<rparr>) (nodes (uC s))\<rparr>" using s(4) by (simp add: poll_begin_def nodeLocked_def put_node_def)
    show ?thesis
      by (rule sys_ok_node [OF s(1), where n = "n\<lparr>src := Some i\<rparr>"])
        (use c p Some hub_ok_put [OF hub s(2)] place_hist_ok [OF hub Some] in \<open>auto simp: place_ok_def node_fits_def update_conv'\<close>)
  next
    case None
    let ?n = "new_node (nextIdent (uC s)) newNodeHist 0"
    let ?c1 = "(uC s)\<lparr>nodes := AList.update i ?n (nodes (uC s)), nextIdent := nextIdent (uC s) + 1\<rparr>"
    have c: "c = ?c1\<lparr>nodes := AList.update i (?n\<lparr>src := Some i\<rparr>) (nodes ?c1)\<rparr>"
      using s(4) None by (auto simp: poll_begin_def nodeLocked_def put_node_def Let_def)
    have "hub_ok ?c1 (uFile s)" using hub_ok_put [OF hub s(2), of ?n] storable_new by (simp add: hub_ok_def hists_def new_node_def)
    then have h: "hub_ok c (uFile s)" using hub_ok_put [of ?c1 "uFile s" i "?n\<lparr>src := Some i\<rparr>"] s(2) storable_new c by (simp add: new_node_def)
    have "twin_ok (uTwin s i) (uClk s i)" using p by (simp add: place_ok_def)
    then have "faithful i (uTwin s i) newNodeHist" by (intro faithful_new) (auto simp: twin_ok_def)
    moreover have "mark s i = 0" "0 < uClk s i" "\<And>doc marks b. uWrite s = Some (doc, marks, b) \<Longrightarrow> through (file_hist (Some doc) i) = 0"
      using p None by (auto simp: place_ok_def)
    moreover have "through newNodeHist = 0" by (simp add: newNodeHist_def)
    ultimately have "node_fits (s\<lparr>uC := c, uPoll := (uPoll s)(i := Some (idn, None)), uAcks := uAcks s\<rparr>) i (?n\<lparr>src := Some i\<rparr>)"
      by (auto simp: node_fits_def hist_fits_def new_node_def)
    then show ?thesis by (intro sys_ok_node [OF s(1) h, where n = "?n\<lparr>src := Some i\<rparr>"]) (auto simp: c update_conv')
  qed
  then show ?thesis by simp
qed

text \<open>Above what the file counts, an answer is exactly what the agent has.\<close>

lemma GetBuffered_exact:
  assumes st: "store_ok A T mk" "A = buckets m" and tw: "twin_ok T clk" and t: "mk < ts"
  shows "(r \<in> set (GetBufferedTraffic m) \<and> rTimestamp r = ts) \<longleftrightarrow> (\<exists>b. map_of T ts = Some b \<and> r = traffic_record b)"
proof -
  have A: "map_of A ts = map_of T ts" using st(1) t unfolding store_ok_def by (metis linorder_not_le)
  have d: "(ts, b) \<in> set A \<longleftrightarrow> map_of T ts = Some b" for b using A st(1) map_of_eq_Some_iff [of A ts b] by (simp add: store_ok_def)
  have stamp: "Timestamp b = x" if "(x, b) \<in> set A" for x b
  proof -
    have "map_of A x = Some b" using that st(1) by (simp add: store_ok_def)
    then have "map_of T x = Some b" using st(1) unfolding store_ok_def by (metis option.distinct(1))
    then show ?thesis using twin_keys [OF tw] by blast
  qed
  have "r \<in> set (GetBufferedTraffic m) \<longleftrightarrow> (\<exists>x b. (x, b) \<in> set A \<and> r = traffic_record b)"
    using st(2) by (force simp: GetBufferedTraffic_def GetAll_def)
  moreover have "rTimestamp (traffic_record b) = Timestamp b" for b by (simp add: traffic_record_def)
  ultimately show ?thesis using d stamp by metis
qed

lemma GetBuffered_answers:
  assumes st: "store_ok A T mk" "A = buckets m" and tw: "twin_ok T clk" and th: "mk \<le> th"
  shows "answer_fits (GetBufferedTraffic m) T clk th"
proof -
  have A: "(ts, b) \<in> set A \<Longrightarrow> map_of T ts = Some b" for ts b
    using st(1) by (metis map_of_eq_Some_iff option.distinct(1) store_ok_def)
  have stamp: "\<forall>tb \<in> set A. Timestamp (snd tb) = fst tb" using A twin_keys [OF tw] by fastforce
  have "map Timestamp (map snd A) = keys A" using stamp by (induction A) auto
  then have "distinct (map Timestamp (map snd A))" using st(1) by (simp only: store_ok_def)
  then have d: "distinct (map Timestamp (GetAll m))" using st(2) by (simp only: GetAll_def distinct_map distinct_sort set_sort)
  have "0 < Timestamp b \<and> Timestamp b \<le> clk" if "b \<in> set (GetAll m)" for b
  proof -
    obtain ts where "(ts, b) \<in> set A" using \<open>b \<in> set (GetAll m)\<close> st(2) by (auto simp: GetAll_def)
    then show ?thesis using A twin_keys [OF tw] by blast
  qed
  moreover have "rTimestamp (traffic_record b) = Timestamp b" for b by (simp add: traffic_record_def)
  ultimately have "distinct (map rTimestamp (GetBufferedTraffic m))" "\<forall>r \<in> set (GetBufferedTraffic m). 0 < rTimestamp r \<and> rTimestamp r \<le> clk"
    using d by (simp_all add: GetBufferedTraffic_def comp_def)
  then show ?thesis using GetBuffered_exact [OF st tw] th unfolding answer_fits_def by auto
qed

lemma sys_ok_answer:
  assumes s: "sys_ok s" "uPoll s i = Some (idn, None)"
  shows "sys_ok (s\<lparr>uPoll := (uPoll s)(i := Some (idn, Some (GetBufferedTraffic (uStore s i))))\<rparr>)"
proof -
  have p: "place_ok s i" and hub: "hub_ok (uC s) (uFile s)" using s(1) by (simp_all add: sys_ok_def)
  then obtain n where n: "map_of (nodes (uC s)) i = Some n" "node_fits s i n" using s(2) by (auto simp: place_ok_def split: option.splits)
  have "answer_fits (GetBufferedTraffic (uStore s i)) (uTwin s i) (uClk s i) (through (hist n))"
    using p n(2) by (intro GetBuffered_answers) (auto simp: place_ok_def node_fits_def)
  then have "node_fits (s\<lparr>uC := uC s, uPoll := (uPoll s)(i := Some (idn, Some (GetBufferedTraffic (uStore s i)))), uAcks := uAcks s\<rparr>) i n"
    using n(2) by (auto simp: node_fits_def)
  moreover have "map_of (nodes (uC s)) = (map_of (nodes (uC s)))(i \<mapsto> n)" using n(1) by (simp add: fun_upd_idem)
  ultimately show ?thesis using sys_ok_node [OF s(1) hub refl, of i n] by fastforce
qed

lemma storable_count_all:
  assumes "hist_storable h" "\<And>r. r \<in> set rs \<Longrightarrow> bucket_wf (rb r) \<and> 0 \<le> rts r \<and> four_digit_year (dayOf (rts r))"
  shows "hist_storable (fold count_one rs h)"
  using assms by (induction rs arbitrary: h) (auto intro: storable_count_one)

lemma sys_ok_take:
  assumes s: "sys_ok s" and p: "uPoll s i = Some (idn, Some rs)" and y: "four_digit_year (dayOf (unix (now + maxAhead)))"
    and n: "map_of (nodes (uC s)) i = Some n"
    and f: "foldLocked rate (noWrite (uC s)) i \<lparr>Buffered = Some (map Some rs), OnlineIPs = ips\<rparr> now n = (n', smp, ack)"
  shows "sys_ok (s\<lparr>uC := put_node i n' (uC s), uPoll := (uPoll s)(i := None), uAcks := uAcks s \<union> (if ack > 0 then {(i, ack)} else {})\<rparr>)"
proof -
  let ?recs = "fst (records (map Some rs) i (unix (now + maxAhead)))" and ?T = "uTwin s i" and ?clk = "uClk s i"
  let ?h = "hist n" and ?new = "newest_of (fst (records (map Some rs) i (unix (now + maxAhead))))"
  have hub: "hub_ok (uC s) (uFile s)" and pl: "place_ok s i" using s by (simp_all add: sys_ok_def)
  have fits: "node_fits s i n" using pl n by (simp add: place_ok_def)
  then have an: "answer_fits rs ?T ?clk (through ?h)" and hf: "hist_fits i ?T ?clk ?h" using p by (simp_all add: node_fits_def)
  have recs: "sorted_wrt (<) (map rts ?recs)" "set ?recs = urec i ` {r \<in> set rs. rTimestamp r \<le> unix (now + maxAhead)}"
    using records_spec [of rs i "unix (now + maxAhead)"] an by (auto simp: answer_fits_def)
  note e = foldLocked_effect [OF recs(1) refl f]
  have h': "hist n' = fold count_one (counted_records (through ?h) ?new ?recs) ?h" using e by blast
  have new: "?recs = [] \<and> ?new = 0 \<or> (\<exists>m \<in> set rs. ?new = rTimestamp m \<and> rTimestamp m \<le> unix (now + maxAhead))"
  proof (cases "?recs = []")
    case False
    then have "last ?recs \<in> set ?recs" by simp
    then show ?thesis using False recs(2) by (auto simp: newest_of_def urec_def)
  qed (simp add: newest_of_def)
  have match: "(r \<in> set ?recs \<and> rts r = ts) \<longleftrightarrow> (\<exists>b. map_of ?T ts = Some b \<and> r = urec i (traffic_record b))"
    if t: "through ?h < ts" "ts < ?new" for ts r
  proof -
    obtain m where m: "m \<in> set rs" "?new = rTimestamp m" "rTimestamp m \<le> unix (now + maxAhead)"
      using new t hf by (auto simp: hist_fits_def)
    have q: "\<And>r. r \<in> set rs \<and> rTimestamp r = ts \<longleftrightarrow> (\<exists>b. map_of ?T ts = Some b \<and> r = traffic_record b)"
      using an t m unfolding answer_fits_def by metis
    have "ts \<le> unix (now + maxAhead)" using t(2) m by simp
    then have "r \<in> set ?recs \<and> rts r = ts \<longleftrightarrow> (\<exists>r0. (r0 \<in> set rs \<and> rTimestamp r0 = ts) \<and> r = urec i r0)"
      unfolding recs(2) by (auto simp: urec_def)
    then show ?thesis using q by auto
  qed
  have fa: "faithful i ?T (hist n')" unfolding h' using hf match by (intro fold_faithful recs(1)) (auto simp: hist_fits_def)
  let ?C = "counted_records (through ?h) ?new ?recs"
  have C: "through ?h < rts r \<and> rts r < ?new \<and> (\<exists>r0 \<in> set rs. r = urec i r0 \<and> rTimestamp r0 \<le> unix (now + maxAhead))" if "r \<in> set ?C" for r
    using that recs(2) by (auto simp: counted_records_def)
  have wf: "\<forall>r \<in> set ?C. bucket_wf (rb r)" using C by (force simp: urec_def)
  have th: "through ?h \<le> through (hist n')" "through (hist n') < ?clk"
  proof -
    have "through (hist n') = through ?h \<or> (\<exists>r \<in> set ?C. through (hist n') = rts r)" unfolding h' using count_all_get(3) [OF wf] by auto
    moreover have "?new \<le> ?clk" using new an pl by (auto simp: answer_fits_def place_ok_def)
    then have "rts r < ?clk" if "r \<in> set ?C" for r using C [OF that] by simp
    ultimately show "through ?h \<le> through (hist n')" "through (hist n') < ?clk" using C hf by (auto simp: hist_fits_def less_imp_le)
  qed
  have "hist_storable (hist n')" unfolding h'
  proof (rule storable_count_all)
    fix r assume "r \<in> set ?C"
    then obtain r0 where r: "r = urec i r0" "r0 \<in> set rs" "rTimestamp r0 \<le> unix (now + maxAhead)" "through ?h < rts r" using C by blast
    have "0 < rts r" using r an by (simp add: urec_def answer_fits_def)
    moreover have "dayOf (rts r) \<le> dayOf (unix (now + maxAhead))" using r(1,3) by (simp add: dayOf_floor secondsPerDay_def urec_def zdiv_mono1)
    moreover have "0 \<le> dayOf (rts r)" using calculation(1) by (simp add: dayOf_floor secondsPerDay_def)
    ultimately show "bucket_wf (rb r) \<and> 0 \<le> rts r \<and> four_digit_year (dayOf (rts r))" using y r(1) by (auto simp: four_digit_year_def urec_def)
  qed (use place_hist_ok [OF hub n] in blast)
  then have hub': "hub_ok (put_node i n' (uC s)) (uFile s)" using hub_ok_put [OF hub] place_hist_ok [OF hub n] by (simp add: put_node_def)
  have "node_fits (s\<lparr>uC := put_node i n' (uC s), uPoll := (uPoll s)(i := None), uAcks := uAcks s \<union> (if ack > 0 then {(i, ack)} else {})\<rparr>) i n'"
    using fits e fa th hf by (auto simp: node_fits_def hist_fits_def)
  moreover have "ack \<le> mark s i" if "ack > 0" using e fits that by (auto simp: node_fits_def)
  ultimately show ?thesis
    by (intro sys_ok_node [OF s hub', where n = n']) (auto simp: put_node_def update_conv' split: if_splits)
qed

lemma sys_ok_end:
  assumes s: "sys_ok s" "uPoll s i = Some (idn, a)"
  shows "sys_ok (s\<lparr>uPoll := (uPoll s)(i := None)\<rparr>)"
proof -
  have hub: "hub_ok (uC s) (uFile s)" and pl: "place_ok s i" using s(1) by (simp_all add: sys_ok_def)
  then obtain n where n: "map_of (nodes (uC s)) i = Some n" "node_fits s i n" using s(2) by (auto simp: place_ok_def split: option.splits)
  then have "node_fits (s\<lparr>uC := uC s, uPoll := (uPoll s)(i := None), uAcks := uAcks s\<rparr>) i n" by (auto simp: node_fits_def)
  moreover have "map_of (nodes (uC s)) = (map_of (nodes (uC s)))(i \<mapsto> n)" using n(1) by (simp add: fun_upd_idem)
  ultimately show ?thesis using sys_ok_node [OF s(1) hub refl, of i n] by fastforce
qed

lemma sys_ok_fail:
  assumes s: "sys_ok s" "uPoll s i = Some (idn, a)" "poll_end rate i idn None now (uC s) = (res, c)"
  shows "sys_ok (s\<lparr>uC := c, uPoll := (uPoll s)(i := None)\<rparr>)"
proof -
  have hub: "hub_ok (uC s) (uFile s)" and pl: "place_ok s i" using s(1) by (simp_all add: sys_ok_def)
  then obtain n where n: "map_of (nodes (uC s)) i = Some n" "node_fits s i n" using s(2) by (auto simp: place_ok_def split: option.splits)
  show ?thesis
  proof (cases "ident n = idn")
    case True
    let ?n = "missLocked (MissedPolls (uC s)) n"
    have c: "c = put_node i ?n (uC s)" using s(3) True n(1) by (simp add: poll_end_def)
    have "node_fits (s\<lparr>uC := c, uPoll := (uPoll s)(i := None), uAcks := uAcks s\<rparr>) i ?n" using n(2) by (auto simp: node_fits_def)
    moreover have "hub_ok c (uFile s)" using hub_ok_put [OF hub, of i ?n] place_hist_ok [OF hub n(1)] by (simp add: c put_node_def)
    ultimately have "sys_ok (s\<lparr>uC := c, uPoll := (uPoll s)(i := None), uAcks := uAcks s\<rparr>)"
      by (intro sys_ok_node [OF s(1), where n = ?n]) (auto simp: c put_node_def update_conv')
    then show ?thesis by simp
  next
    case False
    then have "c = uC s" using s(3) n(1) by (simp add: poll_end_def)
    then show ?thesis using sys_ok_end [OF s(1,2)] by simp
  qed
qed

lemma sys_ok_take_in:
  assumes s: "sys_ok s" "uPoll s i = Some (idn, Some rs)" "four_digit_year (dayOf (unix (now + maxAhead)))"
    "poll_end rate i idn (Some (Some \<lparr>Buffered = Some (map Some rs), OnlineIPs = ips\<rparr>)) now (uC s) = (res, c)"
  shows "sys_ok (s\<lparr>uC := c, uPoll := (uPoll s)(i := None),
      uAcks := uAcks s \<union> (case res of Polled smp ack \<Rightarrow> if ack > 0 then {(i, ack)} else {} | _ \<Rightarrow> {})\<rparr>)"
proof -
  have pl: "place_ok s i" using s(1) by (simp add: sys_ok_def)
  then obtain n where n: "map_of (nodes (uC s)) i = Some n" using s(2) by (auto simp: place_ok_def split: option.splits)
  show ?thesis
  proof (cases "ident n = idn")
    case True
    obtain n' smp ack where f: "foldLocked rate (noWrite (uC s)) i \<lparr>Buffered = Some (map Some rs), OnlineIPs = ips\<rparr> now n = (n', smp, ack)"
      by (metis surjective_pairing)
    then have "res = Polled smp ack" "c = put_node i n' (uC s)" using s(4) n True by (simp_all add: poll_end_def Let_def)
    then show ?thesis using sys_ok_take [OF s(1-3) n f] by simp
  next
    case False
    then have "c = uC s" "res = PollForgotten" using s(4) n by (simp_all add: poll_end_def Let_def)
    then show ?thesis using sys_ok_end [OF s(1,2)] by simp
  qed
qed

text \<open>Changes of the nodes as a whole that touch neither the histories' totals nor their marks.\<close>

lemma hub_ok_map:
  assumes "hub_ok c file" "\<And>i n. hist_storable (hist n) \<Longrightarrow> hist_storable (hist (f i n))"
  shows "hub_ok (c\<lparr>nodes := map (\<lambda>(i, n). (i, f i n)) (nodes c)\<rparr>) file"
proof -
  have "keys (hists (c\<lparr>nodes := map (\<lambda>(i, n). (i, f i n)) (nodes c)\<rparr>)) = keys (hists c)" by (simp add: comp_def case_prod_unfold)
  moreover have "\<forall>(i, h) \<in> set (hists (c\<lparr>nodes := map (\<lambda>(i, n). (i, f i n)) (nodes c)\<rparr>)). hist_storable h"
    using assms by (fastforce simp: hub_ok_def storable_def hists_def)
  ultimately show ?thesis using assms(1) unfolding hub_ok_def storable_def by (simp del: keys_hists set_map)
qed

lemma sys_ok_write1:
  assumes s: "sys_ok s" "uWrite s = None" "write_begin now (uC s) = (doc, marks, c)"
  shows "sys_ok (s\<lparr>uC := c, uWrite := Some (doc, marks, False)\<rparr>)" (is "sys_ok ?s")
proof -
  let ?k = "dayOf (unix now) - (keepDays - 1)"
  have hub: "hub_ok (uC s) (uFile s)" using s(1) by (simp add: sys_ok_def)
  have c: "c = (uC s)\<lparr>nodes := map (\<lambda>(i, n). (i, n\<lparr>hist := hist_prune ?k (hist n)\<rparr>)) (nodes (uC s))\<rparr>"
    "doc = encodeDoc (hists c) (retired c)" "marks = map (\<lambda>(i, n). (i, through (hist n))) (nodes c)"
    using s(3) by (auto simp: write_begin_def pruneLocked_def Let_def)
  have hub': "hub_ok c (uFile s)" unfolding c(1) by (rule hub_ok_map [OF hub]) (simp add: storable_prune)
  have nd: "map_of (nodes c) i = map_option (\<lambda>n. n\<lparr>hist := hist_prune ?k (hist n)\<rparr>) (map_of (nodes (uC s)) i)" for i
    using map_of_map_key [of "\<lambda>i n. n\<lparr>hist := hist_prune ?k (hist n)\<rparr>"] by (simp add: c(1))
  obtain ns rt where dec: "decodeDoc (Some doc) = Inr (ns, rt)" "\<And>i. hist_same (hist_at ns i) (hist_at (hists c) i)"
    using decode_encode [of "hists c" "retired c"] hub' c(2) by (auto simp: hub_ok_def)
  then have D: "hist_same (file_hist (Some doc) i) (hist_at (hists c) i)" for i by (simp add: file_hist_def)
  have mk: "map_of marks i = map_option (\<lambda>n. through (hist n)) (map_of (nodes c) i)" for i
    using map_of_map_key [of "\<lambda>i n. through (hist n)"] by (simp add: c(3))
  have "place_ok ?s i" for i
  proof -
    have pl: "place_ok s i" using s(1) by (simp add: sys_ok_def)
    show ?thesis
    proof (cases "map_of (nodes (uC s)) i")
      case None
      then have "hist_at (hists c) i = newNodeHist" by (simp add: hist_at_def map_of_hists nd)
      then have d: "hist_same newNodeHist (file_hist (Some doc) i)" using D [of i] hist_same_sym by simp
      have "twin_ok (uTwin s i) (uClk s i)" using pl by (simp add: place_ok_def)
      then have "faithful i (uTwin s i) newNodeHist" by (intro faithful_new) (auto simp: twin_ok_def)
      then have "hist_fits i (uTwin s i) (uClk s i) (file_hist (Some doc) i)"
        using pl by (intro hist_fits_same [OF d]) (simp add: hist_fits_def newNodeHist_def place_ok_def)
      moreover have "through (file_hist (Some doc) i) = 0" using d by (simp add: hist_same_def newNodeHist_def)
      ultimately have "write_fits ?s i" using None nd mk dec(1) pl by (auto simp: write_fits_def place_ok_def)
      then show ?thesis using None nd pl c(1) \<open>through (file_hist (Some doc) i) = 0\<close> by (auto simp: place_ok_def)
    next
      case (Some n)
      then have n: "node_fits s i n" "hist_ok (hist n)" using pl place_hist_ok [OF hub Some] by (simp_all add: place_ok_def)
      have "hist_at (hists c) i = hist_prune ?k (hist n)" using Some by (simp add: hist_at_def map_of_hists nd)
      then have d: "hist_same (hist_prune ?k (hist n)) (file_hist (Some doc) i)" using D [of i] hist_same_sym by simp
      then have t: "through (file_hist (Some doc) i) = through (hist n)" using n(2) by (simp add: hist_same_def hist_prune_get)
      have "hist_fits i (uTwin s i) (uClk s i) (file_hist (Some doc) i)"
        using n by (intro hist_fits_same [OF d]) (simp add: hist_fits_prune node_fits_def)
      then have "write_fits ?s i" using Some nd mk dec(1) n t by (auto simp: write_fits_def node_fits_def hist_prune_get)
      moreover have "node_fits ?s i (n\<lparr>hist := hist_prune ?k (hist n)\<rparr>)"
        using n t by (auto simp: node_fits_def hist_fits_prune hist_prune_get)
      ultimately show ?thesis using Some nd pl c(1) by (simp add: place_ok_def)
    qed
  qed
  then show ?thesis using hub' by (simp add: sys_ok_def)
qed

text \<open>Steps that change no node: what is left to show of a place.\<close>

lemma sys_ok_frame:
  assumes s: "sys_ok s" and c: "nodes (uC s') = nodes (uC s)" "uTwin s' = uTwin s" "uClk s' = uClk s" "uPoll s' = uPoll s" "hub_ok (uC s') (uFile s')"
    and store: "\<And>i. store_ok (buckets (uStore s' i)) (uTwin s i) (mark s' i)"
    and fil: "\<And>i. hist_fits i (uTwin s i) (uClk s i) (file_hist (uFile s') i)" "\<And>i. mark s i \<le> mark s' i"
      "\<And>i n. map_of (nodes (uC s)) i = Some n \<Longrightarrow> mark s' i \<le> through (hist n)" "\<And>i. map_of (nodes (uC s)) i = None \<Longrightarrow> mark s' i = 0"
    and wri: "\<And>i. write_fits s' i" "\<And>doc marks b. uWrite s' = Some (doc, marks, b) \<Longrightarrow> \<exists>m b'. uWrite s = Some (doc, m, b')"
    and acks: "\<And>i thr. (i, thr) \<in> uAcks s' \<Longrightarrow> thr \<le> mark s' i"
    and enc: "\<And>i. hist_same (file_hist (uFile s') i) (file_hist (Some (enc (uC s'))) i)"
  shows "sys_ok s'"
proof -
  have "place_ok s' i" for i
  proof -
    have pl: "place_ok s i" using s by (simp add: sys_ok_def)
    have "case map_of (nodes (uC s')) i of Some n \<Rightarrow> node_fits s' i n
        | None \<Rightarrow> mark s' i = 0 \<and> uPoll s' i = None \<and> (\<forall>doc marks b. uWrite s' = Some (doc, marks, b) \<longrightarrow> through (file_hist (Some doc) i) = 0)"
    proof (cases "map_of (nodes (uC s)) i")
      case None
      then show ?thesis using pl c fil(4) [of i] wri(2) unfolding place_ok_def by fastforce
    next
      case (Some n)
      then have "node_fits s i n" using pl by (simp add: place_ok_def)
      then have "node_fits s' i n" using c fil(2) [of i] fil(3) [OF Some] wri(2) unfolding node_fits_def by fastforce
      then show ?thesis using Some c by simp
    qed
    then show ?thesis using pl c store [of i] fil(1) [of i] wri(1) [of i] acks enc unfolding place_ok_def by auto
  qed
  then show ?thesis using c(5) by (simp add: sys_ok_def)
qed

lemma place_parts:
  assumes "sys_ok s"
  shows "hub_ok (uC s) (uFile s)" "store_ok (buckets (uStore s i)) (uTwin s i) (mark s i)"
    "hist_fits i (uTwin s i) (uClk s i) (file_hist (uFile s) i)" "write_fits s i" "(i, thr) \<in> uAcks s \<Longrightarrow> thr \<le> mark s i"
    "hist_same (file_hist (uFile s) i) (file_hist (Some (enc (uC s))) i)"
    "map_of (nodes (uC s)) i = Some n \<Longrightarrow> node_fits s i n" "map_of (nodes (uC s)) i = Some n \<Longrightarrow> mark s i \<le> through (hist n)"
    "map_of (nodes (uC s)) i = None \<Longrightarrow> mark s i = 0"
    "map_of (nodes (uC s)) i = Some n \<Longrightarrow> uWrite s = Some (doc, marks, b) \<Longrightarrow> through (file_hist (Some doc) i) \<le> through (hist n)"
    "map_of (nodes (uC s)) i = None \<Longrightarrow> uWrite s = Some (doc, marks, b) \<Longrightarrow> through (file_hist (Some doc) i) = 0"
proof -
  have h: "hub_ok (uC s) (uFile s)" and p: "place_ok s i" using assms by (auto simp: sys_ok_def)
  show "hub_ok (uC s) (uFile s)" by (rule h)
  show "store_ok (buckets (uStore s i)) (uTwin s i) (mark s i)" "hist_fits i (uTwin s i) (uClk s i) (file_hist (uFile s) i)"
    "write_fits s i" "(i, thr) \<in> uAcks s \<Longrightarrow> thr \<le> mark s i" "hist_same (file_hist (uFile s) i) (file_hist (Some (enc (uC s))) i)"
    using p unfolding place_ok_def by blast+
  show n: "node_fits s i n" if "map_of (nodes (uC s)) i = Some n" using p that by (simp add: place_ok_def)
  show "mark s i \<le> through (hist n)" if "map_of (nodes (uC s)) i = Some n" using n [OF that] by (simp add: node_fits_def)
  show "mark s i = 0" if "map_of (nodes (uC s)) i = None" using p that by (simp add: place_ok_def)
  show "through (file_hist (Some doc) i) \<le> through (hist n)" if "map_of (nodes (uC s)) i = Some n" "uWrite s = Some (doc, marks, b)"
    using n [OF that(1)] that(2) unfolding node_fits_def by blast
  show "through (file_hist (Some doc) i) = 0" if "map_of (nodes (uC s)) i = None" "uWrite s = Some (doc, marks, b)"
    using p that unfolding place_ok_def by fastforce
qed

lemma write_parts:
  assumes "write_fits s i" "uWrite s = Some (doc, marks, b)"
  shows "\<exists>x. decodeDoc (Some doc) = Inr x" "hist_fits i (uTwin s i) (uClk s i) (file_hist (Some doc) i)" "mark s i \<le> through (file_hist (Some doc) i)"
    "map_of marks i = Some m \<Longrightarrow> m \<le> through (file_hist (Some doc) i)" "b \<Longrightarrow> mark s i = through (file_hist (Some doc) i)"
  using assms unfolding write_fits_def by blast+

lemma sys_ok_drop_write:
  assumes s: "sys_ok s"
  shows "sys_ok (s\<lparr>uWrite := None\<rparr>)"
  by (rule sys_ok_frame [OF s]) (use place_parts [OF s] in \<open>simp_all add: write_fits_def\<close>)

lemma sys_ok_write2:
  assumes s: "sys_ok s" "uWrite s = Some (doc, marks, False)"
  shows "sys_ok (s\<lparr>uFile := Some doc, uC := (uC s)\<lparr>enc := doc, writes := w\<rparr>, uWrite := Some (doc, marks, True)\<rparr>)" (is "sys_ok ?s")
proof -
  note w = write_parts [OF place_parts(4) [OF s(1)] s(2)]
  show ?thesis
  proof (rule sys_ok_frame [OF s(1)])
    show "hub_ok (uC ?s) (uFile ?s)" using place_parts(1) [OF s(1)] w(1) by (simp add: hub_ok_def hists_def)
    show "store_ok (buckets (uStore ?s i)) (uTwin s i) (mark ?s i)" for i
      using place_parts(2) [OF s(1), of i] w(3) [of i] by (auto simp: store_ok_def)
    show "write_fits ?s i" for i using w(1) w(2) [of i] w(4) [of i] by (auto simp: write_fits_def)
    show "(i, thr) \<in> uAcks ?s \<Longrightarrow> thr \<le> mark ?s i" for i thr using place_parts(5) [OF s(1)] w(3) [of i] by fastforce
  qed (use w s(2) place_parts(10,11) [OF s(1) _ s(2)] in auto)
qed

lemma sys_ok_write_same:
  assumes s: "sys_ok s" "uWrite s = Some (doc, marks, False)" "\<not> write_needed doc (uC s)"
  shows "sys_ok (s\<lparr>uWrite := Some (doc, marks, True)\<rparr>)" (is "sys_ok ?s")
proof -
  have "hasPath (uC s)" using place_parts(1) [OF s(1)] by (simp add: hub_ok_def)
  then have "doc = enc (uC s)" using s(3) by (simp add: write_needed_def)
  then have "through (file_hist (Some doc) i) = mark s i" for i using place_parts(6) [OF s(1), of i] by (simp add: hist_same_def)
  then have "write_fits ?s i" for i using write_parts [OF place_parts(4) [OF s(1), of i] s(2)] by (auto simp: write_fits_def)
  then show ?thesis by (intro sys_ok_frame [OF s(1)]) (use place_parts [OF s(1)] s(2) in auto)
qed

lemma sys_ok_write3:
  assumes s: "sys_ok s" "uWrite s = Some (doc, marks, True)"
  shows "sys_ok (s\<lparr>uC := write_end marks (uC s), uWrite := None\<rparr>)" (is "sys_ok ?s")
proof -
  let ?f = "\<lambda>i n. case map_of marks i of Some m \<Rightarrow> n\<lparr>diskThrough := max (diskThrough n) m\<rparr> | None \<Rightarrow> n"
  have nd: "map_of (nodes (write_end marks (uC s))) i = map_option (?f i) (map_of (nodes (uC s)) i)" for i
    unfolding write_end_def using map_of_map_key [of ?f "nodes (uC s)"] by simp
  have "hub_ok (write_end marks (uC s)) (uFile s)"
    unfolding write_end_def by (rule hub_ok_map) (use s(1) in \<open>auto simp: sys_ok_def split: option.splits\<close>)
  moreover have "place_ok ?s i" for i
  proof -
    have pl: "place_ok s i" using s(1) by (simp add: sys_ok_def)
    have "\<forall>m. map_of marks i = Some m \<longrightarrow> m \<le> mark s i" using write_parts(4,5) [OF place_parts(4) [OF s(1), of i] s(2)] by auto
    then have "node_fits ?s i (?f i n)" if "node_fits s i n" for n using that by (auto simp: node_fits_def split: option.splits)
    moreover have "write_fits ?s i" by (simp add: write_fits_def)
    moreover have "enc (write_end marks (uC s)) = enc (uC s)" by (simp add: write_end_def)
    ultimately show ?thesis using pl nd by (auto simp: place_ok_def split: option.splits)
  qed
  ultimately show ?thesis by (simp add: sys_ok_def)
qed

lemma jobs_mem: "j \<in> set (jobs c) \<Longrightarrow> \<exists>n. (jid j, n) \<in> set (nodes c) \<and> src n = Some (jsrc j) \<and> jthrough j = diskThrough n"
  by (fastforce simp: jobs_def List.map_filter_def split: option.splits if_splits)

lemma sys_ok_send:
  assumes s: "sys_ok s" "j \<in> set (jobs (uC s))"
  shows "sys_ok (s\<lparr>uAcks := insert (jsrc j, jthrough j) (uAcks s)\<rparr>)"
proof -
  obtain n where n: "(jid j, n) \<in> set (nodes (uC s))" "src n = Some (jsrc j)" "jthrough j = diskThrough n" using jobs_mem [OF s(2)] by blast
  have "distinct (keys (nodes (uC s)))" using place_parts(1) [OF s(1)] unfolding hub_ok_def storable_def by simp
  then have "map_of (nodes (uC s)) (jid j) = Some n" using n(1) by simp
  then have "node_fits s (jid j) n" using place_parts(7) [OF s(1)] by blast
  then have "jthrough j \<le> mark s (jsrc j)" using n unfolding node_fits_def by auto
  then show ?thesis by (intro sys_ok_frame [OF s(1)]) (use place_parts [OF s(1)] in \<open>auto simp: write_fits_def\<close>)
qed

lemma sys_ok_arrive:
  assumes s: "sys_ok s" "(i, thr) \<in> uAcks s"
  shows "sys_ok (s\<lparr>uStore := (uStore s)(i := Drain thr (uStore s i))\<rparr>)" (is "sys_ok ?s")
proof -
  have t: "thr \<le> mark s i" and st: "store_ok (buckets (uStore s i)) (uTwin s i) (mark s i)" using place_parts [OF s(1)] s(2) by auto
  have "map_of (buckets (Drain thr (uStore s i))) x = (if x \<le> thr then None else map_of (buckets (uStore s i)) x)" for x
    unfolding Drain_def using map_of_filter_key [of "\<lambda>k. \<not> k \<le> thr" "buckets (uStore s i)" x] by simp
  moreover have "distinct (keys (buckets (Drain thr (uStore s i))))" using st by (simp add: store_ok_def Drain_def)
  ultimately have "store_ok (buckets (Drain thr (uStore s i))) (uTwin s i) (mark s i)" using st t by (auto simp: store_ok_def)
  then show ?thesis by (intro sys_ok_frame [OF s(1)]) (use place_parts [OF s(1)] in \<open>auto simp: write_fits_def\<close>)
qed

lemma sys_ok_touch:
  assumes s: "sys_ok s" and n: "map_of (nodes (uC s)) i = Some n" "hist m = hist n" "diskThrough m = diskThrough n" "src m = src n"
  shows "sys_ok (s\<lparr>uC := put_node i m (uC s)\<rparr>)"
proof -
  have hub: "hub_ok (uC s) (uFile s)" and pl: "node_fits s i n" using place_parts [OF s] n(1) by blast+
  have "hub_ok (put_node i m (uC s)) (uFile s)" using hub_ok_put [OF hub, of i m] place_hist_ok [OF hub n(1)] n(2) by (simp add: put_node_def)
  moreover have "node_fits (s\<lparr>uC := put_node i m (uC s), uPoll := (uPoll s)(i := uPoll s i), uAcks := uAcks s\<rparr>) i m"
    using pl n by (auto simp: node_fits_def)
  ultimately have "sys_ok (s\<lparr>uC := put_node i m (uC s), uPoll := (uPoll s)(i := uPoll s i), uAcks := uAcks s\<rparr>)"
    by (intro sys_ok_node [OF s, where n = m]) (auto simp: put_node_def update_conv')
  then show ?thesis by simp
qed

lemma sys_ok_confirm:
  assumes s: "sys_ok s"
  shows "sys_ok (s\<lparr>uC := poll_acked i idn thr ok (uC s)\<rparr>)"
proof -
  have a: "sys_ok (s\<lparr>uC := ackNode i idn thr ok (uC s)\<rparr>)"
  proof (cases "map_of (nodes (uC s)) i")
    case (Some n)
    then show ?thesis using s sys_ok_touch [OF s Some, of "n\<lparr>acked := max (acked n) thr, staleSeen := False\<rparr>"] by (auto simp: ackNode_def)
  qed (use s in \<open>simp add: ackNode_def\<close>)
  show ?thesis
  proof (cases "map_of (nodes (ackNode i idn thr ok (uC s))) i")
    case (Some n)
    then show ?thesis using a sys_ok_touch [OF a, of i n "n\<lparr>ackFailing := \<not> ok\<rparr>"] by (auto simp: poll_acked_def Let_def)
  qed (use a in \<open>simp add: poll_acked_def Let_def\<close>)
qed

section \<open>Starting from the file\<close>

definition loaded :: "nat \<Rightarrow> (nat \<times> nodeHist) list \<Rightarrow> (nat \<times> node) list" where
  "loaded k hs = map (\<lambda>(k, i, h). (i, new_node k h (through h))) (zip [k..<k + length hs] hs)"

lemma loaded_Cons: "loaded k ((i, h) # hs) = (i, new_node k h (through h)) # loaded (Suc k) hs"
  by (simp add: loaded_def upt_conv_Cons del: upt_Suc)

lemma loaded_hists: "map (\<lambda>(i, n). (i, hist n)) (loaded k hs) = hs"
proof (induction hs arbitrary: k)
  case (Cons x hs)
  then show ?case by (cases x) (simp add: loaded_Cons new_node_def)
qed (simp add: loaded_def)

lemma loaded_node: "map_of (loaded k hs) i = Some n \<Longrightarrow> map_of hs i = Some (hist n) \<and> diskThrough n = through (hist n) \<and> src n = None"
proof (induction hs arbitrary: k)
  case (Cons x hs)
  then show ?case by (cases x) (auto simp: loaded_Cons new_node_def split: if_splits)
qed (simp add: loaded_def)

text \<open>What \<open>Open\<close> makes of a file it can read, or of no file.\<close>

lemma open_reads:
  assumes "case file of None \<Rightarrow> True | Some doc \<Rightarrow> \<exists>x. decodeDoc (Some doc) = Inr x"
  obtains hs rt where "storable hs rt" "\<And>i. file_hist file i = hist_at hs i"
    "open_collector missed True file now = pruneLocked now
       \<lparr>MissedPolls = (if missed \<le> 0 then 3 else missed), hasPath = True, nodes = loaded 0 hs, retired = rt,
        enc = encodeDoc hs rt, noWrite = False, writes = 0, nextIdent = length hs\<rparr>"
proof (cases "file")
  case None
  have "storable [] []" by (simp add: storable_def)
  moreover have "file_hist file i = hist_at [] i" for i using None by (simp add: file_hist_def hist_at_def)
  ultimately show ?thesis using None by (intro that [of "[]" "[]"]) (simp_all add: open_collector_def load_def loaded_def hists_def Let_def)
next
  case (Some doc)
  then obtain hs rt where d: "decodeDoc (Some doc) = Inr (hs, rt)" using assms by auto
  then have "storable hs rt" using accepted_decodes_storable by blast
  moreover have "file_hist file i = hist_at hs i" for i using Some d by (simp add: file_hist_def)
  moreover have "hists \<lparr>MissedPolls = mp, hasPath = hp, nodes = loaded 0 hs, retired = r, enc = e, noWrite = nw, writes = w, nextIdent = ni\<rparr> = hs" for mp hp r e nw w ni
    using loaded_hists [of 0 hs] by (simp add: hists_def)
  ultimately show ?thesis using Some d by (intro that [of hs rt]) (simp_all add: open_collector_def load_def Let_def loaded_def)
qed

lemma sys_ok_open:
  assumes fl: "case file of None \<Rightarrow> True | Some doc \<Rightarrow> \<exists>x. decodeDoc (Some doc) = Inr x"
    and pl: "\<And>i. twin_ok (T i) (clk i) \<and> 0 < clk i \<and> store_ok (buckets (st i)) (T i) (through (file_hist file i)) \<and> hist_fits i (T i) (clk i) (file_hist file i)"
    and ack: "\<And>i thr. (i, thr) \<in> a \<Longrightarrow> thr \<le> through (file_hist file i)"
  shows "sys_ok \<lparr>uC = open_collector missed True file now, uFile = file, uStore = st, uTwin = T, uClk = clk, uPoll = \<lambda>i. None, uWrite = None, uAcks = a\<rparr>"
    (is "sys_ok ?s")
proof -
  let ?k = "dayOf (unix now) - (keepDays - 1)"
  obtain hs rt where h: "storable hs rt" "\<And>i. file_hist file i = hist_at hs i"
    and o: "open_collector missed True file now = pruneLocked now
       \<lparr>MissedPolls = (if missed \<le> 0 then 3 else missed), hasPath = True, nodes = loaded 0 hs, retired = rt,
        enc = encodeDoc hs rt, noWrite = False, writes = 0, nextIdent = length hs\<rparr>" (is "_ = pruneLocked now ?c")
    using open_reads [OF fl] by metis
  have "hists ?c = hs" using loaded_hists [of 0 hs] by (simp add: hists_def)
  then have "hub_ok ?c file" using h(1) fl by (simp add: hub_ok_def)
  then have "hub_ok (pruneLocked now ?c) file" unfolding pruneLocked_def Let_def by (rule hub_ok_map) (simp add: storable_prune)
  then have hub: "hub_ok (uC ?s) (uFile ?s)" using o by (simp only: usys.select_convs)
  have nd: "map_of (nodes (uC ?s)) i = map_option (\<lambda>n. n\<lparr>hist := hist_prune ?k (hist n)\<rparr>) (map_of (loaded 0 hs) i)" for i
    using map_of_map_key [of "\<lambda>i n. n\<lparr>hist := hist_prune ?k (hist n)\<rparr>"] by (simp add: o pruneLocked_def Let_def)
  have "place_ok ?s i" for i
  proof -
    have e: "enc (uC ?s) = encodeDoc hs rt" by (simp add: o pruneLocked_def Let_def)
    have "hist_same (file_hist (Some (encodeDoc hs rt)) i) (hist_at hs i)" using decode_encode [OF h(1)] by (auto simp: file_hist_def)
    then have en: "hist_same (file_hist file i) (file_hist (Some (enc (uC ?s))) i)" using h(2) e hist_same_sym by metis
    have "node_fits ?s i (n\<lparr>hist := hist_prune ?k (hist n)\<rparr>)" if n: "map_of (loaded 0 hs) i = Some n" for n
    proof -
      have l: "hist_at hs i = hist n" "diskThrough n = through (hist n)" "src n = None" "(i, hist n) \<in> set hs"
        using loaded_node [OF n] by (auto simp: hist_at_def dest: map_of_SomeD)
      then have "hist_ok (hist n)" using h(1) by (auto simp: storable_def hist_storable_def)
      then show ?thesis using l pl [of i] h(2) [of i] by (simp add: node_fits_def hist_fits_prune hist_prune_get)
    qed
    moreover have "through (file_hist file i) = 0" if "map_of (loaded 0 hs) i = None"
    proof -
      have "map_of hs i = None" using that loaded_hists [of 0 hs] map_of_map_key [of "\<lambda>i. hist" "loaded 0 hs" i] by simp
      then show ?thesis using h(2) by (simp add: hist_at_def newNodeHist_def)
    qed
    ultimately show ?thesis using pl [of i] ack [of i] nd [of i] en by (cases "map_of (loaded 0 hs) i") (auto simp: place_ok_def write_fits_def)
  qed
  then show ?thesis using hub by (simp add: sys_ok_def)
qed

lemma usage_invariant: "usage_run rate s \<Longrightarrow> sys_ok s"
proof (induction rule: usage_run.induct)
  case (start missed now dur ret)
  show ?case by (rule sys_ok_open)
      (auto simp: twin_ok_def store_ok_def file_hist_def hist_fits_def faithful_def upto_mark_def newNodeHist_def NewMemoryStore_def)
next
  case (crash s missed now)
  have "sys_ok \<lparr>uC = open_collector missed True (uFile s) now, uFile = uFile s, uStore = uStore s, uTwin = uTwin s, uClk = uClk s,
      uPoll = \<lambda>i. None, uWrite = None, uAcks = uAcks s\<rparr>"
  proof (rule sys_ok_open)
    show "twin_ok (uTwin s i) (uClk s i) \<and> 0 < uClk s i \<and> store_ok (buckets (uStore s i)) (uTwin s i) (mark s i)
      \<and> hist_fits i (uTwin s i) (uClk s i) (file_hist (uFile s) i)" for i
      using crash by (simp add: sys_ok_def place_ok_def)
  qed (use place_parts(1,5) [OF crash(2)] in \<open>auto simp: hub_ok_def\<close>)
  then show ?case by (cases s) simp
next
  case fill then show ?case by (intro sys_ok_fill)
next
  case poll then show ?case by (intro sys_ok_poll)
next
  case answer then show ?case by (intro sys_ok_answer)
next
  case fail then show ?case by (intro sys_ok_fail)
next
  case take_in then show ?case by (intro sys_ok_take_in)
next
  case write1 then show ?case by (intro sys_ok_write1)
next
  case write_fails then show ?case by (intro sys_ok_drop_write)
next
  case write2 then show ?case by (intro sys_ok_write2)
next
  case write_same then show ?case by (intro sys_ok_write_same)
next
  case write3 then show ?case by (intro sys_ok_write3)
next
  case send then show ?case by (intro sys_ok_send)
next
  case arrive then show ?case by (intro sys_ok_arrive)
next
  case confirm then show ?case by (intro sys_ok_confirm)
qed


section \<open>What a complete poll shows\<close>

lemma one_or_none:
  assumes "distinct (map f xs)" "\<And>x. x \<in> set xs \<Longrightarrow> f x = c"
  shows "xs = [] \<or> (\<exists>x. xs = [x])"
proof (cases xs)
  case (Cons x ys)
  then have "ys = []" using assms by (cases ys) auto
  then show ?thesis using Cons by simp
qed simp

lemma part_urec: "map_of T (rts r) = Some b \<Longrightarrow> r = urec i (traffic_record b) \<Longrightarrow> part f i T (rts r) = f (rb r)"
  by (simp add: part_def bucket_reading_def urec_def)

lemma poll_shows_everything:
  assumes s: "sorted_wrt (<) (map rts recs)" and top: "\<forall>ts \<in> set (keys T). ts \<le> clk" and th': "th' = through (fold count_one (counted_records (through h) newest recs) h)"
    and new: "newest = newest_of recs" and wf: "\<forall>r \<in> set recs. bucket_wf (rb r)"
    and m: "\<And>ts r. through h < ts \<Longrightarrow> (r \<in> set recs \<and> rts r = ts) \<longleftrightarrow> (\<exists>b. map_of T ts = Some b \<and> r = urec i (traffic_record b))"
  shows "upto_mark f i T clk = upto_mark f i T th' + (case newest_partial (through h) newest recs of None \<Rightarrow> 0 | Some p \<Rightarrow> f (pB p))"
proof -
  let ?C = "counted_records (through h) newest recs" and ?D = "filter (\<lambda>r. through h < rts r \<and> \<not> rts r < newest) recs"
  have sC: "sorted_wrt (<) (map rts ?C)" using s by (simp add: counted_records_def sorted_wrt_map sorted_wrt_filter)
  have dD: "distinct (map rts ?D)" using s by (simp add: strict_sorted_iff distinct_map_filter)
  have t: "th' = (if ?C = [] then through h else rts (last ?C))" using count_all_get(3) [of ?C h] wf th' by (auto simp: counted_records_def)
  have C: "through h < rts r \<and> rts r < newest \<and> rts r \<le> th'" if "r \<in> set ?C" for r
  proof -
    have "?C \<noteq> []" using that by auto
    then have "rts r \<le> th'" using sorted_last [OF sC that] t by simp
    then show ?thesis using that by (simp add: counted_records_def)
  qed
  have tn: "through h \<le> th'" "r \<in> set ?D \<Longrightarrow> th' < rts r" for r
    using t C [of "last ?C"] by (auto split: if_splits)
  have D: "rts r = newest" if "r \<in> set ?D" for r
    using that sorted_last [OF s, of r] new by (force simp: newest_of_def)
  have K: "{ts \<in> set (keys T). th' < ts} = rts ` set ?D"
  proof (intro set_eqI iffI)
    fix ts assume a: "ts \<in> {ts \<in> set (keys T). th' < ts}"
    then obtain b where b: "map_of T ts = Some b" by (metis (mono_tags, lifting) mem_Collect_eq map_of_eq_None_iff not_None_eq list.set_map)
    have th: "through h < ts" using a tn(1) by simp
    then have r: "urec i (traffic_record b) \<in> set recs" "rts (urec i (traffic_record b)) = ts" using m b by blast+
    have "urec i (traffic_record b) \<notin> set ?C" using C a r(2) by fastforce
    then have "urec i (traffic_record b) \<in> set ?D" using r th by (simp add: counted_records_def)
    then show "ts \<in> rts ` set ?D" using r(2) by force
  next
    fix ts assume "ts \<in> rts ` set ?D"
    then obtain r where r: "r \<in> set ?D" "ts = rts r" by blast
    then obtain b where "map_of T ts = Some b" using m [of ts r] by auto
    then show "ts \<in> {ts \<in> set (keys T). th' < ts}" using r tn(2) by (auto dest: map_of_SomeD intro: rev_image_eqI)
  qed
  have "{ts \<in> set (keys T). ts \<le> clk} = {ts \<in> set (keys T). ts \<le> th'} \<union> {ts \<in> set (keys T). th' < ts}" using top by auto
  then have "upto_mark f i T clk = upto_mark f i T th' + (\<Sum>ts \<in> rts ` set ?D. part f i T ts)"
    unfolding upto_mark_def K [symmetric] by (simp only:) (intro sum.union_disjoint; auto)
  moreover have "(\<Sum>ts \<in> rts ` set ?D. part f i T ts) = (case newest_partial (through h) newest recs of None \<Rightarrow> 0 | Some p \<Rightarrow> f (pB p))"
  proof -
    from one_or_none [OF dD D] consider "?D = []" | r where "?D = [r]" by blast
    then show ?thesis
    proof cases
      case 1 then show ?thesis by (simp only: newest_partial_def) simp
    next
      case 2
      then have "r \<in> set ?D" by (simp only:) simp
      then obtain b where "map_of T (rts r) = Some b" "r = urec i (traffic_record b)" using m [of "rts r" r] by auto
      then have "part f i T (rts r) = f (rb r)" by (rule part_urec)
      then show ?thesis using 2 by (simp only: newest_partial_def) simp
    qed
  qed
  ultimately show ?thesis by simp
qed

lemma complete_poll:
  assumes s: "sys_ok s" and n: "map_of (nodes (uC s)) i = Some n" and lim: "uClk s i \<le> unix (now + maxAhead)"
    and f: "foldLocked rate nw i \<lparr>Buffered = Some (map Some (GetBufferedTraffic (uStore s i))), OnlineIPs = ips\<rparr> now n = (n', smp, ack)"
  shows "node_lifetime k n' = upto_mark (\<lambda>b. get (bSubs b) k) i (uTwin s i) (uClk s i)"
proof -
  let ?rs = "GetBufferedTraffic (uStore s i)" and ?T = "uTwin s i" and ?h = "hist n"
  let ?recs = "fst (records (map Some ?rs) i (unix (now + maxAhead)))"
  have fits: "node_fits s i n" and st: "store_ok (buckets (uStore s i)) ?T (mark s i)" using place_parts [OF s] n by blast+
  have tw: "twin_ok ?T (uClk s i)" using s by (simp add: sys_ok_def place_ok_def)
  have mh: "mark s i \<le> through ?h" "hist_fits i ?T (uClk s i) ?h" using fits by (simp_all add: node_fits_def)
  have an: "answer_fits ?rs ?T (uClk s i) (through ?h)" by (rule GetBuffered_answers [OF st refl tw mh(1)])
  have recs: "sorted_wrt (<) (map rts ?recs)" "set ?recs = urec i ` set ?rs"
    using records_spec [of ?rs i "unix (now + maxAhead)"] an lim by (auto simp: answer_fits_def)
  have all: "(r \<in> set ?recs \<and> rts r = ts) \<longleftrightarrow> (\<exists>b. map_of ?T ts = Some b \<and> r = urec i (traffic_record b))" if "through ?h < ts" for ts r
    using GetBuffered_exact [OF st refl tw, of ts] that mh(1) recs(2) by (force simp: urec_def)
  note e = foldLocked_effect [OF recs(1) refl f]
  have fa: "faithful i ?T (hist n')" using e mh(2) all by (simp add: fold_faithful recs(1) hist_fits_def)
  have "upto_mark (\<lambda>b. get (bSubs b) k) i ?T (uClk s i) = upto_mark (\<lambda>b. get (bSubs b) k) i ?T (through (hist n'))
      + (case npartial n' of None \<Rightarrow> 0 | Some p \<Rightarrow> get (bSubs (pB p)) k)"
    using e poll_shows_everything [OF recs(1) _ refl refl _ all, where clk = "uClk s i" and f = "\<lambda>b. get (bSubs b) k"] tw recs(2)
    by (force simp: twin_ok_def urec_def)
  then show ?thesis using fa by (simp add: node_lifetime_def faithful_def)
qed

section \<open>Exactly once\<close>

text \<open>
  C32. Every byte is counted exactly once, whatever happens to the hub. In any run of agents filling
  their buckets, polls answered, lost or overtaken, writes of the file that succeed or fail,
  acknowledgements that arrive late, twice or never, and crashes of the hub at any point between
  them: a subscription's lifetime total on a node is the sum of its bytes over exactly the agent's
  buckets up to the node's mark, as if nothing had ever been dropped; the agent has not dropped a
  bucket that the file does not count; and once a poll of the agent has been taken in, what a limit
  is measured against is the sum over every bucket the agent ever filled.
\<close>

theorem usage_is_counted_exactly_once:
  assumes "usage_run rate s" "map_of (nodes (uC s)) i = Some n"
  shows "get (life (hist n)) k = upto_mark (\<lambda>b. get (bSubs b) k) i (uTwin s i) (through (hist n))
    \<and> (\<forall>ts. mark s i < ts \<longrightarrow> map_of (buckets (uStore s i)) ts = map_of (uTwin s i) ts)
    \<and> (\<forall>n' smp ack. uClk s i \<le> unix (now + maxAhead)
        \<and> foldLocked rate nw i \<lparr>Buffered = Some (map Some (GetBufferedTraffic (uStore s i))), OnlineIPs = ips\<rparr> now n = (n', smp, ack)
        \<longrightarrow> node_lifetime k n' = upto_mark (\<lambda>b. get (bSubs b) k) i (uTwin s i) (uClk s i))"
proof -
  note s = usage_invariant [OF assms(1)]
  have "faithful i (uTwin s i) (hist n)" using place_parts(7) [OF s assms(2)] by (simp add: node_fits_def hist_fits_def)
  moreover have "map_of (buckets (uStore s i)) ts = map_of (uTwin s i) ts" if "mark s i < ts" for ts
    using place_parts(2) [OF s, of i] that unfolding store_ok_def by (metis linorder_not_le)
  ultimately show ?thesis using complete_poll [OF s assms(2)] by (auto simp: faithful_def)
qed

definition usys_demo :: usys where
  "usys_demo = \<lparr>uC = open_collector 3 True None 0, uFile = None, uStore = \<lambda>i. NewMemoryStore 3600 604800, uTwin = \<lambda>i. [],
     uClk = \<lambda>i. 1, uPoll = \<lambda>i. None, uWrite = None, uAcks = {}\<rparr>"

lemma demo_poll: "usage_run rate (usys_demo\<lparr>uC := snd (poll_begin 7 7 (uC usys_demo)), uPoll := (uPoll usys_demo)(7 := Some (0, None))\<rparr>)"
proof -
  have "poll_begin 7 7 (uC usys_demo) = (0, snd (poll_begin 7 7 (uC usys_demo)))"
    by (simp add: usys_demo_def poll_begin_def nodeLocked_def open_collector_def load_def pruneLocked_def hists_def put_node_def new_node_def Let_def)
  moreover have "usage_run rate usys_demo" unfolding usys_demo_def by (rule usage_run.start)
  ultimately show ?thesis by (intro usage_run.poll [of rate usys_demo 7]) (simp_all add: usys_demo_def)
qed

theorem usage_is_counted_exactly_once_witness:
  "\<exists>s n. usage_run (\<lambda>b ns. b) s \<and> map_of (nodes (uC s)) 7 = Some n \<and> get (life (hist n)) 4 = 0"
proof -
  let ?s = "usys_demo\<lparr>uC := snd (poll_begin 7 7 (uC usys_demo)), uPoll := (uPoll usys_demo)(7 := Some (0, None))\<rparr>"
  obtain n where n: "map_of (nodes (uC ?s)) 7 = Some n"
    by (simp add: usys_demo_def poll_begin_def nodeLocked_def open_collector_def load_def pruneLocked_def hists_def put_node_def Let_def)
  have "uTwin ?s 7 = []" by (simp add: usys_demo_def)
  then have "get (life (hist n)) 4 = 0"
    using usage_is_counted_exactly_once [OF demo_poll n, of 4] by (simp add: upto_mark_def)
  then show ?thesis using demo_poll n by blast
qed

section \<open>What is forgotten\<close>

lemma fold_lifetime: "fold (\<lambda>(i, n) t. t + node_lifetime s n) ns t = t + (\<Sum>(i, n) \<leftarrow> ns. node_lifetime s n)"
  by (induction ns arbitrary: t) (auto simp: add.assoc)

lemma lifetime_sum: "SubscriptionLifetime s c = get (retired c) s + (\<Sum>(i, n) \<leftarrow> nodes c. node_lifetime s n)"
  by (simp add: SubscriptionLifetime_def fold_lifetime)

lemma sum_delete:
  fixes g :: "'v \<Rightarrow> Totals"
  assumes "distinct (keys m)" "map_of m i = Some v"
  shows "(\<Sum>(k, x) \<leftarrow> m. g x) = g v + (\<Sum>(k, x) \<leftarrow> AList.delete i m. g x)"
  using assms
proof (induction m)
  case (Cons kx m)
  obtain k x where kx: "kx = (k, x)" by fastforce
  show ?case
  proof (cases "k = i")
    case True
    then have "i \<notin> set (keys m)" using Cons.prems kx by simp
    then have "AList.delete i m = m" by (intro AList.delete_id) auto
    then show ?thesis using True Cons.prems kx by simp
  next
    case False
    then show ?thesis using Cons kx by (simp add: add.left_commute)
  qed
qed simp

text \<open>
  Removing a node takes nothing off a limit but the bucket that was still growing. After a node
  is forgotten, a subscription's lifetime total and its share of the node's growing bucket add up to
  what the lifetime total was before.
\<close>

theorem Forget_keeps_what_was_counted:
  assumes "distinct (keys (nodes c))" "map_of (nodes c) i = Some n" "distinct (keys (life (hist n)))"
  shows "SubscriptionLifetime s c = SubscriptionLifetime s (Forget i c) + (case npartial n of Some p \<Rightarrow> get (bSubs (pB p)) s | None \<Rightarrow> 0)"
proof -
  have "get (retired (Forget i c)) s = get (retired c) s + get (life (hist n)) s"
    using assms(2,3) by (simp add: Forget_def get_fold_bump sum_list_one_key)
  moreover have "nodes (Forget i c) = AList.delete i (nodes c)" using assms(2) by (simp add: Forget_def)
  ultimately show ?thesis
    using sum_delete [OF assms(1,2), of "node_lifetime s"] by (simp add: lifetime_sum node_lifetime_def ac_simps)
qed

definition growing_node :: node where
  "growing_node = (new_node 0 newNodeHist 0)\<lparr>npartial := Some \<lparr>pTs = 3600, pB = \<lparr>bSubs = [(4, Totals 10 20)], bBridge = 0\<rparr>, pNode = Totals 10 20\<rparr>\<rparr>"

definition growing_demo :: collector where
  "growing_demo = (open_collector 3 True None 0)\<lparr>nodes := [(7, growing_node)]\<rparr>"

theorem Forget_keeps_what_was_counted_witness:
  "SubscriptionLifetime 4 growing_demo = SubscriptionLifetime 4 (Forget 7 growing_demo) + Totals 10 20"
  using Forget_keeps_what_was_counted [of growing_demo 7 growing_node 4]
  by (simp add: growing_demo_def growing_node_def new_node_def newNodeHist_def get_Cons)

text \<open>
  The lifetime total can shrink: a subscription that has moved thirty bytes in the bucket that is
  still growing has moved none once the node is removed.
\<close>

theorem removing_a_node_gives_bytes_back:
  "SubscriptionLifetime 4 growing_demo = Totals 10 20 \<and> SubscriptionLifetime 4 (Forget 7 growing_demo) = 0"
  by (simp add: lifetime_sum growing_demo_def growing_node_def new_node_def newNodeHist_def node_lifetime_def Forget_def open_collector_def
      load_def pruneLocked_def get_Cons Let_def plus_Totals_def zero_Totals_def)

end
