(* ===== verification/Release_Version.thy ===== *)
theory Release_Version
  imports Prelude Node_Emails "HOL-Library.Char_ord" "HOL-Library.List_Lexorder" "HOL-Library.Product_Lexorder"
begin

text \<open>
  Release tags, \<open>pkg/release/version.go\<close>: reading and printing them, the order of versions and the
  choice of the newest one. The two regular expressions are the functions \<open>tag_match\<close> and
  \<open>describe_match\<close> on strings; subtraction wraps at 64 bits as in the code. The order is compared
  with a reference: a linear order on keys, in which a numeric identifier sorts before a textual one,
  identifiers sort lexicographically, and a release sorts after its prereleases.
\<close>

record Version =
  Major :: int
  Minor :: int
  Patch :: int
  Pre :: "string list"

section \<open>Reading a tag\<close>

text \<open>\<open>(0|[1-9]\d*)\<close> and \<open>[0-9A-Za-z-]+\<close>.\<close>

definition is_number :: "string \<Rightarrow> bool" where
  "is_number s \<longleftrightarrow> s \<noteq> [] \<and> list_all is_digit s \<and> (hd s = CHR ''0'' \<longrightarrow> s = ''0'')"

definition ident_char :: "char \<Rightarrow> bool" where
  "ident_char c \<longleftrightarrow> is_digit c \<or> (65 \<le> byte c \<and> byte c \<le> 90) \<or> (97 \<le> byte c \<and> byte c \<le> 122) \<or> c = CHR ''-''"

definition is_ident :: "string \<Rightarrow> bool" where
  "is_ident s \<longleftrightarrow> s \<noteq> [] \<and> list_all ident_char s"

text \<open>The prerelease part behind its hyphen: identifiers between dots.\<close>

definition is_prerelease :: "string \<Rightarrow> bool" where
  "is_prerelease p \<longleftrightarrow> list_all is_ident (split_on CHR ''.'' p)"

definition number_then :: "string \<Rightarrow> (string \<times> string) option" where
  "number_then s = (let n = takeWhile is_digit s in if is_number n then Some (n, dropWhile is_digit s) else None)"

fun dot_then :: "string \<Rightarrow> string option" where
  "dot_then (c # s) = (if c = CHR ''.'' then Some s else None)"
| "dot_then [] = None"

text \<open>The four groups of \<open>tagRE\<close>; the last is empty when there is no prerelease.\<close>

definition tag_match :: "string \<Rightarrow> (string \<times> string \<times> string \<times> string) option" where
  "tag_match s =
     (case s of
        [] \<Rightarrow> None
      | c # s1 \<Rightarrow>
          if c \<noteq> CHR ''v'' then None
          else Option.bind (number_then s1) (\<lambda>(a, s2).
            Option.bind (dot_then s2) (\<lambda>s3.
            Option.bind (number_then s3) (\<lambda>(b, s4).
            Option.bind (dot_then s4) (\<lambda>s5.
            Option.bind (number_then s5) (\<lambda>(p, s6).
              (case s6 of
                 [] \<Rightarrow> Some (a, b, p, [])
               | d # s7 \<Rightarrow> if d = CHR ''-'' \<and> is_prerelease s7 then Some (a, b, p, s7) else None)))))))"

text \<open>\<open>^\d+-g[0-9a-f]{7,}$\<close>.\<close>

definition hex_char :: "char \<Rightarrow> bool" where
  "hex_char c \<longleftrightarrow> is_digit c \<or> (97 \<le> byte c \<and> byte c \<le> 102)"

definition describe_match :: "string \<Rightarrow> bool" where
  "describe_match s =
     (let d = takeWhile is_digit s; r = dropWhile is_digit s
      in d \<noteq> [] \<and> take 2 r = ''-g'' \<and> length (drop 2 r) \<ge> 7 \<and> list_all hex_char (drop 2 r))"

definition Parse :: "string \<Rightarrow> Version option" where
  "Parse s =
     (case tag_match (trim_space s) of
        None \<Rightarrow> None
      | Some (m1, m2, m3, m4) \<Rightarrow>
          let v = \<lparr>Major = atoi_value m1, Minor = atoi_value m2, Patch = atoi_value m3, Pre = []\<rparr> in
          if m4 \<noteq> [] then
            let v = v\<lparr>Pre := split_on CHR ''.'' m4\<rparr> in
            if length (Pre v) = 1 \<and> describe_match m4 then None else Some v
          else Some v)"

definition version_String :: "Version \<Rightarrow> string" where
  "version_String v =
     (let s = CHR ''v'' # itoa (Major v) @ ''.'' @ itoa (Minor v) @ ''.'' @ itoa (Patch v)
      in if Pre v \<noteq> [] then s @ ''-'' @ join_with CHR ''.'' (Pre v) else s)"

definition Stable :: "Version \<Rightarrow> bool" where
  "Stable v \<longleftrightarrow> length (Pre v) = 0"

section \<open>The order\<close>

definition str_Compare :: "string \<Rightarrow> string \<Rightarrow> int" where
  "str_Compare a b = (if a < b then - 1 else if a = b then 0 else 1)"

definition comparePre :: "string \<Rightarrow> string \<Rightarrow> int" where
  "comparePre a b =
     (case (atoi a, atoi b) of
        (Some ai, Some bi) \<Rightarrow> go_sign (wrap64 (ai - bi))
      | (Some ai, None) \<Rightarrow> - 1
      | (None, Some bi) \<Rightarrow> 1
      | (None, None) \<Rightarrow> str_Compare a b)"

fun compare_idents :: "string list \<Rightarrow> string list \<Rightarrow> int" where
  "compare_idents (a # as) (b # bs) = (let c = comparePre a b in if c \<noteq> 0 then c else compare_idents as bs)"
| "compare_idents as bs = go_sign (int (length as) - int (length bs))"

definition Compare :: "Version \<Rightarrow> Version \<Rightarrow> int" where
  "Compare v w =
     (case filter (\<lambda>d. d \<noteq> 0) [wrap64 (Major v - Major w), wrap64 (Minor v - Minor w), wrap64 (Patch v - Patch w)] of
        d # ds \<Rightarrow> go_sign d
      | [] \<Rightarrow>
          if Pre v = [] \<and> Pre w = [] then 0
          else if Pre v = [] then 1
          else if Pre w = [] then - 1
          else compare_idents (Pre v) (Pre w))"

definition Newer :: "Version \<Rightarrow> Version \<Rightarrow> bool" where
  "Newer v w \<longleftrightarrow> Compare v w > 0"

definition pick_step :: "Version \<Rightarrow> bool \<Rightarrow> string \<Rightarrow> Version option \<Rightarrow> Version option" where
  "pick_step running beta t best =
     (case Parse t of
        None \<Rightarrow> best
      | Some v \<Rightarrow>
          if (\<not> beta \<and> \<not> Stable v) \<or> \<not> Newer v running then best
          else (case best of None \<Rightarrow> Some v | Some b \<Rightarrow> if Newer v b then Some v else best))"

definition Pick :: "string list \<Rightarrow> Version \<Rightarrow> bool \<Rightarrow> Version option" where
  "Pick tags running beta = fold (pick_step running beta) tags None"

section \<open>Reading back what is printed\<close>

definition version_wf :: "Version \<Rightarrow> bool" where
  "version_wf v \<longleftrightarrow> 0 \<le> Major v \<and> Major v \<le> int64_max \<and> 0 \<le> Minor v \<and> Minor v \<le> int64_max \<and> 0 \<le> Patch v \<and> Patch v \<le> int64_max
     \<and> list_all is_ident (Pre v) \<and> \<not> (length (Pre v) = 1 \<and> describe_match (hd (Pre v)))"

definition graphic :: "char \<Rightarrow> bool" where
  "graphic c \<longleftrightarrow> 33 \<le> byte c \<and> byte c \<le> 126"

lemma spaces_not_graphic: "e \<in> set space_encodings \<Longrightarrow> \<exists>c \<in> set e. \<not> graphic c"
  by (auto simp: space_encodings_def graphic_def)

lemma no_space_prefix: "\<forall>c \<in> set s. graphic c \<Longrightarrow> space_prefix s = 0"
  using spaces_not_graphic by (fastforce simp: space_prefix_def find_Some_iff has_prefix_iff prefix_def split: option.splits dest: nth_mem)

lemma no_space_suffix: "\<forall>c \<in> set s. graphic c \<Longrightarrow> space_suffix s = 0"
proof -
  assume s: "\<forall>c \<in> set s. graphic c"
  have "\<not> has_prefix (rev s) (rev e)" if "e \<in> set space_encodings" for e
  proof
    assume "has_prefix (rev s) (rev e)"
    then have "set e \<subseteq> set s" by (auto simp: has_prefix_iff prefix_def) (metis UnI1 set_append set_rev)
    then show False using spaces_not_graphic [OF that] s by blast
  qed
  then have "find (\<lambda>e. has_prefix (rev s) (rev e)) space_encodings = None" by (simp add: find_None_iff)
  then show ?thesis by (simp add: space_suffix_def)
qed

lemma trim_graphic: "\<forall>c \<in> set s. graphic c \<Longrightarrow> trim_space s = s"
  using no_space_prefix [of s] no_space_suffix [of s] by (simp add: trim_space_def trim_left.simps trim_right.simps)

lemma ident_chars_graphic: "ident_char c \<Longrightarrow> graphic c" "is_digit c \<Longrightarrow> graphic c"
  by (auto simp: ident_char_def is_digit_def graphic_def)

lemma graphic_marks: "graphic CHR ''.''" "graphic CHR ''-''" "graphic CHR ''v''"
  by (simp_all add: graphic_def)

lemma join_one: "length ps = 1 \<Longrightarrow> join_with sep ps = hd ps"
  by (auto simp: length_Suc_conv)

lemma itoa_nat: "0 \<le> n \<Longrightarrow> itoa n = dec (nat n)"
  by (simp add: itoa_def)

lemma is_number_dec: "is_number (dec n)"
proof -
  have "hd (dec n) = CHR ''0'' \<Longrightarrow> dec n = ''0''" using hd_dec [of n] dec_zero by (cases n) auto
  then show ?thesis using dec_digits [of n] by (simp add: is_number_def list_all_iff)
qed

lemma number_then_dec: "r = [] \<or> \<not> is_digit (hd r) \<Longrightarrow> number_then (dec n @ r) = Some (dec n, r)"
proof -
  assume r: "r = [] \<or> \<not> is_digit (hd r)"
  have d: "\<forall>c \<in> set (dec n). is_digit c" by (rule dec_digits)
  have "takeWhile is_digit (dec n @ r) = dec n" "dropWhile is_digit (dec n @ r) = r"
    using d r by (auto simp: takeWhile_append2 dropWhile_append2 takeWhile_eq_Nil_iff) (cases r; simp)+
  then show ?thesis using is_number_dec by (simp add: number_then_def)
qed

lemma ident_no_dot: "is_ident s \<Longrightarrow> CHR ''.'' \<notin> set s"
  by (auto simp: is_ident_def list_all_iff ident_char_def is_digit_def)

lemma prerelease_join: "ps \<noteq> [] \<Longrightarrow> list_all is_ident ps \<Longrightarrow> split_on CHR ''.'' (join_with CHR ''.'' ps) = ps"
  by (rule split_join) (auto simp: list_all_iff ident_no_dot)

lemma tag_match_String:
  assumes "version_wf v"
  shows "tag_match (version_String v) = Some (dec (nat (Major v)), dec (nat (Minor v)), dec (nat (Patch v)), if Pre v = [] then [] else join_with CHR ''.'' (Pre v))"
proof -
  have n: "itoa (Major v) = dec (nat (Major v))" "itoa (Minor v) = dec (nat (Minor v))" "itoa (Patch v) = dec (nat (Patch v))"
    using assms by (simp_all add: version_wf_def itoa_nat)
  let ?t = "if Pre v = [] then [] else CHR ''-'' # join_with CHR ''.'' (Pre v)"
  have s: "version_String v = CHR ''v'' # dec (nat (Major v)) @ CHR ''.'' # dec (nat (Minor v)) @ CHR ''.'' # dec (nat (Patch v)) @ ?t"
    by (simp add: version_String_def n)
  have d: "\<not> is_digit CHR ''.''" "?t = [] \<or> \<not> is_digit (hd ?t)" by (simp_all add: is_digit_def)
  have p: "Pre v \<noteq> [] \<Longrightarrow> is_prerelease (join_with CHR ''.'' (Pre v))"
    using assms prerelease_join [of "Pre v"] by (simp add: is_prerelease_def version_wf_def)
  show ?thesis unfolding s tag_match_def using p d by (simp add: number_then_dec)
qed

lemma String_graphic: "version_wf v \<Longrightarrow> \<forall>c \<in> set (version_String v). graphic c"
proof -
  assume v: "version_wf v"
  have j: "\<forall>c \<in> set (join_with CHR ''.'' ps). graphic c" if "list_all is_ident ps" for ps
    using that by (induction "CHR ''.''" ps rule: join_with.induct) (auto simp: is_ident_def list_all_iff ident_chars_graphic graphic_marks)
  have "\<forall>c \<in> set (dec n). graphic c" for n using dec_digits ident_chars_graphic(2) by blast
  then show ?thesis using v j [of "Pre v"] by (auto simp: version_String_def version_wf_def itoa_nat graphic_marks Let_def)
qed

lemma join_empty: "ps \<noteq> [] \<Longrightarrow> list_all is_ident ps \<Longrightarrow> join_with CHR ''.'' ps \<noteq> []"
  by (cases ps; cases "tl ps") (auto simp: is_ident_def)

lemma Parse_String: "version_wf v \<Longrightarrow> Parse (version_String v) = Some v"
proof -
  assume v: "version_wf v"
  have a: "atoi_value (dec (nat (Major v))) = Major v" "atoi_value (dec (nat (Minor v))) = Minor v" "atoi_value (dec (nat (Patch v))) = Patch v"
    using v by (simp_all add: version_wf_def)
  have "\<not> (length (Pre v) = 1 \<and> describe_match (join_with CHR ''.'' (Pre v)))" using v join_one [of "Pre v"] by (auto simp: version_wf_def)
  moreover have "Pre v \<noteq> [] \<Longrightarrow> join_with CHR ''.'' (Pre v) \<noteq> [] \<and> split_on CHR ''.'' (join_with CHR ''.'' (Pre v)) = Pre v"
    using v join_empty prerelease_join by (auto simp: version_wf_def)
  ultimately show ?thesis using tag_match_String [OF v] trim_graphic [OF String_graphic [OF v]] a by (cases v) (auto simp: Parse_def Let_def)
qed

lemma atoi_value_number: "is_number m \<Longrightarrow> 0 \<le> atoi_value m \<and> atoi_value m \<le> int64_max"
proof -
  assume m: "is_number m"
  then have "is_digit (hd m)" by (auto simp: is_number_def list_all_iff)
  then have "hd m \<noteq> CHR ''-''" "hd m \<noteq> CHR ''+''" by (simp_all add: digit_not_sign)
  then show ?thesis using m undec_nonneg [of m] by (auto simp: atoi_value_def atoi_full_def is_number_def Let_def int64_max_def)
qed

lemma tag_match_parts:
  assumes "tag_match s = Some (a, b, c, p)"
  shows "is_number a \<and> is_number b \<and> is_number c \<and> (p = [] \<or> is_prerelease p)"
  using assms by (auto simp: tag_match_def number_then_def Let_def split: list.splits if_splits Option.bind_splits prod.splits)

lemma Parse_wf: "Parse s = Some v \<Longrightarrow> version_wf v"
proof -
  assume "Parse s = Some v"
  then obtain a b c p where m: "tag_match (trim_space s) = Some (a, b, c, p)"
    and v: "v = \<lparr>Major = atoi_value a, Minor = atoi_value b, Patch = atoi_value c, Pre = if p = [] then [] else split_on CHR ''.'' p\<rparr>"
    and d: "p = [] \<or> \<not> (length (split_on CHR ''.'' p) = 1 \<and> describe_match p)"
    by (auto simp: Parse_def Let_def split: option.splits if_splits)
  have "describe_match (hd (split_on CHR ''.'' p)) = describe_match p" if "length (split_on CHR ''.'' p) = 1"
    using join_one [OF that, of "CHR ''.''"] by simp
  then show ?thesis using tag_match_parts [OF m] atoi_value_number v d by (auto simp: version_wf_def is_prerelease_def)
qed

text \<open>
  Tags survive being read and printed. A version is the reading of its own printed form exactly
  when its numbers are not negative and fit an \<open>int\<close>, its identifiers are well formed and it does not
  look like a git build; and everything \<open>Parse\<close> returns is such a version, so that a tag that was
  read prints as a tag that reads the same.
\<close>

theorem versions_roundtrip:
  "(Parse (version_String v) = Some v \<longleftrightarrow> version_wf v)
   \<and> (Parse s = Some w \<longrightarrow> Parse (version_String w) = Some w)"
  using Parse_String Parse_wf by blast

theorem versions_roundtrip_witness:
  "Parse ''v1.2.0-rc.1'' = Some \<lparr>Major = 1, Minor = 2, Patch = 0, Pre = [''rc'', ''1'']\<rparr>"
proof -
  have "version_wf \<lparr>Major = 1, Minor = 2, Patch = 0, Pre = [''rc'', ''1'']\<rparr>"
    by (simp add: version_wf_def int64_max_def is_ident_def ident_char_def is_digit_def)
  moreover have "version_String \<lparr>Major = 1, Minor = 2, Patch = 0, Pre = [''rc'', ''1'']\<rparr> = ''v1.2.0-rc.1''" by code_simp
  ultimately show ?thesis using versions_roundtrip [of "\<lparr>Major = 1, Minor = 2, Patch = 0, Pre = [''rc'', ''1'']\<rparr>"] by simp
qed

section \<open>The reference order\<close>

datatype ident_key = Num int | Text string

instantiation ident_key :: linorder
begin

fun less_eq_ident_key :: "ident_key \<Rightarrow> ident_key \<Rightarrow> bool" where
  "less_eq_ident_key (Num a) (Num b) = (a \<le> b)"
| "less_eq_ident_key (Num a) (Text b) = True"
| "less_eq_ident_key (Text a) (Num b) = False"
| "less_eq_ident_key (Text a) (Text b) = (a \<le> b)"

definition less_ident_key :: "ident_key \<Rightarrow> ident_key \<Rightarrow> bool" where
  "less_ident_key a b \<longleftrightarrow> a \<le> b \<and> \<not> b \<le> a"

instance
proof
  fix a b c :: ident_key
  show "a \<le> a" by (cases a) auto
  show "a \<le> b \<Longrightarrow> b \<le> c \<Longrightarrow> a \<le> c" by (cases a; cases b; cases c) auto
  show "a \<le> b \<Longrightarrow> b \<le> a \<Longrightarrow> a = b" by (cases a; cases b) auto
  show "a \<le> b \<or> b \<le> a" by (cases a; cases b) auto
qed (simp add: less_ident_key_def)

end

datatype release_key = Prerelease "ident_key list" | Final

instantiation release_key :: linorder
begin

fun less_eq_release_key :: "release_key \<Rightarrow> release_key \<Rightarrow> bool" where
  "less_eq_release_key (Prerelease a) (Prerelease b) = (a \<le> b)"
| "less_eq_release_key (Prerelease a) Final = True"
| "less_eq_release_key Final (Prerelease b) = False"
| "less_eq_release_key Final Final = True"

definition less_release_key :: "release_key \<Rightarrow> release_key \<Rightarrow> bool" where
  "less_release_key a b \<longleftrightarrow> a \<le> b \<and> \<not> b \<le> a"

instance
proof
  fix a b c :: release_key
  show "a \<le> a" by (cases a) auto
  show "a \<le> b \<Longrightarrow> b \<le> c \<Longrightarrow> a \<le> c" by (cases a; cases b; cases c) auto
  show "a \<le> b \<Longrightarrow> b \<le> a \<Longrightarrow> a = b" by (cases a; cases b) auto
  show "a \<le> b \<or> b \<le> a" by (cases a; cases b) auto
qed (simp add: less_release_key_def)

end

definition cmp :: "'a::linorder \<Rightarrow> 'a \<Rightarrow> int" where
  "cmp a b = (if a < b then - 1 else if a = b then 0 else 1)"

definition ident_key :: "string \<Rightarrow> ident_key" where
  "ident_key s = (case atoi s of Some n \<Rightarrow> Num n | None \<Rightarrow> Text s)"

definition version_key :: "Version \<Rightarrow> int \<times> int \<times> int \<times> release_key" where
  "version_key v = (Major v, Minor v, Patch v, if Pre v = [] then Final else Prerelease (map ident_key (Pre v)))"

text \<open>No identifier reads as a negative number: a leading hyphen and digits only.\<close>

definition plain :: "Version \<Rightarrow> bool" where
  "plain v \<longleftrightarrow> version_wf v \<and> list_all (\<lambda>s. case atoi s of Some n \<Rightarrow> 0 \<le> n | None \<Rightarrow> True) (Pre v)"

lemma key_less_simps [simp]:
  "Num a < Num b \<longleftrightarrow> a < b" "Num a < Text s" "\<not> Text s < Num a" "Text s < Text t \<longleftrightarrow> s < t"
  "Prerelease x < Prerelease y \<longleftrightarrow> x < y" "Prerelease x < Final" "\<not> Final < Prerelease x" "\<not> Final < Final"
  by (auto simp: less_ident_key_def less_release_key_def)

lemma sign_diff:
  assumes "0 \<le> a" "a \<le> int64_max" "0 \<le> b" "b \<le> int64_max"
  shows "go_sign (wrap64 (a - b)) = cmp a b" "wrap64 (a - b) = 0 \<longleftrightarrow> a = b"
  using assms wrap64_id [of "a - b"] by (auto simp: cmp_def go_sign_def int64_max_def int64_min_def)

lemma comparePre_cmp:
  assumes "case atoi a of Some n \<Rightarrow> 0 \<le> n | None \<Rightarrow> True" "case atoi b of Some n \<Rightarrow> 0 \<le> n | None \<Rightarrow> True"
  shows "comparePre a b = cmp (ident_key a) (ident_key b)"
proof (cases "atoi a")
  case None
  then show ?thesis by (simp add: comparePre_def ident_key_def str_Compare_def cmp_def split: option.splits)
next
  case (Some n)
  show ?thesis
  proof (cases "atoi b")
    case None
    then show ?thesis using Some by (simp add: comparePre_def ident_key_def cmp_def)
  next
    case s: (Some m)
    then have "go_sign (wrap64 (n - m)) = cmp n m" using assms Some atoi_range [OF Some] atoi_range [OF s] by (intro sign_diff(1)) simp_all
    then show ?thesis using Some s by (simp add: comparePre_def ident_key_def cmp_def)
  qed
qed

lemma cmp_Cons: "cmp (x # xs) (y # ys) = (if cmp x y \<noteq> 0 then cmp x y else cmp xs ys)"
  by (auto simp: cmp_def)

lemma compare_idents_cmp:
  assumes "list_all (\<lambda>s. case atoi s of Some n \<Rightarrow> 0 \<le> n | None \<Rightarrow> True) as" "list_all (\<lambda>s. case atoi s of Some n \<Rightarrow> 0 \<le> n | None \<Rightarrow> True) bs"
  shows "compare_idents as bs = cmp (map ident_key as) (map ident_key bs)"
  using assms
proof (induction as bs rule: compare_idents.induct)
  case (1 a as b bs)
  then have "comparePre a b = cmp (ident_key a) (ident_key b)" by (intro comparePre_cmp) simp_all
  then show ?case using 1 by (simp add: cmp_Cons Let_def)
qed (auto simp: cmp_def go_sign_def list_less_def list_le_def neq_Nil_conv split: list.splits)

lemma Compare_cmp: "plain v \<Longrightarrow> plain w \<Longrightarrow> Compare v w = cmp (version_key v) (version_key w)"
proof -
  assume p: "plain v" "plain w"
  note d = sign_diff [of "Major v" "Major w"] sign_diff [of "Minor v" "Minor w"] sign_diff [of "Patch v" "Patch w"]
  have "compare_idents (Pre v) (Pre w) = cmp (map ident_key (Pre v)) (map ident_key (Pre w))"
    using p by (intro compare_idents_cmp) (simp_all add: plain_def)
  then show ?thesis using p d by (auto simp: Compare_def version_key_def plain_def version_wf_def cmp_def)
qed

text \<open>
  C35. \<open>Compare\<close> is semantic versioning's precedence. On versions none of whose identifiers reads as a
  negative number it decides exactly the linear order of the keys: first the three numbers, then a
  prerelease before its release, then the identifiers from the left, numbers by value and before
  texts, texts by their bytes, and a shorter list before a longer one it begins. So it is transitive,
  total and antisymmetric, and subtraction never overflows in it.
\<close>

theorem Compare_is_the_reference_order:
  assumes "plain v" "plain w"
  shows "Compare v w = (if version_key v < version_key w then - 1 else if version_key v = version_key w then 0 else 1)"
  using Compare_cmp [OF assms] by (simp add: cmp_def)

definition version_demo :: "int \<Rightarrow> string list \<Rightarrow> Version" where
  "version_demo n p = \<lparr>Major = 1, Minor = 0, Patch = n, Pre = p\<rparr>"

theorem Compare_is_the_reference_order_witness:
  "Compare (version_demo 0 [''rc'', ''2'']) (version_demo 0 [''rc'', ''10'']) = - 1"
proof -
  have a: "atoi ''rc'' = None" "atoi ''2'' = Some 2" "atoi ''10'' = Some 10" by code_simp+
  have "plain (version_demo 0 [''rc'', ''2''])" "plain (version_demo 0 [''rc'', ''10''])"
    by (simp_all add: plain_def version_wf_def version_demo_def int64_max_def is_ident_def ident_char_def is_digit_def a)
  from Compare_is_the_reference_order [OF this] show ?thesis
    by (simp add: version_key_def version_demo_def ident_key_def a)
qed

section \<open>The newest version\<close>

definition offered :: "string list \<Rightarrow> Version \<Rightarrow> bool \<Rightarrow> Version \<Rightarrow> bool" where
  "offered tags running beta v \<longleftrightarrow> (\<exists>t \<in> set tags. Parse t = Some v) \<and> (beta \<or> Stable v) \<and> version_key running < version_key v"

lemma Newer_key: "plain v \<Longrightarrow> plain w \<Longrightarrow> Newer v w \<longleftrightarrow> version_key w < version_key v"
  by (auto simp: Newer_def Compare_cmp cmp_def)

lemma Pick_invariant:
  assumes "plain running" "\<forall>t \<in> set tags. \<forall>v. Parse t = Some v \<longrightarrow> plain v"
  shows "case Pick tags running beta of None \<Rightarrow> \<forall>v. \<not> offered tags running beta v
    | Some b \<Rightarrow> offered tags running beta b \<and> (\<forall>v. offered tags running beta v \<longrightarrow> version_key v \<le> version_key b)"
  using assms(2)
proof (induction tags rule: rev_induct)
  case Nil
  then show ?case by (simp add: Pick_def offered_def)
next
  case (snoc t tags)
  let ?b = "Pick tags running beta"
  have IH: "case ?b of None \<Rightarrow> \<forall>v. \<not> offered tags running beta v
    | Some b \<Rightarrow> offered tags running beta b \<and> (\<forall>v. offered tags running beta v \<longrightarrow> version_key v \<le> version_key b)" using snoc by auto
  have step: "Pick (tags @ [t]) running beta = pick_step running beta t ?b" by (simp add: Pick_def)
  have off: "offered (tags @ [t]) running beta v \<longleftrightarrow> offered tags running beta v \<or> Parse t = Some v \<and> (beta \<or> Stable v) \<and> version_key running < version_key v" for v
    by (auto simp: offered_def)
  show ?case
  proof (cases "Parse t")
    case None
    then show ?thesis using IH off by (auto simp: step pick_step_def split: option.splits)
  next
    case (Some v)
    then have pv: "plain v" using snoc.prems by simp
    have nr: "Newer v running \<longleftrightarrow> version_key running < version_key v" using pv assms(1) by (rule Newer_key)
    show ?thesis
    proof (cases ?b)
      case None
      then show ?thesis using IH off Some nr by (auto simp: step pick_step_def)
    next
      case (Some b)
      then obtain t' where "t' \<in> set tags" "Parse t' = Some b" using IH by (auto simp: offered_def)
      then have "Newer v b \<longleftrightarrow> version_key b < version_key v" using pv snoc.prems by (intro Newer_key) auto
      then show ?thesis using IH off Some \<open>Parse t = Some v\<close> nr by (auto simp: step pick_step_def split: if_splits)
    qed
  qed
qed

text \<open>
  An update offers the newest version there is. Among the tags that read as versions, are above
  the running one and are stable unless beta is on, \<open>Pick\<close> finds one exactly when there is one, and
  then one above which there is no other; whatever the order of the tags, and never a way back.
\<close>

theorem Pick_is_the_newest:
  assumes "plain running" "\<forall>t \<in> set tags. \<forall>v. Parse t = Some v \<longrightarrow> plain v"
  shows "(Pick tags running beta = None \<longleftrightarrow> (\<forall>v. \<not> offered tags running beta v))
    \<and> (\<forall>b. Pick tags running beta = Some b \<longrightarrow> offered tags running beta b \<and> (\<forall>v. offered tags running beta v \<longrightarrow> version_key v \<le> version_key b))"
  using Pick_invariant [OF assms, of beta] by (auto split: option.splits)

theorem Pick_is_the_newest_witness:
  "Pick [''dev''] (version_demo 0 []) True = None"
proof -
  have p: "Parse ''dev'' = None" by code_simp
  have "plain (version_demo 0 [])" by (simp add: plain_def version_wf_def version_demo_def int64_max_def)
  then have "Pick [''dev''] (version_demo 0 []) True = None \<longleftrightarrow> (\<forall>v. \<not> offered [''dev''] (version_demo 0 []) True v)"
    using Pick_is_the_newest [of "version_demo 0 []" "[''dev'']" True] p by simp
  then show ?thesis using p by (simp add: offered_def)
qed

text \<open>
  An identifier that reads as a negative number breaks the order: it counts as a number, the
  subtraction of two of them can overflow, and three versions then follow each other in a circle.
\<close>

theorem prerelease_order_can_be_a_circle:
  "Newer (version_demo 0 [''-9223372036854775807'']) (version_demo 0 [''2''])
   \<and> Newer (version_demo 0 [''2'']) (version_demo 0 [''0''])
   \<and> Newer (version_demo 0 [''0'']) (version_demo 0 [''-9223372036854775807''])
   \<and> Parse (version_String (version_demo 0 [''-9223372036854775807''])) = Some (version_demo 0 [''-9223372036854775807''])"
proof -
  have a: "atoi ''-9223372036854775807'' = Some (- 9223372036854775807)" "atoi ''2'' = Some 2" "atoi ''0'' = Some 0" by code_simp+
  have "version_wf (version_demo 0 [''-9223372036854775807''])"
    by (simp add: version_wf_def version_demo_def int64_max_def is_ident_def ident_char_def is_digit_def describe_match_def)
  then show ?thesis
    by (simp add: Parse_String) (simp add: Newer_def Compare_def version_demo_def comparePre_def a wrap64_def go_sign_def Let_def)
qed

end
