(* ===== verification/Login_Limiter.thy ===== *)
theory Login_Limiter
  imports Go_Maps
begin

text \<open>
  The limiter of failed logins, \<open>pkg/ratelimit/login_limiter.go\<close>. Times are nanoseconds; a zero
  \<open>lockedAt\<close> is \<open>None\<close>, and the time since it is longer than any window. Every operation on a key is
  under the key's own lock, so a run is a sequence of operations with the times they read.
\<close>

record attemptRecord =
  count :: int
  lockedAt :: "int option"

type_synonym limiter = "(string \<times> attemptRecord) list"

definition maxAttempts :: int where "maxAttempts = 5"
definition lockoutWindow :: int where "lockoutWindow = 5 * 60 * 1000000000"

definition newRecord :: attemptRecord where
  "newRecord = \<lparr>count = 0, lockedAt = None\<rparr>"

text \<open>\<open>lockoutWindow - time.Since(rec.lockedAt)\<close>.\<close>

definition remaining :: "int \<Rightarrow> attemptRecord \<Rightarrow> int" where
  "remaining now r = (case lockedAt r of None \<Rightarrow> 0 | Some t \<Rightarrow> lockoutWindow - (now - t))"

definition checkKey :: "string \<Rightarrow> int \<Rightarrow> limiter \<Rightarrow> int \<times> limiter" where
  "checkKey k now l =
     (case map_of l k of
        None \<Rightarrow> (0, l)
      | Some r \<Rightarrow>
          if count r < maxAttempts then (0, l)
          else if remaining now r \<le> 0 then (0, AList.update k newRecord l)
          else (remaining now r, l))"

definition recordKey :: "string \<Rightarrow> int \<Rightarrow> limiter \<Rightarrow> limiter" where
  "recordKey k now l =
     (let r = (case map_of l k of None \<Rightarrow> newRecord | Some r \<Rightarrow> r);
          r = (if count r \<ge> maxAttempts \<and> remaining now r \<le> 0 then newRecord else r);
          r = r\<lparr>count := count r + 1\<rparr>;
          r = (if count r \<ge> maxAttempts \<and> lockedAt r = None then r\<lparr>lockedAt := Some now\<rparr> else r)
      in AList.update k r l)"

definition ip_key :: "string \<Rightarrow> string" where "ip_key ip = ''ip:'' @ ip"
definition user_key :: "string \<Rightarrow> string" where "user_key u = ''user:'' @ u"

definition Check :: "string \<Rightarrow> string \<Rightarrow> int \<Rightarrow> limiter \<Rightarrow> (bool \<times> int) \<times> limiter" where
  "Check ip username now l =
     (let (ra, l) = checkKey (ip_key ip) now l in
      if ra > 0 then ((False, ra), l)
      else let (ra, l) = checkKey (user_key username) now l in
        if ra > 0 then ((False, ra), l) else ((True, 0), l))"

definition RecordFailure :: "string \<Rightarrow> string \<Rightarrow> int \<Rightarrow> limiter \<Rightarrow> limiter" where
  "RecordFailure ip username now l = recordKey (user_key username) now (recordKey (ip_key ip) now l)"

definition Reset :: "string \<Rightarrow> string \<Rightarrow> limiter \<Rightarrow> limiter" where
  "Reset ip username l = AList.delete (user_key username) (AList.delete (ip_key ip) l)"

definition cleanup :: "int \<Rightarrow> limiter \<Rightarrow> limiter" where
  "cleanup now l = filter (\<lambda>(k, r).
     let expired = count r \<ge> maxAttempts \<and> remaining now r \<le> 0;
         idle = count r < maxAttempts \<and> count r > 0
     in \<not> (expired \<or> idle)) l"

section \<open>Runs\<close>

datatype lop = LCheck string string | LFail string string | LReset string string | LClean

fun apply_op :: "lop \<times> int \<Rightarrow> limiter \<Rightarrow> limiter" where
  "apply_op (LCheck ip u, now) l = snd (Check ip u now l)"
| "apply_op (LFail ip u, now) l = RecordFailure ip u now l"
| "apply_op (LReset ip u, now) l = Reset ip u l"
| "apply_op (LClean, now) l = cleanup now l"

lemma op_cases:
  obtains ip u now where "op = (LCheck ip u, now)" | ip u now where "op = (LFail ip u, now)"
    | ip u now where "op = (LReset ip u, now)" | now where "op = (LClean, now)"
  by (metis lop.exhaust surj_pair)

fun names :: "string \<Rightarrow> string \<Rightarrow> string \<Rightarrow> bool" where
  "names k ip u \<longleftrightarrow> k = ip_key ip \<or> k = user_key u"

fun resets :: "string \<Rightarrow> lop \<Rightarrow> bool" where
  "resets k (LReset ip u) = names k ip u"
| "resets k op = False"

definition locked :: "string \<Rightarrow> int \<Rightarrow> limiter \<Rightarrow> bool" where
  "locked k t l \<longleftrightarrow> (\<exists>r. map_of l k = Some r \<and> count r \<ge> maxAttempts \<and> lockedAt r = Some t)"

lemma keys_differ [simp]: "ip_key a \<noteq> user_key b" "user_key b \<noteq> ip_key a"
  by (simp_all add: ip_key_def user_key_def)

lemma key_inj [simp]: "ip_key a = ip_key b \<longleftrightarrow> a = b" "user_key a = user_key b \<longleftrightarrow> a = b"
  by (simp_all add: ip_key_def user_key_def)

lemma locked_checkKey: "locked k t l \<Longrightarrow> now < t + lockoutWindow \<Longrightarrow> locked k t (snd (checkKey k' now l))"
  by (auto simp: locked_def checkKey_def remaining_def update_conv' split: option.splits)

lemma locked_recordKey: "locked k t l \<Longrightarrow> now < t + lockoutWindow \<Longrightarrow> locked k t (recordKey k' now l)"
  by (auto simp: locked_def recordKey_def remaining_def update_conv' Let_def split: option.splits)

lemma map_of_filter_val: "distinct (keys m) \<Longrightarrow> map_of m k = Some v \<Longrightarrow> P (k, v) \<Longrightarrow> map_of (filter P m) k = Some v"
  by (simp add: map_of_eq_Some_iff)

lemma distinct_checkKey: "distinct (keys l) \<Longrightarrow> distinct (keys (snd (checkKey k now l)))"
  by (simp add: checkKey_def split: option.split)

lemma Check_snd: "snd (Check ip u now l) = (if fst (checkKey (ip_key ip) now l) > 0 then snd (checkKey (ip_key ip) now l)
   else snd (checkKey (user_key u) now (snd (checkKey (ip_key ip) now l))))"
  by (simp add: Check_def split_beta Let_def)

lemma distinct_ops: "distinct (keys l) \<Longrightarrow> distinct (keys (apply_op op l))"
  by (cases op rule: op_cases)
    (simp_all add: Check_snd distinct_checkKey RecordFailure_def recordKey_def Reset_def cleanup_def Let_def distinct_delete)

lemma locked_cleanup: "distinct (keys l) \<Longrightarrow> locked k t l \<Longrightarrow> now < t + lockoutWindow \<Longrightarrow> locked k t (cleanup now l)"
  unfolding locked_def cleanup_def by (fastforce simp: remaining_def intro!: map_of_filter_val)

lemma locked_op:
  assumes "distinct (keys l)" "locked k t l" "snd op < t + lockoutWindow" "\<not> resets k (fst op)"
  shows "locked k t (apply_op op l)"
  using assms
proof (cases op rule: op_cases)
  case (3 ip u now)
  then show ?thesis using assms by (auto simp: Reset_def locked_def delete_conv')
qed (auto simp: Check_snd RecordFailure_def locked_checkKey locked_recordKey locked_cleanup)

lemma locked_run:
  assumes "distinct (keys l)" "locked k t l" "\<forall>op \<in> set ops. snd op < t + lockoutWindow \<and> \<not> resets k (fst op)"
  shows "locked k t (fold apply_op ops l) \<and> distinct (keys (fold apply_op ops l))"
  using assms by (induction ops arbitrary: l) (auto simp: locked_op distinct_ops)

lemma locked_Check:
  assumes "locked k t l" "names k ip u" "now < t + lockoutWindow"
  shows "\<exists>ra. fst (Check ip u now l) = (False, ra) \<and> 0 < ra \<and> (k = ip_key ip \<longrightarrow> ra = t + lockoutWindow - now)"
proof (cases "k = ip_key ip")
  case True
  then have "fst (checkKey k now l) = t + lockoutWindow - now" using assms by (auto simp: locked_def checkKey_def remaining_def)
  then show ?thesis using True assms(3) by (auto simp: Check_def split: prod.splits)
next
  case False
  then have k: "k = user_key u" using assms(2) by simp
  let ?l = "snd (checkKey (ip_key ip) now l)"
  have "locked k t ?l" using assms by (intro locked_checkKey)
  then have "fst (checkKey k now ?l) = t + lockoutWindow - now" using assms(3) by (auto simp: locked_def checkKey_def remaining_def)
  then show ?thesis using k assms(3) by (auto simp: Check_def split: prod.splits)
qed

section \<open>Counting up to a lock\<close>

fun fails :: "string \<Rightarrow> lop \<Rightarrow> bool" where
  "fails k (LFail ip u) = names k ip u"
| "fails k op = False"

definition failures :: "string \<Rightarrow> limiter \<Rightarrow> int" where
  "failures k l = (case map_of l k of None \<Rightarrow> 0 | Some r \<Rightarrow> count r)"

definition open_key :: "string \<Rightarrow> limiter \<Rightarrow> bool" where
  "open_key k l \<longleftrightarrow> (case map_of l k of None \<Rightarrow> True | Some r \<Rightarrow> 0 \<le> count r \<and> count r < maxAttempts \<and> lockedAt r = None)"

lemma open_checkKey: "open_key k l \<Longrightarrow> open_key k (snd (checkKey k' now l)) \<and> failures k (snd (checkKey k' now l)) = failures k l"
  by (cases "k' = k") (auto simp: open_key_def failures_def checkKey_def update_conv' split: option.splits)

lemma open_Check: "open_key k l \<Longrightarrow> open_key k (snd (Check ip u now l)) \<and> failures k (snd (Check ip u now l)) = failures k l"
  using open_checkKey by (simp add: Check_snd)

lemma open_recordKey_other: "k \<noteq> k' \<Longrightarrow> open_key k (recordKey k' now l) = open_key k l \<and> failures k (recordKey k' now l) = failures k l"
  by (simp add: open_key_def failures_def recordKey_def update_conv' Let_def)

lemma open_recordKey:
  assumes "open_key k l"
  shows "if failures k l + 1 < maxAttempts then open_key k (recordKey k now l) \<and> failures k (recordKey k now l) = failures k l + 1
    else locked k now (recordKey k now l)"
  using assms by (auto simp: open_key_def failures_def recordKey_def locked_def newRecord_def maxAttempts_def update_conv' Let_def split: option.splits)

lemma locked_other: "k \<noteq> k' \<Longrightarrow> locked k t (recordKey k' now l) = locked k t l"
  by (simp add: locked_def recordKey_def update_conv' Let_def)

lemma open_fail:
  assumes "open_key k l" "names k ip u"
  shows "if failures k l + 1 < maxAttempts then open_key k (RecordFailure ip u now l) \<and> failures k (RecordFailure ip u now l) = failures k l + 1
    else locked k now (RecordFailure ip u now l)"
proof (cases "k = ip_key ip")
  case True
  then show ?thesis using open_recordKey [OF assms(1), of now] open_recordKey_other [of k "user_key u"] locked_other [of k "user_key u"]
    by (auto simp: RecordFailure_def split: if_splits)
next
  case False
  then have "k = user_key u" "open_key k (recordKey (ip_key ip) now l)" "failures k (recordKey (ip_key ip) now l) = failures k l"
    using assms open_recordKey_other [OF False] by auto
  then show ?thesis using open_recordKey [of k "recordKey (ip_key ip) now l" now] by (auto simp: RecordFailure_def split: if_splits)
qed

lemma lock_reached:
  assumes "distinct (keys l)" "open_key k l" "\<forall>op \<in> set ops. fst op \<noteq> LClean \<and> \<not> resets k (fst op) \<and> t0 \<le> snd op \<and> snd op < t0 + lockoutWindow"
    "failures k l + int (length (filter (\<lambda>op. fails k (fst op)) ops)) \<ge> maxAttempts"
  shows "\<exists>t. t0 \<le> t \<and> t < t0 + lockoutWindow \<and> locked k t (fold apply_op ops l)"
  using assms
proof (induction ops arbitrary: l)
  case Nil
  then show ?case by (auto simp: open_key_def failures_def maxAttempts_def split: option.splits)
next
  case (Cons op ops)
  have rest: "\<forall>op \<in> set ops. fst op \<noteq> LClean \<and> \<not> resets k (fst op) \<and> t0 \<le> snd op \<and> snd op < t0 + lockoutWindow"
    and op: "fst op \<noteq> LClean" "\<not> resets k (fst op)" "t0 \<le> snd op" "snd op < t0 + lockoutWindow" using Cons.prems(3) by auto
  have d: "distinct (keys (apply_op op l))" using Cons.prems(1) by (rule distinct_ops)
  have same: ?case if "open_key k (apply_op op l)" "failures k (apply_op op l) + int (length (filter (\<lambda>op. fails k (fst op)) ops)) \<ge> maxAttempts"
    using Cons.IH [OF d that(1) rest that(2)] by simp
  show ?case
  proof (cases op rule: op_cases)
    case (1 ip u now)
    then have "open_key k (apply_op op l) \<and> failures k (apply_op op l) = failures k l" using open_Check [OF Cons.prems(2)] by simp
    then show ?thesis using same 1 Cons.prems(4) by simp
  next
    case (2 ip u now)
    show ?thesis
    proof (cases "names k ip u")
      case True
      show ?thesis
      proof (cases "failures k l + 1 < maxAttempts")
        case less: True
        then show ?thesis using same open_fail [OF Cons.prems(2) True, of now] 2 True Cons.prems(4) by simp
      next
        case False
        then have "locked k now (apply_op op l)" using open_fail [OF Cons.prems(2) True, of now] 2 by simp
        moreover have "\<forall>op \<in> set ops. snd op < now + lockoutWindow \<and> \<not> resets k (fst op)" using rest op 2 by fastforce
        ultimately show ?thesis using locked_run [OF d] op 2 by auto
      qed
    next
      case False
      then have "open_key k (apply_op op l) \<and> failures k (apply_op op l) = failures k l"
        using 2 Cons.prems(2) open_recordKey_other by (simp add: RecordFailure_def)
      then show ?thesis using same 2 False Cons.prems(4) by simp
    qed
  next
    case (3 ip u now)
    then have "open_key k (apply_op op l) \<and> failures k (apply_op op l) = failures k l"
      using op(2) Cons.prems(2) by (simp add: Reset_def open_key_def failures_def delete_conv')
    then show ?thesis using same 3 Cons.prems(4) by simp
  next
    case (4 now)
    then show ?thesis using op by simp
  qed
qed

text \<open>
  Five failures lock an address or a name out for five minutes. From a state in which it has some
  failures and no lock, once failures naming it bring the count to five, with checks and failures of
  anyone in between and no success or cleanup, it is locked at the time of the one that did; from
  then on, whatever happens except a successful login of it, every login with that address or name
  before the five minutes are over is refused, with the exact time left for an address.
\<close>

theorem five_failures_lock_out:
  assumes "distinct (keys l)" "open_key k l" "names k ip u"
    "\<forall>op \<in> set ops. fst op \<noteq> LClean \<and> \<not> resets k (fst op) \<and> t0 \<le> snd op \<and> snd op < t0 + lockoutWindow"
    "failures k l + int (length (filter (\<lambda>op. fails k (fst op)) ops)) \<ge> maxAttempts"
  shows "\<exists>t. t0 \<le> t \<and> (\<forall>later now. (\<forall>op \<in> set later. snd op < t + lockoutWindow \<and> \<not> resets k (fst op)) \<and> now < t + lockoutWindow \<longrightarrow>
      (\<exists>ra. fst (Check ip u now (fold apply_op later (fold apply_op ops l))) = (False, ra) \<and> 0 < ra \<and> (k = ip_key ip \<longrightarrow> ra = t + lockoutWindow - now)))"
proof -
  obtain t where t: "t0 \<le> t" "locked k t (fold apply_op ops l)" using lock_reached [OF assms(1,2,4,5)] by blast
  have d: "distinct (keys (fold apply_op ops l))" using assms(1) by (induction ops arbitrary: l) (auto simp: distinct_ops)
  then show ?thesis using t locked_run [OF d t(2)] locked_Check [OF _ assms(3)] by blast
qed

theorem five_failures_lock_out_witness:
  "\<exists>ra. fst (Check ''1.2.3.4'' ''bob'' 9 (fold apply_op (map (\<lambda>t. (LFail ''1.2.3.4'' ''eve'', t)) [1, 2, 3, 4, 5]) [])) = (False, ra) \<and> 0 < ra"
proof -
  let ?ops = "map (\<lambda>t. (LFail ''1.2.3.4'' ''eve'', t)) [1, 2, 3, 4, 5 :: int]"
  have "\<exists>t. 1 \<le> t \<and> (\<forall>later now. (\<forall>op \<in> set later. snd op < t + lockoutWindow \<and> \<not> resets (ip_key ''1.2.3.4'') (fst op)) \<and> now < t + lockoutWindow \<longrightarrow>
      (\<exists>ra. fst (Check ''1.2.3.4'' ''bob'' now (fold apply_op later (fold apply_op ?ops []))) = (False, ra) \<and> 0 < ra
        \<and> (ip_key ''1.2.3.4'' = ip_key ''1.2.3.4'' \<longrightarrow> ra = t + lockoutWindow - now)))"
    by (rule five_failures_lock_out) (simp_all add: open_key_def failures_def maxAttempts_def lockoutWindow_def)
  then obtain t where t: "1 \<le> t" "\<forall>later now. (\<forall>op \<in> set later. snd op < t + lockoutWindow \<and> \<not> resets (ip_key ''1.2.3.4'') (fst op)) \<and> now < t + lockoutWindow \<longrightarrow>
      (\<exists>ra. fst (Check ''1.2.3.4'' ''bob'' now (fold apply_op later (fold apply_op ?ops []))) = (False, ra) \<and> 0 < ra
        \<and> (ip_key ''1.2.3.4'' = ip_key ''1.2.3.4'' \<longrightarrow> ra = t + lockoutWindow - now))" by blast
  have "9 < t + lockoutWindow" using t(1) by (simp add: lockoutWindow_def)
  then show ?thesis using t(2) [rule_format, of "[]" 9] by auto
qed

text \<open>
  The cleanup forgets failures that are seconds old. Eight failures of one name within one second
  leave it open, when the cleanup runs after the fourth: it drops every record that is not at the
  limit yet, whatever its age.
\<close>

theorem cleanup_forgives_recent_failures:
  "(let l = fold apply_op (map (\<lambda>t. (LFail ''1.2.3.4'' ''bob'', t)) [1, 2, 3, 4] @ [(LClean, 5)] @ map (\<lambda>t. (LFail ''1.2.3.4'' ''bob'', t)) [6, 7, 8, 9]) []
    in fst (Check ''1.2.3.4'' ''bob'' 10 l)) = (True, 0)"
  by code_simp

end
