(* ===== verification/Stats_Gate.thy ===== *)
theory Stats_Gate
  imports Prelude "HOL-Library.Multiset"
begin

text \<open>
  The gate of the statistics sweep, \<open>acquireStatsSync\<close> of \<open>internal/node/usecase/traffic_batch.go\<close>:
  one reader per node, from the collection to the acknowledgement. A gate is an object with a channel
  of one token and a count of its users; a map holds the gates in use and a gate nobody uses is taken
  out. The callers are anonymous: the state holds the multiset of their requests. The steps are the
  locked sections and the channel operations, in any order; a context that ends while a request waits
  is the step \<open>give_up\<close>, one that ends right after the token was taken is \<open>take\<close> and \<open>put_back\<close>. The
  theorem shows that two callers never hold one node and that no gate is left behind.
\<close>

record nodeStatsSyncGate =
  gToken :: bool
  gUsers :: nat

datatype phase = Waiting | Holding | Leaving

type_synonym request = "phase \<times> nat \<times> nat"

record sync_state =
  ssMap :: "nat \<Rightarrow> nat option"
  ssGates :: "nat \<Rightarrow> nodeStatsSyncGate"
  ssNext :: nat
  ssReqs :: "request multiset"

text \<open>The gate is the second, the node the third part of a request.\<close>

definition enter :: "nat \<Rightarrow> sync_state \<Rightarrow> sync_state" where
  "enter node s = (case ssMap s node of
     None \<Rightarrow> s\<lparr>ssMap := (ssMap s)(node \<mapsto> ssNext s),
       ssGates := (ssGates s)(ssNext s := \<lparr>gToken = False, gUsers = 1\<rparr>), ssNext := ssNext s + 1,
       ssReqs := add_mset (Waiting, ssNext s, node) (ssReqs s)\<rparr>
   | Some g \<Rightarrow> s\<lparr>ssGates := (ssGates s)(g := (ssGates s g)\<lparr>gUsers := gUsers (ssGates s g) + 1\<rparr>),
       ssReqs := add_mset (Waiting, g, node) (ssReqs s)\<rparr>)"

definition releaseRef :: "phase \<Rightarrow> nat \<Rightarrow> nat \<Rightarrow> sync_state \<Rightarrow> sync_state" where
  "releaseRef ph g node s =
     (let gate = (ssGates s g)\<lparr>gUsers := gUsers (ssGates s g) - 1\<rparr>
      in s\<lparr>ssGates := (ssGates s)(g := gate),
           ssMap := (if gUsers gate = 0 then (ssMap s)(node := None) else ssMap s),
           ssReqs := ssReqs s - {#(ph, g, node)#}\<rparr>)"

definition set_token :: "bool \<Rightarrow> phase \<Rightarrow> phase \<Rightarrow> nat \<Rightarrow> nat \<Rightarrow> sync_state \<Rightarrow> sync_state" where
  "set_token t ph ph' g node s =
     s\<lparr>ssGates := (ssGates s)(g := (ssGates s g)\<lparr>gToken := t\<rparr>),
       ssReqs := add_mset (ph', g, node) (ssReqs s - {#(ph, g, node)#})\<rparr>"

inductive sync_run :: "sync_state \<Rightarrow> bool" where
  start: "ssMap s = (\<lambda>n. None) \<Longrightarrow> ssReqs s = {#} \<Longrightarrow> (\<And>g. \<not> gToken (ssGates s g)) \<Longrightarrow> sync_run s"
| enter: "sync_run s \<Longrightarrow> sync_run (enter node s)"
| take: "sync_run s \<Longrightarrow> (Waiting, g, node) \<in># ssReqs s \<Longrightarrow> \<not> gToken (ssGates s g)
    \<Longrightarrow> sync_run (set_token True Waiting Holding g node s)"
| give_up: "sync_run s \<Longrightarrow> (Waiting, g, node) \<in># ssReqs s \<Longrightarrow> sync_run (releaseRef Waiting g node s)"
| put_back: "sync_run s \<Longrightarrow> (Holding, g, node) \<in># ssReqs s \<Longrightarrow> sync_run (set_token False Holding Leaving g node s)"
| leave: "sync_run s \<Longrightarrow> (Leaving, g, node) \<in># ssReqs s \<Longrightarrow> sync_run (releaseRef Leaving g node s)"

section \<open>One reader per node\<close>

definition users_of :: "nat \<Rightarrow> sync_state \<Rightarrow> nat" where
  "users_of g s = size {#r \<in># ssReqs s. fst (snd r) = g#}"

definition holders_of :: "nat \<Rightarrow> sync_state \<Rightarrow> nat" where
  "holders_of g s = size {#r \<in># ssReqs s. fst r = Holding \<and> fst (snd r) = g#}"

definition gates_ok :: "sync_state \<Rightarrow> bool" where
  "gates_ok s \<longleftrightarrow> (\<forall>ph g node. (ph, g, node) \<in># ssReqs s \<longrightarrow> ssMap s node = Some g)
     \<and> (\<forall>node g. ssMap s node = Some g \<longrightarrow> g < ssNext s \<and> gUsers (ssGates s g) = users_of g s \<and> 0 < users_of g s)
     \<and> (\<forall>m n g. ssMap s m = Some g \<longrightarrow> ssMap s n = Some g \<longrightarrow> m = n)
     \<and> (\<forall>g. holders_of g s = (if gToken (ssGates s g) then 1 else 0))"

lemma users_of_remove:
  assumes "(ph, g, node) \<in># ssReqs s"
  shows "size {#r \<in># ssReqs s - {#(ph, g, node)#}. fst (snd r) = g'#} = users_of g' s - (if g' = g then 1 else 0)"
    "size {#r \<in># ssReqs s - {#(ph, g, node)#}. fst r = Holding \<and> fst (snd r) = g'#}
      = holders_of g' s - (if g' = g \<and> ph = Holding then 1 else 0)"
  using assms by (auto simp: users_of_def holders_of_def filter_diff_mset size_Diff_singleton)

lemma request_counted: "(ph, g, node) \<in># ssReqs s \<Longrightarrow> 0 < users_of g s"
  unfolding users_of_def by (metis (mono_tags, lifting) fst_conv gr0I mem_Collect_eq set_mset_filter size_eq_0_iff_empty snd_conv empty_iff set_mset_empty)

lemma holder_counted: "(Holding, g, node) \<in># ssReqs s \<Longrightarrow> 0 < holders_of g s"
  unfolding holders_of_def by (metis (mono_tags, lifting) fst_conv gr0I mem_Collect_eq set_mset_filter size_eq_0_iff_empty snd_conv empty_iff set_mset_empty)


lemma enter_counts:
  "ssMap s node = Some g \<or> (ssMap s node = None \<and> g = ssNext s) \<Longrightarrow> users_of h (enter node s) = users_of h s + (if h = g then 1 else 0)"
  "holders_of h (enter node s) = holders_of h s"
  by (auto simp: enter_def users_of_def holders_of_def split: option.splits)

lemma unused_gate:
  assumes "gates_ok s" "\<And>node. ssMap s node \<noteq> Some g"
  shows "users_of g s = 0 \<and> holders_of g s = 0"
proof -
  have "fst (snd r) \<noteq> g" if "r \<in># ssReqs s" for r
    using assms that unfolding gates_ok_def by (metis prod.collapse)
  then show ?thesis by (simp add: users_of_def holders_of_def)
qed

lemma enter_ok:
  assumes ok: "gates_ok s"
  shows "gates_ok (enter node s)"
proof (cases "ssMap s node")
  case (Some g)
  then have "users_of h (enter node s) = users_of h s + (if h = g then 1 else 0)" for h by (simp add: enter_counts(1))
  then show ?thesis using ok Some unfolding gates_ok_def enter_counts(2) by (auto simp: enter_def)
next
  case None
  have fresh: "ssMap s m \<noteq> Some (ssNext s)" for m using ok unfolding gates_ok_def by (metis less_irrefl)
  note z = unused_gate [OF ok fresh]
  have "users_of h (enter node s) = users_of h s + (if h = ssNext s then 1 else 0)" for h using None by (simp add: enter_counts(1))
  then show ?thesis using ok None fresh z unfolding gates_ok_def enter_counts(2)
    by (auto simp: enter_def less_Suc_eq)
qed

lemma set_token_ok:
  assumes ok: "gates_ok s" and r: "(ph, g, node) \<in># ssReqs s"
    and t: "t \<and> ph = Waiting \<and> ph' = Holding \<and> \<not> gToken (ssGates s g) \<or> \<not> t \<and> ph = Holding \<and> ph' = Leaving"
  shows "gates_ok (set_token t ph ph' g node s)"
proof -
  have u: "users_of h (set_token t ph ph' g node s) = users_of h s" for h
    using users_of_remove(1) [OF r, of h] request_counted [OF r] by (auto simp: users_of_def set_token_def)
  have "holders_of h (set_token t ph ph' g node s) = (if h = g then (if t then 1 else 0) else holders_of h s)" for h
    using users_of_remove(2) [OF r, of h] holder_counted t ok r
    by (auto simp: holders_of_def set_token_def gates_ok_def split: if_splits)
  then show ?thesis
    using ok r unfolding gates_ok_def u by (auto simp: set_token_def dest: in_diffD)
qed

lemma releaseRef_ok:
  assumes ok: "gates_ok s" and r: "(ph, g, node) \<in># ssReqs s" and ph: "ph \<noteq> Holding"
  shows "gates_ok (releaseRef ph g node s)"
proof -
  have m: "ssMap s node = Some g" using ok r by (auto simp: gates_ok_def)
  have uq: "n = node" if "ssMap s n = Some g" for n using ok m that unfolding gates_ok_def by blast
  have g: "gUsers (ssGates s g) = users_of g s" using ok m by (auto simp: gates_ok_def)
  have u: "users_of h (releaseRef ph g node s) = users_of h s - (if h = g then 1 else 0)" for h
    using users_of_remove(1) [OF r, of h] by (simp add: users_of_def releaseRef_def Let_def)
  have h: "holders_of h (releaseRef ph g node s) = holders_of h s" for h
    using users_of_remove(2) [OF r, of h] ph by (simp add: holders_of_def releaseRef_def Let_def)
  have stay: "ssMap (releaseRef ph g node s) n = Some k"
    if q: "(ph', k, n) \<in># ssReqs (releaseRef ph g node s)" for ph' k n
  proof -
    have "0 < users_of k (releaseRef ph g node s)" using request_counted [OF q] .
    moreover have "ssMap s n = Some k" using q ok by (auto simp: releaseRef_def Let_def gates_ok_def dest: in_diffD)
    ultimately show ?thesis using m u [of g] g by (auto simp: releaseRef_def Let_def)
  qed
  have "k < ssNext s \<and> gUsers (ssGates (releaseRef ph g node s) k) = users_of k (releaseRef ph g node s)
      \<and> 0 < users_of k (releaseRef ph g node s)" if "ssMap (releaseRef ph g node s) n = Some k" for n k
    using that ok u g uq by (auto simp: releaseRef_def Let_def gates_ok_def split: if_splits)
  then show ?thesis
    using ok stay h unfolding gates_ok_def by (auto simp: releaseRef_def Let_def split: if_splits)
qed

lemma sync_run_ok: "sync_run s \<Longrightarrow> gates_ok s"
proof (induction rule: sync_run.induct)
  case (start s)
  then show ?case by (auto simp: gates_ok_def users_of_def holders_of_def)
qed (auto intro: enter_ok set_token_ok releaseRef_ok)


lemma same_node_same_gate:
  assumes "gates_ok s" "ssMap s node = Some g" "r \<in># ssReqs s"
  shows "snd (snd r) = node \<longleftrightarrow> fst (snd r) = g"
  using assms unfolding gates_ok_def by (metis option.inject prod.collapse)

lemma holders_of_node:
  assumes ok: "gates_ok s"
  shows "size {#r \<in># ssReqs s. fst r = Holding \<and> snd (snd r) = node#}
    = (case ssMap s node of None \<Rightarrow> 0 | Some g \<Rightarrow> if gToken (ssGates s g) then 1 else 0)"
proof (cases "ssMap s node")
  case None
  have "snd (snd r) \<noteq> node" if "r \<in># ssReqs s" for r
    using ok None that unfolding gates_ok_def by (metis option.distinct(1) prod.collapse)
  then show ?thesis using None by simp
next
  case (Some g)
  have "{#r \<in># ssReqs s. fst r = Holding \<and> snd (snd r) = node#} = {#r \<in># ssReqs s. fst r = Holding \<and> fst (snd r) = g#}"
    by (rule filter_mset_cong) (simp_all add: same_node_same_gate [OF ok Some])
  moreover have "holders_of g s = (if gToken (ssGates s g) then 1 else 0)" using ok by (simp add: gates_ok_def)
  ultimately show ?thesis using Some by (simp add: holders_of_def)
qed

lemma gate_is_used:
  assumes ok: "gates_ok s" and g: "ssMap s node = Some g"
  shows "\<exists>r \<in># ssReqs s. snd (snd r) = node"
proof -
  have "0 < users_of g s" using ok g by (auto simp: gates_ok_def)
  then obtain r where r: "r \<in># ssReqs s" "fst (snd r) = g"
    unfolding users_of_def by (metis (mono_tags, lifting) filter_mset_eq_mempty_iff less_irrefl size_empty)
  then show ?thesis using same_node_same_gate [OF ok g] by blast
qed

lemma gate_iff_used:
  assumes ok: "gates_ok s"
  shows "ssMap s node \<noteq> None \<longleftrightarrow> (\<exists>r \<in># ssReqs s. snd (snd r) = node)"
proof
  show "\<exists>r \<in># ssReqs s. snd (snd r) = node" if "ssMap s node \<noteq> None" using that gate_is_used [OF ok] by blast
next
  assume "\<exists>r \<in># ssReqs s. snd (snd r) = node"
  then obtain ph g where "(ph, g, node) \<in># ssReqs s" by (metis prod.collapse)
  then have "ssMap s node = Some g" using ok unfolding gates_ok_def by blast
  then show "ssMap s node \<noteq> None" by simp
qed

text \<open>
  C18. In every order of the callers' steps, with contexts that end at any moment, at most one caller
  holds the statistics of a node; the map has a gate of a node exactly while a caller of that node is
  inside, so no gate is left behind; and a caller that waits on a node nobody holds finds the token
  free in its own gate, even when that gate was made, dropped and made again in between.
\<close>

theorem one_stats_reader_per_node:
  assumes run: "sync_run s"
  shows "size {#r \<in># ssReqs s. fst r = Holding \<and> snd (snd r) = node#} \<le> 1
    \<and> (ssMap s node \<noteq> None \<longleftrightarrow> (\<exists>r \<in># ssReqs s. snd (snd r) = node))
    \<and> ((Waiting, g, node) \<in># ssReqs s \<longrightarrow> {#r \<in># ssReqs s. fst r = Holding \<and> snd (snd r) = node#} = {#}
        \<longrightarrow> sync_run (set_token True Waiting Holding g node s))"
proof (intro conjI impI)
  note ok = sync_run_ok [OF run]
  show "size {#r \<in># ssReqs s. fst r = Holding \<and> snd (snd r) = node#} \<le> 1"
    by (simp add: holders_of_node [OF ok] split: option.splits)
  show "ssMap s node \<noteq> None \<longleftrightarrow> (\<exists>r \<in># ssReqs s. snd (snd r) = node)" by (rule gate_iff_used [OF ok])
  assume w: "(Waiting, g, node) \<in># ssReqs s" and "{#r \<in># ssReqs s. fst r = Holding \<and> snd (snd r) = node#} = {#}"
  then have "size {#r \<in># ssReqs s. fst r = Holding \<and> snd (snd r) = node#} = 0" by simp
  moreover have "ssMap s node = Some g" using ok w by (auto simp: gates_ok_def)
  ultimately have "\<not> gToken (ssGates s g)" by (simp add: holders_of_node [OF ok] split: if_splits)
  then show "sync_run (set_token True Waiting Holding g node s)" using run w by (rule sync_run.take [rotated 2])
qed

definition ss_empty :: sync_state where
  "ss_empty = \<lparr>ssMap = (\<lambda>n. None), ssGates = (\<lambda>g. \<lparr>gToken = False, gUsers = 0\<rparr>), ssNext = 0, ssReqs = {#}\<rparr>"

lemma ss_empty_run: "sync_run ss_empty"
  by (rule sync_run.start) (simp_all add: ss_empty_def)

lemma one_stats_reader_per_node_witness:
  "sync_run (set_token True Waiting Holding 0 7 (enter 7 (enter 7 ss_empty)))
    \<and> ssMap (enter 7 (enter 7 ss_empty)) 7 = Some 0"
proof -
  have "sync_run (enter 7 (enter 7 ss_empty))" by (intro sync_run.enter ss_empty_run)
  from one_stats_reader_per_node [OF this, of 7 0]
  show ?thesis by (simp add: enter_def ss_empty_def)
qed

end
