(* ===== verification/Ipam.thy ===== *)
theory Ipam
  imports Netip
begin

text \<open>
  The address allocator of the WireGuard inbounds, \<open>internal/wireguard/usecase/ipam.go\<close>. The loop
  runs over \<open>netip.Addr\<close> values with \<open>Addr.Next\<close>; it is a \<open>partial_function\<close>, so that a search
  that never ends would be the value \<^term>\<open>None\<close>. The lemmas show that it ends on every pool, the
  whole address space included, with the lowest free host or with \<open>exhausted\<close>.
\<close>

section \<open>The search\<close>

datatype ipam_error = InvalidPool | OnlyIPv4 | PoolExhausted

text \<open>\<open>Addr.Next\<close>: the zero \<open>Addr\<close>, which no prefix contains, follows the last address.\<close>

definition next_addr :: "32 word \<Rightarrow> 32 word option" where
  "next_addr w = (if w = - 1 then None else Some (w + 1))"

definition contains_opt :: "netprefix \<Rightarrow> 32 word option \<Rightarrow> bool" where
  "contains_opt p a = (case a of None \<Rightarrow> False | Some w \<Rightarrow> prefix_contains p (V4 w))"

definition skip_host :: "netprefix \<Rightarrow> 32 word \<Rightarrow> bool" where
  "skip_host p w \<longleftrightarrow> pfx_bits p < 31 \<and> (V4 w = pfx_addr p \<or> \<not> contains_opt p (next_addr w))"

lemma case_option_mono [partial_function_mono]:
  assumes "monotone R option_ord (\<lambda>f. A f)" "\<And>w. monotone R option_ord (\<lambda>f. B w f)"
  shows "monotone R option_ord (\<lambda>f. case ip of None \<Rightarrow> A f | Some w \<Rightarrow> B w f)"
  using assms by (cases ip) simp_all

partial_function (option) free_from ::
    "netprefix \<Rightarrow> string \<Rightarrow> (string \<Rightarrow> bool) \<Rightarrow> 32 word option \<Rightarrow> string option option" where
  "free_from p serverIP used ip =
     (case ip of
        None \<Rightarrow> Some None
      | Some w \<Rightarrow>
          if \<not> prefix_contains p (V4 w) then Some None
          else if skip_host p w then free_from p serverIP used (next_addr w)
          else if show_ipv4 w = serverIP \<or> used (show_ipv4 w) then free_from p serverIP used (next_addr w)
          else Some (Some (show_ipv4 w)))"

declare free_from.simps [code]

definition nextFreeIP :: "string \<Rightarrow> string \<Rightarrow> (string \<Rightarrow> bool) \<Rightarrow> (ipam_error + string) option" where
  "nextFreeIP poolCIDR serverIP used =
     (case parse_prefix poolCIDR of
        None \<Rightarrow> Some (Inl InvalidPool)
      | Some p \<Rightarrow>
          (case pfx_addr (masked p) of
             V6 _ _ \<Rightarrow> Some (Inl OnlyIPv4)
           | V4 network \<Rightarrow>
               (case free_from (masked p) serverIP used (Some network) of
                  None \<Rightarrow> None
                | Some None \<Rightarrow> Some (Inl PoolExhausted)
                | Some (Some s) \<Rightarrow> Some (Inr s))))"

section \<open>What a pool offers\<close>

text \<open>
  A host of a pool is an address of it, other than its first and its last where the pool has
  room for a network and a broadcast address.
\<close>

definition pool_host :: "netprefix \<Rightarrow> 32 word \<Rightarrow> bool" where
  "pool_host p w \<longleftrightarrow> prefix_contains p (V4 w) \<and>
     (pfx_bits p < 31 \<longrightarrow> (\<exists>a < w. prefix_contains p (V4 a)) \<and> (\<exists>a > w. prefix_contains p (V4 a)))"

definition free_hosts :: "netprefix \<Rightarrow> string \<Rightarrow> (string \<Rightarrow> bool) \<Rightarrow> 32 word set" where
  "free_hosts p serverIP used = {w. pool_host p w \<and> show_ipv4 w \<noteq> serverIP \<and> \<not> used (show_ipv4 w)}"

lemma show_ipv4_inj: "show_ipv4 v = show_ipv4 w \<longleftrightarrow> v = w"
  by (metis parse_ipv4_show option.inject)

lemma drop_bit_eq_nat:
  "drop_bit k (v :: 'a::len word) = drop_bit k w \<longleftrightarrow> unat v div 2 ^ k = unat w div 2 ^ k"
  by (simp add: word_unat_eq_iff unat_drop_bit_eq flip: drop_bit_eq_div)

lemma drop_masked: "drop_bit k (n AND NOT (mask k)) = drop_bit k (n :: 'a::len word)"
  by (rule bit_eqI) (auto simp: bit_simps dest: bit_imp_le_length)

lemma masked_push: "n AND NOT (mask k) = push_bit k (drop_bit k (n :: 'a::len word))"
  by (rule bit_eqI) (auto simp: bit_simps)

lemma contains_masked [simp]: "prefix_contains (masked p) a = prefix_contains p a"
  by (cases p; cases "pfx_addr p"; cases a) (simp_all add: masked_def mask_addr_def drop_masked del: drop_bit_and)

lemma bits_masked [simp]: "pfx_bits (masked p) = pfx_bits p"
  by (simp add: masked_def)

lemma pool_host_masked [simp]: "pool_host (masked p) w = pool_host p w"
  by (simp add: pool_host_def)

lemma pool_convex:
  assumes "prefix_contains p (V4 a)" "prefix_contains p (V4 c)" "a \<le> x" "x \<le> c"
  shows "prefix_contains p (V4 x)"
proof (cases p)
  case (Pfx n b)
  then obtain m where n: "n = V4 m" using assms(1) by (cases n) auto
  let ?k = "32 - b"
  have "unat a div 2 ^ ?k \<le> unat x div 2 ^ ?k" "unat x div 2 ^ ?k \<le> unat c div 2 ^ ?k"
    using assms(3,4) by (simp_all add: word_le_nat_alt div_le_mono)
  then show ?thesis using assms(1,2) by (simp add: Pfx n drop_bit_eq_nat)
qed

lemma network_first:
  assumes "pfx_addr (masked p) = V4 network"
  shows "prefix_contains p (V4 network)" "\<And>x. prefix_contains p (V4 x) \<Longrightarrow> network \<le> x"
proof -
  obtain n b where p: "p = Pfx (V4 n) b" and net: "network = n AND NOT (mask (32 - b))"
    using assms by (cases p; cases "pfx_addr p") (auto simp: masked_def mask_addr_def)
  then show "prefix_contains p (V4 network)" by (simp add: drop_masked del: drop_bit_and)
  fix x assume "prefix_contains p (V4 x)"
  then have "x AND NOT (mask (32 - b)) = network"
    unfolding net by (simp add: p masked_push)
  then show "network \<le> x" using word_and_le2 by metis
qed

lemma unat_lt2p_32: "unat (w :: 32 word) < 2 ^ 32"
  using unsigned_less [of w] by simp

lemma unat_next: "w \<noteq> - 1 \<Longrightarrow> unat (w + 1 :: 32 word) = Suc (unat w)"
  using unatSuc [of w] by (metis add.commute add_eq_0_iff2 minus_minus neg_equal_iff_equal)

lemma next_addr_Some: "next_addr w = Some v \<Longrightarrow> w < v \<and> (\<forall>x. w < x \<longrightarrow> v \<le> x) \<and> unat v = Suc (unat w)"
  by (auto simp: next_addr_def word_less_nat_alt word_le_nat_alt unat_next split: if_splits)

lemma next_addr_None: "next_addr w = None \<Longrightarrow> \<not> w < x"
  by (auto simp: next_addr_def word_less_nat_alt not_less word_le_nat_alt [symmetric] split: if_splits)

text \<open>The test of the loop singles out the hosts.\<close>

lemma skip_host_iff:
  assumes "pfx_addr (masked p) = V4 network" "prefix_contains p (V4 w)"
  shows "pool_host p w \<longleftrightarrow> \<not> skip_host (masked p) w"
proof -
  note first = network_first [OF assms(1)]
  have low: "(\<exists>a < w. prefix_contains p (V4 a)) \<longleftrightarrow> w \<noteq> network"
    using first assms(2) by (metis leD le_neq_trans)
  have high: "(\<exists>a > w. prefix_contains p (V4 a)) \<longleftrightarrow> contains_opt (masked p) (next_addr w)"
  proof (cases "next_addr w")
    case None
    then show ?thesis using next_addr_None by (auto simp: contains_opt_def)
  next
    case (Some v)
    from next_addr_Some [OF Some] show ?thesis
      using pool_convex [OF assms(2), of _ v] by (auto simp: contains_opt_def Some)
  qed
  show ?thesis by (auto simp: pool_host_def skip_host_def low high assms)
qed

text \<open>
  From any address at or above the network address the search ends with the lowest free host
  from there on, if there is one. The induction is on the distance to the end of the space.
\<close>

lemma free_from_spec:
  assumes "pfx_addr (masked p) = V4 network" "network \<le> w"
  shows "free_from (masked p) serverIP used (Some w) =
    (let F = free_hosts p serverIP used \<inter> {w..} in
     Some (if F = {} then None else Some (show_ipv4 (Min F))))"
  using assms(2)
proof (induction "2 ^ 32 - unat w" arbitrary: w rule: less_induct)
  case less
  let ?F = "\<lambda>w. free_hosts p serverIP used \<inter> {w..}"
  let ?R = "\<lambda>F. Some (if F = {} then None else Some (show_ipv4 (Min F)))"
  show ?case
  proof (cases "prefix_contains p (V4 w)")
    case False
    then have "?F w = {}"
      using pool_convex [OF network_first(1) [OF assms(1)], of _ w] less.prems
      by (auto simp: free_hosts_def pool_host_def)
    then show ?thesis using False by (simp add: free_from.simps)
  next
    case True
    have skip: "free_from (masked p) serverIP used (next_addr w) = ?R (?F w)" if "w \<notin> ?F w"
    proof (cases "next_addr w")
      case None
      then have "?F w = {}" using that next_addr_None [OF None] by (auto simp: order.order_iff_strict)
      then show ?thesis by (simp add: None free_from.simps)
    next
      case (Some v)
      note v = next_addr_Some [OF Some]
      have "?F w = ?F v" using that v by (auto simp: order.order_iff_strict)
      moreover have "free_from (masked p) serverIP used (Some v) = ?R (?F v)"
      proof -
        have "2 ^ 32 - unat v < (2 ^ 32 - unat w :: nat)" "network \<le> v"
          using v unat_lt2p_32 [of v] less.prems by auto
        from less.hyps [OF this] show ?thesis by (simp only: Let_def)
      qed
      ultimately show ?thesis by (simp add: Some)
    qed
    have here: "w \<in> ?F w \<longleftrightarrow> \<not> skip_host (masked p) w \<and> show_ipv4 w \<noteq> serverIP \<and> \<not> used (show_ipv4 w)"
      using skip_host_iff [OF assms(1) True] by (simp add: free_hosts_def)
    show ?thesis
    proof (cases "w \<in> ?F w")
      case found: True
      then have "Min (?F w) = w" by (intro Min_eqI) auto
      then show ?thesis using found here True by (subst free_from.simps) (auto simp: Let_def)
    next
      case False
      then show ?thesis using here skip True by (subst free_from.simps) (auto simp: Let_def)
    qed
  qed
qed

section \<open>The allocator\<close>

lemma free_hosts_from_network:
  "pfx_addr (masked p) = V4 network \<Longrightarrow> free_hosts p serverIP used \<inter> {network..} = free_hosts p serverIP used"
  using network_first(2) by (auto simp: free_hosts_def pool_host_def)

lemma nextFreeIP_result:
  "nextFreeIP poolCIDR serverIP used = Some
    (case parse_prefix poolCIDR of
       None \<Rightarrow> Inl InvalidPool
     | Some p \<Rightarrow>
         if \<not> is4 (pfx_addr p) then Inl OnlyIPv4
         else if free_hosts p serverIP used = {} then Inl PoolExhausted
         else Inr (show_ipv4 (Min (free_hosts p serverIP used))))"
proof (cases "parse_prefix poolCIDR")
  case None
  then show ?thesis by (simp add: nextFreeIP_def)
next
  case (Some p)
  show ?thesis
  proof (cases "pfx_addr (masked p)")
    case (V4 network)
    then have "is4 (pfx_addr p)"
      by (cases "pfx_addr p") (auto simp: is4_def masked_def mask_addr_def)
    then show ?thesis
      using free_from_spec [OF V4 order_refl] free_hosts_from_network [OF V4]
      by (simp add: nextFreeIP_def Some V4 Let_def)
  next
    case (V6 n z)
    then have "\<not> is4 (pfx_addr p)"
      by (cases "pfx_addr p") (auto simp: is4_def masked_def mask_addr_def)
    then show ?thesis by (simp add: nextFreeIP_def Some V6)
  qed
qed

text \<open>
  C34. \<open>nextFreeIP\<close> always returns, on every pool and every set of used addresses: an error for a
  pool that does not parse or is not IPv4, the lowest free host of the pool when there is one, and
  \<open>exhausted\<close> exactly when every host is the server's or in use. A host is an address of the pool
  that is neither its first nor its last, unless the pool is a /31 or a /32. This holds for
  \<open>0.0.0.0/0\<close> too, where the search runs off the end of the address space.
\<close>

theorem nextFreeIP_terminates:
  "nextFreeIP poolCIDR serverIP used = Some
    (case parse_prefix poolCIDR of
       None \<Rightarrow> Inl InvalidPool
     | Some p \<Rightarrow>
         if \<not> is4 (pfx_addr p) then Inl OnlyIPv4
         else if free_hosts p serverIP used = {} then Inl PoolExhausted
         else Inr (show_ipv4 (Min (free_hosts p serverIP used))))"
  by (rule nextFreeIP_result)

text \<open>What an allocated address is, for the clients of the allocator.\<close>

lemma nextFreeIP_Inr:
  assumes "nextFreeIP poolCIDR serverIP used = Some (Inr s)"
  obtains p w where "parse_prefix poolCIDR = Some p" "s = show_ipv4 w" "pool_host p w"
    "s \<noteq> serverIP" "\<not> used s"
proof -
  obtain p network where p: "parse_prefix poolCIDR = Some p" "pfx_addr (masked p) = V4 network"
      "free_from (masked p) serverIP used (Some network) = Some (Some s)"
    using assms by (auto simp: nextFreeIP_def split: option.splits addr.splits)
  let ?F = "free_hosts p serverIP used"
  have "?F \<noteq> {}" "s = show_ipv4 (Min ?F)"
    using p(3) free_from_spec [OF p(2) order_refl] free_hosts_from_network [OF p(2)]
    by (auto simp: Let_def split: if_splits)
  moreover have "Min ?F \<in> ?F" using \<open>?F \<noteq> {}\<close> by simp
  ultimately show ?thesis using that p(1) by (auto simp: free_hosts_def)
qed

end
