(* ===== verification/Usage_Batches.thy ===== *)
theory Usage_Batches
  imports Prelude Go_Maps
begin

text \<open>
  The batched counter updates of the panel: \<open>wgPeerRepository.AddUsageBatch\<close>
  (\<open>internal/wireguard/repository/traffic_batch.go\<close>), \<open>AddUsageDeltas\<close> and \<open>AddDailyUsageSplits\<close>
  (\<open>internal/subscription/repository/traffic_batch.go\<close>). The three share one scheme: merge the
  deltas of a key in a map, sort the keys, cut them into chunks of fifty and send one statement per
  chunk. The locale states what a statement has to do to the table; its lemma shows once that the
  scheme then has the effect of the single deltas one after the other. Tables are lists of rows;
  the columns are integers of the database, the sums of the deltas are Go's \<open>int64\<close>. Times count
  from Go's zero time. The columns gorm keeps on its own (\<open>created_at\<close>, \<open>updated_at\<close>) are left out.
\<close>

section \<open>The scheme\<close>

function chunks :: "nat \<Rightarrow> 'a list \<Rightarrow> 'a list list" where
  "chunks n xs = (if n = 0 \<or> xs = [] then [] else take n xs # chunks n (drop n xs))"
  by auto
termination by (relation "measure (\<lambda>(n, xs). length xs)") auto

declare chunks.simps [simp del]

definition merge_one ::
    "('d \<Rightarrow> 'k) \<Rightarrow> 'd \<Rightarrow> ('d \<Rightarrow> 'd \<Rightarrow> 'd) \<Rightarrow> ('k \<times> 'd) list \<Rightarrow> 'd \<Rightarrow> ('k \<times> 'd) list" where
  "merge_one key zero comb m d =
     AList.update (key d) (comb (case map_of m (key d) of None \<Rightarrow> zero | Some c \<Rightarrow> c) d) m"

definition merge_all ::
    "('d \<Rightarrow> 'k) \<Rightarrow> 'd \<Rightarrow> ('d \<Rightarrow> 'd \<Rightarrow> 'd) \<Rightarrow> 'd list \<Rightarrow> ('k \<times> 'd) list" where
  "merge_all key zero comb ds = foldl (merge_one key zero comb) [] ds"

definition send_batches :: "nat \<Rightarrow> ('k::linorder \<times> 'd) list \<Rightarrow> ('d \<Rightarrow> bool) \<Rightarrow> ('d list \<Rightarrow> 't \<Rightarrow> 't) \<Rightarrow> 't \<Rightarrow> 't" where
  "send_batches n m keep stmt t =
     (let ids = sort (map fst (filter (\<lambda>(k, d). keep d) m))
      in fold (\<lambda>batch t. stmt (map (\<lambda>k. the (map_of m k)) batch) t) (chunks n ids) t)"

lemma concat_chunks: "0 < n \<Longrightarrow> concat (chunks n xs) = xs"
proof (induction n xs rule: chunks.induct)
  case (1 n xs)
  then show ?case by (subst chunks.simps) auto
qed

text \<open>No statement names more keys than the limit on bound parameters allows.\<close>

lemma chunks_bounded: "c \<in> set (chunks n xs) \<Longrightarrow> c \<noteq> [] \<and> length c \<le> n"
proof (induction n xs rule: chunks.induct)
  case (1 n xs)
  then show ?case by (subst (asm) (2) chunks.simps) (auto split: if_splits)
qed

section \<open>Rows by key\<close>

text \<open>The arm \<open>CASE WHEN seen IS NULL OR seen < ? THEN ? ELSE seen END\<close> of the times.\<close>

definition newer_seen :: "nat \<Rightarrow> nat option \<Rightarrow> nat option" where
  "newer_seen seen old = (case old of None \<Rightarrow> Some seen | Some s \<Rightarrow> if s < seen then Some seen else old)"

lemma newer_seen_twice: "newer_seen b (newer_seen a s) = newer_seen (if b > a then b else a) s"
  by (auto simp: newer_seen_def split: option.splits)

lemma find_map_row:
  "(\<And>r. rid (f r) = rid r) \<Longrightarrow> find (\<lambda>r. rid r = i) (map f rows) = map_option f (find (\<lambda>r. rid r = i) rows)"
  by (induction rows) auto

lemma find_filter_unique:
  "distinct (map g ds) \<Longrightarrow> find (\<lambda>d. g d = i) (filter P ds)
    = (case find (\<lambda>d. g d = i) ds of None \<Rightarrow> None | Some d \<Rightarrow> if P d then Some d else None)"
proof (induction ds)
  case (Cons a ds)
  then have "g a = i \<Longrightarrow> find (\<lambda>d. g d = i) ds = None"
    unfolding find_None_iff by (metis distinct.simps(2) image_eqI list.simps(9) set_map)
  then show ?case using Cons by auto
qed simp

lemma rows_eqI:
  "map rid xs = map rid ys \<Longrightarrow> distinct (map rid xs)
    \<Longrightarrow> (\<And>i. find (\<lambda>r. rid r = i) xs = find (\<lambda>r. rid r = i) ys) \<Longrightarrow> xs = ys"
proof (induction xs arbitrary: ys)
  case (Cons x xs)
  then obtain y ys' where ys: "ys = y # ys'" "rid x = rid y" "map rid xs = map rid ys'" by (cases ys) auto
  have "find (\<lambda>r. rid r = i) xs = find (\<lambda>r. rid r = i) ys'" for i
  proof (cases "i = rid y")
    case True
    then have "i \<notin> set (map rid xs)" "i \<notin> set (map rid ys')"
      using Cons.prems(2) ys by (metis distinct.simps(2) list.simps(9))+
    then have "find (\<lambda>r. rid r = i) xs = None" "find (\<lambda>r. rid r = i) ys' = None"
      by (auto simp: find_None_iff)
    then show ?thesis by simp
  next
    case False
    then show ?thesis using Cons.prems(3) [of i] ys by simp
  qed
  moreover have "x = y" using Cons.prems(3) [of "rid y"] ys by simp
  ultimately show ?case using Cons ys by simp
qed simp

lemma map_option_o_map_option: "map_option (f \<circ> g) = map_option f \<circ> map_option g"
  by (simp add: fun_eq_iff option.map_comp)

section \<open>What a statement owes the scheme\<close>

locale update_batches =
  fixes key :: "'d \<Rightarrow> 'k::linorder" and zero :: 'd and comb :: "'d \<Rightarrow> 'd \<Rightarrow> 'd"
    and fits :: "'d \<Rightarrow> bool" and tidy :: "'d \<Rightarrow> bool" and weight :: "'d \<Rightarrow> int"
    and act :: "'d \<Rightarrow> 'r option \<Rightarrow> 'r option" and keep :: "'d \<Rightarrow> bool"
    and look :: "'t \<Rightarrow> 'k \<Rightarrow> 'r option" and stmt :: "'d list \<Rightarrow> 't \<Rightarrow> 't"
  assumes key_comb: "key (comb c d) = key d"
    and tidy_comb: "tidy (comb c d)"
    and weight_nonneg: "fits d \<Longrightarrow> 0 \<le> weight d"
    and comb_zero: "fits d \<Longrightarrow> weight d \<le> int64_max \<Longrightarrow>
      fits (comb zero d) \<and> weight (comb zero d) = weight d \<and> act (comb zero d) = act d"
    and comb_act: "fits c \<Longrightarrow> fits d \<Longrightarrow> key c = key d \<Longrightarrow> weight c + weight d \<le> int64_max \<Longrightarrow>
      fits (comb c d) \<and> weight (comb c d) = weight c + weight d \<and> act (comb c d) = act d \<circ> act c"
    and idle_act: "fits d \<Longrightarrow> \<not> keep d \<Longrightarrow> act d r = r"
    and look_stmt: "distinct (map key ds) \<Longrightarrow> list_all fits ds \<Longrightarrow> list_all tidy ds \<Longrightarrow> list_all (\<lambda>d. weight d \<le> int64_max) ds \<Longrightarrow>
      look (stmt ds t) k = (case find (\<lambda>d. key d = k) ds of None \<Rightarrow> look t k | Some d \<Rightarrow> act d (look t k))"
begin

abbreviation of_key :: "'k \<Rightarrow> 'd list \<Rightarrow> 'd list" where
  "of_key k ds \<equiv> filter (\<lambda>d. key d = k) ds"

abbreviation total :: "'d list \<Rightarrow> int" where
  "total ds \<equiv> (\<Sum>d \<leftarrow> ds. weight d)"

lemma total_nonneg: "list_all fits ds \<Longrightarrow> 0 \<le> total ds"
  by (induction ds) (auto simp: weight_nonneg)

lemma total_of_key: "list_all fits ds \<Longrightarrow> total (of_key k ds) \<le> total ds"
  by (induction ds) (auto simp: weight_nonneg add_increasing)

text \<open>The map after merging: one entry per key that occurs, standing for all its deltas.\<close>

definition stands_for :: "'d \<Rightarrow> 'd list \<Rightarrow> bool" where
  "stands_for c ds \<longleftrightarrow> fits c \<and> tidy c \<and> weight c = total ds \<and> act c = fold act ds"

lemma merged:
  assumes "list_all fits ds" "total ds \<le> int64_max"
  shows "distinct (map fst (merge_all key zero comb ds))
    \<and> (\<forall>k. case map_of (merge_all key zero comb ds) k of
            None \<Rightarrow> of_key k ds = []
          | Some c \<Rightarrow> of_key k ds \<noteq> [] \<and> key c = k \<and> stands_for c (of_key k ds))"
  using assms
proof (induction ds rule: rev_induct)
  case Nil
  then show ?case by (simp add: merge_all_def)
next
  case (snoc d ds)
  let ?m = "merge_all key zero comb ds"
  have ds: "list_all fits ds" "fits d" "total ds + weight d \<le> int64_max"
    using snoc.prems by simp_all
  then have lt: "total ds \<le> int64_max" "weight d \<le> int64_max"
    using weight_nonneg [of d] total_nonneg [of ds] by simp_all
  note IH = snoc.IH [OF ds(1) lt(1)]
  have m: "merge_all key zero comb (ds @ [d]) = merge_one key zero comb ?m d"
    by (simp add: merge_all_def)
  have entry: "stands_for (comb (case map_of ?m (key d) of None \<Rightarrow> zero | Some c \<Rightarrow> c) d) (of_key (key d) ds @ [d])"
  proof (cases "map_of ?m (key d)")
    case None
    then show ?thesis using IH comb_zero [OF ds(2) lt(2)]
      by (auto simp: stands_for_def tidy_comb dest: spec [of _ "key d"])
  next
    case (Some c)
    then have c: "key c = key d" "stands_for c (of_key (key d) ds)"
      using IH by (auto dest: spec [of _ "key d"])
    then have "weight c + weight d \<le> int64_max"
      using total_of_key [OF ds(1), of "key d"] ds(3) by (simp add: stands_for_def)
    then show ?thesis using comb_act [of c d] c ds(2) by (auto simp: stands_for_def tidy_comb Some)
  qed
  have "case map_of (merge_all key zero comb (ds @ [d])) k of
      None \<Rightarrow> of_key k (ds @ [d]) = []
    | Some c \<Rightarrow> of_key k (ds @ [d]) \<noteq> [] \<and> key c = k \<and> stands_for c (of_key k (ds @ [d]))" for k
  proof (cases "k = key d")
    case True
    then show ?thesis unfolding m merge_one_def using entry by (simp add: update_conv' key_comb)
  next
    case False
    then have "of_key k (ds @ [d]) = of_key k ds" by auto
    moreover have "map_of (merge_all key zero comb (ds @ [d])) k = map_of ?m k"
      unfolding m merge_one_def using False by (simp add: update_conv')
    ultimately show ?thesis using conjunct2 [OF IH, rule_format, of k] by (simp only:)
  qed
  then show ?case using IH by (simp add: m merge_one_def distinct_update)
qed

lemma find_distinct_key:
  "distinct (map key ds) \<Longrightarrow> d \<in> set ds \<Longrightarrow> find (\<lambda>e. key e = key d) ds = Some d"
  by (induction ds) (auto simp: rev_image_eqI)

text \<open>A run of statements over disjoint chunks of keys acts on each key once.\<close>

lemma look_sends:
  assumes "distinct (concat bs)" "\<And>k. k \<in> set (concat bs) \<Longrightarrow> key (f k) = k \<and> fits (f k) \<and> tidy (f k) \<and> weight (f k) \<le> int64_max"
  shows "look (fold (\<lambda>b t. stmt (map f b) t) bs t) k
    = (if k \<in> set (concat bs) then act (f k) (look t k) else look t k)"
  using assms
proof (induction bs arbitrary: t)
  case (Cons b bs)
  have keys: "map (key \<circ> f) b = b" using Cons.prems(2) by (intro map_idI) auto
  then have d: "distinct (map key (map f b))" using Cons.prems(1) by simp
  have ok: "list_all fits (map f b)" "list_all tidy (map f b)" "list_all (\<lambda>d. weight d \<le> int64_max) (map f b)"
    using Cons.prems(2) by (auto simp: list_all_iff)
  have first: "look (stmt (map f b) t) k = (if k \<in> set b then act (f k) (look t k) else look t k)" for k
  proof (cases "k \<in> set b")
    case True
    then have "find (\<lambda>e. key e = key (f k)) (map f b) = Some (f k)"
      by (intro find_distinct_key [OF d]) simp
    then show ?thesis using True Cons.prems(2) [of k] by (simp add: look_stmt [OF d ok])
  next
    case False
    then have "find (\<lambda>e. key e = k) (map f b) = None"
      using Cons.prems(2) by (auto simp: find_None_iff)
    then show ?thesis using False by (simp add: look_stmt [OF d ok])
  qed
  have "look (fold (\<lambda>b t. stmt (map f b) t) bs (stmt (map f b) t)) k
      = (if k \<in> set (concat bs) then act (f k) (look (stmt (map f b) t) k) else look (stmt (map f b) t) k)"
    by (rule Cons.IH) (use Cons.prems in auto)
  then show ?case using Cons.prems(1) by (auto simp: first)
qed simp

theorem batches_are_the_deltas:
  assumes "list_all fits ds" "total ds \<le> int64_max" "0 < n"
  shows "look (send_batches n (merge_all key zero comb ds) keep stmt t) k = fold act (of_key k ds) (look t k)"
proof -
  let ?m = "merge_all key zero comb ds"
  let ?ids = "sort (map fst (filter (\<lambda>(k, d). keep d) ?m))"
  let ?f = "\<lambda>k. the (map_of ?m k)"
  have dist: "distinct (map fst ?m)"
    and ent: "\<And>k. case map_of ?m k of None \<Rightarrow> of_key k ds = []
        | Some c \<Rightarrow> of_key k ds \<noteq> [] \<and> key c = k \<and> stands_for c (of_key k ds)"
    using merged [OF assms(1,2)] by auto
  have mem: "k \<in> set ?ids \<longleftrightarrow> (\<exists>d. map_of ?m k = Some d \<and> keep d)" for k
    using dist by (force simp: map_of_eq_Some_iff)
  have "look (fold (\<lambda>b t. stmt (map ?f b) t) (chunks n ?ids) t) k
      = (if k \<in> set (concat (chunks n ?ids)) then act (?f k) (look t k) else look t k)"
  proof (rule look_sends)
    show "distinct (concat (chunks n ?ids))"
      using dist by (simp add: concat_chunks [OF assms(3)] distinct_map_filter)
    fix k assume "k \<in> set (concat (chunks n ?ids))"
    then obtain c where "map_of ?m k = Some c" by (auto simp only: concat_chunks [OF assms(3)] mem)
    then show "key (?f k) = k \<and> fits (?f k) \<and> tidy (?f k) \<and> weight (?f k) \<le> int64_max"
      using ent [of k] total_of_key [OF assms(1), of k] assms(2) by (auto simp: stands_for_def)
  qed
  also have "\<dots> = fold act (of_key k ds) (look t k)"
  proof (cases "map_of ?m k")
    case None
    then show ?thesis using ent [of k] mem [of k] by (simp add: concat_chunks [OF assms(3)])
  next
    case (Some c)
    then show ?thesis using ent [of k] mem [of k] idle_act [of c]
      by (auto simp: concat_chunks [OF assms(3)] stands_for_def)
  qed
  finally show ?thesis by (simp add: send_batches_def Let_def)
qed

end

section \<open>Statements that update rows\<close>

text \<open>
  A statement \<open>UPDATE ... WHERE id IN ?\<close> is a change of each row; the laws are then about one row.
\<close>

definition update_row :: "('r \<Rightarrow> 'k) \<Rightarrow> 'k \<Rightarrow> ('r \<Rightarrow> 'r) \<Rightarrow> 'r list \<Rightarrow> 'r list" where
  "update_row rid k f rows = map (\<lambda>r. if rid r = k then f r else r) rows"

lemma find_update_row:
  assumes "\<And>r. rid (f r) = rid r"
  shows "find (\<lambda>r. rid r = i) (update_row rid k f rows)
    = (if k = i then map_option f (find (\<lambda>r. rid r = i) rows) else find (\<lambda>r. rid r = i) rows)"
proof -
  have "find (\<lambda>r. rid r = i) (update_row rid k f rows)
      = map_option (\<lambda>r. if rid r = k then f r else r) (find (\<lambda>r. rid r = i) rows)"
    unfolding update_row_def by (rule find_map_row) (simp add: assms)
  moreover have "rid r = i" if "find (\<lambda>r. rid r = i) rows = Some r" for r
    using that by (auto simp: find_Some_iff)
  ultimately show ?thesis by (cases "find (\<lambda>r. rid r = i) rows") auto
qed

lemma ids_update_row: "(\<And>r. rid (f r) = rid r) \<Longrightarrow> map rid (update_row rid k f rows) = map rid rows"
  by (simp add: update_row_def comp_def if_distrib cong: if_cong)

locale row_batches =
  fixes rid :: "'r \<Rightarrow> 'k::linorder" and key :: "'d \<Rightarrow> 'k" and zero :: 'd and comb :: "'d \<Rightarrow> 'd \<Rightarrow> 'd"
    and fits :: "'d \<Rightarrow> bool" and weight :: "'d \<Rightarrow> int"
    and upd :: "'d \<Rightarrow> 'r \<Rightarrow> 'r" and keep :: "'d \<Rightarrow> bool" and set_row :: "'d list \<Rightarrow> 'r \<Rightarrow> 'r"
  assumes key_comb: "key (comb c d) = key d"
    and weight_nonneg: "fits d \<Longrightarrow> 0 \<le> weight d"
    and comb_zero: "fits d \<Longrightarrow> weight d \<le> int64_max \<Longrightarrow>
      fits (comb zero d) \<and> weight (comb zero d) = weight d \<and> upd (comb zero d) = upd d"
    and comb_upd: "fits c \<Longrightarrow> fits d \<Longrightarrow> key c = key d \<Longrightarrow> weight c + weight d \<le> int64_max \<Longrightarrow>
      fits (comb c d) \<and> weight (comb c d) = weight c + weight d \<and> upd (comb c d) = upd d \<circ> upd c"
    and idle_upd: "fits d \<Longrightarrow> \<not> keep d \<Longrightarrow> upd d r = r"
    and rid_upd: "rid (upd d r) = rid r"
    and rid_set: "rid (set_row ds r) = rid r"
    and set_out: "find (\<lambda>d. key d = rid r) ds = None \<Longrightarrow> set_row ds r = r"
    and set_in: "distinct (map key ds) \<Longrightarrow> find (\<lambda>d. key d = rid r) ds = Some d \<Longrightarrow>
      fits d \<Longrightarrow> weight d \<le> int64_max \<Longrightarrow> set_row ds r = upd d r"
begin

lemma find_set:
  assumes "distinct (map key ds)" "list_all fits ds" "list_all (\<lambda>d. weight d \<le> int64_max) ds"
  shows "find (\<lambda>r. rid r = i) (map (set_row ds) rows)
    = (case find (\<lambda>d. key d = i) ds of None \<Rightarrow> find (\<lambda>r. rid r = i) rows
       | Some d \<Rightarrow> map_option (upd d) (find (\<lambda>r. rid r = i) rows))"
proof (cases "find (\<lambda>r. rid r = i) rows")
  case None
  then show ?thesis by (simp add: find_map_row rid_set split: option.split)
next
  case (Some r)
  then have r: "rid r = i" by (auto simp: find_Some_iff)
  have "fits d \<and> weight d \<le> int64_max" if "find (\<lambda>d. key d = i) ds = Some d" for d
    using that assms(2,3) by (auto simp: find_Some_iff list_all_iff)
  then show ?thesis using r Some set_out [of r ds] set_in [OF assms(1), of r]
    by (auto simp: find_map_row rid_set split: option.split)
qed

end

sublocale row_batches \<subseteq> rows: update_batches key zero comb fits "\<lambda>d. True" weight "\<lambda>d. map_option (upd d)" keep
    "\<lambda>rows i. find (\<lambda>r. rid r = i) rows" "\<lambda>ds. map (set_row ds)"
proof unfold_locales
  fix c d
  show "fits (comb c d) \<and> weight (comb c d) = weight c + weight d
      \<and> map_option (upd (comb c d)) = map_option (upd d) \<circ> map_option (upd c)"
    if "fits c" "fits d" "key c = key d" "weight c + weight d \<le> int64_max"
    using comb_upd [OF that] by (auto simp only: map_option_o_map_option)
qed (auto simp: key_comb weight_nonneg comb_zero find_set option.map_id0
    dest: idle_upd intro!: option.map_ident_strong)

context row_batches
begin

lemma find_one_by_one:
  "find (\<lambda>r. rid r = i) (fold (\<lambda>d. update_row rid (key d) (upd d)) ds rows)
    = fold (\<lambda>d. map_option (upd d)) (filter (\<lambda>d. key d = i) ds) (find (\<lambda>r. rid r = i) rows)"
  by (induction ds arbitrary: rows) (simp_all add: find_update_row rid_upd)

lemma ids_one_by_one: "map rid (fold (\<lambda>d. update_row rid (key d) (upd d)) ds rows) = map rid rows"
  by (induction ds arbitrary: rows) (simp_all add: ids_update_row rid_upd)

lemma ids_batches: "map rid (fold (\<lambda>b. map (set_row (f b))) bs rows) = map rid rows"
  by (induction bs arbitrary: rows) (simp_all add: comp_def rid_set)

theorem batches_are_one_by_one:
  assumes "distinct (map rid rows)" "list_all fits ds" "(\<Sum>d \<leftarrow> ds. weight d) \<le> int64_max" "0 < n"
  shows "send_batches n (merge_all key zero comb ds) keep (\<lambda>ds. map (set_row ds)) rows
    = fold (\<lambda>d. update_row rid (key d) (upd d)) ds rows" (is "?b = ?o")
proof (rule rows_eqI [of rid])
  show "map rid ?b = map rid ?o" "distinct (map rid ?b)"
    using assms(1) by (simp_all add: send_batches_def Let_def ids_batches ids_one_by_one)
  show "find (\<lambda>r. rid r = i) ?b = find (\<lambda>r. rid r = i) ?o" for i
    using rows.batches_are_the_deltas [OF assms(2-4), where t = rows and k = i] by (simp add: find_one_by_one)
qed

end

end
