(* ===== verification/Wg_Peers.thy ===== *)
theory Wg_Peers
  imports Usage_Batches
begin

text \<open>
  The table of WireGuard peers: \<open>internal/wireguard/domain/peer.go\<close> and
  \<open>internal/wireguard/repository\<close>. A peer is one device of a subscription on one inbound. The
  unique indexes of the table, on the public key and on inbound and address, are part of the
  writes. The lemmas show what the writes keep and that the batched counters are the single ones.
\<close>

section \<open>Peers and their table\<close>

datatype WGPeerStatus = WGActive | WGDisabled

record WGPeer =
  wpID :: nat
  wpSubscriptionID :: nat
  wpInboundID :: nat
  wpHostID :: "nat option"
  wpLabel :: string
  wpPublicKey :: string
  wpPresharedKey :: string
  wpPrivateKey :: string
  wpAssignedIP :: string
  wpStatus :: WGPeerStatus
  wpUpBytes :: int
  wpDownBytes :: int
  wpLastSeen :: "nat option"

text \<open>The rows and the next value of the primary key.\<close>

record wg_table =
  wgRows :: "WGPeer list"
  wgNext :: nat

definition wg_conflict :: "WGPeer \<Rightarrow> WGPeer \<Rightarrow> bool" where
  "wg_conflict p q \<longleftrightarrow> wpPublicKey p = wpPublicKey q
     \<or> (wpInboundID p = wpInboundID q \<and> wpAssignedIP p = wpAssignedIP q)"

text \<open>\<open>Create\<close> fails on a unique index, which is \<^term>\<open>None\<close>; the new row carries its key.\<close>

definition wg_Create :: "WGPeer \<Rightarrow> wg_table \<Rightarrow> (WGPeer \<times> wg_table) option" where
  "wg_Create p t =
     (if list_ex (wg_conflict p) (wgRows t) then None
      else let p = p\<lparr>wpID := wgNext t\<rparr> in
        Some (p, \<lparr>wgRows = wgRows t @ [p], wgNext = wgNext t + 1\<rparr>))"

text \<open>\<open>Update\<close> is gorm's \<open>Save\<close>: it writes every column of the row with that key, and inserts it
  when there is none.\<close>

definition wg_Update :: "WGPeer \<Rightarrow> wg_table \<Rightarrow> wg_table option" where
  "wg_Update p t =
     (if list_ex (\<lambda>q. wpID q \<noteq> wpID p \<and> wg_conflict p q) (wgRows t) then None
      else if list_ex (\<lambda>q. wpID q = wpID p) (wgRows t)
        then Some (t\<lparr>wgRows := map (\<lambda>q. if wpID q = wpID p then p else q) (wgRows t)\<rparr>)
      else Some \<lparr>wgRows = wgRows t @ [p], wgNext = max (wgNext t) (wpID p + 1)\<rparr>)"

definition wg_FindByID :: "nat \<Rightarrow> wg_table \<Rightarrow> WGPeer option" where
  "wg_FindByID i t = find (\<lambda>p. wpID p = i) (wgRows t)"

definition wg_Delete :: "nat \<Rightarrow> wg_table \<Rightarrow> wg_table" where
  "wg_Delete i t = t\<lparr>wgRows := filter (\<lambda>p. wpID p \<noteq> i) (wgRows t)\<rparr>"

definition wg_ListBySubscription :: "nat \<Rightarrow> wg_table \<Rightarrow> WGPeer list" where
  "wg_ListBySubscription s t = sort_key wpID (filter (\<lambda>p. wpSubscriptionID p = s) (wgRows t))"

definition wg_CountActiveBySubscription :: "nat \<Rightarrow> wg_table \<Rightarrow> nat" where
  "wg_CountActiveBySubscription s t =
     length (filter (\<lambda>p. wpSubscriptionID p = s \<and> wpStatus p = WGActive) (wgRows t))"

definition wg_ListActiveByInbound :: "nat \<Rightarrow> wg_table \<Rightarrow> WGPeer list" where
  "wg_ListActiveByInbound i t =
     sort_key wpID (filter (\<lambda>p. wpInboundID p = i \<and> wpStatus p = WGActive) (wgRows t))"

definition wg_ListUsedIPs :: "nat \<Rightarrow> wg_table \<Rightarrow> string list" where
  "wg_ListUsedIPs i t = map wpAssignedIP (filter (\<lambda>p. wpInboundID p = i) (wgRows t))"

definition wg_SetStatusBySubscription :: "nat \<Rightarrow> WGPeerStatus \<Rightarrow> wg_table \<Rightarrow> wg_table" where
  "wg_SetStatusBySubscription s st t =
     t\<lparr>wgRows := map (\<lambda>p. if wpSubscriptionID p = s then p\<lparr>wpStatus := st\<rparr> else p) (wgRows t)\<rparr>"

definition wg_AddUsage :: "nat \<Rightarrow> int \<Rightarrow> int \<Rightarrow> wg_table \<Rightarrow> wg_table" where
  "wg_AddUsage i up down t = t\<lparr>wgRows := map (\<lambda>p. if wpID p = i
     then p\<lparr>wpUpBytes := wpUpBytes p + up, wpDownBytes := wpDownBytes p + down\<rparr> else p) (wgRows t)\<rparr>"

definition wg_TouchLastSeen :: "nat \<Rightarrow> nat \<Rightarrow> wg_table \<Rightarrow> wg_table" where
  "wg_TouchLastSeen i seen t =
     t\<lparr>wgRows := map (\<lambda>p. if wpID p = i then p\<lparr>wpLastSeen := Some seen\<rparr> else p) (wgRows t)\<rparr>"

section \<open>Batched counters\<close>

text \<open>\<open>LastSeen\<close> 0 is Go's zero time.\<close>

record WGUsageDelta =
  duPeerID :: nat
  duUpload :: int
  duDownload :: int
  duLastSeen :: nat

definition du_zero :: WGUsageDelta where
  "du_zero = \<lparr>duPeerID = 0, duUpload = 0, duDownload = 0, duLastSeen = 0\<rparr>"

definition du_merge :: "WGUsageDelta \<Rightarrow> WGUsageDelta \<Rightarrow> WGUsageDelta" where
  "du_merge current delta =
     \<lparr>duPeerID = duPeerID delta,
      duUpload = wrap64 (duUpload current + duUpload delta),
      duDownload = wrap64 (duDownload current + duDownload delta),
      duLastSeen = (if duLastSeen delta > duLastSeen current then duLastSeen delta else duLastSeen current)\<rparr>"

definition du_some :: "WGUsageDelta \<Rightarrow> bool" where
  "du_some d \<longleftrightarrow> duUpload d \<noteq> 0 \<or> duDownload d \<noteq> 0 \<or> duLastSeen d \<noteq> 0"

text \<open>\<open>CASE id WHEN ? THEN ? ... ELSE 0 END\<close>, and the arm of \<open>last_seen\<close>.\<close>

definition case_counter :: "(WGUsageDelta \<Rightarrow> int) \<Rightarrow> WGUsageDelta list \<Rightarrow> nat \<Rightarrow> int" where
  "case_counter value batch i = (case find (\<lambda>d. duPeerID d = i) batch of None \<Rightarrow> 0 | Some d \<Rightarrow> value d)"

definition case_seen :: "WGUsageDelta list \<Rightarrow> nat \<Rightarrow> nat option \<Rightarrow> nat option" where
  "case_seen batch i old =
     (case find (\<lambda>d. duPeerID d = i) (filter (\<lambda>d. duLastSeen d \<noteq> 0) batch) of
        None \<Rightarrow> old | Some d \<Rightarrow> newer_seen (duLastSeen d) old)"

definition peer_set :: "WGUsageDelta list \<Rightarrow> WGPeer \<Rightarrow> WGPeer" where
  "peer_set batch p =
     (if wpID p \<in> set (map duPeerID batch) then
       let p = p\<lparr>wpUpBytes := wpUpBytes p + case_counter duUpload batch (wpID p),
                 wpDownBytes := wpDownBytes p + case_counter duDownload batch (wpID p)\<rparr>
       in if list_ex (\<lambda>d. duLastSeen d \<noteq> 0) batch
          then p\<lparr>wpLastSeen := case_seen batch (wpID p) (wpLastSeen p)\<rparr> else p
     else p)"

definition peerTrafficBatchSize :: nat where "peerTrafficBatchSize = 50"

definition AddUsageBatch :: "WGUsageDelta list \<Rightarrow> wg_table \<Rightarrow> wg_table" where
  "AddUsageBatch deltas t =
     t\<lparr>wgRows := send_batches peerTrafficBatchSize (merge_all duPeerID du_zero du_merge deltas) du_some
        (\<lambda>batch. map (peer_set batch)) (wgRows t)\<rparr>"

section \<open>The batch is the deltas, one by one\<close>

text \<open>What one delta means for its peer: the counters grow and \<open>last_seen\<close> never goes back.\<close>

definition add_delta :: "WGUsageDelta \<Rightarrow> WGPeer \<Rightarrow> WGPeer" where
  "add_delta d p = p\<lparr>wpUpBytes := wpUpBytes p + duUpload d, wpDownBytes := wpDownBytes p + duDownload d,
     wpLastSeen := (if duLastSeen d = 0 then wpLastSeen p else newer_seen (duLastSeen d) (wpLastSeen p))\<rparr>"

definition add_one :: "WGUsageDelta \<Rightarrow> wg_table \<Rightarrow> wg_table" where
  "add_one d t = t\<lparr>wgRows := update_row wpID (duPeerID d) (add_delta d) (wgRows t)\<rparr>"

definition du_fits :: "WGUsageDelta \<Rightarrow> bool" where
  "du_fits d \<longleftrightarrow> 0 \<le> duUpload d \<and> 0 \<le> duDownload d"

definition du_weight :: "WGUsageDelta \<Rightarrow> int" where
  "du_weight d = duUpload d + duDownload d"

lemma peer_set_row:
  assumes "distinct (map duPeerID ds)" "find (\<lambda>d. duPeerID d = wpID p) ds = Some d"
  shows "peer_set ds p = add_delta d p"
proof -
  have d: "d \<in> set ds" "duPeerID d = wpID p"
    using assms(2) by (auto simp: find_Some_iff)
  then have "wpID p \<in> duPeerID ` set ds" "duLastSeen d \<noteq> 0 \<Longrightarrow> list_ex (\<lambda>d. duLastSeen d \<noteq> 0) ds"
    by (force simp: list_ex_iff)+
  then show ?thesis
    using assms by (auto simp: peer_set_def add_delta_def case_counter_def case_seen_def find_filter_unique Let_def)
qed

interpretation peer_batches: row_batches wpID duPeerID du_zero du_merge du_fits du_weight add_delta du_some peer_set
proof unfold_locales
  fix c d :: WGUsageDelta and ds and p
  show "duPeerID (du_merge c d) = duPeerID d" by (simp add: du_merge_def)
  show "du_fits d \<Longrightarrow> 0 \<le> du_weight d" by (simp add: du_fits_def du_weight_def)
  show "du_fits (du_merge du_zero d) \<and> du_weight (du_merge du_zero d) = du_weight d
      \<and> add_delta (du_merge du_zero d) = add_delta d"
    if "du_fits d" "du_weight d \<le> int64_max"
  proof -
    have "wrap64 (duUpload d) = duUpload d" "wrap64 (duDownload d) = duDownload d"
      using that by (auto intro!: wrap64_id simp: du_fits_def du_weight_def int64_min_def)
    then have "du_merge du_zero d = d" by (simp add: du_merge_def du_zero_def)
    then show ?thesis using that by simp
  qed
  show "du_fits (du_merge c d) \<and> du_weight (du_merge c d) = du_weight c + du_weight d
      \<and> add_delta (du_merge c d) = add_delta d \<circ> add_delta c"
    if "du_fits c" "du_fits d" "duPeerID c = duPeerID d" "du_weight c + du_weight d \<le> int64_max"
  proof -
    have "wrap64 (duUpload c + duUpload d) = duUpload c + duUpload d"
      "wrap64 (duDownload c + duDownload d) = duDownload c + duDownload d"
      using that by (auto intro!: wrap64_id simp: du_fits_def du_weight_def int64_min_def)
    then have m: "du_merge c d = \<lparr>duPeerID = duPeerID d, duUpload = duUpload c + duUpload d,
        duDownload = duDownload c + duDownload d,
        duLastSeen = (if duLastSeen d > duLastSeen c then duLastSeen d else duLastSeen c)\<rparr>"
      by (simp add: du_merge_def)
    show ?thesis
      using that unfolding m by (auto simp: fun_eq_iff du_fits_def du_weight_def add_delta_def newer_seen_twice)
  qed
  show "add_delta d p = p" if "du_fits d" "\<not> du_some d"
    using that by (auto simp: du_some_def add_delta_def)
  show "wpID (add_delta d p) = wpID p" "wpID (peer_set ds p) = wpID p"
    by (simp_all add: add_delta_def peer_set_def Let_def)
  show "peer_set ds p = p" if "find (\<lambda>d. duPeerID d = wpID p) ds = None"
    using that by (auto simp: peer_set_def find_None_iff)
qed (rule peer_set_row)

lemma add_all_rows:
  "fold add_one ds t = t\<lparr>wgRows := fold (\<lambda>d. update_row wpID (duPeerID d) (add_delta d)) ds (wgRows t)\<rparr>"
  by (induction ds arbitrary: t) (simp_all add: add_one_def)

text \<open>
  Merging the deltas of a sweep, sorting them and sending them in statements of fifty peers
  changes the table exactly as adding the deltas one after the other would: every counter grows by
  the sum of its deltas, \<open>last_seen\<close> is the latest time and never goes back, peers that are not
  named and peers that do not exist are left alone. The deltas are byte counts, so not negative,
  and their sum is an \<open>int64\<close>.
\<close>

theorem AddUsageBatch_is_one_by_one:
  assumes "distinct (map wpID (wgRows t))"
    and "list_all (\<lambda>d. 0 \<le> duUpload d \<and> 0 \<le> duDownload d) deltas"
    and "(\<Sum>d \<leftarrow> deltas. duUpload d + duDownload d) \<le> int64_max"
  shows "AddUsageBatch deltas t = fold add_one deltas t"
proof -
  have "list_all du_fits deltas" "(\<Sum>d \<leftarrow> deltas. du_weight d) \<le> int64_max"
    using assms(2,3) by (simp_all add: list_all_iff du_fits_def du_weight_def)
  then have "wgRows (AddUsageBatch deltas t) = fold (\<lambda>d. update_row wpID (duPeerID d) (add_delta d)) deltas (wgRows t)"
    using peer_batches.batches_are_one_by_one [OF assms(1)]
    by (simp add: AddUsageBatch_def peerTrafficBatchSize_def)
  then show ?thesis by (simp add: add_all_rows AddUsageBatch_def)
qed

definition example_peer :: "nat \<Rightarrow> WGPeer" where
  "example_peer i = \<lparr>wpID = i, wpSubscriptionID = 7, wpInboundID = 1, wpHostID = None, wpLabel = ''phone'',
     wpPublicKey = dec i, wpPresharedKey = [], wpPrivateKey = ''k'', wpAssignedIP = ''10.8.0.'' @ dec i,
     wpStatus = WGActive, wpUpBytes = 0, wpDownBytes = 0, wpLastSeen = None\<rparr>"

theorem AddUsageBatch_is_one_by_one_witness:
  "let t = \<lparr>wgRows = [example_peer 2, example_peer 3], wgNext = 4\<rparr>;
       ds = [\<lparr>duPeerID = 3, duUpload = 5, duDownload = 6, duLastSeen = 9\<rparr>,
             \<lparr>duPeerID = 2, duUpload = 1, duDownload = 1, duLastSeen = 8\<rparr>,
             \<lparr>duPeerID = 3, duUpload = 2, duDownload = 0, duLastSeen = 7\<rparr>]
   in AddUsageBatch ds t = fold add_one ds t
      \<and> map (\<lambda>p. (wpUpBytes p, wpLastSeen p)) (wgRows (AddUsageBatch ds t)) = [(1, Some 8), (7, Some 9)]"
proof -
  let ?t = "\<lparr>wgRows = [example_peer 2, example_peer 3], wgNext = 4\<rparr>"
  let ?ds = "[\<lparr>duPeerID = 3, duUpload = 5, duDownload = 6, duLastSeen = 9\<rparr>,
             \<lparr>duPeerID = 2, duUpload = 1, duDownload = 1, duLastSeen = 8\<rparr>,
             \<lparr>duPeerID = 3, duUpload = 2, duDownload = 0, duLastSeen = 7\<rparr>]"
  have "AddUsageBatch ?ds ?t = fold add_one ?ds ?t"
    by (rule AddUsageBatch_is_one_by_one) (simp_all add: example_peer_def int64_max_def)
  moreover have "map (\<lambda>p. (wpUpBytes p, wpLastSeen p)) (wgRows (fold add_one ?ds ?t)) = [(1, Some 8), (7, Some 9)]"
    by (simp add: add_one_def update_row_def add_delta_def example_peer_def newer_seen_def)
  ultimately show ?thesis by (simp add: Let_def)
qed

end
