(* ===== verification/Wg_Devices.thy ===== *)
theory Wg_Devices
  imports Ipam Wg_Peers Netmark "HOL-Library.Product_Lexorder"
begin

text \<open>
  The devices of a subscription: \<open>internal/wireguard/usecase/device_usecase.go\<close> and \<open>conf.go\<close>, the
  parts of \<open>internal/node/domain\<close> they read, and the peer source the node push reads,
  \<open>internal/wireguard/nodebridge/peer_source.go\<close>.

  The usecase works on the peer table and on what its ports answer. The readers of subscriptions,
  accounts and inbounds, and the derivation of a public key, are the fields of \<open>dev_env\<close>; the keys
  that are generated, what other requests write between the reading of the used addresses and the
  insertion, and whether a push succeeds are arguments of the operations. The state keeps the table
  and a log of the pushes with the table each of them saw. The label of a server option (a rendered
  template) is left out.
\<close>

section \<open>Inbounds and their hosts\<close>

record Host =
  hoID :: nat
  hoAddress :: string
  hoPort :: "int option"
  hoIsDisabled :: bool
  hoPriority :: int

record NodeInfo =
  ndID :: nat
  ndName :: string
  ndIP :: string
  ndAPIPort :: int
  ndCountryCode :: string
  ndIsActive :: bool

record WireGuardSettings =
  wsSecretKey :: string
  wsMTU :: int
  wsEndpoint :: "string list"
  wsPeerPoolCIDR :: string
  wsClientDNS :: string

record Inbound =
  inID :: nat
  inNodeID :: nat
  inNode :: "NodeInfo option"
  inTag :: string
  inAddress :: string
  inPort :: int
  inProtocol :: string
  inIsDisabled :: bool
  inHosts :: "Host list"
  inWireGuard :: "WireGuardSettings option"

definition GetActiveHosts :: "Inbound \<Rightarrow> Host list" where
  "GetActiveHosts i = sort_key (\<lambda>h. (hoPriority h, hoID h)) (filter (\<lambda>h. \<not> hoIsDisabled h) (inHosts i))"

definition GetWireGuardSettingsOrDefault :: "Inbound \<Rightarrow> WireGuardSettings" where
  "GetWireGuardSettingsOrDefault i = (case inWireGuard i of
     None \<Rightarrow> \<lparr>wsSecretKey = [], wsMTU = 1420, wsEndpoint = [], wsPeerPoolCIDR = [], wsClientDNS = []\<rparr>
   | Some w \<Rightarrow> w)"

text \<open>\<open>Addr.String\<close> on an IPv6 address: the longest run of zero groups, the first of them, is cut.\<close>

definition v6_groups :: "128 word \<Rightarrow> nat list" where
  "v6_groups w = map (\<lambda>k. unat (take_bit 16 (drop_bit (16 * (7 - k)) w))) [0..<8]"

definition zero_run :: "nat list \<Rightarrow> nat \<Rightarrow> nat" where
  "zero_run gs i = length (takeWhile (\<lambda>g. g = 0) (drop i gs))"

definition zero_step :: "nat list \<Rightarrow> nat \<Rightarrow> nat \<times> nat \<Rightarrow> nat \<times> nat" where
  "zero_step gs i best =
     (let l = zero_run gs i in if l \<ge> 2 \<and> l > snd best - fst best then (i, i + l) else best)"

definition show_ipv6 :: "128 word \<Rightarrow> string" where
  "show_ipv6 w =
     (let gs = v6_groups w;
          (s, e) = fold (zero_step gs) [0..<8] (255, 255);
          join = (\<lambda>xs. join_with CHR '':'' (map hex xs))
      in if s = 255 then join gs
         else (if s = 0 then [] else join (take s gs)) @ ''::'' @ (if e \<ge> 8 then [] else join (drop e gs)))"

definition addr_String :: "addr \<Rightarrow> string" where
  "addr_String a = (case a of V4 w \<Rightarrow> show_ipv4 w
     | V6 w z \<Rightarrow> show_ipv6 w @ (if z = [] then [] else CHR ''%'' # z))"

definition WGServerIP :: "WireGuardSettings \<Rightarrow> string" where
  "WGServerIP w = (case wsEndpoint w of
     [] \<Rightarrow> []
   | e # es \<Rightarrow> (case parse_prefix e of Some p \<Rightarrow> addr_String (unmap (pfx_addr p)) | None \<Rightarrow> e))"

section \<open>Endpoints and the client file\<close>

definition inboundAddress :: "Inbound \<Rightarrow> string" where
  "inboundAddress i = (if inAddress i \<noteq> [] then inAddress i
     else case inNode i of Some n \<Rightarrow> ndIP n | None \<Rightarrow> [])"

definition clientEndpoint :: "Inbound \<Rightarrow> string" where
  "clientEndpoint i = inboundAddress i @ '':'' @ dec_int (inPort i)"

definition hostEndpoint :: "Inbound \<Rightarrow> Host \<Rightarrow> string" where
  "hostEndpoint i h =
     (let addr = (if hoAddress h = [] then inboundAddress i else hoAddress h);
          port = (case hoPort h of Some p \<Rightarrow> if p > 0 then p else inPort i | None \<Rightarrow> inPort i)
      in addr @ '':'' @ dec_int port)"

definition activeHost :: "Inbound \<Rightarrow> nat \<Rightarrow> Host option" where
  "activeHost i hostID = find (\<lambda>h. hoID h = hostID \<and> \<not> hoIsDisabled h) (inHosts i)"

datatype dev_error =
    ErrDeviceCapReached | ErrNoWGServer | ErrConfigUnavailable | ErrHostUnavailable
  | ErrNotFound | ErrMissingKeys | ErrServerKey | ErrKeyGen | ErrPool ipam_error
  | ErrDatabase string | ErrAttempts | ErrPush

definition resolveHostID :: "Inbound \<Rightarrow> nat \<Rightarrow> dev_error + nat option" where
  "resolveHostID i requested =
     (if requested = 0 then
        (case GetActiveHosts i of h # hs \<Rightarrow> Inr (Some (hoID h)) | [] \<Rightarrow> Inr None)
      else case activeHost i requested of
        Some h \<Rightarrow> Inr (Some (hoID h))
      | None \<Rightarrow> Inl ErrHostUnavailable)"

definition peerEndpoint :: "WGPeer \<Rightarrow> Inbound \<Rightarrow> string" where
  "peerEndpoint p i = (case wpHostID p of
     Some h \<Rightarrow> (case activeHost i h of Some host \<Rightarrow> hostEndpoint i host | None \<Rightarrow> clientEndpoint i)
   | None \<Rightarrow> clientEndpoint i)"

record clientConfParams =
  ccPrivateKey :: string
  ccAddress :: string
  ccDNS :: string
  ccMTU :: int
  ccServerPublicKey :: string
  ccPresharedKey :: string
  ccEndpoint :: string

definition nl :: string where "nl = [CHR 0x0A]"

definition buildClientConf :: "clientConfParams \<Rightarrow> string" where
  "buildClientConf p =
     (let p = (if ccDNS p = [] then p\<lparr>ccDNS := ''1.1.1.1''\<rparr> else p);
          p = (if ccMTU p = 0 then p\<lparr>ccMTU := 1420\<rparr> else p)
      in ''[Interface]'' @ nl
       @ ''PrivateKey = '' @ ccPrivateKey p @ nl
       @ ''Address = '' @ ccAddress p @ ''/32'' @ nl
       @ ''DNS = '' @ ccDNS p @ nl
       @ ''MTU = '' @ dec_int (ccMTU p) @ nl @ nl
       @ ''[Peer]'' @ nl
       @ ''PublicKey = '' @ ccServerPublicKey p @ nl
       @ (if ccPresharedKey p \<noteq> [] then ''PresharedKey = '' @ ccPresharedKey p @ nl else [])
       @ ''Endpoint = '' @ ccEndpoint p @ nl
       @ ''AllowedIPs = 0.0.0.0/0, ::/0'' @ nl
       @ ''PersistentKeepalive = 25'' @ nl)"

section \<open>The usecase\<close>

text \<open>
  The ports: \<open>SubReader.FindByID\<close> gives the device cap of a subscription, \<open>AccountReader\<close> the
  inbounds of its accounts, \<open>NodeInboundReader\<close> an inbound with its node and hosts, and
  \<open>wgkey.PublicKey\<close> the public key of a private one. \<open>None\<close> is an error. \<open>envUniqueText\<close> is the
  text of the database's error on a unique index.
\<close>

record dev_env =
  envMaxDevices :: "nat \<Rightarrow> int option"
  envAccounts :: "nat \<Rightarrow> Inbound option list option"
  envInbound :: "nat \<Rightarrow> Inbound option"
  envPublicKey :: "string \<Rightarrow> string option"
  envUniqueText :: string

record dev_state =
  dsTable :: wg_table
  dsPushed :: "(nat \<times> wg_table) list"

definition renderPeerConf :: "dev_env \<Rightarrow> WGPeer \<Rightarrow> Inbound \<Rightarrow> dev_error + string" where
  "renderPeerConf env p i =
     (let wg = GetWireGuardSettingsOrDefault i in
      case envPublicKey env (wsSecretKey wg) of
        None \<Rightarrow> Inl ErrServerKey
      | Some pub \<Rightarrow> Inr (buildClientConf
          \<lparr>ccPrivateKey = wpPrivateKey p, ccAddress = wpAssignedIP p, ccDNS = wsClientDNS wg,
           ccMTU = wsMTU wg, ccServerPublicKey = pub, ccPresharedKey = wpPresharedKey p,
           ccEndpoint = peerEndpoint p i\<rparr>))"

definition ownedPeer :: "nat \<Rightarrow> nat \<Rightarrow> wg_table \<Rightarrow> dev_error + WGPeer" where
  "ownedPeer subID deviceID t =
     (case wg_FindByID deviceID t of
        None \<Rightarrow> Inl ErrNotFound
      | Some p \<Rightarrow> if wpSubscriptionID p \<noteq> subID then Inl ErrNoWGServer else Inr p)"

definition usable_inbound :: "Inbound \<Rightarrow> bool" where
  "usable_inbound i \<longleftrightarrow> \<not> inIsDisabled i \<and> map lower_char (inProtocol i) = ''wireguard''
     \<and> (case inNode i of Some n \<Rightarrow> ndIsActive n | None \<Rightarrow> False)"

definition add_inbound :: "Inbound option \<Rightarrow> Inbound list \<Rightarrow> Inbound list" where
  "add_inbound oi wg = (case oi of
     None \<Rightarrow> wg
   | Some i \<Rightarrow> if \<not> usable_inbound i \<or> inID i \<in> set (map inID wg) then wg else wg @ [i])"

definition wgInboundsForSub :: "dev_env \<Rightarrow> nat \<Rightarrow> dev_error + int \<times> Inbound list" where
  "wgInboundsForSub env subID =
     (case envMaxDevices env subID of
        None \<Rightarrow> Inl ErrNotFound
      | Some maxd \<Rightarrow>
          let wg = (case envAccounts env subID of None \<Rightarrow> [] | Some as \<Rightarrow> fold add_inbound as [])
          in if wg = [] then Inl ErrNoWGServer else Inr (maxd, wg))"

record WGServerOption =
  woInboundID :: nat
  woHostID :: nat
  woNodeName :: string
  woCountry :: string
  woEndpoint :: string

definition server_options :: "Inbound \<Rightarrow> WGServerOption list" where
  "server_options i =
     (let (name, cc) = (case inNode i of Some n \<Rightarrow> (ndName n, ndCountryCode n) | None \<Rightarrow> ([], []));
          hosts = GetActiveHosts i
      in if hosts = [] then
           [\<lparr>woInboundID = inID i, woHostID = 0, woNodeName = name, woCountry = cc, woEndpoint = clientEndpoint i\<rparr>]
         else map (\<lambda>h. \<lparr>woInboundID = inID i, woHostID = hoID h, woNodeName = name, woCountry = cc,
                        woEndpoint = hostEndpoint i h\<rparr>) hosts)"

definition ListServers :: "dev_env \<Rightarrow> nat \<Rightarrow> dev_error + WGServerOption list" where
  "ListServers env subID = (case wgInboundsForSub env subID of
     Inl e \<Rightarrow> Inl e | Inr (maxd, wg) \<Rightarrow> Inr (concat (map server_options wg)))"

definition MaxDevices :: "dev_env \<Rightarrow> nat \<Rightarrow> int option" where
  "MaxDevices env subID = envMaxDevices env subID"

text \<open>
  \<open>isUniqueViolation\<close>, and the loop of \<open>allocateAndCreate\<close>: \<open>gen n\<close> are the keys the attempt
  generates, \<open>others n\<close> what other requests do to the table after it has read the used addresses.
  The search for an address always returns, so the last branch of \<open>alloc_ip\<close> is never taken.
\<close>

definition isUniqueViolation :: "string \<Rightarrow> bool" where
  "isUniqueViolation err = (let s = map lower_char err in
     contains_str s ''unique'' \<or> contains_str s ''duplicate'' \<or> contains_str s ''constraint'')"

definition alloc_ip :: "string \<Rightarrow> string \<Rightarrow> string list \<Rightarrow> ipam_error + string" where
  "alloc_ip pool serverIP used =
     (case nextFreeIP pool serverIP (\<lambda>s. s \<in> set used) of Some r \<Rightarrow> r | None \<Rightarrow> Inl PoolExhausted)"

type_synonym key_supply = "nat \<Rightarrow> string option \<times> string option"

definition new_peer ::
    "nat \<Rightarrow> nat \<Rightarrow> nat option \<Rightarrow> string \<Rightarrow> string \<Rightarrow> string \<Rightarrow> string \<Rightarrow> string \<Rightarrow> WGPeer" where
  "new_peer subID inboundID hostID label pub psk priv ip =
     \<lparr>wpID = 0, wpSubscriptionID = subID, wpInboundID = inboundID, wpHostID = hostID, wpLabel = label,
      wpPublicKey = pub, wpPresharedKey = psk, wpPrivateKey = priv, wpAssignedIP = ip,
      wpStatus = WGActive, wpUpBytes = 0, wpDownBytes = 0, wpLastSeen = None\<rparr>"

definition generate_keys :: "dev_env \<Rightarrow> string option \<times> string option \<Rightarrow> (string \<times> string \<times> string) option" where
  "generate_keys env ks = (case ks of
     (Some priv, opsk) \<Rightarrow>
       (case envPublicKey env priv of
          None \<Rightarrow> None
        | Some pub \<Rightarrow> (case opsk of None \<Rightarrow> None | Some psk \<Rightarrow> Some (priv, pub, psk)))
   | (None, _) \<Rightarrow> None)"

fun allocate_loop ::
    "dev_env \<Rightarrow> key_supply \<Rightarrow> (nat \<Rightarrow> wg_table \<Rightarrow> wg_table) \<Rightarrow> nat \<Rightarrow> nat \<Rightarrow> nat option \<Rightarrow> string
      \<Rightarrow> string \<Rightarrow> string \<Rightarrow> nat \<Rightarrow> nat \<Rightarrow> wg_table \<Rightarrow> (dev_error + WGPeer) \<times> wg_table" where
  "allocate_loop env gen others subID inboundID hostID label pool serverIP attempt 0 t = (Inl ErrAttempts, t)"
| "allocate_loop env gen others subID inboundID hostID label pool serverIP attempt (Suc left) t =
     (let used = wg_ListUsedIPs inboundID t; t = others attempt t in
      case alloc_ip pool serverIP used of
        Inl e \<Rightarrow> (Inl (ErrPool e), t)
      | Inr ip \<Rightarrow>
          (case generate_keys env (gen attempt) of
             None \<Rightarrow> (Inl ErrKeyGen, t)
           | Some (priv, pub, psk) \<Rightarrow>
               (case wg_Create (new_peer subID inboundID hostID label pub psk priv ip) t of
                  Some (p, t') \<Rightarrow> (Inr p, t')
                | None \<Rightarrow>
                    if isUniqueViolation (envUniqueText env)
                    then allocate_loop env gen others subID inboundID hostID label pool serverIP (attempt + 1) left t
                    else (Inl (ErrDatabase (envUniqueText env)), t))))"

definition allocateAndCreate ::
    "dev_env \<Rightarrow> key_supply \<Rightarrow> (nat \<Rightarrow> wg_table \<Rightarrow> wg_table) \<Rightarrow> nat \<Rightarrow> nat \<Rightarrow> nat option \<Rightarrow> string
      \<Rightarrow> string \<Rightarrow> string \<Rightarrow> wg_table \<Rightarrow> (dev_error + WGPeer) \<times> wg_table" where
  "allocateAndCreate env gen others subID inboundID hostID label pool serverIP t =
     allocate_loop env gen others subID inboundID hostID label pool serverIP 0 8 t"

record CreateDeviceInput =
  ciInboundID :: nat
  ciHostID :: nat
  ciLabel :: string

definition push :: "bool \<Rightarrow> nat \<Rightarrow> dev_state \<Rightarrow> dev_state" where
  "push ok node s = (if ok then s\<lparr>dsPushed := dsPushed s @ [(node, dsTable s)]\<rparr> else s)"

definition pick_target :: "nat \<Rightarrow> Inbound list \<Rightarrow> Inbound option" where
  "pick_target inboundID wg =
     (case wg of
        i # is \<Rightarrow> if inboundID = 0 then Some i else find (\<lambda>i. inID i = inboundID) wg
      | [] \<Rightarrow> None)"

text \<open>The steps of \<open>CreateDevice\<close> before it writes: the inbound, the host and the label.\<close>

definition device_plan ::
    "dev_env \<Rightarrow> nat \<Rightarrow> CreateDeviceInput \<Rightarrow> wg_table \<Rightarrow> dev_error + Inbound \<times> nat option \<times> string" where
  "device_plan env subID input t =
     (case wgInboundsForSub env subID of
        Inl e \<Rightarrow> Inl e
      | Inr (limit, wg) \<Rightarrow>
          (case pick_target (ciInboundID input) wg of
             None \<Rightarrow> Inl ErrNoWGServer
           | Some target \<Rightarrow>
               (case resolveHostID target (ciHostID input) of
                  Inl e \<Rightarrow> Inl e
                | Inr hostID \<Rightarrow>
                    let count = wg_CountActiveBySubscription subID t in
                    if limit > 0 \<and> int count \<ge> limit then Inl ErrDeviceCapReached
                    else (case envInbound env (inID target) of
                       None \<Rightarrow> Inl ErrNotFound
                     | Some full \<Rightarrow>
                         let ws = GetWireGuardSettingsOrDefault full in
                         if wsSecretKey ws = [] \<or> wsPeerPoolCIDR ws = [] then Inl ErrMissingKeys
                         else if envPublicKey env (wsSecretKey ws) = None then Inl ErrServerKey
                         else Inr (full, hostID,
                           if ciLabel input = [] then ''Device '' @ dec (count + 1) else ciLabel input)))))"

definition CreateDevice ::
    "dev_env \<Rightarrow> key_supply \<Rightarrow> (nat \<Rightarrow> wg_table \<Rightarrow> wg_table) \<Rightarrow> bool \<Rightarrow> nat \<Rightarrow> CreateDeviceInput
      \<Rightarrow> dev_state \<Rightarrow> (dev_error + WGPeer \<times> string) \<times> dev_state" where
  "CreateDevice env gen others push_ok subID input s =
     (case device_plan env subID input (dsTable s) of
        Inl e \<Rightarrow> (Inl e, s)
      | Inr (full, hostID, label) \<Rightarrow>
          let ws = GetWireGuardSettingsOrDefault full in
          (case allocateAndCreate env gen others subID (inID full) hostID label
                  (wsPeerPoolCIDR ws) (WGServerIP ws) (dsTable s) of
             (Inl e, t) \<Rightarrow> (Inl e, s\<lparr>dsTable := t\<rparr>)
           | (Inr p, t) \<Rightarrow>
               let s = s\<lparr>dsTable := t\<rparr> in
               if \<not> push_ok then (Inl ErrPush, s\<lparr>dsTable := wg_Delete (wpID p) t\<rparr>)
               else let s = push push_ok (inNodeID full) s in
                 (case renderPeerConf env p full of
                    Inl e \<Rightarrow> (Inl e, s)
                  | Inr conf \<Rightarrow> (Inr (p, conf), s))))"

definition DeviceConfig :: "dev_env \<Rightarrow> nat \<Rightarrow> nat \<Rightarrow> dev_state \<Rightarrow> dev_error + WGPeer \<times> string" where
  "DeviceConfig env subID deviceID s =
     (case ownedPeer subID deviceID (dsTable s) of
        Inl e \<Rightarrow> Inl e
      | Inr p \<Rightarrow>
          if wpPrivateKey p = [] then Inl ErrConfigUnavailable
          else (case envInbound env (wpInboundID p) of
             None \<Rightarrow> Inl ErrNotFound
           | Some full \<Rightarrow> (case renderPeerConf env p full of Inl e \<Rightarrow> Inl e | Inr conf \<Rightarrow> Inr (p, conf))))"

definition RotateDevice ::
    "dev_env \<Rightarrow> string option \<times> string option \<Rightarrow> bool \<Rightarrow> nat \<Rightarrow> nat \<Rightarrow> dev_state
      \<Rightarrow> (dev_error + WGPeer \<times> string) \<times> dev_state" where
  "RotateDevice env ks push_ok subID deviceID s =
     (case ownedPeer subID deviceID (dsTable s) of
        Inl e \<Rightarrow> (Inl e, s)
      | Inr p \<Rightarrow>
          (case envInbound env (wpInboundID p) of
             None \<Rightarrow> (Inl ErrNotFound, s)
           | Some full \<Rightarrow>
               (case generate_keys env ks of
                  None \<Rightarrow> (Inl ErrKeyGen, s)
                | Some (priv, pub, psk) \<Rightarrow>
                    let p = p\<lparr>wpPublicKey := pub, wpPresharedKey := psk, wpPrivateKey := priv, wpStatus := WGActive\<rparr> in
                    (case wg_Update p (dsTable s) of
                       None \<Rightarrow> (Inl (ErrDatabase (envUniqueText env)), s)
                     | Some t \<Rightarrow>
                         let s = push push_ok (inNodeID full) (s\<lparr>dsTable := t\<rparr>) in
                         if \<not> push_ok then (Inl ErrPush, s)
                         else (case renderPeerConf env p full of
                            Inl e \<Rightarrow> (Inl e, s)
                          | Inr conf \<Rightarrow> (Inr (p, conf), s))))))"

definition RemoveDevice :: "dev_env \<Rightarrow> bool \<Rightarrow> nat \<Rightarrow> nat \<Rightarrow> dev_state \<Rightarrow> dev_error option \<times> dev_state" where
  "RemoveDevice env push_ok subID deviceID s =
     (case ownedPeer subID deviceID (dsTable s) of
        Inl e \<Rightarrow> (Some e, s)
      | Inr p \<Rightarrow>
          (case envInbound env (wpInboundID p) of
             None \<Rightarrow> (Some ErrNotFound, s)
           | Some full \<Rightarrow>
               let s = push push_ok (inNodeID full) (s\<lparr>dsTable := wg_Delete (wpID p) (dsTable s)\<rparr>)
               in (if push_ok then None else Some ErrPush, s)))"

definition setStatusAndPush :: "dev_env \<Rightarrow> (nat \<Rightarrow> bool) \<Rightarrow> nat \<Rightarrow> WGPeerStatus \<Rightarrow> dev_state \<Rightarrow> dev_state" where
  "setStatusAndPush env push_ok subID st s =
     (let peers = wg_ListBySubscription subID (dsTable s);
          s = s\<lparr>dsTable := wg_SetStatusBySubscription subID st (dsTable s)\<rparr>;
          nodeIDs = remdups (map inNodeID (List.map_filter (\<lambda>p. envInbound env (wpInboundID p)) peers))
      in fold (\<lambda>n. push (push_ok n) n) nodeIDs s)"

definition DeactivateSubscription :: "dev_env \<Rightarrow> (nat \<Rightarrow> bool) \<Rightarrow> nat \<Rightarrow> dev_state \<Rightarrow> dev_state" where
  "DeactivateSubscription env push_ok subID s = setStatusAndPush env push_ok subID WGDisabled s"

definition ActivateSubscription :: "dev_env \<Rightarrow> (nat \<Rightarrow> bool) \<Rightarrow> nat \<Rightarrow> dev_state \<Rightarrow> dev_state" where
  "ActivateSubscription env push_ok subID s = setStatusAndPush env push_ok subID WGActive s"

section \<open>The peers a node is told about\<close>

record WGRenderPeer =
  rpPublicKey :: string
  rpPresharedKey :: string
  rpAllowedIP :: string
  rpSubscriptionID :: nat
  rpPeerID :: nat
  rpInboundID :: nat

text \<open>The access resolver answers for a list of subscriptions, or fails; it may not be set at all.\<close>

type_synonym access_resolver = "nat list \<Rightarrow> (nat \<times> bool) list option"

definition filterRevoked :: "access_resolver option \<Rightarrow> WGPeer list \<Rightarrow> WGPeer list" where
  "filterRevoked access rows =
     (case access of
        None \<Rightarrow> rows
      | Some resolve \<Rightarrow>
          let ids = rev (remdups (rev (filter (\<lambda>i. i \<noteq> 0) (map wpSubscriptionID rows)))) in
          if rows = [] \<or> ids = [] then rows
          else (case resolve ids of
             None \<Rightarrow> rows
           | Some allowed \<Rightarrow> filter (\<lambda>p. map_of allowed (wpSubscriptionID p) \<noteq> Some False) rows))"

definition ActivePeersByInbound :: "access_resolver option \<Rightarrow> nat \<Rightarrow> wg_table \<Rightarrow> WGRenderPeer list" where
  "ActivePeersByInbound access inboundID t =
     map (\<lambda>p. \<lparr>rpPublicKey = wpPublicKey p, rpPresharedKey = wpPresharedKey p, rpAllowedIP = wpAssignedIP p,
               rpSubscriptionID = wpSubscriptionID p, rpPeerID = wpID p, rpInboundID = wpInboundID p\<rparr>)
       (filterRevoked access (wg_ListActiveByInbound inboundID t))"

section \<open>The address plan\<close>

text \<open>
  What the table promises: keys below the next one, no two rows with one key or one public key, no
  two peers of an inbound with one address, and every address a host of the pool of its inbound
  that is not the server's own.
\<close>

definition address_ok :: "dev_env \<Rightarrow> WGPeer \<Rightarrow> bool" where
  "address_ok env p \<longleftrightarrow> (case envInbound env (wpInboundID p) of
     None \<Rightarrow> False
   | Some full \<Rightarrow> let ws = GetWireGuardSettingsOrDefault full in
       (\<exists>q w. parse_prefix (wsPeerPoolCIDR ws) = Some q \<and> pool_host q w \<and> wpAssignedIP p = show_ipv4 w)
       \<and> wpAssignedIP p \<noteq> WGServerIP ws)"

definition table_ok :: "dev_env \<Rightarrow> wg_table \<Rightarrow> bool" where
  "table_ok env t \<longleftrightarrow> distinct (map wpID (wgRows t)) \<and> list_all (\<lambda>p. wpID p < wgNext t) (wgRows t)
     \<and> distinct (map wpPublicKey (wgRows t)) \<and> distinct (map (\<lambda>p. (wpInboundID p, wpAssignedIP p)) (wgRows t))
     \<and> list_all (address_ok env) (wgRows t)"

text \<open>The reader of inbounds gives the inbound that was asked for.\<close>

definition env_ok :: "dev_env \<Rightarrow> bool" where
  "env_ok env \<longleftrightarrow> (\<forall>i f. envInbound env i = Some f \<longrightarrow> inID f = i)"

lemma table_okI:
  assumes "map wpID rows = map wpID (wgRows t)" "distinct (map wpPublicKey rows)"
    "map (\<lambda>p. (wpInboundID p, wpAssignedIP p)) rows = map (\<lambda>p. (wpInboundID p, wpAssignedIP p)) (wgRows t)"
    "list_all (\<lambda>p. wpID p < wgNext t) rows" "list_all (address_ok env) rows" "table_ok env t"
  shows "table_ok env (t\<lparr>wgRows := rows\<rparr>)"
  using assms by (simp add: table_ok_def)

lemma address_ok_cong:
  "wpInboundID q = wpInboundID p \<Longrightarrow> wpAssignedIP q = wpAssignedIP p \<Longrightarrow> address_ok env q = address_ok env p"
  by (simp add: address_ok_def split: option.split)

text \<open>Writes that leave the identities alone.\<close>

lemma table_ok_map [inv_intros]:
  assumes "table_ok env t"
    and "\<And>p. p \<in> set (wgRows t) \<Longrightarrow> wpID (f p) = wpID p \<and> wpPublicKey (f p) = wpPublicKey p
      \<and> wpInboundID (f p) = wpInboundID p \<and> wpAssignedIP (f p) = wpAssignedIP p"
  shows "table_ok env (t\<lparr>wgRows := map f (wgRows t)\<rparr>)"
proof -
  have "map wpPublicKey (map f (wgRows t)) = map wpPublicKey (wgRows t)" using assms(2) by simp
  then have "distinct (map wpPublicKey (map f (wgRows t)))" using assms(1) unfolding table_ok_def by metis
  moreover have "address_ok env (f p)" if "p \<in> set (wgRows t)" for p
    using that assms by (simp add: table_ok_def list_all_iff address_ok_cong [of "f p" p])
  ultimately show ?thesis using assms by (intro table_okI) (simp_all add: table_ok_def list_all_iff)
qed

lemma table_ok_SetStatus [inv_intros]: "table_ok env t \<Longrightarrow> table_ok env (wg_SetStatusBySubscription i st t)"
  unfolding wg_SetStatusBySubscription_def by (rule table_ok_map) simp_all

lemma table_ok_AddUsage [inv_intros]: "table_ok env t \<Longrightarrow> table_ok env (wg_AddUsage i up down t)"
  unfolding wg_AddUsage_def by (rule table_ok_map) simp_all

lemma table_ok_Touch [inv_intros]: "table_ok env t \<Longrightarrow> table_ok env (wg_TouchLastSeen i seen t)"
  unfolding wg_TouchLastSeen_def by (rule table_ok_map) simp_all

lemma table_ok_statement:
  "table_ok env \<lparr>wgRows = rows, wgNext = n\<rparr> \<Longrightarrow> table_ok env \<lparr>wgRows = map (peer_set ds) rows, wgNext = n\<rparr>"
  using table_ok_map [of env "\<lparr>wgRows = rows, wgNext = n\<rparr>" "peer_set ds"]
  by (simp add: peer_set_def Let_def)

lemma table_ok_AddUsageBatch [inv_intros]: "table_ok env t \<Longrightarrow> table_ok env (AddUsageBatch ds t)"
proof -
  have "table_ok env \<lparr>wgRows = rows, wgNext = n\<rparr> \<Longrightarrow>
      table_ok env \<lparr>wgRows = fold (\<lambda>b. map (peer_set (map f b))) bs rows, wgNext = n\<rparr>" for f bs rows n
    by (induction bs arbitrary: rows) (simp_all add: table_ok_statement)
  then show "table_ok env t \<Longrightarrow> table_ok env (AddUsageBatch ds t)"
    by (cases t) (simp add: AddUsageBatch_def send_batches_def Let_def)
qed

lemma table_ok_Delete [inv_intros]: "table_ok env t \<Longrightarrow> table_ok env (wg_Delete i t)"
  by (auto simp: table_ok_def wg_Delete_def list_all_iff distinct_map_filter)

lemma table_ok_Create:
  assumes "table_ok env t" "address_ok env p" "wg_Create p t = Some (q, t')"
  shows "table_ok env t'"
proof -
  have t': "t' = \<lparr>wgRows = wgRows t @ [p\<lparr>wpID := wgNext t\<rparr>], wgNext = wgNext t + 1\<rparr>"
    and free: "\<not> list_ex (wg_conflict p) (wgRows t)"
    using assms(3) by (auto simp: wg_Create_def Let_def split: if_splits)
  have "address_ok env (p\<lparr>wpID := wgNext t\<rparr>)" using assms(2) address_ok_cong [of "p\<lparr>wpID := wgNext t\<rparr>" p] by simp
  moreover have "wgNext t \<notin> wpID ` set (wgRows t)" using assms(1) by (auto simp: table_ok_def list_all_iff)
  moreover have "wpPublicKey p \<notin> wpPublicKey ` set (wgRows t)"
    "(wpInboundID p, wpAssignedIP p) \<notin> (\<lambda>p. (wpInboundID p, wpAssignedIP p)) ` set (wgRows t)"
    using free by (auto simp: list_ex_iff wg_conflict_def)
  ultimately show ?thesis using assms(1) unfolding t'
    by (auto simp: table_ok_def list_all_iff less_Suc_eq)
qed

lemma wg_FindByID_Some: "wg_FindByID i t = Some p \<Longrightarrow> p \<in> set (wgRows t) \<and> wpID p = i"
  by (auto simp: wg_FindByID_def find_Some_iff)

lemma same_id: "distinct (map wpID rows) \<Longrightarrow> p \<in> set rows \<Longrightarrow> q \<in> set rows \<Longrightarrow> wpID p = wpID q \<Longrightarrow> p = q"
  by (simp add: distinct_map inj_on_def)

text \<open>Rotation writes a row back with new keys, where it was.\<close>

lemma wg_Update_owned:
  assumes "table_ok env t" "p \<in> set (wgRows t)" "wg_Update q t = Some t'"
    and "wpID q = wpID p" "wpInboundID q = wpInboundID p" "wpAssignedIP q = wpAssignedIP p"
  shows "t' = t\<lparr>wgRows := map (\<lambda>r. if wpID r = wpID p then q else r) (wgRows t)\<rparr> \<and> table_ok env t'"
proof -
  have ex: "list_ex (\<lambda>r. wpID r = wpID q) (wgRows t)" using assms(2,4) by (auto simp: list_ex_iff)
  then have t': "t' = t\<lparr>wgRows := map (\<lambda>r. if wpID r = wpID p then q else r) (wgRows t)\<rparr>"
    and free: "\<not> list_ex (\<lambda>r. wpID r \<noteq> wpID q \<and> wg_conflict q r) (wgRows t)"
    using assms(3,4) by (auto simp: wg_Update_def split: if_splits)
  let ?f = "\<lambda>r. if wpID r = wpID p then q else r"
  have dist: "distinct (map wpID (wgRows t))" using assms(1) by (simp add: table_ok_def)
  have same: "r = p" if "r \<in> set (wgRows t)" "wpID r = wpID p" for r
    using same_id [OF dist that(1) assms(2) that(2)] .
  have ids: "map wpID (map ?f (wgRows t)) = map wpID (wgRows t)" using assms(4) by simp
  have "wpPublicKey q \<notin> wpPublicKey ` {r \<in> set (wgRows t). wpID r \<noteq> wpID p}"
    using free assms(4) by (auto simp: list_ex_iff wg_conflict_def)
  moreover have "inj_on wpPublicKey {r \<in> set (wgRows t). wpID r \<noteq> wpID p}"
    using assms(1) by (auto simp: table_ok_def distinct_map intro: inj_on_subset)
  ultimately have "inj_on wpPublicKey (insert q {r \<in> set (wgRows t). wpID r \<noteq> wpID p})" by auto
  then have "inj_on wpPublicKey (?f ` set (wgRows t))" by (rule inj_on_subset) auto
  moreover have "distinct (map ?f (wgRows t))" 
    by (rule conjunct1 [OF iffD1 [OF distinct_map, of wpID]]) (simp only: ids dist)
  ultimately have pubs: "distinct (map wpPublicKey (map ?f (wgRows t)))"
    by (simp only: distinct_map [of wpPublicKey] set_map simp_thms)
  have "address_ok env q" using assms(1,2,5,6) by (auto simp: table_ok_def list_all_iff address_ok_cong [of q p])
  moreover have "wpID q < wgNext t" using assms(1,2,4) by (auto simp: table_ok_def list_all_iff)
  ultimately have all: "list_all (address_ok env) (map ?f (wgRows t))" "list_all (\<lambda>p. wpID p < wgNext t) (map ?f (wgRows t))"
    using assms(1) by (auto simp: table_ok_def list_all_iff)
  have "map (\<lambda>p. (wpInboundID p, wpAssignedIP p)) (map ?f (wgRows t)) = map (\<lambda>p. (wpInboundID p, wpAssignedIP p)) (wgRows t)"
    using same assms(5,6) by auto
  then show ?thesis unfolding t' using table_okI [OF ids pubs _ all(2,1) assms(1)] by simp
qed

section \<open>Allocation\<close>

lemma alloc_ip_Inr:
  assumes "alloc_ip pool serverIP used = Inr ip"
  obtains q where "parse_prefix pool = Some q" "free_hosts q serverIP (\<lambda>s. s \<in> set used) \<noteq> {}"
    "ip = show_ipv4 (Min (free_hosts q serverIP (\<lambda>s. s \<in> set used)))"
  using assms unfolding alloc_ip_def nextFreeIP_result by (auto split: option.splits if_splits)

lemma free_host_mem:
  assumes "free_hosts q serverIP used \<noteq> {}"
  shows "pool_host q (Min (free_hosts q serverIP used))" "show_ipv4 (Min (free_hosts q serverIP used)) \<noteq> serverIP"
    "\<not> used (show_ipv4 (Min (free_hosts q serverIP used)))"
proof -
  have "Min (free_hosts q serverIP used) \<in> free_hosts q serverIP used" using assms by simp
  then show "pool_host q (Min (free_hosts q serverIP used))"
    "show_ipv4 (Min (free_hosts q serverIP used)) \<noteq> serverIP"
    "\<not> used (show_ipv4 (Min (free_hosts q serverIP used)))"
    by (simp_all add: free_hosts_def)
qed

text \<open>An address of the pool of inbound \<open>full\<close> makes a well-placed peer.\<close>

lemma new_peer_address:
  assumes "env_ok env" "envInbound env i = Some full"
    and "alloc_ip (wsPeerPoolCIDR (GetWireGuardSettingsOrDefault full))
           (WGServerIP (GetWireGuardSettingsOrDefault full)) used = Inr ip"
  shows "address_ok env (new_peer subID (inID full) hostID label pub psk priv ip)"
proof -
  have "inID full = i" using assms(1,2) by (simp add: env_ok_def)
  moreover obtain q where q: "parse_prefix (wsPeerPoolCIDR (GetWireGuardSettingsOrDefault full)) = Some q"
    "free_hosts q (WGServerIP (GetWireGuardSettingsOrDefault full)) (\<lambda>s. s \<in> set used) \<noteq> {}"
    "ip = show_ipv4 (Min (free_hosts q (WGServerIP (GetWireGuardSettingsOrDefault full)) (\<lambda>s. s \<in> set used)))"
    using assms(3) by (rule alloc_ip_Inr)
  ultimately show ?thesis
    using assms(2) free_host_mem [OF q(2)] unfolding address_ok_def q(3) by (auto simp: new_peer_def Let_def q(1))
qed

text \<open>What other requests may do between the two halves of an attempt.\<close>

definition rely :: "dev_env \<Rightarrow> (nat \<Rightarrow> wg_table \<Rightarrow> wg_table) \<Rightarrow> bool" where
  "rely env others \<longleftrightarrow> (\<forall>n t. table_ok env t \<longrightarrow> table_ok env (others n t))"

lemma allocate_loop_ok:
  assumes "env_ok env" "envInbound env i = Some full" "rely env others"
    "ws = GetWireGuardSettingsOrDefault full" "table_ok env t"
  shows "table_ok env (snd (allocate_loop env gen others subID (inID full) hostID label
    (wsPeerPoolCIDR ws) (WGServerIP ws) attempt left t))"
  using assms(5)
proof (induction left arbitrary: attempt t)
  case (Suc left)
  then have "table_ok env (others attempt t)" using assms(3) by (simp add: rely_def)
  then show ?case using Suc.IH
    by (auto simp: Let_def assms(4) split: sum.splits option.splits
      intro: table_ok_Create [OF _ new_peer_address [OF assms(1,2)]])
qed simp

text \<open>On its own, an attempt meets no unique index but that of the public keys.\<close>

abbreviation alone :: "nat \<Rightarrow> wg_table \<Rightarrow> wg_table" where
  "alone \<equiv> \<lambda>n t. t"

lemma allocate_alone:
  "case allocate_loop env gen alone subID inboundID hostID label pool serverIP attempt left t of
     (Inl e, t') \<Rightarrow> t' = t
   | (Inr p, t') \<Rightarrow> (\<exists>pub psk priv ip. p = (new_peer subID inboundID hostID label pub psk priv ip)\<lparr>wpID := wgNext t\<rparr>
       \<and> envPublicKey env priv = Some pub \<and> alloc_ip pool serverIP (wg_ListUsedIPs inboundID t) = Inr ip
       \<and> t' = \<lparr>wgRows = wgRows t @ [p], wgNext = wgNext t + 1\<rparr>)"
proof (induction left arbitrary: attempt)
  case (Suc left)
  show ?case
  proof (cases "alloc_ip pool serverIP (wg_ListUsedIPs inboundID t)")
    case (Inr ip)
    note ip = this
    show ?thesis
    proof (cases "generate_keys env (gen attempt)")
      case (Some k)
      then obtain priv pub psk where k: "k = (priv, pub, psk)" "envPublicKey env priv = Some pub"
        by (cases k) (auto simp: generate_keys_def split: prod.splits option.splits)
      show ?thesis
      proof (cases "wg_Create (new_peer subID inboundID hostID label pub psk priv ip) t")
        case None
        then show ?thesis using Suc.IH [of "Suc attempt"] by (simp add: ip Some k)
      next
        case made: (Some pt)
        then have "pt = ((new_peer subID inboundID hostID label pub psk priv ip)\<lparr>wpID := wgNext t\<rparr>,
            \<lparr>wgRows = wgRows t @ [(new_peer subID inboundID hostID label pub psk priv ip)\<lparr>wpID := wgNext t\<rparr>],
             wgNext = wgNext t + 1\<rparr>)"
          by (simp add: wg_Create_def Let_def split: if_splits)
        then show ?thesis using k made by (auto simp: ip Some)
      qed
    qed (simp add: ip)
  qed simp
qed simp

section \<open>Every operation keeps the address plan\<close>

lemma dsTable_push [simp]: "dsTable (push ok n s) = dsTable s"
  by (simp add: push_def)

lemma dsTable_pushes [simp]: "dsTable (fold (\<lambda>n. push (ok n) n) ns s) = dsTable s"
  by (induction ns arbitrary: s) simp_all

lemma device_plan_Inr:
  assumes "device_plan env subID input t = Inr (full, hostID, label)"
  obtains limit wg target where "wgInboundsForSub env subID = Inr (limit, wg)"
    "pick_target (ciInboundID input) wg = Some target" "resolveHostID target (ciHostID input) = Inr hostID"
    "envInbound env (inID target) = Some full" "limit > 0 \<Longrightarrow> int (wg_CountActiveBySubscription subID t) < limit"
    "envPublicKey env (wsSecretKey (GetWireGuardSettingsOrDefault full)) \<noteq> None"
  using assms unfolding device_plan_def
  by (auto simp: Let_def split: sum.splits prod.splits option.splits if_splits)

lemma CreateDevice_ok [inv_intros]:
  assumes "env_ok env" "rely env others" "table_ok env (dsTable s)"
  shows "table_ok env (dsTable (snd (CreateDevice env gen others ok subID input s)))"
proof (cases "device_plan env subID input (dsTable s)")
  case (Inl e)
  then show ?thesis using assms by (simp add: CreateDevice_def)
next
  case (Inr plan)
  obtain full hostID label where plan: "plan = (full, hostID, label)" by (cases plan) auto
  obtain target :: Inbound where full: "envInbound env (inID target) = Some full"
    using Inr unfolding plan by (rule device_plan_Inr)
  let ?ws = "GetWireGuardSettingsOrDefault full"
  let ?a = "allocateAndCreate env gen others subID (inID full) hostID label (wsPeerPoolCIDR ?ws) (WGServerIP ?ws) (dsTable s)"
  obtain r t where a: "?a = (r, t)" by fastforce
  then have t: "table_ok env t"
    using allocate_loop_ok [OF assms(1) full assms(2) refl assms(3), of gen subID hostID label 0 8]
    by (simp add: allocateAndCreate_def)
  show ?thesis
    by (cases r) (simp_all add: CreateDevice_def Inr plan Let_def a t table_ok_Delete split: sum.split)
qed

lemma ownedPeer_Inr: "ownedPeer subID i t = Inr p \<Longrightarrow> p \<in> set (wgRows t) \<and> wpID p = i \<and> wpSubscriptionID p = subID"
  using wg_FindByID_Some by (auto simp: ownedPeer_def split: option.splits if_splits)

text \<open>What rotation and removal do to the table.\<close>

lemma RotateDevice_table:
  assumes "table_ok env (dsTable s)"
  shows "dsTable (snd (RotateDevice env ks ok subID i s)) = dsTable s \<or>
    (\<exists>p q. ownedPeer subID i (dsTable s) = Inr p \<and> wpSubscriptionID q = subID
       \<and> dsTable (snd (RotateDevice env ks ok subID i s)) =
         (dsTable s)\<lparr>wgRows := map (\<lambda>r. if wpID r = wpID p then q else r) (wgRows (dsTable s))\<rparr>
       \<and> table_ok env (dsTable (snd (RotateDevice env ks ok subID i s))))"
proof (cases "ownedPeer subID i (dsTable s)")
  case (Inr p)
  note p = ownedPeer_Inr [OF Inr]
  have upd: "t = (dsTable s)\<lparr>wgRows := map (\<lambda>r. if wpID r = wpID p then q else r) (wgRows (dsTable s))\<rparr> \<and> table_ok env t"
    if "wg_Update q (dsTable s) = Some t" "q = p\<lparr>wpPublicKey := pub, wpPresharedKey := psk, wpPrivateKey := priv, wpStatus := WGActive\<rparr>"
    for q t pub psk priv
    by (rule wg_Update_owned [OF assms conjunct1 [OF p] that(1)]) (simp_all add: that(2))
  show ?thesis
  proof (cases "dsTable (snd (RotateDevice env ks ok subID i s)) = dsTable s")
    case False
    then obtain full priv pub psk t where "envInbound env (wpInboundID p) = Some full"
        "generate_keys env ks = Some (priv, pub, psk)"
        and t: "wg_Update (p\<lparr>wpPublicKey := pub, wpPresharedKey := psk, wpPrivateKey := priv, wpStatus := WGActive\<rparr>) (dsTable s) = Some t"
        "dsTable (snd (RotateDevice env ks ok subID i s)) = t"
      by (auto simp: RotateDevice_def Inr Let_def split: option.splits prod.splits sum.splits if_splits)
    let ?q = "p\<lparr>wpPublicKey := pub, wpPresharedKey := psk, wpPrivateKey := priv, wpStatus := WGActive\<rparr>"
    have "wpSubscriptionID ?q = subID" using p by simp
    then show ?thesis using upd [OF t(1) refl] Inr unfolding t(2) by blast
  qed simp
qed (simp add: RotateDevice_def)

lemma RemoveDevice_table:
  "dsTable (snd (RemoveDevice env ok subID i s)) = dsTable s \<or>
    (\<exists>p. ownedPeer subID i (dsTable s) = Inr p \<and> dsTable (snd (RemoveDevice env ok subID i s)) = wg_Delete (wpID p) (dsTable s))"
  by (auto simp: RemoveDevice_def Let_def split: sum.splits option.splits)

lemma setStatus_table [simp]:
  "dsTable (setStatusAndPush env ok subID st s) = wg_SetStatusBySubscription subID st (dsTable s)"
  by (simp add: setStatusAndPush_def Let_def)

text \<open>The requests a subscription can make, and the hooks of its lifecycle.\<close>

datatype dev_op =
    OpCreate key_supply bool CreateDeviceInput
  | OpRotate "string option \<times> string option" bool nat
  | OpRemove bool nat
  | OpDeactivate "nat \<Rightarrow> bool"
  | OpActivate "nat \<Rightarrow> bool"

fun run_op :: "dev_env \<Rightarrow> (nat \<Rightarrow> wg_table \<Rightarrow> wg_table) \<Rightarrow> nat \<Rightarrow> dev_op \<Rightarrow> dev_state \<Rightarrow> dev_state" where
  "run_op env others subID (OpCreate gen ok input) s = snd (CreateDevice env gen others ok subID input s)"
| "run_op env others subID (OpRotate ks ok i) s = snd (RotateDevice env ks ok subID i s)"
| "run_op env others subID (OpRemove ok i) s = snd (RemoveDevice env ok subID i s)"
| "run_op env others subID (OpDeactivate ok) s = DeactivateSubscription env ok subID s"
| "run_op env others subID (OpActivate ok) s = ActivateSubscription env ok subID s"

lemma run_op_ok [inv_intros]:
  assumes "env_ok env" "rely env others" "table_ok env (dsTable s)"
  shows "table_ok env (dsTable (run_op env others subID op s))"
proof (cases op)
  case (OpCreate gen ok input)
  then show ?thesis using CreateDevice_ok [OF assms] by simp
next
  case (OpRotate ks ok i)
  then show ?thesis using RotateDevice_table [OF assms(3), of ks ok subID i] assms(3) by auto
next
  case (OpRemove ok i)
  then show ?thesis using RemoveDevice_table [of env ok subID i s] assms(3) table_ok_Delete by auto
qed (simp_all add: DeactivateSubscription_def ActivateSubscription_def table_ok_SetStatus assms(3))

text \<open>
  A run of the system: requests of any subscriptions, one of which may find that others have
  written in between, and the sweeps that add traffic.
\<close>

inductive devices_run :: "dev_env \<Rightarrow> dev_state \<Rightarrow> bool" for env where
  dr_start: "devices_run env \<lparr>dsTable = \<lparr>wgRows = [], wgNext = 1\<rparr>, dsPushed = []\<rparr>"
| dr_request: "devices_run env s \<Longrightarrow> rely env others \<Longrightarrow> devices_run env (run_op env others subID op s)"
| dr_usage: "devices_run env s \<Longrightarrow> devices_run env (s\<lparr>dsTable := wg_AddUsage i up down (dsTable s)\<rparr>)"
| dr_touch: "devices_run env s \<Longrightarrow> devices_run env (s\<lparr>dsTable := wg_TouchLastSeen i seen (dsTable s)\<rparr>)"
| dr_batch: "devices_run env s \<Longrightarrow> devices_run env (s\<lparr>dsTable := AddUsageBatch ds (dsTable s)\<rparr>)"

lemma devices_run_ok: "devices_run env s \<Longrightarrow> env_ok env \<Longrightarrow> table_ok env (dsTable s)"
proof (induction rule: devices_run.induct)
  case dr_start
  then show ?case by (simp add: table_ok_def)
qed (simp_all add: inv_intros)

section \<open>Properties\<close>

lemma filterRevoked_subset: "\<exists>P. filterRevoked access rows = filter P rows"
proof -
  have "\<exists>P. rows = filter P rows" by (rule exI [of _ "\<lambda>p. True"]) simp
  then show ?thesis by (auto simp: filterRevoked_def Let_def split: option.splits)
qed

lemma distinct_rendered:
  assumes "distinct (map f (filter (\<lambda>p. wpInboundID p = i) (wgRows t)))"
  shows "distinct (map f (filterRevoked access (wg_ListActiveByInbound i t)))"
proof -
  obtain P where P: "filterRevoked access (wg_ListActiveByInbound i t) = filter P (wg_ListActiveByInbound i t)"
    using filterRevoked_subset by blast
  have "distinct (map f (filter (\<lambda>p. wpInboundID p = i \<and> wpStatus p = WGActive) (wgRows t)))"
    using distinct_map_filter [OF assms, of "\<lambda>p. wpStatus p = WGActive"] by (simp add: conj_commute)
  then have "distinct (map f (wg_ListActiveByInbound i t))"
    by (simp add: wg_ListActiveByInbound_def distinct_map)
  then show ?thesis unfolding P by (rule distinct_map_filter)
qed

lemma distinct_pairs_fst:
  "distinct (map (\<lambda>p. (g p, f p)) xs) \<Longrightarrow> distinct (map f (filter (\<lambda>p. g p = i) xs))"
  by (induction xs) (auto simp: image_iff)

text \<open>
  C38. In every run of device requests of any subscriptions, with other requests writing between
  the two halves of an allocation and sweeps adding traffic, the peer table keeps its address plan:
  every peer's address is a host of the pool of its inbound and not the server's, and what a node
  is told about an inbound never has two peers with one address or one public key.
\<close>

theorem devices_keep_the_address_plan:
  assumes "devices_run env s" "env_ok env"
  shows "table_ok env (dsTable s)
    \<and> distinct (map rpAllowedIP (ActivePeersByInbound access i (dsTable s)))
    \<and> distinct (map rpPublicKey (ActivePeersByInbound access i (dsTable s)))"
proof -
  have ok: "table_ok env (dsTable s)" using assms by (rule devices_run_ok)
  then have "distinct (map (\<lambda>p. (wpInboundID p, wpAssignedIP p)) (wgRows (dsTable s)))"
    "distinct (map wpPublicKey (wgRows (dsTable s)))" by (simp_all add: table_ok_def)
  then have "distinct (map wpAssignedIP (filterRevoked access (wg_ListActiveByInbound i (dsTable s))))"
    "distinct (map wpPublicKey (filterRevoked access (wg_ListActiveByInbound i (dsTable s))))"
    by (auto intro: distinct_rendered distinct_pairs_fst distinct_map_filter)
  then show ?thesis using ok by (simp add: ActivePeersByInbound_def comp_def)
qed

text \<open>The two ways a creation ends when no other request writes in between.\<close>

lemma CreateDevice_cases:
  assumes "env_ok env" "table_ok env (dsTable s)"
    and "CreateDevice env gen alone push_ok subID input s = (r, s')"
  obtains (failed) e where "r = Inl e" "wgRows (dsTable s') = wgRows (dsTable s)" "dsPushed s' = dsPushed s"
  | (made) p conf full limit pub where "r = Inr (p, conf)" "wgRows (dsTable s') = wgRows (dsTable s) @ [p]"
      "wpID p = wgNext (dsTable s)" "wpSubscriptionID p = subID" "wpStatus p = WGActive"
      "envPublicKey env (wpPrivateKey p) = Some pub" "envInbound env (wpInboundID p) = Some full"
      "envMaxDevices env subID = Some limit"
      "limit > 0 \<Longrightarrow> int (wg_CountActiveBySubscription subID (dsTable s)) < limit"
      "alloc_ip (wsPeerPoolCIDR (GetWireGuardSettingsOrDefault full)) (WGServerIP (GetWireGuardSettingsOrDefault full))
         (wg_ListUsedIPs (wpInboundID p) (dsTable s)) = Inr (wpAssignedIP p)"
      "renderPeerConf env p full = Inr conf" "dsPushed s' = dsPushed s @ [(inNodeID full, dsTable s')]"
proof (cases "device_plan env subID input (dsTable s)")
  case (Inl e)
  then show ?thesis using assms(3) failed by (auto simp: CreateDevice_def)
next
  case (Inr plan)
  obtain full hostID label where plan: "plan = (full, hostID, label)" by (cases plan) auto
  obtain limit wg and target :: Inbound where sub: "wgInboundsForSub env subID = Inr (limit, wg)"
      and full: "envInbound env (inID target) = Some full"
      and cap: "limit > 0 \<Longrightarrow> int (wg_CountActiveBySubscription subID (dsTable s)) < limit"
      and key: "envPublicKey env (wsSecretKey (GetWireGuardSettingsOrDefault full)) \<noteq> None"
    using Inr unfolding plan by (elim device_plan_Inr) (rule that)
  have lim: "envMaxDevices env subID = Some limit"
    using sub by (auto simp: wgInboundsForSub_def Let_def split: option.splits if_splits)
  have id: "inID full = inID target" using assms(1) full by (simp add: env_ok_def)
  let ?ws = "GetWireGuardSettingsOrDefault full" and ?t = "dsTable s"
  obtain a t where a: "allocate_loop env gen alone subID (inID full) hostID label
      (wsPeerPoolCIDR ?ws) (WGServerIP ?ws) 0 8 ?t = (a, t)" by fastforce
  have spec: "case (a, t) of (Inl e, t') \<Rightarrow> t' = ?t
    | (Inr p, t') \<Rightarrow> (\<exists>pub psk priv ip. p = (new_peer subID (inID full) hostID label pub psk priv ip)\<lparr>wpID := wgNext ?t\<rparr>
       \<and> envPublicKey env priv = Some pub
       \<and> alloc_ip (wsPeerPoolCIDR ?ws) (WGServerIP ?ws) (wg_ListUsedIPs (inID full) ?t) = Inr ip
       \<and> t' = \<lparr>wgRows = wgRows ?t @ [p], wgNext = wgNext ?t + 1\<rparr>)"
    unfolding a [symmetric] by (rule allocate_alone)
  show ?thesis
  proof (cases a)
    case err: (Inl e)
    then show ?thesis using assms(3) spec failed by (auto simp: CreateDevice_def allocateAndCreate_def Inr plan a Let_def)
  next
    case new: (Inr p)
    then obtain pub psk priv ip where p: "p = (new_peer subID (inID full) hostID label pub psk priv ip)\<lparr>wpID := wgNext ?t\<rparr>"
        "envPublicKey env priv = Some pub" "t = \<lparr>wgRows = wgRows ?t @ [p], wgNext = wgNext ?t + 1\<rparr>"
        "alloc_ip (wsPeerPoolCIDR ?ws) (WGServerIP ?ws) (wg_ListUsedIPs (inID full) ?t) = Inr ip"
      using spec by auto
    have fields: "wpID p = wgNext ?t" "wpSubscriptionID p = subID" "wpInboundID p = inID full"
      "wpStatus p = WGActive" "wpAssignedIP p = ip" "wpPrivateKey p = priv"
      by (simp_all add: p(1) new_peer_def)
    note step = CreateDevice_def allocateAndCreate_def Inr plan a new Let_def
    show ?thesis
    proof (cases push_ok)
      case False
      have "filter (\<lambda>q. wpID q \<noteq> wgNext ?t) (wgRows ?t) = wgRows ?t"
        using assms(2) by (auto simp: filter_id_conv table_ok_def list_all_iff)
      then show ?thesis using assms(3) False by (intro failed) (auto simp: step wg_Delete_def p(3) fields)
    next
      case True
      obtain conf where conf: "renderPeerConf env p full = Inr conf"
        using key by (auto simp: renderPeerConf_def Let_def split: option.splits)
      have "r = Inr (p, conf)" "s' = push True (inNodeID full) (s\<lparr>dsTable := t\<rparr>)"
        using assms(3) True by (auto simp: step conf)
      then show ?thesis using p(2,4) full lim cap conf
        by (intro made [of p conf pub full limit]) (simp_all add: fields id push_def p(3))
    qed
  qed
qed

lemma find_fresh: "(\<And>q. q \<in> set xs \<Longrightarrow> \<not> P q) \<Longrightarrow> P p \<Longrightarrow> find P (xs @ [p]) = Some p"
  by (induction xs) auto

text \<open>
  Creating a device is all or nothing. When it fails, for whatever reason, the table has the
  rows it had and nothing was pushed; in particular a peer whose push failed is gone again. When
  it succeeds there is exactly one new row, active, owned by the subscription, with the lowest free
  address of the pool; the cap of the subscription is kept; the node was pushed with the new table;
  and downloading the configuration again gives the same file.
\<close>

theorem CreateDevice_all_or_nothing:
  assumes "env_ok env" "table_ok env (dsTable s)" "envPublicKey env [] = None"
    and "CreateDevice env gen alone push_ok subID input s = (r, s')"
  shows "case r of
     Inl e \<Rightarrow> wgRows (dsTable s') = wgRows (dsTable s) \<and> dsPushed s' = dsPushed s
   | Inr (p, conf) \<Rightarrow>
       wgRows (dsTable s') = wgRows (dsTable s) @ [p] \<and> wpSubscriptionID p = subID \<and> wpStatus p = WGActive
       \<and> (\<exists>limit. envMaxDevices env subID = Some limit
            \<and> (limit > 0 \<longrightarrow> int (wg_CountActiveBySubscription subID (dsTable s')) \<le> limit))
       \<and> (\<exists>full q. envInbound env (wpInboundID p) = Some full
            \<and> parse_prefix (wsPeerPoolCIDR (GetWireGuardSettingsOrDefault full)) = Some q
            \<and> wpAssignedIP p = show_ipv4 (Min (free_hosts q (WGServerIP (GetWireGuardSettingsOrDefault full))
                 (\<lambda>a. a \<in> set (wg_ListUsedIPs (wpInboundID p) (dsTable s)))))
            \<and> dsPushed s' = dsPushed s @ [(inNodeID full, dsTable s')])
       \<and> DeviceConfig env subID (wpID p) s' = Inr (p, conf)"
  using assms(1,2,4)
proof (cases rule: CreateDevice_cases)
  case (failed e)
  then show ?thesis by simp
next
  case (made p conf full limit pub)
  obtain q where q: "parse_prefix (wsPeerPoolCIDR (GetWireGuardSettingsOrDefault full)) = Some q"
      "wpAssignedIP p = show_ipv4 (Min (free_hosts q (WGServerIP (GetWireGuardSettingsOrDefault full))
         (\<lambda>a. a \<in> set (wg_ListUsedIPs (wpInboundID p) (dsTable s)))))"
    using made(10) by (rule alloc_ip_Inr)
  have "find (\<lambda>q. wpID q = wpID p) (wgRows (dsTable s) @ [p]) = Some p"
    using assms(2) made(3) by (intro find_fresh) (auto simp: table_ok_def list_all_iff)
  moreover have "wpPrivateKey p \<noteq> []" using made(6) assms(3) by auto
  ultimately have "DeviceConfig env subID (wpID p) s' = Inr (p, conf)"
    using made(2,4,7,11) by (simp add: DeviceConfig_def ownedPeer_def wg_FindByID_def)
  moreover have "limit > 0 \<longrightarrow> int (wg_CountActiveBySubscription subID (dsTable s')) \<le> limit"
    using made(2,4,5,9) by (auto simp: wg_CountActiveBySubscription_def)
  ultimately show ?thesis using made q by auto
qed

lemma filter_map_other:
  "(\<And>x. x \<in> set xs \<Longrightarrow> P x \<Longrightarrow> f x = x) \<Longrightarrow> (\<And>x. x \<in> set xs \<Longrightarrow> P (f x) = P x) \<Longrightarrow> filter P (map f xs) = filter P xs"
  by (induction xs) auto

text \<open>The rows of the other subscriptions, and what one request does to them.\<close>

abbreviation rows_of_others :: "nat \<Rightarrow> dev_state \<Rightarrow> WGPeer list" where
  "rows_of_others subID s \<equiv> filter (\<lambda>p. wpSubscriptionID p \<noteq> subID) (wgRows (dsTable s))"

lemma run_op_others:
  assumes "env_ok env" "table_ok env (dsTable s)"
  shows "rows_of_others subID (run_op env alone subID op s) = rows_of_others subID s"
proof -
  have same: "r = p" if "ownedPeer subID i (dsTable s) = Inr p" "r \<in> set (wgRows (dsTable s))" "wpID r = wpID p" for i p r
    using same_id [of "wgRows (dsTable s)" r p] ownedPeer_Inr [OF that(1)] that(2,3) assms(2) by (simp add: table_ok_def)
  show ?thesis
  proof (cases op)
    case (OpCreate gen ok input)
    obtain r s' where c: "CreateDevice env gen alone ok subID input s = (r, s')" by fastforce
    from assms c show ?thesis
      by (cases rule: CreateDevice_cases) (auto simp: OpCreate c)
  next
    case (OpRotate ks ok i)
    from RotateDevice_table [OF assms(2), of ks ok subID i] show ?thesis
    proof (elim disjE exE conjE)
      fix p q
      assume p: "ownedPeer subID i (dsTable s) = Inr p" and q: "wpSubscriptionID q = subID"
        and t: "dsTable (snd (RotateDevice env ks ok subID i s)) =
          (dsTable s)\<lparr>wgRows := map (\<lambda>r. if wpID r = wpID p then q else r) (wgRows (dsTable s))\<rparr>"
      show ?thesis unfolding OpRotate run_op.simps t using same [OF p] ownedPeer_Inr [OF p] q
        by simp (rule filter_map_other, auto)
    qed (simp add: OpRotate)
  next
    case (OpRemove ok i)
    from RemoveDevice_table [of env ok subID i s] show ?thesis
    proof (elim disjE exE conjE)
      fix p assume p: "ownedPeer subID i (dsTable s) = Inr p"
        and t: "dsTable (snd (RemoveDevice env ok subID i s)) = wg_Delete (wpID p) (dsTable s)"
      show ?thesis unfolding OpRemove run_op.simps t wg_Delete_def using same [OF p] ownedPeer_Inr [OF p]
        by (auto intro!: filter_cong)
    qed (simp add: OpRemove)
  qed (auto simp: DeactivateSubscription_def ActivateSubscription_def wg_SetStatusBySubscription_def intro!: filter_map_other)
qed

lemma rely_alone: "rely env alone"
  by (simp add: rely_def)


lemma fold_add_inbound_ids: "distinct (map inID wg) \<Longrightarrow> distinct (map inID (fold add_inbound as wg))"
  by (induction as arbitrary: wg) (auto simp: add_inbound_def split: option.splits)

text \<open>
  What the picker offers can be picked: a request with the inbound and host of any listed
  option is never turned down for a missing server or an unavailable host. (Keys of the database
  start at one.)
\<close>

theorem offered_servers_are_accepted:
  assumes "ListServers env subID = Inr opts" "opt \<in> set opts"
    and "\<And>as i. envAccounts env subID = Some as \<Longrightarrow> Some i \<in> set as \<Longrightarrow> inID i \<noteq> 0 \<and> (\<forall>h \<in> set (inHosts i). hoID h \<noteq> 0)"
    and "device_plan env subID \<lparr>ciInboundID = woInboundID opt, ciHostID = woHostID opt, ciLabel = label\<rparr> t = Inl e"
  shows "e \<noteq> ErrNoWGServer \<and> e \<noteq> ErrHostUnavailable"
proof -
  obtain limit wg where wg: "wgInboundsForSub env subID = Inr (limit, wg)" "opts = concat (map server_options wg)"
    using assms(1) by (auto simp: ListServers_def split: sum.splits prod.splits)
  then obtain as where as: "envAccounts env subID = Some as" "wg = fold add_inbound as []"
    by (auto simp: wgInboundsForSub_def Let_def split: option.splits if_splits)
  obtain i where i: "i \<in> set wg" "opt \<in> set (server_options i)" using assms(2) wg(2) by auto
  have "set (fold add_inbound as acc) \<subseteq> set acc \<union> {i. Some i \<in> set as}" for acc
    by (induction as arbitrary: acc) (force simp: add_inbound_def split: option.splits if_splits)+
  from this [of "[]"] have "Some i \<in> set as" using i(1) as(2) by auto
  then have ids: "inID i \<noteq> 0" "\<forall>h \<in> set (inHosts i). hoID h \<noteq> 0" using assms(3) [OF as(1), of i] by auto
  have dist: "distinct (map inID wg)" unfolding as(2) by (rule fold_add_inbound_ids) simp
  have opt: "woInboundID opt = inID i" using i(2) by (auto simp: server_options_def Let_def split: if_splits option.splits)
  have "pick_target (woInboundID opt) wg = Some i"
    using find_by_key [OF dist i(1)] ids(1) i(1) by (cases wg) (simp_all add: pick_target_def opt)
  moreover have "\<exists>h. resolveHostID i (woHostID opt) = Inr h"
  proof (cases "GetActiveHosts i")
    case Nil
    then have "woHostID opt = 0" using i(2) by (simp add: server_options_def Let_def split: option.splits)
    then show ?thesis by (simp add: resolveHostID_def Nil)
  next
    case (Cons h0 hs)
    then have "woHostID opt \<in> hoID ` set (GetActiveHosts i)"
      using i(2) by (auto simp: server_options_def Let_def split: option.splits)
    then obtain h where "h \<in> set (GetActiveHosts i)" "woHostID opt = hoID h" by auto
    then have "h \<in> set (inHosts i)" "\<not> hoIsDisabled h" "woHostID opt = hoID h" by (auto simp: GetActiveHosts_def)
    then have "activeHost i (hoID h) \<noteq> None" by (auto simp: activeHost_def find_None_iff)
    then show ?thesis using ids(2) \<open>woHostID opt = hoID h\<close> \<open>h \<in> set (inHosts i)\<close> by (auto simp: resolveHostID_def)
  qed
  ultimately show ?thesis using assms(4) wg(1)
    by (auto simp: device_plan_def Let_def split: option.splits if_splits)
qed

section \<open>Examples\<close>

text \<open>One inbound with a small pool and two subscriptions that may have one device each.\<close>

definition demo_inbound :: Inbound where
  "demo_inbound = \<lparr>inID = 1, inNodeID = 4,
     inNode = Some \<lparr>ndID = 4, ndName = ''ams'', ndIP = ''192.0.2.1'', ndAPIPort = 10085, ndCountryCode = ''NL'', ndIsActive = True\<rparr>,
     inTag = ''wg-in'', inAddress = [], inPort = 51820, inProtocol = ''WireGuard'', inIsDisabled = False, inHosts = [],
     inWireGuard = Some \<lparr>wsSecretKey = ''s'', wsMTU = 1420, wsEndpoint = [''10.8.0.1/29''],
       wsPeerPoolCIDR = ''10.8.0.0/29'', wsClientDNS = []\<rparr>\<rparr>"

definition demo_env :: dev_env where
  "demo_env = \<lparr>envMaxDevices = (\<lambda>i. if i = 7 \<or> i = 8 then Some 1 else None),
     envAccounts = (\<lambda>i. Some [Some demo_inbound]),
     envInbound = (\<lambda>i. if i = 1 then Some demo_inbound else None),
     envPublicKey = (\<lambda>k. if k = [] then None else Some (CHR ''p'' # k)),
     envUniqueText = ''UNIQUE constraint failed''\<rparr>"

definition demo_gen :: "string \<Rightarrow> key_supply" where
  "demo_gen k n = (Some k, Some ''psk'')"

definition demo_input :: CreateDeviceInput where
  "demo_input = \<lparr>ciInboundID = 1, ciHostID = 0, ciLabel = []\<rparr>"

definition demo_start :: dev_state where
  "demo_start = \<lparr>dsTable = \<lparr>wgRows = [], wgNext = 1\<rparr>, dsPushed = []\<rparr>"

definition demo_one :: dev_state where
  "demo_one = snd (CreateDevice demo_env (demo_gen ''k1'') alone True 7 demo_input demo_start)"

lemma demo_env_ok: "env_ok demo_env"
  by (simp add: env_ok_def demo_env_def demo_inbound_def)

lemma demo_one_run: "devices_run demo_env demo_one"
  using dr_request [OF dr_start rely_alone, of demo_env 7 "OpCreate (demo_gen ''k1'') True demo_input"]
  by (simp add: demo_one_def demo_start_def)

lemma demo_server: "WGServerIP (GetWireGuardSettingsOrDefault demo_inbound) = ''10.8.0.1''"
  by code_simp

lemma demo_alloc:
  "alloc_ip ''10.8.0.0/29'' ''10.8.0.1'' [] = Inr ''10.8.0.2''"
  "alloc_ip ''10.8.0.0/29'' ''10.8.0.1'' [''10.8.0.2''] = Inr ''10.8.0.3''"
  by code_simp+

lemma demo_settings:
  "wsPeerPoolCIDR (GetWireGuardSettingsOrDefault demo_inbound) = ''10.8.0.0/29''"
  "wsSecretKey (GetWireGuardSettingsOrDefault demo_inbound) = ''s''"
  by (simp_all add: GetWireGuardSettingsOrDefault_def demo_inbound_def)

lemma demo_inbound_simps:
  "inID demo_inbound = 1" "inNodeID demo_inbound = 4" "GetActiveHosts demo_inbound = []"
  by (simp_all add: demo_inbound_def GetActiveHosts_def)

lemma demo_usable: "usable_inbound demo_inbound" "dec 1 = ''1''"
  by code_simp+

lemma demo_env_simps:
  "subID = 7 \<or> subID = 8 \<Longrightarrow> wgInboundsForSub demo_env subID = Inr (1, [demo_inbound])"
  "envInbound demo_env 1 = Some demo_inbound" "envPublicKey demo_env ''s'' = Some ''ps''"
  by (auto simp: demo_env_def wgInboundsForSub_def add_inbound_def demo_usable)

lemma demo_plan:
  assumes "subID = 7 \<or> subID = 8" "wg_CountActiveBySubscription subID t = 0"
  shows "device_plan demo_env subID demo_input t = Inr (demo_inbound, None, ''Device 1'')"
  using assms by (simp add: device_plan_def demo_env_simps pick_target_def resolveHostID_def demo_inbound_simps
      demo_settings demo_usable demo_input_def Let_def del: One_nat_def)

definition demo_peer :: "nat \<Rightarrow> nat \<Rightarrow> string \<Rightarrow> string \<Rightarrow> WGPeer" where
  "demo_peer i subID key ip = (new_peer subID 1 None ''Device 1'' (CHR ''p'' # key) ''psk'' key ip)\<lparr>wpID := i\<rparr>"

lemma demo_create:
  assumes "subID = 7 \<or> subID = 8" "wg_CountActiveBySubscription subID (dsTable s) = 0" "key \<noteq> []"
    "alloc_ip ''10.8.0.0/29'' ''10.8.0.1'' (wg_ListUsedIPs 1 (dsTable s)) = Inr ip"
    "\<not> list_ex (wg_conflict (demo_peer 0 subID key ip)) (wgRows (dsTable s))"
  shows "snd (CreateDevice demo_env (demo_gen key) alone True subID demo_input s)
    = (let t = \<lparr>wgRows = wgRows (dsTable s) @ [demo_peer (wgNext (dsTable s)) subID key ip], wgNext = wgNext (dsTable s) + 1\<rparr>
       in \<lparr>dsTable = t, dsPushed = dsPushed s @ [(4, t)]\<rparr>)"
proof -
  have key: "envPublicKey demo_env key = Some (CHR ''p'' # key)" using assms(3) by (simp add: demo_env_def)
  have "allocateAndCreate demo_env (demo_gen key) alone subID 1 None ''Device 1'' ''10.8.0.0/29'' ''10.8.0.1'' (dsTable s)
      = (Inr (demo_peer (wgNext (dsTable s)) subID key ip),
         \<lparr>wgRows = wgRows (dsTable s) @ [demo_peer (wgNext (dsTable s)) subID key ip], wgNext = wgNext (dsTable s) + 1\<rparr>)"
    using assms(4,5)
    by (simp add: allocateAndCreate_def numeral_eq_Suc generate_keys_def demo_gen_def key wg_Create_def demo_peer_def
        new_peer_def wg_conflict_def Let_def)
  moreover have "\<exists>conf. renderPeerConf demo_env (demo_peer (wgNext (dsTable s)) subID key ip) demo_inbound = Inr conf"
    by (simp add: renderPeerConf_def Let_def demo_settings demo_env_def)
  ultimately show ?thesis
    by (auto simp: CreateDevice_def demo_plan [OF assms(1,2)] demo_settings demo_server Let_def demo_inbound_simps push_def)
qed

lemma demo_one_eq:
  "demo_one = (let t = \<lparr>wgRows = [demo_peer 1 7 ''k1'' ''10.8.0.2''], wgNext = 2\<rparr> in \<lparr>dsTable = t, dsPushed = [(4, t)]\<rparr>)"
proof -
  have "wg_ListUsedIPs 1 (dsTable demo_start) = []" by (simp add: demo_start_def wg_ListUsedIPs_def)
  then show ?thesis
    unfolding demo_one_def
    by (subst demo_create [of 7 demo_start "''k1''" "''10.8.0.2''"])
       (simp_all add: demo_start_def wg_CountActiveBySubscription_def demo_alloc Let_def)
qed

lemma demo_one_ok: "table_ok demo_env (dsTable demo_one)"
  using devices_run_ok [OF demo_one_run demo_env_ok] .

theorem devices_keep_the_address_plan_witness:
  "table_ok demo_env (dsTable demo_one) \<and> map wpAssignedIP (wgRows (dsTable demo_one)) = [''10.8.0.2'']
    \<and> distinct (map rpAllowedIP (ActivePeersByInbound None 1 (dsTable demo_one)))"
  using devices_keep_the_address_plan [OF demo_one_run demo_env_ok, of None 1]
  by (simp add: demo_one_eq Let_def demo_peer_def new_peer_def)

theorem CreateDevice_all_or_nothing_witness:
  "\<exists>conf. CreateDevice demo_env (demo_gen ''k1'') alone True 7 demo_input demo_start
      = (Inr (demo_peer 1 7 ''k1'' ''10.8.0.2'', conf), demo_one)
    \<and> DeviceConfig demo_env 7 1 demo_one = Inr (demo_peer 1 7 ''k1'' ''10.8.0.2'', conf)"
proof -
  obtain r where r: "CreateDevice demo_env (demo_gen ''k1'') alone True 7 demo_input demo_start = (r, demo_one)"
    by (metis demo_one_def prod.collapse)
  have start: "table_ok demo_env (dsTable demo_start)" by (simp add: table_ok_def demo_start_def)
  have "envPublicKey demo_env [] = None" by (simp add: demo_env_def)
  note spec = CreateDevice_all_or_nothing [OF demo_env_ok start this r]
  show ?thesis
  proof (cases r)
    case (Inl e)
    then show ?thesis using spec by (simp add: demo_one_eq demo_start_def Let_def)
  next
    case (Inr pc)
    then obtain p conf where pc: "r = Inr (p, conf)" by (cases pc) auto
    have "DeviceConfig demo_env 7 (wpID p) demo_one = Inr (p, conf)" using spec unfolding pc by simp
    moreover have "p = demo_peer 1 7 ''k1'' ''10.8.0.2''"
      using spec unfolding pc by (simp add: demo_one_eq demo_start_def Let_def)
    ultimately have "p = demo_peer 1 7 ''k1'' ''10.8.0.2''" "DeviceConfig demo_env 7 (wpID p) demo_one = Inr (p, conf)"
      by blast+
    then show ?thesis using r pc by (auto simp: demo_peer_def)
  qed
qed


theorem offered_servers_are_accepted_witness:
  "map woInboundID (case ListServers demo_env 7 of Inr os \<Rightarrow> os | Inl e \<Rightarrow> []) = [1]
    \<and> device_plan demo_env 7 demo_input (dsTable demo_one) = Inl ErrDeviceCapReached
    \<and> ErrDeviceCapReached \<noteq> ErrNoWGServer"
proof -
  let ?opt = "\<lparr>woInboundID = 1, woHostID = 0, woNodeName = ''ams'', woCountry = ''NL'', woEndpoint = clientEndpoint demo_inbound\<rparr>"
  have opts: "ListServers demo_env 7 = Inr [?opt]"
    by (simp add: ListServers_def demo_env_simps server_options_def demo_inbound_simps del: One_nat_def)
       (simp add: demo_inbound_def)
  have plan: "device_plan demo_env 7 demo_input (dsTable demo_one) = Inl ErrDeviceCapReached"
    by (simp add: device_plan_def demo_env_simps pick_target_def resolveHostID_def demo_inbound_simps
        demo_one_eq wg_CountActiveBySubscription_def demo_peer_def new_peer_def demo_input_def Let_def)
  have "ErrDeviceCapReached \<noteq> ErrNoWGServer \<and> ErrDeviceCapReached \<noteq> ErrHostUnavailable"
  proof (rule offered_servers_are_accepted [OF opts, of ?opt "[]" "dsTable demo_one"])
    show "inID i \<noteq> 0 \<and> (\<forall>h \<in> set (inHosts i). hoID h \<noteq> 0)"
      if "envAccounts demo_env 7 = Some as" "Some i \<in> set as" for as i
      using that by (auto simp: demo_env_def demo_inbound_def)
    show "device_plan demo_env 7 \<lparr>ciInboundID = woInboundID ?opt, ciHostID = woHostID ?opt, ciLabel = []\<rparr>
        (dsTable demo_one) = Inl ErrDeviceCapReached"
      using plan by (simp add: demo_input_def)
  qed simp
  then show ?thesis using opts plan by simp
qed

text \<open>
  The device cap can be exceeded. It is checked against the active devices only, and a
  deactivated subscription has none: with a cap of one, creating a device, losing access, creating
  another and getting access back leaves two active devices.
\<close>

theorem device_cap_can_be_exceeded:
  "let s1 = demo_one;
       s2 = DeactivateSubscription demo_env (\<lambda>n. True) 7 s1;
       s3 = snd (CreateDevice demo_env (demo_gen ''k2'') alone True 7 demo_input s2);
       s4 = ActivateSubscription demo_env (\<lambda>n. True) 7 s3
   in MaxDevices demo_env 7 = Some 1 \<and> wg_CountActiveBySubscription 7 (dsTable s4) = 2"
proof -
  let ?s2 = "DeactivateSubscription demo_env (\<lambda>n. True) 7 demo_one"
  have t: "dsTable ?s2 = \<lparr>wgRows = [(demo_peer 1 7 ''k1'' ''10.8.0.2'')\<lparr>wpStatus := WGDisabled\<rparr>], wgNext = 2\<rparr>"
    by (simp add: DeactivateSubscription_def demo_one_eq Let_def wg_SetStatusBySubscription_def demo_peer_def new_peer_def)
  have "dsTable (snd (CreateDevice demo_env (demo_gen ''k2'') alone True 7 demo_input ?s2))
      = \<lparr>wgRows = wgRows (dsTable ?s2) @ [demo_peer 2 7 ''k2'' ''10.8.0.3''], wgNext = 3\<rparr>"
    by (subst demo_create [of 7 ?s2 "''k2''" "''10.8.0.3''"])
       (simp_all add: wg_ListUsedIPs_def demo_alloc t wg_CountActiveBySubscription_def demo_peer_def new_peer_def wg_conflict_def Let_def)
  moreover have "MaxDevices demo_env 7 = Some 1" by (simp add: MaxDevices_def demo_env_def)
  ultimately show ?thesis
    by (simp add: Let_def ActivateSubscription_def wg_SetStatusBySubscription_def t
        wg_CountActiveBySubscription_def demo_peer_def new_peer_def)
qed

end
