(* ===== verification/Subscription.thy ===== *)
theory Subscription
  imports Usage_Batches "HOL-Library.Product_Lexorder"
begin

text \<open>
  Subscriptions: \<open>internal/subscription/domain/subscription.go\<close>, the writes and lists of
  \<open>internal/subscription/repository/subscription_repository.go\<close> and the batched counters of its
  \<open>traffic_batch.go\<close>. Dates are instants, the clock is an argument. Labels, credentials, links and
  the panel's password are left out, and so are the columns gorm keeps on its own but \<open>created_at\<close>.
  The lemmas show when a subscription grants access, that the lists of the sweeps are the
  subscriptions that have run out, and that the batched counters are the single ones.
\<close>

section \<open>Subscriptions\<close>

datatype SubscriptionStatus =
    StatusPending | StatusActive | StatusPaused | StatusExpired | StatusCancelled | StatusTrafficExhausted

record Subscription =
  sbID :: nat
  sbUserID :: "nat option"
  sbStatus :: SubscriptionStatus
  sbMaxDevices :: int
  sbPauseReason :: string
  sbEndDate :: "int option"
  sbDataUsed :: int
  sbLifetimeDataUsed :: int
  sbDataUpload :: int
  sbDataDownload :: int
  sbLifetimeDataUpload :: int
  sbLifetimeDataDownload :: int
  sbDataLimit :: int
  sbLastActiveAt :: "nat option"
  sbCustomDataLimit :: "int option"
  sbCustomEndDate :: "int option"
  sbCustomBandwidthLimit :: "int option"
  sbIsDataLimitCustom :: bool
  sbIsEndDateCustom :: bool
  sbIsBandwidthCustom :: bool
  sbLastDataWarning :: "int option"
  sbDataWarningLevel :: int
  sbCreatedAt :: int

definition PauseReasonAdmin :: string where "PauseReasonAdmin = ''admin''"
definition PauseReasonBan :: string where "PauseReasonBan = ''ban''"

definition GetEffectiveDataLimit :: "Subscription \<Rightarrow> int" where
  "GetEffectiveDataLimit s = (case sbCustomDataLimit s of Some l \<Rightarrow> l | None \<Rightarrow> sbDataLimit s)"

definition GetEffectiveEndDate :: "Subscription \<Rightarrow> int option" where
  "GetEffectiveEndDate s = (if sbIsEndDateCustom s then sbCustomEndDate s else sbEndDate s)"

definition GetEffectiveBandwidthLimit :: "Subscription \<Rightarrow> int" where
  "GetEffectiveBandwidthLimit s = (case sbCustomBandwidthLimit s of Some l \<Rightarrow> l | None \<Rightarrow> 0)"

definition sub_IsExpired :: "int \<Rightarrow> Subscription \<Rightarrow> bool" where
  "sub_IsExpired now s = (case GetEffectiveEndDate s of None \<Rightarrow> False | Some e \<Rightarrow> now > e)"

definition sub_IsDataExhausted :: "Subscription \<Rightarrow> bool" where
  "sub_IsDataExhausted s = (let limit = GetEffectiveDataLimit s in
     if limit = 0 then False else sbDataUsed s \<ge> limit)"

definition GrantsAccess :: "int \<Rightarrow> Subscription \<Rightarrow> bool" where
  "GrantsAccess now s =
     (if sbStatus s = StatusPending \<or> sbStatus s = StatusActive
      then \<not> sub_IsExpired now s \<and> \<not> sub_IsDataExhausted s else False)"

definition sub_RemainingData :: "Subscription \<Rightarrow> int" where
  "sub_RemainingData s = (let limit = GetEffectiveDataLimit s in
     if limit = 0 then - 1
     else let remaining = wrap64 (limit - sbDataUsed s) in if remaining < 0 then 0 else remaining)"

section \<open>The table\<close>

type_synonym sub_table = "Subscription list"

definition update_sub :: "nat \<Rightarrow> (Subscription \<Rightarrow> Subscription) \<Rightarrow> sub_table \<Rightarrow> sub_table" where
  "update_sub = update_row sbID"

definition sub_FindByID :: "nat \<Rightarrow> sub_table \<Rightarrow> Subscription option" where
  "sub_FindByID i t = find (\<lambda>s. sbID s = i) t"

definition UpdateStatus :: "nat \<Rightarrow> SubscriptionStatus \<Rightarrow> sub_table \<Rightarrow> sub_table" where
  "UpdateStatus i st t = update_sub i (\<lambda>s. s\<lparr>sbStatus := st\<rparr>) t"

definition UpdateStatusWithPauseReason :: "nat \<Rightarrow> SubscriptionStatus \<Rightarrow> string \<Rightarrow> sub_table \<Rightarrow> sub_table" where
  "UpdateStatusWithPauseReason i st reason t = update_sub i (\<lambda>s.
     if st = StatusPaused \<and> sbStatus s = StatusPaused then s
     else s\<lparr>sbStatus := st, sbPauseReason := reason\<rparr>) t"

definition UpdateDataUsed :: "nat \<Rightarrow> int \<Rightarrow> sub_table \<Rightarrow> sub_table" where
  "UpdateDataUsed i used t = update_sub i (\<lambda>s. s\<lparr>sbDataUsed := used\<rparr>) t"

definition minute :: int where "minute = 60 * 1000000000"
definition day :: int where "day = 24 * 60 * minute"

definition ListExpired :: "int \<Rightarrow> sub_table \<Rightarrow> Subscription list" where
  "ListExpired now t = filter (\<lambda>s. sbStatus s = StatusActive \<and> sbCreatedAt s < now - minute
     \<and> ((\<not> sbIsEndDateCustom s \<and> (case sbEndDate s of None \<Rightarrow> False | Some e \<Rightarrow> e < now))
        \<or> (sbIsEndDateCustom s \<and> (case sbCustomEndDate s of None \<Rightarrow> False | Some e \<Rightarrow> e < now)))) t"

definition ListDataExhausted :: "sub_table \<Rightarrow> Subscription list" where
  "ListDataExhausted t = filter (\<lambda>s. sbStatus s = StatusActive
     \<and> (case sbCustomDataLimit s of Some l \<Rightarrow> l | None \<Rightarrow> sbDataLimit s) > 0
     \<and> sbDataUsed s \<ge> (case sbCustomDataLimit s of Some l \<Rightarrow> l | None \<Rightarrow> sbDataLimit s)) t"

definition ListByUserID :: "nat \<Rightarrow> nat \<Rightarrow> nat \<Rightarrow> sub_table \<Rightarrow> Subscription list" where
  "ListByUserID u offset limit t =
     take limit (drop offset (sort_key (\<lambda>s. - sbCreatedAt s) (filter (\<lambda>s. sbUserID s = Some u) t)))"

definition ExtendDays :: "nat \<Rightarrow> int \<Rightarrow> sub_table \<Rightarrow> sub_table" where
  "ExtendDays i days t = update_sub i (\<lambda>s. s\<lparr>
     sbEndDate := map_option (\<lambda>e. e + days * day) (sbEndDate s),
     sbCustomEndDate := map_option (\<lambda>e. e + days * day) (sbCustomEndDate s)\<rparr>) t"

definition repo_ResetDataUsed :: "nat \<Rightarrow> sub_table \<Rightarrow> sub_table" where
  "repo_ResetDataUsed i t = update_sub i (\<lambda>s. s\<lparr>sbDataUsed := 0, sbDataUpload := 0, sbDataDownload := 0\<rparr>) t"

definition repo_SetCustomDataLimit :: "nat \<Rightarrow> int option \<Rightarrow> sub_table \<Rightarrow> sub_table" where
  "repo_SetCustomDataLimit i limit t =
     update_sub i (\<lambda>s. s\<lparr>sbCustomDataLimit := limit, sbIsDataLimitCustom := limit \<noteq> None\<rparr>) t"

definition repo_SetCustomEndDate :: "nat \<Rightarrow> int option \<Rightarrow> bool \<Rightarrow> sub_table \<Rightarrow> sub_table" where
  "repo_SetCustomEndDate i endDate isCustom t =
     update_sub i (\<lambda>s. s\<lparr>sbCustomEndDate := endDate, sbIsEndDateCustom := isCustom\<rparr>) t"

definition repo_SetCustomBandwidthLimit :: "nat \<Rightarrow> int option \<Rightarrow> sub_table \<Rightarrow> sub_table" where
  "repo_SetCustomBandwidthLimit i limit t =
     update_sub i (\<lambda>s. s\<lparr>sbCustomBandwidthLimit := limit, sbIsBandwidthCustom := limit \<noteq> None\<rparr>) t"

definition repo_SetMaxDevices :: "nat \<Rightarrow> int \<Rightarrow> sub_table \<Rightarrow> sub_table" where
  "repo_SetMaxDevices i n t = update_sub i (\<lambda>s. s\<lparr>sbMaxDevices := n\<rparr>) t"

definition AddLifetimeDataUsed :: "nat \<Rightarrow> int \<Rightarrow> sub_table \<Rightarrow> sub_table" where
  "AddLifetimeDataUsed i bytes t = update_sub i (\<lambda>s. s\<lparr>sbLifetimeDataUsed := sbLifetimeDataUsed s + bytes\<rparr>) t"

definition AddUsageDelta :: "nat \<Rightarrow> int \<Rightarrow> int \<Rightarrow> nat \<Rightarrow> sub_table \<Rightarrow> sub_table" where
  "AddUsageDelta i upload download lastActive t =
     (let total = wrap64 (upload + download) in update_sub i (\<lambda>s. s\<lparr>
        sbDataUsed := sbDataUsed s + total, sbLifetimeDataUsed := sbLifetimeDataUsed s + total,
        sbDataUpload := sbDataUpload s + upload, sbDataDownload := sbDataDownload s + download,
        sbLifetimeDataUpload := sbLifetimeDataUpload s + upload,
        sbLifetimeDataDownload := sbLifetimeDataDownload s + download,
        sbLastActiveAt := Some lastActive\<rparr>) t)"

definition ResetDataWarningLevel :: "nat \<Rightarrow> sub_table \<Rightarrow> sub_table" where
  "ResetDataWarningLevel i t = update_sub i (\<lambda>s. s\<lparr>sbDataWarningLevel := 0, sbLastDataWarning := None\<rparr>) t"

definition HardDelete :: "nat \<Rightarrow> sub_table \<Rightarrow> sub_table" where
  "HardDelete i t = filter (\<lambda>s. sbID s \<noteq> i) t"

section \<open>Batched counters\<close>

record UsageDelta =
  suSubscriptionID :: nat
  suUpload :: int
  suDownload :: int
  suLastActive :: nat

definition su_zero :: UsageDelta where
  "su_zero = \<lparr>suSubscriptionID = 0, suUpload = 0, suDownload = 0, suLastActive = 0\<rparr>"

definition su_merge :: "UsageDelta \<Rightarrow> UsageDelta \<Rightarrow> UsageDelta" where
  "su_merge merged delta =
     \<lparr>suSubscriptionID = suSubscriptionID delta,
      suUpload = wrap64 (suUpload merged + suUpload delta),
      suDownload = wrap64 (suDownload merged + suDownload delta),
      suLastActive = (if suLastActive delta > suLastActive merged then suLastActive delta else suLastActive merged)\<rparr>"

definition subscriptionCounterCase :: "UsageDelta list \<Rightarrow> (UsageDelta \<Rightarrow> int) \<Rightarrow> nat \<Rightarrow> int" where
  "subscriptionCounterCase batch value i =
     (case find (\<lambda>d. suSubscriptionID d = i) batch of None \<Rightarrow> 0 | Some d \<Rightarrow> value d)"

text \<open>\<^term>\<open>None\<close> when no delta of the batch has a time.\<close>

definition subscriptionActivityCase :: "UsageDelta list \<Rightarrow> (nat \<Rightarrow> nat option \<Rightarrow> nat option) option" where
  "subscriptionActivityCase batch =
     (let timed = filter (\<lambda>d. suLastActive d \<noteq> 0) batch in
      if timed = [] then None
      else Some (\<lambda>i old. case find (\<lambda>d. suSubscriptionID d = i) timed of
        None \<Rightarrow> old | Some d \<Rightarrow> newer_seen (suLastActive d) old))"

definition subscription_set :: "UsageDelta list \<Rightarrow> Subscription \<Rightarrow> Subscription" where
  "subscription_set batch s =
     (if sbID s \<in> set (map suSubscriptionID batch) then
       let total = subscriptionCounterCase batch (\<lambda>d. wrap64 (suUpload d + suDownload d)) (sbID s);
           upload = subscriptionCounterCase batch suUpload (sbID s);
           download = subscriptionCounterCase batch suDownload (sbID s);
           s' = s\<lparr>sbDataUsed := sbDataUsed s + total, sbLifetimeDataUsed := sbLifetimeDataUsed s + total,
                  sbDataUpload := sbDataUpload s + upload, sbDataDownload := sbDataDownload s + download,
                  sbLifetimeDataUpload := sbLifetimeDataUpload s + upload,
                  sbLifetimeDataDownload := sbLifetimeDataDownload s + download\<rparr>
       in (case subscriptionActivityCase batch of
             None \<Rightarrow> s' | Some f \<Rightarrow> s'\<lparr>sbLastActiveAt := f (sbID s) (sbLastActiveAt s)\<rparr>)
     else s)"

definition trafficBatchSize :: nat where "trafficBatchSize = 50"

definition AddUsageDeltas :: "UsageDelta list \<Rightarrow> sub_table \<Rightarrow> sub_table" where
  "AddUsageDeltas deltas t =
     send_batches trafficBatchSize (merge_all suSubscriptionID su_zero su_merge deltas) (\<lambda>d. True)
       (\<lambda>batch. map (subscription_set batch)) t"

section \<open>Usage by day\<close>

text \<open>
  A row of \<open>subscription_daily_usage\<close>; the split columns of old rows may be NULL. \<open>date\<close> is an
  instant, the day's midnight in UTC; the unique index is on subscription and date.
\<close>

record DailyUsage =
  dyDataUsed :: int
  dyDataUpload :: "int option"
  dyDataDownload :: "int option"

type_synonym daily_table = "nat \<times> nat \<rightharpoonup> DailyUsage"

record DailyUsageDelta =
  ddSubscriptionID :: nat
  ddDate :: nat
  ddUpload :: int
  ddDownload :: int

definition utc_day :: "nat \<Rightarrow> nat" where "utc_day t = t - t mod nat day"

definition dd_key :: "DailyUsageDelta \<Rightarrow> nat \<times> nat" where
  "dd_key d = (ddSubscriptionID d, utc_day (ddDate d))"

definition dd_zero :: DailyUsageDelta where
  "dd_zero = \<lparr>ddSubscriptionID = 0, ddDate = 0, ddUpload = 0, ddDownload = 0\<rparr>"

definition dd_merge :: "DailyUsageDelta \<Rightarrow> DailyUsageDelta \<Rightarrow> DailyUsageDelta" where
  "dd_merge merged delta =
     \<lparr>ddSubscriptionID = ddSubscriptionID delta, ddDate = utc_day (ddDate delta),
      ddUpload = wrap64 (ddUpload merged + ddUpload delta),
      ddDownload = wrap64 (ddDownload merged + ddDownload delta)\<rparr>"

definition coalesce0 :: "int option \<Rightarrow> int" where
  "coalesce0 c = (case c of None \<Rightarrow> 0 | Some v \<Rightarrow> v)"

text \<open>One entry of the upsert: \<open>INSERT ... ON CONFLICT (subscription_id, date) DO UPDATE\<close>.\<close>

definition daily_upsert :: "DailyUsageDelta \<Rightarrow> DailyUsage option \<Rightarrow> DailyUsage option" where
  "daily_upsert delta old =
     (let used = wrap64 (ddUpload delta + ddDownload delta) in
      case old of
        None \<Rightarrow> Some \<lparr>dyDataUsed = used, dyDataUpload = Some (ddUpload delta), dyDataDownload = Some (ddDownload delta)\<rparr>
      | Some row \<Rightarrow> Some \<lparr>dyDataUsed = dyDataUsed row + used,
          dyDataUpload = Some (coalesce0 (dyDataUpload row) + ddUpload delta),
          dyDataDownload = Some (coalesce0 (dyDataDownload row) + ddDownload delta)\<rparr>)"

definition daily_statement :: "DailyUsageDelta list \<Rightarrow> daily_table \<Rightarrow> daily_table" where
  "daily_statement entries t =
     fold (\<lambda>e t. t((ddSubscriptionID e, ddDate e) := daily_upsert e (t (ddSubscriptionID e, ddDate e)))) entries t"

definition AddDailyUsageSplits :: "DailyUsageDelta list \<Rightarrow> daily_table \<Rightarrow> daily_table" where
  "AddDailyUsageSplits deltas t =
     send_batches trafficBatchSize (merge_all dd_key dd_zero dd_merge deltas) (\<lambda>d. True) daily_statement t"

text \<open>The single upsert; NULL plus a number is NULL.\<close>

definition AddDailyUsageSplit :: "nat \<Rightarrow> nat \<Rightarrow> int \<Rightarrow> int \<Rightarrow> daily_table \<Rightarrow> daily_table" where
  "AddDailyUsageSplit subID date upload download t =
     (let total = wrap64 (upload + download) in
      t((subID, date) := Some (case t (subID, date) of
          None \<Rightarrow> \<lparr>dyDataUsed = total, dyDataUpload = Some upload, dyDataDownload = Some download\<rparr>
        | Some row \<Rightarrow> \<lparr>dyDataUsed = dyDataUsed row + total,
            dyDataUpload = map_option (\<lambda>u. u + upload) (dyDataUpload row),
            dyDataDownload = map_option (\<lambda>u. u + download) (dyDataDownload row)\<rparr>)))"

section \<open>The batches are the deltas, one by one\<close>

definition add_usage :: "UsageDelta \<Rightarrow> Subscription \<Rightarrow> Subscription" where
  "add_usage d s = s\<lparr>
     sbDataUsed := sbDataUsed s + (suUpload d + suDownload d),
     sbLifetimeDataUsed := sbLifetimeDataUsed s + (suUpload d + suDownload d),
     sbDataUpload := sbDataUpload s + suUpload d, sbDataDownload := sbDataDownload s + suDownload d,
     sbLifetimeDataUpload := sbLifetimeDataUpload s + suUpload d,
     sbLifetimeDataDownload := sbLifetimeDataDownload s + suDownload d,
     sbLastActiveAt := (if suLastActive d = 0 then sbLastActiveAt s else newer_seen (suLastActive d) (sbLastActiveAt s))\<rparr>"

definition su_fits :: "UsageDelta \<Rightarrow> bool" where
  "su_fits d \<longleftrightarrow> 0 \<le> suUpload d \<and> 0 \<le> suDownload d"

definition su_weight :: "UsageDelta \<Rightarrow> int" where
  "su_weight d = suUpload d + suDownload d"

lemmas su_defs = su_fits_def su_weight_def su_zero_def su_merge_def

lemma timed_none: "(filter (\<lambda>d. suLastActive d \<noteq> 0) ds = []) \<Longrightarrow> d \<in> set ds \<Longrightarrow> suLastActive d = 0"
  by (auto simp: filter_empty_conv)

lemma subscription_set_row:
  assumes "distinct (map suSubscriptionID ds)" "find (\<lambda>d. suSubscriptionID d = sbID s) ds = Some d"
    "su_fits d" "su_weight d \<le> int64_max"
  shows "subscription_set ds s = add_usage d s"
proof -
  have d: "d \<in> set ds" "suSubscriptionID d = sbID s"
    using assms(2) by (auto simp: find_Some_iff)
  then have "sbID s \<in> suSubscriptionID ` set ds" by force
  moreover have "wrap64 (suUpload d + suDownload d) = suUpload d + suDownload d"
    using assms(3,4) by (auto intro!: wrap64_id simp: su_fits_def su_weight_def int64_min_def)
  ultimately show ?thesis
    using assms(1,2) timed_none [OF _ d(1)]
    by (auto simp: subscription_set_def add_usage_def subscriptionCounterCase_def subscriptionActivityCase_def
        find_filter_unique Let_def)
qed

interpretation sub_batches: row_batches sbID suSubscriptionID su_zero su_merge su_fits su_weight add_usage
    "\<lambda>d. True" subscription_set
proof unfold_locales
  fix c d :: UsageDelta and ds and s
  show "suSubscriptionID (su_merge c d) = suSubscriptionID d" by (simp add: su_merge_def)
  show "su_fits d \<Longrightarrow> 0 \<le> su_weight d" by (simp add: su_fits_def su_weight_def)
  show "su_fits (su_merge su_zero d) \<and> su_weight (su_merge su_zero d) = su_weight d
      \<and> add_usage (su_merge su_zero d) = add_usage d"
    if "su_fits d" "su_weight d \<le> int64_max"
  proof -
    have "wrap64 (suUpload d) = suUpload d" "wrap64 (suDownload d) = suDownload d"
      using that by (auto intro!: wrap64_id simp: su_fits_def su_weight_def int64_min_def)
    then have "su_merge su_zero d = d" by (simp add: su_defs)
    then show ?thesis using that by simp
  qed
  show "su_fits (su_merge c d) \<and> su_weight (su_merge c d) = su_weight c + su_weight d
      \<and> add_usage (su_merge c d) = add_usage d \<circ> add_usage c"
    if "su_fits c" "su_fits d" "suSubscriptionID c = suSubscriptionID d" "su_weight c + su_weight d \<le> int64_max"
  proof -
    have "wrap64 (suUpload c + suUpload d) = suUpload c + suUpload d"
      "wrap64 (suDownload c + suDownload d) = suDownload c + suDownload d"
      using that by (auto intro!: wrap64_id simp: su_fits_def su_weight_def int64_min_def)
    then have m: "su_merge c d = \<lparr>suSubscriptionID = suSubscriptionID d, suUpload = suUpload c + suUpload d,
        suDownload = suDownload c + suDownload d,
        suLastActive = (if suLastActive d > suLastActive c then suLastActive d else suLastActive c)\<rparr>"
      by (simp add: su_merge_def)
    show ?thesis
      using that unfolding m by (auto simp: fun_eq_iff su_fits_def su_weight_def add_usage_def newer_seen_twice)
  qed
  show "sbID (add_usage d s) = sbID s" "sbID (subscription_set ds s) = sbID s"
    by (simp_all add: add_usage_def subscription_set_def Let_def split: option.split)
  show "subscription_set ds s = s" if "find (\<lambda>d. suSubscriptionID d = sbID s) ds = None"
    using that by (auto simp: subscription_set_def find_None_iff)
qed (simp_all add: subscription_set_row)

definition dd_fits :: "DailyUsageDelta \<Rightarrow> bool" where
  "dd_fits d \<longleftrightarrow> 0 \<le> ddUpload d \<and> 0 \<le> ddDownload d"

definition dd_weight :: "DailyUsageDelta \<Rightarrow> int" where
  "dd_weight d = ddUpload d + ddDownload d"

definition dd_tidy :: "DailyUsageDelta \<Rightarrow> bool" where
  "dd_tidy d \<longleftrightarrow> utc_day (ddDate d) = ddDate d"

lemma utc_day_twice [simp]: "utc_day (utc_day t) = utc_day t"
  by (simp add: utc_day_def minus_mod_eq_mult_div)

lemma daily_statement_at:
  "distinct (map dd_key ds) \<Longrightarrow> list_all dd_tidy ds \<Longrightarrow>
    daily_statement ds t k = (case find (\<lambda>d. dd_key d = k) ds of None \<Rightarrow> t k | Some d \<Rightarrow> daily_upsert d (t k))"
proof (induction ds arbitrary: t)
  case (Cons d ds)
  let ?t = "t(dd_key d := daily_upsert d (t (dd_key d)))"
  have "find (\<lambda>e. dd_key e = dd_key d) ds = None"
    using Cons.prems(1) unfolding find_None_iff by (metis distinct.simps(2) image_eqI list.simps(9) set_map)
  moreover have "dd_key d = (ddSubscriptionID d, ddDate d)"
    using Cons.prems(2) by (simp add: dd_key_def dd_tidy_def)
  then have "daily_statement (d # ds) t = daily_statement ds ?t" by (simp add: daily_statement_def)
  ultimately show ?case using Cons.IH [of ?t] Cons.prems by (auto simp: fun_upd_def split: option.split)
qed (simp add: daily_statement_def)

interpretation day_batches: update_batches dd_key dd_zero dd_merge dd_fits dd_tidy dd_weight daily_upsert
    "\<lambda>d. True" "\<lambda>t. t" daily_statement
proof unfold_locales
  fix c d :: DailyUsageDelta
  show "dd_key (dd_merge c d) = dd_key d" "dd_tidy (dd_merge c d)"
    by (simp_all add: dd_merge_def dd_key_def dd_tidy_def)
  show "dd_fits d \<Longrightarrow> 0 \<le> dd_weight d" by (simp add: dd_fits_def dd_weight_def)
  show "dd_fits (dd_merge dd_zero d) \<and> dd_weight (dd_merge dd_zero d) = dd_weight d
      \<and> daily_upsert (dd_merge dd_zero d) = daily_upsert d"
    if "dd_fits d" "dd_weight d \<le> int64_max"
  proof -
    have "wrap64 (ddUpload d) = ddUpload d" "wrap64 (ddDownload d) = ddDownload d"
      using that by (auto intro!: wrap64_id simp: dd_fits_def dd_weight_def int64_min_def)
    then have "dd_merge dd_zero d = d\<lparr>ddDate := utc_day (ddDate d)\<rparr>" by (simp add: dd_merge_def dd_zero_def)
    then show ?thesis using that by (simp add: dd_fits_def dd_weight_def daily_upsert_def Let_def fun_eq_iff split: option.split)
  qed
  show "dd_fits (dd_merge c d) \<and> dd_weight (dd_merge c d) = dd_weight c + dd_weight d
      \<and> daily_upsert (dd_merge c d) = daily_upsert d \<circ> daily_upsert c"
    if "dd_fits c" "dd_fits d" "dd_key c = dd_key d" "dd_weight c + dd_weight d \<le> int64_max"
  proof -
    have w: "wrap64 (ddUpload c + ddUpload d) = ddUpload c + ddUpload d"
      "wrap64 (ddDownload c + ddDownload d) = ddDownload c + ddDownload d"
      "wrap64 (ddUpload c + ddDownload c) = ddUpload c + ddDownload c"
      "wrap64 (ddUpload d + ddDownload d) = ddUpload d + ddDownload d"
      "wrap64 (ddUpload c + ddUpload d + (ddDownload c + ddDownload d)) = ddUpload c + ddUpload d + (ddDownload c + ddDownload d)"
      using that by (auto intro!: wrap64_id simp: dd_fits_def dd_weight_def int64_min_def)
    then show ?thesis
      using that by (auto simp: dd_merge_def dd_fits_def dd_weight_def daily_upsert_def coalesce0_def w Let_def fun_eq_iff
          split: option.split)
  qed
qed (simp_all add: daily_statement_at)

text \<open>On rows whose splits are set the two upserts agree.\<close>

definition splits_set :: "DailyUsage option \<Rightarrow> bool" where
  "splits_set r \<longleftrightarrow> (case r of None \<Rightarrow> True | Some row \<Rightarrow> dyDataUpload row \<noteq> None \<and> dyDataDownload row \<noteq> None)"

definition split_one :: "DailyUsageDelta \<Rightarrow> daily_table \<Rightarrow> daily_table" where
  "split_one d = AddDailyUsageSplit (ddSubscriptionID d) (utc_day (ddDate d)) (ddUpload d) (ddDownload d)"

lemma split_one_at:
  "splits_set (t (dd_key d)) \<Longrightarrow> split_one d t = t(dd_key d := daily_upsert d (t (dd_key d)))"
  by (auto simp: split_one_def AddDailyUsageSplit_def dd_key_def daily_upsert_def coalesce0_def splits_set_def Let_def
      split: option.split)

lemma splits_all_at:
  "(\<And>k. splits_set (t k)) \<Longrightarrow>
    fold split_one ds t k = fold daily_upsert (filter (\<lambda>d. dd_key d = k) ds) (t k)"
proof (induction ds arbitrary: t)
  case (Cons d ds)
  let ?t = "t(dd_key d := daily_upsert d (t (dd_key d)))"
  have "splits_set (?t k)" for k
    using Cons.prems by (simp add: splits_set_def daily_upsert_def Let_def split: option.split)
  then show ?case using Cons by (simp add: split_one_at)
qed simp

text \<open>
  A stats sweep writes its traffic with two batched statements, and each has the effect of its
  deltas applied one after the other. \<open>AddUsageDeltas\<close> adds to every counter of a subscription, the
  ones that reset and the lifetime ones, exactly the bytes of its deltas, with \<open>last_active_at\<close>
  never going back; subscriptions without a delta stay as they are. \<open>AddDailyUsageSplits\<close> is
  \<open>AddDailyUsageSplit\<close> once per delta, on the delta's UTC day, creating the days that are missing.
  The deltas are byte counts whose sum is an \<open>int64\<close>, and no row has a NULL split.
\<close>

theorem usage_batches_are_one_by_one:
  assumes "distinct (map sbID t)"
    and "list_all (\<lambda>d. 0 \<le> suUpload d \<and> 0 \<le> suDownload d) deltas"
    and "(\<Sum>d \<leftarrow> deltas. suUpload d + suDownload d) \<le> int64_max"
    and "\<And>k. splits_set (days k)"
    and "list_all (\<lambda>d. 0 \<le> ddUpload d \<and> 0 \<le> ddDownload d) splits"
    and "(\<Sum>d \<leftarrow> splits. ddUpload d + ddDownload d) \<le> int64_max"
  shows "AddUsageDeltas deltas t = fold (\<lambda>d. update_sub (suSubscriptionID d) (add_usage d)) deltas t
    \<and> AddDailyUsageSplits splits days = fold split_one splits days"
proof
  have "list_all su_fits deltas" "(\<Sum>d \<leftarrow> deltas. su_weight d) \<le> int64_max"
    using assms(2,3) by (simp_all add: list_all_iff su_fits_def su_weight_def)
  then show "AddUsageDeltas deltas t = fold (\<lambda>d. update_sub (suSubscriptionID d) (add_usage d)) deltas t"
    using sub_batches.batches_are_one_by_one [OF assms(1)]
    by (simp add: AddUsageDeltas_def trafficBatchSize_def update_sub_def)
  have "list_all dd_fits splits" "(\<Sum>d \<leftarrow> splits. dd_weight d) \<le> int64_max"
    using assms(5,6) by (simp_all add: list_all_iff dd_fits_def dd_weight_def)
  then have "AddDailyUsageSplits splits days k = fold split_one splits days k" for k
    using day_batches.batches_are_the_deltas [where n = trafficBatchSize] splits_all_at [OF assms(4)]
    by (simp add: AddDailyUsageSplits_def trafficBatchSize_def)
  then show "AddDailyUsageSplits splits days = fold split_one splits days" by (rule ext)
qed

definition fresh_sub :: "nat \<Rightarrow> Subscription" where
  "fresh_sub i = \<lparr>sbID = i, sbUserID = Some 1, sbStatus = StatusActive, sbMaxDevices = 0, sbPauseReason = [],
     sbEndDate = None, sbDataUsed = 0, sbLifetimeDataUsed = 0, sbDataUpload = 0, sbDataDownload = 0,
     sbLifetimeDataUpload = 0, sbLifetimeDataDownload = 0, sbDataLimit = 0, sbLastActiveAt = None,
     sbCustomDataLimit = None, sbCustomEndDate = None, sbCustomBandwidthLimit = None,
     sbIsDataLimitCustom = False, sbIsEndDateCustom = False, sbIsBandwidthCustom = False,
     sbLastDataWarning = None, sbDataWarningLevel = 0, sbCreatedAt = 0\<rparr>"

theorem usage_batches_are_one_by_one_witness:
  "let ds = [\<lparr>suSubscriptionID = 2, suUpload = 5, suDownload = 6, suLastActive = 9\<rparr>,
             \<lparr>suSubscriptionID = 2, suUpload = 1, suDownload = 0, suLastActive = 4\<rparr>];
       days = [\<lparr>ddSubscriptionID = 2, ddDate = 7, ddUpload = 5, ddDownload = 6\<rparr>,
               \<lparr>ddSubscriptionID = 2, ddDate = 9, ddUpload = 1, ddDownload = 0\<rparr>]
   in map (\<lambda>s. (sbDataUsed s, sbLastActiveAt s)) (AddUsageDeltas ds [fresh_sub 1, fresh_sub 2]) = [(0, None), (12, Some 9)]
    \<and> map_option dyDataUsed (AddDailyUsageSplits days (\<lambda>k. None) (2, 0)) = Some 12"
proof -
  let ?ds = "[\<lparr>suSubscriptionID = 2, suUpload = 5, suDownload = 6, suLastActive = 9\<rparr>,
             \<lparr>suSubscriptionID = 2, suUpload = 1, suDownload = 0, suLastActive = 4\<rparr>]"
  let ?days = "[\<lparr>ddSubscriptionID = 2, ddDate = 7, ddUpload = 5, ddDownload = 6\<rparr>,
               \<lparr>ddSubscriptionID = 2, ddDate = 9, ddUpload = 1, ddDownload = 0\<rparr>]"
  have "AddUsageDeltas ?ds [fresh_sub 1, fresh_sub 2]
      = fold (\<lambda>d. update_sub (suSubscriptionID d) (add_usage d)) ?ds [fresh_sub 1, fresh_sub 2]
    \<and> AddDailyUsageSplits ?days (\<lambda>k. None) = fold split_one ?days (\<lambda>k. None)"
    by (rule usage_batches_are_one_by_one) (simp_all add: fresh_sub_def int64_max_def splits_set_def)
  moreover have "map (\<lambda>s. (sbDataUsed s, sbLastActiveAt s))
      (fold (\<lambda>d. update_sub (suSubscriptionID d) (add_usage d)) ?ds [fresh_sub 1, fresh_sub 2]) = [(0, None), (12, Some 9)]"
    by (simp add: update_sub_def update_row_def add_usage_def fresh_sub_def newer_seen_def)
  moreover have "wrap64 11 = 11" "wrap64 1 = 1" by (simp_all add: wrap64_id int64_min_def int64_max_def)
  then have "map_option dyDataUsed (fold split_one ?days (\<lambda>k. None) (2, 0)) = Some 12"
    by (simp add: split_one_def AddDailyUsageSplit_def utc_day_def day_def minute_def Let_def)
  ultimately show ?thesis by (simp add: Let_def)
qed

end
