(* ===== verification/Account.thy ===== *)
theory Account
  imports Wg_Devices Subscription
begin

text \<open>
  Accounts: \<open>internal/account/domain/account.go\<close> and \<open>internal/account/repository\<close>. An account is a
  user's credential on one inbound. A deleted account stays in the table, marked; the lists and the
  updates of the default scope pass over it. The relations that gorm loads with a row (the inbound
  and its node) are read from the inbound table where they are used. Creation times order the
  lists. The lemmas show what the lists hold and that the batched counters are the single ones.
\<close>

section \<open>Accounts and their table\<close>

datatype AccountSource =
    SourceSubscription | SourceManual | SourceImport | SourceAdminBulk | SourceAdminExcluded

datatype AccountStatus = AccActive | AccDisabled | AccExpired | AccPendingProvision

record Account =
  acID :: nat
  acInboundID :: nat
  acEmail :: string
  acUUID :: string
  acFlow :: string
  acEncryption :: string
  acSource :: AccountSource
  acSubscriptionID :: "nat option"
  acStatus :: AccountStatus
  acDataLimit :: int
  acDataUsed :: int
  acExpiresAt :: "int option"
  acLastActivityAt :: "nat option"
  acCreatedAt :: int
  acDeleted :: bool

type_synonym acct_table = "Account list"

definition acc_IsExpired :: "int \<Rightarrow> Account \<Rightarrow> bool" where
  "acc_IsExpired now a = (case acExpiresAt a of None \<Rightarrow> False | Some e \<Rightarrow> now > e)"

definition acc_IsDataExhausted :: "Account \<Rightarrow> bool" where
  "acc_IsDataExhausted a = (if acDataLimit a = 0 then False else acDataUsed a \<ge> acDataLimit a)"

definition acc_RemainingData :: "Account \<Rightarrow> int" where
  "acc_RemainingData a =
     (if acDataLimit a = 0 then - 1
      else let remaining = wrap64 (acDataLimit a - acDataUsed a) in if remaining < 0 then 0 else remaining)"

definition acc_FindByID :: "nat \<Rightarrow> acct_table \<Rightarrow> Account option" where
  "acc_FindByID i t = find (\<lambda>a. acID a = i \<and> \<not> acDeleted a) t"

definition newest_first :: "Account list \<Rightarrow> Account list" where
  "newest_first = sort_key (\<lambda>a. - acCreatedAt a)"

definition ListBySubscriptionID :: "nat \<Rightarrow> acct_table \<Rightarrow> Account list" where
  "ListBySubscriptionID subID t = newest_first
     (filter (\<lambda>a. \<not> acDeleted a \<and> acSubscriptionID a = Some subID \<and> acSource a \<noteq> SourceAdminExcluded) t)"

definition ListAllBySubscriptionID :: "nat \<Rightarrow> acct_table \<Rightarrow> Account list" where
  "ListAllBySubscriptionID subID t =
     newest_first (filter (\<lambda>a. \<not> acDeleted a \<and> acSubscriptionID a = Some subID) t)"

text \<open>The join drops an account whose inbound is gone.\<close>

definition ListByNodeID :: "(nat \<Rightarrow> Inbound option) \<Rightarrow> nat \<Rightarrow> acct_table \<Rightarrow> Account list" where
  "ListByNodeID inbounds nodeID t = newest_first
     (filter (\<lambda>a. \<not> acDeleted a \<and> map_option inNodeID (inbounds (acInboundID a)) = Some nodeID) t)"

definition acc_ListDataExhausted :: "acct_table \<Rightarrow> Account list" where
  "acc_ListDataExhausted t =
     filter (\<lambda>a. \<not> acDeleted a \<and> acDataLimit a > 0 \<and> acDataUsed a \<ge> acDataLimit a \<and> acStatus a = AccActive) t"

definition update_acc :: "(Account \<Rightarrow> bool) \<Rightarrow> (Account \<Rightarrow> Account) \<Rightarrow> acct_table \<Rightarrow> acct_table" where
  "update_acc P f t = map (\<lambda>a. if P a \<and> \<not> acDeleted a then f a else a) t"

definition acc_UpdateStatus :: "nat \<Rightarrow> AccountStatus \<Rightarrow> acct_table \<Rightarrow> acct_table" where
  "acc_UpdateStatus i st t = update_acc (\<lambda>a. acID a = i) (\<lambda>a. a\<lparr>acStatus := st\<rparr>) t"

definition acc_Delete :: "nat \<Rightarrow> acct_table \<Rightarrow> acct_table" where
  "acc_Delete i t = update_acc (\<lambda>a. acID a = i) (\<lambda>a. a\<lparr>acDeleted := True\<rparr>) t"

definition ForceDeleteBySubscriptionID :: "nat \<Rightarrow> acct_table \<Rightarrow> acct_table" where
  "ForceDeleteBySubscriptionID subID t = filter (\<lambda>a. acSubscriptionID a \<noteq> Some subID) t"

definition UpdateDataLimitBySubscriptionID :: "nat \<Rightarrow> int \<Rightarrow> acct_table \<Rightarrow> acct_table" where
  "UpdateDataLimitBySubscriptionID subID limit t =
     update_acc (\<lambda>a. acSubscriptionID a = Some subID) (\<lambda>a. a\<lparr>acDataLimit := limit\<rparr>) t"

definition ResetDataUsedBySubscriptionID :: "nat \<Rightarrow> acct_table \<Rightarrow> acct_table" where
  "ResetDataUsedBySubscriptionID subID t =
     update_acc (\<lambda>a. acSubscriptionID a = Some subID) (\<lambda>a. a\<lparr>acDataUsed := 0\<rparr>) t"

definition ExistsByUUIDAndInbound :: "string \<Rightarrow> nat \<Rightarrow> nat \<Rightarrow> acct_table \<Rightarrow> bool" where
  "ExistsByUUIDAndInbound uuid inboundID excludeID t =
     list_ex (\<lambda>a. \<not> acDeleted a \<and> acUUID a = uuid \<and> acInboundID a = inboundID \<and> acID a \<noteq> excludeID) t"

text \<open>
  \<open>Save\<close> of a loaded account: every column is written. The unique index on email and inbound, which
  counts deleted rows too, makes it fail.
\<close>

definition acc_Update :: "Account \<Rightarrow> acct_table \<Rightarrow> acct_table option" where
  "acc_Update a t =
     (if list_ex (\<lambda>b. acID b \<noteq> acID a \<and> acEmail b = acEmail a \<and> acInboundID b = acInboundID a) t then None
      else Some (map (\<lambda>b. if acID b = acID a then a else b) t))"

section \<open>Batched counters\<close>

record AccUsageDelta =
  auAccountID :: nat
  auBytes :: int
  auLastActive :: nat

definition au_zero :: AccUsageDelta where
  "au_zero = \<lparr>auAccountID = 0, auBytes = 0, auLastActive = 0\<rparr>"

definition au_merge :: "AccUsageDelta \<Rightarrow> AccUsageDelta \<Rightarrow> AccUsageDelta" where
  "au_merge merged delta =
     \<lparr>auAccountID = auAccountID delta, auBytes = wrap64 (auBytes merged + auBytes delta),
      auLastActive = (if auLastActive delta > auLastActive merged then auLastActive delta else auLastActive merged)\<rparr>"

definition account_set :: "AccUsageDelta list \<Rightarrow> Account \<Rightarrow> Account" where
  "account_set batch a =
     (if acID a \<in> set (map auAccountID batch) \<and> \<not> acDeleted a then
       let a' = a\<lparr>acDataUsed := acDataUsed a
                 + (case find (\<lambda>d. auAccountID d = acID a) batch of None \<Rightarrow> 0 | Some d \<Rightarrow> auBytes d)\<rparr>;
           timed = filter (\<lambda>d. auLastActive d \<noteq> 0) batch
       in if timed = [] then a'
          else a'\<lparr>acLastActivityAt := (case find (\<lambda>d. auAccountID d = acID a) timed of
                 None \<Rightarrow> acLastActivityAt a | Some d \<Rightarrow> newer_seen (auLastActive d) (acLastActivityAt a))\<rparr>
     else a)"

definition acc_trafficBatchSize :: nat where "acc_trafficBatchSize = 50"

definition acc_AddUsageDeltas :: "AccUsageDelta list \<Rightarrow> acct_table \<Rightarrow> acct_table" where
  "acc_AddUsageDeltas deltas t =
     send_batches acc_trafficBatchSize (merge_all auAccountID au_zero au_merge deltas) (\<lambda>d. True)
       (\<lambda>batch. map (account_set batch)) t"

definition add_bytes :: "AccUsageDelta \<Rightarrow> Account \<Rightarrow> Account" where
  "add_bytes d a = (if acDeleted a then a else a\<lparr>acDataUsed := acDataUsed a + auBytes d,
     acLastActivityAt := (if auLastActive d = 0 then acLastActivityAt a
       else newer_seen (auLastActive d) (acLastActivityAt a))\<rparr>)"

lemma account_set_row:
  assumes "distinct (map auAccountID ds)" "find (\<lambda>d. auAccountID d = acID a) ds = Some d"
  shows "account_set ds a = add_bytes d a"
proof -
  have d: "d \<in> set ds" "auAccountID d = acID a" using assms(2) by (auto simp: find_Some_iff)
  then have "acID a \<in> auAccountID ` set ds" by force
  moreover have "filter (\<lambda>d. auLastActive d \<noteq> 0) ds = [] \<Longrightarrow> auLastActive d = 0"
    using d(1) by (auto simp: filter_empty_conv)
  ultimately show ?thesis
    using assms by (auto simp: account_set_def add_bytes_def find_filter_unique Let_def)
qed

interpretation acc_batches: row_batches acID auAccountID au_zero au_merge "\<lambda>d. 0 \<le> auBytes d" auBytes add_bytes
    "\<lambda>d. True" account_set
proof unfold_locales
  fix c d :: AccUsageDelta and ds and a
  show "0 \<le> auBytes (au_merge au_zero d) \<and> auBytes (au_merge au_zero d) = auBytes d
      \<and> add_bytes (au_merge au_zero d) = add_bytes d" if "0 \<le> auBytes d" "auBytes d \<le> int64_max"
  proof -
    have "wrap64 (auBytes d) = auBytes d" using that by (intro wrap64_id) (simp_all add: int64_min_def)
    then have "au_merge au_zero d = d" by (simp add: au_merge_def au_zero_def)
    then show ?thesis using that by simp
  qed
  show "0 \<le> auBytes (au_merge c d) \<and> auBytes (au_merge c d) = auBytes c + auBytes d
      \<and> add_bytes (au_merge c d) = add_bytes d \<circ> add_bytes c"
    if "0 \<le> auBytes c" "0 \<le> auBytes d" "auAccountID c = auAccountID d" "auBytes c + auBytes d \<le> int64_max"
  proof -
    have "wrap64 (auBytes c + auBytes d) = auBytes c + auBytes d"
      using that by (intro wrap64_id) (simp_all add: int64_min_def)
    then show ?thesis
      using that by (auto simp: fun_eq_iff au_merge_def add_bytes_def newer_seen_twice)
  qed
  show "acID (add_bytes d a) = acID a" "acID (account_set ds a) = acID a"
    by (simp_all add: add_bytes_def account_set_def Let_def split: option.split)
  show "account_set ds a = a" if "find (\<lambda>d. auAccountID d = acID a) ds = None"
    using that by (auto simp: account_set_def find_None_iff)
qed (simp_all add: au_merge_def account_set_row)

lemma acc_AddUsageDeltas_one_by_one:
  assumes "distinct (map acID t)" "list_all (\<lambda>d. 0 \<le> auBytes d) deltas" "(\<Sum>d \<leftarrow> deltas. auBytes d) \<le> int64_max"
  shows "acc_AddUsageDeltas deltas t = fold (\<lambda>d. update_row acID (auAccountID d) (add_bytes d)) deltas t"
  using acc_batches.batches_are_one_by_one [OF assms] by (simp add: acc_AddUsageDeltas_def acc_trafficBatchSize_def)

end
