(* ===== verification/Provisioning.thy ===== *)
theory Provisioning
  imports Account
begin

text \<open>
  The provisioning queue: \<open>internal/provisioning\<close>. A change of an account is written to a table of
  tasks; a worker takes the due ones in batches and carries them out on the nodes, with retries and
  exponential backoff. The node usecase is a port: its calls return an error text or nothing and
  change a world that stays abstract. Times are nanoseconds, 0 is Go's zero time. The backoff is computed in floats by
  the code; with a base of whole seconds, as here, every value up to \<open>2 ^ 53\<close> seconds is exact. The
  metrics and the log are left out.
  The lemmas show what a batch does to the table, how often and how soon a task can be tried, and
  what a finished task has done to the node.
\<close>

section \<open>Tasks and their table\<close>

datatype TaskType = TypeAddUser | TypeRemoveUser | TypeOther string

datatype TaskStatus = TaskPending | TaskProcessing | TaskFailed | TaskCompleted | TaskDead

record ProvisioningTask =
  ptID :: nat
  ptAccountID :: nat
  ptNodeID :: nat
  ptType :: TaskType
  ptStatus :: TaskStatus
  ptTargetAddress :: string
  ptInboundTag :: string
  ptUserEmail :: string
  ptUserUUID :: string
  ptUserFlow :: string
  ptUserEncryption :: string
  ptProtocol :: string
  ptRetryCount :: nat
  ptNextRetryAt :: int
  ptLastError :: string
  ptCreatedAt :: int

record task_table =
  ttRows :: "ProvisioningTask list"
  ttNext :: nat

definition Enqueue :: "int \<Rightarrow> ProvisioningTask \<Rightarrow> task_table \<Rightarrow> task_table" where
  "Enqueue now task t =
     \<lparr>ttRows = ttRows t @ [task\<lparr>ptID := ttNext t, ptCreatedAt := now,
        ptNextRetryAt := (if ptNextRetryAt task = 0 then now else ptNextRetryAt task)\<rparr>],
      ttNext = ttNext t + 1\<rparr>"

definition open_status :: "TaskStatus \<Rightarrow> bool" where
  "open_status st \<longleftrightarrow> st = TaskPending \<or> st = TaskFailed"

definition FetchPending :: "int \<Rightarrow> nat \<Rightarrow> task_table \<Rightarrow> ProvisioningTask list" where
  "FetchPending now limit t =
     take limit (sort_key ptNextRetryAt (filter (\<lambda>k. open_status (ptStatus k) \<and> ptNextRetryAt k \<le> now) (ttRows t)))"

definition update_task :: "nat \<Rightarrow> (ProvisioningTask \<Rightarrow> ProvisioningTask) \<Rightarrow> task_table \<Rightarrow> task_table" where
  "update_task i f t = t\<lparr>ttRows := update_row ptID i f (ttRows t)\<rparr>"

definition task_UpdateStatus :: "nat \<Rightarrow> TaskStatus \<Rightarrow> task_table \<Rightarrow> task_table" where
  "task_UpdateStatus i st = update_task i (\<lambda>k. k\<lparr>ptStatus := st\<rparr>)"

definition MarkSuccess :: "nat \<Rightarrow> task_table \<Rightarrow> task_table" where
  "MarkSuccess i = update_task i (\<lambda>k. k\<lparr>ptStatus := TaskCompleted, ptLastError := []\<rparr>)"

definition MarkFailed :: "nat \<Rightarrow> string \<Rightarrow> int \<Rightarrow> bool \<Rightarrow> task_table \<Rightarrow> task_table" where
  "MarkFailed i err nextRetry isDead = update_task i (\<lambda>k. k\<lparr>
     ptLastError := err, ptNextRetryAt := nextRetry, ptRetryCount := ptRetryCount k + 1,
     ptStatus := (if isDead then TaskDead else TaskFailed)\<rparr>)"

definition CountPending :: "task_table \<Rightarrow> nat" where
  "CountPending t = length (filter (\<lambda>k. open_status (ptStatus k)) (ttRows t))"

definition cancel_row :: "nat \<Rightarrow> ProvisioningTask \<Rightarrow> ProvisioningTask" where
  "cancel_row nodeID k =
     (if ptNodeID k = nodeID \<and> (open_status (ptStatus k) \<or> ptStatus k = TaskProcessing)
      then k\<lparr>ptStatus := TaskDead, ptLastError := ''Task cancelled due to node deletion''\<rparr> else k)"

definition CancelTasksForNode :: "nat \<Rightarrow> task_table \<Rightarrow> task_table" where
  "CancelTasksForNode nodeID t = t\<lparr>ttRows := map (cancel_row nodeID) (ttRows t)\<rparr>"

text \<open>The deletion only marks the rows; nothing that follows reads a marked one.\<close>

definition CleanupCompletedTasks :: "int \<Rightarrow> int \<Rightarrow> task_table \<Rightarrow> task_table" where
  "CleanupCompletedTasks now olderThanDays t = (let cutoff = now - olderThanDays * day in
     t\<lparr>ttRows := filter (\<lambda>k. \<not> ((ptStatus k = TaskCompleted \<or> ptStatus k = TaskDead) \<and> ptCreatedAt k < cutoff)) (ttRows t)\<rparr>)"

section \<open>The service\<close>

text \<open>\<^term>\<open>None\<close> is the error of an account whose inbound is not loaded.\<close>

definition EnqueueAddUser ::
    "int \<Rightarrow> (nat \<Rightarrow> Inbound option) \<Rightarrow> Account \<Rightarrow> string \<Rightarrow> task_table \<Rightarrow> task_table option" where
  "EnqueueAddUser now inbounds a target t =
     (case inbounds (acInboundID a) of
        None \<Rightarrow> None
      | Some i \<Rightarrow> Some (Enqueue now
          \<lparr>ptID = 0, ptAccountID = acID a, ptNodeID = inNodeID i, ptType = TypeAddUser, ptStatus = TaskPending,
           ptTargetAddress = target, ptInboundTag = inTag i, ptUserEmail = acEmail a, ptUserUUID = acUUID a,
           ptUserFlow = acFlow a, ptUserEncryption = acEncryption a, ptProtocol = inProtocol i,
           ptRetryCount = 0, ptNextRetryAt = 0, ptLastError = [], ptCreatedAt = 0\<rparr> t))"

definition EnqueueRemoveUser ::
    "int \<Rightarrow> (nat \<Rightarrow> Inbound option) \<Rightarrow> Account \<Rightarrow> string \<Rightarrow> task_table \<Rightarrow> task_table option" where
  "EnqueueRemoveUser now inbounds a target t =
     (case inbounds (acInboundID a) of
        None \<Rightarrow> None
      | Some i \<Rightarrow> Some (Enqueue now
          \<lparr>ptID = 0, ptAccountID = acID a, ptNodeID = inNodeID i, ptType = TypeRemoveUser, ptStatus = TaskPending,
           ptTargetAddress = target, ptInboundTag = inTag i, ptUserEmail = acEmail a, ptUserUUID = acUUID a,
           ptUserFlow = [], ptUserEncryption = [], ptProtocol = inProtocol i,
           ptRetryCount = 0, ptNextRetryAt = 0, ptLastError = [], ptCreatedAt = 0\<rparr> t))"

section \<open>The worker\<close>

record Config =
  cfMaxRetries :: nat
  cfBaseBackoff :: nat
  cfBatchSize :: nat

definition DefaultConfig :: Config where
  "DefaultConfig = \<lparr>cfMaxRetries = 10, cfBaseBackoff = 10, cfBatchSize = 20\<rparr>"

definition NewWorker_cfg :: "Config option \<Rightarrow> Config" where
  "NewWorker_cfg cfg = (case cfg of
     None \<Rightarrow> DefaultConfig
   | Some c \<Rightarrow>
       \<lparr>cfMaxRetries = (if cfMaxRetries c = 0 then cfMaxRetries DefaultConfig else cfMaxRetries c),
        cfBaseBackoff = (if cfBaseBackoff c = 0 then cfBaseBackoff DefaultConfig else cfBaseBackoff c),
        cfBatchSize = (if cfBatchSize c = 0 then cfBatchSize DefaultConfig else cfBatchSize c)\<rparr>)"

text \<open>
  The node usecase: \<open>GetNode\<close> says whether the node is in service, or fails; adding a user takes the
  inbound's tag, email, UUID, protocol, flow and encryption.
\<close>

record 'w agent =
  agGetNode :: "nat \<Rightarrow> 'w \<Rightarrow> string + bool"
  agAddUser :: "nat \<Rightarrow> string \<Rightarrow> string \<Rightarrow> string \<Rightarrow> string \<Rightarrow> string \<Rightarrow> string \<Rightarrow> 'w \<Rightarrow> string option \<times> 'w"
  agRemoveUser :: "nat \<Rightarrow> string \<Rightarrow> string \<Rightarrow> 'w \<Rightarrow> string option \<times> 'w"
  agPush :: "nat \<Rightarrow> 'w \<Rightarrow> string option \<times> 'w"

definition is_wireguard :: "string \<Rightarrow> bool" where
  "is_wireguard protocol \<longleftrightarrow> map lower_char protocol = ''wireguard''"

text \<open>Protocol and encryption as the node gets them.\<close>

definition task_protocol :: "ProvisioningTask \<Rightarrow> string" where
  "task_protocol task = (let protocol = map lower_char (ptProtocol task) in if protocol = [] then ''vless'' else protocol)"

definition task_encryption :: "ProvisioningTask \<Rightarrow> string" where
  "task_encryption task =
     (if ptUserEncryption task = [] \<and> task_protocol task = ''vless'' then ''none'' else ptUserEncryption task)"

text \<open>The add, and the removal and second add where the user is there already.\<close>

definition add_or_replace :: "'w agent \<Rightarrow> ProvisioningTask \<Rightarrow> 'w \<Rightarrow> string option \<times> 'w" where
  "add_or_replace ag task w =
     (let add = agAddUser ag (ptNodeID task) (ptInboundTag task) (ptUserEmail task) (ptUserUUID task)
            (task_protocol task) (ptUserFlow task) (task_encryption task)
      in case add w of
        (None, w) \<Rightarrow> (None, w)
      | (Some err, w) \<Rightarrow>
          if contains_str err ''unsupported protocol'' then agPush ag (ptNodeID task) w
          else if contains_str err ''already exists'' then
            (case agRemoveUser ag (ptNodeID task) (ptInboundTag task) (ptUserEmail task) w of
               (remErr, w) \<Rightarrow>
                 if (case remErr of None \<Rightarrow> False | Some e \<Rightarrow> \<not> contains_str e ''not found'')
                 then (Some (''user '' @ ptUserEmail task @ '' already exists but remove for re-add failed: '' @ the remErr), w)
                 else (case add w of
                   (None, w) \<Rightarrow> (None, w)
                 | (Some err, w) \<Rightarrow> if contains_str err ''already exists'' then (None, w) else (Some err, w)))
          else (Some err, w))"

definition addUserToXray :: "'w agent \<Rightarrow> ProvisioningTask \<Rightarrow> 'w \<Rightarrow> string option \<times> 'w" where
  "addUserToXray ag task w =
     (if is_wireguard (ptProtocol task) then (None, w)
      else if ptNodeID task = 0 then (Some (''task '' @ dec (ptID task) @ '' has no NodeID''), w)
      else case agGetNode ag (ptNodeID task) w of
        Inl err \<Rightarrow> if contains_str err ''not found'' \<or> contains_str err ''record not found'' then (None, w)
          else (Some (''failed to get node '' @ dec (ptNodeID task) @ '': '' @ err), w)
      | Inr active \<Rightarrow> if \<not> active then (None, w) else add_or_replace ag task w)"

definition removeUserFromXray :: "'w agent \<Rightarrow> ProvisioningTask \<Rightarrow> 'w \<Rightarrow> string option \<times> 'w" where
  "removeUserFromXray ag task w =
     (if is_wireguard (ptProtocol task) then (None, w)
      else if ptNodeID task = 0 then (Some (''task '' @ dec (ptID task) @ '' has no NodeID''), w)
      else case agGetNode ag (ptNodeID task) w of
        Inl err \<Rightarrow> if contains_str err ''not found'' \<or> contains_str err ''record not found'' then (None, w)
          else (Some (''failed to get node '' @ dec (ptNodeID task) @ '': '' @ err), w)
      | Inr active \<Rightarrow>
          (case agRemoveUser ag (ptNodeID task) (ptInboundTag task) (ptUserEmail task) w of
             (None, w) \<Rightarrow> (None, w)
           | (Some err, w) \<Rightarrow>
               if contains_str err ''not found'' then (None, w)
               else if contains_str err ''unsupported protocol'' then agPush ag (ptNodeID task) w
               else (Some err, w)))"

definition nanos :: int where "nanos = 1000000000"

definition backoff :: "Config \<Rightarrow> nat \<Rightarrow> int" where
  "backoff cfg retries = int (2 ^ retries * cfBaseBackoff cfg) * nanos"

definition handleFailure :: "Config \<Rightarrow> int \<Rightarrow> ProvisioningTask \<Rightarrow> string \<Rightarrow> task_table \<Rightarrow> task_table" where
  "handleFailure cfg now task err t =
     (let isDead = ptRetryCount task \<ge> cfMaxRetries cfg;
          nextRetry = now + backoff cfg (ptRetryCount task)
      in MarkFailed (ptID task) err nextRetry isDead t)"

definition execute :: "'w agent \<Rightarrow> ProvisioningTask \<Rightarrow> 'w \<Rightarrow> string option \<times> 'w" where
  "execute ag task w = (case ptType task of
     TypeAddUser \<Rightarrow> addUserToXray ag task w
   | TypeRemoveUser \<Rightarrow> removeUserFromXray ag task w
   | TypeOther ty \<Rightarrow> (Some (''unknown task type: '' @ ty), w))"

text \<open>\<open>now\<close> is the clock when the action has ended.\<close>

definition processTask :: "Config \<Rightarrow> int \<Rightarrow> 'w agent \<Rightarrow> ProvisioningTask \<Rightarrow> task_table \<times> 'w \<Rightarrow> task_table \<times> 'w" where
  "processTask cfg now ag task tw =
     (case tw of (t, w) \<Rightarrow>
        let t = task_UpdateStatus (ptID task) TaskProcessing t in
        case execute ag task w of
          (None, w) \<Rightarrow> (MarkSuccess (ptID task) t, w)
        | (Some err, w) \<Rightarrow> (handleFailure cfg now task err t, w))"

text \<open>\<open>at\<close> is the clock when a task of the batch has ended.\<close>

definition processBatch :: "Config \<Rightarrow> int \<Rightarrow> (nat \<Rightarrow> int) \<Rightarrow> 'w agent \<Rightarrow> task_table \<times> 'w \<Rightarrow> task_table \<times> 'w" where
  "processBatch cfg now at ag tw =
     fold (\<lambda>task. processTask cfg (at (ptID task)) ag task) (FetchPending now (cfBatchSize cfg) (fst tw)) tw"

section \<open>How often and how soon a task is tried\<close>

text \<open>
  Runs of the queue: requests, batches of the worker, what else happens to the tables in between,
  and crashes of the panel before, in and after an action. \<open>pqBatch\<close> is what the worker still holds
  of its batch. The log has an entry per action, with the clock at its end and the retry count it
  was tried with; only the statements read it.
\<close>

record 'w pq =
  pqTable :: task_table
  pqWorld :: 'w
  pqBatch :: "ProvisioningTask list"
  pqClock :: int
  pqLog :: "(nat \<times> int \<times> nat) list"

inductive prov_run :: "Config \<Rightarrow> 'w agent \<Rightarrow> 'w pq \<Rightarrow> bool" for cfg ag where
  pr_start: "prov_run cfg ag \<lparr>pqTable = \<lparr>ttRows = [], ttNext = 1\<rparr>, pqWorld = w, pqBatch = [], pqClock = c, pqLog = []\<rparr>"
| pr_tick: "prov_run cfg ag s \<Longrightarrow> pqClock s \<le> c \<Longrightarrow> prov_run cfg ag (s\<lparr>pqClock := c, pqWorld := w\<rparr>)"
| pr_enqueue: "prov_run cfg ag s \<Longrightarrow> ptStatus k = TaskPending \<Longrightarrow> ptRetryCount k = 0
    \<Longrightarrow> prov_run cfg ag (s\<lparr>pqTable := Enqueue (pqClock s) k (pqTable s)\<rparr>)"
| pr_cancel: "prov_run cfg ag s \<Longrightarrow> prov_run cfg ag (s\<lparr>pqTable := CancelTasksForNode n (pqTable s)\<rparr>)"
| pr_cleanup: "prov_run cfg ag s \<Longrightarrow> prov_run cfg ag (s\<lparr>pqTable := CleanupCompletedTasks (pqClock s) d (pqTable s)\<rparr>)"
| pr_fetch: "prov_run cfg ag s \<Longrightarrow> pqBatch s = []
    \<Longrightarrow> prov_run cfg ag (s\<lparr>pqBatch := FetchPending (pqClock s) (cfBatchSize cfg) (pqTable s)\<rparr>)"
| pr_task: "prov_run cfg ag s \<Longrightarrow> pqBatch s = k # ks \<Longrightarrow> pqClock s \<le> c
    \<Longrightarrow> processTask cfg c ag k (pqTable s, pqWorld s) = (t, w)
    \<Longrightarrow> prov_run cfg ag \<lparr>pqTable = t, pqWorld = w, pqBatch = ks, pqClock = c, pqLog = pqLog s @ [(ptID k, c, ptRetryCount k)]\<rparr>"
| pr_crash: "prov_run cfg ag s \<Longrightarrow> prov_run cfg ag (s\<lparr>pqBatch := []\<rparr>)"
| pr_crash_marked: "prov_run cfg ag s \<Longrightarrow> pqBatch s = k # ks
    \<Longrightarrow> prov_run cfg ag (s\<lparr>pqBatch := [], pqTable := task_UpdateStatus (ptID k) TaskProcessing (pqTable s)\<rparr>)"
| pr_crash_done: "prov_run cfg ag s \<Longrightarrow> pqBatch s = k # ks \<Longrightarrow> pqClock s \<le> c \<Longrightarrow> execute ag k (pqWorld s) = (r, w)
    \<Longrightarrow> prov_run cfg ag \<lparr>pqTable = task_UpdateStatus (ptID k) TaskProcessing (pqTable s), pqWorld = w,
         pqBatch = [], pqClock = c, pqLog = pqLog s @ [(ptID k, c, ptRetryCount k)]\<rparr>"

definition tries :: "nat \<Rightarrow> (nat \<times> int \<times> nat) list \<Rightarrow> nat" where
  "tries i log = length (filter (\<lambda>(j, c, n). j = i) log)"

definition spaced :: "Config \<Rightarrow> (nat \<times> int \<times> nat) list \<Rightarrow> bool" where
  "spaced cfg log \<longleftrightarrow>
     sorted_wrt (\<lambda>(i, c, n) (j, d, m). i = j \<longrightarrow> c + backoff cfg n \<le> d \<and> n < m) log"

text \<open>A task that can still be tried, in the table or in the worker's hands, fits the log so far.\<close>

definition fits_log :: "Config \<Rightarrow> (nat \<times> int \<times> nat) list \<Rightarrow> ProvisioningTask \<Rightarrow> bool" where
  "fits_log cfg log k \<longleftrightarrow> ptRetryCount k \<le> cfMaxRetries cfg \<and> tries (ptID k) log = ptRetryCount k
     \<and> (\<forall>(i, c, n) \<in> set log. i = ptID k \<longrightarrow> c + backoff cfg n \<le> ptNextRetryAt k \<and> n < ptRetryCount k)"

definition held_ok :: "task_table \<Rightarrow> ProvisioningTask \<Rightarrow> bool" where
  "held_ok t k \<longleftrightarrow> (\<forall>r \<in> set (ttRows t). ptID r = ptID k \<longrightarrow>
     ptRetryCount r = ptRetryCount k \<and> ptStatus r \<noteq> TaskProcessing \<and> ptStatus r \<noteq> TaskCompleted)"

definition queue_ok :: "Config \<Rightarrow> 'w pq \<Rightarrow> bool" where
  "queue_ok cfg s \<longleftrightarrow>
     distinct (map ptID (ttRows (pqTable s)))
     \<and> (\<forall>r \<in> set (ttRows (pqTable s)). ptID r < ttNext (pqTable s) \<and> (open_status (ptStatus r) \<longrightarrow> fits_log cfg (pqLog s) r))
     \<and> distinct (map ptID (pqBatch s))
     \<and> (\<forall>k \<in> set (pqBatch s). ptID k < ttNext (pqTable s) \<and> fits_log cfg (pqLog s) k \<and> held_ok (pqTable s) k
          \<and> ptNextRetryAt k \<le> pqClock s)
     \<and> (\<forall>(i, c, n) \<in> set (pqLog s). i < ttNext (pqTable s))
     \<and> (\<forall>i. tries i (pqLog s) \<le> cfMaxRetries cfg + 1)
     \<and> spaced cfg (pqLog s)"

lemma backoff_nonneg [simp]: "0 \<le> backoff cfg n"
  by (simp add: backoff_def nanos_def)

lemma tries_append [simp]: "tries i (log @ [(j, c, n)]) = tries i log + (if j = i then 1 else 0)"
  by (simp add: tries_def)

lemma fits_log_other [simp]: "ptID k \<noteq> i \<Longrightarrow> fits_log cfg (log @ [(i, c, n)]) k = fits_log cfg log k"
  by (auto simp: fits_log_def)

lemma spaced_append:
  assumes "spaced cfg log" "fits_log cfg log k" "ptNextRetryAt k \<le> c"
  shows "spaced cfg (log @ [(ptID k, c, ptRetryCount k)])"
  using assms by (fastforce simp: spaced_def fits_log_def sorted_wrt_append)

lemma update_row_twice:
  "(\<And>r. rid (f r) = rid r) \<Longrightarrow> update_row rid i g (update_row rid i f rows) = update_row rid i (g \<circ> f) rows"
  by (simp add: update_row_def)

text \<open>What handling a task does to its row: it is closed, or it is due later with one more retry.\<close>

definition settles :: "Config \<Rightarrow> int \<Rightarrow> nat \<Rightarrow> (ProvisioningTask \<Rightarrow> ProvisioningTask) \<Rightarrow> bool" where
  "settles cfg c n f \<longleftrightarrow> (\<forall>r. ptID (f r) = ptID r \<and> (open_status (ptStatus (f r)) \<longrightarrow>
     ptRetryCount (f r) = ptRetryCount r + 1 \<and> ptNextRetryAt (f r) = c + backoff cfg n \<and> n < cfMaxRetries cfg))"

lemma settles_Processing: "settles cfg c n (\<lambda>k. k\<lparr>ptStatus := TaskProcessing\<rparr>)"
  by (simp add: settles_def open_status_def)

lemma processTask_settles:
  assumes "processTask cfg c ag k (t, w) = (t', w')"
  obtains f where "t' = update_task (ptID k) f t" "settles cfg c (ptRetryCount k) f"
proof (cases "execute ag k w")
  case (Pair r w2)
  let ?p = "\<lambda>k. k\<lparr>ptStatus := TaskProcessing\<rparr>"
  show ?thesis
  proof (cases r)
    case None
    then have "t' = update_task (ptID k) ((\<lambda>k. k\<lparr>ptStatus := TaskCompleted, ptLastError := []\<rparr>) \<circ> ?p) t"
      using assms Pair by (simp add: processTask_def task_UpdateStatus_def MarkSuccess_def update_task_def update_row_twice)
    then show ?thesis by (rule that) (simp add: settles_def open_status_def)
  next
    case (Some err)
    then have "t' = update_task (ptID k) ((\<lambda>r. r\<lparr>ptLastError := err, ptNextRetryAt := c + backoff cfg (ptRetryCount k),
        ptRetryCount := ptRetryCount r + 1,
        ptStatus := (if cfMaxRetries cfg \<le> ptRetryCount k then TaskDead else TaskFailed)\<rparr>) \<circ> ?p) t"
      using assms Pair by (simp add: processTask_def task_UpdateStatus_def handleFailure_def MarkFailed_def
          update_task_def update_row_twice Let_def)
    then show ?thesis by (rule that) (simp add: settles_def open_status_def)
  qed
qed

lemma update_task_simps [simp]:
  "ttRows (update_task i f t) = update_row ptID i f (ttRows t)" "ttNext (update_task i f t) = ttNext t"
  by (simp_all add: update_task_def)

lemma set_update_row:
  "r \<in> set (update_row rid i f rows) \<longleftrightarrow>
    (\<exists>r' \<in> set rows. r = (if rid r' = i then f r' else r'))"
  by (simp only: update_row_def set_map image_iff)

lemma held_ok_other:
  "held_ok t k \<Longrightarrow> ptID k \<noteq> i \<Longrightarrow> (\<And>r. ptID (f r) = ptID r) \<Longrightarrow> held_ok (update_task i f t) k"
  by (fastforce simp: held_ok_def set_update_row split: if_splits)

lemma queue_ok_task:
  assumes ok: "queue_ok cfg s" and k: "pqBatch s = k # ks" and c: "pqClock s \<le> c"
    and f: "settles cfg c (ptRetryCount k) f"
  shows "queue_ok cfg \<lparr>pqTable = update_task (ptID k) f (pqTable s), pqWorld = w, pqBatch = ks, pqClock = c,
    pqLog = pqLog s @ [(ptID k, c, ptRetryCount k)]\<rparr>"
proof -
  let ?log = "pqLog s @ [(ptID k, c, ptRetryCount k)]"
  have fk: "fits_log cfg (pqLog s) k" "held_ok (pqTable s) k" "ptNextRetryAt k \<le> c" "ptID k < ttNext (pqTable s)"
    and ks: "k' \<in> set ks \<Longrightarrow> ptID k' \<noteq> ptID k" for k'
    using ok k c by (auto simp: queue_ok_def image_iff)
  have id: "ptID (f r) = ptID r" for r using f by (simp add: settles_def)
  have row: "fits_log cfg ?log (f r)"
    if "r \<in> set (ttRows (pqTable s))" "ptID r = ptID k" "open_status (ptStatus (f r))" for r
  proof -
    have "ptRetryCount r = ptRetryCount k" using fk(2) that by (simp add: held_ok_def)
    then have "ptRetryCount (f r) = ptRetryCount k + 1" "ptNextRetryAt (f r) = c + backoff cfg (ptRetryCount k)"
      "ptRetryCount k < cfMaxRetries cfg" using f that by (simp_all add: settles_def)
    moreover have "c' + backoff cfg n \<le> c" "n < ptRetryCount k" if "(ptID k, c', n) \<in> set (pqLog s)" for c' n
      using that fk(1,3) by (auto simp: fits_log_def)
    ultimately show ?thesis
      using fk(1) that(2) by (fastforce simp: fits_log_def id intro: add_increasing2)
  qed
  have "held_ok (update_task (ptID k) f (pqTable s)) k'" if "k' \<in> set ks" for k'
    using that ks ok k by (intro held_ok_other) (auto simp: queue_ok_def id image_iff)
  moreover have "spaced cfg ?log" "tries i ?log \<le> cfMaxRetries cfg + 1" for i
    using ok fk spaced_append [of cfg "pqLog s" k c] by (auto simp: queue_ok_def fits_log_def)
  moreover have "fits_log cfg ?log k'" if "k' \<in> set ks" for k'
    using that ks ok k by (auto simp: queue_ok_def image_iff)
  moreover have "ptID r < ttNext (pqTable s) \<and> (open_status (ptStatus r) \<longrightarrow> fits_log cfg ?log r)"
    if r: "r \<in> set (update_row ptID (ptID k) f (ttRows (pqTable s)))" for r
  proof -
    obtain r' where r': "r' \<in> set (ttRows (pqTable s))" "r = (if ptID r' = ptID k then f r' else r')"
      using r unfolding set_update_row by auto
    then show ?thesis using ok fk(4) row [of r'] id [of r'] by (cases "ptID r' = ptID k") (simp_all add: queue_ok_def)
  qed
  ultimately show ?thesis using ok k c fk(4) by (auto simp: queue_ok_def ids_update_row id)
qed

lemma queue_ok_drop: "queue_ok cfg s \<Longrightarrow> queue_ok cfg (s\<lparr>pqBatch := []\<rparr>)"
  by (simp add: queue_ok_def)

lemma queue_ok_marked:
  "queue_ok cfg s \<Longrightarrow> queue_ok cfg (s\<lparr>pqBatch := [], pqTable := task_UpdateStatus i TaskProcessing (pqTable s)\<rparr>)"
  by (auto simp: queue_ok_def task_UpdateStatus_def set_update_row ids_update_row open_status_def)

lemma queue_ok_enqueue:
  assumes "queue_ok cfg s" "ptStatus k = TaskPending" "ptRetryCount k = 0"
  shows "queue_ok cfg (s\<lparr>pqTable := Enqueue c k (pqTable s)\<rparr>)"
proof -
  let ?n = "ttNext (pqTable s)"
  have new: "(i, c, n) \<in> set (pqLog s) \<Longrightarrow> i \<noteq> ?n" for i c n using assms(1) by (fastforce simp: queue_ok_def)
  then have "tries ?n (pqLog s) = 0" by (auto simp: tries_def filter_empty_conv)
  then have fits: "ptID r = ?n \<Longrightarrow> ptRetryCount r = 0 \<Longrightarrow> fits_log cfg (pqLog s) r" for r
    using new by (auto simp: fits_log_def)
  have "?n \<notin> ptID ` set (ttRows (pqTable s))" using assms(1) by (auto simp: queue_ok_def)
  moreover have "held_ok (Enqueue c k (pqTable s)) b" if "b \<in> set (pqBatch s)" for b
    using that assms(1) by (auto simp: queue_ok_def Enqueue_def held_ok_def)
  ultimately show ?thesis using assms fits
    unfolding queue_ok_def by (auto simp: Enqueue_def less_Suc_eq split: prod.splits)
qed

lemma cancel_row_simps [simp]:
  "ptID (cancel_row n k) = ptID k" "ptRetryCount (cancel_row n k) = ptRetryCount k"
  "open_status (ptStatus (cancel_row n k)) \<Longrightarrow> cancel_row n k = k"
  by (auto simp: cancel_row_def open_status_def split: if_splits)

lemma cancel_row_status:
  "ptStatus (cancel_row n k) = TaskDead \<or> cancel_row n k = k"
  by (simp add: cancel_row_def)

lemma queue_ok_cancel:
  assumes "queue_ok cfg s"
  shows "queue_ok cfg (s\<lparr>pqTable := CancelTasksForNode n (pqTable s)\<rparr>)"
proof -
  have "held_ok (CancelTasksForNode n (pqTable s)) b" if "b \<in> set (pqBatch s)" for b
  proof -
    have h: "held_ok (pqTable s) b" using that assms by (simp add: queue_ok_def)
    have "ptStatus (cancel_row n r) \<noteq> TaskProcessing \<and> ptStatus (cancel_row n r) \<noteq> TaskCompleted"
      if "r \<in> set (ttRows (pqTable s))" "ptID r = ptID b" for r
      using h that cancel_row_status [of n r] by (auto simp: held_ok_def)
    then show ?thesis using h by (simp add: held_ok_def CancelTasksForNode_def)
  qed
  moreover have "ptID \<circ> cancel_row n = ptID" by (simp add: fun_eq_iff)
  moreover have "open_status (ptStatus (cancel_row n r)) \<Longrightarrow> fits_log cfg (pqLog s) r"
    if "r \<in> set (ttRows (pqTable s))" for r
    using that assms cancel_row_simps(3) [of n r] unfolding queue_ok_def by metis
  ultimately show ?thesis
    using assms unfolding queue_ok_def by (simp add: CancelTasksForNode_def)
qed

lemma queue_ok_cleanup: "queue_ok cfg s \<Longrightarrow> queue_ok cfg (s\<lparr>pqTable := CleanupCompletedTasks c d (pqTable s)\<rparr>)"
  by (auto simp: queue_ok_def held_ok_def CleanupCompletedTasks_def Let_def distinct_map_filter)

lemma FetchPending_sub: "k \<in> set (FetchPending c n t) \<Longrightarrow> k \<in> set (ttRows t) \<and> open_status (ptStatus k) \<and> ptNextRetryAt k \<le> c"
  by (auto simp: FetchPending_def dest!: in_set_takeD)

lemma FetchPending_distinct: "distinct (map ptID (ttRows t)) \<Longrightarrow> distinct (map ptID (FetchPending c n t))"
proof -
  assume "distinct (map ptID (ttRows t))"
  then have "distinct (ttRows t)" "inj_on ptID (set (ttRows t))" by (simp_all add: distinct_map)
  then have "distinct (FetchPending c n t)" "inj_on ptID (set (FetchPending c n t))"
    by (auto simp: FetchPending_def dest!: in_set_takeD intro: inj_on_subset)
  then show ?thesis by (simp add: distinct_map)
qed

lemma queue_ok_fetch:
  assumes "queue_ok cfg s"
  shows "queue_ok cfg (s\<lparr>pqBatch := FetchPending (pqClock s) n (pqTable s)\<rparr>)"
proof -
  have "held_ok (pqTable s) k" if "k \<in> set (FetchPending (pqClock s) n (pqTable s))" for k
  proof -
    have "k \<in> set (ttRows (pqTable s))" "open_status (ptStatus k)" using FetchPending_sub [OF that] by auto
    moreover have "inj_on ptID (set (ttRows (pqTable s)))" using assms by (simp add: queue_ok_def distinct_map)
    ultimately have "r = k" if "r \<in> set (ttRows (pqTable s))" "ptID r = ptID k" for r
      using that by (meson inj_onD)
    then show ?thesis using \<open>open_status (ptStatus k)\<close> unfolding held_ok_def open_status_def by force
  qed
  moreover have "fits_log cfg (pqLog s) k \<and> ptID k < ttNext (pqTable s) \<and> ptNextRetryAt k \<le> pqClock s"
    if "k \<in> set (FetchPending (pqClock s) n (pqTable s))" for k
    using FetchPending_sub [OF that] assms by (simp add: queue_ok_def)
  ultimately show ?thesis using assms FetchPending_distinct [of "pqTable s"] by (simp add: queue_ok_def)
qed

lemma prov_run_ok: "prov_run cfg ag s \<Longrightarrow> queue_ok cfg s"
proof (induction rule: prov_run.induct)
  case (pr_task s k ks c t w)
  from pr_task.hyps(4) obtain f where "t = update_task (ptID k) f (pqTable s)" "settles cfg c (ptRetryCount k) f"
    by (rule processTask_settles)
  then show ?case using queue_ok_task [OF pr_task.IH pr_task.hyps(2,3)] by simp
next
  case (pr_crash_done s k ks c r w)
  then show ?case
    using queue_ok_drop [OF queue_ok_task [OF pr_crash_done.IH pr_crash_done.hyps(2,3) settles_Processing, of w]]
    by (simp add: task_UpdateStatus_def)
next
  case (pr_tick s c w)
  then show ?case by (fastforce simp: queue_ok_def)
qed (simp_all add: queue_ok_enqueue queue_ok_cancel queue_ok_cleanup queue_ok_fetch queue_ok_drop queue_ok_marked,
    simp add: queue_ok_def tries_def spaced_def)

text \<open>
  In any run of the queue, with requests, cancellations, cleanups and crashes at any point, a
  task is tried at most once more than the number of retries, and not before its backoff is over:
  after a try with retry count \<open>n\<close> the next one of the same task ends at least the base times
  \<open>2 ^ n\<close> later and has a higher count.
\<close>

theorem tries_are_bounded_and_spaced:
  assumes "prov_run cfg ag s"
  shows "tries i (pqLog s) \<le> cfMaxRetries cfg + 1
    \<and> sorted_wrt (\<lambda>(i, c, n) (j, d, m). i = j \<longrightarrow> c + int (2 ^ n * cfBaseBackoff cfg) * nanos \<le> d \<and> n < m) (pqLog s)"
  using prov_run_ok [OF assms] by (simp add: queue_ok_def spaced_def backoff_def)

section \<open>A batch settles what it takes\<close>

text \<open>A row after its task was handled: closed, or due after the backoff; never left in between.\<close>

definition settled :: "Config \<Rightarrow> int \<Rightarrow> nat \<Rightarrow> ProvisioningTask \<Rightarrow> bool" where
  "settled cfg c n r \<longleftrightarrow> ptStatus r \<noteq> TaskProcessing \<and> (open_status (ptStatus r) \<longrightarrow> ptNextRetryAt r = c + backoff cfg n)"

lemma processTask_row:
  assumes "processTask cfg c ag k (t, w) = (t', w')"
  obtains f where "ttRows t' = update_row ptID (ptID k) f (ttRows t)"
    "\<And>r. ptID (f r) = ptID r" "\<And>r. settled cfg c (ptRetryCount k) (f r)"
proof (cases "execute ag k w")
  case (Pair r w2)
  let ?p = "\<lambda>k. k\<lparr>ptStatus := TaskProcessing\<rparr>"
  show ?thesis
  proof (cases r)
    case None
    then have "ttRows t' = update_row ptID (ptID k) ((\<lambda>k. k\<lparr>ptStatus := TaskCompleted, ptLastError := []\<rparr>) \<circ> ?p) (ttRows t)"
      using assms Pair by (auto simp: processTask_def task_UpdateStatus_def MarkSuccess_def update_row_twice)
    then show ?thesis by (rule that) (simp_all add: settled_def open_status_def)
  next
    case (Some err)
    then have "ttRows t' = update_row ptID (ptID k) ((\<lambda>r. r\<lparr>ptLastError := err,
        ptNextRetryAt := c + backoff cfg (ptRetryCount k), ptRetryCount := ptRetryCount r + 1,
        ptStatus := (if cfMaxRetries cfg \<le> ptRetryCount k then TaskDead else TaskFailed)\<rparr>) \<circ> ?p) (ttRows t)"
      using assms Pair by (auto simp: processTask_def task_UpdateStatus_def handleFailure_def MarkFailed_def
          update_row_twice Let_def)
    then show ?thesis by (rule that) (simp_all add: settled_def open_status_def)
  qed
qed

lemma batch_rows:
  "distinct (map ptID ks) \<Longrightarrow>
    \<exists>g. ttRows (fst (fold (\<lambda>k. processTask cfg (at (ptID k)) ag k) ks (t, w))) = map g (ttRows t)
      \<and> (\<forall>r. ptID (g r) = ptID r \<and> (ptID r \<notin> ptID ` set ks \<longrightarrow> g r = r)
          \<and> (\<forall>k \<in> set ks. ptID r = ptID k \<longrightarrow> settled cfg (at (ptID k)) (ptRetryCount k) (g r)))"
proof (induction ks arbitrary: t w)
  case Nil
  then show ?case by (intro exI [of _ id]) simp
next
  case (Cons k ks)
  obtain t1 w1 where p: "processTask cfg (at (ptID k)) ag k (t, w) = (t1, w1)" by fastforce
  then obtain f where f: "ttRows t1 = update_row ptID (ptID k) f (ttRows t)" "\<And>r. ptID (f r) = ptID r"
    "\<And>r. settled cfg (at (ptID k)) (ptRetryCount k) (f r)" by (rule processTask_row) blast
  obtain g where g: "ttRows (fst (fold (\<lambda>k. processTask cfg (at (ptID k)) ag k) ks (t1, w1))) = map g (ttRows t1)"
    "\<And>r. ptID (g r) = ptID r" "\<And>r. ptID r \<notin> ptID ` set ks \<Longrightarrow> g r = r"
    "\<And>r k. k \<in> set ks \<Longrightarrow> ptID r = ptID k \<Longrightarrow> settled cfg (at (ptID k)) (ptRetryCount k) (g r)"
    using Cons.IH [of t1 w1] Cons.prems by auto
  let ?h = "\<lambda>r. g (if ptID r = ptID k then f r else r)"
  have "settled cfg (at (ptID k')) (ptRetryCount k') (?h r)" if "k' \<in> set (k # ks)" "ptID r = ptID k'" for k' r
  proof (cases "k' = k")
    case True
    then have "g (f r) = f r" using g(3) [of "f r"] f(2) that Cons.prems by simp
    then show ?thesis using True that f(3) by simp
  next
    case False
    then have "k' \<in> set ks" "ptID k' \<noteq> ptID k" using that Cons.prems by (auto simp: image_iff)
    then show ?thesis using g(4) that by simp
  qed
  moreover have "ttRows (fst (fold (\<lambda>k. processTask cfg (at (ptID k)) ag k) (k # ks) (t, w))) = map ?h (ttRows t)"
    using g(1) by (simp add: p f(1) update_row_def)
  ultimately show ?case using f(2) g(2,3) by (intro exI [of _ ?h]) auto
qed


section \<open>What a finished task has done\<close>

text \<open>
  What the worker relies on of a node: an add that is accepted sets the user, one that is refused
  changes nothing, and is refused as \<open>already exists\<close> only where the user is present; a removal that
  is accepted takes the user away, one that is refused as \<open>not found\<close> had nothing to take away.
  \<open>users w node tag\<close> are the users of an inbound by email.
\<close>

type_synonym credentials = "string \<times> string \<times> string \<times> string"

definition xray_agent :: "'w agent \<Rightarrow> ('w \<Rightarrow> nat \<Rightarrow> string \<Rightarrow> string \<Rightarrow> credentials option) \<Rightarrow> bool" where
  "xray_agent ag users \<longleftrightarrow>
     (\<forall>node tag email uuid protocol flow enc w r w'.
        agAddUser ag node tag email uuid protocol flow enc w = (r, w') \<longrightarrow>
        (case r of
           None \<Rightarrow> users w' node tag email = Some (uuid, protocol, flow, enc)
         | Some err \<Rightarrow> users w' node tag email = users w node tag email
             \<and> (contains_str err ''already exists'' \<longrightarrow> users w node tag email \<noteq> None)
             \<and> \<not> contains_str err ''unsupported protocol''))
     \<and> (\<forall>node tag email w r w'.
        agRemoveUser ag node tag email w = (r, w') \<longrightarrow>
        (case r of
           None \<Rightarrow> users w' node tag email = None
         | Some err \<Rightarrow> users w' node tag email = users w node tag email
             \<and> (contains_str err ''not found'' \<longrightarrow> users w node tag email = None)
             \<and> \<not> contains_str err ''unsupported protocol''))"

lemma xray_agent_add:
  assumes "xray_agent ag users" "agAddUser ag node tag email uuid protocol flow enc w = (r, w')"
  shows "case r of
      None \<Rightarrow> users w' node tag email = Some (uuid, protocol, flow, enc)
    | Some err \<Rightarrow> users w' node tag email = users w node tag email
        \<and> (contains_str err ''already exists'' \<longrightarrow> users w node tag email \<noteq> None)
        \<and> \<not> contains_str err ''unsupported protocol''"
  using assms unfolding xray_agent_def by blast

lemma xray_agent_remove:
  assumes "xray_agent ag users" "agRemoveUser ag node tag email w = (r, w')"
  shows "case r of
      None \<Rightarrow> users w' node tag email = None
    | Some err \<Rightarrow> users w' node tag email = users w node tag email
        \<and> (contains_str err ''not found'' \<longrightarrow> users w node tag email = None)
        \<and> \<not> contains_str err ''unsupported protocol''"
  using assms unfolding xray_agent_def by blast

lemma add_or_replace_applied:
  assumes ag: "xray_agent ag users" and run: "add_or_replace ag k w = (None, w')"
  shows "users w' (ptNodeID k) (ptInboundTag k) (ptUserEmail k)
    = Some (ptUserUUID k, task_protocol k, ptUserFlow k, task_encryption k)"
proof -
  let ?add = "agAddUser ag (ptNodeID k) (ptInboundTag k) (ptUserEmail k) (ptUserUUID k)
    (task_protocol k) (ptUserFlow k) (task_encryption k)"
  obtain r1 w1 where a1: "?add w = (r1, w1)" by fastforce
  obtain r2 w2 where a2: "agRemoveUser ag (ptNodeID k) (ptInboundTag k) (ptUserEmail k) w1 = (r2, w2)" by fastforce
  obtain r3 w3 where a3: "?add w2 = (r3, w3)" by fastforce
  note add1 = xray_agent_add [OF ag a1] and rem = xray_agent_remove [OF ag a2] and add2 = xray_agent_add [OF ag a3]
  show ?thesis
  proof (cases r1)
    case None
    then show ?thesis using run a1 add1 by (simp add: add_or_replace_def)
  next
    case (Some err)
    then have "contains_str err ''already exists''" "\<not> (case r2 of None \<Rightarrow> False | Some e \<Rightarrow> \<not> contains_str e ''not found'')"
      and r3: "r3 = None \<and> w' = w3 \<or> (\<exists>e. r3 = Some e \<and> contains_str e ''already exists'')"
      using run a1 a2 a3 add1 by (auto simp: add_or_replace_def split: if_splits option.splits)
    then have "users w2 (ptNodeID k) (ptInboundTag k) (ptUserEmail k) = None"
      using rem by (auto split: option.splits)
    then show ?thesis using r3 add2 by (auto split: option.splits)
  qed
qed

text \<open>
  A task that ends without an error on a node in service has done its work: after an add the
  inbound has the user with the credentials of the task, also where it had the user with other
  ones; after a removal it does not have the user.
\<close>

theorem finished_task_is_applied:
  assumes "xray_agent ag users" "ptNodeID k \<noteq> 0" "agGetNode ag (ptNodeID k) w = Inr True"
    and "\<not> is_wireguard (ptProtocol k)" "execute ag k w = (None, w')"
  shows "users w' (ptNodeID k) (ptInboundTag k) (ptUserEmail k)
    = (if ptType k = TypeAddUser then Some (ptUserUUID k, task_protocol k, ptUserFlow k, task_encryption k) else None)"
proof (cases "ptType k")
  case TypeAddUser
  then show ?thesis
    using assms by (simp add: execute_def addUserToXray_def add_or_replace_applied)
next
  case TypeRemoveUser
  obtain r1 w1 where a1: "agRemoveUser ag (ptNodeID k) (ptInboundTag k) (ptUserEmail k) w = (r1, w1)" by fastforce
  show ?thesis
    using assms TypeRemoveUser xray_agent_remove [OF assms(1) a1]
    by (auto simp: execute_def removeUserFromXray_def a1 split: option.splits if_splits)
next
  case (TypeOther ty)
  then show ?thesis using assms(5) by (simp add: execute_def)
qed

section \<open>Examples\<close>

text \<open>A node with one inbound that is in reach or not; its users by email.\<close>

definition demo_agent :: "(bool \<times> (string \<times> credentials) list) agent" where
  "demo_agent = \<lparr>agGetNode = (\<lambda>node w. Inr True),
     agAddUser = (\<lambda>node tag email uuid protocol flow enc (on, us).
       if \<not> on then (Some ''connection refused'', on, us)
       else if map_of us email \<noteq> None then (Some ''already exists'', on, us)
       else (None, on, (email, uuid, protocol, flow, enc) # us)),
     agRemoveUser = (\<lambda>node tag email (on, us).
       if \<not> on then (Some ''connection refused'', on, us)
       else if map_of us email = None then (Some ''not found'', on, us)
       else (None, on, filter (\<lambda>(e, c). e \<noteq> email) us)),
     agPush = (\<lambda>node w. (None, w))\<rparr>"

definition demo_users :: "bool \<times> (string \<times> credentials) list \<Rightarrow> nat \<Rightarrow> string \<Rightarrow> string \<Rightarrow> credentials option" where
  "demo_users w node tag email = map_of (snd w) email"

definition demo_account :: Account where
  "demo_account = \<lparr>acID = 3, acInboundID = 1, acEmail = ''bob'', acUUID = ''u'', acFlow = [], acEncryption = [],
     acSource = SourceManual, acSubscriptionID = Some 7, acStatus = AccActive, acDataLimit = 0, acDataUsed = 0,
     acExpiresAt = None, acLastActivityAt = None, acCreatedAt = 0, acDeleted = False\<rparr>"

definition demo_inbounds :: "nat \<Rightarrow> Inbound option" where
  "demo_inbounds i = Some (demo_inbound\<lparr>inProtocol := ''vless''\<rparr>)"

definition demo_queue :: task_table where
  "demo_queue = the (EnqueueAddUser 1 demo_inbounds demo_account ''192.0.2.1:10085'' \<lparr>ttRows = [], ttNext = 1\<rparr>)"

lemma demo_errors [simp]:
  "\<not> contains_str ''connection refused'' ''already exists''" "\<not> contains_str ''connection refused'' ''not found''"
  "\<not> contains_str ''connection refused'' ''unsupported protocol''" "contains_str ''already exists'' ''already exists''"
  "\<not> contains_str ''already exists'' ''unsupported protocol''" "contains_str ''not found'' ''not found''"
  "\<not> contains_str ''not found'' ''unsupported protocol''"
  by code_simp+

lemma demo_xray_agent: "xray_agent demo_agent demo_users"
proof -
  have "map_of (filter (\<lambda>(e, c). e \<noteq> email) us) email = None" for us :: "(string \<times> credentials) list" and email
    by (auto simp: map_of_eq_None_iff)
  then show ?thesis by (auto simp: xray_agent_def demo_agent_def demo_users_def split: if_splits)
qed

lemma demo_queue_eq:
  "demo_queue = \<lparr>ttRows = [\<lparr>ptID = 1, ptAccountID = 3, ptNodeID = 4, ptType = TypeAddUser, ptStatus = TaskPending,
     ptTargetAddress = ''192.0.2.1:10085'', ptInboundTag = ''wg-in'', ptUserEmail = ''bob'', ptUserUUID = ''u'',
     ptUserFlow = [], ptUserEncryption = [], ptProtocol = ''vless'', ptRetryCount = 0, ptNextRetryAt = 1,
     ptLastError = [], ptCreatedAt = 1\<rparr>], ttNext = 2\<rparr>"
  by (simp add: demo_queue_def EnqueueAddUser_def Enqueue_def demo_inbounds_def demo_inbound_def demo_account_def)

lemma demo_task_protocol [simp]:
  "lower_char CHR ''v'' = CHR ''v''" "lower_char CHR ''l'' = CHR ''l''" "lower_char CHR ''e'' = CHR ''e''"
  "lower_char CHR ''s'' = CHR ''s''" "\<not> is_wireguard ''vless''"
  by code_simp+


definition demo_run :: "(bool \<times> (string \<times> credentials) list) pq" where
  "demo_run = (let (t, w) = processTask DefaultConfig 2 demo_agent (hd (ttRows demo_queue)) (demo_queue, False, [])
     in \<lparr>pqTable = t, pqWorld = w, pqBatch = [], pqClock = 2, pqLog = [(1, 2, 0)]\<rparr>)"

lemmas demo_worker = processTask_def execute_def addUserToXray_def add_or_replace_def demo_agent_def
  handleFailure_def MarkFailed_def MarkSuccess_def task_UpdateStatus_def update_task_def update_row_def
  task_protocol_def task_encryption_def Let_def

lemma demo_run_reached: "prov_run DefaultConfig demo_agent demo_run"
proof -
  let ?k = "hd (ttRows demo_queue)"
  let ?s0 = "\<lparr>pqTable = \<lparr>ttRows = [], ttNext = 1\<rparr>, pqWorld = (False, []), pqBatch = [], pqClock = 1, pqLog = []\<rparr>"
  let ?s1 = "?s0\<lparr>pqTable := demo_queue\<rparr>"
  have "prov_run DefaultConfig demo_agent ?s0" by (rule pr_start)
  from pr_enqueue [OF this, of "?k\<lparr>ptNextRetryAt := 0\<rparr>"] have "prov_run DefaultConfig demo_agent ?s1"
    by (simp add: demo_queue_eq Enqueue_def numeral_2_eq_2)
  from pr_fetch [OF this] have "prov_run DefaultConfig demo_agent (?s1\<lparr>pqBatch := [?k]\<rparr>)"
    by (simp add: demo_queue_eq FetchPending_def open_status_def DefaultConfig_def)
  from pr_task [OF this, of ?k "[]" 2] show ?thesis
    by (simp add: demo_run_def demo_queue_eq split: prod.split)
qed

theorem tries_are_bounded_and_spaced_witness:
  "tries 1 (pqLog demo_run) = 1 \<and> tries 1 (pqLog demo_run) \<le> cfMaxRetries DefaultConfig + 1"
  using tries_are_bounded_and_spaced [OF demo_run_reached, of 1]
  by (simp add: demo_run_def tries_def split: prod.split)


theorem finished_task_is_applied_witness:
  "\<exists>w. execute demo_agent (hd (ttRows demo_queue)) (True, []) = (None, w)
    \<and> demo_users w 4 ''wg-in'' ''bob'' = Some (''u'', ''vless'', [], ''none'')"
proof -
  let ?k = "hd (ttRows demo_queue)"
  have run: "execute demo_agent ?k (True, []) = (None, True, [(''bob'', ''u'', ''vless'', [], ''none'')])"
    by (simp add: demo_worker demo_queue_eq)
  have k: "ptNodeID ?k = 4" "ptInboundTag ?k = ''wg-in''" "ptUserEmail ?k = ''bob''" "ptUserUUID ?k = ''u''"
    "ptType ?k = TypeAddUser" "ptUserFlow ?k = []" "task_protocol ?k = ''vless''" "task_encryption ?k = ''none''"
    "\<not> is_wireguard (ptProtocol ?k)"
    by (simp_all add: demo_queue_eq task_protocol_def task_encryption_def)
  have "agGetNode demo_agent (ptNodeID ?k) (True, []) = Inr True" by (simp add: demo_agent_def)
  then show ?thesis
    using finished_task_is_applied [OF demo_xray_agent _ _ k(9) run] run k by simp
qed

end
