(* ===== verification/Account_Usecase.thy ===== *)
theory Account_Usecase
  imports Provisioning
begin

text \<open>
  Operations on accounts: \<open>internal/account/usecase/account_usecase.go\<close>. Each one changes the
  account table and queues what the nodes have to do. The inbound table is an argument; the
  database is taken to work, so that the errors left are missing rows and unique indexes. Links are
  not modelled. The lemmas show that the queue, carried out in order, gives the nodes exactly the
  active accounts.
\<close>

section \<open>State and helpers\<close>

record acct_state =
  asRows :: acct_table
  asNext :: nat
  asTasks :: task_table

datatype acct_error =
    ErrAccountNotFound | ErrInboundNotFound | ErrNoNode | ErrEmailExists | ErrDuplicateUUID
  | ErrNotLoaded | ErrUniqueIndex | ErrEnqueue | NilPointer

definition node_target :: "NodeInfo \<Rightarrow> string" where
  "node_target n = ndIP n @ '':'' @ dec_int (ndAPIPort n)"

text \<open>The node of an account's inbound, loaded with the account.\<close>

definition account_node :: "(nat \<Rightarrow> Inbound option) \<Rightarrow> Account \<Rightarrow> NodeInfo option" where
  "account_node inbounds a = (case inbounds (acInboundID a) of None \<Rightarrow> None | Some i \<Rightarrow> inNode i)"

text \<open>The queue after a request; one that fails is logged and leaves it as it is.\<close>

definition queue_add :: "int \<Rightarrow> (nat \<Rightarrow> Inbound option) \<Rightarrow> Account \<Rightarrow> NodeInfo \<Rightarrow> task_table \<Rightarrow> task_table" where
  "queue_add now inbounds a n t = (case EnqueueAddUser now inbounds a (node_target n) t of None \<Rightarrow> t | Some t' \<Rightarrow> t')"

definition queue_remove :: "int \<Rightarrow> (nat \<Rightarrow> Inbound option) \<Rightarrow> Account \<Rightarrow> NodeInfo \<Rightarrow> task_table \<Rightarrow> task_table" where
  "queue_remove now inbounds a n t = (case EnqueueRemoveUser now inbounds a (node_target n) t of None \<Rightarrow> t | Some t' \<Rightarrow> t')"

definition FindByEmailAndInbound :: "string \<Rightarrow> nat \<Rightarrow> acct_table \<Rightarrow> Account option" where
  "FindByEmailAndInbound email inboundID t = find (\<lambda>a. acEmail a = email \<and> acInboundID a = inboundID \<and> \<not> acDeleted a) t"

definition FindByEmailAndInboundUnscoped :: "string \<Rightarrow> nat \<Rightarrow> acct_table \<Rightarrow> Account option" where
  "FindByEmailAndInboundUnscoped email inboundID t = find (\<lambda>a. acEmail a = email \<and> acInboundID a = inboundID) t"

definition ForceDelete :: "nat \<Rightarrow> acct_table \<Rightarrow> acct_table" where
  "ForceDelete i t = filter (\<lambda>a. acID a \<noteq> i) t"

definition drop_zombie :: "string \<Rightarrow> nat \<Rightarrow> acct_table \<Rightarrow> acct_table" where
  "drop_zombie email inboundID t = (case FindByEmailAndInboundUnscoped email inboundID t of
     None \<Rightarrow> t | Some z \<Rightarrow> if acDeleted z then ForceDelete (acID z) t else t)"

definition new_account ::
    "int \<Rightarrow> nat \<Rightarrow> nat \<Rightarrow> string \<Rightarrow> string \<Rightarrow> string \<Rightarrow> string \<Rightarrow> AccountSource \<Rightarrow> nat option \<Rightarrow> int \<Rightarrow> Account" where
  "new_account now i inboundID email uuid flow encryption source subID dataLimit =
     \<lparr>acID = i, acInboundID = inboundID, acEmail = email, acUUID = uuid, acFlow = flow, acEncryption = encryption,
      acSource = source, acSubscriptionID = subID, acStatus = AccActive, acDataLimit = dataLimit, acDataUsed = 0,
      acExpiresAt = None, acLastActivityAt = None, acCreatedAt = now, acDeleted = False\<rparr>"

text \<open>\<open>Create\<close>: the table's unique index on email and inbound counts deleted rows.\<close>

definition acc_Create :: "Account \<Rightarrow> acct_state \<Rightarrow> acct_state option" where
  "acc_Create a s =
     (if FindByEmailAndInboundUnscoped (acEmail a) (acInboundID a) (asRows s) \<noteq> None then None
      else Some (s\<lparr>asRows := asRows s @ [a], asNext := asNext s + 1\<rparr>))"

section \<open>Operations\<close>

definition CreateAccount ::
    "(nat \<Rightarrow> Inbound option) \<Rightarrow> int \<Rightarrow> nat \<Rightarrow> string \<Rightarrow> string \<Rightarrow> string \<Rightarrow> string \<Rightarrow> AccountSource \<Rightarrow> nat option
      \<Rightarrow> acct_state \<Rightarrow> (acct_error + nat) \<times> acct_state" where
  "CreateAccount inbounds now inboundID email uuid flow encryption source subID s =
     (case inbounds inboundID of
        None \<Rightarrow> (Inl ErrInboundNotFound, s)
      | Some i \<Rightarrow> (case inNode i of
          None \<Rightarrow> (Inl ErrNoNode, s)
        | Some n \<Rightarrow>
            if FindByEmailAndInbound email inboundID (asRows s) \<noteq> None then (Inl ErrEmailExists, s)
            else
              let s = s\<lparr>asRows := drop_zombie email inboundID (asRows s)\<rparr>;
                  a = new_account now (asNext s) inboundID email uuid flow encryption source subID 0
              in (case acc_Create a s of
                    None \<Rightarrow> (Inl ErrUniqueIndex, s)
                  | Some s \<Rightarrow>
                      (case EnqueueAddUser now inbounds a (node_target n) (asTasks s) of
                         None \<Rightarrow> (Inl ErrEnqueue, s\<lparr>asRows := acc_UpdateStatus (acID a) AccPendingProvision (asRows s)\<rparr>)
                       | Some t \<Rightarrow> (Inr (acID a), s\<lparr>asTasks := t\<rparr>)))))"

text \<open>With \<open>enqueue\<close> off it is \<open>CreateAccountForSubscriptionNoEnqueue\<close>.\<close>

definition CreateAccountForSubscription ::
    "bool \<Rightarrow> (nat \<Rightarrow> Inbound option) \<Rightarrow> int \<Rightarrow> nat \<Rightarrow> string \<Rightarrow> string \<Rightarrow> string \<Rightarrow> string \<Rightarrow> nat \<Rightarrow> int
      \<Rightarrow> acct_state \<Rightarrow> acct_error option \<times> acct_state" where
  "CreateAccountForSubscription enqueue inbounds now inboundID email uuid flow encryption subID dataLimit s =
     (if FindByEmailAndInbound email inboundID (asRows s) \<noteq> None then (None, s)
      else
        let s = s\<lparr>asRows := drop_zombie email inboundID (asRows s)\<rparr>;
            a = new_account now (asNext s) inboundID email uuid flow encryption SourceSubscription (Some subID) dataLimit
        in (case acc_Create a s of
              None \<Rightarrow> (Some ErrUniqueIndex, s)
            | Some s \<Rightarrow>
                (case account_node inbounds a of
                   None \<Rightarrow> (None, s)
                 | Some n \<Rightarrow>
                     if \<not> enqueue then (None, s)
                     else (case EnqueueAddUser now inbounds a (node_target n) (asTasks s) of
                       None \<Rightarrow> (None, s\<lparr>asRows := acc_UpdateStatus (acID a) AccPendingProvision (asRows s)\<rparr>)
                     | Some t \<Rightarrow> (None, s\<lparr>asTasks := t\<rparr>)))))"

definition DisableAccount :: "(nat \<Rightarrow> Inbound option) \<Rightarrow> int \<Rightarrow> nat \<Rightarrow> acct_state \<Rightarrow> acct_error option \<times> acct_state" where
  "DisableAccount inbounds now i s =
     (case acc_FindByID i (asRows s) of
        None \<Rightarrow> (Some ErrAccountNotFound, s)
      | Some a \<Rightarrow> (case account_node inbounds a of
          None \<Rightarrow> (Some ErrNotLoaded, s)
        | Some n \<Rightarrow> (None, s\<lparr>asRows := acc_UpdateStatus i AccDisabled (asRows s),
                            asTasks := queue_remove now inbounds a n (asTasks s)\<rparr>)))"

definition EnableAccount :: "(nat \<Rightarrow> Inbound option) \<Rightarrow> int \<Rightarrow> nat \<Rightarrow> acct_state \<Rightarrow> acct_error option \<times> acct_state" where
  "EnableAccount inbounds now i s =
     (case acc_FindByID i (asRows s) of
        None \<Rightarrow> (Some ErrAccountNotFound, s)
      | Some a \<Rightarrow> (case account_node inbounds a of
          None \<Rightarrow> (Some ErrNotLoaded, s)
        | Some n \<Rightarrow> (None, s\<lparr>asRows := acc_UpdateStatus i AccActive (asRows s),
                            asTasks := queue_add now inbounds a n (asTasks s)\<rparr>)))"

definition DeleteAccount :: "(nat \<Rightarrow> Inbound option) \<Rightarrow> int \<Rightarrow> nat \<Rightarrow> acct_state \<Rightarrow> acct_error option \<times> acct_state" where
  "DeleteAccount inbounds now i s =
     (case acc_FindByID i (asRows s) of
        None \<Rightarrow> (Some ErrAccountNotFound, s)
      | Some a \<Rightarrow>
          let t = (case account_node inbounds a of None \<Rightarrow> asTasks s | Some n \<Rightarrow> queue_remove now inbounds a n (asTasks s))
          in (None, s\<lparr>asRows := acc_Delete i (asRows s), asTasks := t\<rparr>))"

text \<open>The loops over a subscription's accounts count the failures.\<close>

definition each_account ::
    "(nat \<Rightarrow> acct_state \<Rightarrow> acct_error option \<times> acct_state) \<Rightarrow> Account list \<Rightarrow> acct_state \<Rightarrow> nat \<times> acct_state" where
  "each_account op accounts s =
     fold (\<lambda>a (failed, s). case op (acID a) s of (e, s) \<Rightarrow> (if e = None then failed else failed + 1, s)) accounts (0, s)"

definition DisableAccountsBySubscription :: "(nat \<Rightarrow> Inbound option) \<Rightarrow> int \<Rightarrow> nat \<Rightarrow> acct_state \<Rightarrow> nat \<times> acct_state" where
  "DisableAccountsBySubscription inbounds now subID s =
     each_account (DisableAccount inbounds now) (ListBySubscriptionID subID (asRows s)) s"

definition EnableAccountsBySubscription :: "(nat \<Rightarrow> Inbound option) \<Rightarrow> int \<Rightarrow> nat \<Rightarrow> acct_state \<Rightarrow> nat \<times> acct_state" where
  "EnableAccountsBySubscription inbounds now subID s =
     each_account (EnableAccount inbounds now) (ListBySubscriptionID subID (asRows s)) s"

definition DeleteAccountsBySubscription :: "(nat \<Rightarrow> Inbound option) \<Rightarrow> int \<Rightarrow> nat \<Rightarrow> acct_state \<Rightarrow> nat \<times> acct_state" where
  "DeleteAccountsBySubscription inbounds now subID s =
     each_account (DeleteAccount inbounds now) (ListAllBySubscriptionID subID (asRows s)) s"

definition ForceDeleteAccountsBySubscription :: "(nat \<Rightarrow> Inbound option) \<Rightarrow> int \<Rightarrow> nat \<Rightarrow> acct_state \<Rightarrow> acct_state" where
  "ForceDeleteAccountsBySubscription inbounds now subID s =
     (let accounts = ListAllBySubscriptionID subID (asRows s);
          t = fold (\<lambda>a t. case account_node inbounds a of None \<Rightarrow> t | Some n \<Rightarrow> queue_remove now inbounds a n t)
                accounts (asTasks s)
      in s\<lparr>asRows := ForceDeleteBySubscriptionID subID (asRows s), asTasks := t\<rparr>)"

text \<open>
  A missing source inbound or target node is a nil pointer that the code reads: in the log line
  before the write, or in the address after the write and the removal.
\<close>

definition MigrateAccount :: "(nat \<Rightarrow> Inbound option) \<Rightarrow> int \<Rightarrow> nat \<Rightarrow> nat \<Rightarrow> acct_state \<Rightarrow> acct_error option \<times> acct_state" where
  "MigrateAccount inbounds now i target s =
     (case acc_FindByID i (asRows s) of
        None \<Rightarrow> (Some ErrAccountNotFound, s)
      | Some a \<Rightarrow> (case inbounds target of
          None \<Rightarrow> (Some ErrInboundNotFound, s)
        | Some ti \<Rightarrow> (case inbounds (acInboundID a) of
            None \<Rightarrow> (Some NilPointer, s)
          | Some si \<Rightarrow>
              if inID si = target then (None, s)
              else (case acc_Update (a\<lparr>acInboundID := target\<rparr>) (asRows s) of
                 None \<Rightarrow> (Some ErrUniqueIndex, s)
               | Some rows \<Rightarrow>
                   let t = (case inNode si of None \<Rightarrow> asTasks s | Some n \<Rightarrow> queue_remove now inbounds a n (asTasks s));
                       s = s\<lparr>asRows := rows, asTasks := t\<rparr>
                   in (case inNode ti of
                         None \<Rightarrow> (Some NilPointer, s)
                       | Some n \<Rightarrow> (None, s\<lparr>asTasks := queue_add now inbounds (a\<lparr>acInboundID := target\<rparr>) n t\<rparr>))))))"

text \<open>What an update queues: \<open>a\<close> is the account as it was, \<open>b\<close> as it is written.\<close>

definition update_queue ::
    "(nat \<Rightarrow> Inbound option) \<Rightarrow> int \<Rightarrow> bool \<Rightarrow> Account \<Rightarrow> Account \<Rightarrow> task_table \<Rightarrow> task_table" where
  "update_queue inbounds now enabled a b t =
     (let needsRemove = (acStatus a = AccActive \<and> \<not> enabled);
          needsAdd = (acStatus a = AccDisabled \<and> enabled);
          needsReProvision = (\<not> needsRemove \<and> \<not> needsAdd \<and> enabled
            \<and> (acEmail a \<noteq> acEmail b \<or> acUUID a \<noteq> acUUID b \<or> acFlow a \<noteq> acFlow b))
      in case account_node inbounds a of
           None \<Rightarrow> t
         | Some n \<Rightarrow>
             let t = (if needsRemove then queue_remove now inbounds a n t else t)
             in if needsReProvision then queue_add now inbounds b n (queue_remove now inbounds a n t)
                else if needsAdd then queue_add now inbounds b n t else t)"

definition UpdateAccount ::
    "(nat \<Rightarrow> Inbound option) \<Rightarrow> int \<Rightarrow> nat \<Rightarrow> string \<Rightarrow> string \<Rightarrow> string \<Rightarrow> int \<Rightarrow> int option \<Rightarrow> bool
      \<Rightarrow> acct_state \<Rightarrow> acct_error option \<times> acct_state" where
  "UpdateAccount inbounds now i email uuid flow dataLimit expiresAt enabled s =
     (case acc_FindByID i (asRows s) of
        None \<Rightarrow> (Some ErrAccountNotFound, s)
      | Some a \<Rightarrow>
          if uuid \<noteq> acUUID a \<and> acInboundID a \<noteq> 0 \<and> ExistsByUUIDAndInbound uuid (acInboundID a) (acID a) (asRows s)
          then (Some ErrDuplicateUUID, s)
          else
            let b = a\<lparr>acEmail := email, acUUID := uuid, acFlow := flow, acDataLimit := dataLimit, acExpiresAt := expiresAt,
                      acStatus := (if enabled then AccActive else AccDisabled)\<rparr>
            in (case acc_Update b (asRows s) of
                  None \<Rightarrow> (Some ErrUniqueIndex, s)
                | Some rows \<Rightarrow> (None, s\<lparr>asRows := rows, asTasks := update_queue inbounds now enabled a b (asTasks s)\<rparr>)))"

definition CheckAndDisableExhaustedAccounts :: "(nat \<Rightarrow> Inbound option) \<Rightarrow> int \<Rightarrow> acct_state \<Rightarrow> nat \<times> acct_state" where
  "CheckAndDisableExhaustedAccounts inbounds now s =
     (let exhausted = acc_ListDataExhausted (asRows s);
          (failed, s) = each_account (DisableAccount inbounds now) exhausted s
      in (length exhausted - failed, s))"

definition ClearAccountDataLimitsBySubscription :: "nat \<Rightarrow> acct_state \<Rightarrow> acct_state" where
  "ClearAccountDataLimitsBySubscription subID s = s\<lparr>asRows := UpdateDataLimitBySubscriptionID subID 0 (asRows s)\<rparr>"

definition ResetAccountDataUsedBySubscription :: "nat \<Rightarrow> acct_state \<Rightarrow> acct_state" where
  "ResetAccountDataUsedBySubscription subID s = s\<lparr>asRows := ResetDataUsedBySubscriptionID subID (asRows s)\<rparr>"

definition SetAccountsUUIDBySubscription ::
    "(nat \<Rightarrow> Inbound option) \<Rightarrow> int \<Rightarrow> nat \<Rightarrow> string \<Rightarrow> acct_state \<Rightarrow> (nat \<times> acct_error option) \<times> acct_state" where
  "SetAccountsUUIDBySubscription inbounds now subID newUUID s =
     fold (\<lambda>a ((updated, firstErr), s).
       if acUUID a = newUUID then ((updated + 1, firstErr), s)
       else (case UpdateAccount inbounds now (acID a) (acEmail a) newUUID (acFlow a) (acDataLimit a) (acExpiresAt a)
                    (acStatus a = AccActive) s of
          (None, s) \<Rightarrow> ((updated + 1, firstErr), s)
        | (Some e, s) \<Rightarrow> ((updated, if firstErr = None then Some e else firstErr), s)))
       (ListBySubscriptionID subID (asRows s)) ((0, None), s)"

section \<open>The queue mirrors the table\<close>

text \<open>
  A user of a node is known by node, tag and email. \<open>place\<close> is where an account belongs, \<open>wanted\<close>
  what the nodes should have by the table, \<open>carried_out\<close> what they have once the queue is carried
  out in order.
\<close>

type_synonym user_key = "nat \<times> string \<times> string"
type_synonym user_creds = "string \<times> string \<times> string"

definition place :: "(nat \<Rightarrow> Inbound option) \<Rightarrow> Account \<Rightarrow> user_key option" where
  "place inbounds a = (case inbounds (acInboundID a) of
     None \<Rightarrow> None
   | Some i \<Rightarrow> if inNode i = None then None else Some (inNodeID i, inTag i, acEmail a))"

definition live_creds :: "Account \<Rightarrow> user_creds option" where
  "live_creds a = (if acDeleted a \<or> acStatus a \<noteq> AccActive then None else Some (acUUID a, acFlow a, acEncryption a))"

definition wanted :: "(nat \<Rightarrow> Inbound option) \<Rightarrow> acct_table \<Rightarrow> user_key \<Rightarrow> user_creds option" where
  "wanted inbounds rows k = Option.bind (find (\<lambda>a. place inbounds a = Some k) rows) live_creds"

definition task_effect :: "ProvisioningTask \<Rightarrow> (user_key \<Rightarrow> user_creds option) \<Rightarrow> user_key \<Rightarrow> user_creds option" where
  "task_effect k m = (let key = (ptNodeID k, ptInboundTag k, ptUserEmail k) in case ptType k of
     TypeAddUser \<Rightarrow> m(key \<mapsto> (ptUserUUID k, ptUserFlow k, ptUserEncryption k))
   | TypeRemoveUser \<Rightarrow> m(key := None)
   | TypeOther ty \<Rightarrow> m)"

definition carried_out :: "task_table \<Rightarrow> user_key \<Rightarrow> user_creds option" where
  "carried_out t = fold task_effect (ttRows t) (\<lambda>k. None)"

definition identity :: "Account \<Rightarrow> string \<times> nat" where
  "identity a = (acEmail a, acInboundID a)"

definition rows_ok :: "acct_state \<Rightarrow> bool" where
  "rows_ok s \<longleftrightarrow> distinct (map acID (asRows s)) \<and> list_all (\<lambda>a. acID a < asNext s) (asRows s)
     \<and> distinct (map identity (asRows s))"

definition inbounds_ok :: "(nat \<Rightarrow> Inbound option) \<Rightarrow> bool" where
  "inbounds_ok inbounds \<longleftrightarrow> (\<forall>i j x y. inbounds i = Some x \<longrightarrow> inbounds j = Some y \<longrightarrow>
     inID x = i \<and> (inNodeID x = inNodeID y \<and> inTag x = inTag y \<longrightarrow> i = j))"

definition set_at :: "'k option \<Rightarrow> 'v option \<Rightarrow> ('k \<Rightarrow> 'v option) \<Rightarrow> 'k \<Rightarrow> 'v option" where
  "set_at k v m = (case k of None \<Rightarrow> m | Some k \<Rightarrow> m(k := v))"

lemma set_at_simps [simp]:
  "set_at None v m = m" "set_at k v (set_at k w m) = set_at k v m"
  by (simp_all add: set_at_def split: option.split)

lemma carried_out_Enqueue: "carried_out (Enqueue now k t) = task_effect k (carried_out t)"
  by (simp add: carried_out_def Enqueue_def task_effect_def Let_def split: TaskType.split)

lemma carried_out_add:
  "account_node inbounds a = Some n \<Longrightarrow>
    carried_out (queue_add now inbounds a n t) = set_at (place inbounds a) (Some (acUUID a, acFlow a, acEncryption a)) (carried_out t)"
  by (auto simp: queue_add_def EnqueueAddUser_def carried_out_Enqueue task_effect_def set_at_def place_def account_node_def
      split: option.splits)

lemma carried_out_remove:
  "account_node inbounds a = Some n \<Longrightarrow>
    carried_out (queue_remove now inbounds a n t) = set_at (place inbounds a) None (carried_out t)"
  by (auto simp: queue_remove_def EnqueueRemoveUser_def carried_out_Enqueue task_effect_def set_at_def place_def account_node_def
      split: option.splits)

lemma no_node_no_place: "account_node inbounds a = None \<longleftrightarrow> place inbounds a = None"
  by (auto simp: account_node_def place_def split: option.splits)

lemma place_identity:
  "inbounds_ok inbounds \<Longrightarrow> place inbounds a = Some k \<Longrightarrow> place inbounds b = Some k \<Longrightarrow> identity a = identity b"
  by (auto simp: inbounds_ok_def place_def identity_def split: option.splits if_splits)

lemma find_place:
  assumes "inbounds_ok inbounds" "distinct (map identity rows)" "a \<in> set rows" "place inbounds a = Some k"
  shows "find (\<lambda>a. place inbounds a = Some k) rows = Some a"
proof (cases "find (\<lambda>a. place inbounds a = Some k) rows")
  case None
  then show ?thesis using assms(3,4) by (auto simp: find_None_iff)
next
  case (Some b)
  then have b: "b \<in> set rows" "place inbounds b = Some k" by (auto simp: find_Some_iff)
  then have "identity a = identity b" using assms(1,4) place_identity by metis
  then show ?thesis using Some b assms(2,3) by (auto simp: distinct_map dest: inj_onD)
qed

lemma wanted_at:
  "inbounds_ok inbounds \<Longrightarrow> distinct (map identity rows) \<Longrightarrow> a \<in> set rows \<Longrightarrow> place inbounds a = Some k
    \<Longrightarrow> wanted inbounds rows k = live_creds a"
  by (simp add: wanted_def find_place)

lemma wanted_nowhere: "(\<And>a. a \<in> set rows \<Longrightarrow> place inbounds a \<noteq> Some k) \<Longrightarrow> wanted inbounds rows k = None"
proof -
  assume "\<And>a. a \<in> set rows \<Longrightarrow> place inbounds a \<noteq> Some k"
  then have "find (\<lambda>a. place inbounds a = Some k) rows = None" unfolding find_None_iff by blast
  then show ?thesis by (simp add: wanted_def)
qed

text \<open>The table after one row was replaced, added or taken away.\<close>

lemma wanted_replace:
  assumes ib: "inbounds_ok inbounds" and ok: "distinct (map acID rows)" "distinct (map identity rows)"
    and a: "a \<in> set rows" "acID a' = acID a" and free: "\<And>b. b \<in> set rows \<Longrightarrow> b \<noteq> a \<Longrightarrow> identity b \<noteq> identity a'"
  shows "wanted inbounds (map (\<lambda>b. if acID b = acID a then a' else b) rows)
    = set_at (place inbounds a') (live_creds a') (set_at (place inbounds a) None (wanted inbounds rows))"
    (is "wanted inbounds ?rows = _")
proof -
  have rows: "b \<in> set ?rows \<longleftrightarrow> b = a' \<or> (b \<in> set rows \<and> b \<noteq> a)" for b
    using ok(1) a(1) by (auto simp: distinct_map dest: inj_onD)
  have "map identity ?rows = map (\<lambda>b. if b = a then identity a' else identity b) rows"
    using ok(1) a(1) by (auto simp: distinct_map dest: inj_onD)
  moreover have "distinct (map (\<lambda>b. if b = a then identity a' else identity b) rows)"
    using ok(2) free unfolding distinct_map inj_on_def by (metis (mono_tags, lifting))
  ultimately have d: "distinct (map identity ?rows)" by (simp only:)
  have "wanted inbounds ?rows k
      = set_at (place inbounds a') (live_creds a') (set_at (place inbounds a) None (wanted inbounds rows)) k" for k
  proof (cases "\<exists>b \<in> set ?rows. place inbounds b = Some k")
    case True
    then obtain b where b: "b \<in> set ?rows" "place inbounds b = Some k" by blast
    show ?thesis
    proof (cases "b = a'")
      case True
      then show ?thesis using wanted_at [OF ib d b] b(2) by (simp add: set_at_def)
    next
      case False
      then have "b \<in> set rows" "b \<noteq> a" using b(1) rows by auto
      moreover from this have "place inbounds a' \<noteq> Some k" "place inbounds a \<noteq> Some k"
        using place_identity [OF ib b(2)] free ok(2) a(1) by (auto simp: distinct_map dest: inj_onD)
      ultimately show ?thesis
        using wanted_at [OF ib d b] wanted_at [OF ib ok(2) _ b(2)] by (auto simp: set_at_def split: option.split)
    qed
  next
    case False
    then have "place inbounds a' \<noteq> Some k" using rows by auto
    moreover have "wanted inbounds rows k = None" if "place inbounds a \<noteq> Some k"
      using False that rows by (intro wanted_nowhere) auto
    moreover have "wanted inbounds ?rows k = None" by (rule wanted_nowhere) (use False in blast)
    ultimately show ?thesis by (auto simp: set_at_def split: option.split)
  qed
  then show ?thesis by (rule ext)
qed

lemma wanted_append:
  assumes "inbounds_ok inbounds" "distinct (map identity rows)" "identity a \<notin> identity ` set rows"
  shows "wanted inbounds (rows @ [a]) = set_at (place inbounds a) (live_creds a) (wanted inbounds rows)"
proof -
  have d: "distinct (map identity (rows @ [a]))" using assms by simp
  have "wanted inbounds (rows @ [a]) k = set_at (place inbounds a) (live_creds a) (wanted inbounds rows) k" for k
  proof (cases "place inbounds a = Some k")
    case True
    then show ?thesis using wanted_at [OF assms(1) d, of a k] by (simp add: set_at_def)
  next
    case False
    then have "find (\<lambda>a. place inbounds a = Some k) (rows @ [a]) = find (\<lambda>a. place inbounds a = Some k) rows"
      by (induction rows) auto
    then show ?thesis using False by (auto simp: wanted_def set_at_def split: option.split)
  qed
  then show ?thesis by (rule ext)
qed

lemma wanted_filter:
  assumes "inbounds_ok inbounds" "distinct (map identity rows)"
  shows "wanted inbounds (filter P rows) k
    = (if \<exists>a \<in> set rows. \<not> P a \<and> place inbounds a = Some k then None else wanted inbounds rows k)"
proof -
  have d: "distinct (map identity (filter P rows))" using assms(2) by (simp add: distinct_map_filter)
  show ?thesis
  proof (cases "\<exists>a \<in> set rows. place inbounds a = Some k")
    case True
    then obtain a where a: "a \<in> set rows" "place inbounds a = Some k" by blast
    have only: "b = a" if "b \<in> set rows" "place inbounds b = Some k" for b
      using find_place [OF assms that] find_place [OF assms a] by simp
    show ?thesis
    proof (cases "P a")
      case True
      then have "\<not> (\<exists>a \<in> set rows. \<not> P a \<and> place inbounds a = Some k)" using only by blast
      moreover have "wanted inbounds (filter P rows) k = live_creds a" using True a by (intro wanted_at [OF assms(1) d]) auto
      ultimately show ?thesis using wanted_at [OF assms a] by (simp only: if_False)
    next
      case False
      then have "wanted inbounds (filter P rows) k = None" using only by (intro wanted_nowhere) auto
      then show ?thesis using a False by auto
    qed
  next
    case False
    then have "wanted inbounds (filter P rows) k = None" "wanted inbounds rows k = None"
      by (auto intro!: wanted_nowhere)
    then show ?thesis by simp
  qed
qed

definition mirrors :: "(nat \<Rightarrow> Inbound option) \<Rightarrow> acct_state \<Rightarrow> bool" where
  "mirrors inbounds s \<longleftrightarrow> rows_ok s \<and> carried_out (asTasks s) = wanted inbounds (asRows s)"

text \<open>What an operation that changes one row does: the row is replaced and the queue clears its old place.\<close>

lemma acc_FindByID_Some: "acc_FindByID i rows = Some a \<Longrightarrow> a \<in> set rows \<and> acID a = i \<and> \<not> acDeleted a"
  by (auto simp: acc_FindByID_def find_Some_iff)

lemma update_acc_replace:
  assumes "distinct (map acID rows)" "a \<in> set rows" "\<not> acDeleted a"
  shows "update_acc (\<lambda>b. acID b = acID a) f rows = map (\<lambda>b. if acID b = acID a then f a else b) rows"
  using assms by (auto simp: update_acc_def distinct_map dest: inj_onD)

lemma ids_replace:
  "acID a' = acID a \<Longrightarrow> map acID (map (\<lambda>b. if acID b = acID a then a' else b) rows) = map acID rows"
  by simp

lemma identities_replace:
  assumes "distinct (map acID rows)" "distinct (map identity rows)" "a \<in> set rows"
    "\<And>b. b \<in> set rows \<Longrightarrow> b \<noteq> a \<Longrightarrow> identity b \<noteq> identity a'"
  shows "distinct (map identity (map (\<lambda>b. if acID b = acID a then a' else b) rows))"
proof -
  have "map identity (map (\<lambda>b. if acID b = acID a then a' else b) rows) = map (\<lambda>b. if b = a then identity a' else identity b) rows"
    using assms(1,3) by (auto simp: distinct_map dest: inj_onD)
  moreover have "distinct (map (\<lambda>b. if b = a then identity a' else identity b) rows)"
    using assms(2,4) unfolding distinct_map inj_on_def by (metis (mono_tags, lifting))
  ultimately show ?thesis by (simp only:)
qed

lemma mirrors_replace:
  assumes ib: "inbounds_ok inbounds" and m: "mirrors inbounds s" and a: "a \<in> set (asRows s)" "acID a' = acID a"
    and free: "\<And>b. b \<in> set (asRows s) \<Longrightarrow> b \<noteq> a \<Longrightarrow> identity b \<noteq> identity a'"
    and t: "carried_out t = set_at (place inbounds a') (live_creds a') (set_at (place inbounds a) None (carried_out (asTasks s)))"
  shows "mirrors inbounds (s\<lparr>asRows := map (\<lambda>b. if acID b = acID a then a' else b) (asRows s), asTasks := t\<rparr>)"
proof -
  have ok: "distinct (map acID (asRows s))" "distinct (map identity (asRows s))" "carried_out (asTasks s) = wanted inbounds (asRows s)"
    using m by (simp_all add: mirrors_def rows_ok_def)
  have "list_all (\<lambda>b. acID b < asNext s) (map (\<lambda>b. if acID b = acID a then a' else b) (asRows s))"
    using m a by (auto simp: mirrors_def rows_ok_def list_all_iff)
  moreover have "distinct (map acID (map (\<lambda>b. if acID b = acID a then a' else b) (asRows s)))"
    using ok(1) by (simp only: ids_replace [OF a(2)])
  ultimately show ?thesis
    using wanted_replace [OF ib ok(1,2) a free] identities_replace [OF ok(1,2) a(1) free] ok(3) t
    by (simp add: mirrors_def rows_ok_def)
qed

text \<open>A place whose account is off is empty already, so clearing it once more changes nothing.\<close>

lemma mirrors_clear:
  assumes "inbounds_ok inbounds" "mirrors inbounds s" "a \<in> set (asRows s)" "live_creds a = None"
  shows "set_at (place inbounds a) None (carried_out (asTasks s)) = carried_out (asTasks s)"
  using wanted_at [OF assms(1) _ assms(3)] assms(2,4)
  by (auto simp: set_at_def mirrors_def rows_ok_def fun_eq_iff split: option.split)

lemma mirrors_keep:
  assumes "inbounds_ok inbounds" "mirrors inbounds s" "a \<in> set (asRows s)"
  shows "set_at (place inbounds a) (live_creds a) (set_at (place inbounds a) None (carried_out (asTasks s))) = carried_out (asTasks s)"
  using wanted_at [OF assms(1) _ assms(3)] assms(2)
  by (auto simp: set_at_def mirrors_def rows_ok_def fun_eq_iff split: option.split)

lemma status_identity: "identity (a\<lparr>acStatus := st\<rparr>) = identity a" "place inbounds (a\<lparr>acStatus := st\<rparr>) = place inbounds a"
  by (simp_all add: identity_def place_def split: option.split)

lemma other_identity:
  "mirrors inbounds s \<Longrightarrow> a \<in> set (asRows s) \<Longrightarrow> b \<in> set (asRows s) \<Longrightarrow> b \<noteq> a \<Longrightarrow> identity b \<noteq> identity a"
  by (auto simp: mirrors_def rows_ok_def distinct_map dest: inj_onD)

lemma mirrors_DisableAccount:
  assumes ib: "inbounds_ok inbounds" and m: "mirrors inbounds s"
  shows "mirrors inbounds (snd (DisableAccount inbounds now i s))"
proof (cases "acc_FindByID i (asRows s)")
  case (Some a)
  note a = acc_FindByID_Some [OF Some]
  let ?a = "a\<lparr>acStatus := AccDisabled\<rparr>"
  have rows: "acc_UpdateStatus i AccDisabled (asRows s) = map (\<lambda>b. if acID b = acID a then ?a else b) (asRows s)"
    using update_acc_replace [of "asRows s" a] a m by (simp add: acc_UpdateStatus_def mirrors_def rows_ok_def)
  show ?thesis
  proof (cases "account_node inbounds a")
    case (Some n)
    have "mirrors inbounds (s\<lparr>asRows := map (\<lambda>b. if acID b = acID a then ?a else b) (asRows s),
        asTasks := queue_remove now inbounds a n (asTasks s)\<rparr>)"
      by (rule mirrors_replace [OF ib m])
        (use a other_identity [OF m] in \<open>simp_all add: status_identity carried_out_remove [OF Some] live_creds_def\<close>)
    then show ?thesis using \<open>acc_FindByID i (asRows s) = Some a\<close> Some by (simp add: DisableAccount_def rows)
  qed (use Some m in \<open>simp add: DisableAccount_def\<close>)
qed (use m in \<open>simp add: DisableAccount_def\<close>)

lemma mirrors_EnableAccount:
  assumes ib: "inbounds_ok inbounds" and m: "mirrors inbounds s"
  shows "mirrors inbounds (snd (EnableAccount inbounds now i s))"
proof (cases "acc_FindByID i (asRows s)")
  case (Some a)
  note a = acc_FindByID_Some [OF Some]
  let ?a = "a\<lparr>acStatus := AccActive\<rparr>"
  have rows: "acc_UpdateStatus i AccActive (asRows s) = map (\<lambda>b. if acID b = acID a then ?a else b) (asRows s)"
    using update_acc_replace [of "asRows s" a] a m by (simp add: acc_UpdateStatus_def mirrors_def rows_ok_def)
  show ?thesis
  proof (cases "account_node inbounds a")
    case (Some n)
    have "mirrors inbounds (s\<lparr>asRows := map (\<lambda>b. if acID b = acID a then ?a else b) (asRows s),
        asTasks := queue_add now inbounds a n (asTasks s)\<rparr>)"
      by (rule mirrors_replace [OF ib m])
        (use a other_identity [OF m] in \<open>simp_all add: status_identity carried_out_add [OF Some] live_creds_def\<close>)
    then show ?thesis using \<open>acc_FindByID i (asRows s) = Some a\<close> Some by (simp add: EnableAccount_def rows)
  qed (use Some m in \<open>simp add: EnableAccount_def\<close>)
qed (use m in \<open>simp add: EnableAccount_def\<close>)

lemma mirrors_DeleteAccount:
  assumes ib: "inbounds_ok inbounds" and m: "mirrors inbounds s"
  shows "mirrors inbounds (snd (DeleteAccount inbounds now i s))"
proof (cases "acc_FindByID i (asRows s)")
  case (Some a)
  note a = acc_FindByID_Some [OF Some]
  let ?a = "a\<lparr>acDeleted := True\<rparr>"
  let ?t = "case account_node inbounds a of None \<Rightarrow> asTasks s | Some n \<Rightarrow> queue_remove now inbounds a n (asTasks s)"
  have rows: "acc_Delete i (asRows s) = map (\<lambda>b. if acID b = acID a then ?a else b) (asRows s)"
    using update_acc_replace [of "asRows s" a] a m by (simp add: acc_Delete_def mirrors_def rows_ok_def)
  have p: "identity ?a = identity a" "place inbounds ?a = place inbounds a"
    by (simp_all add: identity_def place_def split: option.split)
  have "carried_out ?t = set_at (place inbounds a) None (carried_out (asTasks s))"
    using no_node_no_place [of inbounds a] by (auto simp: carried_out_remove split: option.split)
  then have "mirrors inbounds (s\<lparr>asRows := map (\<lambda>b. if acID b = acID a then ?a else b) (asRows s), asTasks := ?t\<rparr>)"
    by (intro mirrors_replace [OF ib m]) (use a p other_identity [OF m] in \<open>simp_all add: live_creds_def\<close>)
  then show ?thesis using Some by (simp add: DeleteAccount_def rows Let_def)
qed (use m in \<open>simp add: DeleteAccount_def\<close>)

text \<open>A place that belongs to no other account is empty once the account's own place is cleared.\<close>

lemma mirrors_free:
  assumes ib: "inbounds_ok inbounds" and m: "mirrors inbounds s"
    and free: "\<And>b. b \<in> set (asRows s) \<Longrightarrow> b \<noteq> a \<Longrightarrow> identity b \<noteq> identity a'"
  shows "set_at (place inbounds a') None (set_at (place inbounds a) None (carried_out (asTasks s)))
    = set_at (place inbounds a) None (carried_out (asTasks s))"
proof -
  have "wanted inbounds (asRows s) k = None" if k: "place inbounds a' = Some k" "place inbounds a \<noteq> Some k" for k
  proof (rule wanted_nowhere)
    fix b assume "b \<in> set (asRows s)"
    then show "place inbounds b \<noteq> Some k" using k free place_identity [OF ib _ k(1)] by metis
  qed
  then show ?thesis using m by (auto simp: set_at_def mirrors_def fun_eq_iff split: option.split)
qed

lemma acc_Update_Some:
  assumes "acc_Update b rows = Some rows'" "distinct (map acID rows)" "a \<in> set rows" "acID b = acID a"
  shows "rows' = map (\<lambda>c. if acID c = acID a then b else c) rows"
    and "c \<in> set rows \<Longrightarrow> c \<noteq> a \<Longrightarrow> identity c \<noteq> identity b"
  using assms by (auto simp: acc_Update_def identity_def list_ex_iff distinct_map split: if_splits dest: inj_onD)

definition regular :: "acct_state \<Rightarrow> bool" where
  "regular s \<longleftrightarrow> list_all (\<lambda>a. acStatus a = AccActive \<or> acStatus a = AccDisabled) (asRows s)"

lemma carried_out_update:
  assumes ib: "inbounds_ok inbounds" and m: "mirrors inbounds s" and a: "a \<in> set (asRows s)" "\<not> acDeleted a"
    and st: "acStatus a = AccActive \<or> acStatus a = AccDisabled"
    and b: "acInboundID b = acInboundID a" "acEncryption b = acEncryption a" "\<not> acDeleted b"
      "acStatus b = (if enabled then AccActive else AccDisabled)"
    and free: "\<And>c. c \<in> set (asRows s) \<Longrightarrow> c \<noteq> a \<Longrightarrow> identity c \<noteq> identity b"
  shows "carried_out (update_queue inbounds now enabled a b (asTasks s))
    = set_at (place inbounds b) (live_creds b) (set_at (place inbounds a) None (carried_out (asTasks s)))"
proof (cases "account_node inbounds a")
  have nb: "account_node inbounds b = account_node inbounds a" using b(1) by (simp add: account_node_def)
  case None
  then show ?thesis using no_node_no_place [of inbounds a] no_node_no_place [of inbounds b] nb by (simp add: update_queue_def)
next
  case (Some n)
  then have n: "account_node inbounds b = Some n" using b(1) by (simp add: account_node_def)
  have same: "place inbounds b = place inbounds a \<and> live_creds b = live_creds a"
    if "acStatus a = AccActive" enabled "acEmail a = acEmail b" "acUUID a = acUUID b" "acFlow a = acFlow b"
    using that a b by (simp add: place_def live_creds_def split: option.split)
  have off: "live_creds a = None" if "acStatus a = AccDisabled" using that by (simp add: live_creds_def)
  have lb: "live_creds b = (if enabled then Some (acUUID b, acFlow b, acEncryption b) else None)"
    using b by (simp add: live_creds_def)
  have free: "set_at (place inbounds b) None (set_at (place inbounds a) None (carried_out (asTasks s)))
      = set_at (place inbounds a) None (carried_out (asTasks s))"
    by (rule mirrors_free [OF ib m]) (rule free)
  show ?thesis
    using st Some n same off lb free mirrors_keep [OF ib m, of a] mirrors_clear [OF ib m, of a] a
    by (cases enabled; cases "acStatus a = AccActive")
       (auto simp: update_queue_def Let_def carried_out_add carried_out_remove)
qed

lemma mirrors_UpdateAccount:
  assumes ib: "inbounds_ok inbounds" and m: "mirrors inbounds s" and reg: "regular s"
  shows "mirrors inbounds (snd (UpdateAccount inbounds now i email uuid flow dataLimit expiresAt enabled s))"
proof (cases "acc_FindByID i (asRows s)")
  case (Some a)
  note a = acc_FindByID_Some [OF Some]
  define b where "b = a\<lparr>acEmail := email, acUUID := uuid, acFlow := flow, acDataLimit := dataLimit, acExpiresAt := expiresAt,
    acStatus := (if enabled then AccActive else AccDisabled)\<rparr>"
  have st: "acStatus a = AccActive \<or> acStatus a = AccDisabled" using reg a by (auto simp: regular_def list_all_iff)
  have d: "distinct (map acID (asRows s))" using m by (simp add: mirrors_def rows_ok_def)
  have b: "acID b = acID a" by (simp add: b_def)
  show ?thesis
  proof (cases "acc_Update b (asRows s)")
    case (Some rows)
    note rows = acc_Update_Some [OF Some d conjunct1 [OF a] b]
    have "carried_out (update_queue inbounds now enabled a b (asTasks s))
        = set_at (place inbounds b) (live_creds b) (set_at (place inbounds a) None (carried_out (asTasks s)))"
      by (rule carried_out_update [OF ib m]) (use a st rows(2) in \<open>auto simp: b_def\<close>)
    then have "mirrors inbounds (s\<lparr>asRows := rows, asTasks := update_queue inbounds now enabled a b (asTasks s)\<rparr>)"
      unfolding rows(1) using a b rows(2) by (intro mirrors_replace [OF ib m]) auto
    then show ?thesis
      using \<open>acc_FindByID i (asRows s) = Some a\<close> Some m by (simp add: UpdateAccount_def Let_def flip: b_def)
  qed (use Some m in \<open>simp add: UpdateAccount_def Let_def flip: b_def\<close>)
qed (use m in \<open>simp add: UpdateAccount_def\<close>)


text \<open>A new row, after the deleted row in its place was dropped.\<close>

lemma wanted_drop_dead:
  assumes "inbounds_ok inbounds" "distinct (map identity rows)" "\<And>a. a \<in> set rows \<Longrightarrow> \<not> P a \<Longrightarrow> live_creds a = None"
  shows "wanted inbounds (filter P rows) = wanted inbounds rows"
proof
  fix k
  show "wanted inbounds (filter P rows) k = wanted inbounds rows k"
    unfolding wanted_filter [OF assms(1,2)] using wanted_at [OF assms(1,2), of _ k] assms(3) by auto
qed

lemma mirrors_drop_zombie:
  assumes ib: "inbounds_ok inbounds" and m: "mirrors inbounds s"
  shows "mirrors inbounds (s\<lparr>asRows := drop_zombie email inboundID (asRows s)\<rparr>)"
proof (cases "FindByEmailAndInboundUnscoped email inboundID (asRows s)")
  case (Some z)
  then have z: "z \<in> set (asRows s)" by (auto simp: FindByEmailAndInboundUnscoped_def find_Some_iff)
  have ok: "distinct (map acID (asRows s))" "distinct (map identity (asRows s))" using m by (simp_all add: mirrors_def rows_ok_def)
  have "live_creds a = None" if "acDeleted z" "a \<in> set (asRows s)" "\<not> acID a \<noteq> acID z" for a
    using that ok(1) z by (auto simp: distinct_map live_creds_def dest: inj_onD)
  then have "wanted inbounds (filter (\<lambda>a. acID a \<noteq> acID z) (asRows s)) = wanted inbounds (asRows s)" if "acDeleted z"
    using that by (intro wanted_drop_dead [OF ib ok(2)]) auto
  then show ?thesis
    using Some m by (auto simp: drop_zombie_def ForceDelete_def mirrors_def rows_ok_def list_all_iff distinct_map_filter)
qed (use m in \<open>simp add: drop_zombie_def\<close>)

lemma drop_zombie_frees:
  assumes "distinct (map identity rows)" "FindByEmailAndInbound email inboundID rows = None"
  shows "(email, inboundID) \<notin> identity ` set (drop_zombie email inboundID rows)"
proof (cases "FindByEmailAndInboundUnscoped email inboundID rows")
  case None
  then have "drop_zombie email inboundID rows = rows" by (simp add: drop_zombie_def)
  then show ?thesis using None by (auto simp: FindByEmailAndInboundUnscoped_def find_None_iff identity_def)
next
  case (Some z)
  then have z: "z \<in> set rows" "acEmail z = email" "acInboundID z = inboundID"
    by (auto simp: FindByEmailAndInboundUnscoped_def find_Some_iff)
  then have "acDeleted z" using assms(2) by (auto simp: FindByEmailAndInbound_def find_None_iff)
  moreover have "x = z" if "x \<in> set rows" "identity x = (email, inboundID)" for x
    using that z inj_onD [of identity "set rows" x z] assms(1) by (simp add: distinct_map identity_def)
  ultimately show ?thesis using Some by (fastforce simp: drop_zombie_def ForceDelete_def)
qed

lemma mirrors_add:
  assumes "inbounds_ok inbounds" "mirrors inbounds s" "identity a \<notin> identity ` set (asRows s)" "acID a = asNext s"
    "carried_out t = set_at (place inbounds a) (live_creds a) (carried_out (asTasks s))"
  shows "mirrors inbounds (s\<lparr>asRows := asRows s @ [a], asNext := asNext s + 1, asTasks := t\<rparr>)"
  using assms wanted_append [of inbounds "asRows s" a]
  by (auto simp: mirrors_def rows_ok_def list_all_iff)

lemma new_account_simps [simp]:
  "acID (new_account now i inboundID email uuid flow enc source subID l) = i"
  "identity (new_account now i inboundID email uuid flow enc source subID l) = (email, inboundID)"
  "live_creds (new_account now i inboundID email uuid flow enc source subID l) = Some (uuid, flow, enc)"
  "acInboundID (new_account now i inboundID email uuid flow enc source subID l) = inboundID"
  "acEmail (new_account now i inboundID email uuid flow enc source subID l) = email"
  "acUUID (new_account now i inboundID email uuid flow enc source subID l) = uuid"
  "acFlow (new_account now i inboundID email uuid flow enc source subID l) = flow"
  "acEncryption (new_account now i inboundID email uuid flow enc source subID l) = enc"
  "acStatus (new_account now i inboundID email uuid flow enc source subID l) = AccActive"
  by (simp_all add: new_account_def identity_def live_creds_def)

lemma acc_Create_fresh:
  assumes "(acEmail a, acInboundID a) \<notin> identity ` set (asRows s)"
  shows "acc_Create a s = Some (s\<lparr>asRows := asRows s @ [a], asNext := asNext s + 1\<rparr>)"
proof -
  have "FindByEmailAndInboundUnscoped (acEmail a) (acInboundID a) (asRows s) = None"
    unfolding FindByEmailAndInboundUnscoped_def find_None_iff
  proof
    assume "\<exists>x. x \<in> set (asRows s) \<and> acEmail x = acEmail a \<and> acInboundID x = acInboundID a"
    then obtain x where "x \<in> set (asRows s)" "identity x = (acEmail a, acInboundID a)" by (auto simp: identity_def)
    then show False using assms by (metis image_eqI)
  qed
  then show ?thesis by (simp add: acc_Create_def)
qed

lemma mirrors_new:
  assumes ib: "inbounds_ok inbounds" and m: "mirrors inbounds s" and none: "FindByEmailAndInbound email inboundID (asRows s) = None"
    and a: "a = new_account now (asNext s) inboundID email uuid flow enc source subID l"
    and t: "carried_out t = set_at (place inbounds a) (Some (uuid, flow, enc)) (carried_out (asTasks s))"
  shows "mirrors inbounds (s\<lparr>asRows := drop_zombie email inboundID (asRows s) @ [a], asNext := asNext s + 1, asTasks := t\<rparr>)"
proof -
  have "mirrors inbounds ((s\<lparr>asRows := drop_zombie email inboundID (asRows s)\<rparr>)
      \<lparr>asRows := asRows (s\<lparr>asRows := drop_zombie email inboundID (asRows s)\<rparr>) @ [a],
       asNext := asNext (s\<lparr>asRows := drop_zombie email inboundID (asRows s)\<rparr>) + 1, asTasks := t\<rparr>)"
    by (rule mirrors_add [OF ib mirrors_drop_zombie [OF ib m]])
      (use drop_zombie_frees [OF _ none] m t a in \<open>simp_all add: mirrors_def rows_ok_def\<close>)
  then show ?thesis by simp
qed


lemma mirrors_CreateAccount:
  assumes ib: "inbounds_ok inbounds" and m: "mirrors inbounds s"
  shows "mirrors inbounds (snd (CreateAccount inbounds now inboundID email uuid flow enc source subID s))"
proof (cases "account_node inbounds (new_account now (asNext s) inboundID email uuid flow enc source subID 0)")
  case None
  then show ?thesis using m by (auto simp: CreateAccount_def account_node_def split: option.splits)
next
  case (Some n)
  let ?a = "new_account now (asNext s) inboundID email uuid flow enc source subID 0"
  obtain i where i: "inbounds inboundID = Some i" "inNode i = Some n" using Some by (auto simp: account_node_def split: option.splits)
  have add: "EnqueueAddUser now inbounds ?a (node_target n) t = Some (queue_add now inbounds ?a n t)" for t
    using i by (simp add: queue_add_def EnqueueAddUser_def)
  show ?thesis
  proof (cases "FindByEmailAndInbound email inboundID (asRows s)")
    case None
    have "mirrors inbounds (s\<lparr>asRows := drop_zombie email inboundID (asRows s) @ [?a], asNext := asNext s + 1,
        asTasks := queue_add now inbounds ?a n (asTasks s)\<rparr>)"
      by (rule mirrors_new [OF ib m None refl]) (simp add: carried_out_add [OF Some])
    moreover have "acc_Create ?a (s\<lparr>asRows := drop_zombie email inboundID (asRows s)\<rparr>)
        = Some (s\<lparr>asRows := drop_zombie email inboundID (asRows s) @ [?a], asNext := asNext s + 1\<rparr>)"
      using drop_zombie_frees [OF _ None] m by (subst acc_Create_fresh) (simp_all add: mirrors_def rows_ok_def)
    ultimately show ?thesis using i None by (simp add: CreateAccount_def Let_def add)
  qed (use i m in \<open>simp add: CreateAccount_def\<close>)
qed

lemma mirrors_CreateAccountForSubscription:
  assumes ib: "inbounds_ok inbounds" and m: "mirrors inbounds s"
  shows "mirrors inbounds (snd (CreateAccountForSubscription True inbounds now inboundID email uuid flow enc subID l s))"
proof (cases "FindByEmailAndInbound email inboundID (asRows s)")
  case None
  let ?a = "new_account now (asNext s) inboundID email uuid flow enc SourceSubscription (Some subID) l"
  let ?t = "case account_node inbounds ?a of None \<Rightarrow> asTasks s | Some n \<Rightarrow> queue_add now inbounds ?a n (asTasks s)"
  have "mirrors inbounds (s\<lparr>asRows := drop_zombie email inboundID (asRows s) @ [?a], asNext := asNext s + 1, asTasks := ?t\<rparr>)"
    by (rule mirrors_new [OF ib m None refl])
      (use no_node_no_place [of inbounds ?a] in \<open>auto simp: carried_out_add split: option.split\<close>)
  moreover have "acc_Create ?a (s\<lparr>asRows := drop_zombie email inboundID (asRows s)\<rparr>)
      = Some (s\<lparr>asRows := drop_zombie email inboundID (asRows s) @ [?a], asNext := asNext s + 1\<rparr>)"
    using drop_zombie_frees [OF _ None] m by (subst acc_Create_fresh) (simp_all add: mirrors_def rows_ok_def)
  moreover have "EnqueueAddUser now inbounds ?a (node_target n) t = Some (queue_add now inbounds ?a n t)"
    if "account_node inbounds ?a = Some n" for n t
    using that by (auto simp: queue_add_def EnqueueAddUser_def account_node_def split: option.splits)
  ultimately show ?thesis
    using None by (cases "account_node inbounds ?a") (simp_all add: CreateAccountForSubscription_def Let_def)
qed (use m in \<open>simp add: CreateAccountForSubscription_def\<close>)

text \<open>Moving an account that is on.\<close>

lemma mirrors_MigrateAccount:
  assumes ib: "inbounds_ok inbounds" and m: "mirrors inbounds s"
    and active: "\<And>a. acc_FindByID i (asRows s) = Some a \<Longrightarrow> acStatus a = AccActive"
  shows "mirrors inbounds (snd (MigrateAccount inbounds now i target s))"
proof (cases "acc_FindByID i (asRows s)")
  case (Some a)
  note found = Some and a = acc_FindByID_Some [OF Some]
  let ?b = "a\<lparr>acInboundID := target\<rparr>"
  have d: "distinct (map acID (asRows s))" using m by (simp add: mirrors_def rows_ok_def)
  show ?thesis
  proof (cases "acc_Update ?b (asRows s)")
    case (Some rows)
    note written = acc_Update_Some [OF Some d conjunct1 [OF a], simplified]
    let ?t = "case account_node inbounds a of None \<Rightarrow> asTasks s | Some n \<Rightarrow> queue_remove now inbounds a n (asTasks s)"
    let ?t' = "case account_node inbounds ?b of None \<Rightarrow> ?t | Some n \<Rightarrow> queue_add now inbounds ?b n ?t"
    have t: "carried_out ?t = set_at (place inbounds a) None (carried_out (asTasks s))"
      using no_node_no_place [of inbounds a] by (auto simp: carried_out_remove split: option.split)
    have "live_creds ?b = Some (acUUID ?b, acFlow ?b, acEncryption ?b)"
      using a active [OF found] by (simp add: live_creds_def)
    then have "carried_out ?t' = set_at (place inbounds ?b) (live_creds ?b) (carried_out ?t)"
      using no_node_no_place [of inbounds ?b] by (auto simp: carried_out_add simp del: update_convs split: option.split)
    then have "mirrors inbounds (s\<lparr>asRows := rows, asTasks := ?t'\<rparr>)"
      unfolding written(1) t using a written(2) by (intro mirrors_replace [OF ib m]) auto
    then show ?thesis using found Some m
      by (auto simp: MigrateAccount_def Let_def account_node_def split: option.split)
  qed (use Some m in \<open>auto simp: MigrateAccount_def split: option.split\<close>)
qed (use m in \<open>simp add: MigrateAccount_def\<close>)


lemma carried_out_removes:
  "carried_out (fold (\<lambda>a t. case account_node inbounds a of None \<Rightarrow> t | Some n \<Rightarrow> queue_remove now inbounds a n t) as t) k
    = (if \<exists>a \<in> set as. place inbounds a = Some k then None else carried_out t k)"
proof (induction as arbitrary: t)
  case (Cons a as)
  have "carried_out (case account_node inbounds a of None \<Rightarrow> t | Some n \<Rightarrow> queue_remove now inbounds a n t)
      = set_at (place inbounds a) None (carried_out t)"
    using no_node_no_place [of inbounds a] by (auto simp: carried_out_remove split: option.split)
  then show ?case by (auto simp: Cons.IH set_at_def split: option.split)
qed simp

lemma mirrors_ForceDeleteAccountsBySubscription:
  assumes ib: "inbounds_ok inbounds" and m: "mirrors inbounds s"
  shows "mirrors inbounds (ForceDeleteAccountsBySubscription inbounds now subID s)"
proof -
  have d: "distinct (map identity (asRows s))" and c: "carried_out (asTasks s) = wanted inbounds (asRows s)"
    using m by (simp_all add: mirrors_def rows_ok_def)
  have dead: "wanted inbounds (asRows s) k = None" if "a \<in> set (asRows s)" "acDeleted a" "place inbounds a = Some k" for a k
    using wanted_at [OF ib d that(1,3)] that(2) by (simp add: live_creds_def)
  have "carried_out (asTasks (ForceDeleteAccountsBySubscription inbounds now subID s)) k
      = wanted inbounds (ForceDeleteBySubscriptionID subID (asRows s)) k" for k
    unfolding ForceDeleteBySubscriptionID_def wanted_filter [OF ib d] using dead [of _ k]
    by (auto simp: ForceDeleteAccountsBySubscription_def carried_out_removes c ListAllBySubscriptionID_def newest_first_def Let_def)
  then show ?thesis
    using m by (auto simp: mirrors_def rows_ok_def ForceDeleteAccountsBySubscription_def ForceDeleteBySubscriptionID_def
        Let_def list_all_iff distinct_map_filter)
qed

text \<open>Counters and limits are no part of what the nodes know.\<close>

lemma mirrors_counters:
  assumes "mirrors inbounds s" "\<And>a. identity (f a) = identity a" "\<And>a. acID (f a) = acID a" "\<And>a. live_creds (f a) = live_creds a"
  shows "mirrors inbounds (s\<lparr>asRows := update_acc P f (asRows s)\<rparr>)"
proof -
  let ?g = "\<lambda>a. if P a \<and> \<not> acDeleted a then f a else a"
  have g: "identity \<circ> ?g = identity" "acID \<circ> ?g = acID" "live_creds \<circ> ?g = live_creds"
    using assms by (auto simp: fun_eq_iff)
  have p: "place inbounds (?g a) = place inbounds a" for a using assms(2) by (auto simp: place_def identity_def split: option.split)
  have "wanted inbounds (map ?g rows) k = wanted inbounds rows k" for rows k
    by (induction rows) (use p fun_cong [OF g(3)] in \<open>auto simp: wanted_def\<close>)
  then have "wanted inbounds (map ?g (asRows s)) = wanted inbounds (asRows s)" by blast
  then show ?thesis
    using assms(1,3) g by (auto simp: mirrors_def rows_ok_def update_acc_def list_all_iff)
qed

section \<open>Runs of operations\<close>

definition acct_ok :: "(nat \<Rightarrow> Inbound option) \<Rightarrow> acct_state \<Rightarrow> bool" where
  "acct_ok inbounds s \<longleftrightarrow> mirrors inbounds s \<and> regular s"

lemma each_account_keeps:
  assumes "\<And>i s. I s \<Longrightarrow> I (snd (op i s))" "I s"
  shows "I (snd (each_account op as s))"
proof -
  have "I (snd (fold (\<lambda>a (failed, s). case op (acID a) s of (e, s) \<Rightarrow> (if e = None then failed else failed + 1, s)) as (n, s)))"
    if "I s" for n s
    using that
  proof (induction as arbitrary: n s)
    case (Cons a as)
    then show ?case using assms(1) [of s "acID a"] by (cases "op (acID a) s") simp
  qed simp
  then show ?thesis using assms(2) by (simp add: each_account_def)
qed

lemma regular_ops:
  assumes "regular s"
  shows "regular (snd (DisableAccount inbounds now i s))" "regular (snd (EnableAccount inbounds now i s))"
    "regular (snd (DeleteAccount inbounds now i s))"
    "regular (ForceDeleteAccountsBySubscription inbounds now subID s)"
    "regular (ClearAccountDataLimitsBySubscription subID s)"
    "regular (ResetAccountDataUsedBySubscription subID s)"
  using assms
  by (auto simp: DisableAccount_def EnableAccount_def DeleteAccount_def ForceDeleteAccountsBySubscription_def
      ClearAccountDataLimitsBySubscription_def ResetAccountDataUsedBySubscription_def ForceDeleteBySubscriptionID_def
      acc_UpdateStatus_def acc_Delete_def UpdateDataLimitBySubscriptionID_def ResetDataUsedBySubscriptionID_def
      regular_def update_acc_def list_all_iff Let_def split: option.split)

lemma regular_written:
  assumes "regular s" "acc_Update b (asRows s) = Some rows" "acStatus b = AccActive \<or> acStatus b = AccDisabled"
  shows "list_all (\<lambda>a. acStatus a = AccActive \<or> acStatus a = AccDisabled) rows"
  using assms by (auto simp: regular_def acc_Update_def list_all_iff split: if_splits)


lemma regular_drop_zombie: "regular s \<Longrightarrow> list_all (\<lambda>a. acStatus a = AccActive \<or> acStatus a = AccDisabled) (drop_zombie e i (asRows s))"
  by (auto simp: regular_def drop_zombie_def ForceDelete_def list_all_iff split: option.split)

lemma regular_CreateAccount:
  assumes "regular s"
  shows "regular (snd (CreateAccount inbounds now inboundID email uuid flow enc source subID s))"
  using assms regular_drop_zombie [OF assms, of email inboundID]
  by (auto simp: CreateAccount_def acc_Create_def regular_def Let_def EnqueueAddUser_def split: option.splits)

lemma regular_CreateAccountForSubscription:
  assumes "regular s"
  shows "regular (snd (CreateAccountForSubscription True inbounds now inboundID email uuid flow enc subID l s))"
  using assms regular_drop_zombie [OF assms, of email inboundID]
  by (auto simp: CreateAccountForSubscription_def acc_Create_def regular_def Let_def EnqueueAddUser_def account_node_def
      split: option.splits)

lemma regular_UpdateAccount:
  assumes "regular s"
  shows "regular (snd (UpdateAccount inbounds now i email uuid flow dataLimit expiresAt enabled s))"
  using assms regular_written [OF assms] by (auto simp: UpdateAccount_def Let_def regular_def split: option.split)

lemma regular_MigrateAccount:
  assumes "regular s"
  shows "regular (snd (MigrateAccount inbounds now i target s))"
proof (cases "acc_FindByID i (asRows s)")
  case (Some a)
  then have "acStatus a = AccActive \<or> acStatus a = AccDisabled"
    using assms acc_FindByID_Some [OF Some] by (auto simp: regular_def list_all_iff)
  then show ?thesis
    using assms Some regular_written [OF assms, of "a\<lparr>acInboundID := target\<rparr>"]
    by (auto simp: MigrateAccount_def Let_def regular_def split: option.split)
qed (use assms in \<open>simp add: MigrateAccount_def\<close>)

datatype acct_op =
    DoCreate nat string string string string AccountSource "nat option"
  | DoCreateForSubscription nat string string string string nat int
  | DoDisable nat | DoEnable nat | DoDelete nat
  | DoUpdate nat string string string int "int option" bool
  | DoMigrate nat nat
  | DoDisableSub nat | DoEnableSub nat | DoDeleteSub nat | DoForceDeleteSub nat
  | DoSetUUID nat string | DoCheckExhausted | DoClearLimits nat | DoResetUsed nat

fun acct_step :: "(nat \<Rightarrow> Inbound option) \<Rightarrow> int \<Rightarrow> acct_op \<Rightarrow> acct_state \<Rightarrow> acct_state" where
  "acct_step inbounds now (DoCreate i e u f enc src sub) s = snd (CreateAccount inbounds now i e u f enc src sub s)"
| "acct_step inbounds now (DoCreateForSubscription i e u f enc sub l) s = snd (CreateAccountForSubscription True inbounds now i e u f enc sub l s)"
| "acct_step inbounds now (DoDisable i) s = snd (DisableAccount inbounds now i s)"
| "acct_step inbounds now (DoEnable i) s = snd (EnableAccount inbounds now i s)"
| "acct_step inbounds now (DoDelete i) s = snd (DeleteAccount inbounds now i s)"
| "acct_step inbounds now (DoUpdate i e u f l x on) s = snd (UpdateAccount inbounds now i e u f l x on s)"
| "acct_step inbounds now (DoMigrate i target) s = snd (MigrateAccount inbounds now i target s)"
| "acct_step inbounds now (DoDisableSub sub) s = snd (DisableAccountsBySubscription inbounds now sub s)"
| "acct_step inbounds now (DoEnableSub sub) s = snd (EnableAccountsBySubscription inbounds now sub s)"
| "acct_step inbounds now (DoDeleteSub sub) s = snd (DeleteAccountsBySubscription inbounds now sub s)"
| "acct_step inbounds now (DoForceDeleteSub sub) s = ForceDeleteAccountsBySubscription inbounds now sub s"
| "acct_step inbounds now (DoSetUUID sub u) s = snd (SetAccountsUUIDBySubscription inbounds now sub u s)"
| "acct_step inbounds now DoCheckExhausted s = snd (CheckAndDisableExhaustedAccounts inbounds now s)"
| "acct_step inbounds now (DoClearLimits sub) s = ClearAccountDataLimitsBySubscription sub s"
| "acct_step inbounds now (DoResetUsed sub) s = ResetAccountDataUsedBySubscription sub s"

text \<open>The guard leaves out moving an account that is not active.\<close>

fun moves_active :: "acct_op \<Rightarrow> acct_state \<Rightarrow> bool" where
  "moves_active (DoMigrate i target) s = (case acc_FindByID i (asRows s) of None \<Rightarrow> True | Some a \<Rightarrow> acStatus a = AccActive)"
| "moves_active op s = True"

inductive acct_run :: "(nat \<Rightarrow> Inbound option) \<Rightarrow> acct_state \<Rightarrow> acct_state \<Rightarrow> bool" for inbounds where
  start: "acct_run inbounds s s"
| step: "acct_run inbounds s s' \<Longrightarrow> moves_active op s' \<Longrightarrow> acct_run inbounds s (acct_step inbounds now op s')"

lemma acct_ok_ops:
  assumes ib: "inbounds_ok inbounds" and ok: "acct_ok inbounds s"
  shows "acct_ok inbounds (snd (DisableAccount inbounds now i s))" "acct_ok inbounds (snd (EnableAccount inbounds now i s))"
    "acct_ok inbounds (snd (DeleteAccount inbounds now i s))"
    "acct_ok inbounds (snd (UpdateAccount inbounds now i e u f l x on s))"
  using ok mirrors_DisableAccount [OF ib] mirrors_EnableAccount [OF ib] mirrors_DeleteAccount [OF ib] mirrors_UpdateAccount [OF ib]
    regular_ops regular_UpdateAccount by (auto simp: acct_ok_def)

lemma acct_ok_SetUUID:
  assumes ib: "inbounds_ok inbounds" and ok: "acct_ok inbounds s"
  shows "acct_ok inbounds (snd (SetAccountsUUIDBySubscription inbounds now subID u s))"
proof -
  have "acct_ok inbounds (snd (fold (\<lambda>a ((updated, firstErr), s).
       if acUUID a = u then ((updated + 1, firstErr), s)
       else (case UpdateAccount inbounds now (acID a) (acEmail a) u (acFlow a) (acDataLimit a) (acExpiresAt a)
                    (acStatus a = AccActive) s of
          (None, s) \<Rightarrow> ((updated + 1, firstErr), s)
        | (Some e, s) \<Rightarrow> ((updated, if firstErr = None then Some e else firstErr), s))) as ((n, err), s)))"
    if "acct_ok inbounds s" for as n err s
    using that
  proof (induction as arbitrary: n err s)
    case (Cons a as)
    then show ?case
      using acct_ok_ops(4) [OF ib, of s now "acID a" "acEmail a" u "acFlow a" "acDataLimit a" "acExpiresAt a" "acStatus a = AccActive"]
      by (auto split: prod.splits option.splits)
  qed simp
  then show ?thesis using ok by (simp add: SetAccountsUUIDBySubscription_def)
qed


lemma acct_ok_step:
  assumes ib: "inbounds_ok inbounds" and ok: "acct_ok inbounds s" and g: "moves_active op s"
  shows "acct_ok inbounds (acct_step inbounds now op s)"
proof (cases op)
  case (DoMigrate i target)
  have "acStatus a = AccActive" if "acc_FindByID i (asRows s) = Some a" for a using that g DoMigrate by simp
  then show ?thesis using ok DoMigrate mirrors_MigrateAccount [OF ib, of s i] regular_MigrateAccount by (auto simp: acct_ok_def)
next
  case (DoSetUUID sub u)
  then show ?thesis using acct_ok_SetUUID [OF ib ok] by simp
next
  case DoCheckExhausted
  have "acct_ok inbounds (snd (each_account (DisableAccount inbounds now) as s))" for as
    by (rule each_account_keeps [of "acct_ok inbounds"]) (use acct_ok_ops(1) [OF ib] ok in auto)
  then show ?thesis using DoCheckExhausted by (simp add: CheckAndDisableExhaustedAccounts_def Let_def split: prod.split)
      (metis snd_conv)
next
  case (DoClearLimits sub)
  then show ?thesis using ok regular_ops(5) mirrors_counters [of inbounds s "\<lambda>a. a\<lparr>acDataLimit := 0\<rparr>"]
    by (simp add: acct_ok_def ClearAccountDataLimitsBySubscription_def UpdateDataLimitBySubscriptionID_def identity_def live_creds_def)
next
  case (DoResetUsed sub)
  then show ?thesis using ok regular_ops(6) mirrors_counters [of inbounds s "\<lambda>a. a\<lparr>acDataUsed := 0\<rparr>"]
    by (simp add: acct_ok_def ResetAccountDataUsedBySubscription_def ResetDataUsedBySubscriptionID_def identity_def live_creds_def)
next
  case (DoDisableSub sub)
  then show ?thesis unfolding DoDisableSub acct_step.simps DisableAccountsBySubscription_def
    by (intro each_account_keeps [of "acct_ok inbounds"] acct_ok_ops(1) [OF ib] ok)
next
  case (DoEnableSub sub)
  then show ?thesis unfolding DoEnableSub acct_step.simps EnableAccountsBySubscription_def
    by (intro each_account_keeps [of "acct_ok inbounds"] acct_ok_ops(2) [OF ib] ok)
next
  case (DoDeleteSub sub)
  then show ?thesis unfolding DoDeleteSub acct_step.simps DeleteAccountsBySubscription_def
    by (intro each_account_keeps [of "acct_ok inbounds"] acct_ok_ops(3) [OF ib] ok)
qed (use ok acct_ok_ops [OF ib ok] mirrors_CreateAccount [OF ib] regular_CreateAccount
      mirrors_CreateAccountForSubscription [OF ib] regular_CreateAccountForSubscription
      mirrors_ForceDeleteAccountsBySubscription [OF ib] regular_ops(4) in \<open>simp_all add: acct_ok_def\<close>)

lemma acct_ok_run: "acct_run inbounds s s' \<Longrightarrow> inbounds_ok inbounds \<Longrightarrow> acct_ok inbounds s \<Longrightarrow> acct_ok inbounds s'"
  by (induction rule: acct_run.induct) (auto intro: acct_ok_step)

definition acct_start :: acct_state where
  "acct_start = \<lparr>asRows = [], asNext = 1, asTasks = \<lparr>ttRows = [], ttNext = 1\<rparr>\<rparr>"

lemma acct_ok_start: "acct_ok inbounds acct_start"
  by (simp add: acct_ok_def acct_start_def mirrors_def rows_ok_def regular_def carried_out_def wanted_def fun_eq_iff)


text \<open>
  Moving an account that is switched off switches it on at the target: the table keeps it
  disabled, and the queue adds the user to the node of the target.
\<close>

theorem moving_switches_on:
  assumes "inbounds_ok inbounds" "acc_FindByID i (asRows s) = Some a" "acStatus a = AccDisabled" "mirrors inbounds s"
    "inbounds (acInboundID a) = Some si" "inbounds target = Some ti" "inNode ti = Some n" "target \<noteq> acInboundID a"
    "FindByEmailAndInboundUnscoped (acEmail a) target (asRows s) = None"
  shows "let s' = snd (MigrateAccount inbounds now i target s); k = (inNodeID ti, inTag ti, acEmail a) in
     wanted inbounds (asRows s') k = None \<and> carried_out (asTasks s') k = Some (acUUID a, acFlow a, acEncryption a)"
proof -
  note a = acc_FindByID_Some [OF assms(2)]
  let ?b = "a\<lparr>acInboundID := target\<rparr>" and ?k = "(inNodeID ti, inTag ti, acEmail a)"
  have ok: "distinct (map acID (asRows s))" "distinct (map identity (asRows s))" using assms(4) by (simp_all add: mirrors_def rows_ok_def)
  have "acc_Update ?b (asRows s) = Some (map (\<lambda>c. if acID c = acID a then ?b else c) (asRows s))"
    using assms(9) by (auto simp: acc_Update_def FindByEmailAndInboundUnscoped_def find_None_iff list_ex_iff)
  note rows = this acc_Update_Some(2) [OF this ok(1) conjunct1 [OF a]]
  have p: "place inbounds ?b = Some ?k" "account_node inbounds ?b = Some n"
    using assms(6,7) by (simp_all add: place_def account_node_def)
  have "wanted inbounds (map (\<lambda>c. if acID c = acID a then ?b else c) (asRows s)) ?k = None"
    using wanted_replace [OF assms(1) ok conjunct1 [OF a], of ?b] rows(2) p(1) assms(3) by (simp add: set_at_def live_creds_def)
  moreover have "carried_out (queue_add now inbounds ?b n t) ?k = Some (acUUID a, acFlow a, acEncryption a)" for t
    using carried_out_add [OF p(2)] p(1) by (simp add: set_at_def)
  moreover have "inID si \<noteq> target" using assms(1,5,8) by (auto simp: inbounds_ok_def)
  ultimately show ?thesis using assms(2,5,6,7) rows(1) by (simp add: MigrateAccount_def Let_def)
qed


section \<open>Example\<close>

definition demo_inbounds :: "nat \<Rightarrow> Inbound option" where
  "demo_inbounds i = (if i = 1 then Some demo_inbound else if i = 2 then Some (demo_inbound\<lparr>inID := 2, inTag := ''vless''\<rparr>) else None)"

definition demo_created :: acct_state where
  "demo_created = acct_step demo_inbounds 0 (DoCreate 1 ''u1'' ''id'' ''f'' ''e'' SourceManual None) acct_start"

definition demo_off :: acct_state where
  "demo_off = acct_step demo_inbounds 0 (DoDisable 1) demo_created"

definition demo_moved :: acct_state where
  "demo_moved = acct_step demo_inbounds 0 (DoMigrate 1 2) demo_created"

lemma demo_inbounds_ok: "inbounds_ok demo_inbounds"
  by (simp add: inbounds_ok_def demo_inbounds_def demo_inbound_def)

lemma demo_created_rows: "asRows demo_created = [new_account 0 1 1 ''u1'' ''id'' ''f'' ''e'' SourceManual None 0]"
  by (simp add: demo_created_def CreateAccount_def demo_inbounds_def demo_inbound_def acct_start_def FindByEmailAndInbound_def
      drop_zombie_def FindByEmailAndInboundUnscoped_def acc_Create_def EnqueueAddUser_def Let_def)

lemma demo_runs:
  "acct_run demo_inbounds acct_start demo_created" "acct_run demo_inbounds acct_start demo_moved"
  "acct_run demo_inbounds acct_start demo_off"
proof -
  show c: "acct_run demo_inbounds acct_start demo_created" unfolding demo_created_def by (intro acct_run.intros) simp
  show "acct_run demo_inbounds acct_start demo_moved" unfolding demo_moved_def
    by (rule acct_run.step [OF c]) (simp add: demo_created_rows acc_FindByID_def new_account_def)
  show "acct_run demo_inbounds acct_start demo_off" unfolding demo_off_def by (rule acct_run.step [OF c]) simp
qed

lemma demo_moved_rows: "asRows demo_moved = [new_account 0 1 2 ''u1'' ''id'' ''f'' ''e'' SourceManual None 0]"
  by (simp add: demo_moved_def MigrateAccount_def demo_created_rows acc_FindByID_def acc_Update_def new_account_def
      demo_inbounds_def demo_inbound_def Let_def)

lemma demo_off_rows: "asRows demo_off = [(new_account 0 1 1 ''u1'' ''id'' ''f'' ''e'' SourceManual None 0)\<lparr>acStatus := AccDisabled\<rparr>]"
  by (simp add: demo_off_def DisableAccount_def demo_created_rows acc_FindByID_def acc_UpdateStatus_def update_acc_def new_account_def
      demo_inbounds_def demo_inbound_def account_node_def)


theorem moving_switches_on_witness:
  "wanted demo_inbounds (asRows (snd (MigrateAccount demo_inbounds 0 1 2 demo_off))) (4, ''vless'', ''u1'') = None
    \<and> carried_out (asTasks (snd (MigrateAccount demo_inbounds 0 1 2 demo_off))) (4, ''vless'', ''u1'') = Some (''id'', ''f'', ''e'')"
proof -
  have "mirrors demo_inbounds demo_off"
    using acct_ok_run [OF demo_runs(3) demo_inbounds_ok acct_ok_start] by (simp add: acct_ok_def)
  then show ?thesis
    using moving_switches_on [OF demo_inbounds_ok, of 1 demo_off "(new_account 0 1 1 ''u1'' ''id'' ''f'' ''e'' SourceManual None 0)\<lparr>acStatus := AccDisabled\<rparr>"
        demo_inbound 2 "demo_inbound\<lparr>inID := 2, inTag := ''vless''\<rparr>" _ 0]
    by (simp add: demo_off_rows acc_FindByID_def demo_inbounds_def demo_inbound_def FindByEmailAndInboundUnscoped_def Let_def new_account_def)
qed

end
