(* ===== verification/Core_Users.thy ===== *)
theory Core_Users
  imports Subscription
begin

text \<open>
  The SSH and MTProto tunnels: \<open>internal/core/domain/core.go\<close>, \<open>internal/core/repository\<close>, the
  lifecycle half of \<open>internal/core/usecase/subscription.go\<close> and \<open>subscription_assign.go\<close>, the
  payloads of \<open>internal/core/nodebridge/bridge.go\<close> and the policies of \<open>cmd/tunnels.go\<close>. A core
  user is a credential on one tunnel. Listeners, egress and settings of a tunnel are left out of the
  payload, and so is the push itself. The lemmas show what a node is told about a user and that the
  batched counters are the single ones.
\<close>

section \<open>Tunnels and their users\<close>

datatype CoreProtocol = CoreProtoSSH | CoreProtoMTProto

record CoreInbound =
  ciID :: nat
  ciNodeID :: nat
  ciProtocol :: CoreProtocol
  ciIsDisabled :: bool

record CoreUser =
  cuID :: nat
  cuCoreInboundID :: nat
  cuSubscriptionID :: "nat option"
  cuUsername :: string
  cuSecret :: string
  cuEmail :: string
  cuKLimit :: int
  cuDataUsed :: int
  cuEnabled :: bool

text \<open>The tables; \<open>crDisabled\<close> are the rows of \<open>node_core_settings\<close> that switch a protocol off.\<close>

record core_tables =
  crInbounds :: "CoreInbound list"
  crUsers :: "CoreUser list"
  crDisabled :: "(nat \<times> CoreProtocol) list"

definition ListInboundsByNode :: "nat \<Rightarrow> core_tables \<Rightarrow> CoreInbound list" where
  "ListInboundsByNode nodeID t = sort_key ciID (filter (\<lambda>i. ciNodeID i = nodeID) (crInbounds t))"

definition ListUsersByInbound :: "nat \<Rightarrow> core_tables \<Rightarrow> CoreUser list" where
  "ListUsersByInbound inboundID t = sort_key cuID (filter (\<lambda>u. cuCoreInboundID u = inboundID) (crUsers t))"

definition FindUsersBySubscription :: "nat \<Rightarrow> core_tables \<Rightarrow> CoreUser list" where
  "FindUsersBySubscription subID t = sort_key cuID (filter (\<lambda>u. cuSubscriptionID u = Some subID) (crUsers t))"

definition FindInboundByID :: "nat \<Rightarrow> core_tables \<Rightarrow> CoreInbound option" where
  "FindInboundByID i t = find (\<lambda>c. ciID c = i) (crInbounds t)"

definition DisabledProtocolsForNode :: "nat \<Rightarrow> core_tables \<Rightarrow> CoreProtocol list" where
  "DisabledProtocolsForNode nodeID t = map snd (filter (\<lambda>(n, p). n = nodeID) (crDisabled t))"

text \<open>\<open>Save\<close> of a loaded row.\<close>

definition UpdateUser :: "CoreUser \<Rightarrow> core_tables \<Rightarrow> core_tables" where
  "UpdateUser u t = t\<lparr>crUsers := map (\<lambda>v. if cuID v = cuID u then u else v) (crUsers t)\<rparr>"

definition DeleteUser :: "nat \<Rightarrow> core_tables \<Rightarrow> core_tables" where
  "DeleteUser i t = t\<lparr>crUsers := filter (\<lambda>u. cuID u \<noteq> i) (crUsers t)\<rparr>"

definition ResetDataBySubscription :: "nat \<Rightarrow> core_tables \<Rightarrow> core_tables" where
  "ResetDataBySubscription subID t =
     t\<lparr>crUsers := map (\<lambda>u. if cuSubscriptionID u = Some subID then u\<lparr>cuDataUsed := 0\<rparr> else u) (crUsers t)\<rparr>"

section \<open>The lifecycle of a subscription's tunnels\<close>

text \<open>
  The nodes of a set of users; \<^term>\<open>None\<close> when an inbound is gone. The reconcile that follows pushes
  to these nodes and changes no table; its error is a value the callers log.
\<close>

definition nodeSetForUsers :: "CoreUser list \<Rightarrow> core_tables \<Rightarrow> nat list option" where
  "nodeSetForUsers users t =
     (if list_ex (\<lambda>u. FindInboundByID (cuCoreInboundID u) t = None) users then None
      else Some (remdups (map (\<lambda>u. ciNodeID (the (FindInboundByID (cuCoreInboundID u) t))) users)))"

definition setUsersEnabledBySubscription :: "nat \<Rightarrow> bool \<Rightarrow> core_tables \<Rightarrow> nat list option \<times> core_tables" where
  "setUsersEnabledBySubscription subID enabled t =
     (let users = FindUsersBySubscription subID t;
          t = fold (\<lambda>u. UpdateUser (u\<lparr>cuEnabled := enabled\<rparr>)) (filter (\<lambda>u. cuEnabled u \<noteq> enabled) users) t
      in (nodeSetForUsers users t, t))"

definition DeleteUsersBySubscription :: "nat \<Rightarrow> core_tables \<Rightarrow> nat list option \<times> core_tables" where
  "DeleteUsersBySubscription subID t =
     (let users = FindUsersBySubscription subID t in
      case nodeSetForUsers users t of
        None \<Rightarrow> (None, t)
      | Some nodes \<Rightarrow> (Some nodes, fold (\<lambda>u. DeleteUser (cuID u)) users t))"

definition SetKLimitBySubscription :: "nat \<Rightarrow> int \<Rightarrow> core_tables \<Rightarrow> nat list option \<times> core_tables" where
  "SetKLimitBySubscription subID kLimit t =
     (let k = (if kLimit < 1 then 1 else kLimit);
          changed = map (\<lambda>u. u\<lparr>cuKLimit := k\<rparr>) (filter (\<lambda>u. cuKLimit u \<noteq> k) (FindUsersBySubscription subID t));
          t = fold UpdateUser changed t
      in (if changed = [] then Some [] else nodeSetForUsers changed t, t))"

section \<open>What a node is told\<close>

text \<open>\<open>ExpiresAt\<close> is \<^term>\<open>None\<close> for the zero time.\<close>

record UserPolicy =
  upActive :: bool
  upExpiresAt :: "int option"
  upRateLimitUpBps :: int
  upRateLimitDownBps :: int

text \<open>
  \<open>lookup\<close> reads a subscription: it may fail for the moment (\<open>None\<close>), or find nothing
  (\<open>Some None\<close>).
\<close>

definition tunnelPolicy :: "int \<Rightarrow> Subscription option \<Rightarrow> UserPolicy" where
  "tunnelPolicy now found = (case found of
     None \<Rightarrow> \<lparr>upActive = False, upExpiresAt = None, upRateLimitUpBps = 0, upRateLimitDownBps = 0\<rparr>
   | Some sub \<Rightarrow>
       let mbps = GetEffectiveBandwidthLimit sub;
           bits = wrap64 (mbps * 1000000);
           bps = (if mbps > 0 then sgn bits * (\<bar>bits\<bar> div 8) else 0)
       in \<lparr>upActive = GrantsAccess now sub, upExpiresAt = GetEffectiveEndDate sub,
           upRateLimitUpBps = bps, upRateLimitDownBps = bps\<rparr>)"

definition tunnelPolicies ::
    "int \<Rightarrow> (nat \<Rightarrow> Subscription option option) \<Rightarrow> nat list \<Rightarrow> (nat \<times> UserPolicy) list" where
  "tunnelPolicies now lookup subIDs =
     List.map_filter (\<lambda>i. map_option (\<lambda>found. (i, tunnelPolicy now found)) (lookup i)) subIDs"

record pb_CoreUser =
  pbUsername :: string
  pbSecret :: string
  pbEmail :: string
  pbKLimit :: int
  pbEnabled :: bool
  pbExpiresAtUnix :: int
  pbRateLimitUpBps :: int
  pbRateLimitDownBps :: int

record pb_CoreState =
  psInboundID :: nat
  psProtocol :: CoreProtocol
  psEnabled :: bool
  psUsers :: "pb_CoreUser list"

text \<open>The resolver answers for a list of subscriptions or fails; it may not be set.\<close>

type_synonym policy_resolver = "nat list \<Rightarrow> (nat \<times> UserPolicy) list option"

definition resolvePolicies :: "CoreInbound list \<Rightarrow> policy_resolver option \<Rightarrow> core_tables \<Rightarrow> (nat \<times> UserPolicy) list" where
  "resolvePolicies inbounds policies t = (case policies of
     None \<Rightarrow> []
   | Some resolve \<Rightarrow>
       let users = concat (map (\<lambda>i. ListUsersByInbound (ciID i) t) inbounds);
           ids = rev (remdups (rev (List.map_filter cuSubscriptionID users)))
       in if ids = [] then [] else (case resolve ids of None \<Rightarrow> [] | Some out \<Rightarrow> out))"

text \<open>The message has 32-bit limits and whole seconds since the epoch.\<close>

definition wrap32 :: "int \<Rightarrow> int" where
  "wrap32 n = (n + 2 ^ 31) mod 2 ^ 32 - 2 ^ 31"

definition core_user_payload :: "(nat \<times> UserPolicy) list \<Rightarrow> CoreUser \<Rightarrow> pb_CoreUser" where
  "core_user_payload policyBySub u =
     (let pu = \<lparr>pbUsername = cuUsername u, pbSecret = cuSecret u, pbEmail = cuEmail u, pbKLimit = wrap32 (cuKLimit u),
                pbEnabled = cuEnabled u, pbExpiresAtUnix = 0, pbRateLimitUpBps = 0, pbRateLimitDownBps = 0\<rparr>
      in case cuSubscriptionID u of
           None \<Rightarrow> pu
         | Some i \<Rightarrow>
             (case map_of policyBySub i of
                None \<Rightarrow> pu
              | Some pol \<Rightarrow> pu\<lparr>pbEnabled := (if \<not> upActive pol then False else pbEnabled pu),
                  pbExpiresAtUnix := (case upExpiresAt pol of None \<Rightarrow> pbExpiresAtUnix pu | Some e \<Rightarrow> e div 1000000000),
                  pbRateLimitUpBps := upRateLimitUpBps pol, pbRateLimitDownBps := upRateLimitDownBps pol\<rparr>))"

definition BuildCoreStatePayloads :: "nat \<Rightarrow> policy_resolver option \<Rightarrow> core_tables \<Rightarrow> pb_CoreState list" where
  "BuildCoreStatePayloads nodeID policies t =
     (let inbounds = ListInboundsByNode nodeID t;
          disabled = DisabledProtocolsForNode nodeID t;
          policyBySub = resolvePolicies inbounds policies t
      in map (\<lambda>i. \<lparr>psInboundID = ciID i, psProtocol = ciProtocol i,
            psEnabled = (\<not> ciIsDisabled i \<and> ciProtocol i \<notin> set disabled),
            psUsers = map (core_user_payload policyBySub) (ListUsersByInbound (ciID i) t)\<rparr>) inbounds)"

text \<open>What \<open>ReconcileNode\<close> pushes: on a node out of service every user is off.\<close>

definition node_payloads :: "bool \<Rightarrow> nat \<Rightarrow> policy_resolver option \<Rightarrow> core_tables \<Rightarrow> pb_CoreState list" where
  "node_payloads serves nodeID policies t =
     (let payloads = BuildCoreStatePayloads nodeID policies t in
      if \<not> serves then map (\<lambda>p. p\<lparr>psUsers := map (\<lambda>u. u\<lparr>pbEnabled := False\<rparr>) (psUsers p)\<rparr>) payloads else payloads)"

section \<open>Batched counters\<close>

record CoreUsageDelta =
  cdCoreUserID :: nat
  cdBytes :: int

definition cd_merge :: "CoreUsageDelta \<Rightarrow> CoreUsageDelta \<Rightarrow> CoreUsageDelta" where
  "cd_merge c d = \<lparr>cdCoreUserID = cdCoreUserID d, cdBytes = wrap64 (cdBytes c + cdBytes d)\<rparr>"

definition core_user_set :: "CoreUsageDelta list \<Rightarrow> CoreUser \<Rightarrow> CoreUser" where
  "core_user_set batch u =
     (if cuID u \<in> set (map cdCoreUserID batch)
      then u\<lparr>cuDataUsed := cuDataUsed u + (case find (\<lambda>d. cdCoreUserID d = cuID u) batch of None \<Rightarrow> 0 | Some d \<Rightarrow> cdBytes d)\<rparr>
      else u)"

definition AddCoreUserDataBatch :: "CoreUsageDelta list \<Rightarrow> core_tables \<Rightarrow> core_tables" where
  "AddCoreUserDataBatch deltas t =
     t\<lparr>crUsers := send_batches trafficBatchSize
        (merge_all cdCoreUserID \<lparr>cdCoreUserID = 0, cdBytes = 0\<rparr> cd_merge deltas) (\<lambda>d. cdBytes d \<noteq> 0)
        (\<lambda>batch. map (core_user_set batch)) (crUsers t)\<rparr>"

definition AddCoreUserData :: "nat \<Rightarrow> int \<Rightarrow> core_tables \<Rightarrow> core_tables" where
  "AddCoreUserData i bytes t = (if bytes = 0 then t
     else t\<lparr>crUsers := update_row cuID i (\<lambda>u. u\<lparr>cuDataUsed := cuDataUsed u + bytes\<rparr>) (crUsers t)\<rparr>)"

definition add_core_bytes :: "CoreUsageDelta \<Rightarrow> CoreUser \<Rightarrow> CoreUser" where
  "add_core_bytes d u = u\<lparr>cuDataUsed := cuDataUsed u + cdBytes d\<rparr>"

interpretation core_batches: row_batches cuID cdCoreUserID "\<lparr>cdCoreUserID = 0, cdBytes = 0\<rparr>" cd_merge
    "\<lambda>d. 0 \<le> cdBytes d" cdBytes add_core_bytes "\<lambda>d. cdBytes d \<noteq> 0" core_user_set
proof unfold_locales
  fix c d :: CoreUsageDelta and ds and u
  show "0 \<le> cdBytes (cd_merge \<lparr>cdCoreUserID = 0, cdBytes = 0\<rparr> d)
      \<and> cdBytes (cd_merge \<lparr>cdCoreUserID = 0, cdBytes = 0\<rparr> d) = cdBytes d
      \<and> add_core_bytes (cd_merge \<lparr>cdCoreUserID = 0, cdBytes = 0\<rparr> d) = add_core_bytes d"
    if "0 \<le> cdBytes d" "cdBytes d \<le> int64_max"
    using that wrap64_id [of "cdBytes d"] by (simp add: cd_merge_def add_core_bytes_def fun_eq_iff int64_min_def)
  show "0 \<le> cdBytes (cd_merge c d) \<and> cdBytes (cd_merge c d) = cdBytes c + cdBytes d
      \<and> add_core_bytes (cd_merge c d) = add_core_bytes d \<circ> add_core_bytes c"
    if "0 \<le> cdBytes c" "0 \<le> cdBytes d" "cdCoreUserID c = cdCoreUserID d" "cdBytes c + cdBytes d \<le> int64_max"
    using that wrap64_id [of "cdBytes c + cdBytes d"]
    by (simp add: cd_merge_def add_core_bytes_def fun_eq_iff int64_min_def)
  show "core_user_set ds u = u" if "find (\<lambda>d. cdCoreUserID d = cuID u) ds = None"
    using that by (auto simp: core_user_set_def find_None_iff)
  show "core_user_set ds u = add_core_bytes d u" if "find (\<lambda>d. cdCoreUserID d = cuID u) ds = Some d"
  proof -
    have "d \<in> set ds" "cdCoreUserID d = cuID u" using that by (auto simp: find_Some_iff)
    then have "cuID u \<in> cdCoreUserID ` set ds" by force
    then show ?thesis using that by (simp add: core_user_set_def add_core_bytes_def)
  qed
qed (simp_all add: cd_merge_def add_core_bytes_def core_user_set_def)

lemma AddCoreUserData_row:
  "AddCoreUserData (cdCoreUserID d) (cdBytes d) t
    = t\<lparr>crUsers := update_row cuID (cdCoreUserID d) (add_core_bytes d) (crUsers t)\<rparr>"
  by (auto simp: AddCoreUserData_def add_core_bytes_def update_row_def map_idI)

lemma AddCoreUserDataBatch_one_by_one:
  assumes "distinct (map cuID (crUsers t))" "list_all (\<lambda>d. 0 \<le> cdBytes d) deltas"
    "(\<Sum>d \<leftarrow> deltas. cdBytes d) \<le> int64_max"
  shows "AddCoreUserDataBatch deltas t = fold (\<lambda>d. AddCoreUserData (cdCoreUserID d) (cdBytes d)) deltas t"
proof -
  have "fold (\<lambda>d. AddCoreUserData (cdCoreUserID d) (cdBytes d)) ds t
      = t\<lparr>crUsers := fold (\<lambda>d. update_row cuID (cdCoreUserID d) (add_core_bytes d)) ds (crUsers t)\<rparr>" for ds
    by (induction ds arbitrary: t) (simp_all add: AddCoreUserData_row)
  then show ?thesis
    using core_batches.batches_are_one_by_one [OF assms, of trafficBatchSize]
    by (simp add: AddCoreUserDataBatch_def trafficBatchSize_def)
qed

end
