(* ===== verification/Access_Lifecycle.thy ===== *)
theory Access_Lifecycle
  imports Account_Usecase Core_Users Bandwidth
begin

text \<open>
  The access of a subscription: \<open>internal/subscription/usecase/tunnel_access.go\<close>,
  \<open>subscription_lifecycle.go\<close> and \<open>subscription_usage.go\<close>, and the admin's operations in
  \<open>internal/admin/usecase/admin_subscriptions.go\<close> and \<open>admin_users.go\<close>. A subscription owns Xray
  accounts, WireGuard peers and tunnel users, in three tables; the operations here change all of
  them together with the subscription's own row. The last part is what a node is told:
  \<open>internal/node/usecase/agent_helpers.go\<close> and \<open>cmd/root.go\<close>.

  The database is taken to work. The direct calls of the product provider to the nodes change no
  table and are left out; its WireGuard hook is kept. A limit arrives in bytes; the conversion from
  a floating-point number of gigabytes is left to the caller.
\<close>

section \<open>State\<close>

record panel =
  pnSubs :: sub_table
  pnAccts :: acct_state
  pnDevs :: dev_state
  pnCores :: core_tables
  pnBanned :: "nat list"

text \<open>What the operations read: the inbounds, which pushes work, and which subscriptions have a product provider.\<close>

record panel_env =
  peInbounds :: "nat \<Rightarrow> Inbound option"
  peDev :: dev_env
  pePush :: "nat \<Rightarrow> bool"
  peProvider :: "nat \<Rightarrow> bool"

datatype panel_error = ErrSubscriptionNotFound | ErrResumeExpired | ErrDeleteTunnels | ErrTooManyIDs | ErrUnknownAction

section \<open>Switching everything on or off\<close>

text \<open>The first error of the three is returned; every caller logs it and goes on.\<close>

definition setTunnelAccess :: "panel_env \<Rightarrow> int \<Rightarrow> nat \<Rightarrow> bool \<Rightarrow> panel \<Rightarrow> panel" where
  "setTunnelAccess env now subID enabled p =
     (let accts = (if enabled then snd (EnableAccountsBySubscription (peInbounds env) now subID (pnAccts p))
                   else snd (DisableAccountsBySubscription (peInbounds env) now subID (pnAccts p)));
          devs = (if enabled then ActivateSubscription (peDev env) (pePush env) subID (pnDevs p)
                  else DeactivateSubscription (peDev env) (pePush env) subID (pnDevs p));
          cores = snd (setUsersEnabledBySubscription subID enabled (pnCores p))
      in p\<lparr>pnAccts := accts, pnDevs := devs, pnCores := cores\<rparr>)"

definition deactivateOnNodes :: "panel_env \<Rightarrow> int \<Rightarrow> Subscription \<Rightarrow> panel \<Rightarrow> panel" where
  "deactivateOnNodes env now sub p =
     (let p = (if peProvider env (sbID sub) \<and> sbID sub \<noteq> 0
               then p\<lparr>pnDevs := DeactivateSubscription (peDev env) (pePush env) (sbID sub) (pnDevs p)\<rparr> else p)
      in setTunnelAccess env now (sbID sub) False p)"

text \<open>The accounts from which \<open>prepareManualSubscriptionInfo\<close> takes inbounds; without one it fails.\<close>

definition has_active_inbound :: "panel_env \<Rightarrow> nat \<Rightarrow> acct_state \<Rightarrow> bool" where
  "has_active_inbound env subID s =
     list_ex (\<lambda>a. case account_node (peInbounds env) a of None \<Rightarrow> False | Some n \<Rightarrow> ndIsActive n)
       (ListBySubscriptionID subID (asRows s))"

definition reactivateSubscription :: "panel_env \<Rightarrow> int \<Rightarrow> nat \<Rightarrow> panel \<Rightarrow> panel" where
  "reactivateSubscription env now i p =
     (let p = setTunnelAccess env now i True (p\<lparr>pnSubs := UpdateStatus i StatusActive (pnSubs p)\<rparr>)
      in case sub_FindByID i (pnSubs p) of
           None \<Rightarrow> p
         | Some sub \<Rightarrow>
             if has_active_inbound env (sbID sub) (pnAccts p) \<and> peProvider env (sbID sub) \<and> sbID sub \<noteq> 0
             then p\<lparr>pnDevs := ActivateSubscription (peDev env) (pePush env) (sbID sub) (pnDevs p)\<rparr> else p)"

section \<open>Operations of the subscription usecase\<close>

definition Cancel :: "panel_env \<Rightarrow> int \<Rightarrow> nat \<Rightarrow> panel \<Rightarrow> panel_error option \<times> panel" where
  "Cancel env now i p =
     (case sub_FindByID i (pnSubs p) of
        None \<Rightarrow> (Some ErrSubscriptionNotFound, p)
      | Some sub \<Rightarrow>
          let p = deactivateOnNodes env now sub p
          in (None, p\<lparr>pnSubs := UpdateStatus i StatusCancelled (pnSubs p)\<rparr>))"

definition UpdateDataUsage :: "nat \<Rightarrow> int \<Rightarrow> panel \<Rightarrow> panel" where
  "UpdateDataUsage i bytesUsed p =
     (let subs = (case sub_FindByID i (pnSubs p) of
            None \<Rightarrow> pnSubs p
          | Some sub \<Rightarrow> if bytesUsed > sbDataUsed sub
                        then AddLifetimeDataUsed i (wrap64 (bytesUsed - sbDataUsed sub)) (pnSubs p) else pnSubs p)
      in p\<lparr>pnSubs := UpdateDataUsed i bytesUsed subs\<rparr>)"

definition expire_as :: "panel_env \<Rightarrow> int \<Rightarrow> SubscriptionStatus \<Rightarrow> Subscription \<Rightarrow> panel \<Rightarrow> panel" where
  "expire_as env now st sub p =
     (let p = deactivateOnNodes env now sub p in p\<lparr>pnSubs := UpdateStatus (sbID sub) st (pnSubs p)\<rparr>)"

definition CheckAndExpireSubscriptions :: "panel_env \<Rightarrow> int \<Rightarrow> panel \<Rightarrow> panel" where
  "CheckAndExpireSubscriptions env now p = fold (expire_as env now StatusExpired) (ListExpired now (pnSubs p)) p"

definition CheckAndExpireByDataLimit :: "panel_env \<Rightarrow> int \<Rightarrow> panel \<Rightarrow> panel" where
  "CheckAndExpireByDataLimit env now p = fold (expire_as env now StatusTrafficExhausted) (ListDataExhausted (pnSubs p)) p"

definition SetCustomDataLimit :: "panel_env \<Rightarrow> int \<Rightarrow> nat \<Rightarrow> int option \<Rightarrow> panel \<Rightarrow> panel_error option \<times> panel" where
  "SetCustomDataLimit env now i limitBytes p =
     (case sub_FindByID i (pnSubs p) of
        None \<Rightarrow> (Some ErrSubscriptionNotFound, p)
      | Some sub \<Rightarrow>
          let p = p\<lparr>pnSubs := repo_SetCustomDataLimit i limitBytes (pnSubs p)\<rparr>;
              p = (if limitBytes \<noteq> None then p\<lparr>pnAccts := ClearAccountDataLimitsBySubscription i (pnAccts p)\<rparr> else p);
              p = p\<lparr>pnSubs := ResetDataWarningLevel i (pnSubs p)\<rparr>
          in (None,
              if sbStatus sub = StatusTrafficExhausted then
                let effectiveLimit = (case limitBytes of Some l \<Rightarrow> l | None \<Rightarrow> sbDataLimit sub)
                in if effectiveLimit = 0 \<or> effectiveLimit > sbDataUsed sub then reactivateSubscription env now i p else p
              else if sbStatus sub = StatusActive then setTunnelAccess env now i True p
              else p))"

definition SetCustomBandwidthLimit :: "nat \<Rightarrow> int option \<Rightarrow> panel \<Rightarrow> panel_error option \<times> panel" where
  "SetCustomBandwidthLimit i limitMbps p =
     (case sub_FindByID i (pnSubs p) of
        None \<Rightarrow> (Some ErrSubscriptionNotFound, p)
      | Some sub \<Rightarrow> (None, p\<lparr>pnSubs := repo_SetCustomBandwidthLimit i limitMbps (pnSubs p)\<rparr>))"

definition SetMaxDevices :: "nat \<Rightarrow> int \<Rightarrow> panel \<Rightarrow> panel_error option \<times> panel" where
  "SetMaxDevices i maxDevices p =
     (let maxDevices = (if maxDevices < 0 then 0 else maxDevices) in
      case sub_FindByID i (pnSubs p) of
        None \<Rightarrow> (Some ErrSubscriptionNotFound, p)
      | Some sub \<Rightarrow> (None, p\<lparr>pnSubs := repo_SetMaxDevices i maxDevices (pnSubs p),
                            pnCores := snd (SetKLimitBySubscription i maxDevices (pnCores p))\<rparr>))"

definition SetCustomEndDate ::
    "panel_env \<Rightarrow> int \<Rightarrow> nat \<Rightarrow> int option \<Rightarrow> bool \<Rightarrow> panel \<Rightarrow> panel_error option \<times> panel" where
  "SetCustomEndDate env now i endDate isCustom p =
     (case sub_FindByID i (pnSubs p) of
        None \<Rightarrow> (Some ErrSubscriptionNotFound, p)
      | Some sub \<Rightarrow>
          let p = p\<lparr>pnSubs := repo_SetCustomEndDate i endDate isCustom (pnSubs p)\<rparr>;
              sub = sub\<lparr>sbCustomEndDate := endDate, sbIsEndDateCustom := isCustom\<rparr>;
              isExpired = sub_IsExpired now sub
          in (None,
              if isExpired \<and> sbStatus sub = StatusActive then
                setTunnelAccess env now i False (p\<lparr>pnSubs := UpdateStatus i StatusExpired (pnSubs p)\<rparr>)
              else if \<not> isExpired \<and> sbStatus sub = StatusExpired then
                (if sub_IsDataExhausted sub then p\<lparr>pnSubs := UpdateStatus i StatusTrafficExhausted (pnSubs p)\<rparr>
                 else setTunnelAccess env now i True (p\<lparr>pnSubs := UpdateStatus i StatusActive (pnSubs p)\<rparr>))
              else p))"

definition AddData :: "panel_env \<Rightarrow> int \<Rightarrow> nat \<Rightarrow> int \<Rightarrow> panel \<Rightarrow> panel_error option \<times> panel" where
  "AddData env now i additionalBytes p =
     (case sub_FindByID i (pnSubs p) of
        None \<Rightarrow> (Some ErrSubscriptionNotFound, p)
      | Some sub \<Rightarrow>
          let currentLimit = GetEffectiveDataLimit sub in
          if currentLimit = 0 then (None, p)
          else
            let newLimit = wrap64 (currentLimit + additionalBytes);
                p = p\<lparr>pnSubs := repo_SetCustomDataLimit i (Some newLimit) (pnSubs p)\<rparr>;
                p = p\<lparr>pnAccts := ClearAccountDataLimitsBySubscription i (pnAccts p)\<rparr>;
                p = p\<lparr>pnSubs := ResetDataWarningLevel i (pnSubs p)\<rparr>
            in (None,
                if sbStatus sub = StatusTrafficExhausted then
                  (if newLimit > sbDataUsed sub then reactivateSubscription env now i p else p)
                else if sbStatus sub = StatusActive then setTunnelAccess env now i True p
                else p))"

definition sub_ResetDataUsed :: "nat \<Rightarrow> panel \<Rightarrow> panel_error option \<times> panel" where
  "sub_ResetDataUsed i p =
     (case sub_FindByID i (pnSubs p) of
        None \<Rightarrow> (Some ErrSubscriptionNotFound, p)
      | Some sub \<Rightarrow>
          (None, p\<lparr>pnSubs := ResetDataWarningLevel i (repo_ResetDataUsed i (pnSubs p)),
                   pnAccts := ResetAccountDataUsedBySubscription i (pnAccts p),
                   pnCores := ResetDataBySubscription i (pnCores p)\<rparr>))"

section \<open>Operations of the admin\<close>

definition ExtendSubscription :: "panel_env \<Rightarrow> int \<Rightarrow> nat \<Rightarrow> int \<Rightarrow> panel \<Rightarrow> panel_error option \<times> panel" where
  "ExtendSubscription env now i days p =
     (case sub_FindByID i (pnSubs p) of
        None \<Rightarrow> (Some ErrSubscriptionNotFound, p)
      | Some sub \<Rightarrow>
          let p = p\<lparr>pnSubs := ExtendDays i days (pnSubs p)\<rparr> in
          if sbStatus sub = StatusExpired \<or> sbStatus sub = StatusActive
          then (None, setTunnelAccess env now i True (p\<lparr>pnSubs := UpdateStatus i StatusActive (pnSubs p)\<rparr>))
          else (None, p))"

definition RevokeSubscription :: "panel_env \<Rightarrow> int \<Rightarrow> nat \<Rightarrow> panel \<Rightarrow> panel" where
  "RevokeSubscription env now i p =
     (let p = setTunnelAccess env now i False p in p\<lparr>pnSubs := UpdateStatus i StatusCancelled (pnSubs p)\<rparr>)"

definition PauseSubscriptionFor :: "panel_env \<Rightarrow> int \<Rightarrow> nat \<Rightarrow> string \<Rightarrow> panel \<Rightarrow> panel" where
  "PauseSubscriptionFor env now i reason p =
     (let p = setTunnelAccess env now i False p
      in p\<lparr>pnSubs := UpdateStatusWithPauseReason i StatusPaused reason (pnSubs p)\<rparr>)"

definition PauseSubscription :: "panel_env \<Rightarrow> int \<Rightarrow> nat \<Rightarrow> panel \<Rightarrow> panel" where
  "PauseSubscription env now i p = PauseSubscriptionFor env now i PauseReasonAdmin p"

definition ResumeSubscription :: "panel_env \<Rightarrow> int \<Rightarrow> nat \<Rightarrow> panel \<Rightarrow> panel_error option \<times> panel" where
  "ResumeSubscription env now i p =
     (case sub_FindByID i (pnSubs p) of
        None \<Rightarrow> (Some ErrSubscriptionNotFound, p)
      | Some sub \<Rightarrow>
          if sub_IsExpired now sub then (Some ErrResumeExpired, p)
          else (None, setTunnelAccess env now i True
                 (p\<lparr>pnSubs := UpdateStatusWithPauseReason i StatusActive [] (pnSubs p)\<rparr>)))"

definition SetDataUsage :: "nat \<Rightarrow> int \<Rightarrow> panel \<Rightarrow> panel" where
  "SetDataUsage i bytesUsed p = p\<lparr>pnSubs := UpdateDataUsed i bytesUsed (pnSubs p)\<rparr>"

definition DeleteSubscription :: "panel_env \<Rightarrow> int \<Rightarrow> nat \<Rightarrow> panel \<Rightarrow> panel_error option \<times> panel" where
  "DeleteSubscription env now i p =
     (case sub_FindByID i (pnSubs p) of
        None \<Rightarrow> (Some ErrSubscriptionNotFound, p)
      | Some sub \<Rightarrow>
          (case DeleteUsersBySubscription i (pnCores p) of
             (None, cores) \<Rightarrow> (Some ErrDeleteTunnels, p\<lparr>pnCores := cores\<rparr>)
           | (Some nodes, cores) \<Rightarrow>
               (None, p\<lparr>pnCores := cores,
                        pnAccts := ForceDeleteAccountsBySubscription (peInbounds env) now i (pnAccts p),
                        pnSubs := HardDelete i (pnSubs p)\<rparr>)))"

datatype bulk_action = BulkDelete | BulkPause | BulkResume | BulkRevoke | BulkOther

definition bulk_one :: "panel_env \<Rightarrow> int \<Rightarrow> bulk_action \<Rightarrow> nat \<Rightarrow> panel \<Rightarrow> panel_error option \<times> panel" where
  "bulk_one env now action i p = (case action of
     BulkDelete \<Rightarrow> DeleteSubscription env now i p
   | BulkPause \<Rightarrow> (None, PauseSubscription env now i p)
   | BulkResume \<Rightarrow> ResumeSubscription env now i p
   | BulkRevoke \<Rightarrow> (None, RevokeSubscription env now i p)
   | BulkOther \<Rightarrow> (Some ErrUnknownAction, p))"

text \<open>The result counts the successes and lists the failures.\<close>

definition BulkSubscriptionAction ::
    "panel_env \<Rightarrow> int \<Rightarrow> bulk_action \<Rightarrow> nat list \<Rightarrow> panel \<Rightarrow> (panel_error + nat \<times> nat list) \<times> panel" where
  "BulkSubscriptionAction env now action ids p =
     (if length ids > 100 then (Inl ErrTooManyIDs, p)
      else if ids \<noteq> [] \<and> action = BulkOther then (Inl ErrUnknownAction, p)
      else let ((ok, failed), p) = fold (\<lambda>i ((ok, failed), p). case bulk_one env now action i p of
                 (None, p) \<Rightarrow> ((ok + 1, failed), p)
               | (Some e, p) \<Rightarrow> ((ok, failed @ [i]), p)) ids ((0, []), p)
           in (Inr (ok, failed), p))"

text \<open>
  The list of subscriptions a ban or an unban changed, or failed to change.
\<close>

definition BanUser :: "panel_env \<Rightarrow> int \<Rightarrow> nat \<Rightarrow> panel \<Rightarrow> nat list \<times> panel" where
  "BanUser env now u p =
     (let p = p\<lparr>pnBanned := u # removeAll u (pnBanned p)\<rparr>;
          subs = filter (\<lambda>s. sbStatus s = StatusActive) (ListByUserID u 0 1000 (pnSubs p))
      in (map sbID subs, fold (\<lambda>s. PauseSubscriptionFor env now (sbID s) PauseReasonBan) subs p))"

definition unban_one :: "panel_env \<Rightarrow> int \<Rightarrow> Subscription \<Rightarrow> (nat list \<times> nat list) \<times> panel \<Rightarrow> (nat list \<times> nat list) \<times> panel" where
  "unban_one env now sub out = (case out of ((changed, failed), p) \<Rightarrow>
     if sbStatus sub \<noteq> StatusPaused \<or> sbPauseReason sub \<noteq> PauseReasonBan then out
     else if sub_IsExpired now sub
     then ((changed, failed), p\<lparr>pnSubs := UpdateStatusWithPauseReason (sbID sub) StatusActive [] (pnSubs p)\<rparr>)
     else (case ResumeSubscription env now (sbID sub) p of
        (None, p) \<Rightarrow> ((changed @ [sbID sub], failed), p)
      | (Some e, p) \<Rightarrow> ((changed, failed @ [sbID sub]), p)))"

definition UnbanUser :: "panel_env \<Rightarrow> int \<Rightarrow> nat \<Rightarrow> panel \<Rightarrow> (nat list \<times> nat list) \<times> panel" where
  "UnbanUser env now u p =
     (let p = p\<lparr>pnBanned := removeAll u (pnBanned p)\<rparr>
      in fold (unban_one env now) (ListByUserID u 0 1000 (pnSubs p)) (([], []), p))"

section \<open>What a node is told\<close>

record XrayUser =
  xuEmail :: string
  xuUUID :: string
  xuLevel :: u32
  xuProtocol :: string
  xuFlow :: string
  xuEncryption :: string

text \<open>The subscription loaded with an account.\<close>

definition account_sub :: "sub_table \<Rightarrow> Account \<Rightarrow> Subscription option" where
  "account_sub subs a = Option.bind (acSubscriptionID a) (\<lambda>i. sub_FindByID i subs)"

definition add_node_user ::
    "(nat \<Rightarrow> Inbound option) \<Rightarrow> sub_table \<Rightarrow> int \<Rightarrow> Account
      \<Rightarrow> (string \<Rightarrow> XrayUser list) \<times> (string \<Rightarrow> string list) \<Rightarrow> (string \<Rightarrow> XrayUser list) \<times> (string \<Rightarrow> string list)" where
  "add_node_user inbounds subs now a acc = (case acc of (usersMap, addedUUIDs) \<Rightarrow>
     (case inbounds (acInboundID a) of
        None \<Rightarrow> acc
      | Some i \<Rightarrow>
          if acStatus a \<noteq> AccActive then acc
          else if (case account_sub subs a of None \<Rightarrow> False | Some sub \<Rightarrow> \<not> GrantsAccess now sub) then acc
          else if inIsDisabled i then acc
          else if acUUID a \<in> set (addedUUIDs (inTag i)) then acc
          else
            let level = (case account_sub subs a of
                  None \<Rightarrow> 0 | Some sub \<Rightarrow> Level (GetTier (GetEffectiveBandwidthLimit sub)));
                u = \<lparr>xuEmail = acEmail a, xuUUID = acUUID a, xuLevel = level, xuProtocol = inProtocol i,
                     xuFlow = acFlow a, xuEncryption = acEncryption a\<rparr>
            in (usersMap(inTag i := usersMap (inTag i) @ [u]), addedUUIDs(inTag i := acUUID a # addedUUIDs (inTag i)))))"

definition nodeUsers :: "(nat \<Rightarrow> Inbound option) \<Rightarrow> sub_table \<Rightarrow> int \<Rightarrow> NodeInfo \<Rightarrow> acct_table \<Rightarrow> string \<Rightarrow> XrayUser list" where
  "nodeUsers inbounds subs now node rows =
     (if ndIsActive node
      then fst (fold (add_node_user inbounds subs now) (ListByNodeID inbounds (ndID node) rows) (\<lambda>t. [], \<lambda>t. []))
      else (\<lambda>t. []))"

text \<open>\<open>lookup\<close> reads a subscription: it may fail for the moment, or find nothing.\<close>

definition wgAccess :: "int \<Rightarrow> (nat \<Rightarrow> Subscription option option) \<Rightarrow> nat list \<Rightarrow> (nat \<times> bool) list" where
  "wgAccess now lookup subIDs =
     List.map_filter (\<lambda>i. map_option (\<lambda>found. (i, case found of None \<Rightarrow> False | Some sub \<Rightarrow> GrantsAccess now sub)) (lookup i)) subIDs"


section \<open>Only granted access reaches the nodes\<close>

text \<open>
  \<open>granted\<close>: the subscription is there and grants access now. \<open>reaches\<close>: the account is active on a
  tag that is in service, and its subscription, if it has one that can be read, grants access.
\<close>

definition granted :: "sub_table \<Rightarrow> int \<Rightarrow> nat \<Rightarrow> bool" where
  "granted subs now i = (case sub_FindByID i subs of None \<Rightarrow> False | Some sub \<Rightarrow> GrantsAccess now sub)"

definition reaches :: "(nat \<Rightarrow> Inbound option) \<Rightarrow> sub_table \<Rightarrow> int \<Rightarrow> string \<Rightarrow> Account \<Rightarrow> bool" where
  "reaches inbounds subs now tag a = (case inbounds (acInboundID a) of
     None \<Rightarrow> False
   | Some i \<Rightarrow> inTag i = tag \<and> \<not> inIsDisabled i \<and> acStatus a = AccActive
       \<and> (case account_sub subs a of None \<Rightarrow> True | Some sub \<Rightarrow> GrantsAccess now sub))"

definition user_of :: "Account \<Rightarrow> XrayUser \<Rightarrow> bool" where
  "user_of a u \<longleftrightarrow> xuEmail u = acEmail a \<and> xuUUID u = acUUID a \<and> xuFlow u = acFlow a \<and> xuEncryption u = acEncryption a"

lemma add_node_user_skip:
  "\<nexists>tag. reaches inbounds subs now tag a \<Longrightarrow> add_node_user inbounds subs now a m = m"
  by (cases m) (auto simp: add_node_user_def reaches_def split: option.splits)

lemma add_node_user_here:
  assumes "reaches inbounds subs now tag a"
  shows "\<exists>u. user_of a u \<and> add_node_user inbounds subs now a (um, ad)
    = (if acUUID a \<in> set (ad tag) then (um, ad) else (um(tag := um tag @ [u]), ad(tag := acUUID a # ad tag)))"
proof -
  obtain i where i: "inbounds (acInboundID a) = Some i" using assms by (auto simp: reaches_def split: option.splits)
  let ?u = "\<lparr>xuEmail = acEmail a, xuUUID = acUUID a,
    xuLevel = (case account_sub subs a of None \<Rightarrow> 0 | Some sub \<Rightarrow> Level (GetTier (GetEffectiveBandwidthLimit sub))),
    xuProtocol = inProtocol i, xuFlow = acFlow a, xuEncryption = acEncryption a\<rparr>"
  have "user_of a ?u" by (simp add: user_of_def)
  moreover have "add_node_user inbounds subs now a (um, ad)
      = (if acUUID a \<in> set (ad tag) then (um, ad) else (um(tag := um tag @ [?u]), ad(tag := acUUID a # ad tag)))"
    using assms i by (auto simp: add_node_user_def reaches_def Let_def split: option.splits)
  ultimately show ?thesis by blast
qed

lemma reaches_one_tag: "reaches inbounds subs now tag a \<Longrightarrow> reaches inbounds subs now tag' a \<Longrightarrow> tag' = tag"
  by (auto simp: reaches_def split: option.splits)

text \<open>What the loop over a node's accounts keeps.\<close>

definition users_ok :: "(nat \<Rightarrow> Inbound option) \<Rightarrow> sub_table \<Rightarrow> int \<Rightarrow> Account list
    \<Rightarrow> (string \<Rightarrow> XrayUser list) \<times> (string \<Rightarrow> string list) \<Rightarrow> bool" where
  "users_ok inbounds subs now as m \<longleftrightarrow> (\<forall>tag. snd m tag = rev (map xuUUID (fst m tag)) \<and> distinct (map xuUUID (fst m tag))
     \<and> xuUUID ` set (fst m tag) = acUUID ` set (filter (reaches inbounds subs now tag) as)
     \<and> (\<forall>u \<in> set (fst m tag). \<exists>a \<in> set as. reaches inbounds subs now tag a \<and> user_of a u))"

lemma users_ok_fold: "users_ok inbounds subs now as (fold (add_node_user inbounds subs now) as (\<lambda>t. [], \<lambda>t. []))"
proof (induction as rule: rev_induct)
  case (snoc a as)
  obtain um ad where m: "fold (add_node_user inbounds subs now) as (\<lambda>t. [], \<lambda>t. []) = (um, ad)" by (rule prod.exhaust)
  have ok: "users_ok inbounds subs now as (um, ad)" using snoc m by simp
  show ?case
  proof (cases "\<exists>tag. reaches inbounds subs now tag a")
    case True
    then obtain tag where t: "reaches inbounds subs now tag a" by blast
    then obtain u where u: "user_of a u" and step: "add_node_user inbounds subs now a (um, ad)
      = (if acUUID a \<in> set (ad tag) then (um, ad) else (um(tag := um tag @ [u]), ad(tag := acUUID a # ad tag)))"
      using add_node_user_here by blast
    have off: "tag' \<noteq> tag \<Longrightarrow> \<not> reaches inbounds subs now tag' a" for tag' using t reaches_one_tag by blast
    have ok: "ad tag' = rev (map xuUUID (um tag'))" "distinct (map xuUUID (um tag'))"
        "xuUUID ` set (um tag') = acUUID ` set (filter (reaches inbounds subs now tag') as)"
        "\<forall>u \<in> set (um tag'). \<exists>a \<in> set as. reaches inbounds subs now tag' a \<and> user_of a u" for tag'
      using ok by (simp_all add: users_ok_def)
    have mem: "acUUID a \<in> set (ad tag) \<longleftrightarrow> acUUID a \<in> xuUUID ` set (um tag)" using ok(1) by simp
    have new: "xuUUID u = acUUID a" using u by (simp add: user_of_def)
    have "users_ok inbounds subs now (as @ [a]) (add_node_user inbounds subs now a (um, ad))"
      unfolding users_ok_def
    proof
      fix tag'
      show "snd (add_node_user inbounds subs now a (um, ad)) tag' = rev (map xuUUID (fst (add_node_user inbounds subs now a (um, ad)) tag'))
        \<and> distinct (map xuUUID (fst (add_node_user inbounds subs now a (um, ad)) tag'))
        \<and> xuUUID ` set (fst (add_node_user inbounds subs now a (um, ad)) tag') = acUUID ` set (filter (reaches inbounds subs now tag') (as @ [a]))
        \<and> (\<forall>u \<in> set (fst (add_node_user inbounds subs now a (um, ad)) tag'). \<exists>b \<in> set (as @ [a]). reaches inbounds subs now tag' b \<and> user_of b u)"
        unfolding step using ok [of tag'] off [of tag'] t u new mem
        by (cases "tag' = tag") auto
    qed
    then show ?thesis by (simp add: m)
  next
    case False
    then have "add_node_user inbounds subs now a (um, ad) = (um, ad)" using add_node_user_skip by blast
    moreover have "filter (reaches inbounds subs now tag) (as @ [a]) = filter (reaches inbounds subs now tag) as" for tag
      using False by simp
    ultimately show ?thesis using ok by (auto simp: m users_ok_def)
  qed
qed (simp add: users_ok_def)

lemma nodeUsers_ok:
  assumes "ndIsActive node"
  shows "distinct (map xuUUID (nodeUsers inbounds subs now node rows tag))"
    "xuUUID ` set (nodeUsers inbounds subs now node rows tag)
      = acUUID ` set (filter (reaches inbounds subs now tag) (ListByNodeID inbounds (ndID node) rows))"
    "u \<in> set (nodeUsers inbounds subs now node rows tag)
      \<Longrightarrow> \<exists>a \<in> set (ListByNodeID inbounds (ndID node) rows). reaches inbounds subs now tag a \<and> user_of a u"
  using users_ok_fold [of inbounds subs now "ListByNodeID inbounds (ndID node) rows"] assms
  by (auto simp: users_ok_def nodeUsers_def)

text \<open>
  C23. The Xray users a node is told are exactly its accounts with access: on every inbound tag of a
  node in service, the credentials listed are those of the accounts of the node that are active, on an
  inbound in service, and whose subscription, if it has one, grants access now; each credential is
  listed once, and a node out of service is told none.
\<close>

theorem node_users_are_the_granted_accounts:
  "distinct (map xuUUID (nodeUsers inbounds subs now node rows tag))
    \<and> xuUUID ` set (nodeUsers inbounds subs now node rows tag)
      = (if ndIsActive node then acUUID ` set (filter (reaches inbounds subs now tag) (ListByNodeID inbounds (ndID node) rows)) else {})"
proof (cases "ndIsActive node")
  case True
  then show ?thesis using nodeUsers_ok(1,2) [OF True] by simp
qed (simp add: nodeUsers_def)

lemma found_id: "sub_FindByID i subs = Some sub \<Longrightarrow> sub_FindByID (sbID sub) subs = Some sub"
  by (auto simp: sub_FindByID_def find_Some_iff)

text \<open>The resolvers, with a subscription table that can be read.\<close>

definition panel_wg_access :: "sub_table \<Rightarrow> int \<Rightarrow> access_resolver" where
  "panel_wg_access subs now ids = Some (wgAccess now (\<lambda>i. Some (sub_FindByID i subs)) ids)"

definition panel_policies :: "sub_table \<Rightarrow> int \<Rightarrow> policy_resolver" where
  "panel_policies subs now ids = Some (tunnelPolicies now (\<lambda>i. Some (sub_FindByID i subs)) ids)"

lemma map_of_resolved: "map_of (List.map_filter (\<lambda>i. Some (i, f i)) ids) i = (if i \<in> set ids then Some (f i) else None)"
  by (induction ids) (simp_all add: List.map_filter_def)

lemma resolved_access:
  "map_of (wgAccess now (\<lambda>i. Some (sub_FindByID i subs)) ids) i = (if i \<in> set ids then Some (granted subs now i) else None)"
  using map_of_resolved [of "granted subs now" ids i] by (simp add: wgAccess_def granted_def comp_def)

lemma resolved_policy:
  "map_of (tunnelPolicies now (\<lambda>i. Some (sub_FindByID i subs)) ids) i
    = (if i \<in> set ids then Some (tunnelPolicy now (sub_FindByID i subs)) else None)"
  using map_of_resolved [of "\<lambda>i. tunnelPolicy now (sub_FindByID i subs)" ids i] by (simp add: tunnelPolicies_def comp_def)

lemma upActive_granted: "upActive (tunnelPolicy now (sub_FindByID i subs)) = granted subs now i"
  by (simp add: tunnelPolicy_def granted_def Let_def split: option.split)

lemma rendered_peers_granted:
  assumes "r \<in> set (ActivePeersByInbound (Some (panel_wg_access subs now)) inboundID t)"
  shows "rpSubscriptionID r = 0 \<or> granted subs now (rpSubscriptionID r)"
  using assms
  by (auto simp: ActivePeersByInbound_def filterRevoked_def panel_wg_access_def resolved_access Let_def filter_empty_conv
      split: if_splits)

definition tunnel_user_granted :: "sub_table \<Rightarrow> int \<Rightarrow> core_tables \<Rightarrow> pb_CoreState \<Rightarrow> pb_CoreUser \<Rightarrow> bool" where
  "tunnel_user_granted subs now t p u = list_ex (\<lambda>cu. pbUsername u = cuUsername cu \<and> pbSecret u = cuSecret cu \<and> cuEnabled cu
     \<and> cuCoreInboundID cu = psInboundID p \<and> (case cuSubscriptionID cu of None \<Rightarrow> True | Some i \<Rightarrow> granted subs now i)) (crUsers t)"

lemma core_user_granted:
  assumes "pbEnabled (core_user_payload pols cu)" "\<And>i. cuSubscriptionID cu = Some i \<Longrightarrow> map_of pols i = Some (tunnelPolicy now (sub_FindByID i subs))"
  shows "cuEnabled cu \<and> (case cuSubscriptionID cu of None \<Rightarrow> True | Some i \<Rightarrow> granted subs now i)"
  using assms by (auto simp: core_user_payload_def Let_def upActive_granted split: option.splits if_splits)

lemma core_user_payload_simps [simp]:
  "pbUsername (core_user_payload pols cu) = cuUsername cu" "pbSecret (core_user_payload pols cu) = cuSecret cu"
  by (simp_all add: core_user_payload_def Let_def split: option.split)

lemma resolved_for_user:
  assumes "i \<in> set inbounds" "cu \<in> set (ListUsersByInbound (ciID i) t)" "cuSubscriptionID cu = Some s"
  shows "map_of (resolvePolicies inbounds (Some (panel_policies subs now)) t) s = Some (tunnelPolicy now (sub_FindByID s subs))"
proof -
  let ?ids = "List.map_filter cuSubscriptionID (concat (map (\<lambda>i. ListUsersByInbound (ciID i) t) inbounds))"
  have "s \<in> set ?ids" using assms by (force simp: List.map_filter_def)
  then show ?thesis
    by (auto simp: resolvePolicies_def panel_policies_def resolved_policy Let_def)
qed




section \<open>What switching does to the tables\<close>

definition owned :: "nat \<Rightarrow> Account \<Rightarrow> bool" where
  "owned i a \<longleftrightarrow> \<not> acDeleted a \<and> acSubscriptionID a = Some i \<and> acSource a \<noteq> SourceAdminExcluded"

definition switch_account :: "panel_env \<Rightarrow> bool \<Rightarrow> nat set \<Rightarrow> Account \<Rightarrow> Account" where
  "switch_account env on ids a = (if (\<exists>i \<in> ids. owned i a) \<and> account_node (peInbounds env) a \<noteq> None
     then a\<lparr>acStatus := (if on then AccActive else AccDisabled)\<rparr> else a)"

definition switch_peer :: "bool \<Rightarrow> nat set \<Rightarrow> WGPeer \<Rightarrow> WGPeer" where
  "switch_peer on ids q = (if wpSubscriptionID q \<in> ids then q\<lparr>wpStatus := (if on then WGActive else WGDisabled)\<rparr> else q)"

definition switch_user :: "bool \<Rightarrow> nat set \<Rightarrow> CoreUser \<Rightarrow> CoreUser" where
  "switch_user on ids u = (if \<exists>i \<in> ids. cuSubscriptionID u = Some i then u\<lparr>cuEnabled := on\<rparr> else u)"

definition panel_ok :: "panel_env \<Rightarrow> panel \<Rightarrow> bool" where
  "panel_ok env p \<longleftrightarrow> inbounds_ok (peInbounds env) \<and> acct_ok (peInbounds env) (pnAccts p)
     \<and> distinct (map sbID (pnSubs p)) \<and> distinct (map cuID (crUsers (pnCores p)))"

definition status_of :: "(nat \<Rightarrow> Inbound option) \<Rightarrow> AccountStatus \<Rightarrow> nat set \<Rightarrow> Account \<Rightarrow> Account" where
  "status_of inbounds st ids a =
     (if acID a \<in> ids \<and> \<not> acDeleted a \<and> account_node inbounds a \<noteq> None then a\<lparr>acStatus := st\<rparr> else a)"

lemma status_row:
  assumes "distinct (map acID rows)"
  shows "acc_FindByID i rows = None \<Longrightarrow> map (status_of inbounds st {i}) rows = rows"
    "acc_FindByID i rows = Some a \<Longrightarrow> account_node inbounds a = None \<Longrightarrow> map (status_of inbounds st {i}) rows = rows"
    "acc_FindByID i rows = Some a \<Longrightarrow> account_node inbounds a = Some n \<Longrightarrow> acc_UpdateStatus i st rows = map (status_of inbounds st {i}) rows"
proof -
  have only: "b = a" if "acc_FindByID i rows = Some a" "b \<in> set rows" "acID b = i" for a b
    using that acc_FindByID_Some [OF that(1)] assms by (auto simp: distinct_map dest: inj_onD)
  show "acc_FindByID i rows = None \<Longrightarrow> map (status_of inbounds st {i}) rows = rows"
    by (auto simp: acc_FindByID_def find_None_iff status_of_def intro!: map_idI)
  show "acc_FindByID i rows = Some a \<Longrightarrow> account_node inbounds a = None \<Longrightarrow> map (status_of inbounds st {i}) rows = rows"
    using only by (fastforce simp: status_of_def intro!: map_idI)
  show "acc_UpdateStatus i st rows = map (status_of inbounds st {i}) rows"
    if "acc_FindByID i rows = Some a" "account_node inbounds a = Some n"
    using only [OF that(1)] that(2) by (auto simp: acc_UpdateStatus_def update_acc_def status_of_def)
qed

lemma status_rows:
  assumes "distinct (map acID (asRows s))"
  shows "asRows (snd (DisableAccount inbounds now i s)) = map (status_of inbounds AccDisabled {i}) (asRows s)"
    "asRows (snd (EnableAccount inbounds now i s)) = map (status_of inbounds AccActive {i}) (asRows s)"
  using status_row [OF assms, of i]
  by (simp_all add: DisableAccount_def EnableAccount_def split: option.split)

lemma status_of_simps [simp]:
  "acID (status_of inbounds st ids a) = acID a" "acDeleted (status_of inbounds st ids a) = acDeleted a"
  "account_node inbounds (status_of inbounds st ids a) = account_node inbounds a"
  by (simp_all add: status_of_def account_node_def)

lemma status_of_twice: "status_of inbounds st J (status_of inbounds st I a) = status_of inbounds st (I \<union> J) a"
  by (auto simp: status_of_def account_node_def)

lemma each_account_rows:
  assumes op: "\<And>i s. distinct (map acID (asRows s)) \<Longrightarrow> asRows (snd (op i s)) = map (status_of inbounds st {i}) (asRows s)"
    and d: "distinct (map acID (asRows s))"
  shows "asRows (snd (each_account op as s)) = map (status_of inbounds st (acID ` set as)) (asRows s)"
proof -
  have "asRows (snd (fold (\<lambda>a (failed, s). case op (acID a) s of (e, s) \<Rightarrow> (if e = None then failed else failed + 1, s)) as (n, s)))
      = map (status_of inbounds st (acID ` set as)) (asRows s)" if "distinct (map acID (asRows s))" for n s
    using that
  proof (induction as arbitrary: n s)
    case Nil
    then show ?case by (simp add: status_of_def)
  next
    case (Cons a as)
    obtain e s' where s': "op (acID a) s = (e, s')" by (rule prod.exhaust)
    then have rows: "asRows s' = map (status_of inbounds st {acID a}) (asRows s)" using op [OF Cons.prems, of "acID a"] by simp
    then have "distinct (map acID (asRows s'))" using Cons.prems by (simp add: comp_def)
    then show ?case using s' rows by (simp add: Cons.IH status_of_twice comp_def)
  qed
  then show ?thesis using d by (simp add: each_account_def)
qed

lemma switched_rows:
  assumes d: "distinct (map acID (asRows s))"
  shows "asRows (snd (DisableAccountsBySubscription (peInbounds env) now i s)) = map (switch_account env False {i}) (asRows s)"
    "asRows (snd (EnableAccountsBySubscription (peInbounds env) now i s)) = map (switch_account env True {i}) (asRows s)"
proof -
  let ?as = "ListBySubscriptionID i (asRows s)"
  have "acID a \<in> acID ` set ?as \<and> \<not> acDeleted a \<longleftrightarrow> owned i a" if "a \<in> set (asRows s)" for a
    using that d by (auto simp: ListBySubscriptionID_def newest_first_def owned_def distinct_map dest: inj_onD)
  then have eq: "map (status_of (peInbounds env) (if on then AccActive else AccDisabled) (acID ` set ?as)) (asRows s)
      = map (switch_account env on {i}) (asRows s)" for on
    by (auto simp: status_of_def switch_account_def)
  show "asRows (snd (DisableAccountsBySubscription (peInbounds env) now i s)) = map (switch_account env False {i}) (asRows s)"
    using each_account_rows [OF status_rows(1) d] eq [of False] by (simp add: DisableAccountsBySubscription_def)
  show "asRows (snd (EnableAccountsBySubscription (peInbounds env) now i s)) = map (switch_account env True {i}) (asRows s)"
    using each_account_rows [OF status_rows(2) d] eq [of True] by (simp add: EnableAccountsBySubscription_def)
qed

lemma fold_UpdateUser:
  assumes "distinct (map cuID us)" "\<And>u. cuID (g u) = cuID u"
  shows "fold (\<lambda>u. UpdateUser (g u)) us t
    = t\<lparr>crUsers := map (\<lambda>v. case map_of (map (\<lambda>u. (cuID u, g u)) us) (cuID v) of Some w \<Rightarrow> w | None \<Rightarrow> v) (crUsers t)\<rparr>"
  using assms(1)
proof (induction us arbitrary: t)
  case (Cons u us)
  have "map_of (map (\<lambda>u. (cuID u, g u)) us) (cuID u) = None"
    using Cons.prems by (auto simp: map_of_eq_None_iff)
  then show ?case using Cons by (auto simp: UpdateUser_def assms(2) split: option.split)
qed simp

lemma switched_users:
  assumes d: "distinct (map cuID (crUsers t))"
  shows "snd (setUsersEnabledBySubscription i on t) = t\<lparr>crUsers := map (switch_user on {i}) (crUsers t)\<rparr>"
proof -
  let ?us = "filter (\<lambda>u. cuEnabled u \<noteq> on) (FindUsersBySubscription i t)"
  have us: "set ?us = {u \<in> set (crUsers t). cuSubscriptionID u = Some i \<and> cuEnabled u \<noteq> on}"
    by (auto simp: FindUsersBySubscription_def)
  have du: "distinct (map cuID ?us)"
    using d by (auto simp: FindUsersBySubscription_def distinct_map intro: inj_on_subset)
  have "(case map_of (map (\<lambda>u. (cuID u, u\<lparr>cuEnabled := on\<rparr>)) ?us) (cuID v) of Some w \<Rightarrow> w | None \<Rightarrow> v) = switch_user on {i} v"
    if v: "v \<in> set (crUsers t)" for v
  proof (cases "cuSubscriptionID v = Some i \<and> cuEnabled v \<noteq> on")
    case True
    then have "v \<in> set ?us" using v us by blast
    then have "map_of (map (\<lambda>u. (cuID u, u\<lparr>cuEnabled := on\<rparr>)) ?us) (cuID v) = Some (v\<lparr>cuEnabled := on\<rparr>)"
      using du by (intro map_of_is_SomeI) (auto simp: comp_def)
    then show ?thesis using True by (simp add: switch_user_def)
  next
    case False
    have "cuID v \<notin> cuID ` set ?us"
    proof
      assume "cuID v \<in> cuID ` set ?us"
      then obtain u where "u \<in> set (crUsers t)" "cuID v = cuID u" "cuSubscriptionID u = Some i" "cuEnabled u \<noteq> on"
        unfolding us by blast
      then show False using False v d by (auto simp: distinct_map dest: inj_onD)
    qed
    then have "map_of (map (\<lambda>u. (cuID u, u\<lparr>cuEnabled := on\<rparr>)) ?us) (cuID v) = None"
      unfolding map_of_eq_None_iff by (simp add: image_comp comp_def)
    then show ?thesis using False by (auto simp: switch_user_def)
  qed
  then show ?thesis using fold_UpdateUser [OF du, of "\<lambda>u. u\<lparr>cuEnabled := on\<rparr>" t]
    by (simp add: setUsersEnabledBySubscription_def Let_def cong: map_cong)
qed


text \<open>The three tables, and what switching makes of them.\<close>

definition switched :: "panel_env \<Rightarrow> bool \<Rightarrow> nat set \<Rightarrow> panel \<Rightarrow> panel \<Rightarrow> bool" where
  "switched env on ids p p' \<longleftrightarrow> asRows (pnAccts p') = map (switch_account env on ids) (asRows (pnAccts p))
     \<and> wgRows (dsTable (pnDevs p')) = map (switch_peer on ids) (wgRows (dsTable (pnDevs p)))
     \<and> crUsers (pnCores p') = map (switch_user on ids) (crUsers (pnCores p))"

lemma switch_ids [simp]:
  "acID (switch_account env on ids a) = acID a" "cuID (switch_user on ids u) = cuID u"
  "owned i (switch_account env on ids a) = owned i a"
  "account_node (peInbounds env) (switch_account env on ids a) = account_node (peInbounds env) a"
  "wpSubscriptionID (switch_peer on ids q) = wpSubscriptionID q"
  "cuSubscriptionID (switch_user on ids u) = cuSubscriptionID u"
  by (simp_all add: switch_account_def switch_user_def switch_peer_def owned_def account_node_def)

lemma switch_twice:
  "switch_account env on J (switch_account env on I a) = switch_account env on (I \<union> J) a"
  "switch_peer on J (switch_peer on I q) = switch_peer on (I \<union> J) q"
  "switch_user on J (switch_user on I u) = switch_user on (I \<union> J) u"
  by (auto simp: switch_account_def switch_peer_def switch_user_def owned_def account_node_def)

lemma switched_trans: "switched env on I p q \<Longrightarrow> switched env on J q r \<Longrightarrow> switched env on (I \<union> J) p r"
  by (simp add: switched_def switch_twice)

lemma switched_none: "switched env on {} p p"
  unfolding switched_def by (intro conjI map_idI [symmetric]) (simp_all add: switch_account_def switch_peer_def switch_user_def)

lemma panel_ok_ids: "panel_ok env p \<Longrightarrow> distinct (map acID (asRows (pnAccts p)))"
  by (simp add: panel_ok_def acct_ok_def mirrors_def rows_ok_def)

lemma SetStatus_rows: "wgRows (wg_SetStatusBySubscription i st t) = map (switch_peer (st = WGActive) {i}) (wgRows t)"
  by (cases st) (simp_all add: wg_SetStatusBySubscription_def switch_peer_def)

lemma hook_tables:
  "wgRows (dsTable (ActivateSubscription denv ok i s)) = map (switch_peer True {i}) (wgRows (dsTable s))"
  "wgRows (dsTable (DeactivateSubscription denv ok i s)) = map (switch_peer False {i}) (wgRows (dsTable s))"
  by (simp_all add: ActivateSubscription_def DeactivateSubscription_def SetStatus_rows)

lemma setTunnelAccess_switched:
  assumes "panel_ok env p"
  shows "switched env on {i} p (setTunnelAccess env now i on p)"
proof -
  have "distinct (map cuID (crUsers (pnCores p)))" using assms by (simp add: panel_ok_def)
  then show ?thesis
    using switched_rows [OF panel_ok_ids [OF assms]]
    by (simp add: switched_def setTunnelAccess_def Let_def hook_tables switched_users)
qed

lemma setTunnelAccess_simps [simp]:
  "pnSubs (setTunnelAccess env now i on p) = pnSubs p" "pnBanned (setTunnelAccess env now i on p) = pnBanned p"
  by (simp_all add: setTunnelAccess_def Let_def)

lemma acct_ok_switched:
  assumes "panel_ok env p"
  shows "acct_ok (peInbounds env) (pnAccts (setTunnelAccess env now i on p))"
proof -
  have ib: "inbounds_ok (peInbounds env)" and ok: "acct_ok (peInbounds env) (pnAccts p)" using assms by (simp_all add: panel_ok_def)
  have "acct_ok (peInbounds env) (snd (EnableAccountsBySubscription (peInbounds env) now i (pnAccts p)))"
    unfolding EnableAccountsBySubscription_def
    by (intro each_account_keeps [of "acct_ok (peInbounds env)"] acct_ok_ops(2) [OF ib] ok)
  moreover have "acct_ok (peInbounds env) (snd (DisableAccountsBySubscription (peInbounds env) now i (pnAccts p)))"
    unfolding DisableAccountsBySubscription_def
    by (intro each_account_keeps [of "acct_ok (peInbounds env)"] acct_ok_ops(1) [OF ib] ok)
  ultimately show ?thesis by (simp add: setTunnelAccess_def Let_def)
qed

lemma panel_ok_setTunnelAccess [inv_intros]: "panel_ok env p \<Longrightarrow> panel_ok env (setTunnelAccess env now i on p)"
  using acct_ok_switched [of env p] setTunnelAccess_switched [of env p on i now]
  by (simp add: panel_ok_def switched_def comp_def)

lemma panel_ok_devs [simp]: "panel_ok env (p\<lparr>pnDevs := d\<rparr>) = panel_ok env p"
  by (simp add: panel_ok_def)

lemma deactivate_switched:
  assumes "panel_ok env p"
  shows "switched env False {sbID sub} p (deactivateOnNodes env now sub p)"
proof (cases "peProvider env (sbID sub) \<and> sbID sub \<noteq> 0")
  case True
  let ?q = "p\<lparr>pnDevs := DeactivateSubscription (peDev env) (pePush env) (sbID sub) (pnDevs p)\<rparr>"
  have "switched env False {sbID sub} ?q (setTunnelAccess env now (sbID sub) False ?q)"
    using assms by (intro setTunnelAccess_switched) simp
  then show ?thesis using True by (simp add: switched_def deactivateOnNodes_def hook_tables switch_twice)
next
  case False
  then have "deactivateOnNodes env now sub p = setTunnelAccess env now (sbID sub) False p" by (auto simp: deactivateOnNodes_def)
  then show ?thesis using setTunnelAccess_switched [OF assms] by simp
qed

lemma deactivate_simps [simp]:
  "pnSubs (deactivateOnNodes env now sub p) = pnSubs p" "pnBanned (deactivateOnNodes env now sub p) = pnBanned p"
  by (simp_all add: deactivateOnNodes_def Let_def)

lemma panel_ok_deactivate [inv_intros]: "panel_ok env p \<Longrightarrow> panel_ok env (deactivateOnNodes env now sub p)"
  by (simp add: deactivateOnNodes_def Let_def panel_ok_setTunnelAccess)

lemma UpdateStatus_rows: "UpdateStatus i st t = map (\<lambda>s. if sbID s = i then s\<lparr>sbStatus := st\<rparr> else s) t"
  by (simp add: UpdateStatus_def update_sub_def update_row_def)

lemma sweep_fold:
  assumes "panel_ok env p"
  shows "panel_ok env (fold (expire_as env now st) ss p)
    \<and> switched env False (sbID ` set ss) p (fold (expire_as env now st) ss p)
    \<and> pnSubs (fold (expire_as env now st) ss p) = map (\<lambda>s. if sbID s \<in> sbID ` set ss then s\<lparr>sbStatus := st\<rparr> else s) (pnSubs p)"
  using assms
proof (induction ss arbitrary: p)
  case Nil
  then show ?case by (simp add: switched_none)
next
  case (Cons s ss)
  let ?q = "expire_as env now st s p"
  have q: "pnSubs ?q = map (\<lambda>t. if sbID t = sbID s then t\<lparr>sbStatus := st\<rparr> else t) (pnSubs p)"
    by (simp add: expire_as_def UpdateStatus_rows Let_def)
  have sw: "switched env False {sbID s} p ?q"
    using deactivate_switched [OF Cons.prems] by (simp add: expire_as_def switched_def Let_def)
  have "map sbID (pnSubs ?q) = map sbID (pnSubs p)" by (auto simp: q)
  then have "panel_ok env ?q"
    using panel_ok_deactivate [OF Cons.prems] by (simp add: expire_as_def panel_ok_def Let_def)
  note IH = Cons.IH [OF this]
  show ?case
    using IH switched_trans [OF sw conjunct1 [OF conjunct2 [OF IH]]] by (auto simp: q comp_def)
qed


section \<open>Sweeps, bans and their limits\<close>

text \<open>
  \<open>cut_off\<close>: every artifact of a subscription is switched off, and the nodes' work queue leaves no
  user of its accounts. \<open>untouched\<close>: the artifacts are as they were.
\<close>

definition cut_off :: "panel_env \<Rightarrow> nat \<Rightarrow> panel \<Rightarrow> bool" where
  "cut_off env i p \<longleftrightarrow>
     list_all (\<lambda>a. acStatus a = AccDisabled) (filter (\<lambda>a. owned i a \<and> account_node (peInbounds env) a \<noteq> None) (asRows (pnAccts p)))
     \<and> list_all (\<lambda>a. case place (peInbounds env) a of None \<Rightarrow> True | Some k \<Rightarrow> carried_out (asTasks (pnAccts p)) k = None)
         (filter (owned i) (asRows (pnAccts p)))
     \<and> list_all (\<lambda>q. wpStatus q = WGDisabled) (filter (\<lambda>q. wpSubscriptionID q = i) (wgRows (dsTable (pnDevs p))))
     \<and> list_all (\<lambda>u. \<not> cuEnabled u) (filter (\<lambda>u. cuSubscriptionID u = Some i) (crUsers (pnCores p)))"

definition untouched :: "nat \<Rightarrow> panel \<Rightarrow> panel \<Rightarrow> bool" where
  "untouched i p p' \<longleftrightarrow>
     filter (\<lambda>a. acSubscriptionID a = Some i) (asRows (pnAccts p')) = filter (\<lambda>a. acSubscriptionID a = Some i) (asRows (pnAccts p))
     \<and> filter (\<lambda>q. wpSubscriptionID q = i) (wgRows (dsTable (pnDevs p'))) = filter (\<lambda>q. wpSubscriptionID q = i) (wgRows (dsTable (pnDevs p)))
     \<and> filter (\<lambda>u. cuSubscriptionID u = Some i) (crUsers (pnCores p')) = filter (\<lambda>u. cuSubscriptionID u = Some i) (crUsers (pnCores p))"

lemma switched_untouched:
  assumes "switched env on ids p p'" "i \<notin> ids"
  shows "untouched i p p'"
proof -
  have "filter (\<lambda>a. acSubscriptionID a = Some i) (map (switch_account env on ids) as) = filter (\<lambda>a. acSubscriptionID a = Some i) as" for as
    by (rule filter_map_other) (use assms(2) in \<open>auto simp: switch_account_def owned_def\<close>)
  moreover have "filter (\<lambda>q. wpSubscriptionID q = i) (map (switch_peer on ids) qs) = filter (\<lambda>q. wpSubscriptionID q = i) qs" for qs
    by (rule filter_map_other) (use assms(2) in \<open>auto simp: switch_peer_def\<close>)
  moreover have "filter (\<lambda>u. cuSubscriptionID u = Some i) (map (switch_user on ids) us) = filter (\<lambda>u. cuSubscriptionID u = Some i) us" for us
    by (rule filter_map_other) (use assms(2) in \<open>auto simp: switch_user_def\<close>)
  ultimately show ?thesis using assms(1) by (simp add: untouched_def switched_def)
qed

lemma queue_at:
  assumes "panel_ok env p" "a \<in> set (asRows (pnAccts p))" "place (peInbounds env) a = Some k"
  shows "carried_out (asTasks (pnAccts p)) k = live_creds a"
  using assms wanted_at by (auto simp: panel_ok_def acct_ok_def mirrors_def rows_ok_def)

lemma switched_cut_off:
  assumes ok: "panel_ok env p'" and sw: "switched env False ids p p'" and i: "i \<in> ids"
  shows "cut_off env i p'"
proof -
  have off: "acStatus a = AccDisabled"
    if a: "a \<in> set (asRows (pnAccts p'))" and own: "owned i a" "account_node (peInbounds env) a \<noteq> None" for a
  proof -
    obtain b where "a = switch_account env False ids b" using sw a by (auto simp: switched_def)
    then show ?thesis using i own by (auto simp: switch_account_def owned_def account_node_def split: if_splits)
  qed
  have "carried_out (asTasks (pnAccts p')) k = None"
    if "a \<in> set (asRows (pnAccts p'))" "owned i a" "place (peInbounds env) a = Some k" for a k
    using queue_at [OF ok that(1,3)] off [OF that(1,2)] that(3) no_node_no_place [of "peInbounds env" a] by (simp add: live_creds_def)
  moreover have "wpStatus q = WGDisabled" if "q \<in> set (wgRows (dsTable (pnDevs p')))" "wpSubscriptionID q = i" for q
    using sw i that by (auto simp: switched_def switch_peer_def split: if_splits)
  moreover have "\<not> cuEnabled u" if "u \<in> set (crUsers (pnCores p'))" "cuSubscriptionID u = Some i" for u
    using sw i that by (auto simp: switched_def switch_user_def split: if_splits)
  ultimately show ?thesis using off by (auto simp: cut_off_def list_all_iff split: option.split)
qed

text \<open>What the sweeps look for in a row.\<close>

definition over :: "int \<Rightarrow> Subscription \<Rightarrow> bool" where
  "over now s \<longleftrightarrow> s \<in> set (ListExpired now [s])"

definition spent :: "Subscription \<Rightarrow> bool" where
  "spent s \<longleftrightarrow> s \<in> set (ListDataExhausted [s])"

lemma lists_by_row: "ListExpired now t = filter (over now) t" "ListDataExhausted t = filter spent t"
  unfolding ListExpired_def ListDataExhausted_def over_def spent_def by (intro filter_cong refl; simp)+

lemma not_granted:
  "over now s \<Longrightarrow> sbStatus s = StatusActive \<and> \<not> GrantsAccess now s" "spent s \<Longrightarrow> sbStatus s = StatusActive \<and> \<not> GrantsAccess now s"
  by (auto simp: over_def spent_def ListExpired_def ListDataExhausted_def GrantsAccess_def sub_IsExpired_def sub_IsDataExhausted_def
      GetEffectiveEndDate_def GetEffectiveDataLimit_def Let_def split: option.splits if_splits)

lemma left_active:
  assumes "sbStatus s = StatusActive" "\<not> over now s" "\<not> spent s"
  shows "GrantsAccess now s \<or> now - minute \<le> sbCreatedAt s \<or> GetEffectiveDataLimit s < 0"
  using assms
  by (auto simp: over_def spent_def ListExpired_def ListDataExhausted_def GrantsAccess_def sub_IsExpired_def sub_IsDataExhausted_def
      GetEffectiveEndDate_def GetEffectiveDataLimit_def Let_def not_less split: option.splits if_splits)

definition mark :: "(Subscription \<Rightarrow> bool) \<Rightarrow> SubscriptionStatus \<Rightarrow> Subscription \<Rightarrow> Subscription" where
  "mark P st s = (if P s then s\<lparr>sbStatus := st\<rparr> else s)"

lemma mark_id [simp]: "sbID (mark P st s) = sbID s"
  by (simp add: mark_def)

lemma sweep_marks:
  assumes "panel_ok env p"
  shows "panel_ok env (fold (expire_as env now st) (filter P (pnSubs p)) p)
    \<and> switched env False (sbID ` set (filter P (pnSubs p))) p (fold (expire_as env now st) (filter P (pnSubs p)) p)
    \<and> pnSubs (fold (expire_as env now st) (filter P (pnSubs p)) p) = map (mark P st) (pnSubs p)"
proof -
  have "sbID s \<in> sbID ` set (filter P (pnSubs p)) \<longleftrightarrow> P s" if "s \<in> set (pnSubs p)" for s
    using that assms by (auto simp: panel_ok_def distinct_map dest: inj_onD)
  then have "map (\<lambda>s. if sbID s \<in> sbID ` set (filter P (pnSubs p)) then s\<lparr>sbStatus := st\<rparr> else s) (pnSubs p) = map (mark P st) (pnSubs p)"
    by (simp add: mark_def)
  then show ?thesis using sweep_fold [OF assms, of now st "filter P (pnSubs p)"] by (simp only:)
qed

lemma marked_twice:
  fixes now s
  defines "m \<equiv> mark spent StatusTrafficExhausted (mark (over now) StatusExpired s)"
  shows "sbStatus m = StatusActive \<Longrightarrow> m = s \<and> \<not> over now s \<and> \<not> spent s"
    "m \<noteq> s \<longleftrightarrow> over now s \<or> spent (mark (over now) StatusExpired s)"
    "m \<noteq> s \<Longrightarrow> sbStatus s = StatusActive \<and> \<not> GrantsAccess now s \<and> \<not> GrantsAccess now m"
proof -
  have e: "\<not> spent (s\<lparr>sbStatus := StatusExpired\<rparr>)" by (simp add: spent_def ListDataExhausted_def)
  show "sbStatus m = StatusActive \<Longrightarrow> m = s \<and> \<not> over now s \<and> \<not> spent s" by (auto simp: m_def mark_def split: if_splits)
  show diff: "m \<noteq> s \<longleftrightarrow> over now s \<or> spent (mark (over now) StatusExpired s)"
    using not_granted(1) [of now s] not_granted(2) [of s now] e
    by (auto simp: m_def mark_def dest!: arg_cong [of _ s sbStatus])
  assume "m \<noteq> s"
  then consider "over now s" | "\<not> over now s" "spent s" unfolding diff by (auto simp: mark_def split: if_splits)
  then show "sbStatus s = StatusActive \<and> \<not> GrantsAccess now s \<and> \<not> GrantsAccess now m"
    using not_granted(1) [of now s] not_granted(2) [of s now] by cases (auto simp: m_def mark_def e GrantsAccess_def)
qed

text \<open>
  C10. The expiry sweep and then the data sweep leave no subscription active that does not grant
  access, apart from one younger than a minute and one with a negative limit. A subscription they
  change was active and granted no access; afterwards it grants none, and all it owns is off: its
  accounts, the users of these accounts once the nodes' queue is carried out, its WireGuard peers and
  its tunnel users. A subscription they do not change keeps its accounts, peers and tunnel users.
\<close>

theorem sweeps_cut_off_what_is_over:
  assumes ok: "panel_ok env p" and p': "p' = CheckAndExpireByDataLimit env now (CheckAndExpireSubscriptions env now p)"
  shows "list_all (\<lambda>s. GrantsAccess now s \<or> now - minute \<le> sbCreatedAt s \<or> GetEffectiveDataLimit s < 0)
      (filter (\<lambda>s. sbStatus s = StatusActive) (pnSubs p'))
    \<and> list_all2 (\<lambda>s s'. sbID s' = sbID s \<and>
        (if s' = s then untouched (sbID s) p p'
         else sbStatus s = StatusActive \<and> \<not> GrantsAccess now s \<and> \<not> GrantsAccess now s' \<and> cut_off env (sbID s) p'))
      (pnSubs p) (pnSubs p')"
proof -
  define q where "q = CheckAndExpireSubscriptions env now p"
  let ?f = "mark (over now) StatusExpired" and ?g = "mark spent StatusTrafficExhausted"
  let ?E = "sbID ` set (filter (over now) (pnSubs p))" and ?X = "sbID ` set (filter spent (pnSubs q))"
  have q: "panel_ok env q" "switched env False ?E p q" "pnSubs q = map ?f (pnSubs p)"
    using sweep_marks [OF ok, of now StatusExpired "over now"] by (simp_all add: q_def CheckAndExpireSubscriptions_def lists_by_row)
  have r: "panel_ok env p'" "switched env False ?X q p'" "pnSubs p' = map ?g (pnSubs q)"
    using sweep_marks [OF q(1), of now StatusTrafficExhausted spent]
    by (simp_all add: p' CheckAndExpireByDataLimit_def lists_by_row flip: q_def)
  note sw = switched_trans [OF q(2) r(2)]
  have hit: "sbID s \<in> ?E \<union> ?X \<longleftrightarrow> ?g (?f s) \<noteq> s" if "s \<in> set (pnSubs p)" for s
  proof -
    have only: "t = s" if "t \<in> set (pnSubs p)" "sbID s = sbID t" for t
      using that \<open>s \<in> set (pnSubs p)\<close> ok by (auto simp: panel_ok_def distinct_map dest: inj_onD)
    have "sbID s \<in> ?E \<longleftrightarrow> (\<exists>t \<in> set (pnSubs p). over now t \<and> sbID s = sbID t)" by (simp add: image_iff Bex_def conj_ac)
    moreover have "sbID s \<in> ?X \<longleftrightarrow> (\<exists>t \<in> set (pnSubs p). spent (?f t) \<and> sbID s = sbID t)"
      unfolding q(3) by (auto simp: image_iff)
    moreover have "over now s \<longleftrightarrow> (\<exists>t \<in> set (pnSubs p). over now t \<and> sbID s = sbID t)"
      "spent (?f s) \<longleftrightarrow> (\<exists>t \<in> set (pnSubs p). spent (?f t) \<and> sbID s = sbID t)"
      using that only by blast+
    ultimately show ?thesis unfolding marked_twice(2) by blast
  qed
  have "if ?g (?f s) = s then untouched (sbID s) p p' else cut_off env (sbID s) p'" if "s \<in> set (pnSubs p)" for s
    using hit [OF that] switched_untouched [OF sw, of "sbID s"] switched_cut_off [OF r(1) sw, of "sbID s"] by argo
  then have "list_all2 (\<lambda>s s'. sbID s' = sbID s \<and> (if s' = s then untouched (sbID s) p p'
      else sbStatus s = StatusActive \<and> \<not> GrantsAccess now s \<and> \<not> GrantsAccess now s' \<and> cut_off env (sbID s) p'))
      (pnSubs p) (pnSubs p')"
    using marked_twice(3) [where now = now] by (auto simp: r(3) q(3) list_all2_conv_all_nth list_all2_map2 split: if_splits)
  moreover have "GrantsAccess now s \<or> now - minute \<le> sbCreatedAt s \<or> GetEffectiveDataLimit s < 0"
    if s: "s \<in> set (pnSubs p')" "sbStatus s = StatusActive" for s
  proof -
    obtain t where t: "s = ?g (?f t)" using s(1) by (auto simp: r(3) q(3))
    then have "s = t \<and> \<not> over now t \<and> \<not> spent t" using marked_twice(1) [of now t] s(2) by simp
    then show ?thesis using left_active [of t now] s(2) by simp
  qed
  ultimately show ?thesis by (simp add: list_all_iff)
qed


text \<open>A ban pauses the user's active subscriptions; an unban resumes what the ban paused.\<close>

lemma WithPauseReason_rows:
  "UpdateStatusWithPauseReason i st reason t = map (\<lambda>s. if sbID s = i \<and> \<not> (st = StatusPaused \<and> sbStatus s = StatusPaused)
     then s\<lparr>sbStatus := st, sbPauseReason := reason\<rparr> else s) t"
  by (auto simp: UpdateStatusWithPauseReason_def update_sub_def update_row_def)

lemma status_ids [simp]:
  "map sbID (UpdateStatus i st t) = map sbID t" "map sbID (UpdateStatusWithPauseReason i st reason t) = map sbID t"
  by (auto simp: UpdateStatus_rows WithPauseReason_rows)

lemma panel_ok_subs: "map sbID t = map sbID (pnSubs p) \<Longrightarrow> panel_ok env (p\<lparr>pnSubs := t\<rparr>) = panel_ok env p"
  by (simp add: panel_ok_def)

lemma panel_ok_banned [simp]: "panel_ok env (p\<lparr>pnBanned := b\<rparr>) = panel_ok env p"
  by (simp add: panel_ok_def)

lemma switched_subs [simp]:
  "switched env on ids p (q\<lparr>pnSubs := t\<rparr>) = switched env on ids p q" "switched env on ids (p\<lparr>pnSubs := t\<rparr>) q = switched env on ids p q"
  "switched env on ids p (q\<lparr>pnBanned := b\<rparr>) = switched env on ids p q" "switched env on ids (p\<lparr>pnBanned := b\<rparr>) q = switched env on ids p q"
  by (simp_all add: switched_def)

definition paused_for :: "string \<Rightarrow> Subscription \<Rightarrow> Subscription" where
  "paused_for reason s = (if sbStatus s = StatusPaused then s else s\<lparr>sbStatus := StatusPaused, sbPauseReason := reason\<rparr>)"

lemma WithPauseReason_paused:
  "UpdateStatusWithPauseReason i StatusPaused reason t = map (\<lambda>s. if sbID s = i then paused_for reason s else s) t"
  unfolding WithPauseReason_rows paused_for_def by (rule map_cong) auto

lemma pause_fold:
  assumes "panel_ok env p"
  shows "panel_ok env (fold (\<lambda>s. PauseSubscriptionFor env now (sbID s) reason) ss p)
    \<and> switched env False (sbID ` set ss) p (fold (\<lambda>s. PauseSubscriptionFor env now (sbID s) reason) ss p)
    \<and> pnSubs (fold (\<lambda>s. PauseSubscriptionFor env now (sbID s) reason) ss p)
      = map (\<lambda>s. if sbID s \<in> sbID ` set ss then paused_for reason s else s) (pnSubs p)
    \<and> pnBanned (fold (\<lambda>s. PauseSubscriptionFor env now (sbID s) reason) ss p) = pnBanned p"
  using assms
proof (induction ss arbitrary: p)
  case Nil
  then show ?case by (simp add: switched_none)
next
  case (Cons s ss)
  let ?q = "PauseSubscriptionFor env now (sbID s) reason p"
  have q: "pnSubs ?q = map (\<lambda>t. if sbID t = sbID s then paused_for reason t else t) (pnSubs p)" "pnBanned ?q = pnBanned p"
    by (auto simp: PauseSubscriptionFor_def WithPauseReason_rows paused_for_def Let_def)
  have sw: "switched env False {sbID s} p ?q"
    using setTunnelAccess_switched [OF Cons.prems] by (simp add: PauseSubscriptionFor_def Let_def)
  have "map sbID (pnSubs ?q) = map sbID (pnSubs p)" by (auto simp: q paused_for_def)
  then have "panel_ok env ?q"
    using panel_ok_setTunnelAccess [OF Cons.prems] by (simp add: PauseSubscriptionFor_def panel_ok_def Let_def)
  note IH = Cons.IH [OF this]
  show ?case
    using IH switched_trans [OF sw conjunct1 [OF conjunct2 [OF IH]]] by (auto simp: q comp_def paused_for_def)
qed

definition ban_paused :: "Subscription \<Rightarrow> bool" where
  "ban_paused s \<longleftrightarrow> sbStatus s = StatusPaused \<and> sbPauseReason s = PauseReasonBan"

lemma unban_one_step:
  assumes ok: "panel_ok env p" and s: "s \<in> set (pnSubs p)" "\<not> sub_IsExpired now s"
  shows "\<exists>out'. unban_one env now s (out, p)
    = (out', if ban_paused s then snd (ResumeSubscription env now (sbID s) p) else p)
    \<and> (ban_paused s \<longrightarrow> panel_ok env (snd (ResumeSubscription env now (sbID s) p))
        \<and> switched env True {sbID s} p (snd (ResumeSubscription env now (sbID s) p))
        \<and> pnBanned (snd (ResumeSubscription env now (sbID s) p)) = pnBanned p
        \<and> pnSubs (snd (ResumeSubscription env now (sbID s) p))
          = map (\<lambda>t. if sbID t = sbID s then t\<lparr>sbStatus := StatusActive, sbPauseReason := []\<rparr> else t) (pnSubs p))"
proof -
  let ?t = "UpdateStatusWithPauseReason (sbID s) StatusActive [] (pnSubs p)"
  have "find (\<lambda>t. sbID t = sbID s) (pnSubs p) = Some s"
    using ok s(1) by (intro find_by_key) (simp_all add: panel_ok_def)
  then have res: "ResumeSubscription env now (sbID s) p = (None, setTunnelAccess env now (sbID s) True (p\<lparr>pnSubs := ?t\<rparr>))"
    using s(2) by (simp add: ResumeSubscription_def sub_FindByID_def)
  have "panel_ok env (p\<lparr>pnSubs := ?t\<rparr>)" using ok by (simp add: panel_ok_subs)
  then show ?thesis
    using s(2) panel_ok_setTunnelAccess setTunnelAccess_switched [of env "p\<lparr>pnSubs := ?t\<rparr>" True "sbID s" now]
    by (cases out) (auto simp: unban_one_def ban_paused_def res WithPauseReason_rows)
qed


lemma unban_fold:
  assumes "panel_ok env p" "set ss \<subseteq> set (pnSubs p)" "distinct (map sbID ss)" "list_all (\<lambda>s. \<not> sub_IsExpired now s) ss"
  shows "let q = snd (fold (unban_one env now) ss (out, p)); ids = sbID ` set (filter ban_paused ss) in
    panel_ok env q \<and> switched env True ids p q \<and> pnBanned q = pnBanned p
    \<and> pnSubs q = map (\<lambda>t. if sbID t \<in> ids then t\<lparr>sbStatus := StatusActive, sbPauseReason := []\<rparr> else t) (pnSubs p)"
  using assms
proof (induction ss arbitrary: p out)
  case Nil
  then show ?case by (simp add: switched_none)
next
  case (Cons s ss)
  have s: "s \<in> set (pnSubs p)" "\<not> sub_IsExpired now s" using Cons.prems by simp_all
  let ?q = "if ban_paused s then snd (ResumeSubscription env now (sbID s) p) else p"
  let ?I = "if ban_paused s then {sbID s} else {}"
  obtain out' where out': "unban_one env now s (out, p) = (out', ?q)"
    and q: "panel_ok env ?q" "switched env True ?I p ?q" "pnBanned ?q = pnBanned p"
      "pnSubs ?q = map (\<lambda>t. if sbID t \<in> ?I then t\<lparr>sbStatus := StatusActive, sbPauseReason := []\<rparr> else t) (pnSubs p)"
    using unban_one_step [OF Cons.prems(1) s, of out] Cons.prems(1) switched_none [of env True p] by (auto split: if_splits)
  have "t \<in> set (pnSubs ?q)" if "t \<in> set ss" for t
  proof -
    have "t \<in> set (pnSubs p)" "sbID t \<notin> ?I"
      using that Cons.prems(2,3) by (auto simp: rev_image_eqI)
    then show ?thesis unfolding q(4) by (auto simp: image_iff intro: bexI [of _ t])
  qed
  then have IH: "let r = snd (fold (unban_one env now) ss (out', ?q)); ids = sbID ` set (filter ban_paused ss) in
    panel_ok env r \<and> switched env True ids ?q r \<and> pnBanned r = pnBanned ?q
    \<and> pnSubs r = map (\<lambda>t. if sbID t \<in> ids then t\<lparr>sbStatus := StatusActive, sbPauseReason := []\<rparr> else t) (pnSubs ?q)"
    using Cons.prems q(1) by (intro Cons.IH) auto
  have ids: "sbID ` set (filter ban_paused (s # ss)) = ?I \<union> sbID ` set (filter ban_paused ss)" by auto
  show ?case
    using IH switched_trans [OF q(2)] unfolding Let_def ids by (auto simp: out' q(3) q(4) simp del: filter.simps)
qed

definition all_on :: "panel_env \<Rightarrow> nat \<Rightarrow> panel \<Rightarrow> bool" where
  "all_on env i p \<longleftrightarrow>
     list_all (\<lambda>a. acStatus a = AccActive) (filter (\<lambda>a. owned i a \<and> account_node (peInbounds env) a \<noteq> None) (asRows (pnAccts p)))
     \<and> list_all (\<lambda>q. wpStatus q = WGActive) (filter (\<lambda>q. wpSubscriptionID q = i) (wgRows (dsTable (pnDevs p))))
     \<and> list_all cuEnabled (filter (\<lambda>u. cuSubscriptionID u = Some i) (crUsers (pnCores p)))"

lemma switch_off_on:
  assumes on: "\<And>i. i \<in> ids \<Longrightarrow> all_on env i p" and "switched env False ids p q" "switched env True ids q r"
  shows "asRows (pnAccts r) = asRows (pnAccts p) \<and> wgRows (dsTable (pnDevs r)) = wgRows (dsTable (pnDevs p))
    \<and> crUsers (pnCores r) = crUsers (pnCores p)"
proof -
  have "switch_account env True ids (switch_account env False ids a) = a" if "a \<in> set (asRows (pnAccts p))" for a
    using that on by (fastforce simp: switch_account_def all_on_def list_all_iff owned_def account_node_def)
  moreover have "switch_peer True ids (switch_peer False ids w) = w" if "w \<in> set (wgRows (dsTable (pnDevs p)))" for w
    using that on by (fastforce simp: switch_peer_def all_on_def list_all_iff)
  moreover have "switch_user True ids (switch_user False ids u) = u" if "u \<in> set (crUsers (pnCores p))" for u
    using that on by (fastforce simp: switch_user_def all_on_def list_all_iff)
  ultimately show ?thesis using assms(2,3) by (simp add: switched_def map_idI)
qed

lemma ListByUserID_all:
  assumes "length (filter (\<lambda>s. sbUserID s = Some u) t) \<le> 1000"
  shows "set (ListByUserID u 0 1000 t) = {s \<in> set t. sbUserID s = Some u}"
    "distinct (map sbID t) \<Longrightarrow> distinct (map sbID (ListByUserID u 0 1000 t))"
proof -
  have all: "ListByUserID u 0 1000 t = sort_key (\<lambda>s. - sbCreatedAt s) (filter (\<lambda>s. sbUserID s = Some u) t)"
    using assms by (simp add: ListByUserID_def)
  show "set (ListByUserID u 0 1000 t) = {s \<in> set t. sbUserID s = Some u}" by (auto simp: all)
  show "distinct (map sbID t) \<Longrightarrow> distinct (map sbID (ListByUserID u 0 1000 t))"
    by (auto simp: all distinct_map intro: inj_on_subset)
qed


lemma paused_for_simps [simp]:
  "sbID (paused_for reason s) = sbID s" "sbUserID (paused_for reason s) = sbUserID s"
  "sub_IsExpired now (paused_for reason s) = sub_IsExpired now s"
  by (simp_all add: paused_for_def sub_IsExpired_def GetEffectiveEndDate_def)

lemma unban_after_ban:
  assumes ok: "panel_ok env q" and q: "pnSubs q = map (\<lambda>s. if sbID s \<in> I then paused_for PauseReasonBan s else s) t"
    and few: "length (filter (\<lambda>s. sbUserID s = Some u) t) \<le> 1000"
    and live: "\<And>s. s \<in> set t \<Longrightarrow> sbUserID s = Some u \<Longrightarrow> \<not> sub_IsExpired now s \<and> \<not> ban_paused s"
    and I: "\<And>s. s \<in> set t \<Longrightarrow> sbID s \<in> I \<longleftrightarrow> sbUserID s = Some u \<and> sbStatus s = StatusActive" "I \<subseteq> sbID ` set t"
    and r: "r = snd (UnbanUser env now u q)"
  shows "switched env True I q r \<and> pnBanned r = removeAll u (pnBanned q)
    \<and> pnSubs r = map (\<lambda>s. if sbID s \<in> I then s\<lparr>sbStatus := StatusActive, sbPauseReason := []\<rparr> else s) (pnSubs q)"
proof -
  define b where "b s = (if sbID s \<in> I then paused_for PauseReasonBan s else s)" for s
  have b: "sbID (b s) = sbID s" "sbUserID (b s) = sbUserID s" "sub_IsExpired now (b s) = sub_IsExpired now s" for s
    by (simp_all add: b_def)
  have q: "pnSubs q = map b t" using q by (simp add: b_def)
  let ?q = "q\<lparr>pnBanned := removeAll u (pnBanned q)\<rparr>" and ?ss = "ListByUserID u 0 1000 (pnSubs q)"
  have "length (filter (\<lambda>s. sbUserID s = Some u) (pnSubs q)) \<le> 1000" using few by (simp add: q filter_map comp_def b)
  note ss = ListByUserID_all [OF this]
  have mine: "set ?ss = b ` {s \<in> set t. sbUserID s = Some u}" unfolding ss(1) by (auto simp: q b)
  have paused: "ban_paused (b s) \<longleftrightarrow> sbID s \<in> I" if "s \<in> set t" "sbUserID s = Some u" for s
    using that live [OF that] I(1) [OF that(1)] by (auto simp: b_def paused_for_def ban_paused_def)
  have ids: "sbID ` set (filter ban_paused ?ss) = I"
  proof
    show "sbID ` set (filter ban_paused ?ss) \<subseteq> I" unfolding set_filter mine using paused b(1) by auto
    show "I \<subseteq> sbID ` set (filter ban_paused ?ss)"
    proof
      fix i assume i: "i \<in> I"
      then obtain s where s: "s \<in> set t" "i = sbID s" using I(2) by auto
      then have "sbUserID s = Some u" using I(1) i by blast
      then have "b s \<in> set (filter ban_paused ?ss)" unfolding set_filter mine using s i paused by auto
      then show "i \<in> sbID ` set (filter ban_paused ?ss)" using b(1) [of s] s(2) by (metis image_eqI)
    qed
  qed
  have "panel_ok env ?q" "set ?ss \<subseteq> set (pnSubs ?q)" "distinct (map sbID ?ss)"
    using ok ss by (auto simp: panel_ok_def)
  moreover have "list_all (\<lambda>s. \<not> sub_IsExpired now s) ?ss" unfolding list_all_iff mine using live b(3) by auto
  ultimately have "let r = snd (fold (unban_one env now) ?ss (([], []), ?q)); ids = sbID ` set (filter ban_paused ?ss) in
    panel_ok env r \<and> switched env True ids ?q r \<and> pnBanned r = pnBanned ?q
    \<and> pnSubs r = map (\<lambda>t. if sbID t \<in> ids then t\<lparr>sbStatus := StatusActive, sbPauseReason := []\<rparr> else t) (pnSubs ?q)"
    by (rule unban_fold)
  then show ?thesis
    unfolding ids Let_def by (simp add: r UnbanUser_def)
qed


lemma granted_row: "distinct (map sbID t) \<Longrightarrow> s \<in> set t \<Longrightarrow> granted t now (sbID s) = GrantsAccess now s"
  by (simp add: granted_def sub_FindByID_def find_by_key)

lemma found_elsewhere:
  assumes "j \<noteq> i"
  shows "sub_FindByID j (UpdateStatus i st t) = sub_FindByID j t"
    "sub_FindByID j (UpdateStatusWithPauseReason i st reason t) = sub_FindByID j t"
  using assms by (induction t) (simp_all add: sub_FindByID_def UpdateStatus_rows WithPauseReason_rows)

lemma found_update_sub:
  "(\<And>s. sbID (f s) = sbID s) \<Longrightarrow> sub_FindByID i (update_sub i f t) = map_option f (sub_FindByID i t)"
  by (simp add: sub_FindByID_def update_sub_def find_update_row)

lemma found_updated:
  "sub_FindByID i (UpdateStatus i st t) = map_option (\<lambda>s. s\<lparr>sbStatus := st\<rparr>) (sub_FindByID i t)"
  "sub_FindByID i (UpdateStatusWithPauseReason i StatusPaused reason t) = map_option (paused_for reason) (sub_FindByID i t)"
proof -
  have "UpdateStatusWithPauseReason i StatusPaused reason t = update_sub i (paused_for reason) t"
    by (simp add: WithPauseReason_paused update_sub_def update_row_def)
  then show "sub_FindByID i (UpdateStatusWithPauseReason i StatusPaused reason t) = map_option (paused_for reason) (sub_FindByID i t)"
    by (simp add: found_update_sub)
qed (simp add: UpdateStatus_def found_update_sub)

lemma paused_for_status [simp]: "sbStatus (paused_for reason s) = StatusPaused"
  by (simp add: paused_for_def)

text \<open>
  C21. Cancelling, revoking or pausing a subscription takes all its access away at once: it no longer
  grants access, its accounts are off and gone from the nodes once their queue is carried out, its
  WireGuard peers and tunnel users are off. No other subscription is touched.
\<close>

theorem revoking_reaches_everything:
  assumes ok: "panel_ok env p" and sub: "sub_FindByID i (pnSubs p) = Some sub"
    and p': "p' = snd (Cancel env now i p) \<or> p' = RevokeSubscription env now i p \<or> p' = PauseSubscriptionFor env now i reason p"
  shows "cut_off env i p' \<and> \<not> granted (pnSubs p') now' i \<and> (j = i \<or> untouched j p p' \<and> granted (pnSubs p') now' j = granted (pnSubs p) now' j)"
proof -
  have id: "sbID sub = i" using sub by (auto simp: sub_FindByID_def find_Some_iff)
  have sw: "switched env False {i} p p'"
    using p' sub setTunnelAccess_switched [OF ok] deactivate_switched [OF ok, of sub now] id
    by (auto simp: Cancel_def RevokeSubscription_def PauseSubscriptionFor_def Let_def)
  have rows: "pnSubs p' = UpdateStatus i StatusCancelled (pnSubs p) \<or> pnSubs p' = UpdateStatusWithPauseReason i StatusPaused reason (pnSubs p)"
    using p' sub by (auto simp: Cancel_def RevokeSubscription_def PauseSubscriptionFor_def Let_def)
  have ok': "panel_ok env p'"
    using p' sub panel_ok_setTunnelAccess [OF ok] panel_ok_deactivate [OF ok]
    by (auto simp: Cancel_def RevokeSubscription_def PauseSubscriptionFor_def Let_def panel_ok_subs)
  have "\<not> granted (pnSubs p') now' i"
    using rows by (auto simp: granted_def GrantsAccess_def found_updated split: option.split)
  moreover have "granted (pnSubs p') now' j = granted (pnSubs p) now' j" if "j \<noteq> i"
    using rows found_elsewhere [OF that] by (auto simp: granted_def)
  ultimately show ?thesis using switched_cut_off [OF ok' sw, of i] switched_untouched [OF sw, of j] by auto
qed


lemma switched_all_on:
  assumes sw: "switched env True ids p p'" and i: "i \<in> ids"
  shows "all_on env i p'"
proof -
  have "acStatus (switch_account env True ids a) = AccActive"
    if "owned i (switch_account env True ids a)" "account_node (peInbounds env) (switch_account env True ids a) \<noteq> None" for a
    using that i unfolding switch_ids by (auto simp: switch_account_def)
  moreover have "wpStatus (switch_peer True ids q) = WGActive" if "wpSubscriptionID (switch_peer True ids q) = i" for q
    using that i unfolding switch_ids by (auto simp: switch_peer_def)
  moreover have "cuEnabled (switch_user True ids u)" if "cuSubscriptionID (switch_user True ids u) = Some i" for u
    using that i unfolding switch_ids by (auto simp: switch_user_def)
  ultimately show ?thesis using sw by (auto simp: all_on_def switched_def list_all_iff)
qed

lemma reactivate_switched:
  assumes "panel_ok env p"
  shows "switched env True {i} p (reactivateSubscription env now i p)"
    and "pnSubs (reactivateSubscription env now i p) = UpdateStatus i StatusActive (pnSubs p)"
proof -
  let ?q = "setTunnelAccess env now i True (p\<lparr>pnSubs := UpdateStatus i StatusActive (pnSubs p)\<rparr>)"
  have "panel_ok env (p\<lparr>pnSubs := UpdateStatus i StatusActive (pnSubs p)\<rparr>)" using assms by (simp add: panel_ok_subs)
  then have sw: "switched env True {i} p ?q" using setTunnelAccess_switched [of env "p\<lparr>pnSubs := UpdateStatus i StatusActive (pnSubs p)\<rparr>"] by simp
  have twice: "switched env True {i} p (?q\<lparr>pnDevs := ActivateSubscription (peDev env) (pePush env) i (pnDevs ?q)\<rparr>)"
    using sw by (simp add: switched_def hook_tables switch_twice)
  have "sbID sub = i" if "sub_FindByID i (pnSubs ?q) = Some sub" for sub using that by (auto simp: sub_FindByID_def find_Some_iff)
  then show "switched env True {i} p (reactivateSubscription env now i p)"
    using sw twice by (auto simp: reactivateSubscription_def Let_def simp del: setTunnelAccess_simps split: option.split)
  show "pnSubs (reactivateSubscription env now i p) = UpdateStatus i StatusActive (pnSubs p)"
    by (simp add: reactivateSubscription_def Let_def split: option.split)
qed

lemma found_limit:
  "sub_FindByID i (ResetDataWarningLevel i (repo_SetCustomDataLimit i l t))
    = map_option (\<lambda>s. s\<lparr>sbCustomDataLimit := l, sbIsDataLimitCustom := l \<noteq> None, sbDataWarningLevel := 0, sbLastDataWarning := None\<rparr>)
        (sub_FindByID i t)"
  by (simp add: ResetDataWarningLevel_def repo_SetCustomDataLimit_def found_update_sub option.map_comp comp_def)

lemma update_sub_ids: "(\<And>s. sbID (f s) = sbID s) \<Longrightarrow> map sbID (update_sub i f t) = map sbID t"
  by (simp add: update_sub_def ids_update_row)

text \<open>
  Data added to a subscription whose traffic was used up gives all its access back, when its end
  date has not passed and the new limit is above what it used: it grants access again, and its
  accounts, WireGuard peers and tunnel users are on. Adding data to an expired, paused or cancelled
  one leaves it without access.
\<close>

theorem added_data_brings_access_back:
  assumes ok: "panel_ok env p" and sub: "sub_FindByID i (pnSubs p) = Some sub" "0 < GetEffectiveDataLimit sub"
    and new: "new = GetEffectiveDataLimit sub + bytes" "sbDataUsed sub < new" "new \<noteq> 0" "int64_min \<le> new" "new \<le> int64_max"
    and date: "\<not> sub_IsExpired now sub" and p': "p' = snd (AddData env now i bytes p)"
  shows "if sbStatus sub = StatusTrafficExhausted then granted (pnSubs p') now i \<and> all_on env i p'
    else granted (pnSubs p') now i = (sbStatus sub = StatusActive \<or> sbStatus sub = StatusPending)"
proof -
  let ?q = "p\<lparr>pnAccts := ClearAccountDataLimitsBySubscription i (pnAccts p),
    pnSubs := ResetDataWarningLevel i (repo_SetCustomDataLimit i (Some new) (pnSubs p))\<rparr>"
  let ?s = "sub\<lparr>sbCustomDataLimit := Some new, sbIsDataLimitCustom := True, sbDataWarningLevel := 0, sbLastDataWarning := None\<rparr>"
  have "wrap64 new = new" using new(4,5) by (simp add: wrap64_id)
  then have res: "p' = (if sbStatus sub = StatusTrafficExhausted then reactivateSubscription env now i ?q
      else if sbStatus sub = StatusActive then setTunnelAccess env now i True ?q else ?q)"
    using sub new by (simp add: p' AddData_def Let_def)
  have "acct_ok (peInbounds env) (ClearAccountDataLimitsBySubscription i (pnAccts p))"
    using ok acct_ok_step [of "peInbounds env" "pnAccts p" "DoClearLimits i"] by (simp add: panel_ok_def)
  then have q: "panel_ok env ?q"
    using ok by (simp add: panel_ok_def ResetDataWarningLevel_def repo_SetCustomDataLimit_def update_sub_ids)
  have here: "sub_FindByID i (pnSubs ?q) = Some ?s" using sub(1) by (simp add: found_limit)
  have "\<not> sub_IsExpired now (?s\<lparr>sbStatus := st\<rparr>) \<and> \<not> sub_IsDataExhausted (?s\<lparr>sbStatus := st\<rparr>)" for st
    using date new(2) by (simp add: sub_IsExpired_def GetEffectiveEndDate_def sub_IsDataExhausted_def GetEffectiveDataLimit_def split: if_splits)
  from this [of StatusActive] this [of "sbStatus sub"] show ?thesis
    using here switched_all_on [OF reactivate_switched(1) [OF q], of i i now]
    by (simp add: res reactivate_switched(2) [OF q] granted_def found_updated GrantsAccess_def)
qed


section \<open>Example\<close>

text \<open>One subscription with an account, a WireGuard device and an SSH tunnel.\<close>

definition demo_penv :: panel_env where
  "demo_penv = \<lparr>peInbounds = demo_inbounds, peDev = demo_env, pePush = (\<lambda>n. True), peProvider = (\<lambda>i. True)\<rparr>"

definition demo_panel :: "Subscription \<Rightarrow> panel" where
  "demo_panel s = \<lparr>pnSubs = [s],
     pnAccts = acct_step demo_inbounds 0 (DoCreateForSubscription 1 ''u7'' ''id'' [] [] 7 0) acct_start,
     pnDevs = demo_one,
     pnCores = \<lparr>crInbounds = [\<lparr>ciID = 1, ciNodeID = 4, ciProtocol = CoreProtoSSH, ciIsDisabled = False\<rparr>],
       crUsers = [\<lparr>cuID = 1, cuCoreInboundID = 1, cuSubscriptionID = Some 7, cuUsername = ''u7'', cuSecret = ''s'',
         cuEmail = ''u7'', cuKLimit = 1, cuDataUsed = 0, cuEnabled = True\<rparr>], crDisabled = []\<rparr>,
     pnBanned = []\<rparr>"

lemma demo_panel_ok: "panel_ok demo_penv (demo_panel s)"
proof -
  have "acct_run demo_inbounds acct_start (acct_step demo_inbounds 0 (DoCreateForSubscription 1 ''u7'' ''id'' [] [] 7 0) acct_start)"
    by (intro acct_run.intros) simp
  then show ?thesis
    using acct_ok_run [OF _ demo_inbounds_ok acct_ok_start] demo_inbounds_ok by (simp add: panel_ok_def demo_penv_def demo_panel_def)
qed

lemma demo_panel_rows:
  "asRows (pnAccts (demo_panel s)) = [new_account 0 1 1 ''u7'' ''id'' [] [] SourceSubscription (Some 7) 0]"
  by (simp add: demo_panel_def CreateAccountForSubscription_def demo_inbounds_def demo_inbound_def acct_start_def FindByEmailAndInbound_def
      drop_zombie_def FindByEmailAndInboundUnscoped_def acc_Create_def EnqueueAddUser_def account_node_def Let_def)

lemma demo_all_on: "all_on demo_penv 7 (demo_panel s)"
  by (simp add: all_on_def demo_panel_rows new_account_def)
     (simp add: demo_panel_def demo_one_eq Let_def demo_peer_def new_peer_def)

theorem sweeps_cut_off_what_is_over_witness:
  "cut_off demo_penv 7 (CheckAndExpireByDataLimit demo_penv (10 ^ 12)
    (CheckAndExpireSubscriptions demo_penv (10 ^ 12) (demo_panel (fresh_sub 7\<lparr>sbEndDate := Some 5\<rparr>))))"
proof -
  let ?s = "fresh_sub 7\<lparr>sbEndDate := Some 5\<rparr>"
  let ?p = "CheckAndExpireByDataLimit demo_penv (10 ^ 12) (CheckAndExpireSubscriptions demo_penv (10 ^ 12) (demo_panel ?s))"
  have s: "pnSubs (demo_panel ?s) = [?s]" "sbID ?s = 7" by (simp_all add: demo_panel_def fresh_sub_def)
  have "\<not> (GrantsAccess (10 ^ 12) ?s \<or> 10 ^ 12 - minute \<le> sbCreatedAt ?s \<or> GetEffectiveDataLimit ?s < 0)" "sbStatus ?s = StatusActive"
    by (simp_all add: fresh_sub_def GrantsAccess_def sub_IsExpired_def GetEffectiveEndDate_def minute_def GetEffectiveDataLimit_def)
  moreover have "list_all (\<lambda>s. GrantsAccess (10 ^ 12) s \<or> 10 ^ 12 - minute \<le> sbCreatedAt s \<or> GetEffectiveDataLimit s < 0)
      (filter (\<lambda>s. sbStatus s = StatusActive) (pnSubs ?p))
    \<and> list_all2 (\<lambda>s s'. sbID s' = sbID s \<and>
        (if s' = s then untouched (sbID s) (demo_panel ?s) ?p
         else sbStatus s = StatusActive \<and> \<not> GrantsAccess (10 ^ 12) s \<and> \<not> GrantsAccess (10 ^ 12) s' \<and> cut_off demo_penv (sbID s) ?p))
      (pnSubs (demo_panel ?s)) (pnSubs ?p)"
    by (rule sweeps_cut_off_what_is_over [OF demo_panel_ok refl])
  ultimately show ?thesis unfolding s by (auto simp: list_all2_Cons1 s(2) split: if_splits)
qed


theorem revoking_reaches_everything_witness:
  "cut_off demo_penv 7 (RevokeSubscription demo_penv 0 7 (demo_panel (fresh_sub 7)))
    \<and> \<not> granted (pnSubs (RevokeSubscription demo_penv 0 7 (demo_panel (fresh_sub 7)))) 0 7"
proof -
  have "sub_FindByID 7 (pnSubs (demo_panel (fresh_sub 7))) = Some (fresh_sub 7)" by (simp add: demo_panel_def sub_FindByID_def fresh_sub_def)
  then show ?thesis using revoking_reaches_everything [where i = 7 and now = 0 and now' = 0, OF demo_panel_ok _ disjI2 [OF disjI1 [OF refl]]] by simp
qed

theorem added_data_brings_access_back_witness:
  "let s = fresh_sub 7\<lparr>sbStatus := StatusTrafficExhausted, sbDataLimit := 100, sbDataUsed := 100\<rparr>;
       p = snd (AddData demo_penv 0 7 50 (demo_panel s))
   in \<not> granted (pnSubs (demo_panel s)) 0 7 \<and> granted (pnSubs p) 0 7 \<and> all_on demo_penv 7 p"
proof -
  let ?s = "fresh_sub 7\<lparr>sbStatus := StatusTrafficExhausted, sbDataLimit := 100, sbDataUsed := 100\<rparr>"
  have s: "sub_FindByID 7 (pnSubs (demo_panel ?s)) = Some ?s" "GetEffectiveDataLimit ?s = 100" "\<not> sub_IsExpired 0 ?s"
    by (simp_all add: demo_panel_def sub_FindByID_def fresh_sub_def GetEffectiveDataLimit_def sub_IsExpired_def GetEffectiveEndDate_def)
  have "\<not> granted (pnSubs (demo_panel ?s)) 0 7" unfolding granted_def s(1) by (simp add: GrantsAccess_def)
  then show ?thesis
    using added_data_brings_access_back [OF demo_panel_ok s(1) _ _ _ _ _ _ s(3) refl, of 150 50]
    by (simp add: s(2) int64_min_def int64_max_def Let_def)
qed

end
