(* ===== verification/Reverse_Tunnel.thy ===== *)
theory Reverse_Tunnel
  imports Node_Emails
begin

text \<open>
  Reverse tunnels, \<open>internal/node/domain/reverse_tunnel.go\<close>: a bridge dials its portal as a hidden
  user, and the statistics know the tunnel only by that user's email and by the tag of the bridge's
  outbound. The lemmas show that both name the tunnel and that no customer's bytes are taken for a
  tunnel's. The slug of a tag, which lowers Unicode letters, is left out.
\<close>

record ReverseTunnel =
  rtID :: nat
  rtPortalNodeID :: "nat option"
  rtBridgeNodeID :: "nat option"
  rtToBridge :: int
  rtFromBridge :: int
  rtDeleted :: bool

datatype tunnel_kind = ReverseTunnelNodes | ReverseTunnelExternalBridge | ReverseTunnelExternalPortal

definition Kind :: "ReverseTunnel \<Rightarrow> tunnel_kind" where
  "Kind t = (if rtPortalNodeID t \<noteq> None \<and> rtBridgeNodeID t \<noteq> None then ReverseTunnelNodes
     else if rtPortalNodeID t \<noteq> None then ReverseTunnelExternalBridge
     else ReverseTunnelExternalPortal)"

definition Observable :: "ReverseTunnel \<Rightarrow> bool" where
  "Observable t \<longleftrightarrow> rtPortalNodeID t \<noteq> None"

definition ReverseTagPrefix :: string where "ReverseTagPrefix = ''rvs-''"

definition rt_Email :: "ReverseTunnel \<Rightarrow> string" where
  "rt_Email t = ReverseTagPrefix @ ''t'' @ dec (rtID t) @ ''@reverse''"

definition LinkTag :: "ReverseTunnel \<Rightarrow> string" where
  "LinkTag t = ReverseTagPrefix @ ''link-'' @ dec (rtID t)"

text \<open>\<open>strings.HasSuffix\<close>, \<open>TrimPrefix\<close> and \<open>TrimSuffix\<close>; \<open>ParseUint(s, 10, 64)\<close>.\<close>

definition has_suffix :: "string \<Rightarrow> string \<Rightarrow> bool" where
  "has_suffix s p \<longleftrightarrow> cut_suffix s p \<noteq> None"

definition trim_prefix :: "string \<Rightarrow> string \<Rightarrow> string" where
  "trim_prefix s p = (case cut_prefix s p of None \<Rightarrow> s | Some r \<Rightarrow> r)"

definition trim_suffix :: "string \<Rightarrow> string \<Rightarrow> string" where
  "trim_suffix s p = (case cut_suffix s p of None \<Rightarrow> s | Some r \<Rightarrow> r)"

definition parse_uint :: "string \<Rightarrow> nat option" where
  "parse_uint s = (if s = [] \<or> \<not> list_all is_digit s \<or> undec s \<ge> 2 ^ 64 then None else Some (nat (undec s)))"

definition parseReverseID :: "string \<Rightarrow> nat option" where
  "parseReverseID s = (case parse_uint s of None \<Rightarrow> None | Some i \<Rightarrow> if i = 0 then None else Some i)"

definition IsReverseEmail :: "string \<Rightarrow> bool" where
  "IsReverseEmail email \<longleftrightarrow> has_prefix email ReverseTagPrefix \<and> has_suffix email ''@reverse''"

definition ReverseTunnelIDFromEmail :: "string \<Rightarrow> nat option" where
  "ReverseTunnelIDFromEmail email =
     (if \<not> IsReverseEmail email then None
      else parseReverseID (trim_suffix (trim_prefix email (ReverseTagPrefix @ ''t'')) ''@reverse''))"

definition ReverseTunnelIDFromLinkTag :: "string \<Rightarrow> nat option" where
  "ReverseTunnelIDFromLinkTag tag =
     (case cut_prefix tag (ReverseTagPrefix @ ''link-'') of None \<Rightarrow> None | Some rest \<Rightarrow> parseReverseID rest)"

section \<open>The names of a tunnel\<close>

lemma parseReverseID_dec: "0 < i \<Longrightarrow> i < 2 ^ 64 \<Longrightarrow> parseReverseID (dec i) = Some i"
proof -
  assume "0 < i" "i < 2 ^ 64"
  moreover from this(2) have "int i < 2 ^ 64" by (metis of_nat_less_iff of_nat_numeral of_nat_power)
  ultimately show ?thesis
    using dec_digits [of i] by (simp add: parseReverseID_def parse_uint_def list_all_iff)
qed

lemma parseReverseID_Some:
  "parseReverseID s = Some i \<longleftrightarrow> s \<noteq> [] \<and> list_all is_digit s \<and> undec s = int i \<and> 0 < i \<and> undec s < 2 ^ 64"
  using undec_nonneg [of s] by (auto simp: parseReverseID_def parse_uint_def split: option.splits if_splits)

lemma IsReverseEmail_iff: "IsReverseEmail email \<longleftrightarrow> (\<exists>m. email = ''rvs-'' @ m @ ''@reverse'')"
proof
  assume "IsReverseEmail email"
  then obtain x y where "email = ''rvs-'' @ x" "email = y @ ''@reverse''"
    unfolding IsReverseEmail_def has_suffix_def ReverseTagPrefix_def has_prefix_iff prefix_def
    using cut_suffix_iff by blast
  then have "''rvs-'' @ x = y @ ''@reverse''" by simp
  then show "\<exists>m. email = ''rvs-'' @ m @ ''@reverse''"
    using \<open>email = ''rvs-'' @ x\<close> by (auto simp: append_eq_append_conv2 append_eq_Cons_conv Cons_eq_append_conv)
qed (auto simp: IsReverseEmail_def has_prefix_iff ReverseTagPrefix_def has_suffix_def cut_suffix_def)

lemma trim_suffix_append [simp]: "trim_suffix (s @ p) p = s"
  by (simp add: trim_suffix_def cut_suffix_def)

text \<open>The tunnel of an email is read from the digits of one of the form a tunnel's own has; leading zeros pass.\<close>

lemma ReverseTunnelIDFromEmail_Some:
  "ReverseTunnelIDFromEmail email = Some i \<longleftrightarrow> (\<exists>ds. email = ''rvs-t'' @ ds @ ''@reverse'' \<and> parseReverseID ds = Some i)"
proof
  assume a: "ReverseTunnelIDFromEmail email = Some i"
  then obtain m where m: "email = ''rvs-'' @ m @ ''@reverse''"
    by (auto simp: ReverseTunnelIDFromEmail_def IsReverseEmail_iff split: if_splits)
  show "\<exists>ds. email = ''rvs-t'' @ ds @ ''@reverse'' \<and> parseReverseID ds = Some i"
  proof (cases "m \<noteq> [] \<and> hd m = CHR ''t''")
    case True
    then obtain ds where "m = CHR ''t'' # ds" by (cases m) auto
    then have "email = ''rvs-t'' @ ds @ ''@reverse''" "trim_prefix email ''rvs-t'' = ds @ ''@reverse''"
      by (simp_all add: m trim_prefix_def cut_prefix_def has_prefix_def)
    then show ?thesis using a by (auto simp: ReverseTunnelIDFromEmail_def ReverseTagPrefix_def split: if_splits)
  next
    case False
    then have "trim_prefix email ''rvs-t'' = email"
      by (cases m) (simp_all add: m trim_prefix_def cut_prefix_def has_prefix_def)
    moreover have "trim_suffix email ''@reverse'' = ''rvs-'' @ m" using trim_suffix_append [of "''rvs-'' @ m"] by (simp add: m)
    ultimately have "parseReverseID (''rvs-'' @ m) = Some i"
      using a by (simp add: ReverseTunnelIDFromEmail_def ReverseTagPrefix_def split: if_splits)
    then show ?thesis by (simp add: parseReverseID_Some is_digit_def)
  qed
next
  assume "\<exists>ds. email = ''rvs-t'' @ ds @ ''@reverse'' \<and> parseReverseID ds = Some i"
  then obtain ds where e: "email = ''rvs-'' @ (CHR ''t'' # ds) @ ''@reverse''" and p: "parseReverseID ds = Some i" by auto
  then have "trim_prefix email ''rvs-t'' = ds @ ''@reverse''"
    by (simp add: trim_prefix_def cut_prefix_def has_prefix_def)
  moreover have "IsReverseEmail email" unfolding IsReverseEmail_iff using e by blast
  ultimately show "ReverseTunnelIDFromEmail email = Some i"
    using p by (simp add: ReverseTunnelIDFromEmail_def ReverseTagPrefix_def)
qed

text \<open>
  A tunnel is found by both of its names: the email of its hidden user and the tag of its link
  give back its ID, and its email is one the billing passes over. An email that names a tunnel is
  hidden, and one that is not hidden names none, so no customer's bytes go to a tunnel.
\<close>

theorem tunnel_names_are_identities:
  assumes "0 < rtID t" "rtID t < 2 ^ 64"
  shows "ReverseTunnelIDFromEmail (rt_Email t) = Some (rtID t)
    \<and> ReverseTunnelIDFromLinkTag (LinkTag t) = Some (rtID t)
    \<and> IsReverseEmail (rt_Email t)
    \<and> (ReverseTunnelIDFromEmail email = Some i \<longrightarrow> IsReverseEmail email)
    \<and> (ReverseTunnelIDFromEmail email = Some (rtID t) \<and> email \<noteq> rt_Email t
        \<longrightarrow> (\<exists>ds. email = ''rvs-t'' @ ds @ ''@reverse'' \<and> undec ds = int (rtID t) \<and> ds \<noteq> dec (rtID t)))"
proof (intro conjI impI)
  note p = parseReverseID_dec [OF assms]
  show "ReverseTunnelIDFromEmail (rt_Email t) = Some (rtID t)"
    unfolding ReverseTunnelIDFromEmail_Some using p by (auto simp: rt_Email_def ReverseTagPrefix_def)
  show "ReverseTunnelIDFromLinkTag (LinkTag t) = Some (rtID t)"
    using p by (simp add: ReverseTunnelIDFromLinkTag_def LinkTag_def cut_prefix_def has_prefix_def ReverseTagPrefix_def)
  show "IsReverseEmail (rt_Email t)"
    unfolding IsReverseEmail_iff by (rule exI [of _ "''t'' @ dec (rtID t)"]) (simp add: rt_Email_def ReverseTagPrefix_def)
  show "IsReverseEmail email" if "ReverseTunnelIDFromEmail email = Some i"
    using that by (simp add: ReverseTunnelIDFromEmail_def split: if_splits)
  show "\<exists>ds. email = ''rvs-t'' @ ds @ ''@reverse'' \<and> undec ds = int (rtID t) \<and> ds \<noteq> dec (rtID t)"
    if "ReverseTunnelIDFromEmail email = Some (rtID t) \<and> email \<noteq> rt_Email t"
    using that by (auto simp: ReverseTunnelIDFromEmail_Some parseReverseID_Some rt_Email_def ReverseTagPrefix_def)
qed

end
