(* ===== verification/Traffic_Persist.thy ===== *)
theory Traffic_Persist
  imports Access_Lifecycle Reverse_Tunnel "HOL-Library.Char_ord" "HOL-Library.List_Lexorder"
begin

text \<open>
  The booking of a node's traffic, \<open>internal/node/usecase/traffic_batch.go\<close>: the records of an
  agent's buffer are added up by email, day, outbound and tunnel; each email is given to a
  subscription, to accounts, peers and tunnel users; and one transaction adds the sums to the
  tables. The index of WireGuard emails is \<open>wg_attribution.go\<close>, the reads and writes are those of the
  repositories. A call to the database that fails is an argument. Days and outbounds are keys of Go
  maps, iterated in the order of the list that stands for the map. A timestamp whose year Go's time
  cannot hold is left out. The theorems show that a subscription is charged exactly the bytes of its
  emails, once in total and once by day, and that accounts are not charged more than was carried.
\<close>

section \<open>Records\<close>

datatype trafficBytes = Bytes (tbUp: int) (tbDown: int)
datatype tunnelBytes = TunnelBytes (tnTo: int) (tnFrom: int)

instantiation trafficBytes :: zero
begin
definition zero_trafficBytes :: trafficBytes where "0 = Bytes 0 0"
instance ..
end

instantiation tunnelBytes :: zero
begin
definition zero_tunnelBytes :: tunnelBytes where "0 = TunnelBytes 0 0"
instance ..
end

record CoreUsageEntry =
  ceProtocol :: string
  ceEmail :: string
  ceUplink :: int
  ceDownlink :: int

record TrafficRecord =
  trTimestamp :: int
  trUserUplink :: "(string \<times> int) list"
  trUserDownlink :: "(string \<times> int) list"
  trOutboundUplink :: "(string \<times> int) list"
  trOutboundDownlink :: "(string \<times> int) list"
  trInboundUplink :: "(string \<times> int) list"
  trInboundDownlink :: "(string \<times> int) list"
  trTotalUplink :: int
  trTotalDownlink :: int
  trCoreUsage :: "CoreUsageEntry list"

text \<open>The local maps of the function; \<open>taHidden\<close> is the record's own.\<close>

record tally =
  taUsers :: "(string \<times> trafficBytes) list"
  taDailyUsers :: "((nat \<times> string) \<times> trafficBytes) list"
  taDailyNode :: "(nat \<times> trafficBytes) list"
  taOutbounds :: "(string \<times> trafficBytes) list"
  taCoreTraffic :: "(string \<times> (string \<times> int) list) list"
  taActiveInbounds :: "string list"
  taTunnels :: "(nat \<times> tunnelBytes) list"
  taLinks :: "(nat \<times> tunnelBytes) list"
  taNodeBytes :: trafficBytes
  taThrough :: int
  taHidden :: trafficBytes

definition tally_empty :: tally where
  "tally_empty = \<lparr>taUsers = [], taDailyUsers = [], taDailyNode = [], taOutbounds = [], taCoreTraffic = [],
     taActiveInbounds = [], taTunnels = [], taLinks = [], taNodeBytes = 0, taThrough = 0, taHidden = 0\<rparr>"

definition add_up :: "'k \<Rightarrow> int \<Rightarrow> ('k \<times> trafficBytes) list \<Rightarrow> ('k \<times> trafficBytes) list" where
  "add_up k n m = AList.update k (Bytes (wrap64 (tbUp (get m k) + n)) (tbDown (get m k))) m"

definition add_down :: "'k \<Rightarrow> int \<Rightarrow> ('k \<times> trafficBytes) list \<Rightarrow> ('k \<times> trafficBytes) list" where
  "add_down k n m = AList.update k (Bytes (tbUp (get m k)) (wrap64 (tbDown (get m k) + n))) m"

definition add_to :: "nat \<Rightarrow> int \<Rightarrow> (nat \<times> tunnelBytes) list \<Rightarrow> (nat \<times> tunnelBytes) list" where
  "add_to k n m = AList.update k (TunnelBytes (wrap64 (tnTo (get m k) + n)) (tnFrom (get m k))) m"

definition add_from :: "nat \<Rightarrow> int \<Rightarrow> (nat \<times> tunnelBytes) list \<Rightarrow> (nat \<times> tunnelBytes) list" where
  "add_from k n m = AList.update k (TunnelBytes (tnTo (get m k)) (wrap64 (tnFrom (get m k) + n))) m"

text \<open>\<open>time.Unix(ts, 0).UTC().Truncate(24 * time.Hour)\<close>, counted from Go's zero time.\<close>

definition unix_day :: "int \<Rightarrow> nat" where
  "unix_day ts = utc_day (nat ((ts + 62135596800) * 1000000000))"

definition tally_user_up :: "nat \<Rightarrow> string \<times> int \<Rightarrow> tally \<Rightarrow> tally" where
  "tally_user_up date kv t = (case kv of (email, bytes) \<Rightarrow>
     if IsReverseEmail email then
       (let t = t\<lparr>taHidden := Bytes (wrap64 (tbUp (taHidden t) + bytes)) (tbDown (taHidden t))\<rparr>
        in case ReverseTunnelIDFromEmail email of None \<Rightarrow> t
           | Some i \<Rightarrow> t\<lparr>taTunnels := add_from i bytes (taTunnels t)\<rparr>)
     else t\<lparr>taUsers := add_up email bytes (taUsers t), taDailyUsers := add_up (date, email) bytes (taDailyUsers t)\<rparr>)"

definition tally_user_down :: "nat \<Rightarrow> string \<times> int \<Rightarrow> tally \<Rightarrow> tally" where
  "tally_user_down date kv t = (case kv of (email, bytes) \<Rightarrow>
     if IsReverseEmail email then
       (let t = t\<lparr>taHidden := Bytes (tbUp (taHidden t)) (wrap64 (tbDown (taHidden t) + bytes))\<rparr>
        in case ReverseTunnelIDFromEmail email of None \<Rightarrow> t
           | Some i \<Rightarrow> t\<lparr>taTunnels := add_to i bytes (taTunnels t)\<rparr>)
     else t\<lparr>taUsers := add_down email bytes (taUsers t), taDailyUsers := add_down (date, email) bytes (taDailyUsers t)\<rparr>)"

definition tally_inbound :: "string \<times> int \<Rightarrow> tally \<Rightarrow> tally" where
  "tally_inbound kv t = (case kv of (tag, bytes) \<Rightarrow>
     if bytes > 0 then t\<lparr>taActiveInbounds := List.insert tag (taActiveInbounds t)\<rparr> else t)"

definition tally_core :: "CoreUsageEntry \<Rightarrow> tally \<Rightarrow> tally" where
  "tally_core usage t =
     (let byProtocol = (case map_of (taCoreTraffic t) (ceEmail usage) of None \<Rightarrow> [] | Some m \<Rightarrow> m);
          bytes = wrap64 (get byProtocol (ceProtocol usage) + wrap64 (ceUplink usage + ceDownlink usage))
      in t\<lparr>taCoreTraffic := AList.update (ceEmail usage) (AList.update (ceProtocol usage) bytes byProtocol) (taCoreTraffic t)\<rparr>)"

definition tally_node :: "nat \<Rightarrow> TrafficRecord \<Rightarrow> tally \<Rightarrow> tally" where
  "tally_node date r t =
     (let totalUp = max (wrap64 (trTotalUplink r - wrap64 (2 * tbUp (taHidden t)))) 0;
          totalDown = max (wrap64 (trTotalDownlink r - wrap64 (2 * tbDown (taHidden t)))) 0
      in if totalUp > 0 \<or> totalDown > 0 then
        t\<lparr>taNodeBytes := Bytes (wrap64 (tbUp (taNodeBytes t) + totalUp)) (wrap64 (tbDown (taNodeBytes t) + totalDown)),
          taDailyNode := add_down date totalDown (add_up date totalUp (taDailyNode t))\<rparr>
      else t)"

definition tally_outbound_up :: "string \<times> int \<Rightarrow> tally \<Rightarrow> tally" where
  "tally_outbound_up kv t = (case kv of (tag, bytes) \<Rightarrow>
     let t = (case ReverseTunnelIDFromLinkTag tag of None \<Rightarrow> t | Some i \<Rightarrow> t\<lparr>taLinks := add_from i bytes (taLinks t)\<rparr>)
     in if bytes > 0 then t\<lparr>taOutbounds := add_up tag bytes (taOutbounds t)\<rparr> else t)"

definition tally_outbound_down :: "string \<times> int \<Rightarrow> tally \<Rightarrow> tally" where
  "tally_outbound_down kv t = (case kv of (tag, bytes) \<Rightarrow>
     let t = (case ReverseTunnelIDFromLinkTag tag of None \<Rightarrow> t | Some i \<Rightarrow> t\<lparr>taLinks := add_to i bytes (taLinks t)\<rparr>)
     in if bytes > 0 then t\<lparr>taOutbounds := add_down tag bytes (taOutbounds t)\<rparr> else t)"

definition tally_record :: "TrafficRecord \<Rightarrow> tally \<Rightarrow> tally" where
  "tally_record r t =
     (let date = unix_day (trTimestamp r);
          t = t\<lparr>taThrough := (if trTimestamp r > taThrough t then trTimestamp r else taThrough t), taHidden := 0\<rparr>;
          t = fold (tally_user_up date) (trUserUplink r) t;
          t = fold (tally_user_down date) (trUserDownlink r) t;
          t = fold tally_inbound (trInboundUplink r) t;
          t = fold tally_inbound (trInboundDownlink r) t;
          t = fold tally_core (trCoreUsage r) t;
          t = tally_node date r t;
          t = fold tally_outbound_up (trOutboundUplink r) t
      in fold tally_outbound_down (trOutboundDownlink r) t)"

text \<open>\<^term>\<open>None\<close> at the first record that is nil or has no time.\<close>

fun tally_records :: "TrafficRecord option list \<Rightarrow> tally \<Rightarrow> tally option" where
  "tally_records [] t = Some t"
| "tally_records (None # rs) t = None"
| "tally_records (Some r # rs) t = (if trTimestamp r \<le> 0 then None else tally_records rs (tally_record r t))"

section \<open>Whose bytes they are\<close>

datatype booking_call =
    FindByConfigEmailsCall | ListTrafficRefsCall | ActivePeersCall nat | ListCoreRefsCall | ListReverseTunnelsCall
  | AddNodeTrafficCall | AddNodeDailyTrafficCall nat | AddOutboundTrafficCall string | AddReverseTunnelTrafficCall nat
  | AddDailyUsageSplitsCall | AddUsageDeltasCall | AddAccountDeltasCall | AddCoreUserDataCall | AddPeerUsageCall

text \<open>
  What the usecase is made of: \<open>tm\<close>, \<open>accountRepo\<close>, \<open>wgPeerSource\<close> and \<open>coreUsage\<close> may be nil. The
  column \<open>config_email\<close> and the inbound table are read only. \<open>beFails\<close> are the calls that fail.
\<close>

record booking_env =
  beTM :: bool
  beAccountRepo :: bool
  bePeerSource :: bool
  beCoreUsage :: bool
  beConfigEmail :: "nat \<Rightarrow> string"
  beInbounds :: "nat \<Rightarrow> Inbound option"
  beAccess :: "access_resolver option"
  beFails :: "booking_call \<Rightarrow> bool"

text \<open>The tables; \<open>bkRest\<close> is what the caller's own function writes in the transaction.\<close>

record 'w booking =
  bkPanel :: panel
  bkDaily :: daily_table
  bkNodes :: "(nat \<times> trafficBytes) list"
  bkNodeDaily :: "nat \<times> nat \<rightharpoonup> trafficBytes"
  bkOutbounds :: "((nat \<times> string) \<times> trafficBytes) list"
  bkTunnels :: "ReverseTunnel list"
  bkRest :: 'w

definition findByConfigEmailsChunkSize :: nat where "findByConfigEmailsChunkSize = 1000"

definition FindByConfigEmails :: "(nat \<Rightarrow> string) \<Rightarrow> string list \<Rightarrow> sub_table \<Rightarrow> (string \<times> Subscription) list" where
  "FindByConfigEmails configEmail emails t =
     (let unique = rev (remdups (rev (filter (\<lambda>e. e \<noteq> []) emails)))
      in fold (\<lambda>chunk out. fold (\<lambda>s. AList.update (configEmail (sbID s)) s)
           (filter (\<lambda>s. configEmail (sbID s) \<in> set chunk) t) out)
         (chunks findByConfigEmailsChunkSize unique) [])"

record AccountTrafficRef =
  afID :: nat
  afEmail :: string
  afInboundID :: nat
  afSubscriptionID :: nat
  afSource :: AccountSource
  afCreatedAt :: int

definition ListTrafficRefsByNode :: "(nat \<Rightarrow> Inbound option) \<Rightarrow> nat \<Rightarrow> acct_table \<Rightarrow> AccountTrafficRef list" where
  "ListTrafficRefsByNode inbounds nodeID t =
     map (\<lambda>a. \<lparr>afID = acID a, afEmail = acEmail a, afInboundID = acInboundID a,
        afSubscriptionID = (case acSubscriptionID a of None \<Rightarrow> 0 | Some i \<Rightarrow> i), afSource = acSource a, afCreatedAt = acCreatedAt a\<rparr>)
       (filter (\<lambda>a. \<not> acDeleted a \<and> map_option inNodeID (inbounds (acInboundID a)) = Some nodeID) t)"

definition newest_account :: "AccountTrafficRef \<Rightarrow> ((nat \<times> nat) \<times> AccountTrafficRef) list \<Rightarrow> ((nat \<times> nat) \<times> AccountTrafficRef) list" where
  "newest_account ref m =
     (let key = (afSubscriptionID ref, afInboundID ref);
          newer = (case map_of m key of None \<Rightarrow> True | Some previous \<Rightarrow> afID previous = 0
             \<or> afCreatedAt ref > afCreatedAt previous \<or> (afCreatedAt ref = afCreatedAt previous \<and> afID ref > afID previous))
      in if afSubscriptionID ref \<noteq> 0 \<and> afSource ref \<noteq> SourceAdminExcluded \<and> newer then AList.update key ref m else m)"

record wgRef =
  wrSubID :: nat
  wrPeerID :: nat
  wrInboundID :: nat

definition wgEmailKey :: "string \<Rightarrow> string \<Rightarrow> string" where
  "wgEmailKey inboundTag ip = ''wg:'' @ inboundTag @ '':'' @ ip"

definition buildWGIndex :: "(string \<times> WGRenderPeer list) list \<Rightarrow> (string \<times> wgRef) list" where
  "buildWGIndex peersByInboundTag =
     fold (\<lambda>(tag, peers). fold (\<lambda>p. AList.update (wgEmailKey tag (rpAllowedIP p))
         \<lparr>wrSubID = rpSubscriptionID p, wrPeerID = rpPeerID p, wrInboundID = rpInboundID p\<rparr>) peers) peersByInboundTag []"

text \<open>The peers of the WireGuard inbounds the batch has traffic of.\<close>

fun wg_peers_of :: "booking_env \<Rightarrow> wg_table \<Rightarrow> string list \<Rightarrow> Inbound list \<Rightarrow> (string \<times> WGRenderPeer list) list
    \<Rightarrow> booking_call + (string \<times> WGRenderPeer list) list" where
  "wg_peers_of env t emails [] peers = Inr peers"
| "wg_peers_of env t emails (i # is) peers =
     (if \<not> is_wireguard (inProtocol i) then wg_peers_of env t emails is peers
      else if \<not> list_ex (\<lambda>e. has_prefix e (''wg:'' @ inTag i @ '':'')) emails then wg_peers_of env t emails is peers
      else if beFails env (ActivePeersCall (inID i)) then Inl (ActivePeersCall (inID i))
      else wg_peers_of env t emails is (AList.update (inTag i) (ActivePeersByInbound (beAccess env) (inID i) t) peers))"

record CoreTrafficRef =
  cfID :: nat
  cfSubscriptionID :: nat
  cfProtocol :: string

definition proto_name :: "CoreProtocol \<Rightarrow> string" where
  "proto_name p = (case p of CoreProtoSSH \<Rightarrow> ''ssh'' | CoreProtoMTProto \<Rightarrow> ''mtproto'')"

text \<open>The join drops a user whose inbound is gone; a NULL subscription reads as 0.\<close>

definition ListCoreTrafficRefsByNode :: "nat \<Rightarrow> core_tables \<Rightarrow> CoreTrafficRef list" where
  "ListCoreTrafficRefsByNode nodeID t = List.map_filter (\<lambda>u.
     case FindInboundByID (cuCoreInboundID u) t of None \<Rightarrow> None
     | Some i \<Rightarrow> if ciNodeID i = nodeID
        then Some \<lparr>cfID = cuID u, cfSubscriptionID = (case cuSubscriptionID u of None \<Rightarrow> 0 | Some s \<Rightarrow> s), cfProtocol = proto_name (ciProtocol i)\<rparr>
        else None) (sort_key cuID (crUsers t))"

record attribution =
  atSubs :: "(string \<times> Subscription) list"
  atMatched :: "string \<Rightarrow> nat list"
  atAccounts :: "((nat \<times> nat) \<times> AccountTrafficRef) list"
  atWG :: "(string \<times> wgRef) list"
  atCores :: "CoreTrafficRef list"

definition matchedByEmail :: "string list \<Rightarrow> Inbound list \<Rightarrow> AccountTrafficRef list \<Rightarrow> string \<Rightarrow> nat list" where
  "matchedByEmail active inbounds refs email =
     (let activeInboundIDs = map inID (filter (\<lambda>i. inTag i \<in> set active) inbounds)
      in map afID (filter (\<lambda>r. afInboundID r \<in> set activeInboundIDs \<and> afEmail r = email) refs))"

definition needsCoreRefs :: "tally \<Rightarrow> attribution \<Rightarrow> bool" where
  "needsCoreRefs t at = list_ex (\<lambda>(email, b). wrap64 (tbUp b + tbDown b) > 0 \<and> map_of (atSubs at) email \<noteq> None
     \<and> map_of (atWG at) email = None
     \<and> ((case map_of (taCoreTraffic t) email of None \<Rightarrow> False | Some m \<Rightarrow> m \<noteq> []) \<or> atMatched at email = [])) (taUsers t)"

definition resolve_accounts :: "booking_env \<Rightarrow> nat \<Rightarrow> Inbound list \<Rightarrow> tally \<Rightarrow> 'w booking \<Rightarrow> booking_call + AccountTrafficRef list" where
  "resolve_accounts env nodeID inbounds t st =
     (if taUsers t \<noteq> [] \<and> beAccountRepo env \<and> inbounds \<noteq> [] then
        if beFails env ListTrafficRefsCall then Inl ListTrafficRefsCall
        else Inr (ListTrafficRefsByNode (beInbounds env) nodeID (asRows (pnAccts (bkPanel st))))
      else Inr [])"

definition resolve_peers :: "booking_env \<Rightarrow> Inbound list \<Rightarrow> tally \<Rightarrow> 'w booking \<Rightarrow> booking_call + (string \<times> wgRef) list" where
  "resolve_peers env inbounds t st =
     (if bePeerSource env then
        case wg_peers_of env (dsTable (pnDevs (bkPanel st))) (map fst (taUsers t)) inbounds [] of
          Inl e \<Rightarrow> Inl e | Inr peers \<Rightarrow> Inr (buildWGIndex peers)
      else Inr [])"

definition resolve_cores :: "booking_env \<Rightarrow> nat \<Rightarrow> tally \<Rightarrow> attribution \<Rightarrow> 'w booking \<Rightarrow> booking_call + CoreTrafficRef list" where
  "resolve_cores env nodeID t at st =
     (if beCoreUsage env \<and> needsCoreRefs t at then
        if beFails env ListCoreRefsCall then Inl ListCoreRefsCall
        else Inr (ListCoreTrafficRefsByNode nodeID (pnCores (bkPanel st)))
      else Inr [])"

definition resolve :: "booking_env \<Rightarrow> nat \<Rightarrow> Inbound list \<Rightarrow> tally \<Rightarrow> 'w booking \<Rightarrow> booking_call + attribution" where
  "resolve env nodeID inbounds t st =
     (if beFails env FindByConfigEmailsCall then Inl FindByConfigEmailsCall
      else let subs = FindByConfigEmails (beConfigEmail env) (sort (map fst (taUsers t))) (pnSubs (bkPanel st)) in
      case resolve_accounts env nodeID inbounds t st of Inl e \<Rightarrow> Inl e
      | Inr refs \<Rightarrow> (case resolve_peers env inbounds t st of Inl e \<Rightarrow> Inl e
      | Inr wg \<Rightarrow> let at = \<lparr>atSubs = subs, atMatched = matchedByEmail (taActiveInbounds t) inbounds refs,
           atAccounts = fold newest_account refs [], atWG = wg, atCores = []\<rparr> in
        (case resolve_cores env nodeID t at st of Inl e \<Rightarrow> Inl e
         | Inr cores \<Rightarrow> Inr (at\<lparr>atCores := cores\<rparr>))))"


section \<open>What is added to which row\<close>

definition daily_deltas :: "tally \<Rightarrow> attribution \<Rightarrow> DailyUsageDelta list" where
  "daily_deltas t at = List.map_filter (\<lambda>((date, email), b).
     if tbUp b = 0 \<and> tbDown b = 0 then None
     else (case map_of (atWG at) email of
        Some ref \<Rightarrow> Some \<lparr>ddSubscriptionID = wrSubID ref, ddDate = date, ddUpload = tbUp b, ddDownload = tbDown b\<rparr>
      | None \<Rightarrow> (case map_of (atSubs at) email of
          Some sub \<Rightarrow> Some \<lparr>ddSubscriptionID = sbID sub, ddDate = date, ddUpload = tbUp b, ddDownload = tbDown b\<rparr>
        | None \<Rightarrow> None))) (taDailyUsers t)"

record deltas =
  dlSubs :: "UsageDelta list"
  dlAccounts :: "AccUsageDelta list"
  dlCores :: "CoreUsageDelta list"
  dlPeers :: "WGUsageDelta list"

definition no_deltas :: deltas where
  "no_deltas = \<lparr>dlSubs = [], dlAccounts = [], dlCores = [], dlPeers = []\<rparr>"

definition append_deltas :: "deltas \<Rightarrow> deltas \<Rightarrow> deltas" where
  "append_deltas d e = \<lparr>dlSubs = dlSubs d @ dlSubs e, dlAccounts = dlAccounts d @ dlAccounts e,
     dlCores = dlCores d @ dlCores e, dlPeers = dlPeers d @ dlPeers e\<rparr>"

text \<open>One share for each of the ids; tunnel users get no empty share.\<close>

definition account_shares :: "nat \<Rightarrow> int \<Rightarrow> nat list \<Rightarrow> AccUsageDelta list" where
  "account_shares now bytes ids =
     (let share = go_quot bytes (int (length ids))
      in map (\<lambda>i. \<lparr>auAccountID = i, auBytes = share, auLastActive = now\<rparr>) ids)"

definition core_shares :: "int \<Rightarrow> nat list \<Rightarrow> CoreUsageDelta list" where
  "core_shares bytes ids =
     (let share = go_quot bytes (int (length ids))
      in if ids \<noteq> [] \<and> share > 0 then map (\<lambda>i. \<lparr>cdCoreUserID = i, cdBytes = share\<rparr>) ids else [])"

definition core_deltas :: "tally \<Rightarrow> attribution \<Rightarrow> string \<Rightarrow> nat \<Rightarrow> int \<Rightarrow> CoreUsageDelta list" where
  "core_deltas t at email subID bytes =
     (let byProtocol = (case map_of (taCoreTraffic t) email of None \<Rightarrow> [] | Some m \<Rightarrow> m);
          tagged = concat (map (\<lambda>(protocol, n). if n \<le> 0 then []
            else core_shares n (map cfID (filter (\<lambda>r. cfSubscriptionID r = subID \<and> cfProtocol r = protocol) (atCores at)))) byProtocol)
      in if byProtocol \<noteq> [] then tagged
         else if atMatched at email \<noteq> [] then []
         else core_shares bytes (map cfID (filter (\<lambda>r. cfSubscriptionID r = subID) (atCores at))))"

definition email_deltas :: "booking_env \<Rightarrow> nat \<Rightarrow> tally \<Rightarrow> attribution \<Rightarrow> string \<Rightarrow> deltas" where
  "email_deltas env now t at email =
     (let b = get (taUsers t) email; total = wrap64 (tbUp b + tbDown b) in
      if total \<le> 0 then no_deltas
      else case map_of (atWG at) email of
        Some ref \<Rightarrow> no_deltas\<lparr>
          dlSubs := [\<lparr>suSubscriptionID = wrSubID ref, suUpload = tbUp b, suDownload = tbDown b, suLastActive = now\<rparr>],
          dlPeers := [\<lparr>duPeerID = wrPeerID ref, duUpload = tbUp b, duDownload = tbDown b, duLastSeen = now\<rparr>],
          dlAccounts := (case map_of (atAccounts at) (wrSubID ref, wrInboundID ref) of
             None \<Rightarrow> []
           | Some a \<Rightarrow> if afID a \<noteq> 0 then [\<lparr>auAccountID = afID a, auBytes = total, auLastActive = now\<rparr>] else [])\<rparr>
      | None \<Rightarrow> (case map_of (atSubs at) email of
          None \<Rightarrow> no_deltas
        | Some sub \<Rightarrow> no_deltas\<lparr>
            dlSubs := [\<lparr>suSubscriptionID = sbID sub, suUpload = tbUp b, suDownload = tbDown b, suLastActive = now\<rparr>],
            dlAccounts := account_shares now total (atMatched at email),
            dlCores := (if beCoreUsage env then core_deltas t at email (sbID sub) total else [])\<rparr>))"

definition all_deltas :: "booking_env \<Rightarrow> nat \<Rightarrow> tally \<Rightarrow> attribution \<Rightarrow> deltas" where
  "all_deltas env now t at =
     foldl (\<lambda>d email. append_deltas d (email_deltas env now t at email)) no_deltas (sort (map fst (taUsers t)))"

definition ListReverseTunnelsByNode :: "nat \<Rightarrow> ReverseTunnel list \<Rightarrow> ReverseTunnel list" where
  "ListReverseTunnelsByNode nodeID ts = sort_key rtID
     (filter (\<lambda>r. \<not> rtDeleted r \<and> (rtPortalNodeID r = Some nodeID \<or> rtBridgeNodeID r = Some nodeID)) ts)"

text \<open>A bridge's own counters are used where the portal is not the panel's.\<close>

definition merge_links :: "booking_env \<Rightarrow> nat \<Rightarrow> tally \<Rightarrow> ReverseTunnel list \<Rightarrow> (nat \<times> tunnelBytes) list" where
  "merge_links env nodeID t ts =
     (if taLinks t = [] \<or> beFails env ListReverseTunnelsCall then taTunnels t
      else fold (\<lambda>r m. case map_of (taLinks t) (rtID r) of
          None \<Rightarrow> m
        | Some b \<Rightarrow> if rtPortalNodeID r = None then add_from (rtID r) (tnFrom b) (add_to (rtID r) (tnTo b) m) else m)
        (ListReverseTunnelsByNode nodeID ts) (taTunnels t))"

section \<open>The transaction\<close>

definition AddNodeTraffic :: "nat \<Rightarrow> trafficBytes \<Rightarrow> 'w booking \<Rightarrow> 'w booking" where
  "AddNodeTraffic nodeID b st =
     st\<lparr>bkNodes := update_row fst nodeID (\<lambda>(i, c). (i, Bytes (tbUp c + tbUp b) (tbDown c + tbDown b))) (bkNodes st)\<rparr>"

definition AddNodeDailyTraffic :: "nat \<Rightarrow> nat \<Rightarrow> trafficBytes \<Rightarrow> 'w booking \<Rightarrow> 'w booking" where
  "AddNodeDailyTraffic nodeID date b st =
     st\<lparr>bkNodeDaily := (bkNodeDaily st)((nodeID, date) \<mapsto> (case bkNodeDaily st (nodeID, date) of
        None \<Rightarrow> b | Some c \<Rightarrow> Bytes (tbUp c + tbUp b) (tbDown c + tbDown b)))\<rparr>"

definition AddOutboundTraffic :: "nat \<Rightarrow> string \<Rightarrow> trafficBytes \<Rightarrow> 'w booking \<Rightarrow> 'w booking" where
  "AddOutboundTraffic nodeID tag b st =
     st\<lparr>bkOutbounds := update_row fst (nodeID, tag) (\<lambda>(i, c). (i, Bytes (tbUp c + tbUp b) (tbDown c + tbDown b))) (bkOutbounds st)\<rparr>"

definition AddReverseTunnelTraffic :: "nat \<Rightarrow> tunnelBytes \<Rightarrow> 'w booking \<Rightarrow> 'w booking" where
  "AddReverseTunnelTraffic i b st =
     st\<lparr>bkTunnels := update_row rtID i (\<lambda>r. if rtDeleted r then r
        else r\<lparr>rtToBridge := rtToBridge r + tnTo b, rtFromBridge := rtFromBridge r + tnFrom b\<rparr>) (bkTunnels st)\<rparr>"

definition on_panel :: "(panel \<Rightarrow> panel) \<Rightarrow> 'w booking \<Rightarrow> 'w booking" where
  "on_panel f st = st\<lparr>bkPanel := f (bkPanel st)\<rparr>"

definition book_subs :: "UsageDelta list \<Rightarrow> panel \<Rightarrow> panel" where
  "book_subs ds p = p\<lparr>pnSubs := AddUsageDeltas ds (pnSubs p)\<rparr>"

definition book_accounts :: "AccUsageDelta list \<Rightarrow> panel \<Rightarrow> panel" where
  "book_accounts ds p = p\<lparr>pnAccts := (pnAccts p)\<lparr>asRows := acc_AddUsageDeltas ds (asRows (pnAccts p))\<rparr>\<rparr>"

definition book_cores :: "CoreUsageDelta list \<Rightarrow> panel \<Rightarrow> panel" where
  "book_cores ds p = p\<lparr>pnCores := AddCoreUserDataBatch ds (pnCores p)\<rparr>"

definition book_peers :: "WGUsageDelta list \<Rightarrow> panel \<Rightarrow> panel" where
  "book_peers ds p = p\<lparr>pnDevs := (pnDevs p)\<lparr>dsTable := AddUsageBatch ds (dsTable (pnDevs p))\<rparr>\<rparr>"

text \<open>The writes in the order of the transaction, each with the call it is.\<close>

definition booking_steps ::
    "nat \<Rightarrow> tally \<Rightarrow> (nat \<times> tunnelBytes) list \<Rightarrow> DailyUsageDelta list \<Rightarrow> deltas
      \<Rightarrow> (booking_call \<times> ('w booking \<Rightarrow> 'w booking)) list" where
  "booking_steps nodeID t tunnels daily dl =
     (if tbUp (taNodeBytes t) > 0 \<or> tbDown (taNodeBytes t) > 0
      then [(AddNodeTrafficCall, AddNodeTraffic nodeID (taNodeBytes t))] else [])
     @ map (\<lambda>date. (AddNodeDailyTrafficCall date, AddNodeDailyTraffic nodeID date (get (taDailyNode t) date)))
         (sort (map fst (taDailyNode t)))
     @ map (\<lambda>tag. (AddOutboundTrafficCall tag, AddOutboundTraffic nodeID tag (get (taOutbounds t) tag)))
         (sort (map fst (taOutbounds t)))
     @ map (\<lambda>i. (AddReverseTunnelTrafficCall i, AddReverseTunnelTraffic i (get tunnels i)))
         (sort (map fst (filter (\<lambda>(i, b). tnTo b > 0 \<or> tnFrom b > 0) tunnels)))
     @ (if daily \<noteq> [] then [(AddDailyUsageSplitsCall, \<lambda>st. st\<lparr>bkDaily := AddDailyUsageSplits daily (bkDaily st)\<rparr>)] else [])
     @ (if dlSubs dl \<noteq> [] then [(AddUsageDeltasCall, on_panel (book_subs (dlSubs dl)))] else [])
     @ (if dlAccounts dl \<noteq> [] then [(AddAccountDeltasCall, on_panel (book_accounts (dlAccounts dl)))] else [])
     @ (if dlCores dl \<noteq> [] then [(AddCoreUserDataCall, on_panel (book_cores (dlCores dl)))] else [])
     @ (if dlPeers dl \<noteq> [] then [(AddPeerUsageCall, on_panel (book_peers (dlPeers dl)))] else [])"

fun run_steps :: "('c \<Rightarrow> bool) \<Rightarrow> ('c \<times> ('s \<Rightarrow> 's)) list \<Rightarrow> 's \<Rightarrow> 'c + 's" where
  "run_steps fails [] st = Inr st"
| "run_steps fails ((c, f) # steps) st = (if fails c then Inl c else run_steps fails steps (f st))"

datatype booking_error =
    NoTransactionManager | InvalidTimestamp | CallFailed booking_call | InTxFailed | NodeNotFound | SyncCanceled

text \<open>\<open>inTx\<close> is the caller's part of the transaction; \<^term>\<open>None\<close> when it fails.\<close>

definition persistBufferedTrafficThen ::
    "booking_env \<Rightarrow> nat \<Rightarrow> Inbound list \<Rightarrow> nat \<Rightarrow> TrafficRecord option list \<Rightarrow> ('w \<Rightarrow> 'w option) option
      \<Rightarrow> 'w booking \<Rightarrow> (booking_error + int) \<times> 'w booking" where
  "persistBufferedTrafficThen env nodeID inbounds now records inTx st =
     (if records = [] then (Inr 0, st)
      else if \<not> beTM env then (Inl NoTransactionManager, st)
      else case tally_records records tally_empty of
        None \<Rightarrow> (Inl InvalidTimestamp, st)
      | Some t \<Rightarrow> (case resolve env nodeID inbounds t st of
          Inl c \<Rightarrow> (Inl (CallFailed c), st)
        | Inr at \<Rightarrow>
            (case run_steps (beFails env) (booking_steps nodeID t (merge_links env nodeID t (bkTunnels st))
                 (daily_deltas t at) (all_deltas env now t at)) st of
              Inl c \<Rightarrow> (Inl (CallFailed c), st)
            | Inr st' \<Rightarrow> (case inTx of
                None \<Rightarrow> (Inr (taThrough t), st')
              | Some f \<Rightarrow> (case f (bkRest st') of
                  None \<Rightarrow> (Inl InTxFailed, st)
                | Some w \<Rightarrow> (Inr (taThrough t), st'\<lparr>bkRest := w\<rparr>))))))"

definition persistBufferedTraffic ::
    "booking_env \<Rightarrow> nat \<Rightarrow> Inbound list \<Rightarrow> nat \<Rightarrow> TrafficRecord option list \<Rightarrow> 'w booking \<Rightarrow> (booking_error + int) \<times> 'w booking" where
  "persistBufferedTraffic env nodeID inbounds now records st = persistBufferedTrafficThen env nodeID inbounds now records None st"


text \<open>\<open>IngestTraffic\<close>: the node with its inbounds is loaded first; \<open>acquired\<close> is whether the gate was taken.\<close>

definition IngestTraffic ::
    "booking_env \<Rightarrow> (nat \<Rightarrow> Inbound list option) \<Rightarrow> bool \<Rightarrow> nat \<Rightarrow> nat \<Rightarrow> TrafficRecord option list \<Rightarrow> ('w \<Rightarrow> 'w option) option
      \<Rightarrow> 'w booking \<Rightarrow> (booking_error + int) \<times> 'w booking" where
  "IngestTraffic env nodes acquired nodeID now records inTx st =
     (if records = [] then (Inr 0, st)
      else case nodes nodeID of
        None \<Rightarrow> (Inl NodeNotFound, st)
      | Some inbounds \<Rightarrow> if \<not> acquired then (Inl SyncCanceled, st)
          else persistBufferedTrafficThen env nodeID inbounds now records inTx st)"

section \<open>The sums are the bytes of the records\<close>

definition bytes_of :: "('k \<Rightarrow> bool) \<Rightarrow> ('k \<times> int) list \<Rightarrow> int" where
  "bytes_of P m = (\<Sum>(k, n) \<leftarrow> m. if P k then n else 0)"

lemma bytes_of_simps [simp]:
  "bytes_of P [] = 0" "bytes_of P ((k, n) # m) = (if P k then n else 0) + bytes_of P m"
  by (simp_all add: bytes_of_def)

lemma bytes_of_none [simp]: "bytes_of (\<lambda>k. False) m = 0"
  by (induction m) auto

lemma bytes_of_nonneg: "list_all (\<lambda>(k, n). 0 \<le> n) m \<Longrightarrow> 0 \<le> bytes_of P m"
  by (induction m) auto

lemma bytes_of_mono:
  "list_all (\<lambda>(k, n). 0 \<le> n) m \<Longrightarrow> (\<And>k. P k \<Longrightarrow> Q k) \<Longrightarrow> bytes_of P m \<le> bytes_of Q m"
  by (induction m) auto

lemma wrap64_add: "wrap64 (wrap64 a + b) = wrap64 (a + b)"
  using mod_add_left_eq [of "a + 2 ^ 63" "2 ^ 64" b] by (simp add: wrap64_def algebra_simps)

lemma wrap64_twice [simp]: "wrap64 (wrap64 a) = wrap64 a"
  using wrap64_add [of a 0] by simp

lemma wrap64_0 [simp]: "wrap64 0 = 0"
  by (simp add: wrap64_def)

text \<open>A loop that adds the bytes of some keys to a counter.\<close>

lemma fold_adds:
  assumes step: "\<And>k n t. val (f (k, n) t) = (if P k then wrap64 (val t + n) else val t)" and w: "wrap64 (val t) = val t"
  shows "val (fold f m t) = wrap64 (val t + bytes_of P m)"
  using w
proof (induction m arbitrary: t)
  case (Cons kn m)
  obtain k n where kn: "kn = (k, n)" by fastforce
  have "wrap64 (val (f kn t)) = val (f kn t)" using Cons.prems by (simp add: kn step)
  then show ?case using Cons.IH [of "f kn t"] by (simp add: kn step wrap64_add add.assoc)
qed simp

lemma fold_keeps:
  assumes "\<And>k t. val (f k t) = val t"
  shows "val (fold f m t) = val t"
  by (induction m arbitrary: t) (simp_all add: assms)

lemma zero_bytes [simp]: "tbUp 0 = 0" "tbDown 0 = 0" "tnTo 0 = 0" "tnFrom 0 = 0"
  by (simp_all add: zero_trafficBytes_def zero_tunnelBytes_def)

lemma get_adds [simp]:
  "tbUp (get (add_up k n m) k') = (if k = k' then wrap64 (tbUp (get m k') + n) else tbUp (get m k'))"
  "tbDown (get (add_up k n m) k') = tbDown (get m k')"
  "tbUp (get (add_down k n m) k') = tbUp (get m k')"
  "tbDown (get (add_down k n m) k') = (if k = k' then wrap64 (tbDown (get m k') + n) else tbDown (get m k'))"
  by (auto simp: add_up_def add_down_def)

lemma keys_adds [simp]:
  "set (keys (add_up k n m)) = insert k (set (keys m))" "set (keys (add_down k n m)) = insert k (set (keys m))"
  "distinct (keys m) \<Longrightarrow> distinct (keys (add_up k n m))" "distinct (keys m) \<Longrightarrow> distinct (keys (add_down k n m))"
  by (simp_all add: add_up_def add_down_def dom_update del: set_map)

text \<open>The later loops of a record do not touch the users.\<close>

definition users_part :: "tally \<Rightarrow> (string \<times> trafficBytes) list \<times> ((nat \<times> string) \<times> trafficBytes) list" where
  "users_part t = (taUsers t, taDailyUsers t)"

lemma users_part_keeps [simp]:
  "users_part (tally_inbound kv t) = users_part t" "users_part (tally_core u t) = users_part t"
  "users_part (tally_node d r t) = users_part t"
  "users_part (tally_outbound_up kv t) = users_part t" "users_part (tally_outbound_down kv t) = users_part t"
  by (simp_all add: users_part_def tally_inbound_def tally_core_def tally_node_def tally_outbound_up_def
      tally_outbound_down_def Let_def split: prod.split option.split)

definition users_of_record :: "TrafficRecord \<Rightarrow> tally \<Rightarrow> tally" where
  "users_of_record r t = fold (tally_user_down (unix_day (trTimestamp r))) (trUserDownlink r)
     (fold (tally_user_up (unix_day (trTimestamp r))) (trUserUplink r) t)"

lemma users_part_record: "\<exists>t'. users_part t' = users_part t \<and> users_part (tally_record r t) = users_part (users_of_record r t')"
  by (rule exI [of _ "t\<lparr>taThrough := (if trTimestamp r > taThrough t then trTimestamp r else taThrough t), taHidden := 0\<rparr>"])
     (simp add: tally_record_def users_of_record_def Let_def fold_keeps [where val = users_part], simp add: users_part_def)

text \<open>The bytes a record has of a customer.\<close>

abbreviation of_user :: "string \<Rightarrow> string \<Rightarrow> bool" where
  "of_user e k \<equiv> \<not> IsReverseEmail k \<and> k = e"

lemma user_loops:
  "wrap64 (tbUp (get (taUsers t) e)) = tbUp (get (taUsers t) e) \<Longrightarrow>
    tbUp (get (taUsers (fold (tally_user_up d) m t)) e) = wrap64 (tbUp (get (taUsers t) e) + bytes_of (of_user e) m)"
  "wrap64 (tbDown (get (taUsers t) e)) = tbDown (get (taUsers t) e) \<Longrightarrow>
    tbDown (get (taUsers (fold (tally_user_down d) m t)) e) = wrap64 (tbDown (get (taUsers t) e) + bytes_of (of_user e) m)"
  "tbDown (get (taUsers (fold (tally_user_up d) m t)) e) = tbDown (get (taUsers t) e)"
  "tbUp (get (taUsers (fold (tally_user_down d) m t)) e) = tbUp (get (taUsers t) e)"
  by (rule fold_adds [where val = "\<lambda>t. tbUp (get (taUsers t) e)"] fold_adds [where val = "\<lambda>t. tbDown (get (taUsers t) e)"]
      fold_keeps [where val = "\<lambda>t. tbUp (get (taUsers t) e)"] fold_keeps [where val = "\<lambda>t. tbDown (get (taUsers t) e)"];
      auto simp: tally_user_up_def tally_user_down_def Let_def split: option.split prod.split)+


lemma daily_loops:
  "wrap64 (tbUp (get (taDailyUsers t) (d', e))) = tbUp (get (taDailyUsers t) (d', e)) \<Longrightarrow>
    tbUp (get (taDailyUsers (fold (tally_user_up d) m t)) (d', e))
      = wrap64 (tbUp (get (taDailyUsers t) (d', e)) + bytes_of (\<lambda>k. of_user e k \<and> d = d') m)"
  "wrap64 (tbDown (get (taDailyUsers t) (d', e))) = tbDown (get (taDailyUsers t) (d', e)) \<Longrightarrow>
    tbDown (get (taDailyUsers (fold (tally_user_down d) m t)) (d', e))
      = wrap64 (tbDown (get (taDailyUsers t) (d', e)) + bytes_of (\<lambda>k. of_user e k \<and> d = d') m)"
  "tbDown (get (taDailyUsers (fold (tally_user_up d) m t)) k) = tbDown (get (taDailyUsers t) k)"
  "tbUp (get (taDailyUsers (fold (tally_user_down d) m t)) k) = tbUp (get (taDailyUsers t) k)"
  by (rule fold_adds [where val = "\<lambda>t. tbUp (get (taDailyUsers t) (d', e))"]
      fold_adds [where val = "\<lambda>t. tbDown (get (taDailyUsers t) (d', e))"]
      fold_keeps [where val = "\<lambda>t. tbUp (get (taDailyUsers t) k)"] fold_keeps [where val = "\<lambda>t. tbDown (get (taDailyUsers t) k)"];
      auto simp: tally_user_up_def tally_user_down_def Let_def split: option.split prod.split)+

lemma fold_sums:
  assumes step: "\<And>r t. wrap64 (val t) = val t \<Longrightarrow> val (f r t) = wrap64 (val t + g r)" and w: "wrap64 (val t) = val t"
  shows "val (fold f rs t) = wrap64 (val t + (\<Sum>r \<leftarrow> rs. g r))"
  using w
proof (induction rs arbitrary: t)
  case (Cons r rs)
  have "val (f r t) = wrap64 (val t + g r)" using step Cons.prems by blast
  then show ?case using Cons.IH [of "f r t"] by (simp add: wrap64_add add.assoc)
qed simp

lemma record_part:
  obtains t' where "taUsers t' = taUsers t" "taDailyUsers t' = taDailyUsers t"
    "taUsers (tally_record r t) = taUsers (users_of_record r t')"
    "taDailyUsers (tally_record r t) = taDailyUsers (users_of_record r t')"
  using users_part_record [of t r] by (auto simp: users_part_def)

lemma users_record:
  "wrap64 (tbUp (get (taUsers t) e)) = tbUp (get (taUsers t) e) \<Longrightarrow>
    tbUp (get (taUsers (tally_record r t)) e) = wrap64 (tbUp (get (taUsers t) e) + bytes_of (of_user e) (trUserUplink r))"
  "wrap64 (tbDown (get (taUsers t) e)) = tbDown (get (taUsers t) e) \<Longrightarrow>
    tbDown (get (taUsers (tally_record r t)) e) = wrap64 (tbDown (get (taUsers t) e) + bytes_of (of_user e) (trUserDownlink r))"
  "wrap64 (tbUp (get (taDailyUsers t) (d, e))) = tbUp (get (taDailyUsers t) (d, e)) \<Longrightarrow>
    tbUp (get (taDailyUsers (tally_record r t)) (d, e)) = wrap64 (tbUp (get (taDailyUsers t) (d, e))
      + bytes_of (\<lambda>k. of_user e k \<and> unix_day (trTimestamp r) = d) (trUserUplink r))"
  "wrap64 (tbDown (get (taDailyUsers t) (d, e))) = tbDown (get (taDailyUsers t) (d, e)) \<Longrightarrow>
    tbDown (get (taDailyUsers (tally_record r t)) (d, e)) = wrap64 (tbDown (get (taDailyUsers t) (d, e))
      + bytes_of (\<lambda>k. of_user e k \<and> unix_day (trTimestamp r) = d) (trUserDownlink r))"
  by (rule record_part [of t r]; simp add: users_of_record_def user_loops daily_loops)+

text \<open>The bytes of the customers whose emails satisfy a predicate.\<close>

definition carried :: "(string \<Rightarrow> bool) \<Rightarrow> (TrafficRecord \<Rightarrow> (string \<times> int) list) \<Rightarrow> TrafficRecord list \<Rightarrow> int" where
  "carried P f rs = (\<Sum>r \<leftarrow> rs. bytes_of (\<lambda>k. \<not> IsReverseEmail k \<and> P k) (f r))"

abbreviation on_day :: "nat \<Rightarrow> TrafficRecord list \<Rightarrow> TrafficRecord list" where
  "on_day d rs \<equiv> filter (\<lambda>r. unix_day (trTimestamp r) = d) rs"

lemma carried_Nil [simp]: "carried P f [] = 0"
  by (simp add: carried_def)

lemma carried_on_day:
  "(\<Sum>r \<leftarrow> rs. bytes_of (\<lambda>k. \<not> IsReverseEmail k \<and> k = e \<and> unix_day (trTimestamp r) = d) (f r)) = carried (\<lambda>k. k = e) f (on_day d rs)"
  by (induction rs) (auto simp: carried_def)

lemma users_tallied:
  "tbUp (get (taUsers (fold tally_record rs tally_empty)) e) = wrap64 (carried (\<lambda>k. k = e) trUserUplink rs)"
  "tbDown (get (taUsers (fold tally_record rs tally_empty)) e) = wrap64 (carried (\<lambda>k. k = e) trUserDownlink rs)"
  using fold_sums [where val = "\<lambda>t. tbUp (get (taUsers t) e)" and t = tally_empty and rs = rs and f = tally_record, OF users_record(1)]
    fold_sums [where val = "\<lambda>t. tbDown (get (taUsers t) e)" and t = tally_empty and rs = rs and f = tally_record, OF users_record(2)]
  by (simp_all add: carried_def tally_empty_def)

lemma days_tallied:
  "tbUp (get (taDailyUsers (fold tally_record rs tally_empty)) (d, e)) = wrap64 (carried (\<lambda>k. k = e) trUserUplink (on_day d rs))"
  "tbDown (get (taDailyUsers (fold tally_record rs tally_empty)) (d, e)) = wrap64 (carried (\<lambda>k. k = e) trUserDownlink (on_day d rs))"
  using fold_sums [where val = "\<lambda>t. tbUp (get (taDailyUsers t) (d, e))" and t = tally_empty and rs = rs and f = tally_record, OF users_record(3)]
    fold_sums [where val = "\<lambda>t. tbDown (get (taDailyUsers t) (d, e))" and t = tally_empty and rs = rs and f = tally_record, OF users_record(4)]
  by (simp_all add: carried_on_day tally_empty_def)


section \<open>The emails of a batch\<close>

definition customers :: "(string \<times> int) list \<Rightarrow> string set" where
  "customers m = {k \<in> fst ` set m. \<not> IsReverseEmail k}"

lemma customers_simps [simp]:
  "customers [] = {}" "customers ((k, n) # m) = (if IsReverseEmail k then customers m else insert k (customers m))"
  by (auto simp: customers_def)

lemma keys_steps [simp]:
  "set (keys (taUsers (tally_user_up d (k, n) t))) = (if IsReverseEmail k then set (keys (taUsers t)) else insert k (set (keys (taUsers t))))"
  "set (keys (taUsers (tally_user_down d (k, n) t))) = (if IsReverseEmail k then set (keys (taUsers t)) else insert k (set (keys (taUsers t))))"
  "set (keys (taDailyUsers (tally_user_up d (k, n) t)))
    = (if IsReverseEmail k then set (keys (taDailyUsers t)) else insert (d, k) (set (keys (taDailyUsers t))))"
  "set (keys (taDailyUsers (tally_user_down d (k, n) t)))
    = (if IsReverseEmail k then set (keys (taDailyUsers t)) else insert (d, k) (set (keys (taDailyUsers t))))"
  by (simp_all add: tally_user_up_def tally_user_down_def Let_def del: set_map split: option.split)

lemma keys_loops:
  "set (keys (taUsers (fold (tally_user_up d) m t))) = set (keys (taUsers t)) \<union> customers m"
  "set (keys (taUsers (fold (tally_user_down d) m t))) = set (keys (taUsers t)) \<union> customers m"
  "set (keys (taDailyUsers (fold (tally_user_up d) m t))) = set (keys (taDailyUsers t)) \<union> Pair d ` customers m"
  "set (keys (taDailyUsers (fold (tally_user_down d) m t))) = set (keys (taDailyUsers t)) \<union> Pair d ` customers m"
  by (induction m arbitrary: t) (auto simp del: set_map split: if_splits)

lemma distinct_loops:
  "distinct (keys (taUsers t)) \<Longrightarrow> distinct (keys (taUsers (fold (tally_user_up d) m t)))"
  "distinct (keys (taUsers t)) \<Longrightarrow> distinct (keys (taUsers (fold (tally_user_down d) m t)))"
  "distinct (keys (taDailyUsers t)) \<Longrightarrow> distinct (keys (taDailyUsers (fold (tally_user_up d) m t)))"
  "distinct (keys (taDailyUsers t)) \<Longrightarrow> distinct (keys (taDailyUsers (fold (tally_user_down d) m t)))"
  by (induction m arbitrary: t)
     (auto simp: tally_user_up_def tally_user_down_def Let_def split: option.split)

lemma keys_record:
  "set (keys (taUsers (tally_record r t))) = set (keys (taUsers t)) \<union> customers (trUserUplink r) \<union> customers (trUserDownlink r)"
  "set (keys (taDailyUsers (tally_record r t))) = set (keys (taDailyUsers t))
    \<union> Pair (unix_day (trTimestamp r)) ` (customers (trUserUplink r) \<union> customers (trUserDownlink r))"
  by (rule record_part [of t r]; simp add: users_of_record_def keys_loops image_Un Un_assoc del: set_map)+

lemma distinct_record:
  "distinct (keys (taUsers t)) \<Longrightarrow> distinct (keys (taUsers (tally_record r t)))"
  "distinct (keys (taDailyUsers t)) \<Longrightarrow> distinct (keys (taDailyUsers (tally_record r t)))"
  by (rule record_part [of t r]; simp add: users_of_record_def distinct_loops)+

lemma distinct_tally:
  "distinct (keys (taUsers (fold tally_record rs tally_empty)))" "distinct (keys (taDailyUsers (fold tally_record rs tally_empty)))"
proof -
  have "distinct (keys (taUsers t)) \<Longrightarrow> distinct (keys (taUsers (fold tally_record rs t)))"
    "distinct (keys (taDailyUsers t)) \<Longrightarrow> distinct (keys (taDailyUsers (fold tally_record rs t)))" for t
    by (induction rs arbitrary: t) (simp_all add: distinct_record)
  then show "distinct (keys (taUsers (fold tally_record rs tally_empty)))"
    "distinct (keys (taDailyUsers (fold tally_record rs tally_empty)))" by (simp_all add: tally_empty_def)
qed

lemma keys_tally:
  "set (keys (taUsers (fold tally_record rs t)))
    = set (keys (taUsers t)) \<union> (\<Union>r \<in> set rs. customers (trUserUplink r) \<union> customers (trUserDownlink r))"
  "set (keys (taDailyUsers (fold tally_record rs t)))
    = set (keys (taDailyUsers t)) \<union> (\<Union>r \<in> set rs. Pair (unix_day (trTimestamp r)) ` (customers (trUserUplink r) \<union> customers (trUserDownlink r)))"
  by (induction rs arbitrary: t) (simp_all add: keys_record Un_assoc del: set_map)

text \<open>Adding up the sums of the emails is adding up the bytes.\<close>

lemma sum_one_key:
  fixes g :: "'k \<Rightarrow> int"
  assumes "distinct ks"
  shows "(\<Sum>e \<leftarrow> ks. if k = e then g e else 0) = (if k \<in> set ks then g k else 0)"
proof -
  have "k \<notin> set ks \<Longrightarrow> (\<Sum>e \<leftarrow> ks. if k = e then g e else 0) = 0" for ks by (induction ks) auto
  then show ?thesis using assms by (induction ks) auto
qed

lemma bytes_by_key:
  assumes "distinct ks" "customers m \<subseteq> set ks"
  shows "(\<Sum>e \<leftarrow> ks. if Q e then bytes_of (of_user e) m else 0) = bytes_of (\<lambda>k. \<not> IsReverseEmail k \<and> Q k) m"
  using assms(2)
proof (induction m)
  case (Cons kn m)
  obtain k n where kn: "kn = (k, n)" by fastforce
  have "(\<Sum>e \<leftarrow> ks. if k = e then if Q e \<and> \<not> IsReverseEmail k then n else 0 else 0) = (if \<not> IsReverseEmail k \<and> Q k then n else 0)"
    using Cons.prems by (auto simp: sum_one_key [OF assms(1)] kn)
  moreover have "(\<Sum>e \<leftarrow> ks. if Q e then bytes_of (of_user e) (kn # m) else 0)
      = (\<Sum>e \<leftarrow> ks. if k = e then if Q e \<and> \<not> IsReverseEmail k then n else 0 else 0) + (\<Sum>e \<leftarrow> ks. if Q e then bytes_of (of_user e) m else 0)"
    by (subst sum_list_addf [symmetric]) (rule arg_cong [of _ _ sum_list], auto simp: kn)
  ultimately show ?case using Cons by (auto simp: kn split: if_splits)
qed (simp cong: if_cong)

lemma carried_by_key:
  assumes "distinct ks" "\<And>r. r \<in> set rs \<Longrightarrow> customers (f r) \<subseteq> set ks"
  shows "(\<Sum>e \<leftarrow> ks. if Q e then carried (\<lambda>k. k = e) f rs else 0) = carried Q f rs"
  using assms(2)
proof (induction rs)
  case (Cons r rs)
  have "(\<Sum>e \<leftarrow> ks. if Q e then carried (\<lambda>k. k = e) f (r # rs) else 0)
      = (\<Sum>e \<leftarrow> ks. if Q e then bytes_of (of_user e) (f r) else 0) + (\<Sum>e \<leftarrow> ks. if Q e then carried (\<lambda>k. k = e) f rs else 0)"
    by (subst sum_list_addf [symmetric]) (rule arg_cong [of _ _ sum_list], auto simp: carried_def)
  then show ?case using Cons bytes_by_key [OF assms(1), of "f r" Q] by (simp add: carried_def)
qed (simp cong: if_cong)


section \<open>The owner of an email\<close>

text \<open>Rows later in a table win where emails are not unique.\<close>

definition last_such :: "('a \<Rightarrow> bool) \<Rightarrow> 'a list \<Rightarrow> 'a option" where
  "last_such P xs = (if filter P xs = [] then None else Some (last (filter P xs)))"

lemma last_such_append: "last_such P (xs @ ys) = (case last_such P ys of None \<Rightarrow> last_such P xs | Some y \<Rightarrow> Some y)"
  by (simp add: last_such_def)

lemma last_such_Some: "last_such P xs = Some x \<Longrightarrow> x \<in> set xs \<and> P x"
  unfolding last_such_def using last_in_set [of "filter P xs"] by (auto split: if_splits)

lemma map_of_fold_update:
  "map_of (fold (\<lambda>x. AList.update (k x) (v x)) xs m) e
    = (case last_such (\<lambda>x. k x = e) xs of None \<Rightarrow> map_of m e | Some x \<Rightarrow> Some (v x))"
proof (induction xs rule: rev_induct)
  case (snoc x xs)
  then show ?case by (auto simp: last_such_append update_conv' split: option.split) (simp_all add: last_such_def)
qed (simp add: last_such_def)

text \<open>The peers the statistics know by email, and the subscription an email is charged to.\<close>

definition wg_entries :: "booking_env \<Rightarrow> Inbound list \<Rightarrow> wg_table \<Rightarrow> (string \<times> WGRenderPeer) list" where
  "wg_entries env inbounds t = concat (map (\<lambda>i. map (Pair (inTag i)) (ActivePeersByInbound (beAccess env) (inID i) t))
     (filter (\<lambda>i. is_wireguard (inProtocol i)) inbounds))"

definition peer_of :: "booking_env \<Rightarrow> Inbound list \<Rightarrow> 'w booking \<Rightarrow> string \<Rightarrow> WGRenderPeer option" where
  "peer_of env inbounds st email =
     (if bePeerSource env then map_option snd (last_such (\<lambda>(tag, p). wgEmailKey tag (rpAllowedIP p) = email)
        (wg_entries env inbounds (dsTable (pnDevs (bkPanel st))))) else None)"

definition owner :: "booking_env \<Rightarrow> Inbound list \<Rightarrow> 'w booking \<Rightarrow> string \<Rightarrow> nat option" where
  "owner env inbounds st email =
     (case peer_of env inbounds st email of
        Some p \<Rightarrow> Some (rpSubscriptionID p)
      | None \<Rightarrow> if email = [] then None
          else map_option sbID (last_such (\<lambda>s. beConfigEmail env (sbID s) = email) (pnSubs (bkPanel st))))"

lemma FindByConfigEmails_chunks:
  "map_of (fold (\<lambda>chunk out. fold (\<lambda>s. AList.update (f (sbID s)) s) (filter (\<lambda>s. f (sbID s) \<in> set chunk) t) out) cs m) e
    = (if e \<in> set (concat cs) then (case last_such (\<lambda>s. f (sbID s) = e) t of None \<Rightarrow> map_of m e | Some s \<Rightarrow> Some s) else map_of m e)"
proof (induction cs arbitrary: m)
  case (Cons c cs)
  have "last_such (\<lambda>s. f (sbID s) = e) (filter (\<lambda>s. f (sbID s) \<in> set c) t)
      = (if e \<in> set c then last_such (\<lambda>s. f (sbID s) = e) t else None)"
    by (auto simp: last_such_def filter_empty_conv intro!: arg_cong [of _ _ last] filter_cong)
  then show ?case by (simp add: Cons.IH map_of_fold_update [where k = "\<lambda>s. f (sbID s)" and v = "\<lambda>s. s"] split: option.split)
qed simp

lemma FindByConfigEmails_finds:
  "map_of (FindByConfigEmails f emails t) e
    = (if e \<in> set emails \<and> e \<noteq> [] then last_such (\<lambda>s. f (sbID s) = e) t else None)"
  by (simp add: FindByConfigEmails_def FindByConfigEmails_chunks concat_chunks findByConfigEmailsChunkSize_def split: option.split)

text \<open>The inbounds that have traffic in the batch.\<close>

definition needed :: "string list \<Rightarrow> Inbound \<Rightarrow> bool" where
  "needed emails i \<longleftrightarrow> is_wireguard (inProtocol i) \<and> list_ex (\<lambda>e. has_prefix e (''wg:'' @ inTag i @ '':'')) emails"

lemma wg_peers_of_finds:
  "wg_peers_of env t emails is peers = Inr out \<Longrightarrow> distinct (map inTag (filter (\<lambda>i. is_wireguard (inProtocol i)) is))
    \<Longrightarrow> (\<And>i. i \<in> set is \<Longrightarrow> is_wireguard (inProtocol i) \<Longrightarrow> inTag i \<notin> set (keys peers))
    \<Longrightarrow> out = peers @ map (\<lambda>i. (inTag i, ActivePeersByInbound (beAccess env) (inID i) t)) (filter (needed emails) is)"
proof (induction env t emails "is" peers rule: wg_peers_of.induct)
  case (2 env t emails i "is" peers)
  show ?case
  proof (cases "needed emails i")
    case True
    let ?peers = "AList.update (inTag i) (ActivePeersByInbound (beAccess env) (inID i) t) peers"
    have w: "is_wireguard (inProtocol i)" "list_ex (\<lambda>e. has_prefix e (''wg:'' @ inTag i @ '':'')) emails"
      using True by (simp_all add: needed_def)
    then have ok: "\<not> beFails env (ActivePeersCall (inID i))" "wg_peers_of env t emails is ?peers = Inr out"
      using 2(4) by (auto split: if_splits)
    have "inTag j \<notin> set (keys ?peers)" if j: "j \<in> set is" "is_wireguard (inProtocol j)" for j
    proof -
      have "inTag i \<noteq> inTag j" using 2(5) w(1) j by auto
      then show ?thesis using 2(6) [of j] j by (simp add: dom_update)
    qed
    then have "out = ?peers @ map (\<lambda>i. (inTag i, ActivePeersByInbound (beAccess env) (inID i) t)) (filter (needed emails) is)"
      using 2(3) [OF _ _ ok(1) ok(2)] w 2(5) by simp
    moreover have "?peers = peers @ [(inTag i, ActivePeersByInbound (beAccess env) (inID i) t)]"
      using 2(6) [of i] w(1) by (intro update_fresh) simp
    ultimately show ?thesis using True by simp
  next
    case False
    then have r: "wg_peers_of env t emails is peers = Inr out" using 2(4) by (auto simp: needed_def split: if_splits)
    have "out = peers @ map (\<lambda>i. (inTag i, ActivePeersByInbound (beAccess env) (inID i) t)) (filter (needed emails) is)"
      using 2(1) [OF _ r] 2(2) [OF _ _ r] False 2(5,6) by (cases "is_wireguard (inProtocol i)") (auto simp: needed_def [of emails i])
    then show ?thesis using False by simp
  qed
qed simp


lemma buildWGIndex_finds:
  "map_of (buildWGIndex xs) e = map_option (\<lambda>(tag, p). \<lparr>wrSubID = rpSubscriptionID p, wrPeerID = rpPeerID p, wrInboundID = rpInboundID p\<rparr>)
     (last_such (\<lambda>(tag, p). wgEmailKey tag (rpAllowedIP p) = e) (concat (map (\<lambda>(tag, ps). map (Pair tag) ps) xs)))"
proof -
  let ?k = "\<lambda>x. wgEmailKey (fst x) (rpAllowedIP (snd x))"
    and ?v = "\<lambda>x :: string \<times> WGRenderPeer. \<lparr>wrSubID = rpSubscriptionID (snd x), wrPeerID = rpPeerID (snd x), wrInboundID = rpInboundID (snd x)\<rparr>"
  have "fold (\<lambda>(tag, peers). fold (\<lambda>p. AList.update (wgEmailKey tag (rpAllowedIP p))
         \<lparr>wrSubID = rpSubscriptionID p, wrPeerID = rpPeerID p, wrInboundID = rpInboundID p\<rparr>) peers) xs m
      = fold (\<lambda>x. AList.update (?k x) (?v x)) (concat (map (\<lambda>(tag, ps). map (Pair tag) ps) xs)) m" for m
    by (induction xs arbitrary: m) (auto simp: fold_map comp_def)
  then show ?thesis
    by (simp add: buildWGIndex_def map_of_fold_update [where k = ?k and v = ?v] case_prod_unfold split: option.split)
qed

lemma unneeded_inbounds:
  assumes "e \<in> set emails"
  shows "filter (\<lambda>(tag, p). wgEmailKey tag (rpAllowedIP p) = e) (concat (map (\<lambda>i. map (Pair (inTag i)) (f i)) (filter (needed emails) is)))
    = filter (\<lambda>(tag, p). wgEmailKey tag (rpAllowedIP p) = e)
        (concat (map (\<lambda>i. map (Pair (inTag i)) (f i)) (filter (\<lambda>i. is_wireguard (inProtocol i)) is)))"
proof (induction "is")
  case (Cons i "is")
  have "filter (\<lambda>(tag, p). wgEmailKey tag (rpAllowedIP p) = e) (map (Pair (inTag i)) (f i)) = []"
    if "is_wireguard (inProtocol i)" "\<not> needed emails i"
  proof -
    have "\<not> has_prefix e (''wg:'' @ inTag i @ '':'')" using assms that by (auto simp: needed_def list_ex_iff)
    then have "wgEmailKey (inTag i) ip \<noteq> e" for ip by (auto simp: wgEmailKey_def has_prefix_def)
    then show ?thesis by (auto simp: filter_empty_conv)
  qed
  then show ?case using Cons by (auto simp: needed_def [of emails i])
qed simp

lemma resolve_peers_finds:
  assumes r: "resolve_peers env inbounds t st = Inr wg" and e: "e \<in> set (keys (taUsers t))"
    and d: "distinct (map inTag (filter (\<lambda>i. is_wireguard (inProtocol i)) inbounds))"
  shows "map_of wg e = map_option (\<lambda>p. \<lparr>wrSubID = rpSubscriptionID p, wrPeerID = rpPeerID p, wrInboundID = rpInboundID p\<rparr>)
    (peer_of env inbounds st e)"
proof (cases "bePeerSource env")
  case True
  let ?t = "dsTable (pnDevs (bkPanel st))" and ?P = "\<lambda>(tag, p). wgEmailKey tag (rpAllowedIP p) = e"
  obtain peers where p: "wg_peers_of env ?t (keys (taUsers t)) inbounds [] = Inr peers" and wg: "wg = buildWGIndex peers"
    using r True by (auto simp: resolve_peers_def split: sum.splits)
  have peers: "peers = map (\<lambda>i. (inTag i, ActivePeersByInbound (beAccess env) (inID i) ?t)) (filter (needed (keys (taUsers t))) inbounds)"
    using wg_peers_of_finds [OF p d] by simp
  have "last_such ?P (concat (map (\<lambda>(tag, ps). map (Pair tag) ps) peers)) = last_such ?P (wg_entries env inbounds ?t)"
    unfolding last_such_def wg_entries_def peers using unneeded_inbounds [OF e, of "\<lambda>i. ActivePeersByInbound (beAccess env) (inID i) ?t" inbounds]
    by (simp add: comp_def)
  then show ?thesis using True by (simp add: wg buildWGIndex_finds peer_of_def option.map_comp case_prod_unfold comp_def)
qed (use r in \<open>simp add: resolve_peers_def peer_of_def\<close>)

definition at_owner :: "attribution \<Rightarrow> string \<Rightarrow> nat option" where
  "at_owner at email = (case map_of (atWG at) email of
     Some ref \<Rightarrow> Some (wrSubID ref) | None \<Rightarrow> map_option sbID (map_of (atSubs at) email))"

lemma resolve_owner:
  assumes r: "resolve env nodeID inbounds t st = Inr at" and e: "e \<in> set (keys (taUsers t))"
    and d: "distinct (map inTag (filter (\<lambda>i. is_wireguard (inProtocol i)) inbounds))"
  shows "at_owner at e = owner env inbounds st e"
proof -
  obtain refs wg cores where wg: "resolve_peers env inbounds t st = Inr wg"
    and at: "atSubs at = FindByConfigEmails (beConfigEmail env) (sort (keys (taUsers t))) (pnSubs (bkPanel st))" "atWG at = wg"
    using r by (auto simp: resolve_def Let_def split: sum.splits if_splits)
  show ?thesis
    using e by (simp add: at_owner_def at resolve_peers_finds [OF wg e d] FindByConfigEmails_finds owner_def split: option.split)
qed


section \<open>Counts that fit\<close>

definition counts_ok :: "TrafficRecord list \<Rightarrow> bool" where
  "counts_ok rs \<longleftrightarrow> list_all (\<lambda>r. list_all (\<lambda>(k, n). 0 \<le> n) (trUserUplink r) \<and> list_all (\<lambda>(k, n). 0 \<le> n) (trUserDownlink r)) rs
     \<and> carried (\<lambda>k. True) trUserUplink rs + carried (\<lambda>k. True) trUserDownlink rs \<le> int64_max"

lemma carried_mono:
  assumes "list_all (\<lambda>r. list_all (\<lambda>(k, n). 0 \<le> n) (f r)) rs" "\<And>k. P k \<Longrightarrow> Q k"
  shows "0 \<le> carried P f (filter R rs) \<and> carried P f (filter R rs) \<le> carried Q f rs"
  using assms(1)
proof (induction rs)
  case (Cons r rs)
  have "0 \<le> bytes_of (\<lambda>k. \<not> IsReverseEmail k \<and> P k) (f r)" using Cons.prems by (intro bytes_of_nonneg) simp
  moreover have "bytes_of (\<lambda>k. \<not> IsReverseEmail k \<and> P k) (f r) \<le> bytes_of (\<lambda>k. \<not> IsReverseEmail k \<and> Q k) (f r)"
    using Cons.prems assms(2) by (intro bytes_of_mono) auto
  ultimately show ?case using Cons by (auto simp: carried_def)
qed simp

lemma counts_okD:
  assumes "counts_ok rs"
  shows "list_all (\<lambda>r. list_all (\<lambda>(k, n). 0 \<le> n) (trUserUplink r)) rs" "list_all (\<lambda>r. list_all (\<lambda>(k, n). 0 \<le> n) (trUserDownlink r)) rs"
    "carried (\<lambda>k. True) trUserUplink rs + carried (\<lambda>k. True) trUserDownlink rs \<le> int64_max"
  using assms by (simp_all add: counts_ok_def list_all_iff)

lemma counts_bound:
  assumes "counts_ok rs"
  shows "0 \<le> carried P trUserUplink (filter R rs)" "0 \<le> carried P trUserDownlink (filter R rs)"
    "carried P trUserUplink (filter R rs) + carried P trUserDownlink (filter R rs) \<le> int64_max"
proof -
  note u = carried_mono [OF counts_okD(1) [OF assms], of P "\<lambda>k. True" R]
    and d = carried_mono [OF counts_okD(2) [OF assms], of P "\<lambda>k. True" R]
  from u d counts_okD(3) [OF assms] show "0 \<le> carried P trUserUplink (filter R rs)"
    "0 \<le> carried P trUserDownlink (filter R rs)"
    "carried P trUserUplink (filter R rs) + carried P trUserDownlink (filter R rs) \<le> int64_max" by simp_all
qed

lemma wrap64_nonneg: "0 \<le> n \<Longrightarrow> n \<le> int64_max \<Longrightarrow> wrap64 n = n"
  by (rule wrap64_id) (simp_all add: int64_min_def)

lemma users_exact:
  assumes "counts_ok rs"
  shows "get (taUsers (fold tally_record rs tally_empty)) e = Bytes (carried (\<lambda>k. k = e) trUserUplink rs) (carried (\<lambda>k. k = e) trUserDownlink rs)"
    "get (taDailyUsers (fold tally_record rs tally_empty)) (d, e)
      = Bytes (carried (\<lambda>k. k = e) trUserUplink (on_day d rs)) (carried (\<lambda>k. k = e) trUserDownlink (on_day d rs))"
  using counts_bound [OF assms, of "\<lambda>k. k = e" "\<lambda>r. True"] counts_bound [OF assms, of "\<lambda>k. k = e" "\<lambda>r. unix_day (trTimestamp r) = d"]
  by (auto intro!: trafficBytes.expand simp: users_tallied days_tallied wrap64_nonneg)

section \<open>What the subscriptions are charged\<close>

lemma all_deltas_parts:
  "dlSubs (all_deltas env now t at) = concat (map (\<lambda>e. dlSubs (email_deltas env now t at e)) (sort (keys (taUsers t))))"
  "dlAccounts (all_deltas env now t at) = concat (map (\<lambda>e. dlAccounts (email_deltas env now t at e)) (sort (keys (taUsers t))))"
proof -
  have "dlSubs (foldl (\<lambda>d e. append_deltas d (f e)) d es) = dlSubs d @ concat (map (\<lambda>e. dlSubs (f e)) es)"
    "dlAccounts (foldl (\<lambda>d e. append_deltas d (f e)) d es) = dlAccounts d @ concat (map (\<lambda>e. dlAccounts (f e)) es)"
    for d f and es :: "string list"
    by (induction es arbitrary: d) (simp_all add: append_deltas_def)
  then show "dlSubs (all_deltas env now t at) = concat (map (\<lambda>e. dlSubs (email_deltas env now t at e)) (sort (keys (taUsers t))))"
    "dlAccounts (all_deltas env now t at) = concat (map (\<lambda>e. dlAccounts (email_deltas env now t at e)) (sort (keys (taUsers t))))"
    by (simp_all add: all_deltas_def no_deltas_def)
qed

lemma email_sub_deltas:
  "dlSubs (email_deltas env now t at e) =
     (let b = get (taUsers t) e in if wrap64 (tbUp b + tbDown b) \<le> 0 then [] else
      case at_owner at e of None \<Rightarrow> []
      | Some i \<Rightarrow> [\<lparr>suSubscriptionID = i, suUpload = tbUp b, suDownload = tbDown b, suLastActive = now\<rparr>])"
  by (simp add: email_deltas_def at_owner_def no_deltas_def Let_def split: option.split)

lemma sum_concat_map: "(\<Sum>x \<leftarrow> concat (map f xs). g x) = (\<Sum>y \<leftarrow> xs. \<Sum>x \<leftarrow> f y. g x)"
  by (induction xs) simp_all


text \<open>What the lemmas on a batch share: its counts fit, its tags are unique, and its emails are resolved.\<close>

definition tallied :: "booking_env \<Rightarrow> nat \<Rightarrow> Inbound list \<Rightarrow> TrafficRecord list \<Rightarrow> 'w booking \<Rightarrow> attribution \<Rightarrow> tally \<Rightarrow> bool" where
  "tallied env nodeID inbounds rs st at t \<longleftrightarrow> counts_ok rs
     \<and> distinct (map inTag (filter (\<lambda>i. is_wireguard (inProtocol i)) inbounds))
     \<and> resolve env nodeID inbounds t st = Inr at \<and> t = fold tally_record rs tally_empty"

lemma talliedD:
  assumes "tallied env nodeID inbounds rs st at t"
  shows "counts_ok rs" "t = fold tally_record rs tally_empty"
    "e \<in> set (keys (taUsers t)) \<Longrightarrow> at_owner at e = owner env inbounds st e"
  using assms resolve_owner by (auto simp: tallied_def simp del: set_map)

text \<open>The emails charged to the subscriptions of a set.\<close>

definition charged_to :: "(nat \<Rightarrow> bool) \<Rightarrow> booking_env \<Rightarrow> Inbound list \<Rightarrow> 'w booking \<Rightarrow> string \<Rightarrow> bool" where
  "charged_to Q env inbounds st email = (case owner env inbounds st email of None \<Rightarrow> False | Some i \<Rightarrow> Q i)"

lemma email_bytes:
  assumes "tallied env nodeID inbounds rs st at t"
  shows "tbUp (get (taUsers t) e) = carried (\<lambda>k. k = e) trUserUplink rs" "tbDown (get (taUsers t) e) = carried (\<lambda>k. k = e) trUserDownlink rs"
    "0 \<le> carried (\<lambda>k. k = e) trUserUplink rs" "0 \<le> carried (\<lambda>k. k = e) trUserDownlink rs"
    "wrap64 (carried (\<lambda>k. k = e) trUserUplink rs + carried (\<lambda>k. k = e) trUserDownlink rs)
      = carried (\<lambda>k. k = e) trUserUplink rs + carried (\<lambda>k. k = e) trUserDownlink rs"
  using counts_bound [OF talliedD(1) [OF assms], of "\<lambda>k. k = e" "\<lambda>r. True"]
  by (simp_all add: talliedD(2) [OF assms] users_exact [OF talliedD(1) [OF assms]] wrap64_nonneg)

lemma customers_known:
  assumes "tallied env nodeID inbounds rs st at t"
  shows "r \<in> set rs \<Longrightarrow> customers (trUserUplink r) \<subseteq> set (sort (keys (taUsers t)))"
    "r \<in> set rs \<Longrightarrow> customers (trUserDownlink r) \<subseteq> set (sort (keys (taUsers t)))" "distinct (sort (keys (taUsers t)))"
  using keys_tally(1) [of rs tally_empty] distinct_tally(1) [of rs] unfolding talliedD(2) [OF assms] by (auto simp del: set_map)

lemma email_sub_sum:
  assumes T: "tallied env nodeID inbounds rs st at t" and e: "e \<in> set (sort (keys (taUsers t)))"
  shows "(\<Sum>d \<leftarrow> dlSubs (email_deltas env now t at e). if Q (suSubscriptionID d) then suUpload d else 0)
      = (if charged_to Q env inbounds st e then carried (\<lambda>k. k = e) trUserUplink rs else 0)"
    "(\<Sum>d \<leftarrow> dlSubs (email_deltas env now t at e). if Q (suSubscriptionID d) then suDownload d else 0)
      = (if charged_to Q env inbounds st e then carried (\<lambda>k. k = e) trUserDownlink rs else 0)"
  using email_bytes [OF T, of e] talliedD(3) [OF T, of e] e
  by (auto simp: email_sub_deltas charged_to_def Let_def split: option.split)

lemma sub_sums:
  assumes T: "tallied env nodeID inbounds rs st at t"
  shows "(\<Sum>d \<leftarrow> dlSubs (all_deltas env now t at). if Q (suSubscriptionID d) then suUpload d else 0)
      = carried (charged_to Q env inbounds st) trUserUplink rs"
    "(\<Sum>d \<leftarrow> dlSubs (all_deltas env now t at). if Q (suSubscriptionID d) then suDownload d else 0)
      = carried (charged_to Q env inbounds st) trUserDownlink rs"
proof -
  let ?Q = "charged_to Q env inbounds st" and ?ks = "sort (keys (taUsers t))"
  note known = customers_known [OF T]
  have "(\<Sum>d \<leftarrow> dlSubs (all_deltas env now t at). if Q (suSubscriptionID d) then suUpload d else 0)
      = (\<Sum>e \<leftarrow> ?ks. if ?Q e then carried (\<lambda>k. k = e) trUserUplink rs else 0)"
    unfolding all_deltas_parts sum_concat_map
    by (rule arg_cong [of _ _ sum_list], rule map_cong [OF refl]) (rule email_sub_sum [OF T])
  then show "(\<Sum>d \<leftarrow> dlSubs (all_deltas env now t at). if Q (suSubscriptionID d) then suUpload d else 0) = carried ?Q trUserUplink rs"
    using carried_by_key [OF known(3,1)] by simp
  have "(\<Sum>d \<leftarrow> dlSubs (all_deltas env now t at). if Q (suSubscriptionID d) then suDownload d else 0)
      = (\<Sum>e \<leftarrow> ?ks. if ?Q e then carried (\<lambda>k. k = e) trUserDownlink rs else 0)"
    unfolding all_deltas_parts sum_concat_map
    by (rule arg_cong [of _ _ sum_list], rule map_cong [OF refl]) (rule email_sub_sum [OF T])
  then show "(\<Sum>d \<leftarrow> dlSubs (all_deltas env now t at). if Q (suSubscriptionID d) then suDownload d else 0) = carried ?Q trUserDownlink rs"
    using carried_by_key [OF known(3,2)] by simp
qed

lemma sub_deltas_fit:
  assumes T: "tallied env nodeID inbounds rs st at t"
  shows "list_all su_fits (dlSubs (all_deltas env now t at))" "(\<Sum>d \<leftarrow> dlSubs (all_deltas env now t at). su_weight d) \<le> int64_max"
proof -
  show "list_all su_fits (dlSubs (all_deltas env now t at))"
    using email_bytes [OF T] by (auto simp: all_deltas_parts list_all_iff email_sub_deltas Let_def su_fits_def split: option.splits if_splits)
  let ?Q = "charged_to (\<lambda>i. True) env inbounds st"
  have "(\<Sum>d \<leftarrow> dlSubs (all_deltas env now t at). su_weight d) = carried ?Q trUserUplink rs + carried ?Q trUserDownlink rs"
    using sub_sums [OF T, where now = now and Q = "\<lambda>i. True"] by (simp add: su_weight_def sum_list_addf)
  then show "(\<Sum>d \<leftarrow> dlSubs (all_deltas env now t at). su_weight d) \<le> int64_max"
    using counts_bound(3) [OF talliedD(1) [OF T], of ?Q "\<lambda>r. True"] by simp
qed

text \<open>A run of deltas adds their sums to the counters of the row.\<close>

definition charge :: "int \<Rightarrow> int \<Rightarrow> nat option \<Rightarrow> Subscription \<Rightarrow> Subscription" where
  "charge upload download seen s = s\<lparr>
     sbDataUsed := sbDataUsed s + (upload + download), sbLifetimeDataUsed := sbLifetimeDataUsed s + (upload + download),
     sbDataUpload := sbDataUpload s + upload, sbDataDownload := sbDataDownload s + download,
     sbLifetimeDataUpload := sbLifetimeDataUpload s + upload, sbLifetimeDataDownload := sbLifetimeDataDownload s + download,
     sbLastActiveAt := seen\<rparr>"

lemma charge_add_usage: "charge u d seen (add_usage x s) = charge (suUpload x + u) (suDownload x + d) seen s"
  by (simp add: charge_def add_usage_def algebra_simps)

lemma fold_add_usage:
  "\<exists>seen. fold (\<lambda>d. map_option (add_usage d)) ds (Some s) = Some (charge (\<Sum>d \<leftarrow> ds. suUpload d) (\<Sum>d \<leftarrow> ds. suDownload d) seen s)"
proof (induction ds arbitrary: s)
  case Nil
  then show ?case by (intro exI [of _ "sbLastActiveAt s"]) (simp add: charge_def)
next
  case (Cons d ds)
  obtain seen where "fold (\<lambda>d. map_option (add_usage d)) ds (Some (add_usage d s))
      = Some (charge (\<Sum>d \<leftarrow> ds. suUpload d) (\<Sum>d \<leftarrow> ds. suDownload d) seen (add_usage d s))" using Cons.IH by blast
  then show ?case by (intro exI [of _ seen]) (simp add: charge_add_usage)
qed

lemma AddUsageDeltas_row:
  assumes "list_all su_fits ds" "(\<Sum>d \<leftarrow> ds. su_weight d) \<le> int64_max" "sub_FindByID i subs = Some s"
  shows "\<exists>seen. sub_FindByID i (AddUsageDeltas ds subs) = Some (charge (\<Sum>d \<leftarrow> ds. if suSubscriptionID d = i then suUpload d else 0)
    (\<Sum>d \<leftarrow> ds. if suSubscriptionID d = i then suDownload d else 0) seen s)"
proof -
  have "sub_FindByID i (AddUsageDeltas ds subs)
      = fold (\<lambda>d. map_option (add_usage d)) (filter (\<lambda>d. suSubscriptionID d = i) ds) (sub_FindByID i subs)"
    unfolding AddUsageDeltas_def sub_FindByID_def
    by (rule sub_batches.rows.batches_are_the_deltas) (use assms(1,2) in \<open>simp_all add: trafficBatchSize_def\<close>)
  then show ?thesis
    using fold_add_usage [of "filter (\<lambda>d. suSubscriptionID d = i) ds" s] by (simp add: assms(3) sum_list_map_filter')
qed


section \<open>What the days are charged\<close>

lemma daily_by_key:
  assumes ks: "distinct ks" and sub: "\<And>r. r \<in> set rs \<Longrightarrow> Pair (unix_day (trTimestamp r)) ` customers (f r) \<subseteq> set ks"
  shows "(\<Sum>(d, e) \<leftarrow> ks. if Q d e then carried (\<lambda>k. k = e) f (on_day d rs) else 0)
    = (\<Sum>r \<leftarrow> rs. bytes_of (\<lambda>k. \<not> IsReverseEmail k \<and> Q (unix_day (trTimestamp r)) k) (f r))"
  using sub
proof (induction rs)
  case (Cons r rs)
  let ?d = "unix_day (trTimestamp r)"
  let ?es = "map snd (filter (\<lambda>(d, e). d = ?d) ks)"
  have es: "distinct ?es" "customers (f r) \<subseteq> set ?es"
    using ks Cons.prems [of r] by (auto simp: distinct_map inj_on_def) force
  have "(\<Sum>(d, e) \<leftarrow> ks. if Q d e \<and> d = ?d then bytes_of (of_user e) (f r) else 0)
      = (\<Sum>e \<leftarrow> ?es. if Q ?d e then bytes_of (of_user e) (f r) else 0)"
    by (induction ks) auto
  also have "\<dots> = bytes_of (\<lambda>k. \<not> IsReverseEmail k \<and> Q ?d k) (f r)" by (rule bytes_by_key [OF es])
  finally have one: "(\<Sum>(d, e) \<leftarrow> ks. if Q d e \<and> d = ?d then bytes_of (of_user e) (f r) else 0)
      = bytes_of (\<lambda>k. \<not> IsReverseEmail k \<and> Q ?d k) (f r)" .
  have "(\<Sum>(d, e) \<leftarrow> ks. if Q d e then carried (\<lambda>k. k = e) f (on_day d (r # rs)) else 0)
      = (\<Sum>(d, e) \<leftarrow> ks. if Q d e \<and> d = ?d then bytes_of (of_user e) (f r) else 0)
        + (\<Sum>(d, e) \<leftarrow> ks. if Q d e then carried (\<lambda>k. k = e) f (on_day d rs) else 0)"
    by (subst sum_list_addf [symmetric]) (rule arg_cong [of _ _ sum_list], auto simp: carried_def)
  then show ?case using Cons one by simp
qed (simp add: case_prod_unfold cong: if_cong)

lemma daily_deltas_owner:
  "daily_deltas t at = List.map_filter (\<lambda>((date, email), b). if tbUp b = 0 \<and> tbDown b = 0 then None
     else map_option (\<lambda>i. \<lparr>ddSubscriptionID = i, ddDate = date, ddUpload = tbUp b, ddDownload = tbDown b\<rparr>) (at_owner at email)) (taDailyUsers t)"
  unfolding daily_deltas_def by (rule arg_cong [of _ _ "\<lambda>f. List.map_filter f (taDailyUsers t)"])
    (auto simp: fun_eq_iff at_owner_def split: option.split)

lemma map_filter_mem: "y \<in> set (List.map_filter f xs) \<longleftrightarrow> (\<exists>x \<in> set xs. f x = Some y)"
  by (induction xs) (auto simp: List.map_filter_simps split: option.split)

lemma sum_map_filter:
  fixes g :: "'b \<Rightarrow> int"
  shows "(\<Sum>y \<leftarrow> List.map_filter f xs. g y) = (\<Sum>x \<leftarrow> xs. case f x of None \<Rightarrow> 0 | Some y \<Rightarrow> g y)"
  by (induction xs) (auto simp: List.map_filter_simps split: option.split)

lemma daily_email_known:
  assumes T: "tallied env nodeID inbounds rs st at t" and "((d, e), b) \<in> set (taDailyUsers t)"
  shows "at_owner at e = owner env inbounds st e"
    and "b = Bytes (carried (\<lambda>k. k = e) trUserUplink (on_day d rs)) (carried (\<lambda>k. k = e) trUserDownlink (on_day d rs))"
proof -
  have "(d, e) \<in> set (keys (taDailyUsers t))" using assms(2) by force
  then have "e \<in> set (keys (taUsers t))"
    unfolding talliedD(2) [OF T] keys_tally by (auto simp: tally_empty_def)
  then show "at_owner at e = owner env inbounds st e" by (rule talliedD(3) [OF T])
  have "get (taDailyUsers t) (d, e) = b"
    using assms(2) distinct_tally(2) [of rs] unfolding talliedD(2) [OF T] by (intro get_in)
  then show "b = Bytes (carried (\<lambda>k. k = e) trUserUplink (on_day d rs)) (carried (\<lambda>k. k = e) trUserDownlink (on_day d rs))"
    using users_exact(2) [OF talliedD(1) [OF T], of d e] talliedD(2) [OF T] by simp
qed

lemma day_sums:
  assumes T: "tallied env nodeID inbounds rs st at t"
  shows "(\<Sum>d \<leftarrow> daily_deltas t at. if Q (ddSubscriptionID d) (ddDate d) then dd_weight d else 0)
    = (\<Sum>r \<leftarrow> rs. bytes_of (\<lambda>k. \<not> IsReverseEmail k \<and> charged_to (\<lambda>i. Q i (unix_day (trTimestamp r))) env inbounds st k) (trUserUplink r))
      + (\<Sum>r \<leftarrow> rs. bytes_of (\<lambda>k. \<not> IsReverseEmail k \<and> charged_to (\<lambda>i. Q i (unix_day (trTimestamp r))) env inbounds st k) (trUserDownlink r))"
proof -
  let ?C = "\<lambda>d e. charged_to (\<lambda>i. Q i d) env inbounds st e"
  let ?v = "\<lambda>(d, e). (if ?C d e then carried (\<lambda>k. k = e) trUserUplink (on_day d rs) else 0)
      + (if ?C d e then carried (\<lambda>k. k = e) trUserDownlink (on_day d rs) else 0)"
  have "(\<Sum>d \<leftarrow> daily_deltas t at. if Q (ddSubscriptionID d) (ddDate d) then dd_weight d else 0) = (\<Sum>(k, b) \<leftarrow> taDailyUsers t. ?v k)"
    unfolding daily_deltas_owner sum_map_filter
  proof (rule arg_cong [of _ _ sum_list], rule map_cong [OF refl], clarify)
    fix d e b assume "((d, e), b) \<in> set (taDailyUsers t)"
    from daily_email_known [OF T this]
    show "(case if tbUp b = 0 \<and> tbDown b = 0 then None else map_option (\<lambda>i. \<lparr>ddSubscriptionID = i, ddDate = d, ddUpload = tbUp b, ddDownload = tbDown b\<rparr>) (at_owner at e) of
        None \<Rightarrow> 0 | Some x \<Rightarrow> if Q (ddSubscriptionID x) (ddDate x) then dd_weight x else 0)
      = (if ?C d e then carried (\<lambda>k. k = e) trUserUplink (on_day d rs) else 0)
        + (if ?C d e then carried (\<lambda>k. k = e) trUserDownlink (on_day d rs) else 0)"
      by (auto simp: charged_to_def dd_weight_def split: option.split)
  qed
  also have "\<dots> = (\<Sum>k \<leftarrow> keys (taDailyUsers t). ?v k)" by (simp add: comp_def case_prod_unfold)
  also have "\<dots> = (\<Sum>(d, e) \<leftarrow> keys (taDailyUsers t). if ?C d e then carried (\<lambda>k. k = e) trUserUplink (on_day d rs) else 0)
      + (\<Sum>(d, e) \<leftarrow> keys (taDailyUsers t). if ?C d e then carried (\<lambda>k. k = e) trUserDownlink (on_day d rs) else 0)"
    by (subst sum_list_addf [symmetric]) (simp add: case_prod_unfold)
  finally show ?thesis
    using distinct_tally(2) [of rs] keys_tally(2) [of rs tally_empty]
    by (subst (asm) (1 2) daily_by_key [where Q = ?C]) (auto simp: talliedD(2) [OF T] simp del: set_map)
qed


definition day_used :: "DailyUsage option \<Rightarrow> int" where
  "day_used row = (case row of None \<Rightarrow> 0 | Some r \<Rightarrow> dyDataUsed r)"

lemma fold_daily_upsert:
  "list_all (\<lambda>d. dd_fits d \<and> dd_weight d \<le> int64_max) ds \<Longrightarrow> day_used (fold daily_upsert ds row) = day_used row + (\<Sum>d \<leftarrow> ds. dd_weight d)"
proof (induction ds arbitrary: row)
  case (Cons d ds)
  then have "wrap64 (ddUpload d + ddDownload d) = dd_weight d" by (simp add: dd_fits_def dd_weight_def wrap64_nonneg)
  then have "day_used (daily_upsert d row) = day_used row + dd_weight d"
    by (simp add: daily_upsert_def day_used_def Let_def split: option.split)
  then show ?case using Cons by simp
qed simp

lemma fits_each:
  assumes "list_all dd_fits ds" "(\<Sum>d \<leftarrow> ds. dd_weight d) \<le> int64_max"
  shows "list_all (\<lambda>d. dd_fits d \<and> dd_weight d \<le> int64_max) ds"
proof -
  have "dd_weight d \<le> (\<Sum>d \<leftarrow> ds. dd_weight d)" if "d \<in> set ds" for d
    using assms(1) that by (intro member_le_sum_list) (auto simp: list_all_iff dd_fits_def dd_weight_def)
  then show ?thesis using assms by (force simp: list_all_iff)
qed

lemma AddDailyUsageSplits_row:
  assumes "list_all dd_fits ds" "(\<Sum>d \<leftarrow> ds. dd_weight d) \<le> int64_max"
  shows "day_used (AddDailyUsageSplits ds t k) = day_used (t k) + (\<Sum>d \<leftarrow> ds. if dd_key d = k then dd_weight d else 0)"
proof -
  have "AddDailyUsageSplits ds t k = fold daily_upsert (filter (\<lambda>d. dd_key d = k) ds) (t k)"
    unfolding AddDailyUsageSplits_def
    by (rule day_batches.batches_are_the_deltas) (use assms in \<open>simp_all add: trafficBatchSize_def\<close>)
  moreover have "list_all (\<lambda>d. dd_fits d \<and> dd_weight d \<le> int64_max) (filter (\<lambda>d. dd_key d = k) ds)"
    using fits_each [OF assms] by (simp add: list_all_iff)
  ultimately show ?thesis by (simp add: fold_daily_upsert sum_list_map_filter')
qed

lemma day_deltas_fit:
  assumes T: "tallied env nodeID inbounds rs st at t"
  shows "list_all dd_fits (daily_deltas t at)" "(\<Sum>d \<leftarrow> daily_deltas t at. dd_weight d) \<le> int64_max"
    "list_all (\<lambda>d. utc_day (ddDate d) = ddDate d) (daily_deltas t at)"
proof -
  have b: "0 \<le> tbUp b \<and> 0 \<le> tbDown b" if "((d, e), b) \<in> set (taDailyUsers t)" for d e b
    using daily_email_known(2) [OF T that] counts_bound [OF talliedD(1) [OF T]] by simp
  have d: "utc_day d = d" if "((d, e), b) \<in> set (taDailyUsers t)" for d e b
  proof -
    have "(d, e) \<in> set (keys (taDailyUsers t))" using that by force
    then show ?thesis unfolding talliedD(2) [OF T] keys_tally by (auto simp: tally_empty_def unix_day_def)
  qed
  have mem: "\<exists>e b. ((ddDate x, e), b) \<in> set (taDailyUsers t) \<and> ddUpload x = tbUp b \<and> ddDownload x = tbDown b"
    if x: "x \<in> set (daily_deltas t at)" for x
  proof -
    obtain d e b where "((d, e), b) \<in> set (taDailyUsers t)"
      "(if tbUp b = 0 \<and> tbDown b = 0 then None
        else map_option (\<lambda>i. \<lparr>ddSubscriptionID = i, ddDate = d, ddUpload = tbUp b, ddDownload = tbDown b\<rparr>) (at_owner at e)) = Some x"
      using x unfolding daily_deltas_owner map_filter_mem by fastforce
    then show ?thesis by (intro exI [of _ e] exI [of _ b]) (auto split: if_splits)
  qed
  show "list_all dd_fits (daily_deltas t at)" "list_all (\<lambda>d. utc_day (ddDate d) = ddDate d) (daily_deltas t at)"
    unfolding list_all_iff dd_fits_def using mem b d by metis+
  let ?Q = "charged_to (\<lambda>i. True) env inbounds st"
  have "(\<Sum>d \<leftarrow> daily_deltas t at. dd_weight d) = carried ?Q trUserUplink rs + carried ?Q trUserDownlink rs"
    using day_sums [OF T, of "\<lambda>i d. True"] by (simp add: carried_def)
  then show "(\<Sum>d \<leftarrow> daily_deltas t at. dd_weight d) \<le> int64_max"
    using counts_bound(3) [OF talliedD(1) [OF T], of ?Q "\<lambda>r. True"] by simp
qed

lemma carried_of_day:
  "(\<Sum>r \<leftarrow> rs. bytes_of (\<lambda>k. \<not> IsReverseEmail k \<and> charged_to (\<lambda>i. j = i \<and> d = unix_day (trTimestamp r)) env inbounds st k) (f r))
    = carried (charged_to (\<lambda>i. j = i) env inbounds st) f (on_day d rs)"
proof (induction rs)
  case (Cons r rs)
  have "charged_to (\<lambda>i. False) env inbounds st = (\<lambda>k. False)" by (simp add: fun_eq_iff charged_to_def split: option.split)
  then show ?case using Cons by (cases "unix_day (trTimestamp r) = d") (simp_all add: carried_def)
qed simp

lemma day_row:
  assumes T: "tallied env nodeID inbounds rs st at t"
  shows "day_used (AddDailyUsageSplits (daily_deltas t at) days (i, d)) = day_used (days (i, d))
    + (carried (charged_to (\<lambda>j. i = j) env inbounds st) trUserUplink (on_day d rs)
      + carried (charged_to (\<lambda>j. i = j) env inbounds st) trUserDownlink (on_day d rs))"
proof -
  note fit = day_deltas_fit [OF T]
  have "(\<Sum>x \<leftarrow> daily_deltas t at. if dd_key x = (i, d) then dd_weight x else 0)
      = (\<Sum>x \<leftarrow> daily_deltas t at. if i = ddSubscriptionID x \<and> d = ddDate x then dd_weight x else 0)"
    using fit(3) by (intro arg_cong [of _ _ sum_list] map_cong refl) (auto simp: dd_key_def list_all_iff)
  also note day_sums [OF T, of "\<lambda>j e. i = j \<and> d = e"]
  finally show ?thesis by (simp add: AddDailyUsageSplits_row [OF fit(1,2)] carried_of_day)
qed


section \<open>The transaction as a whole\<close>

lemma run_steps_fold: "run_steps fails steps st = Inr st' \<Longrightarrow> st' = fold (\<lambda>(c, f). f) steps st"
  by (induction steps arbitrary: st) (auto split: if_splits)

lemma run_steps_ok: "(\<And>c. \<not> fails c) \<Longrightarrow> run_steps fails steps st = Inr (fold (\<lambda>(c, f). f) steps st)"
  by (induction steps arbitrary: st) auto

lemma no_batches [simp]:
  "AddUsageDeltas [] t = t" "AddDailyUsageSplits [] u = u" "acc_AddUsageDeltas [] v = v"
  by (simp_all add: AddUsageDeltas_def AddDailyUsageSplits_def acc_AddUsageDeltas_def send_batches_def merge_all_def chunks.simps)

lemma booked_tables:
  fixes st :: "'w booking"
  assumes st': "st' = fold (\<lambda>(c, f). f) (booking_steps nodeID t tunnels daily dl) st"
  shows "pnSubs (bkPanel st') = AddUsageDeltas (dlSubs dl) (pnSubs (bkPanel st))"
    "bkDaily st' = AddDailyUsageSplits daily (bkDaily st)"
    "asRows (pnAccts (bkPanel st')) = acc_AddUsageDeltas (dlAccounts dl) (asRows (pnAccts (bkPanel st)))"
    "bkRest st' = bkRest st"
proof -
  let ?v = "\<lambda>s :: 'w booking. (bkPanel s, bkDaily s, bkRest s)"
  have keeps: "?v (fold (\<lambda>x. AddNodeDailyTraffic nodeID x (f x)) ds s) = ?v s"
    "?v (fold (\<lambda>x. AddOutboundTraffic nodeID x (g x)) tags s) = ?v s"
    "?v (fold (\<lambda>x. AddReverseTunnelTraffic x (h x)) is s) = ?v s" "?v (AddNodeTraffic nodeID b s) = ?v s"
    for f g h ds tags "is" s b
    by (rule fold_keeps | simp add: AddNodeDailyTraffic_def AddOutboundTraffic_def AddReverseTunnelTraffic_def AddNodeTraffic_def)+
  show "pnSubs (bkPanel st') = AddUsageDeltas (dlSubs dl) (pnSubs (bkPanel st))"
    "bkDaily st' = AddDailyUsageSplits daily (bkDaily st)"
    "asRows (pnAccts (bkPanel st')) = acc_AddUsageDeltas (dlAccounts dl) (asRows (pnAccts (bkPanel st)))"
    "bkRest st' = bkRest st"
    using keeps unfolding st'
    by (simp_all add: booking_steps_def fold_map comp_def on_panel_def book_subs_def book_accounts_def book_cores_def book_peers_def)
qed

lemma tally_records_all:
  "tally_records (map Some rs) t = (if list_all (\<lambda>r. 0 < trTimestamp r) rs then Some (fold tally_record rs t) else None)"
  by (induction rs arbitrary: t) auto

lemma persist_booked:
  fixes st :: "'w booking"
  assumes r: "persistBufferedTrafficThen env nodeID inbounds now (map Some rs) inTx st = (Inr through, st')"
    and "counts_ok rs" "distinct (map inTag (filter (\<lambda>i. is_wireguard (inProtocol i)) inbounds))" "rs \<noteq> []"
  obtains at t where "tallied env nodeID inbounds rs st at t" "through = taThrough t"
    "pnSubs (bkPanel st') = AddUsageDeltas (dlSubs (all_deltas env now t at)) (pnSubs (bkPanel st))"
    "bkDaily st' = AddDailyUsageSplits (daily_deltas t at) (bkDaily st)"
    "asRows (pnAccts (bkPanel st')) = acc_AddUsageDeltas (dlAccounts (all_deltas env now t at)) (asRows (pnAccts (bkPanel st)))"
proof -
  obtain t at u where t: "t = fold tally_record rs tally_empty" and at: "resolve env nodeID inbounds t st = Inr at"
    and u: "run_steps (beFails env) (booking_steps nodeID t (merge_links env nodeID t (bkTunnels st))
        (daily_deltas t at) (all_deltas env now t at)) st = Inr u"
    and st': "st' = u \<or> (\<exists>w. st' = u\<lparr>bkRest := w\<rparr>)" "through = taThrough t"
    using r assms(4)
    by (auto simp: persistBufferedTrafficThen_def tally_records_all split: if_splits option.splits sum.splits)
  from st'(1) have same: "bkPanel st' = bkPanel u" "bkDaily st' = bkDaily u" by auto
  show thesis
    by (rule that [of at t]) (use assms(2,3) t at st'(2) booked_tables [OF run_steps_fold [OF u]] in
      \<open>simp_all add: tallied_def same\<close>)
qed

text \<open>The time that is acknowledged is the latest of the batch.\<close>

lemma through_record: "taThrough (tally_record r t) = max (taThrough t) (trTimestamp r)"
proof -
  have keeps: "taThrough (fold (tally_user_up d) m s) = taThrough s" "taThrough (fold (tally_user_down d) m s) = taThrough s"
    "taThrough (fold tally_inbound m s) = taThrough s" "taThrough (fold tally_core cs s) = taThrough s"
    "taThrough (fold tally_outbound_up m s) = taThrough s" "taThrough (fold tally_outbound_down m s) = taThrough s"
    "taThrough (tally_node d r s) = taThrough s" for d m cs s
    by (rule fold_keeps | simp add: tally_user_up_def tally_user_down_def tally_inbound_def tally_core_def tally_outbound_up_def
        tally_outbound_down_def tally_node_def Let_def split: prod.split option.split)+
  show ?thesis by (simp add: tally_record_def Let_def keeps max_def)
qed

lemma through_all: "taThrough (fold tally_record rs t) = fold max (map trTimestamp rs) (taThrough t)"
  by (induction rs arbitrary: t) (simp_all add: through_record max.commute)


section \<open>What the accounts are charged\<close>

lemma account_shares_sum:
  assumes "0 \<le> bytes"
  shows "(\<Sum>d \<leftarrow> account_shares now bytes ids. auBytes d) \<le> bytes" "list_all (\<lambda>d. 0 \<le> auBytes d) (account_shares now bytes ids)"
proof -
  have "int (length ids) * (bytes div int (length ids)) \<le> bytes"
  proof (cases "ids = []")
    case False
    then have "0 \<le> bytes mod int (length ids)" by simp
    then show ?thesis unfolding minus_mod_eq_mult_div [symmetric] by simp
  qed (simp add: assms)
  then show "(\<Sum>d \<leftarrow> account_shares now bytes ids. auBytes d) \<le> bytes"
    using assms by (simp add: account_shares_def Let_def comp_def go_quot_def sum_list_triv)
  show "list_all (\<lambda>d. 0 \<le> auBytes d) (account_shares now bytes ids)"
    using assms by (auto simp: account_shares_def Let_def go_quot_def list_all_iff div_int_pos_iff)
qed

lemma email_account_sum:
  assumes T: "tallied env nodeID inbounds rs st at t"
  shows "list_all (\<lambda>d. 0 \<le> auBytes d) (dlAccounts (email_deltas env now t at e))
    \<and> (\<Sum>d \<leftarrow> dlAccounts (email_deltas env now t at e). auBytes d) \<le> (\<Sum>d \<leftarrow> dlSubs (email_deltas env now t at e). su_weight d)"
proof -
  let ?b = "carried (\<lambda>k. k = e) trUserUplink rs + carried (\<lambda>k. k = e) trUserDownlink rs"
  have "0 \<le> ?b" using email_bytes(3,4) [OF T, of e] by simp
  note shares = account_shares_sum [OF this, of now "atMatched at e"]
  show ?thesis
    using shares email_bytes [OF T, of e]
    by (auto simp: email_deltas_def no_deltas_def su_weight_def Let_def split: option.split)
qed

lemma account_sums:
  assumes T: "tallied env nodeID inbounds rs st at t"
  shows "list_all (\<lambda>d. 0 \<le> auBytes d) (dlAccounts (all_deltas env now t at))"
    "(\<Sum>d \<leftarrow> dlAccounts (all_deltas env now t at). auBytes d)
      \<le> carried (charged_to (\<lambda>i. True) env inbounds st) trUserUplink rs + carried (charged_to (\<lambda>i. True) env inbounds st) trUserDownlink rs"
proof -
  show "list_all (\<lambda>d. 0 \<le> auBytes d) (dlAccounts (all_deltas env now t at))"
    using email_account_sum [OF T] by (auto simp: all_deltas_parts list_all_iff)
  have "(\<Sum>d \<leftarrow> dlAccounts (all_deltas env now t at). auBytes d) \<le> (\<Sum>d \<leftarrow> dlSubs (all_deltas env now t at). su_weight d)"
    unfolding all_deltas_parts sum_concat_map using email_account_sum [OF T] by (intro sum_list_mono) blast
  also have "\<dots> = carried (charged_to (\<lambda>i. True) env inbounds st) trUserUplink rs + carried (charged_to (\<lambda>i. True) env inbounds st) trUserDownlink rs"
    using sub_sums [OF T, where now = now and Q = "\<lambda>i. True"] by (simp add: su_weight_def sum_list_addf)
  finally show "(\<Sum>d \<leftarrow> dlAccounts (all_deltas env now t at). auBytes d)
      \<le> carried (charged_to (\<lambda>i. True) env inbounds st) trUserUplink rs + carried (charged_to (\<lambda>i. True) env inbounds st) trUserDownlink rs" .
qed

abbreviation account_total :: "acct_table \<Rightarrow> int" where
  "account_total rows \<equiv> (\<Sum>a \<leftarrow> rows. acDataUsed a)"

definition grown :: "acct_table \<Rightarrow> acct_table \<Rightarrow> bool" where
  "grown = list_all2 (\<lambda>a b. acID b = acID a \<and> acDataUsed a \<le> acDataUsed b)"

lemma grown_trans: "grown xs ys \<Longrightarrow> grown ys zs \<Longrightarrow> grown xs zs"
  unfolding grown_def
proof (induction xs ys arbitrary: zs rule: list_all2_induct)
  case (Cons x xs y ys)
  then show ?case by (fastforce simp: list_all2_Cons1)
qed simp

lemma update_row_Cons: "update_row rid k f (a # rows) = (if rid a = k then f a else a) # update_row rid k f rows"
  by (simp add: update_row_def)

lemma add_bytes_row:
  assumes "0 \<le> auBytes d" "distinct (map acID rows)"
  shows "account_total (update_row acID (auAccountID d) (add_bytes d) rows) \<le> account_total rows + auBytes d
    \<and> grown rows (update_row acID (auAccountID d) (add_bytes d) rows)"
proof
  have out: "auAccountID d \<notin> set (map acID xs) \<Longrightarrow> update_row acID (auAccountID d) (add_bytes d) xs = xs" for xs
    by (auto simp: update_row_def rev_image_eqI intro!: map_idI)
  show "account_total (update_row acID (auAccountID d) (add_bytes d) rows) \<le> account_total rows + auBytes d"
    using assms(2)
  proof (induction rows)
    case (Cons a rows)
    show ?case
    proof (cases "acID a = auAccountID d")
      case True
      then have "update_row acID (auAccountID d) (add_bytes d) rows = rows" using Cons.prems by (intro out) auto
      then show ?thesis using True assms(1) by (simp add: update_row_Cons add_bytes_def [of d a])
    next
      case False
      then show ?thesis using Cons by (simp add: update_row_Cons)
    qed
  qed (simp add: update_row_def assms(1))
  show "grown rows (update_row acID (auAccountID d) (add_bytes d) rows)"
    using assms(1) by (simp add: grown_def update_row_def list_all2_map2 list_all2_same add_bytes_def)
qed

lemma add_bytes_rows:
  "list_all (\<lambda>d. 0 \<le> auBytes d) ds \<Longrightarrow> distinct (map acID rows) \<Longrightarrow>
    account_total (fold (\<lambda>d. update_row acID (auAccountID d) (add_bytes d)) ds rows) \<le> account_total rows + (\<Sum>d \<leftarrow> ds. auBytes d)
    \<and> grown rows (fold (\<lambda>d. update_row acID (auAccountID d) (add_bytes d)) ds rows)"
proof (induction ds arbitrary: rows)
  case (Cons d ds)
  let ?rows = "update_row acID (auAccountID d) (add_bytes d) rows"
  have "map acID ?rows = map acID rows" by (rule ids_update_row) (simp add: add_bytes_def)
  then show ?case using Cons.IH [of ?rows] Cons.prems add_bytes_row [of d rows] grown_trans [of rows ?rows] by (auto simp: add.assoc)
qed (simp add: grown_def list_all2_same)


section \<open>When a batch is booked\<close>

lemma tally_records_None:
  "tally_records records t = None \<longleftrightarrow> \<not> list_all (\<lambda>x. case x of None \<Rightarrow> False | Some r \<Rightarrow> 0 < trTimestamp r) records"
  by (induction records t rule: tally_records.induct) auto

lemma wg_peers_of_ok: "(\<And>c. \<not> beFails env c) \<Longrightarrow> \<exists>out. wg_peers_of env t emails is peers = Inr out"
  by (induction env t emails "is" peers rule: wg_peers_of.induct) auto

lemma resolve_ok:
  assumes "\<And>c. \<not> beFails env c"
  shows "\<exists>at. resolve env nodeID inbounds t st = Inr at"
proof -
  have "\<exists>wg. resolve_peers env inbounds t st = Inr wg"
    using wg_peers_of_ok [of env "dsTable (pnDevs (bkPanel st))" "map fst (taUsers t)" inbounds "[]", OF assms]
    by (auto simp: resolve_peers_def)
  then show ?thesis by (auto simp: resolve_def resolve_accounts_def resolve_cores_def assms Let_def)
qed

lemma booking_returns:
  assumes tm: "beTM env" and ok: "list_all (\<lambda>x. case x of None \<Rightarrow> False | Some r \<Rightarrow> 0 < trTimestamp r) records"
    and f: "\<And>c. \<not> beFails env c" and tx: "case inTx of None \<Rightarrow> True | Some f \<Rightarrow> f (bkRest st) \<noteq> None"
  shows "\<exists>through st'. persistBufferedTrafficThen env nodeID inbounds now records inTx st = (Inr through, st')"
proof -
  obtain t where t: "tally_records records tally_empty = Some t" using tally_records_None ok by blast
  obtain at where at: "resolve env nodeID inbounds t st = Inr at" using resolve_ok f by blast
  let ?steps = "booking_steps nodeID t (merge_links env nodeID t (bkTunnels st)) (daily_deltas t at) (all_deltas env now t at)"
  have "run_steps (beFails env) ?steps st = Inr (fold (\<lambda>(c, f). f) ?steps st)" using f by (simp add: run_steps_ok)
  then show ?thesis
    using tm t at tx booked_tables(4) [OF refl, of nodeID t "merge_links env nodeID t (bkTunnels st)" "daily_deltas t at" "all_deltas env now t at" st]
    by (auto simp: persistBufferedTrafficThen_def split: option.splits)
qed

section \<open>The properties\<close>

text \<open>
  C8. A batch that is booked charges a subscription exactly the bytes of its emails: its counters grow
  by the uploads and downloads that all records of the batch have of emails it owns, by its WireGuard
  peers or by its config email, and by nothing else of the row but the time of the last activity. The
  rows of its days grow by the same bytes, each byte on the day of its record; hidden users of
  tunnels are charged to nobody; and the time to acknowledge is the latest of the batch.
\<close>

theorem traffic_is_charged_exactly_once:
  assumes r: "persistBufferedTrafficThen env nodeID inbounds now (map Some rs) inTx st = (Inr through, st')" "rs \<noteq> []"
    and "counts_ok rs" "distinct (map inTag (filter (\<lambda>i. is_wireguard (inProtocol i)) inbounds))"
    and s: "sub_FindByID i (pnSubs (bkPanel st)) = Some s"
  shows "(\<exists>seen. sub_FindByID i (pnSubs (bkPanel st')) = Some (charge
        (carried (charged_to (\<lambda>j. i = j) env inbounds st) trUserUplink rs)
        (carried (charged_to (\<lambda>j. i = j) env inbounds st) trUserDownlink rs) seen s))
    \<and> day_used (bkDaily st' (i, d)) = day_used (bkDaily st (i, d))
        + (carried (charged_to (\<lambda>j. i = j) env inbounds st) trUserUplink (on_day d rs)
          + carried (charged_to (\<lambda>j. i = j) env inbounds st) trUserDownlink (on_day d rs))
    \<and> through = fold max (map trTimestamp rs) 0"
proof -
  obtain at t where T: "tallied env nodeID inbounds rs st at t" and th: "through = taThrough t"
    and b: "pnSubs (bkPanel st') = AddUsageDeltas (dlSubs (all_deltas env now t at)) (pnSubs (bkPanel st))"
      "bkDaily st' = AddDailyUsageSplits (daily_deltas t at) (bkDaily st)"
    using persist_booked [OF r(1) assms(3,4) r(2)] by metis
  have "through = fold max (map trTimestamp rs) 0"
    using th through_all [of rs tally_empty] talliedD(2) [OF T] by (simp add: tally_empty_def)
  then show ?thesis
    using AddUsageDeltas_row [OF sub_deltas_fit [OF T] s, of now] sub_sums [OF T, where Q = "\<lambda>j. i = j" and now = now] day_row [OF T, of "bkDaily st" i d]
    by (simp add: b eq_commute [of i])
qed

text \<open>
  C25. The accounts are never charged more than the customers carried: no account's counter goes
  down, no account is added or lost, and all together they grow by at most the bytes charged to
  subscriptions in the same batch, however many accounts an email has on the node.
\<close>

theorem accounts_share_what_was_carried:
  assumes r: "persistBufferedTrafficThen env nodeID inbounds now (map Some rs) inTx st = (Inr through, st')" "rs \<noteq> []"
    and "counts_ok rs" "distinct (map inTag (filter (\<lambda>i. is_wireguard (inProtocol i)) inbounds))"
    and ids: "distinct (map acID (asRows (pnAccts (bkPanel st))))"
  shows "grown (asRows (pnAccts (bkPanel st))) (asRows (pnAccts (bkPanel st')))
    \<and> account_total (asRows (pnAccts (bkPanel st'))) \<le> account_total (asRows (pnAccts (bkPanel st)))
        + (carried (charged_to (\<lambda>i. True) env inbounds st) trUserUplink rs + carried (charged_to (\<lambda>i. True) env inbounds st) trUserDownlink rs)"
proof -
  obtain at t where T: "tallied env nodeID inbounds rs st at t"
    and b: "asRows (pnAccts (bkPanel st')) = acc_AddUsageDeltas (dlAccounts (all_deltas env now t at)) (asRows (pnAccts (bkPanel st)))"
    using persist_booked [OF r(1) assms(3,4) r(2)] by metis
  note sums = account_sums [OF T, of now]
  have "(\<Sum>d \<leftarrow> dlAccounts (all_deltas env now t at). auBytes d) \<le> int64_max"
    using sums(2) counts_bound(3) [OF assms(3), of "charged_to (\<lambda>i. True) env inbounds st" "\<lambda>r. True"] by simp
  from acc_AddUsageDeltas_one_by_one [OF ids sums(1) this] add_bytes_rows [OF sums(1) ids] sums(2)
  show ?thesis unfolding b by auto
qed



section \<open>Example\<close>

text \<open>Two records of one day with a customer, a stranger and a tunnel's hidden user.\<close>

definition demo_record :: "int \<Rightarrow> TrafficRecord" where
  "demo_record ts = \<lparr>trTimestamp = ts, trUserUplink = [(''u7'', 5), (''rvs-t1@reverse'', 9), (''who'', 1)], trUserDownlink = [(''u7'', 7)],
     trOutboundUplink = [], trOutboundDownlink = [], trInboundUplink = [], trInboundDownlink = [],
     trTotalUplink = 24, trTotalDownlink = 7, trCoreUsage = []\<rparr>"

definition demo_benv :: booking_env where
  "demo_benv = \<lparr>beTM = True, beAccountRepo = True, bePeerSource = False, beCoreUsage = True,
     beConfigEmail = (\<lambda>i. if i = 7 then ''u7'' else []), beInbounds = demo_inbounds, beAccess = None, beFails = (\<lambda>c. False)\<rparr>"

definition demo_booking :: "unit booking" where
  "demo_booking = \<lparr>bkPanel = demo_panel (fresh_sub 7), bkDaily = Map.empty, bkNodes = [(4, 0)], bkNodeDaily = Map.empty,
     bkOutbounds = [], bkTunnels = [\<lparr>rtID = 1, rtPortalNodeID = Some 4, rtBridgeNodeID = None, rtToBridge = 0, rtFromBridge = 0, rtDeleted = False\<rparr>],
     bkRest = ()\<rparr>"

abbreviation demo_records :: "TrafficRecord list" where
  "demo_records \<equiv> [demo_record 3600, demo_record 7200]"

lemma demo_hidden [simp]: "IsReverseEmail ''rvs-t1@reverse''" "\<not> IsReverseEmail ''u7''" "\<not> IsReverseEmail ''who''"
  by (simp_all add: IsReverseEmail_def has_prefix_def has_suffix_def cut_suffix_def ReverseTagPrefix_def)

lemma demo_counts: "counts_ok demo_records"
  by (simp add: counts_ok_def demo_record_def carried_def int64_max_def)

lemma demo_charged [simp]:
  "charged_to Q demo_benv inbounds demo_booking ''u7'' = Q 7" "\<not> charged_to Q demo_benv inbounds demo_booking ''who''"
  by (simp_all add: charged_to_def owner_def peer_of_def last_such_def demo_benv_def demo_booking_def demo_panel_def fresh_sub_def)

lemma demo_books:
  obtains through st' where "persistBufferedTrafficThen demo_benv 4 [demo_inbound] 9 (map Some demo_records) None demo_booking = (Inr through, st')"
  using booking_returns [where env = demo_benv and records = "map Some demo_records" and inTx = None and st = demo_booking
      and nodeID = 4 and inbounds = "[demo_inbound]" and now = 9]
  by (auto simp: demo_benv_def demo_record_def)

theorem traffic_is_charged_exactly_once_witness:
  "\<exists>st' seen. persistBufferedTrafficThen demo_benv 4 [demo_inbound] 9 (map Some demo_records) None demo_booking = (Inr 7200, st')
    \<and> sub_FindByID 7 (pnSubs (bkPanel st')) = Some (charge 10 14 seen (fresh_sub 7))
    \<and> day_used (bkDaily st' (7, unix_day 3600)) = 24"
proof -
  obtain through st' where r: "persistBufferedTrafficThen demo_benv 4 [demo_inbound] 9 (map Some demo_records) None demo_booking = (Inr through, st')"
    by (rule demo_books)
  have s: "sub_FindByID 7 (pnSubs (bkPanel demo_booking)) = Some (fresh_sub 7)"
    by (simp add: demo_booking_def demo_panel_def sub_FindByID_def fresh_sub_def)
  have d: "unix_day 7200 = unix_day 3600" "bkDaily demo_booking (7, unix_day 3600) = None"
    by (simp_all add: unix_day_def utc_day_def day_def minute_def demo_booking_def)
  show ?thesis
    using traffic_is_charged_exactly_once [OF r _ demo_counts _ s, of "unix_day 3600"] r
    by (simp add: carried_def demo_record_def d day_used_def)
qed

theorem accounts_share_what_was_carried_witness:
  "\<exists>through st'. persistBufferedTrafficThen demo_benv 4 [demo_inbound] 9 (map Some demo_records) None demo_booking = (Inr through, st')
    \<and> account_total (asRows (pnAccts (bkPanel st'))) \<le> 24"
proof -
  obtain through st' where r: "persistBufferedTrafficThen demo_benv 4 [demo_inbound] 9 (map Some demo_records) None demo_booking = (Inr through, st')"
    by (rule demo_books)
  have a: "asRows (pnAccts (bkPanel demo_booking)) = [new_account 0 1 1 ''u7'' ''id'' [] [] SourceSubscription (Some 7) 0]"
    by (simp add: demo_booking_def demo_panel_rows)
  show ?thesis
    using accounts_share_what_was_carried [OF r _ demo_counts] r by (simp add: carried_def demo_record_def a new_account_def)
qed


end
