(* ===== verification/Traffic_Sync.thy ===== *)
theory Traffic_Sync
  imports Traffic_Persist Traffic_Store
begin

text \<open>
  From the agent's buffer to the panel's tables: \<open>GetBufferedTraffic\<close> and \<open>AckBufferedTraffic\<close> of
  \<open>internal/agent/server/server.go\<close>, the conversion of \<open>pkg/agent/convert.go\<close> and the traffic part of
  \<open>syncSingleNode\<close> in \<open>internal/node/usecase/node_stats.go\<close>. The agent's store and the panel's booking
  are those of the other theories. The first theorem shows that a sweep moves the buffer into the
  tables; the second that what the agent files between the reading and the acknowledgement is lost.
\<close>

section \<open>The agent's side\<close>

definition coreUsageRecords :: "(string \<times> (string \<times> CoreUsageCounts) list) list \<Rightarrow> CoreUsageEntry list" where
  "coreUsageRecords cu = concat (map (\<lambda>(proto, byEmail).
     map (\<lambda>(email, c). \<lparr>ceProtocol = proto, ceEmail = email, ceUplink = Uplink c, ceDownlink = Downlink c\<rparr>) byEmail) cu)"

definition record_of :: "TrafficBucket \<Rightarrow> TrafficRecord" where
  "record_of b = \<lparr>trTimestamp = Timestamp b, trUserUplink = UserUplink b, trUserDownlink = UserDownlink b,
     trOutboundUplink = OutboundUplink b, trOutboundDownlink = OutboundDownlink b,
     trInboundUplink = InboundUplink b, trInboundDownlink = InboundDownlink b,
     trTotalUplink = TotalUplink b, trTotalDownlink = TotalDownlink b, trCoreUsage = coreUsageRecords (CoreUsage b)\<rparr>"

text \<open>The records with the first and the last time; no store is no records.\<close>

definition GetBufferedTraffic :: "MemoryStore option \<Rightarrow> TrafficRecord list \<times> int \<times> int" where
  "GetBufferedTraffic store = (case store of
     None \<Rightarrow> ([], 0, 0)
   | Some m \<Rightarrow> let bs = GetAll m in
       (map record_of bs,
        fold (\<lambda>b startTime. if startTime = 0 \<or> Timestamp b < startTime then Timestamp b else startTime) bs 0,
        fold (\<lambda>b endTime. if Timestamp b > endTime then Timestamp b else endTime) bs 0))"

definition AckBufferedTraffic :: "int \<Rightarrow> MemoryStore option \<Rightarrow> MemoryStore option" where
  "AckBufferedTraffic acked store = map_option (Drain acked) store"

section \<open>The panel's side\<close>

text \<open>The records behind pointers; the wire type and the panel's have the same fields.\<close>

definition BufferedTrafficFromPB :: "(TrafficRecord list \<times> int \<times> int) option \<Rightarrow> TrafficRecord option list option" where
  "BufferedTrafficFromPB resp = map_option (\<lambda>(records, startTime, endTime). map Some records) resp"

text \<open>The acknowledgement to send, if any, and the tables. \<^term>\<open>None\<close> for a reply that did not come.\<close>

definition sync_traffic ::
    "booking_env \<Rightarrow> nat \<Rightarrow> Inbound list \<Rightarrow> nat \<Rightarrow> TrafficRecord option list option \<Rightarrow> 'w booking \<Rightarrow> int option \<times> 'w booking" where
  "sync_traffic env nodeID inbounds now bufferedStats st =
     (case bufferedStats of
        None \<Rightarrow> (None, st)
      | Some records \<Rightarrow>
          if records = [] then (None, st)
          else (case persistBufferedTraffic env nodeID inbounds now records st of
              (Inl e, st') \<Rightarrow> (None, st')
            | (Inr through, st') \<Rightarrow> (if through > 0 then Some through else None, st')))"

section \<open>What a sweep moves\<close>

text \<open>The bytes the buckets hold of the emails a subscription owns.\<close>

definition held :: "(string \<Rightarrow> bool) \<Rightarrow> (TrafficBucket \<Rightarrow> (string \<times> int) list) \<Rightarrow> MemoryStore \<Rightarrow> int" where
  "held P f m = (\<Sum>(ts, b) \<leftarrow> buckets m. bytes_of (\<lambda>k. \<not> IsReverseEmail k \<and> P k) (f b))"

lemma sum_list_sort_key: "(\<Sum>x \<leftarrow> sort_key h xs. g x) = (\<Sum>x \<leftarrow> xs. g x :: int)"
proof -
  have "sum_mset (mset (map g (sort_key h xs))) = sum_mset (mset (map g xs))" by simp
  then show ?thesis by (simp only: sum_mset_sum_list)
qed

lemma carried_held:
  "carried P trUserUplink (map record_of (GetAll m)) = held P UserUplink m"
  "carried P trUserDownlink (map record_of (GetAll m)) = held P UserDownlink m"
  by (simp_all add: carried_def held_def GetAll_def comp_def record_of_def sum_list_sort_key case_prod_unfold)

lemma fold_max_start: "(s::int) \<le> fold max ts s"
  by (induction ts arbitrary: s) (auto intro: order_trans [OF max.cobounded2])

lemma fold_max_ge: "(t::int) \<in> set ts \<Longrightarrow> t \<le> fold max ts s"
  by (induction ts arbitrary: s) (auto intro: order_trans [OF max.cobounded1 fold_max_start])

lemma acked_all:
  assumes "\<forall>tb \<in> set (buckets m). Timestamp (snd tb) = fst tb" "set (keys (buckets m')) \<subseteq> set (keys (buckets m))"
  shows "buckets (Drain (fold max (map trTimestamp (map record_of (GetAll m))) 0) m') = []"
proof -
  have "ts \<le> fold max (map trTimestamp (map record_of (GetAll m))) 0" if ts: "ts \<in> set (keys (buckets m'))" for ts
  proof -
    obtain b where "(ts, b) \<in> set (buckets m)" using ts assms(2) by auto
    then have "ts \<in> set (map trTimestamp (map record_of (GetAll m)))" using assms(1) by (force simp: GetAll_def record_of_def)
    then show ?thesis by (rule fold_max_ge)
  qed
  then show ?thesis by (force simp: Drain_def filter_empty_conv)
qed


lemma store_counts_ok:
  assumes ok: "buckets_ok (buckets m)" and fits: "held (\<lambda>k. True) UserUplink m + held (\<lambda>k. True) UserDownlink m \<le> int64_max"
  shows "counts_ok (map record_of (GetAll m))"
proof -
  have "0 \<le> n" if b: "b \<in> set (GetAll m)" and n: "(k, n) \<in> set (cnt f b)" for b k n f
  proof -
    obtain ts where "(ts, b) \<in> set (buckets m)" using b by (auto simp: GetAll_def)
    then have "distinct (keys (cnt f b))" "0 \<le> get (cnt f b) k" using ok by (auto simp: buckets_ok_def bucket_ok_def)
    then show ?thesis using get_in [of "cnt f b" k n] n by simp
  qed
  from this [where f = UserUp] this [where f = UserDown] show ?thesis
    using fits carried_held [of "\<lambda>k. True" m] by (auto simp: counts_ok_def list_all_iff record_of_def)
qed

lemma sync_booked:
  assumes "sync_traffic env nodeID inbounds now (BufferedTrafficFromPB (Some (GetBufferedTraffic (Some m)))) st = (Some through, st')"
  shows "persistBufferedTrafficThen env nodeID inbounds now (map Some (map record_of (GetAll m))) None st = (Inr through, st')" "GetAll m \<noteq> []"
  using assms by (auto simp: sync_traffic_def BufferedTrafficFromPB_def GetBufferedTraffic_def Let_def persistBufferedTraffic_def
      split: if_splits sum.splits prod.splits)

lemma sync_charges:
  assumes sync: "sync_traffic env nodeID inbounds now (BufferedTrafficFromPB (Some (GetBufferedTraffic (Some m)))) st = (Some through, st')"
    and ok: "buckets_ok (buckets m)" "held (\<lambda>k. True) UserUplink m + held (\<lambda>k. True) UserDownlink m \<le> int64_max"
    and tags: "distinct (map inTag (filter (\<lambda>i. is_wireguard (inProtocol i)) inbounds))"
    and s: "sub_FindByID i (pnSubs (bkPanel st)) = Some s"
  shows "\<exists>seen. sub_FindByID i (pnSubs (bkPanel st')) = Some (charge (held (charged_to (\<lambda>j. i = j) env inbounds st) UserUplink m)
      (held (charged_to (\<lambda>j. i = j) env inbounds st) UserDownlink m) seen s)"
    "through = fold max (map trTimestamp (map record_of (GetAll m))) 0"
proof -
  note b = sync_booked [OF sync]
  obtain at t where T: "tallied env nodeID inbounds (map record_of (GetAll m)) st at t" and th: "through = taThrough t"
    and subs: "pnSubs (bkPanel st') = AddUsageDeltas (dlSubs (all_deltas env now t at)) (pnSubs (bkPanel st))"
    using persist_booked [OF b(1) store_counts_ok [OF ok] tags] b(2) by (metis map_is_Nil_conv)
  show "\<exists>seen. sub_FindByID i (pnSubs (bkPanel st')) = Some (charge (held (charged_to (\<lambda>j. i = j) env inbounds st) UserUplink m)
      (held (charged_to (\<lambda>j. i = j) env inbounds st) UserDownlink m) seen s)"
    using AddUsageDeltas_row [OF sub_deltas_fit [OF T] s, of now] sub_sums [OF T, where Q = "\<lambda>j. i = j" and now = now]
    by (simp add: subs carried_held eq_commute [of i])
  show "through = fold max (map trTimestamp (map record_of (GetAll m))) 0"
    using th through_all [of "map record_of (GetAll m)" tally_empty] talliedD(2) [OF T] by (simp add: tally_empty_def)
qed

lemma stamps: "buckets_ok (buckets m) \<Longrightarrow> \<forall>tb \<in> set (buckets m). Timestamp (snd tb) = fst tb"
  by (auto simp: buckets_ok_def bucket_ok_def)

text \<open>
  C9. A sweep moves the agent's buffer into the panel's tables. When a sweep has read the buffer,
  booked it and has a time to acknowledge, every subscription is charged exactly what the buckets
  hold of its emails, and the acknowledgement leaves the buffer of that reading empty: the next
  sweep cannot book a bucket again.
\<close>

theorem sweep_moves_the_buffer:
  assumes sync: "sync_traffic env nodeID inbounds now (BufferedTrafficFromPB (Some (GetBufferedTraffic (Some m)))) st = (Some through, st')"
    and ok: "buckets_ok (buckets m)" "held (\<lambda>k. True) UserUplink m + held (\<lambda>k. True) UserDownlink m \<le> int64_max"
    and tags: "distinct (map inTag (filter (\<lambda>i. is_wireguard (inProtocol i)) inbounds))"
    and s: "sub_FindByID i (pnSubs (bkPanel st)) = Some s"
  shows "(\<exists>seen. sub_FindByID i (pnSubs (bkPanel st')) = Some (charge (held (charged_to (\<lambda>j. i = j) env inbounds st) UserUplink m)
      (held (charged_to (\<lambda>j. i = j) env inbounds st) UserDownlink m) seen s))
    \<and> map_option buckets (AckBufferedTraffic through (Some m)) = Some []"
  using sync_charges [OF assms] acked_all [OF stamps [OF ok(1)], of m] by (simp add: AckBufferedTraffic_def)

text \<open>
  C26. What the agent files between the reading and the acknowledgement is lost. The agent goes on
  collecting into the bucket of the hour while the panel books; the acknowledgement names the time
  of that bucket and drops it whole. The subscriptions are charged what the first reading held, the
  buffer is empty, and the bytes collected in between are in neither.
\<close>

theorem bytes_filed_before_the_ack_are_lost:
  assumes sync: "sync_traffic env nodeID inbounds now (BufferedTrafficFromPB (Some (GetBufferedTraffic (Some m)))) st = (Some through, st')"
    and ok: "buckets_ok (buckets m)" "held (\<lambda>k. True) UserUplink m + held (\<lambda>k. True) UserDownlink m \<le> int64_max"
    and tags: "distinct (map inTag (filter (\<lambda>i. is_wireguard (inProtocol i)) inbounds))"
    and s: "sub_FindByID i (pnSubs (bkPanel st)) = Some s"
    and late: "Accumulate (Some snap) time m = Some m'" "truncateTime m time = Some ts" "ts \<in> set (keys (buckets m))"
  shows "(\<exists>seen. sub_FindByID i (pnSubs (bkPanel st')) = Some (charge (held (charged_to (\<lambda>j. i = j) env inbounds st) UserUplink m)
      (held (charged_to (\<lambda>j. i = j) env inbounds st) UserDownlink m) seen s))
    \<and> map_option buckets (AckBufferedTraffic through (Some m')) = Some []"
proof -
  have "set (keys (buckets m')) \<subseteq> set (keys (filed snap ts (buckets m)))" using late(1,2) by (auto simp: Accumulate_def Let_def)
  also have "\<dots> = set (keys (buckets m))" using late(3) by (simp add: filed_def dom_update insert_absorb)
  finally show ?thesis
    using sync_charges [OF assms(1-5)] acked_all [OF stamps [OF ok(1)], of m'] by (simp add: AckBufferedTraffic_def)
qed


section \<open>Example\<close>

definition demo_bucket :: TrafficBucket where
  "demo_bucket = (newBucket 3600)\<lparr>UserUplink := [(''u7'', 5), (''rvs-t1@reverse'', 9)], UserDownlink := [(''u7'', 7)]\<rparr>"

definition demo_store :: MemoryStore where
  "demo_store = \<lparr>buckets = [(3600, demo_bucket)], baseline = None, bucketDuration = 3600, retention = 604800\<rparr>"

definition late_snapshot :: XrayStatsSnapshot where
  "late_snapshot = emptySnapshot\<lparr>UserUplink := [(''u7'', 11)]\<rparr>"

lemma demo_store_ok: "buckets_ok (buckets demo_store)"
proof -
  have "distinct (keys (cnt f demo_bucket)) \<and> 0 \<le> get (cnt f demo_bucket) k" for f k
    by (cases f) (simp_all add: demo_bucket_def newBucket_def get_Cons)
  then show ?thesis by (simp add: buckets_ok_def bucket_ok_def demo_store_def) (simp add: demo_bucket_def newBucket_def)
qed

lemma demo_held:
  "held P UserUplink demo_store = (if P ''u7'' then 5 else 0)" "held P UserDownlink demo_store = (if P ''u7'' then 7 else 0)"
  by (simp_all add: held_def demo_store_def demo_bucket_def newBucket_def)

lemma demo_syncs:
  obtains st' where "sync_traffic demo_benv 4 [demo_inbound] 9 (BufferedTrafficFromPB (Some (GetBufferedTraffic (Some demo_store)))) demo_booking = (Some 3600, st')"
proof -
  have all: "GetAll demo_store = [demo_bucket]" by (simp add: GetAll_def demo_store_def)
  have ts: "trTimestamp (record_of demo_bucket) = 3600" by (simp add: record_of_def demo_bucket_def newBucket_def)
  obtain through st' where r: "persistBufferedTrafficThen demo_benv 4 [demo_inbound] 9 (map Some [record_of demo_bucket]) None demo_booking = (Inr through, st')"
    using booking_returns [where env = demo_benv and records = "map Some [record_of demo_bucket]" and inTx = None and st = demo_booking
      and nodeID = 4 and inbounds = "[demo_inbound]" and now = 9] by (auto simp: demo_benv_def ts)
  have ok: "counts_ok (map record_of (GetAll demo_store))" by (rule store_counts_ok [OF demo_store_ok]) (simp add: demo_held int64_max_def)
  obtain at t where T: "tallied demo_benv 4 [demo_inbound] [record_of demo_bucket] demo_booking at t" and th: "through = taThrough t"
    by (rule persist_booked [OF r]) (use ok in \<open>simp_all add: all\<close>)
  have "through = 3600" unfolding th talliedD(2) [OF T] through_all by (simp add: tally_empty_def ts)
  then show thesis using r that
    by (simp add: sync_traffic_def BufferedTrafficFromPB_def GetBufferedTraffic_def all Let_def persistBufferedTraffic_def)
qed

lemma demo_sub: "sub_FindByID 7 (pnSubs (bkPanel demo_booking)) = Some (fresh_sub 7)"
  by (simp add: demo_booking_def demo_panel_def sub_FindByID_def fresh_sub_def)

theorem sweep_moves_the_buffer_witness:
  "\<exists>st' seen. sync_traffic demo_benv 4 [demo_inbound] 9 (BufferedTrafficFromPB (Some (GetBufferedTraffic (Some demo_store)))) demo_booking = (Some 3600, st')
    \<and> sub_FindByID 7 (pnSubs (bkPanel st')) = Some (charge 5 7 seen (fresh_sub 7))
    \<and> map_option buckets (AckBufferedTraffic 3600 (Some demo_store)) = Some []"
proof -
  obtain st' where r: "sync_traffic demo_benv 4 [demo_inbound] 9 (BufferedTrafficFromPB (Some (GetBufferedTraffic (Some demo_store)))) demo_booking = (Some 3600, st')"
    by (rule demo_syncs)
  show ?thesis using sweep_moves_the_buffer [OF r demo_store_ok _ _ demo_sub] r by (simp add: demo_held int64_max_def)
qed

theorem bytes_filed_before_the_ack_are_lost_witness:
  "\<exists>st' seen m'. sync_traffic demo_benv 4 [demo_inbound] 9 (BufferedTrafficFromPB (Some (GetBufferedTraffic (Some demo_store)))) demo_booking = (Some 3600, st')
    \<and> Accumulate (Some late_snapshot) 7100 demo_store = Some m' \<and> buffered (buckets m') UserUp ''u7'' = 16
    \<and> sub_FindByID 7 (pnSubs (bkPanel st')) = Some (charge 5 7 seen (fresh_sub 7))
    \<and> map_option buckets (AckBufferedTraffic 3600 (Some m')) = Some []"
proof -
  obtain st' where r: "sync_traffic demo_benv 4 [demo_inbound] 9 (BufferedTrafficFromPB (Some (GetBufferedTraffic (Some demo_store)))) demo_booking = (Some 3600, st')"
    by (rule demo_syncs)
  have t: "truncateTime demo_store 7100 = Some 3600" by (simp add: truncateTime_def demo_store_def go_quot_def)
  obtain m' where m': "Accumulate (Some late_snapshot) 7100 demo_store = Some m'"
    and b: "buckets m' = filter (\<lambda>(ts, b). \<not> ts < 7100 - retention demo_store) (filed late_snapshot 3600 (buckets demo_store))"
    by (simp add: Accumulate_def t Let_def)
  have "buffered (buckets m') UserUp ''u7'' = 16" unfolding b
    by (auto simp: demo_store_def filed_def merge_bucket_def merge_counts_def merge_core_def late_snapshot_def
        emptySnapshot_def demo_bucket_def newBucket_def buffered_def get_Cons wrap64_def)
  then show ?thesis
    using bytes_filed_before_the_ack_are_lost [OF r demo_store_ok _ _ demo_sub m' t] r m'
    by (simp add: demo_held int64_max_def) (simp add: demo_store_def)
qed

end
