(* ===== verification/Spec2Isabelle.thy ===== *)
theory Spec2Isabelle
  imports Firewall Health Pool Bandwidth Jobs Usage_Protocol Release_Version Login_Limiter Stats_Gate Traffic_Sync
begin

text \<open>
  A verification library for the nasnet panel, the Go program under \<open>src/\<close>.

  The program is a control panel for a router and for VPN nodes. One process holds the database, a
  web panel and Telegram bots, and drives an agent on every node. Five parts carry its own logic and
  are modelled here; each definition is a translation of the functions it is mapped to, as a total
  and executable function of the state it changes.

  \<^bold>\<open>1. The router\<close> (\<open>internal/network\<close>, \<open>pkg/netmark\<close>, \<open>pkg/bandwidth\<close>). Interfaces get roles;
  uplinks are probed; traffic is routed by marks and policy rules through uplinks and tunnels.

    \<^item> \<open>Netmark\<close>: the 32-bit mark word. Locale \<open>mark_field\<close> is the contract of a field of the word,
      interpreted for the group and the pin.
    \<^item> \<open>Bandwidth\<close>: the tiers of \<open>pkg/bandwidth/tiers.go\<close>.
    \<^item> \<open>Netip\<close>: what the sources use of Go's \<open>netip\<close> and \<open>strconv\<close>.
    \<^item> \<open>Net_Domain\<close>, \<open>Net_Validate\<close>: the rows (\<open>domain/interface.go\<close>, \<open>wan.go\<close>, \<open>lan.go\<close>) and the form
      rules V1 to V42 (\<open>domain/validate.go\<close>), with the transaction that stores a role change. Whatever
      sequence of accepted changes ran, the rows keep their slots apart and their networks disjoint.
    \<^item> \<open>Routing_Rules\<close>: the policy rules (\<open>usecase/rules.go\<close>) and the reconciler against a kernel
      backend. Locale \<open>rule_backend\<close> is what the reconciler relies on, interpreted on the in-memory
      backend \<open>system/fake.go\<close>. Traffic for tunnels never leaves by an uplink's own table.
    \<^item> \<open>Port_Forward\<close>: the forwards, their check and the rules rendered from them; no two enabled
      forwards ever collide.
    \<^item> \<open>Health\<close>: the damper of probe results and the default routes; locale \<open>route_backend\<close>.
    \<^item> \<open>Pool\<close>: the chain of tunnels, its strategies and the domestic failover.

  \<^bold>\<open>2. Remote nodes\<close> (\<open>internal/remotenodes\<close>, \<open>internal/agent/traffic\<close>). The hub runs background jobs
  on nodes and collects their traffic from the agents' buffers.

    \<^item> \<open>Job_Text\<close>, \<open>Jobs\<close>: the engine with its limits, reports and followers, as a step relation;
      secrets of a job never show; a follower sees the latest state.
    \<^item> \<open>Bounded_Logs\<close>: locale \<open>bounded_log\<close> with a reference behaviour, interpreted for the line buffer
      of the agent and the byte ring of the bridge.
    \<^item> \<open>Go_Maps\<close>, \<open>Node_Emails\<close>, \<open>Usage_History\<close>, \<open>Usage_File\<close>, \<open>Usage_Collect\<close>, \<open>Traffic_Store\<close>: the
      history, its file at the level of the marshalled document, the polls, and the agent's buckets.
    \<^item> \<open>Usage_Protocol\<close>: collector, file and agents together with restarts and lost answers; every byte
      is counted once.

  \<^bold>\<open>3. Subscriptions and their access\<close> (\<open>internal/subscription\<close>, \<open>internal/account\<close>,
  \<open>internal/wireguard\<close>, \<open>internal/core\<close>, \<open>internal/provisioning\<close>, \<open>internal/admin\<close>). A subscription has a
  status, an end date and a data limit, and owns Xray accounts, WireGuard peers and tunnel users in
  three tables. Changes of accounts reach the nodes through a queue with retries; every push to a node
  asks the subscriptions again.

    \<^item> \<open>Usage_Batches\<close>: the batched counter statements. Locales \<open>update_batches\<close> and \<open>row_batches\<close> (one
      a sublocale of the other) state what a statement must do to one row; five interpretations, in
      \<open>Wg_Peers\<close>, \<open>Subscription\<close> (two), \<open>Account\<close> and \<open>Core_Users\<close>, show that the batches are the single
      updates one by one.
    \<^item> \<open>Ipam\<close>, \<open>Wg_Peers\<close>, \<open>Wg_Devices\<close>: addresses, the peer table and the devices of a subscription.
      The address plan holds after every run of requests, with other requests in between.
    \<^item> \<open>Subscription\<close>: limits, dates, \<open>GrantsAccess\<close>, the writes and lists of the table.
    \<^item> \<open>Account\<close>, \<open>Account_Usecase\<close>: the accounts and every operation on them with the tasks it queues.
      \<open>wanted\<close> is what the nodes should have by the table, \<open>carried_out\<close> what the queue gives them; every
      run of operations keeps them equal.
    \<^item> \<open>Provisioning\<close>: the task table and the worker. The node is a record of ports; \<open>prov_run\<close> is the step
      relation of enqueueing and batches. Tries are bounded and spaced, a batch settles what is due, a
      finished task is applied.
    \<^item> \<open>Core_Users\<close>: SSH and MTProto users and the state a node is told.
    \<^item> \<open>Access_Lifecycle\<close>: cancel, revoke, pause, resume, extend, limits, sweeps, bans and bulk actions
      over all of these tables, and the three gates of a push. Only granted access reaches a node,
      the sweeps cut off what is over and nothing else, a ban can be undone.

  \<^bold>\<open>4. Charging for traffic\<close> (\<open>internal/node/usecase/traffic_batch.go\<close>, \<open>node_stats.go\<close>). The panel sweeps the
  buffers of its own nodes' agents and books them.

    \<^item> \<open>Reverse_Tunnel\<close>: the names by which the statistics know a tunnel, and that no customer has one.
    \<^item> \<open>Stats_Gate\<close>: the gate that lets one reader at a time have a node, as a step relation.
    \<^item> \<open>Traffic_Persist\<close>: a batch is added up, its emails are given to subscriptions, accounts, peers and
      tunnel users, and one transaction adds the sums to the tables of part 3. \<open>owner\<close> says whose an
      email is and \<open>carried\<close> what records hold of some emails; a subscription is charged exactly that, in
      its counters and on its days, a batch is booked whole or not at all, and accounts together are
      never charged more.
    \<^item> \<open>Traffic_Sync\<close>: the agent's store of part 2 and the booking together. A sweep moves what was read;
      what is filed between the reading and the acknowledgement is lost.

  \<^bold>\<open>5. Shared packages\<close>: \<open>Release_Version\<close> (\<open>pkg/release\<close>: reading, printing and ordering versions),
  \<open>Login_Limiter\<close> (\<open>pkg/ratelimit\<close>).

  \<open>Prelude\<close> has what all of these use: Go's integers (\<open>wrap64\<close>), bytes and strings, sorting and lookup
  lemmas, and the collections \<open>go_simps\<close> and \<open>inv_intros\<close>.

  Conventions. Times are integers in nanoseconds and arguments of the operations. A database row is a
  record, a table a list in the order of creation; an operation whose only error is that of the
  database is total. Go maps are association lists or functions. Errors are values. Go integers wrap
  where the code computes with them; the columns of the database do not. Pushes to nodes, keys, clocks
  and the kernel are ports: arguments of the definitions, with what the code relies on as named
  hypotheses, each with a witness.

  Bounds and fuel. Loops are structural or folds over the lists the code walks. The search of the
  address allocator is a recursion with a measure (the addresses left in the pool) and needs no fuel.
  The retry loop of \<open>allocateAndCreate\<close> counts down from the constant in the code. The worker's backoff
  stays exact in the range the retries allow.

  Not modelled. The web panel, HTTP handlers and Telegram bots decode requests and render results; the
  Xray configuration (\<open>pkg/xray\<close>) is a document whose meaning is a third-party program's; the agent's
  gRPC server, ACME, Docker, systemd and netlink calls are glue to the operating system; generated
  protocol code. Of the modelled packages: links and client configurations of Xray, log aggregates,
  filtered and paginated lists, notifications, metrics and floating-point percentages. JSON is taken at
  the level of the documents that are marshalled.
\<close>

end
